(* ===== verification/Prelude.thy ===== *)
theory Prelude
  imports Main "HOL-Library.Word"
begin

text \<open>
  Vocabulary shared by every component: bytes and slices, the crate's error type
  (\<^verbatim>\<open>src/error.rs\<close>), fallible results as sums, 64-bit wrap-around, and the generic list
  lemmas about reading and overwriting a prefix of a buffer.
\<close>

unbundle bit_operations_syntax

named_theorems slice_simps \<open>reading sub-slices of concatenated buffers\<close>

section \<open>Bytes\<close>

type_synonym byte = "8 word"
type_synonym bytes = "byte list"

lemma byte_bound: "unat (b :: byte) < 256"
  using unsigned_less [of b] by simp

text \<open>A byte-string literal, such as \<^verbatim>\<open>b"ustar"\<close> in the source.\<close>

definition ascii :: "string \<Rightarrow> bytes" where
  "ascii s = map of_char s"

lemma ascii_Nil [simp]: "ascii [] = []"
  by (simp add: ascii_def)

lemma ascii_Cons [simp]: "ascii (c # s) = of_char c # ascii s"
  by (simp add: ascii_def)

lemma length_ascii [simp]: "length (ascii s) = length s"
  by (simp add: ascii_def)

text \<open>The slice \<^verbatim>\<open>&xs[a..b]\<close>.\<close>

definition subslice :: "nat \<Rightarrow> nat \<Rightarrow> 'a list \<Rightarrow> 'a list" where
  "subslice a b xs = take (b - a) (drop a xs)"

text \<open>\<^verbatim>\<open>buf[pos..pos + xs.len()].copy_from_slice(xs)\<close>: overwrite part of a buffer.\<close>

definition copy_into :: "'a list \<Rightarrow> nat \<Rightarrow> 'a list \<Rightarrow> 'a list" where
  "copy_into buf pos xs = take pos buf @ xs @ drop (pos + length xs) buf"

section \<open>Errors\<close>

text \<open>
  The variants of \<^verbatim>\<open>Error\<close>. The message of a variant is the text of the source's literal or
  format string, with its arguments left out. \<open>Panicked\<close> is no variant of it: it stands for a panic,
  which ends the call and everything above it.
\<close>

datatype error =
    UnsupportedFormat
  | InvalidTarHeader string
  | InvalidCpioHeader string
  | InvalidArHeader string
  | DecompressionError string
  | CheckpointError string
  | FileNotFound bytes
  | IndexError string
  | IndexVersionMismatch nat nat
  | StaleIndex
  | TruncatedInput
  | TruncatedArchive string
  | IoError string
  | Serialization string
  | InvalidState string
  | Panicked string

type_synonym 'a result = "error + 'a"

text \<open>The \<^verbatim>\<open>?\<close> operator: go on with the value, or return the error.\<close>

definition and_then :: "'e + 'a \<Rightarrow> ('a \<Rightarrow> 'e + 'b) \<Rightarrow> 'e + 'b" where
  "and_then r f = (case r of Inl e \<Rightarrow> Inl e | Inr x \<Rightarrow> f x)"

lemma and_then_simps [simp]:
  "and_then (Inl e) f = Inl e"
  "and_then (Inr x) f = f x"
  by (simp_all add: and_then_def)

lemma and_then_Inr_iff: "and_then r f = Inr y \<longleftrightarrow> (\<exists>x. r = Inr x \<and> f x = Inr y)"
  by (cases r) simp_all

lemma and_then_cong [fundef_cong]:
  "r = r' \<Longrightarrow> (\<And>x. r' = Inr x \<Longrightarrow> f x = g x) \<Longrightarrow> and_then r f = and_then r' g"
  by (cases r') simp_all

text \<open>\<^verbatim>\<open>ok_or(e)\<close>.\<close>

definition ok_or :: "'a option \<Rightarrow> 'e \<Rightarrow> 'e + 'a" where
  "ok_or x e = (case x of None \<Rightarrow> Inl e | Some v \<Rightarrow> Inr v)"

lemma ok_or_simps [simp]:
  "ok_or None e = Inl e"
  "ok_or (Some v) e = Inr v"
  by (simp_all add: ok_or_def)

text \<open>\<^verbatim>\<open>map_err(f)\<close>.\<close>

definition map_err :: "('e \<Rightarrow> 'f) \<Rightarrow> 'e + 'a \<Rightarrow> 'f + 'a" where
  "map_err f r = (case r of Inl e \<Rightarrow> Inl (f e) | Inr x \<Rightarrow> Inr x)"

lemma map_err_simps [simp]:
  "map_err f (Inl e) = Inl (f e)"
  "map_err f (Inr x) = Inr x"
  by (simp_all add: map_err_def)

lemma map_err_Inr_iff [simp]: "map_err f r = Inr y \<longleftrightarrow> r = Inr y"
  by (cases r) simp_all

section \<open>Fixed-width arithmetic\<close>

text \<open>
  Counters and sizes (\<^verbatim>\<open>usize\<close>, \<^verbatim>\<open>u64\<close>) are natural numbers; where a value read from the
  input can leave 64 bits, the wrap-around of a release build is written out with these.
\<close>

definition wrap64 :: "nat \<Rightarrow> nat" where
  "wrap64 n = n mod 2 ^ 64"

definition wrap32 :: "nat \<Rightarrow> nat" where
  "wrap32 n = n mod 2 ^ 32"

lemma wrap64_small [simp]: "n < 18446744073709551616 \<Longrightarrow> wrap64 n = n"
  by (simp add: wrap64_def)

lemma wrap32_small [simp]: "n < 4294967296 \<Longrightarrow> wrap32 n = n"
  by (simp add: wrap32_def)

lemma wrap32_bound [simp]: "wrap32 n < 4294967296"
  by (simp add: wrap32_def)

lemma wrap64_bound [simp]: "wrap64 n < 18446744073709551616"
  by (simp add: wrap64_def)

definition saturating_add64 :: "nat \<Rightarrow> nat \<Rightarrow> nat" where
  "saturating_add64 a b = min (a + b) (2 ^ 64 - 1)"

definition saturating_mul64 :: "nat \<Rightarrow> nat \<Rightarrow> nat" where
  "saturating_mul64 a b = min (a * b) (2 ^ 64 - 1)"

section \<open>List lemmas\<close>

lemma length_subslice [simp]: "length (subslice a b xs) = min (b - a) (length xs - a)"
  by (simp add: subslice_def)

lemma subslice_append_left [slice_simps]:
  "b \<le> length xs \<Longrightarrow> subslice a b (xs @ ys) = subslice a b xs"
  by (cases "a \<le> b") (auto simp: subslice_def)

lemma subslice_append_right [slice_simps]:
  "length xs \<le> a \<Longrightarrow> subslice a b (xs @ ys) = subslice (a - length xs) (b - length xs) ys"
  by (simp add: subslice_def)

lemma subslice_all [slice_simps]: "length xs \<le> b \<Longrightarrow> subslice 0 b xs = xs"
  by (simp add: subslice_def)

lemma length_copy_into [simp]:
  "pos + length xs \<le> length buf \<Longrightarrow> length (copy_into buf pos xs) = length buf"
  by (simp add: copy_into_def)

lemma copy_into_full: "pos = 0 \<Longrightarrow> length xs = length buf \<Longrightarrow> copy_into buf pos xs = xs"
  by (simp add: copy_into_def)

lemma take_copy_into:
  "pos \<le> length buf \<Longrightarrow> take (pos + length xs) (copy_into buf pos xs) = take pos buf @ xs"
  by (simp add: copy_into_def)

text \<open>Copying two pieces one after the other is copying their concatenation.\<close>

lemma copy_into_append:
  "pos + length xs + length ys \<le> length buf \<Longrightarrow>
   copy_into (copy_into buf pos xs) (pos + length xs) ys = copy_into buf pos (xs @ ys)"
  by (simp add: copy_into_def ac_simps)

lemma take_append_min:
  "take n (xs @ ys) = take (min n (length xs)) xs @ take (n - length xs) ys"
  by (cases "n \<le> length xs") (auto simp: min_def)

end
