(* ===== verification/Text.thy ===== *)
theory Text
  imports Prelude
begin

text \<open>
  The parts of Rust's \<^verbatim>\<open>String\<close> and integer parsing the archive parsers use. A string is the
  list of its UTF-8 bytes. \<open>utf8_head\<close> reads one chunk the way the standard library's decoder
  does; \<open>from_utf8_lossy\<close> replaces every maximal invalid chunk by U+FFFD.
\<close>

section \<open>UTF-8\<close>

definition utf8_width :: "byte \<Rightarrow> nat" where
  "utf8_width b =
     (if b < 0x80 then 1
      else if 0xC2 \<le> b \<and> b \<le> 0xDF then 2
      else if 0xE0 \<le> b \<and> b \<le> 0xEF then 3
      else if 0xF0 \<le> b \<and> b \<le> 0xF4 then 4
      else 0)"

definition is_cont :: "byte \<Rightarrow> bool" where
  "is_cont b \<longleftrightarrow> 0x80 \<le> b \<and> b \<le> 0xBF"

text \<open>The second byte a three- or four-byte sequence may continue with.\<close>

definition second_ok :: "byte \<Rightarrow> byte \<Rightarrow> bool" where
  "second_ok b c \<longleftrightarrow>
     (if b = 0xE0 then 0xA0 \<le> c \<and> c \<le> 0xBF
      else if b = 0xED then 0x80 \<le> c \<and> c \<le> 0x9F
      else if b = 0xF0 then 0x90 \<le> c \<and> c \<le> 0xBF
      else if b = 0xF4 then 0x80 \<le> c \<and> c \<le> 0x8F
      else is_cont c)"

text \<open>
  The first chunk of a nonempty string: its length, and whether it is one well-formed
  character (otherwise it is a maximal ill-formed sequence).
\<close>

definition utf8_head :: "bytes \<Rightarrow> nat \<times> bool" where
  "utf8_head xs =
     (let at = (\<lambda>i. if i < length xs then xs ! i else 0); b = at 0; w = utf8_width b in
      if w = 1 then (1, True)
      else if w = 0 then (1, False)
      else if \<not> second_ok b (at 1) then (1, False)
      else if w = 2 then (2, True)
      else if \<not> is_cont (at 2) then (2, False)
      else if w = 3 then (3, True)
      else if \<not> is_cont (at 3) then (3, False)
      else (4, True))"

lemma utf8_head_pos [simp]: "0 < fst (utf8_head xs)"
  by (simp add: utf8_head_def Let_def)

definition replacement :: bytes where
  "replacement = [0xEF, 0xBF, 0xBD]"

function from_utf8_lossy :: "bytes \<Rightarrow> bytes" where
  "from_utf8_lossy xs =
     (if xs = [] then []
      else let (n, ok) = utf8_head xs in
           (if ok then take n xs else replacement) @ from_utf8_lossy (drop n xs))"
  by pat_completeness auto
termination
proof (relation "measure length", simp)
  fix xs :: bytes and x n ok
  assume ne: "xs \<noteq> []" and x: "x = utf8_head xs" and p: "(n, ok) = x"
  from x p utf8_head_pos [of xs] have "0 < n" by (metis fst_conv)
  with ne show "(drop n xs, xs) \<in> measure length" by simp
qed

function utf8_valid :: "bytes \<Rightarrow> bool" where
  "utf8_valid xs =
     (if xs = [] then True
      else let (n, ok) = utf8_head xs in ok \<and> utf8_valid (drop n xs))"
  by pat_completeness auto
termination
proof (relation "measure length", simp)
  fix xs :: bytes and x n ok
  assume ne: "xs \<noteq> []" and x: "x = utf8_head xs" and p: "(n, ok) = x"
  from x p utf8_head_pos [of xs] have "0 < n" by (metis fst_conv)
  with ne show "(drop n xs, xs) \<in> measure length" by simp
qed

declare from_utf8_lossy.simps [simp del] utf8_valid.simps [simp del]

lemma from_utf8_lossy_Nil [simp]: "from_utf8_lossy [] = []"
  by (simp add: from_utf8_lossy.simps)

lemma utf8_valid_Nil [simp]: "utf8_valid []"
  by (simp add: utf8_valid.simps)

lemma utf8_head_ascii: "b < 0x80 \<Longrightarrow> utf8_head (b # xs) = (1, True)"
  by (simp add: utf8_head_def utf8_width_def)

lemma from_utf8_lossy_ascii_Cons [simp]:
  "b < 0x80 \<Longrightarrow> from_utf8_lossy (b # xs) = b # from_utf8_lossy xs"
  by (subst from_utf8_lossy.simps) (simp add: utf8_head_ascii)

lemma utf8_valid_ascii_Cons [simp]: "b < 0x80 \<Longrightarrow> utf8_valid (b # xs) = utf8_valid xs"
  by (subst utf8_valid.simps) (simp add: utf8_head_ascii)

text \<open>Valid text is left as it is.\<close>

lemma from_utf8_lossy_valid: "utf8_valid xs \<Longrightarrow> from_utf8_lossy xs = xs"
proof (induction xs rule: from_utf8_lossy.induct)
  case (1 xs)
  show ?case
  proof (cases "xs = []")
    case False
    obtain n ok where h: "utf8_head xs = (n, ok)" by fastforce
    from "1.prems" False h have ok: "ok" and v: "utf8_valid (drop n xs)"
      by (subst (asm) utf8_valid.simps, simp)+
    have "from_utf8_lossy (drop n xs) = drop n xs"
      using "1.IH" [OF False h [symmetric] refl v] .
    with False h ok show ?thesis by (subst from_utf8_lossy.simps) simp
  qed simp
qed

lemma ascii_utf8_valid: "\<forall>b \<in> set xs. b < 0x80 \<Longrightarrow> utf8_valid xs"
  by (induction xs) auto

lemma from_utf8_lossy_ascii: "\<forall>b \<in> set xs. b < 0x80 \<Longrightarrow> from_utf8_lossy xs = xs"
  by (rule from_utf8_lossy_valid [OF ascii_utf8_valid])

section \<open>Trimming\<close>

text \<open>\<^verbatim>\<open>trim_end_matches(c)\<close> for an ASCII character.\<close>

definition trim_end :: "byte \<Rightarrow> bytes \<Rightarrow> bytes" where
  "trim_end c s = rev (dropWhile (\<lambda>b. b = c) (rev s))"

lemma trim_end_snoc [simp]: "trim_end c (s @ [b]) = (if b = c then trim_end c s else s @ [b])"
  by (simp add: trim_end_def)

lemma trim_end_Nil [simp]: "trim_end c [] = []"
  by (simp add: trim_end_def)

lemma trim_end_append_replicate: "trim_end c (s @ replicate n c) = trim_end c s"
proof (induction n)
  case (Suc n)
  have "s @ replicate (Suc n) c = (s @ replicate n c) @ [c]"
    by (simp add: replicate_append_same)
  with Suc show ?case by (simp only: trim_end_snoc refl if_True)
qed simp

lemma trim_end_id: "s = [] \<or> last s \<noteq> c \<Longrightarrow> trim_end c s = s"
  by (cases s rule: rev_cases) auto

text \<open>\<^verbatim>\<open>strip_suffix(&[c]).unwrap_or(s)\<close>: at most one trailing \<open>c\<close> goes.\<close>

definition strip_one_end :: "byte \<Rightarrow> bytes \<Rightarrow> bytes" where
  "strip_one_end c s = (if s \<noteq> [] \<and> last s = c then butlast s else s)"

section \<open>Numbers\<close>

text \<open>\<^verbatim>\<open>char::to_digit(radix)\<close>.\<close>

definition to_digit :: "nat \<Rightarrow> byte \<Rightarrow> nat option" where
  "to_digit radix b =
     (let n = unat b;
          v = (if 48 \<le> n \<and> n \<le> 57 then n - 48
               else if 97 \<le> n \<and> n \<le> 122 then n - 87
               else if 65 \<le> n \<and> n \<le> 90 then n - 55
               else radix)
      in if v < radix then Some v else None)"

text \<open>The checked accumulation loop of \<^verbatim>\<open>from_str_radix\<close> for a 64-bit unsigned type.\<close>

fun parse_digits :: "nat \<Rightarrow> bytes \<Rightarrow> nat \<Rightarrow> nat option" where
  "parse_digits radix [] acc = Some acc"
| "parse_digits radix (b # bs) acc =
     (case to_digit radix b of
        None \<Rightarrow> None
      | Some d \<Rightarrow> if acc * radix + d < 2 ^ 64 then parse_digits radix bs (acc * radix + d)
                  else None)"

text \<open>\<^verbatim>\<open>u64::from_str_radix\<close>: an optional leading plus sign, then at least one digit.\<close>

definition from_str_radix :: "nat \<Rightarrow> bytes \<Rightarrow> nat option" where
  "from_str_radix radix s =
     (case s of
        [] \<Rightarrow> None
      | [b] \<Rightarrow> if b = 43 \<or> b = 45 then None else parse_digits radix [b] 0
      | b # bs \<Rightarrow> if b = 43 then parse_digits radix bs 0 else parse_digits radix s 0)"

lemma parse_digits_append:
  "parse_digits radix (xs @ ys) acc =
     (case parse_digits radix xs acc of None \<Rightarrow> None | Some v \<Rightarrow> parse_digits radix ys v)"
  by (induction xs arbitrary: acc) (auto split: option.splits)

lemma parse_digits_bound: "parse_digits radix xs acc = Some v \<Longrightarrow> acc < 2 ^ 64 \<Longrightarrow> v < 2 ^ 64"
  by (induction xs arbitrary: acc) (auto split: option.splits if_splits)

lemma from_str_radix_bound: "from_str_radix radix s = Some v \<Longrightarrow> v < 2 ^ 64"
  by (auto simp: from_str_radix_def simp del: parse_digits.simps
      split: list.splits if_splits dest!: parse_digits_bound)

text \<open>A fixed-width number as archive writers print it, most significant digit first.\<close>

definition digit_char :: "nat \<Rightarrow> byte" where
  "digit_char d = of_nat (if d < 10 then 48 + d else 87 + d)"

fun print_digits :: "nat \<Rightarrow> nat \<Rightarrow> nat \<Rightarrow> bytes" where
  "print_digits radix 0 n = []"
| "print_digits radix (Suc w) n = print_digits radix w (n div radix) @ [digit_char (n mod radix)]"

lemma length_print_digits [simp]: "length (print_digits radix w n) = w"
  by (induction w arbitrary: n) auto

lemma to_digit_digit_char: "d < radix \<Longrightarrow> radix \<le> 16 \<Longrightarrow> to_digit radix (digit_char d) = Some d"
  by (auto simp: to_digit_def digit_char_def unat_of_nat Let_def)

lemma digit_char_ascii: "d < 16 \<Longrightarrow> digit_char d < 0x80"
  by (auto simp: digit_char_def word_less_nat_alt unat_of_nat)

lemma parse_print_digits:
  assumes "2 \<le> radix" and "radix \<le> 16"
  shows "n < radix ^ w \<Longrightarrow> n < 2 ^ 64 \<Longrightarrow> parse_digits radix (print_digits radix w n) 0 = Some n"
proof (induction w arbitrary: n)
  case (Suc w)
  have "n div radix < radix ^ w"
    using Suc.prems(1) assms by (simp add: less_mult_imp_div_less mult.commute)
  moreover have "n div radix < 2 ^ 64"
    using Suc.prems(2) by (rule le_less_trans [OF div_le_dividend])
  ultimately have IH: "parse_digits radix (print_digits radix w (n div radix)) 0 = Some (n div radix)"
    by (rule Suc.IH)
  have "to_digit radix (digit_char (n mod radix)) = Some (n mod radix)"
    using assms by (intro to_digit_digit_char) auto
  with IH Suc.prems(2) show ?case
    by (simp add: parse_digits_append)
qed simp

end
