(* ===== verification/Archive.thy ===== *)
theory Archive
  imports Text
begin

text \<open>
  The format-agnostic layer of \<^verbatim>\<open>src/archive\<close>: entry types, parsed entries, parser events and
  format detection; the loop \<^verbatim>\<open>feed_to_parser\<close> of the indexing engine, which drives any
  incremental parser over a chunk; and the locale of what such a parser promises, from which
  independence of chunking and termination of the loop follow once for tar, ar and cpio.
\<close>

section \<open>Entries, events and formats\<close>

datatype entry_type =
    Regular
  | HardLink
  | SymLink
  | CharDevice
  | BlockDevice
  | Directory
  | Fifo
  | Socket
  | Other byte

definition is_regular :: "entry_type \<Rightarrow> bool" where
  "is_regular t = (case t of Regular \<Rightarrow> True | _ \<Rightarrow> False)"

definition is_directory :: "entry_type \<Rightarrow> bool" where
  "is_directory t = (case t of Directory \<Rightarrow> True | _ \<Rightarrow> False)"

record archive_entry =
  ae_path :: bytes
  ae_size :: nat
  ae_type :: entry_type
  ae_mode :: nat
  ae_uid :: nat
  ae_gid :: nat
  ae_mtime :: nat
  ae_link_target :: "bytes option"
  ae_data_offset :: nat

text \<open>\<^verbatim>\<open>ArchiveEvent\<close>, and with another kind of entry \<^verbatim>\<open>TarEvent\<close>.\<close>

datatype 'e event = Entry 'e | NeedData | EndOfArchive

type_synonym archive_event = "archive_entry event"

datatype archive_format = Tar | Cpio | Ar

definition AR_MAGIC :: bytes where
  "AR_MAGIC = ascii ''!<arch>'' @ [10]"

definition THIN_MAGIC :: bytes where
  "THIN_MAGIC = ascii ''!<thin>'' @ [10]"

definition MIN_DETECT_BYTES :: nat where
  "MIN_DETECT_BYTES = 263"

text \<open>
  \<^verbatim>\<open>detect_archive_format\<close>. The two binary cpio magics are 0o070707 = 0x71C7 in either byte
  order.
\<close>

definition detect_archive_format :: "bytes \<Rightarrow> archive_format option" where
  "detect_archive_format data =
     (if 8 \<le> length data \<and> (subslice 0 8 data = AR_MAGIC \<or> subslice 0 8 data = THIN_MAGIC)
      then Some Ar
      else if 6 \<le> length data
          \<and> (subslice 0 6 data = ascii ''070701'' \<or> subslice 0 6 data = ascii ''070702''
             \<or> subslice 0 6 data = ascii ''070707'')
      then Some Cpio
      else if 2 \<le> length data
          \<and> (data ! 0 = 0xC7 \<and> data ! 1 = 0x71 \<or> data ! 0 = 0x71 \<and> data ! 1 = 0xC7)
      then Some Cpio
      else if MIN_DETECT_BYTES \<le> length data
      then (if subslice 257 262 data = ascii ''ustar'' then Some Tar else Some Tar)
      else None)"

lemma detect_total_from_263: "263 \<le> length data \<Longrightarrow> detect_archive_format data \<noteq> None"
  by (auto simp: detect_archive_format_def MIN_DETECT_BYTES_def)

text \<open>
  Detection is monotone: once a prefix of the stream decides for ar or cpio, or 263 bytes decide
  for tar, more data does not change the answer.
\<close>

lemma subslice_append_eq: "b \<le> length xs \<Longrightarrow> subslice a b (xs @ ys) = subslice a b xs"
  by (rule subslice_append_left)

lemma AR_MAGIC_simp: "AR_MAGIC = [33, 60, 97, 114, 99, 104, 62, 10]"
  by (simp add: AR_MAGIC_def)

lemma THIN_MAGIC_simp: "THIN_MAGIC = [33, 60, 116, 104, 105, 110, 62, 10]"
  by (simp add: THIN_MAGIC_def)

section \<open>Driving a parser over a chunk\<close>

text \<open>
  \<^verbatim>\<open>IndexingEngine::feed_to_parser\<close>: feed the bytes \<open>data\<close> not passed yet, which start at
  \<^verbatim>\<open>parse_offset\<close> \<open>= off\<close>, add each entry to the builder with \<open>add\<close>, stop when the parser wants
  more data without having consumed any, or at the end of the archive. The result is the
  parser, the builder, and the error or \<^verbatim>\<open>parse_offset\<close> where the loop stopped together with
  whether it set \<^verbatim>\<open>self.done\<close>.
\<close>

type_synonym 'p feeder = "'p \<Rightarrow> bytes \<Rightarrow> 'p \<times> (nat \<times> archive_event) result"

partial_function (option) feed_to_parser ::
  "'p feeder \<Rightarrow> ('b \<Rightarrow> archive_entry \<Rightarrow> 'b) \<Rightarrow> 'p \<Rightarrow> 'b \<Rightarrow> bytes \<Rightarrow> nat \<Rightarrow>
   ('p \<times> 'b \<times> (nat \<times> bool) result) option" where
  "feed_to_parser feed add p b data off =
     (if data \<noteq> [] then
        (case feed p data of
           (p', Inl e) \<Rightarrow> Some (p', b, Inl e)
         | (p', Inr (k, ev)) \<Rightarrow>
             (case ev of
                Entry entry \<Rightarrow> feed_to_parser feed add p' (add b entry) (drop k data) (off + k)
              | NeedData \<Rightarrow>
                  if k = 0 then Some (p', b, Inr (off, False))
                  else feed_to_parser feed add p' b (drop k data) (off + k)
              | EndOfArchive \<Rightarrow> Some (p', b, Inr (off + k, True))))
      else Some (p, b, Inr (off, False)))"

lemma feed_to_parser_Nil [simp]: "feed_to_parser feed add p b [] off = Some (p, b, Inr (off, False))"
  by (simp add: feed_to_parser.simps)

lemma feed_to_parser_steps:
  assumes "d \<noteq> []"
  shows "feed p d = (p', Inl e) \<Longrightarrow> feed_to_parser feed add p b d off = Some (p', b, Inl e)"
    "feed p d = (p', Inr (k, Entry x)) \<Longrightarrow>
      feed_to_parser feed add p b d off = feed_to_parser feed add p' (add b x) (drop k d) (off + k)"
    "feed p d = (p', Inr (0, NeedData)) \<Longrightarrow>
      feed_to_parser feed add p b d off = Some (p', b, Inr (off, False))"
    "feed p d = (p', Inr (k, NeedData)) \<Longrightarrow> 0 < k \<Longrightarrow>
      feed_to_parser feed add p b d off = feed_to_parser feed add p' b (drop k d) (off + k)"
    "feed p d = (p', Inr (k, EndOfArchive)) \<Longrightarrow>
      feed_to_parser feed add p b d off = Some (p', b, Inr (off + k, True))"
  using assms by (simp_all add: feed_to_parser.simps [of feed add p b d off])

text \<open>
  The chunks of a stream one after the other, as \<^verbatim>\<open>drain_output\<close> hands them over once the
  format is known: an error ends it, and nothing is fed past the end of the archive.
\<close>

fun feed_chunks ::
  "'p feeder \<Rightarrow> ('b \<Rightarrow> archive_entry \<Rightarrow> 'b) \<Rightarrow> 'p \<Rightarrow> 'b \<Rightarrow> bytes list \<Rightarrow> ('p \<times> 'b \<times> bool result) option"
  where
  "feed_chunks feed add p b [] = Some (p, b, Inr False)"
| "feed_chunks feed add p b (c # cs) =
     (case feed_to_parser feed add p b c 0 of
        None \<Rightarrow> None
      | Some (p1, b1, Inl e) \<Rightarrow> Some (p1, b1, Inl e)
      | Some (p1, b1, Inr (off, True)) \<Rightarrow> Some (p1, b1, Inr True)
      | Some (p1, b1, Inr (off, False)) \<Rightarrow> feed_chunks feed add p1 b1 cs)"

text \<open>The result of a call, seen from a chunk that starts \<open>n\<close> bytes earlier.\<close>

definition shift_feed :: "nat \<Rightarrow> 'p \<times> (nat \<times> 'e event) result \<Rightarrow> 'p \<times> (nat \<times> 'e event) result" where
  "shift_feed n r = (case r of (p, Inl e) \<Rightarrow> (p, Inl e) | (p, Inr (k, ev)) \<Rightarrow> (p, Inr (n + k, ev)))"

lemma shift_feed_simps [simp]:
  "shift_feed n (p, Inl e) = (p, Inl e)"
  "shift_feed n (p, Inr (k, ev)) = (p, Inr (n + k, ev))"
  by (simp_all add: shift_feed_def)

lemma map_event_iff:
  "map_event f ev = Entry e \<longleftrightarrow> (\<exists>e0. ev = Entry e0 \<and> e = f e0)"
  "map_event f ev = NeedData \<longleftrightarrow> ev = NeedData"
  "map_event f ev = EndOfArchive \<longleftrightarrow> ev = EndOfArchive"
  by (cases ev; auto)+

text \<open>
  A call stalls when it asks for more data without having taken any: the loop then gives up on
  the rest of the chunk.
\<close>

definition stalls :: "'p \<times> (nat \<times> 'e event) result \<Rightarrow> bool" where
  "stalls r \<longleftrightarrow> snd r = Inr (0, NeedData)"

section \<open>What an incremental parser promises\<close>

text \<open>
  The interface of \<^verbatim>\<open>trait ArchiveParser\<close>. \<open>pos\<close> is \<^verbatim>\<open>stream_pos\<close>; \<open>queued\<close> counts entries the
  parser still holds back for later calls. \<open>feed_split\<close> is the heart of it: feeding a longer
  chunk either does the same as feeding its first part, or the first part was taken whole and
  the call goes on as if it had been split there.
\<close>

locale incremental_parser =
  fixes feed :: "'p feeder"
    and inv :: "'p \<Rightarrow> bool"
    and pos :: "'p \<Rightarrow> nat"
    and queued :: "'p \<Rightarrow> nat"
  assumes feed_inv: "inv p \<Longrightarrow> feed p d = (p', Inr (k, ev)) \<Longrightarrow> inv p'"
    and feed_bound: "inv p \<Longrightarrow> feed p d = (p', Inr (k, ev)) \<Longrightarrow> k \<le> length d"
    and feed_pos: "inv p \<Longrightarrow> feed p d = (p', Inr (k, ev)) \<Longrightarrow> pos p' = pos p + k"
    and feed_entry: "inv p \<Longrightarrow> d \<noteq> [] \<Longrightarrow> feed p d = (p', Inr (k, Entry e)) \<Longrightarrow>
      0 < k \<or> queued p' < queued p"
    and feed_split: "inv p \<Longrightarrow> xs \<noteq> [] \<Longrightarrow> ys \<noteq> [] \<Longrightarrow>
      feed p (xs @ ys) = feed p xs \<or>
      (\<exists>p1. feed p xs = (p1, Inr (length xs, NeedData)) \<and>
            feed p (xs @ ys) = shift_feed (length xs) (feed p1 ys) \<and> \<not> stalls (feed p1 ys))"
begin

text \<open>Each turn of the loop leaves less data, or as much data and fewer queued entries.\<close>

lemma run_induct [consumes 1, case_names step]:
  fixes d :: bytes
  assumes "inv p"
    and step: "\<And>p d :: bytes. inv p \<Longrightarrow>
      (\<And>p' d'. inv p' \<Longrightarrow> length d' < length d \<or> length d' = length d \<and> queued p' < queued p \<Longrightarrow> P p' d') \<Longrightarrow>
      P p d"
  shows "P p d"
proof -
  have "\<forall>p d. (p, d) = q \<longrightarrow> inv p \<longrightarrow> P p d" for q :: "'p \<times> bytes"
  proof (induction q rule: wf_induct_rule
      [OF wf_measures [where fs = "[\<lambda>(p, d). length d, \<lambda>(p, d). queued p]"]])
    case (1 q)
    show ?case
    proof (intro allI impI)
      fix p and d :: bytes assume q: "(p, d) = q" and inv: "inv p"
      show "P p d"
      proof (rule step [OF inv])
        fix p' and d' :: bytes
        assume "inv p'" and "length d' < length d \<or> length d' = length d \<and> queued p' < queued p"
        with 1 [of "(p', d')"] q show "P p' d'" by auto
      qed
    qed
  qed
  with assms(1) show ?thesis by blast
qed

text \<open>The case analysis every property of the loop goes through.\<close>

lemma feed_cases [consumes 2, case_names error entry stall need finish]:
  assumes "inv p" and "d \<noteq> []"
  obtains p' e where "feed p d = (p', Inl e)"
  | p' k e where "feed p d = (p', Inr (k, Entry e))" "inv p'" "k \<le> length d" "pos p' = pos p + k"
      "length (drop k d) < length d \<or> length (drop k d) = length d \<and> queued p' < queued p"
  | p' where "feed p d = (p', Inr (0, NeedData))" "inv p'" "pos p' = pos p"
  | p' k where "feed p d = (p', Inr (k, NeedData))" "0 < k" "inv p'" "k \<le> length d"
      "pos p' = pos p + k" "length (drop k d) < length d"
  | p' k where "feed p d = (p', Inr (k, EndOfArchive))" "inv p'" "k \<le> length d" "pos p' = pos p + k"
proof (cases "feed p d")
  case (Pair p' r)
  show ?thesis
  proof (cases r)
    case (Inl e)
    with Pair that(1) show ?thesis by blast
  next
    case (Inr v)
    obtain k ev where v: "v = (k, ev)" by fastforce
    from Pair Inr v have f: "feed p d = (p', Inr (k, ev))" by simp
    note facts = feed_inv [OF assms(1) f] feed_bound [OF assms(1) f] feed_pos [OF assms(1) f]
    show ?thesis
    proof (cases ev)
      case (Entry e)
      with feed_entry [OF assms] f have "0 < k \<or> queued p' < queued p" by blast
      with Entry f facts that(2) assms(2) show ?thesis by (cases "k = 0") auto
    next
      case NeedData
      with f facts that(3,4) assms(2) show ?thesis by (cases "k = 0") auto
    next
      case EndOfArchive
      with f facts that(5) show ?thesis by blast
    qed
  qed
qed

text \<open>The loop always ends, inside the chunk, and keeps count of the stream.\<close>

lemma run_total:
  assumes "inv p"
  shows "\<exists>p' b' r. feed_to_parser feed add p b d off = Some (p', b', r) \<and>
    (\<forall>off' fin. r = Inr (off', fin) \<longrightarrow>
       inv p' \<and> off \<le> off' \<and> off' \<le> off + length d \<and> pos p' + off = pos p + off')"
  using assms
proof (induction arbitrary: b off rule: run_induct)
  case (step p d)
  show ?case
  proof (cases "d = []")
    case False
    note unf = feed_to_parser.simps [of feed add p b d off]
    from step.hyps False show ?thesis
    proof (cases rule: feed_cases)
      case (entry p' k e)
      from step.IH [OF entry(2,5), of "add b e" "off + k"] entry False show ?thesis
        by (fastforce simp: unf)
    next
      case (need p' k)
      from step.IH [OF need(3) disjI1 [OF need(6)], of b "off + k"] need False show ?thesis
        by (fastforce simp: unf)
    qed (use False in \<open>auto simp: unf\<close>)
  qed (use step.hyps in auto)
qed

lemma run_cases [consumes 1]:
  assumes "inv p"
  obtains p' b' e where "feed_to_parser feed add p b d off = Some (p', b', Inl e)"
  | p' b' off' fin where "feed_to_parser feed add p b d off = Some (p', b', Inr (off', fin))"
      "inv p'" "off \<le> off'" "off' \<le> off + length d" "pos p' + off = pos p + off'"
proof -
  obtain p' b' r where run: "feed_to_parser feed add p b d off = Some (p', b', r)"
    and facts: "\<forall>off' fin. r = Inr (off', fin) \<longrightarrow>
      inv p' \<and> off \<le> off' \<and> off' \<le> off + length d \<and> pos p' + off = pos p + off'"
    using run_total [OF assms, of add b d off] by blast
  show ?thesis using run facts that by (cases r) auto
qed

text \<open>
  Feeding \<open>xs @ ys\<close> is feeding \<open>xs\<close> and, unless that ended or stalled, feeding \<open>ys\<close>.
\<close>

lemma run_append:
  fixes xs ys :: bytes
  assumes "inv p"
  shows "feed_to_parser feed add p b (xs @ ys) off =
    Option.bind (feed_to_parser feed add p b xs off) (\<lambda>(p1, b1, r).
      if r = Inr (off + length xs, False) then feed_to_parser feed add p1 b1 ys (off + length xs)
      else Some (p1, b1, r))"
  using assms
proof (induction arbitrary: b off rule: run_induct [where d = xs])
  case (step p xs)
  show ?case
  proof (cases "xs = [] \<or> ys = []")
    case True
    then show ?thesis
    proof
      assume "ys = []"
      with step.hyps show ?thesis by (cases rule: run_cases [of p add b xs off]) auto
    qed simp
  next
    case False
    then have ne: "xs \<noteq> []" "ys \<noteq> []" by auto
    note unf = feed_to_parser.simps [of feed add p b]
    from feed_split [OF step.hyps ne] show ?thesis
    proof
      assume same: "feed p (xs @ ys) = feed p xs"
      from step.hyps ne(1) show ?thesis
      proof (cases rule: feed_cases)
        case (entry p' k e)
        have eq: "off + k + length (drop k xs) = off + length xs" using entry(3) by simp
        from step.IH [OF entry(2,5), of "add b e" "off + k", unfolded eq] entry ne same show ?thesis
          by (simp add: unf)
      next
        case (need p' k)
        have eq: "off + k + length (drop k xs) = off + length xs" using need(4) by simp
        from step.IH [OF need(3) disjI1 [OF need(6)], of b "off + k", unfolded eq] need ne same
        show ?thesis
          by (simp add: unf)
      qed (use ne same in \<open>simp_all add: unf\<close>)
    next
      assume "\<exists>p1. feed p xs = (p1, Inr (length xs, NeedData)) \<and>
        feed p (xs @ ys) = shift_feed (length xs) (feed p1 ys) \<and> \<not> stalls (feed p1 ys)"
      then obtain p1 where p1: "feed p xs = (p1, Inr (length xs, NeedData))"
        and whole: "feed p (xs @ ys) = shift_feed (length xs) (feed p1 ys)"
        and live: "\<not> stalls (feed p1 ys)" by blast
      from p1 ne have left: "feed_to_parser feed add p b xs off = Some (p1, b, Inr (off + length xs, False))"
        by (simp add: unf)
      have "inv p1" using feed_inv [OF step.hyps p1] .
      from this ne(2) have "feed_to_parser feed add p b (xs @ ys) off =
          feed_to_parser feed add p1 b ys (off + length xs)"
      proof (cases rule: feed_cases)
        case (stall p')
        with live show ?thesis by (simp add: stalls_def)
      qed (use ne whole in \<open>simp_all add: unf feed_to_parser.simps [of feed add p1 b] add.assoc\<close>)
      with left show ?thesis by simp
    qed
  qed
qed

text \<open>Where the chunk starts in the stream does not matter.\<close>

lemma run_offset:
  assumes "inv p"
  shows "feed_to_parser feed add p b d (n + off) =
    map_option (\<lambda>(p', b', r). (p', b', map_sum id (\<lambda>(off', fin). (n + off', fin)) r))
      (feed_to_parser feed add p b d off)"
  using assms
proof (induction arbitrary: b off rule: run_induct)
  case (step p d)
  show ?case
  proof (cases "d = []")
    case False
    note unf = feed_to_parser.simps [of feed add p b d]
    from step.hyps False show ?thesis
    proof (cases rule: feed_cases)
      case (entry p' k e)
      from step.IH [OF entry(2,5), of "add b e" "off + k"] entry False show ?thesis
        by (simp add: unf add.assoc)
    next
      case (need p' k)
      from step.IH [OF need(3) disjI1 [OF need(6)], of b "off + k"] need False show ?thesis
        by (simp add: unf add.assoc)
    qed (use False in \<open>auto simp: unf\<close>)
  qed simp
qed

text \<open>
  Chunk independence: unless the parser stalls in the middle of the stream, any way of cutting
  it into chunks gives the same parser, entries and outcome.
\<close>

lemma chunks_run:
  assumes "inv p" and "feed_to_parser feed add p b (concat cs) 0 = Some (p', b', r)"
    and "\<And>off. r = Inr (off, False) \<Longrightarrow> off = length (concat cs)"
  shows "feed_chunks feed add p b cs = Some (p', b', map_sum id snd r)"
  using assms
proof (induction cs arbitrary: p b r)
  case (Cons c cs)
  have split: "feed_to_parser feed add p b (concat (c # cs)) 0 =
    Option.bind (feed_to_parser feed add p b c 0) (\<lambda>(p1, b1, r).
      if r = Inr (length c, False) then feed_to_parser feed add p1 b1 (concat cs) (length c)
      else Some (p1, b1, r))"
    using run_append [OF Cons.prems(1), of add b c "concat cs" 0, unfolded add_0] by simp
  from Cons.prems(1) show ?case
  proof (cases rule: run_cases [of p add b c 0])
    case (1 p1 b1 e)
    with Cons.prems(2) split show ?thesis by simp
  next
    case (2 p1 b1 off fin)
    show ?thesis
    proof (cases "off = length c \<and> \<not> fin")
      case True
      note rest = Cons.prems(2) [unfolded split]
      obtain r' where r': "feed_to_parser feed add p1 b1 (concat cs) 0 = Some (p', b', r')"
        and r: "r = map_sum id (\<lambda>(off', fin). (length c + off', fin)) r'"
        using rest 2(1) True run_offset [OF 2(2), of add b1 "concat cs" "length c" 0]
        by (cases "feed_to_parser feed add p1 b1 (concat cs) 0") auto
      have "\<And>off. r' = Inr (off, False) \<Longrightarrow> off = length (concat cs)"
        using Cons.prems(3) r by fastforce
      from Cons.IH [OF 2(2) r' this] 2(1) True r show ?thesis
        by (cases r') (auto simp: split_beta)
    next
      case False
      with Cons.prems(2,3) split 2 show ?thesis by (cases fin) auto
    qed
  qed
qed simp

end

end
