(* ===== verification/Checkpoint.thy ===== *)
theory Checkpoint
  imports Text
begin

text \<open>
  \<^verbatim>\<open>src/compress/checkpoint.rs\<close> and \<^verbatim>\<open>src/compress/decompressor.rs\<close>: checkpoints with their
  format-specific states, and the interface of a decompressor. A decompressor is a state of any
  type with a record of its three operations; the locale \<open>decoder\<close> states what the stream layer
  relies on.
\<close>

section \<open>Checkpoint states\<close>

record gzip_block_boundary =
  gb_num_bits :: nat
  gb_bit_buf :: nat
  gb_z_header0 :: nat
  gb_z_header1 :: nat
  gb_check_adler32 :: nat

record gzip_checkpoint_state =
  gz_window :: bytes
  gz_block_state :: "gzip_block_boundary option"
  gz_header_size :: nat

record bzip2_checkpoint_state =
  bz_block_number :: nat
  bz_stream_header :: bytes

record xz_full_checkpoint_state =
  xz_phase :: bytes
  xz_stream_header :: bytes
  xz_check_size :: nat
  xz_block_data_bytes :: nat
  xz_block_header_size :: nat
  xz_lzma2_state :: "bytes option"
  xz_buffer :: bytes
  xz_staged_output :: bytes

record zstd_full_checkpoint_state =
  zs_block_state :: bytes
  zs_window :: bytes
  zs_window_size :: nat
  zs_phase :: bytes
  zs_frame_header :: "bytes option"
  zs_buffer :: bytes
  zs_staged_output :: bytes
  zs_staged_pos :: nat

record lzma2_full_checkpoint_state =
  l2_decoder_state :: bytes
  l2_total_in :: nat
  l2_total_out :: nat
  l2_finished :: bool

record lzma_checkpoint_state =
  lz_decoder_state :: bytes
  lz_finished :: bool

record filter_checkpoint_state =
  fi_pos :: nat
  fi_held :: bytes
  fi_filtered :: nat
  fi_extra :: bytes
  fi_finished :: bool

record bcj2_checkpoint_state =
  b2_state :: bytes

record aes_checkpoint_state =
  ae_prev :: bytes
  ae_carry :: bytes
  ae_staged :: bytes
  ae_produced :: nat
  ae_finished :: bool

text \<open>
  A checkpoint and, for chains, the checkpoints of its stages: \<^verbatim>\<open>CkChain\<close> has the stages, the
  bytes pending between them, and which of them have ended.
\<close>

datatype checkpoint =
  Ck (compressed_offset: nat) (bit_offset: nat) (uncompressed_offset: nat) (state: checkpoint_state)
and checkpoint_state =
    CkNone
  | CkGzip gzip_checkpoint_state
  | CkBzip2 bzip2_checkpoint_state
  | CkXz xz_full_checkpoint_state
  | CkZstd zstd_full_checkpoint_state
  | CkLzma2 lzma2_full_checkpoint_state
  | CkLzma lzma_checkpoint_state
  | CkFilter filter_checkpoint_state
  | CkBcj2 bcj2_checkpoint_state
  | CkAes aes_checkpoint_state
  | CkChain "checkpoint list" "bytes list" "bool list"

text \<open>\<^verbatim>\<open>map_or(0, |v| v.len())\<close>.\<close>

definition opt_length :: "bytes option \<Rightarrow> nat" where
  "opt_length x = (case x of None \<Rightarrow> 0 | Some v \<Rightarrow> length v)"

fun estimated_size :: "checkpoint \<Rightarrow> nat"
  and state_estimated_size :: "checkpoint_state \<Rightarrow> nat" where
  "estimated_size (Ck _ _ _ s) = 17 + state_estimated_size s"
| "state_estimated_size CkNone = 0"
| "state_estimated_size (CkGzip s) = length (gz_window s) + 32"
| "state_estimated_size (CkBzip2 s) = length (bz_stream_header s) + 8"
| "state_estimated_size (CkXz s) =
     length (xz_phase s) + length (xz_stream_header s) + opt_length (xz_lzma2_state s) +
     length (xz_buffer s) + length (xz_staged_output s) + 32"
| "state_estimated_size (CkZstd s) =
     length (zs_block_state s) + length (zs_window s) + length (zs_phase s) +
     opt_length (zs_frame_header s) + length (zs_buffer s) + length (zs_staged_output s) + 32"
| "state_estimated_size (CkLzma2 s) = length (l2_decoder_state s) + 24"
| "state_estimated_size (CkLzma s) = length (lz_decoder_state s) + 8"
| "state_estimated_size (CkFilter s) = length (fi_held s) + length (fi_extra s) + 16"
| "state_estimated_size (CkBcj2 s) = length (b2_state s) + 8"
| "state_estimated_size (CkAes s) = length (ae_carry s) + length (ae_staged s) + 40"
| "state_estimated_size (CkChain stages pending ended) =
     sum_list (map estimated_size stages) + sum_list (map (\<lambda>p. length p + 8) pending) + length ended"

lemma estimated_size_pos: "17 \<le> estimated_size cp"
  by (cases cp) simp

section \<open>Decompressors\<close>

datatype decompress_status = Continue | StreamEnd

text \<open>
  \<^verbatim>\<open>DecompressResult\<close>: the bytes consumed, the bytes written at the front of the output buffer
  (\<^verbatim>\<open>bytes_produced\<close> is their number), the status.
\<close>

record decompress_result =
  bytes_consumed :: nat
  produced :: bytes
  status :: decompress_status

definition bytes_produced :: "decompress_result \<Rightarrow> nat" where
  "bytes_produced r = length (produced r)"

text \<open>
  \<^verbatim>\<open>trait Decompressor\<close> for a state \<open>'d\<close>. \<open>decompress d input cap\<close> has an output buffer of \<open>cap\<close>
  bytes.
\<close>

record 'd decompressor =
  decompress :: "'d \<Rightarrow> bytes \<Rightarrow> nat \<Rightarrow> 'd \<times> decompress_result result"
  take_checkpoint :: "'d \<Rightarrow> nat \<Rightarrow> nat \<Rightarrow> checkpoint option result"
  restore :: "'d \<Rightarrow> checkpoint \<Rightarrow> 'd \<times> unit result"

definition start_checkpoint :: checkpoint where
  "start_checkpoint = Ck 0 0 0 CkNone"

text \<open>
  What the stream layer relies on, for a decoder of the stream \<open>packed\<close> whose contents are
  \<open>unpacked\<close>: \<open>at d c u\<close> says that \<open>d\<close> has been given the first \<open>c\<close> bytes of \<open>packed\<close> and has
  handed out the first \<open>u\<close> bytes of \<open>unpacked\<close>. Empty input means the end of the packed stream.
  A step hands out the next bytes; it only reports the end at the end; it makes progress as long
  as there is input, and without input it stops only at the end. A checkpoint is laid at the
  current position and leads back to it.
\<close>

locale decoder =
  fixes ops :: "'d decompressor"
    and packed unpacked :: bytes
    and at :: "'d \<Rightarrow> nat \<Rightarrow> nat \<Rightarrow> bool"
    and good :: "checkpoint \<Rightarrow> bool"
    and fresh :: "'d \<Rightarrow> bool"
  assumes at_bound: "at d c u \<Longrightarrow> c \<le> length packed \<and> u \<le> length unpacked"
    and step_law: "at d c u \<Longrightarrow> take (length input) (drop c packed) = input \<Longrightarrow>
        input \<noteq> [] \<or> c = length packed \<Longrightarrow> 0 < cap \<Longrightarrow>
        \<exists>d' r. decompress ops d input cap = (d', Inr r) \<and>
          bytes_consumed r \<le> length input \<and> bytes_produced r \<le> cap \<and>
          take (bytes_produced r) (drop u unpacked) = produced r \<and>
          at d' (c + bytes_consumed r) (u + bytes_produced r) \<and>
          (status r = StreamEnd \<longrightarrow> u + bytes_produced r = length unpacked) \<and>
          (bytes_consumed r = 0 \<and> bytes_produced r = 0 \<longrightarrow> status r = StreamEnd)"
    and checkpoint_law: "at d c u \<Longrightarrow>
        \<exists>r. take_checkpoint ops d c u = Inr r \<and>
          (\<forall>cp. r = Some cp \<longrightarrow> good cp \<and> uncompressed_offset cp = u \<and> compressed_offset cp \<le> c)"
    and restore_law: "fresh d \<Longrightarrow> good cp \<Longrightarrow>
        \<exists>d'. restore ops d cp = (d', Inr ()) \<and> at d' (compressed_offset cp) (uncompressed_offset cp)"
    and start_law: "good start_checkpoint"
    and fresh_law: "fresh d \<Longrightarrow> at d 0 0"
begin

text \<open>One step, with everything known about it.\<close>

lemma step_facts [consumes 4]:
  assumes "at d c u" and "take (length input) (drop c packed) = input"
    and "input \<noteq> [] \<or> c = length packed" and "0 < cap"
  obtains d' r where "decompress ops d input cap = (d', Inr r)"
    "bytes_consumed r \<le> length input" "bytes_produced r \<le> cap"
    "produced r = take (bytes_produced r) (drop u unpacked)"
    "at d' (c + bytes_consumed r) (u + bytes_produced r)"
    "u + bytes_produced r \<le> length unpacked" "c + bytes_consumed r \<le> length packed"
    "status r = StreamEnd \<Longrightarrow> u + bytes_produced r = length unpacked"
    "bytes_consumed r = 0 \<Longrightarrow> bytes_produced r = 0 \<Longrightarrow> status r = StreamEnd"
proof -
  from step_law [OF assms] obtain d' r where r: "decompress ops d input cap = (d', Inr r)"
    "bytes_consumed r \<le> length input" "bytes_produced r \<le> cap"
    "take (bytes_produced r) (drop u unpacked) = produced r"
    "at d' (c + bytes_consumed r) (u + bytes_produced r)"
    "status r = StreamEnd \<longrightarrow> u + bytes_produced r = length unpacked"
    "bytes_consumed r = 0 \<and> bytes_produced r = 0 \<longrightarrow> status r = StreamEnd" by blast
  from that [OF r(1-3) r(4) [symmetric] r(5)] at_bound [OF r(5)] r(6,7) show ?thesis by blast
qed

lemma restore_bound: "fresh d \<Longrightarrow> good cp \<Longrightarrow>
    compressed_offset cp \<le> length packed \<and> uncompressed_offset cp \<le> length unpacked"
  using restore_law at_bound by blast

end

end
