(* ===== verification/Codec.thy ===== *)
theory Codec
  imports Prelude
begin

text \<open>
  \<^verbatim>\<open>src/compress/codec.rs\<close>, \<^verbatim>\<open>src/compress/mod.rs\<close> and \<^verbatim>\<open>src/compress/detect.rs\<close>: what a stream is
  encoded with, the secrets that are filled in after loading, and detection of the compression
  format. Building the decompressors of a specification is in the theory of the stages.
\<close>

section \<open>Codecs\<close>

datatype compression_format = CfNone | CfGzip | CfBzip2 | CfXz | CfZstd

datatype bcj_arch = X86 | PowerPc | Ia64 | Arm | ArmThumb | Sparc | Arm64 | RiscV

record bcj2_streams =
  b2_call :: bytes
  b2_jump :: bytes
  b2_rc :: bytes

datatype codec =
    Copy
  | Deflate bool
  | Bzip2
  | Lzma nat nat "nat option"
  | Lzma2 nat
  | Xz
  | Zstd
  | Delta nat
  | Bcj bcj_arch
  | Bcj2 "bcj2_streams option"
  | AesCbc "bytes option" bytes "nat option"

type_synonym codec_spec = "codec list"

fun with_aes_key :: "bytes \<Rightarrow> codec \<Rightarrow> codec" where
  "with_aes_key key (AesCbc k iv len) = AesCbc (Some key) iv len"
| "with_aes_key key c = c"

definition set_aes_key :: "codec_spec \<Rightarrow> bytes \<Rightarrow> codec_spec" where
  "set_aes_key spec key = map (with_aes_key key) spec"

fun with_bcj2_streams :: "bcj2_streams \<Rightarrow> codec \<Rightarrow> codec" where
  "with_bcj2_streams s (Bcj2 old) = Bcj2 (Some s)"
| "with_bcj2_streams s c = c"

definition set_bcj2_streams :: "codec_spec \<Rightarrow> bcj2_streams \<Rightarrow> codec_spec" where
  "set_bcj2_streams spec s = map (with_bcj2_streams s) spec"

text \<open>
  What \<^verbatim>\<open>#[serde(skip)]\<close> leaves of a codec: the AES key and the side streams of BCJ2 are not written, and
  are \<^verbatim>\<open>None\<close> in what is read.
\<close>

fun without_secrets :: "codec \<Rightarrow> codec" where
  "without_secrets (AesCbc key iv len) = AesCbc None iv len"
| "without_secrets (Bcj2 streams) = Bcj2 None"
| "without_secrets c = c"

lemma without_secrets_idem [simp]: "without_secrets (without_secrets c) = without_secrets c"
  by (cases c) simp_all

text \<open>The key and the streams bring a codec back exactly when they are the ones it had.\<close>

lemma restore_codec:
  "with_bcj2_streams streams (with_aes_key key (without_secrets c)) = c \<longleftrightarrow>
     (\<forall>k iv len. c = AesCbc k iv len \<longrightarrow> k = Some key) \<and> (\<forall>s. c = Bcj2 s \<longrightarrow> s = Some streams)"
  by (cases c) auto

lemma restore_spec:
  "set_bcj2_streams (set_aes_key (map without_secrets spec) key) streams = spec \<longleftrightarrow>
     (\<forall>k iv len. AesCbc k iv len \<in> set spec \<longrightarrow> k = Some key) \<and> (\<forall>s. Bcj2 s \<in> set spec \<longrightarrow> s = Some streams)"
proof -
  let ?f = "\<lambda>c. with_bcj2_streams streams (with_aes_key key (without_secrets c))"
  have "map ?f spec = spec \<longleftrightarrow> (\<forall>c\<in>set spec. ?f c = c)" by (induction spec) auto
  moreover have "set_bcj2_streams (set_aes_key (map without_secrets spec) key) streams = map ?f spec"
    by (simp add: set_bcj2_streams_def set_aes_key_def)
  moreover have "(\<forall>c\<in>set spec. ?f c = c) \<longleftrightarrow>
     (\<forall>k iv len. AesCbc k iv len \<in> set spec \<longrightarrow> k = Some key) \<and> (\<forall>s. Bcj2 s \<in> set spec \<longrightarrow> s = Some streams)"
    unfolding restore_codec by blast
  ultimately show ?thesis by simp
qed

text \<open>\<^verbatim>\<open>From<CompressionFormat>\<close>.\<close>

definition codec_of_format :: "compression_format \<Rightarrow> codec_spec" where
  "codec_of_format f =
     [case f of CfNone \<Rightarrow> Copy | CfGzip \<Rightarrow> Deflate False | CfBzip2 \<Rightarrow> Bzip2 | CfXz \<Rightarrow> Xz | CfZstd \<Rightarrow> Zstd]"

section \<open>Detection\<close>

definition DETECT_MIN_BYTES :: nat where
  "DETECT_MIN_BYTES = 6"

definition detect_format :: "bytes \<Rightarrow> compression_format option" where
  "detect_format header =
     (if length header < 2 then None
      else if header ! 0 = 0x1F \<and> header ! 1 = 0x8B then Some CfGzip
      else if length header \<ge> 3 \<and> header ! 0 = 0x42 \<and> header ! 1 = 0x5A \<and> header ! 2 = 0x68
      then Some CfBzip2
      else if length header \<ge> 6 \<and> header ! 0 = 0xFD \<and> header ! 1 = 0x37 \<and> header ! 2 = 0x7A
          \<and> header ! 3 = 0x58 \<and> header ! 4 = 0x5A \<and> header ! 5 = 0
      then Some CfXz
      else if length header \<ge> 4 \<and> header ! 0 = 0x28 \<and> header ! 1 = 0xB5 \<and> header ! 2 = 0x2F
          \<and> header ! 3 = 0xFD
      then Some CfZstd
      else if length header \<ge> 263 \<and> subslice 257 262 header = ascii ''ustar'' then Some CfNone
      else if length header \<ge> DETECT_MIN_BYTES then Some CfNone
      else None)"

text \<open>Six bytes always decide, and more bytes do not change the answer.\<close>

lemma detect_format_decides: "6 \<le> length header \<Longrightarrow> detect_format header \<noteq> None"
  by (simp add: detect_format_def DETECT_MIN_BYTES_def)

lemma detect_format_stable:
  assumes "6 \<le> length header"
  shows "detect_format (header @ rest) = detect_format header"
proof -
  from assms obtain a b c d e f t where "header = a # b # c # d # e # f # t"
    by (auto simp: eval_nat_numeral Suc_le_length_iff)
  then show ?thesis by (simp add: detect_format_def DETECT_MIN_BYTES_def)
qed

end
