(* ===== verification/StreamIndex.thy ===== *)
theory StreamIndex
  imports Checkpoint Codec "HOL-Library.Sublist"
begin

text \<open>
  \<^verbatim>\<open>src/stream/index.rs\<close>: the checkpoint table of a compressed stream. The lemmas show that the
  checkpoint found for an offset is the nearest one before it, and what thinning keeps.
\<close>

section \<open>The table\<close>

record stream_index =
  si_codec :: codec_spec
  si_compressed_len :: "nat option"
  si_unpacked_len :: "nat option"
  si_checkpoints :: "checkpoint list"
  si_indexed_to :: nat
  si_complete :: bool

definition stream_index_new :: "codec_spec \<Rightarrow> nat option \<Rightarrow> stream_index" where
  "stream_index_new codec compressed_len =
     \<lparr>si_codec = codec, si_compressed_len = compressed_len, si_unpacked_len = None,
      si_checkpoints = [start_checkpoint], si_indexed_to = 0, si_complete = False\<rparr>"

text \<open>\<^verbatim>\<open>partition_point\<close> on a partitioned slice: the length of the prefix where the predicate holds.\<close>

definition partition_point :: "('a \<Rightarrow> bool) \<Rightarrow> 'a list \<Rightarrow> nat" where
  "partition_point P xs = length (takeWhile P xs)"

definition best_checkpoint_for_offset :: "stream_index \<Rightarrow> nat \<Rightarrow> nat \<times> checkpoint" where
  "best_checkpoint_for_offset idx unpacked_offset =
     (let i = partition_point (\<lambda>cp. uncompressed_offset cp \<le> unpacked_offset) (si_checkpoints idx) - 1
      in (i, si_checkpoints idx ! i))"

definition last_checkpoint :: "stream_index \<Rightarrow> checkpoint" where
  "last_checkpoint idx = last (si_checkpoints idx)"

text \<open>What \<^verbatim>\<open>retain\<close> keeps of \<open>n\<close> checkpoints: the even positions and the last.\<close>

definition retained :: "'a list \<Rightarrow> 'a list" where
  "retained xs = map snd (filter (\<lambda>(i, _). i mod 2 = 0 \<or> i = length xs - 1) (enumerate 0 xs))"

definition thin :: "stream_index \<Rightarrow> stream_index \<times> bool" where
  "thin idx =
     (let n = length (si_checkpoints idx) in
      if n = 0 \<or> n = 1 then (idx, False)
      else if n = 2 then (idx\<lparr>si_checkpoints := butlast (si_checkpoints idx)\<rparr>, True)
      else (idx\<lparr>si_checkpoints := retained (si_checkpoints idx)\<rparr>, True))"

definition checkpoint_data_bytes :: "stream_index \<Rightarrow> nat" where
  "checkpoint_data_bytes idx = sum_list (map estimated_size (si_checkpoints idx))"

text \<open>\<^verbatim>\<open>windows(2).any(..)\<close>.\<close>

fun any_descent :: "checkpoint list \<Rightarrow> bool" where
  "any_descent (x # y # xs) = (uncompressed_offset x > uncompressed_offset y \<or> any_descent (y # xs))"
| "any_descent _ = False"

definition index_validate :: "stream_index \<Rightarrow> unit result" where
  "index_validate idx =
     (case si_checkpoints idx of
        [] \<Rightarrow> Inl (IndexError ''stream index contains no checkpoints'')
      | cp # _ \<Rightarrow>
          if uncompressed_offset cp \<noteq> 0
          then Inl (IndexError ''stream index does not start at offset 0'')
          else if any_descent (si_checkpoints idx)
          then Inl (IndexError ''stream index checkpoints are not sorted'')
          else Inr ())"

section \<open>Well-formed tables\<close>

definition cps_ok :: "checkpoint list \<Rightarrow> bool" where
  "cps_ok cps \<longleftrightarrow> cps \<noteq> [] \<and> uncompressed_offset (hd cps) = 0 \<and> sorted (map uncompressed_offset cps)"

lemma any_descent_sorted: "\<not> any_descent cps \<longleftrightarrow> sorted (map uncompressed_offset cps)"
proof (induction cps rule: any_descent.induct)
  case (1 x y xs)
  then show ?case by (auto simp: not_less intro: order_trans)
qed simp_all

lemma index_validate_iff: "index_validate idx = Inr () \<longleftrightarrow> cps_ok (si_checkpoints idx)"
  using any_descent_sorted [of "si_checkpoints idx"]
  by (auto simp: index_validate_def cps_ok_def split: list.split)

lemma cps_ok_start: "cps_ok [start_checkpoint]"
  by (simp add: cps_ok_def start_checkpoint_def)

lemma cps_ok_snoc:
  "cps_ok cps \<Longrightarrow> uncompressed_offset (last cps) \<le> uncompressed_offset cp \<Longrightarrow> cps_ok (cps @ [cp])"
  by (cases cps rule: rev_cases) (auto simp: cps_ok_def sorted_append hd_append intro: order_trans)

section \<open>Finding a checkpoint\<close>

lemma takeWhile_sorted:
  assumes "sorted (map f xs)" and "i < length xs"
  shows "i < length (takeWhile (\<lambda>x. f x \<le> b) xs) \<longleftrightarrow> f (xs ! i) \<le> (b :: nat)"
proof
  assume "i < length (takeWhile (\<lambda>x. f x \<le> b) xs)"
  then show "f (xs ! i) \<le> b" by (metis nth_mem set_takeWhileD takeWhile_nth)
next
  assume le: "f (xs ! i) \<le> b"
  show "i < length (takeWhile (\<lambda>x. f x \<le> b) xs)"
  proof (rule ccontr)
    let ?n = "length (takeWhile (\<lambda>x. f x \<le> b) xs)"
    assume "\<not> i < ?n"
    then have n: "?n \<le> i" "?n < length xs" using assms(2) by simp_all
    then have "\<not> f (xs ! ?n) \<le> b" using nth_length_takeWhile [of "\<lambda>x. f x \<le> b" xs] by simp
    moreover have "f (xs ! ?n) \<le> f (xs ! i)"
      using sorted_nth_mono [OF assms(1), of ?n i] n assms(2) by simp
    ultimately show False using le by simp
  qed
qed

text \<open>The checkpoint found is at or before the offset, and no later one is.\<close>

lemma best_checkpoint_props:
  assumes "cps_ok (si_checkpoints idx)" and "best_checkpoint_for_offset idx off = (i, cp)"
  shows "i < length (si_checkpoints idx)" "cp = si_checkpoints idx ! i" "uncompressed_offset cp \<le> off"
    "\<And>j. i < j \<Longrightarrow> j < length (si_checkpoints idx) \<Longrightarrow> off < uncompressed_offset (si_checkpoints idx ! j)"
    "cp \<in> set (si_checkpoints idx)"
proof -
  let ?cps = "si_checkpoints idx" and ?n = "partition_point (\<lambda>cp. uncompressed_offset cp \<le> off) (si_checkpoints idx)"
  from assms have ok: "?cps \<noteq> []" "uncompressed_offset (hd ?cps) = 0" "sorted (map uncompressed_offset ?cps)"
    by (simp_all add: cps_ok_def)
  note tw = takeWhile_sorted [OF ok(3), folded partition_point_def]
  have pos: "0 < ?n" using tw [of 0 off] ok(1,2) by (simp add: hd_conv_nth)
  have le: "?n \<le> length ?cps" by (simp add: partition_point_def length_takeWhile_le)
  from assms(2) have i: "i = ?n - 1" and cp: "cp = ?cps ! i"
    by (auto simp: best_checkpoint_for_offset_def Let_def)
  show il: "i < length ?cps" using i pos le by simp
  show "cp = ?cps ! i" by (rule cp)
  show "uncompressed_offset cp \<le> off" using tw [OF il, of off] i pos cp by simp
  show "off < uncompressed_offset (?cps ! j)" if "i < j" "j < length ?cps" for j
  proof -
    have "\<not> j < ?n" using that(1) i pos by simp
    with tw [OF that(2), of off] show ?thesis by (simp add: not_le)
  qed
  show "cp \<in> set ?cps" using il cp by simp
qed

section \<open>Thinning\<close>

lemma filter_enumerate_subseq: "subseq (map snd (filter P (enumerate n xs))) xs"
proof (induction xs arbitrary: n)
  case (Cons x xs)
  then show ?case by (auto intro: subseq_Cons2 list_emb_Cons)
qed simp

lemma retained_subseq: "subseq (retained xs) xs"
  unfolding retained_def by (rule filter_enumerate_subseq)

lemma sorted_subseq: "subseq xs ys \<Longrightarrow> sorted (map f ys) \<Longrightarrow> sorted (map f xs)"
proof (induction rule: list_emb.induct)
  case (list_emb_Cons2 x y xs ys)
  moreover from this(2) have "set xs \<subseteq> set ys" by (auto dest: list_emb_set)
  ultimately show ?case by auto
qed auto

lemma retained_nth: "retained xs = map ((!) xs) (filter (\<lambda>i. i mod 2 = 0 \<or> i = length xs - 1) [0..<length xs])"
proof -
  have "enumerate 0 xs = map (\<lambda>i. (i, xs ! i)) [0..<length xs]"
    by (auto simp: enumerate_eq_zip zip_map_fst_snd intro!: nth_equalityI)
  then show ?thesis unfolding retained_def by (simp add: filter_map comp_def)
qed

lemma retained_props:
  assumes "3 \<le> length xs"
  shows "length (retained xs) < length xs" "retained xs \<noteq> []" "hd (retained xs) = hd xs" "last (retained xs) = last xs"
proof -
  let ?P = "\<lambda>i. i mod 2 = 0 \<or> i = length xs - 1"
  have "length (filter ?P [0..<length xs]) < length [0..<length xs]"
    using assms by (intro length_filter_less [of 1]) auto
  then show "length (retained xs) < length xs" by (simp add: retained_nth)
  obtain n where n: "length xs = Suc n" using assms by (cases "length xs") auto
  have front: "[0..<length xs] = 0 # [Suc 0..<length xs]" using assms by (intro upt_conv_Cons) linarith
  have "filter ?P [0..<length xs] = 0 # filter ?P [Suc 0..<length xs]" unfolding front by simp
  moreover have ne: "xs \<noteq> []" using n by auto
  ultimately show "retained xs \<noteq> []" "hd (retained xs) = hd xs"
    unfolding retained_nth by (simp_all only: list.map list.sel hd_conv_nth list.distinct not_False_eq_True)
  have "filter ?P [0..<length xs] = filter ?P [0..<n] @ [n]" by (simp add: n)
  then show "last (retained xs) = last xs"
    using ne n by (simp add: retained_nth last_conv_nth)
qed

lemma thin_props:
  assumes "cps_ok (si_checkpoints idx)" and "thin idx = (idx', True)"
  shows "cps_ok (si_checkpoints idx')" "length (si_checkpoints idx') < length (si_checkpoints idx)"
    "set (si_checkpoints idx') \<subseteq> set (si_checkpoints idx)"
    "3 \<le> length (si_checkpoints idx) \<Longrightarrow> last_checkpoint idx' = last_checkpoint idx"
    "si_codec idx' = si_codec idx" "si_compressed_len idx' = si_compressed_len idx"
    "si_unpacked_len idx' = si_unpacked_len idx" "si_indexed_to idx' = si_indexed_to idx"
    "si_complete idx' = si_complete idx"
proof -
  let ?cps = "si_checkpoints idx"
  consider (two) "length ?cps = 2" "idx' = idx\<lparr>si_checkpoints := butlast ?cps\<rparr>"
    | (many) "3 \<le> length ?cps" "idx' = idx\<lparr>si_checkpoints := retained ?cps\<rparr>"
  proof -
    have "length ?cps = 0 \<or> length ?cps = 1 \<or> length ?cps = 2 \<or> 3 \<le> length ?cps" by linarith
    with assms(2) that show ?thesis by (auto simp: thin_def Let_def split: if_splits)
  qed
  then have "cps_ok (si_checkpoints idx') \<and> length (si_checkpoints idx') < length ?cps \<and>
    set (si_checkpoints idx') \<subseteq> set ?cps \<and> (3 \<le> length ?cps \<longrightarrow> last_checkpoint idx' = last_checkpoint idx) \<and>
    si_codec idx' = si_codec idx \<and> si_compressed_len idx' = si_compressed_len idx \<and>
    si_unpacked_len idx' = si_unpacked_len idx \<and> si_indexed_to idx' = si_indexed_to idx \<and>
    si_complete idx' = si_complete idx"
  proof cases
    case two
    then obtain a b where "?cps = [a, b]" by (auto simp: eval_nat_numeral length_Suc_conv)
    with two assms(1) show ?thesis by (simp add: cps_ok_def)
  next
    case many
    from many(1) assms(1) have "cps_ok (retained ?cps)"
      using sorted_subseq [OF retained_subseq] retained_props [OF many(1)] by (auto simp: cps_ok_def)
    moreover have "set (retained ?cps) \<subseteq> set ?cps" by (auto simp: retained_nth)
    ultimately show ?thesis
      using many retained_props [OF many(1)] by (simp add: last_checkpoint_def)
  qed
  then show "cps_ok (si_checkpoints idx')" "length (si_checkpoints idx') < length (si_checkpoints idx)"
    "set (si_checkpoints idx') \<subseteq> set (si_checkpoints idx)"
    "3 \<le> length (si_checkpoints idx) \<Longrightarrow> last_checkpoint idx' = last_checkpoint idx"
    "si_codec idx' = si_codec idx" "si_compressed_len idx' = si_compressed_len idx"
    "si_unpacked_len idx' = si_unpacked_len idx" "si_indexed_to idx' = si_indexed_to idx"
    "si_complete idx' = si_complete idx" by blast+
qed

text \<open>No two neighbours go at once: consecutive kept checkpoints were at most two apart.\<close>

lemma retained_gaps:
  assumes "i + 1 < length xs"
  shows "xs ! i \<in> set (retained xs) \<or> xs ! (i + 1) \<in> set (retained xs)"
proof -
  have "i mod 2 = 0 \<or> (i + 1) mod 2 = 0" by presburger
  with assms show ?thesis unfolding retained_nth by (auto intro!: imageI)
qed

end
