(* ===== verification/ArchiveIndex.thy ===== *)
theory ArchiveIndex
  imports Archive StreamIndex
begin

text \<open>
  \<^verbatim>\<open>src/index\<close>: the entries of an archive with the checkpoint table of its stream, how the
  builder puts them together, lookup by path, and the saved form. \<^verbatim>\<open>bincode\<close> is a parameter.
\<close>

section \<open>Entries and metadata\<close>

record index_entry =
  en_path :: bytes
  en_size :: nat
  en_type :: entry_type
  en_mode :: nat
  en_uid :: nat
  en_gid :: nat
  en_mtime :: nat
  en_link_target :: "bytes option"
  en_offset :: nat
  en_checkpoint :: nat

definition INDEX_VERSION :: nat where
  "INDEX_VERSION = 6"

record index_metadata =
  im_version :: nat
  im_compression :: compression_format
  im_archive_format :: archive_format
  im_archive_size :: nat
  im_uncompressed_size :: nat
  im_complete :: bool

record archive_index =
  ai_metadata :: index_metadata
  ai_stream :: stream_index
  ai_entries :: "index_entry list"
  ai_by_path :: "bytes \<rightharpoonup> nat"

text \<open>The map collected by \<^verbatim>\<open>ArchiveIndex::new\<close>: a later entry replaces an earlier one.\<close>

definition collect_paths :: "index_entry list \<Rightarrow> bytes \<rightharpoonup> nat" where
  "collect_paths entries = fold (\<lambda>(i, e) m. m(en_path e \<mapsto> i)) (enumerate 0 entries) Map.empty"

definition archive_index_new :: "index_metadata \<Rightarrow> stream_index \<Rightarrow> index_entry list \<Rightarrow> archive_index" where
  "archive_index_new metadata stream entries =
     \<lparr>ai_metadata = metadata, ai_stream = stream, ai_entries = entries, ai_by_path = collect_paths entries\<rparr>"

section \<open>Lookup\<close>

definition path_position :: "archive_index \<Rightarrow> bytes \<Rightarrow> nat option" where
  "path_position idx path =
     (case ai_by_path idx path of
        Some i \<Rightarrow> Some i
      | None \<Rightarrow>
          if path \<noteq> [] \<and> last path = 47 then ai_by_path idx (trim_end 47 path) else ai_by_path idx (path @ [47]))"

definition archive_get :: "archive_index \<Rightarrow> bytes \<Rightarrow> index_entry option" where
  "archive_get idx path = map_option ((!) (ai_entries idx)) (path_position idx path)"

definition archive_get_all :: "archive_index \<Rightarrow> bytes \<Rightarrow> index_entry list" where
  "archive_get_all idx path =
     (let path = map_option en_path (archive_get idx path) in filter (\<lambda>e. Some (en_path e) = path) (ai_entries idx))"

definition starts_with :: "bytes \<Rightarrow> bytes \<Rightarrow> bool" where
  "starts_with s p \<longleftrightarrow> take (length p) s = p"

definition archive_list :: "archive_index \<Rightarrow> bytes option \<Rightarrow> index_entry list" where
  "archive_list idx pre =
     (case pre of
        Some p \<Rightarrow>
          let p = trim_end 47 p in
          filter (\<lambda>e. starts_with (en_path e) p \<and>
            (length (en_path e) = length p \<or> length p < length (en_path e) \<and> en_path e ! length p = 47)) (ai_entries idx)
      | None \<Rightarrow> ai_entries idx)"

definition checkpoint_for :: "archive_index \<Rightarrow> index_entry \<Rightarrow> checkpoint" where
  "checkpoint_for idx entry = si_checkpoints (ai_stream idx) ! en_checkpoint entry"

definition archive_best_checkpoint :: "archive_index \<Rightarrow> nat \<Rightarrow> nat \<times> checkpoint" where
  "archive_best_checkpoint idx off = best_checkpoint_for_offset (ai_stream idx) off"

section \<open>The builder\<close>

record index_builder =
  ib_entries :: "index_entry list"
  ib_compression :: compression_format
  ib_archive_format :: archive_format
  ib_archive_size :: nat
  ib_last_entry_path :: "bytes option"

definition builder_new :: "compression_format \<Rightarrow> archive_format \<Rightarrow> nat \<Rightarrow> index_builder" where
  "builder_new compression archive_format archive_size =
     \<lparr>ib_entries = [], ib_compression = compression, ib_archive_format = archive_format,
      ib_archive_size = archive_size, ib_last_entry_path = None\<rparr>"

definition set_archive_format :: "index_builder \<Rightarrow> archive_format \<Rightarrow> index_builder" where
  "set_archive_format b f = b\<lparr>ib_archive_format := f\<rparr>"

definition index_entry_of :: "archive_entry \<Rightarrow> index_entry" where
  "index_entry_of e =
     \<lparr>en_path = ae_path e, en_size = ae_size e, en_type = ae_type e, en_mode = ae_mode e, en_uid = ae_uid e,
      en_gid = ae_gid e, en_mtime = ae_mtime e, en_link_target = ae_link_target e,
      en_offset = ae_data_offset e, en_checkpoint = 0\<rparr>"

definition add_entry :: "index_builder \<Rightarrow> archive_entry \<Rightarrow> index_builder" where
  "add_entry b e =
     b\<lparr>ib_last_entry_path := Some (ae_path e), ib_entries := ib_entries b @ [index_entry_of e]\<rparr>"

definition assemble ::
  "index_entry list \<Rightarrow> compression_format \<Rightarrow> archive_format \<Rightarrow> nat \<Rightarrow> stream_index \<Rightarrow> bool \<Rightarrow> archive_index" where
  "assemble entries compression archive_format archive_size stream complete =
     (let entries = map (\<lambda>e. e\<lparr>en_checkpoint := fst (best_checkpoint_for_offset stream (en_offset e))\<rparr>) entries;
          metadata = \<lparr>im_version = INDEX_VERSION, im_compression = compression,
            im_archive_format = archive_format, im_archive_size = archive_size,
            im_uncompressed_size = si_indexed_to stream, im_complete = complete\<rparr>
      in archive_index_new metadata stream entries)"

definition builder_snapshot :: "index_builder \<Rightarrow> stream_index \<Rightarrow> archive_index" where
  "builder_snapshot b stream =
     assemble (ib_entries b) (ib_compression b) (ib_archive_format b) (ib_archive_size b) stream False"

definition builder_finish :: "index_builder \<Rightarrow> stream_index \<Rightarrow> bool \<Rightarrow> archive_index" where
  "builder_finish b stream complete =
     assemble (ib_entries b) (ib_compression b) (ib_archive_format b) (ib_archive_size b) stream complete"

section \<open>The saved form\<close>

text \<open>
  What \<^verbatim>\<open>bincode\<close> writes and reads, \<^verbatim>\<open>IndexRepr\<close>: the path lookup is not saved, nor are the secrets of
  the codecs. \<open>ser_size\<close> and \<open>ser\<close> are \<^verbatim>\<open>serialized_size\<close> and \<^verbatim>\<open>serialize_into\<close>; \<open>de\<close> is \<^verbatim>\<open>deserialize\<close>
  with a read limit.
\<close>

type_synonym index_repr = "index_metadata \<times> stream_index \<times> index_entry list"

definition skip_secrets :: "stream_index \<Rightarrow> stream_index" where
  "skip_secrets stream = stream\<lparr>si_codec := map without_secrets (si_codec stream)\<rparr>"

definition to_repr :: "archive_index \<Rightarrow> index_repr" where
  "to_repr idx = (ai_metadata idx, skip_secrets (ai_stream idx), ai_entries idx)"

definition from_repr :: "index_repr \<Rightarrow> archive_index" where
  "from_repr repr =
     (case repr of (metadata, stream, entries) \<Rightarrow> archive_index_new metadata (skip_secrets stream) entries)"

definition INDEX_MAGIC :: bytes where
  "INDEX_MAGIC = ascii ''STRIDX'' @ [0, 1]"

definition index_to_bytes ::
  "(index_repr \<Rightarrow> nat option) \<Rightarrow> (index_repr \<Rightarrow> bytes option) \<Rightarrow> archive_index \<Rightarrow> bytes result" where
  "index_to_bytes ser_size ser idx =
     and_then (ok_or (ser_size (to_repr idx)) (Serialization ''{}'')) (\<lambda>size.
       and_then (ok_or (ser (to_repr idx)) (Serialization ''{}'')) (\<lambda>payload. Inr (INDEX_MAGIC @ payload)))"

definition entries_check :: "archive_index \<Rightarrow> unit result" where
  "entries_check idx =
     (if \<exists>e\<in>set (ai_entries idx). en_checkpoint e \<ge> length (si_checkpoints (ai_stream idx))
      then Inl (IndexError ''entry {} references checkpoint {} of {}'') else Inr ())"

definition index_from_bytes :: "(nat \<Rightarrow> bytes \<Rightarrow> index_repr option) \<Rightarrow> bytes \<Rightarrow> archive_index result" where
  "index_from_bytes de data =
     (if length data < length INDEX_MAGIC then Inl (IndexError ''data too short'')
      else if take (length INDEX_MAGIC) data \<noteq> INDEX_MAGIC then Inl (IndexError ''invalid index magic'')
      else
        let payload = drop (length INDEX_MAGIC) data in
        and_then (ok_or (map_option from_repr (de (length payload) payload)) (Serialization ''{}'')) (\<lambda>idx.
          if im_version (ai_metadata idx) \<noteq> INDEX_VERSION
          then Inl (IndexVersionMismatch INDEX_VERSION (im_version (ai_metadata idx)))
          else and_then (index_validate (ai_stream idx)) (\<lambda>_. and_then (entries_check idx) (\<lambda>_. Inr idx))))"

section \<open>What lookup finds\<close>

text \<open>The last entry with a path.\<close>

definition last_with_path :: "index_entry list \<Rightarrow> bytes \<Rightarrow> index_entry option" where
  "last_with_path entries path = find (\<lambda>e. en_path e = path) (rev entries)"

lemma last_with_path_snoc [simp]:
  "last_with_path (es @ [e]) path = (if en_path e = path then Some e else last_with_path es path)"
  by (simp add: last_with_path_def)

lemma last_with_path_Nil [simp]: "last_with_path [] path = None"
  by (simp add: last_with_path_def)

lemma collect_paths_snoc [simp]: "collect_paths (es @ [e]) = (collect_paths es)(en_path e \<mapsto> length es)"
  by (simp add: collect_paths_def enumerate_append_eq)

lemma collect_paths_Nil [simp]: "collect_paths [] = Map.empty"
  by (simp add: collect_paths_def)

lemma collect_paths_less: "collect_paths es path = Some i \<Longrightarrow> i < length es"
  by (induction es rule: rev_induct) (auto split: if_splits intro: less_SucI)

lemma collect_paths_last: "map_option ((!) es) (collect_paths es path) = last_with_path es path"
proof (induction es rule: rev_induct)
  case (snoc e es)
  have "map_option ((!) (es @ [e])) (collect_paths es path) = map_option ((!) es) (collect_paths es path)"
    using collect_paths_less [of es path] by (cases "collect_paths es path") (simp_all add: nth_append)
  with snoc show ?case by simp
qed simp

lemma last_with_path_SomeD:
  "last_with_path es path = Some e \<Longrightarrow>
    \<exists>xs ys. es = xs @ e # ys \<and> en_path e = path \<and> (\<forall>x\<in>set ys. en_path x \<noteq> path)"
proof (induction es rule: rev_induct)
  case (snoc x es)
  show ?case
  proof (cases "en_path x = path")
    case True
    with snoc.prems have "x = e" by simp
    with True show ?thesis by fastforce
  next
    case False
    with snoc.prems have "last_with_path es path = Some e" by simp
    from snoc.IH [OF this] obtain xs ys where
      "es = xs @ e # ys" "en_path e = path" "\<forall>x\<in>set ys. en_path x \<noteq> path" by blast
    with False have "es @ [x] = xs @ e # (ys @ [x]) \<and> en_path e = path \<and> (\<forall>z\<in>set (ys @ [x]). en_path z \<noteq> path)"
      by simp
    then show ?thesis by blast
  qed
qed simp

lemma last_with_path_path: "last_with_path es path = Some e \<Longrightarrow> en_path e = path"
  by (auto dest: last_with_path_SomeD)

lemma last_with_path_None: "last_with_path es path = None \<longleftrightarrow> (\<forall>e\<in>set es. en_path e \<noteq> path)"
  by (induction es rule: rev_induct) auto

text \<open>The other spelling of a directory.\<close>

definition other_spelling :: "bytes \<Rightarrow> bytes" where
  "other_spelling path = (if path \<noteq> [] \<and> last path = 47 then trim_end 47 path else path @ [47])"

lemma archive_get_new:
  "archive_get (archive_index_new m s es) path =
     (case last_with_path es path of Some e \<Rightarrow> Some e | None \<Rightarrow> last_with_path es (other_spelling path))"
proof (cases "collect_paths es path")
  case None
  then have "last_with_path es path = None" using collect_paths_last [of es path] by simp
  with None show ?thesis
    by (simp add: archive_get_def path_position_def archive_index_new_def other_spelling_def collect_paths_last)
next
  case (Some i)
  then have "last_with_path es path = Some (es ! i)" using collect_paths_last [of es path] by simp
  with Some show ?thesis by (simp add: archive_get_def path_position_def archive_index_new_def)
qed

lemma archive_get_all_new:
  assumes "archive_get (archive_index_new m s es) path = Some e"
  shows "archive_get_all (archive_index_new m s es) path = filter (\<lambda>x. en_path x = en_path e) es"
    "last (archive_get_all (archive_index_new m s es) path) = e"
proof -
  show all: "archive_get_all (archive_index_new m s es) path = filter (\<lambda>x. en_path x = en_path e) es"
    using assms by (simp add: archive_get_all_def Let_def archive_index_new_def)
  from assms have "last_with_path es (en_path e) = Some e"
    using last_with_path_path [of es path e] last_with_path_path [of es "other_spelling path" e]
    by (cases "last_with_path es path") (simp_all add: archive_get_new)
  then obtain xs ys where "es = xs @ e # ys" "\<forall>x\<in>set ys. en_path x \<noteq> en_path e"
    using last_with_path_SomeD [of es "en_path e" e] by blast
  then have "filter (\<lambda>x. en_path x = en_path e) es = filter (\<lambda>x. en_path x = en_path e) xs @ [e]"
    by (simp add: filter_empty_conv)
  then show "last (archive_get_all (archive_index_new m s es) path) = e" unfolding all by simp
qed

section \<open>Well-formed indexes\<close>

text \<open>What reading relies on: a valid table, and checkpoints of entries that exist.\<close>

definition archive_index_ok :: "archive_index \<Rightarrow> bool" where
  "archive_index_ok idx \<longleftrightarrow>
     im_version (ai_metadata idx) = INDEX_VERSION \<and> cps_ok (si_checkpoints (ai_stream idx)) \<and>
     (\<forall>e\<in>set (ai_entries idx). en_checkpoint e < length (si_checkpoints (ai_stream idx))) \<and>
     ai_by_path idx = collect_paths (ai_entries idx)"

lemma entries_check_iff:
  "entries_check idx = Inr () \<longleftrightarrow> (\<forall>e\<in>set (ai_entries idx). en_checkpoint e < length (si_checkpoints (ai_stream idx)))"
  by (auto simp: entries_check_def not_less [symmetric] simp del: not_less)

lemma assemble_views [simp]:
  "ai_stream (assemble es c f sz s complete) = s"
  "im_complete (ai_metadata (assemble es c f sz s complete)) = complete"
  "im_archive_format (ai_metadata (assemble es c f sz s complete)) = f"
  "im_version (ai_metadata (assemble es c f sz s complete)) = INDEX_VERSION"
  "ai_entries (assemble es c f sz s complete) =
     map (\<lambda>e. e\<lparr>en_checkpoint := fst (best_checkpoint_for_offset s (en_offset e))\<rparr>) es"
  by (simp_all add: assemble_def archive_index_new_def Let_def)

lemma assemble_ok:
  assumes "cps_ok (si_checkpoints s)"
  shows "archive_index_ok (assemble es c f sz s complete)"
    "\<forall>e\<in>set (ai_entries (assemble es c f sz s complete)).
       uncompressed_offset (checkpoint_for (assemble es c f sz s complete) e) \<le> en_offset e \<and>
       (\<forall>j. en_checkpoint e < j \<longrightarrow> j < length (si_checkpoints s) \<longrightarrow>
          en_offset e < uncompressed_offset (si_checkpoints s ! j))"
proof -
  have best: "fst (best_checkpoint_for_offset s off) < length (si_checkpoints s)"
    "uncompressed_offset (si_checkpoints s ! fst (best_checkpoint_for_offset s off)) \<le> off"
    "fst (best_checkpoint_for_offset s off) < j \<Longrightarrow> j < length (si_checkpoints s) \<Longrightarrow>
      off < uncompressed_offset (si_checkpoints s ! j)" for off j
  proof -
    obtain i cp where b: "best_checkpoint_for_offset s off = (i, cp)" by fastforce
    note p = best_checkpoint_props [OF assms b]
    show "fst (best_checkpoint_for_offset s off) < length (si_checkpoints s)"
      "uncompressed_offset (si_checkpoints s ! fst (best_checkpoint_for_offset s off)) \<le> off"
      "fst (best_checkpoint_for_offset s off) < j \<Longrightarrow> j < length (si_checkpoints s) \<Longrightarrow>
        off < uncompressed_offset (si_checkpoints s ! j)"
      using p b by auto
  qed
  have "ai_by_path (assemble es c f sz s complete) = collect_paths (ai_entries (assemble es c f sz s complete))"
    by (simp add: assemble_def archive_index_new_def Let_def)
  then show "archive_index_ok (assemble es c f sz s complete)"
    using assms best(1) by (simp add: archive_index_ok_def)
  show "\<forall>e\<in>set (ai_entries (assemble es c f sz s complete)).
       uncompressed_offset (checkpoint_for (assemble es c f sz s complete) e) \<le> en_offset e \<and>
       (\<forall>j. en_checkpoint e < j \<longrightarrow> j < length (si_checkpoints s) \<longrightarrow>
          en_offset e < uncompressed_offset (si_checkpoints s ! j))"
    using best by (auto simp: checkpoint_for_def)
qed

lemma skip_secrets_simps [simp]:
  "si_checkpoints (skip_secrets s) = si_checkpoints s" "si_complete (skip_secrets s) = si_complete s"
  "si_codec (skip_secrets s) = map without_secrets (si_codec s)" "skip_secrets (skip_secrets s) = skip_secrets s"
  by (simp_all add: skip_secrets_def comp_def)

lemma index_validate_skip [simp]: "index_validate (skip_secrets s) = index_validate s"
  by (simp add: index_validate_def)

lemma from_to_repr: "archive_index_ok idx \<Longrightarrow> from_repr (to_repr idx) = idx\<lparr>ai_stream := skip_secrets (ai_stream idx)\<rparr>"
  by (simp add: from_repr_def to_repr_def archive_index_new_def archive_index_ok_def)

lemma from_bytes_ok: "index_from_bytes de data = Inr idx \<Longrightarrow> archive_index_ok idx"
  by (auto simp: index_from_bytes_def Let_def and_then_Inr_iff ok_or_def index_validate_iff entries_check_iff
      archive_index_ok_def from_repr_def archive_index_new_def split: if_splits option.splits)

lemma from_to_bytes:
  assumes "archive_index_ok idx" and "index_to_bytes ser_size ser idx = Inr data"
    and "\<forall>payload. ser (to_repr idx) = Some payload \<longrightarrow> de (length payload) payload = Some (to_repr idx)"
  shows "index_from_bytes de data = Inr (idx\<lparr>ai_stream := skip_secrets (ai_stream idx)\<rparr>)"
proof -
  from assms(2) obtain payload where p: "ser (to_repr idx) = Some payload" "data = INDEX_MAGIC @ payload"
    by (auto simp: index_to_bytes_def and_then_Inr_iff ok_or_def split: option.splits)
  have "index_validate (ai_stream idx) = Inr ()" "entries_check (idx\<lparr>ai_stream := skip_secrets (ai_stream idx)\<rparr>) = Inr ()"
    using assms(1) by (simp_all add: archive_index_ok_def index_validate_iff entries_check_iff)
  with p assms(1,3) show ?thesis
    by (simp add: index_from_bytes_def from_to_repr) (simp add: archive_index_ok_def)
qed

section \<open>Properties\<close>

text \<open>C29: Looking a path up gives the last member with that path, else the last with the other spelling of
  it as a directory, and the list of all its members ends with the one found.\<close>

theorem lookup_finds_last:
  "archive_get (archive_index_new m s es) path =
     (case last_with_path es path of Some e \<Rightarrow> Some e | None \<Rightarrow> last_with_path es (other_spelling path)) \<and>
   (case archive_get (archive_index_new m s es) path of
      None \<Rightarrow> archive_get_all (archive_index_new m s es) path = []
    | Some e \<Rightarrow> archive_get_all (archive_index_new m s es) path = filter (\<lambda>x. en_path x = en_path e) es \<and>
        last (archive_get_all (archive_index_new m s es) path) = e)"
proof (cases "archive_get (archive_index_new m s es) path")
  case None
  then have "archive_get_all (archive_index_new m s es) path = []" by (simp add: archive_get_all_def)
  with None show ?thesis using archive_get_new [of m s es path] by simp
next
  case (Some e)
  then show ?thesis using archive_get_all_new [OF Some] archive_get_new [of m s es path, symmetric] by simp
qed

text \<open>C30: An index that is saved loads again, if \<^verbatim>\<open>bincode\<close> reads what it wrote: metadata, checkpoints, members
  and path lookup are the ones that were saved, all but the secrets of the codecs, which are not
  written. Supplying a key and side streams afterwards gives the saved index back exactly when every
  AES stage had that key and every BCJ2 stage those streams.\<close>

theorem saved_index_loads:
  assumes "archive_index_ok idx" and "index_to_bytes ser_size ser idx = Inr data"
    and "\<forall>idx payload. ser (to_repr idx) = Some payload \<longrightarrow> de (length payload) payload = Some (to_repr idx)"
  shows "\<exists>loaded. index_from_bytes de data = Inr loaded \<and>
    ai_metadata loaded = ai_metadata idx \<and> ai_entries loaded = ai_entries idx \<and> ai_by_path loaded = ai_by_path idx \<and>
    si_codec (ai_stream loaded) = map without_secrets (si_codec (ai_stream idx)) \<and>
    (\<forall>key streams.
       loaded\<lparr>ai_stream := (ai_stream loaded)
         \<lparr>si_codec := set_bcj2_streams (set_aes_key (si_codec (ai_stream loaded)) key) streams\<rparr>\<rparr> = idx \<longleftrightarrow>
       (\<forall>k iv len. AesCbc k iv len \<in> set (si_codec (ai_stream idx)) \<longrightarrow> k = Some key) \<and>
       (\<forall>s. Bcj2 s \<in> set (si_codec (ai_stream idx)) \<longrightarrow> s = Some streams))"
proof -
  let ?idx = "idx\<lparr>ai_stream := skip_secrets (ai_stream idx)\<rparr>"
  have "index_from_bytes de data = Inr ?idx"
    by (rule from_to_bytes [where ser = ser and idx = idx and de = de and data = data, OF assms(1,2)]) (use assms(3) in blast)
  moreover have "?idx\<lparr>ai_stream := (ai_stream ?idx)\<lparr>si_codec := c\<rparr>\<rparr> = idx \<longleftrightarrow> c = si_codec (ai_stream idx)" for c
    by (cases idx; cases "ai_stream idx") (auto simp: skip_secrets_def)
  ultimately show ?thesis
    by (intro exI [of _ ?idx]) (simp add: restore_spec)
qed

definition example_archive_index :: archive_index where
  "example_archive_index = assemble [] CfGzip Ar 9 (stream_index_new [AesCbc (Some [1]) [2] (Some 3), Deflate False] None) True"

text \<open>The index of an encrypted stream: it loads without its key, and is the saved one once it has it.\<close>

theorem saved_index_loads_witness:
  "\<exists>loaded. index_from_bytes (\<lambda>n payload. Some (to_repr example_archive_index)) (INDEX_MAGIC @ [7]) = Inr loaded \<and>
   si_codec (ai_stream loaded) = [AesCbc None [2] (Some 3), Deflate False] \<and>
   (\<forall>s. loaded\<lparr>ai_stream := (ai_stream loaded)
     \<lparr>si_codec := set_bcj2_streams (set_aes_key (si_codec (ai_stream loaded)) [1]) s\<rparr>\<rparr> = example_archive_index)"
proof -
  have ok: "archive_index_ok example_archive_index"
    unfolding example_archive_index_def by (rule assemble_ok(1)) (simp add: stream_index_new_def cps_ok_start)
  let ?ser = "\<lambda>repr. if repr = to_repr example_archive_index then Some [7] else None"
  have b: "index_to_bytes (\<lambda>_. Some 1) ?ser example_archive_index = Inr (INDEX_MAGIC @ [7])"
    by (simp add: index_to_bytes_def)
  have "\<forall>idx payload. ?ser (to_repr idx) = Some payload \<longrightarrow> Some (to_repr example_archive_index) = Some (to_repr idx)" by simp
  from saved_index_loads [OF ok b, where de = "\<lambda>n payload. Some (to_repr example_archive_index)", OF this]
  obtain loaded where l: "index_from_bytes (\<lambda>n payload. Some (to_repr example_archive_index)) (INDEX_MAGIC @ [7]) = Inr loaded"
    "si_codec (ai_stream loaded) = map without_secrets (si_codec (ai_stream example_archive_index))"
    "\<And>key streams. loaded\<lparr>ai_stream := (ai_stream loaded)
       \<lparr>si_codec := set_bcj2_streams (set_aes_key (si_codec (ai_stream loaded)) key) streams\<rparr>\<rparr> = example_archive_index \<longleftrightarrow>
     (\<forall>k iv len. AesCbc k iv len \<in> set (si_codec (ai_stream example_archive_index)) \<longrightarrow> k = Some key) \<and>
     (\<forall>s. Bcj2 s \<in> set (si_codec (ai_stream example_archive_index)) \<longrightarrow> s = Some streams)"
    by blast
  have spec: "si_codec (ai_stream example_archive_index) = [AesCbc (Some [1]) [2] (Some 3), Deflate False]"
    by (simp add: example_archive_index_def assemble_def Let_def archive_index_new_def stream_index_new_def)
  show ?thesis using l by (intro exI [of _ loaded] conjI) (simp_all add: spec)
qed

text \<open>C31: Whatever bytes are loaded, and whatever \<^verbatim>\<open>bincode\<close> makes of them, an index that is accepted has the
  current version, a sorted checkpoint table from offset 0 on, entries that refer to checkpoints it
  has, and a lookup that fits its entries: looking for a checkpoint never leaves the table.\<close>

theorem loaded_index_safe:
  assumes "index_from_bytes de data = Inr idx"
  shows "archive_index_ok idx \<and>
    (\<forall>e\<in>set (ai_entries idx). checkpoint_for idx e \<in> set (si_checkpoints (ai_stream idx))) \<and>
    (\<forall>off. fst (archive_best_checkpoint idx off) < length (si_checkpoints (ai_stream idx)) \<and>
       uncompressed_offset (snd (archive_best_checkpoint idx off)) \<le> off)"
proof -
  have ok: "archive_index_ok idx" by (rule from_bytes_ok [OF assms])
  have "fst (archive_best_checkpoint idx off) < length (si_checkpoints (ai_stream idx)) \<and>
      uncompressed_offset (snd (archive_best_checkpoint idx off)) \<le> off" for off
  proof -
    obtain i cp where b: "best_checkpoint_for_offset (ai_stream idx) off = (i, cp)" by fastforce
    have "cps_ok (si_checkpoints (ai_stream idx))" using ok by (simp add: archive_index_ok_def)
    from best_checkpoint_props(1,3) [OF this b] b show ?thesis by (simp add: archive_best_checkpoint_def)
  qed
  with ok show ?thesis by (simp add: checkpoint_for_def archive_index_ok_def)
qed

theorem loaded_index_safe_witness:
  "archive_index_ok (example_archive_index\<lparr>ai_stream := skip_secrets (ai_stream example_archive_index)\<rparr>)"
proof -
  let ?idx = "example_archive_index\<lparr>ai_stream := skip_secrets (ai_stream example_archive_index)\<rparr>"
  have "im_version (ai_metadata example_archive_index) = INDEX_VERSION"
    by (simp add: example_archive_index_def assemble_def Let_def archive_index_new_def)
  moreover have "index_validate (ai_stream example_archive_index) = Inr ()" "entries_check ?idx = Inr ()"
    by (simp_all add: example_archive_index_def assemble_def Let_def archive_index_new_def index_validate_iff entries_check_def
        stream_index_new_def cps_ok_start)
  moreover have "from_repr (to_repr example_archive_index) = ?idx"
    by (rule from_to_repr)
      (unfold example_archive_index_def, rule assemble_ok(1), simp add: stream_index_new_def cps_ok_start)
  ultimately have "index_from_bytes (\<lambda>_ _. Some (to_repr example_archive_index)) (INDEX_MAGIC @ []) = Inr ?idx"
    by (simp add: index_from_bytes_def)
  from loaded_index_safe [OF this] show ?thesis by blast
qed

end
