(* ===== verification/Reader.thy ===== *)
theory Reader
  imports StreamIndex
begin

text \<open>
  \<^verbatim>\<open>src/stream/reader.rs\<close>: decoding an unpacked byte range of a stream from the nearest checkpoint,
  as a state machine that asks its caller for packed bytes. The decompressor is any that keeps
  the \<open>decoder\<close> contract; under it the reader hands out exactly the bytes of its range.
\<close>

section \<open>State\<close>

definition BUF_SIZE :: nat where
  "BUF_SIZE = 65536"

text \<open>\<^verbatim>\<open>EngineRequest\<close>.\<close>

datatype engine_request =
    NeedInput
  | SeekAndRead nat nat
  | OutputReady
  | RequestDone
  | RequestError error

datatype reader_state =
    SeekToCheckpoint
  | Skipping nat
  | Emitting nat
  | NeedInputSkipping nat
  | NeedInputEmitting nat
  | ReaderDone

text \<open>
  The output buffer's valid bytes are \<open>output_read..output_len\<close>. The scratch buffer for skipped
  output is not part of the state: its contents never outlive the step that fills it.
\<close>

record 'd stream_reader =
  sr_decompressor :: 'd
  sr_checkpoint :: checkpoint
  sr_target_offset :: nat
  sr_target_len :: nat
  sr_state :: reader_state
  sr_output_buf :: bytes
  sr_output_len :: nat
  sr_output_read :: nat
  sr_range_left :: nat
  sr_input_buf :: bytes
  sr_input_pos :: nat
  sr_compressed_pos :: nat
  sr_unpacked_pos :: nat
  sr_eof :: bool
  sr_stream_ended :: bool
  sr_started :: bool
  sr_unpacked_len :: "nat option"
  sr_require_full :: bool

definition clamp_len :: "nat option \<Rightarrow> nat \<Rightarrow> nat \<Rightarrow> nat" where
  "clamp_len unpacked_len offset len =
     (case unpacked_len of Some n \<Rightarrow> min len (n - offset) | None \<Rightarrow> len)"

text \<open>\<^verbatim>\<open>StreamReader::new\<close>; \<open>create\<close> is \<^verbatim>\<open>CodecSpec::create\<close>.\<close>

definition reader_new ::
  "(codec_spec \<Rightarrow> 'd result) \<Rightarrow> stream_index \<Rightarrow> nat \<Rightarrow> nat \<Rightarrow> 'd stream_reader result" where
  "reader_new create index offset len =
     and_then (create (si_codec index)) (\<lambda>decompressor.
       let cp = snd (best_checkpoint_for_offset index offset);
           len = clamp_len (si_unpacked_len index) offset len
       in Inr \<lparr>sr_decompressor = decompressor, sr_checkpoint = cp, sr_target_offset = offset,
               sr_target_len = len, sr_state = (if len = 0 then ReaderDone else SeekToCheckpoint),
               sr_output_buf = replicate BUF_SIZE 0, sr_output_len = 0, sr_output_read = 0,
               sr_range_left = len, sr_input_buf = [], sr_input_pos = 0,
               sr_compressed_pos = compressed_offset cp, sr_unpacked_pos = 0, sr_eof = False,
               sr_stream_ended = False, sr_started = False,
               sr_unpacked_len = si_unpacked_len index,
               sr_require_full = (si_unpacked_len index \<noteq> None)\<rparr>)"

definition require_full_range :: "'d stream_reader \<Rightarrow> 'd stream_reader" where
  "require_full_range r = r\<lparr>sr_require_full := True\<rparr>"

definition serveable :: "'d stream_reader \<Rightarrow> nat" where
  "serveable r = min (sr_output_len r - sr_output_read r) (sr_range_left r)"

definition reader_position :: "'d stream_reader \<Rightarrow> nat" where
  "reader_position r =
     (if \<not> sr_started r then sr_target_offset r
      else sr_unpacked_pos r - (sr_output_len r - sr_output_read r))"

definition compressed_position :: "'d stream_reader \<Rightarrow> nat" where
  "compressed_position r = sr_compressed_pos r"

section \<open>Operations\<close>

definition seek_forward :: "'d stream_reader \<Rightarrow> nat \<Rightarrow> nat \<Rightarrow> 'd stream_reader \<times> unit result" where
  "seek_forward r offset len =
     (if \<not> sr_started r then
        (if offset < sr_target_offset r
         then (r, Inl (InvalidState ''seek_forward to {} before the reader's start {}''))
         else let len = clamp_len (sr_unpacked_len r) offset len in
              (r\<lparr>sr_target_offset := offset, sr_target_len := len, sr_range_left := len,
                 sr_state := (if len = 0 then ReaderDone else SeekToCheckpoint)\<rparr>, Inr ()))
      else
        let position = reader_position r in
        if offset < position
        then (r, Inl (InvalidState ''seek_forward to {} behind position {}''))
        else
          let buffered = sr_output_len r - sr_output_read r;
              skip = min (offset - position) buffered;
              r = r\<lparr>sr_output_read := sr_output_read r + skip\<rparr>;
              r = (if sr_output_read r = sr_output_len r
                   then r\<lparr>sr_output_len := 0, sr_output_read := 0\<rparr> else r);
              beyond = offset - position - skip;
              len = clamp_len (sr_unpacked_len r) offset len;
              r = r\<lparr>sr_target_offset := offset, sr_target_len := len, sr_range_left := len\<rparr>;
              remaining = len - serveable r
          in (r\<lparr>sr_state := (if remaining = 0 \<or> sr_stream_ended r then ReaderDone
                             else if beyond > 0 then Skipping beyond
                             else Emitting remaining)\<rparr>, Inr ()))"

type_synonym 'd reader_step = "'d stream_reader \<times> engine_request option"

definition after_decode :: "'d stream_reader \<Rightarrow> decompress_result \<Rightarrow> bool \<Rightarrow> 'd reader_step" where
  "after_decode r result had_input =
     (if status result = StreamEnd \<and> had_input
      then (r\<lparr>sr_stream_ended := True, sr_state := ReaderDone\<rparr>, Some RequestDone)
      else if sr_input_pos r \<ge> length (sr_input_buf r) then
        (if sr_eof r then
           (if bytes_consumed result = 0 \<and> bytes_produced result = 0 then
              (if sr_compressed_pos r > 0 \<and> status result \<noteq> StreamEnd
               then (r, Some (RequestError TruncatedInput))
               else (r\<lparr>sr_stream_ended := True, sr_state := ReaderDone\<rparr>, Some RequestDone))
            else (r, Some NeedInput))
         else
           (case sr_state r of
              Skipping remaining \<Rightarrow> (r\<lparr>sr_state := NeedInputSkipping remaining\<rparr>, Some NeedInput)
            | Emitting remaining \<Rightarrow> (r\<lparr>sr_state := NeedInputEmitting remaining\<rparr>, Some NeedInput)
            | _ \<Rightarrow> (r, Some NeedInput)))
      else if bytes_consumed result = 0 \<and> bytes_produced result = 0
      then (r, Some (RequestError (DecompressionError
             ''decompressor made no progress with input remaining'')))
      else (r, None))"

definition reader_skip :: "'d decompressor \<Rightarrow> 'd stream_reader \<Rightarrow> nat \<Rightarrow> 'd reader_step" where
  "reader_skip ops r remaining =
     (let input = drop (sr_input_pos r) (sr_input_buf r); had_input = (input \<noteq> []) in
      if \<not> had_input \<and> \<not> sr_eof r
      then (r\<lparr>sr_state := NeedInputSkipping remaining\<rparr>, Some NeedInput)
      else case decompress ops (sr_decompressor r) input BUF_SIZE of
        (d, Inl e) \<Rightarrow> (r\<lparr>sr_decompressor := d\<rparr>, Some (RequestError e))
      | (d, Inr result) \<Rightarrow>
          let n = bytes_produced result;
              r = r\<lparr>sr_decompressor := d, sr_input_pos := sr_input_pos r + bytes_consumed result,
                    sr_unpacked_pos := sr_unpacked_pos r + n\<rparr>
          in if n > remaining then
               (let tk = n - remaining;
                    left = sr_target_len r - tk;
                    r = r\<lparr>sr_output_buf := copy_into (sr_output_buf r) 0 (drop remaining (produced result)),
                          sr_output_len := tk, sr_output_read := 0,
                          sr_state := (if left = 0 then ReaderDone else Emitting left)\<rparr>;
                    r = (if status result = StreamEnd
                         then r\<lparr>sr_stream_ended := True, sr_state := ReaderDone\<rparr> else r)
                in (r, Some OutputReady))
             else
               let remaining = remaining - n in
               after_decode
                 (r\<lparr>sr_state := (if remaining = 0 then Emitting (sr_target_len r) else Skipping remaining)\<rparr>)
                 result had_input)"

definition reader_emit :: "'d decompressor \<Rightarrow> 'd stream_reader \<Rightarrow> nat \<Rightarrow> 'd reader_step" where
  "reader_emit ops r remaining =
     (let input = drop (sr_input_pos r) (sr_input_buf r); had_input = (input \<noteq> []) in
      if \<not> had_input \<and> \<not> sr_eof r
      then (r\<lparr>sr_state := NeedInputEmitting remaining\<rparr>, Some NeedInput)
      else case decompress ops (sr_decompressor r) input (min remaining BUF_SIZE) of
        (d, Inl e) \<Rightarrow> (r\<lparr>sr_decompressor := d\<rparr>, Some (RequestError e))
      | (d, Inr result) \<Rightarrow>
          let n = bytes_produced result;
              r = r\<lparr>sr_decompressor := d, sr_input_pos := sr_input_pos r + bytes_consumed result,
                    sr_unpacked_pos := sr_unpacked_pos r + n\<rparr>
          in if n > 0 then
               (let left = remaining - n;
                    r = r\<lparr>sr_output_buf := copy_into (sr_output_buf r) 0 (produced result),
                          sr_output_len := n, sr_output_read := 0,
                          sr_state := (if left = 0 then ReaderDone else Emitting left)\<rparr>;
                    r = (if status result = StreamEnd
                         then r\<lparr>sr_stream_ended := True, sr_state := ReaderDone\<rparr> else r)
                in (r, Some OutputReady))
             else after_decode (r\<lparr>sr_state := Emitting remaining\<rparr>) result had_input)"

definition reader_step_once :: "'d decompressor \<Rightarrow> 'd stream_reader \<Rightarrow> 'd reader_step" where
  "reader_step_once ops r =
     (if serveable r > 0 then (r, Some OutputReady)
      else case sr_state r of
        SeekToCheckpoint \<Rightarrow>
          (case restore ops (sr_decompressor r) (sr_checkpoint r) of
             (d, Inl e) \<Rightarrow> (r\<lparr>sr_decompressor := d\<rparr>, Some (RequestError e))
           | (d, Inr _) \<Rightarrow>
               let cp = sr_checkpoint r;
                   r = r\<lparr>sr_decompressor := d, sr_started := True,
                         sr_compressed_pos := compressed_offset cp,
                         sr_unpacked_pos := uncompressed_offset cp\<rparr>;
                   skip = sr_target_offset r - sr_unpacked_pos r
               in (r\<lparr>sr_state := (if skip > 0 then NeedInputSkipping skip
                                  else NeedInputEmitting (sr_target_len r))\<rparr>,
                   Some (SeekAndRead (compressed_offset cp) BUF_SIZE)))
      | NeedInputSkipping remaining \<Rightarrow>
          if sr_eof r then reader_skip ops (r\<lparr>sr_state := Skipping remaining\<rparr>) remaining
          else (r, Some NeedInput)
      | NeedInputEmitting remaining \<Rightarrow>
          if sr_eof r then reader_emit ops (r\<lparr>sr_state := Emitting remaining\<rparr>) remaining
          else (r, Some NeedInput)
      | Skipping remaining \<Rightarrow> reader_skip ops r remaining
      | Emitting remaining \<Rightarrow> reader_emit ops r remaining
      | ReaderDone \<Rightarrow> (r, Some RequestDone))"

text \<open>\<^verbatim>\<open>step\<close>: \<^verbatim>\<open>None\<close> where its loop would never end.\<close>

partial_function (option) reader_step ::
  "'d decompressor \<Rightarrow> 'd stream_reader \<Rightarrow> ('d stream_reader \<times> engine_request) option" where
  "reader_step ops r =
     (case reader_step_once ops r of
        (r', Some q) \<Rightarrow>
          if q = RequestDone \<and> sr_range_left r' > 0 \<and> sr_require_full r'
          then Some (r', RequestError TruncatedInput) else Some (r', q)
      | (r', None) \<Rightarrow> reader_step ops r')"

definition reader_provide_data :: "'d stream_reader \<Rightarrow> bytes \<Rightarrow> 'd stream_reader" where
  "reader_provide_data r data =
     r\<lparr>sr_input_buf := data, sr_input_pos := 0,
       sr_compressed_pos := sr_compressed_pos r + length data,
       sr_state := (case sr_state r of
          NeedInputSkipping remaining \<Rightarrow> Skipping remaining
        | NeedInputEmitting remaining \<Rightarrow> Emitting remaining
        | s \<Rightarrow> s)\<rparr>"

definition reader_signal_eof :: "'d stream_reader \<Rightarrow> 'd stream_reader" where
  "reader_signal_eof r = r\<lparr>sr_eof := True\<rparr>"

text \<open>\<^verbatim>\<open>read_output\<close> into a buffer of \<open>cap\<close> bytes: the bytes written to its front.\<close>

definition reader_read_output :: "'d stream_reader \<Rightarrow> nat \<Rightarrow> 'd stream_reader \<times> bytes" where
  "reader_read_output r cap =
     (let n = min (serveable r) cap in
      if n = 0 then (r, [])
      else
        let out = subslice (sr_output_read r) (sr_output_read r + n) (sr_output_buf r);
            r = r\<lparr>sr_output_read := sr_output_read r + n, sr_range_left := sr_range_left r - n\<rparr>;
            r = (if sr_output_read r \<ge> sr_output_len r
                 then r\<lparr>sr_output_len := 0, sr_output_read := 0\<rparr> else r)
        in (r, out))"

section \<open>Driving a reader\<close>

text \<open>
  The caller's loop, as \<^verbatim>\<open>read_file\<close> and \<^verbatim>\<open>EntryReader\<close> in \<^verbatim>\<open>src/sync/reader.rs\<close> have it: seek and
  read when asked, take all output there is. \<open>rd pos want\<close> is how many bytes a read of up to
  \<open>want\<close> bytes at \<open>pos\<close> gives; 0 means the end of the file.
\<close>

function drain_reader :: "'d stream_reader \<Rightarrow> bytes \<Rightarrow> 'd stream_reader \<times> bytes" where
  "drain_reader r acc =
     (case reader_read_output r BUF_SIZE of
        (r', out) \<Rightarrow> if out = [] then (r', acc) else drain_reader r' (acc @ out))"
  by pat_completeness auto
termination
proof (relation "measure (\<lambda>(r, acc). sr_range_left r)")
  fix r :: "'d stream_reader" and acc r' out
  assume "(r', out) = reader_read_output r BUF_SIZE" "out \<noteq> []"
  then have "min (serveable r) BUF_SIZE \<noteq> 0" "sr_range_left r' = sr_range_left r - min (serveable r) BUF_SIZE"
    by (auto simp: reader_read_output_def Let_def split: if_splits)
  moreover have "serveable r \<le> sr_range_left r" by (simp add: serveable_def)
  ultimately show "((r', acc @ out), r, acc) \<in> measure (\<lambda>(r, acc). sr_range_left r)"
    by (auto simp: min_def split: if_splits)
qed simp

declare drain_reader.simps [simp del]

partial_function (option) read_loop ::
  "'d decompressor \<Rightarrow> bytes \<Rightarrow> (nat \<Rightarrow> nat \<Rightarrow> nat) \<Rightarrow> 'd stream_reader \<Rightarrow> nat \<Rightarrow> bytes \<Rightarrow>
   ('d stream_reader \<times> bytes result) option" where
  "read_loop ops file rd r pos acc =
     (case reader_step ops r of
        None \<Rightarrow> None
      | Some (r', q) \<Rightarrow>
          (case q of
             NeedInput \<Rightarrow>
               let n = rd pos BUF_SIZE in
               if n = 0 then read_loop ops file rd (reader_signal_eof r') pos acc
               else read_loop ops file rd (reader_provide_data r' (take n (drop pos file))) (pos + n) acc
           | SeekAndRead offset len \<Rightarrow>
               let n = rd offset (min len BUF_SIZE) in
               if n = 0 then read_loop ops file rd (reader_signal_eof r') offset acc
               else read_loop ops file rd (reader_provide_data r' (take n (drop offset file))) (offset + n) acc
           | OutputReady \<Rightarrow>
               (case drain_reader r' acc of (r'', acc') \<Rightarrow> read_loop ops file rd r'' pos acc')
           | RequestDone \<Rightarrow> Some (r', Inr acc)
           | RequestError e \<Rightarrow> Some (r', Inl e)))"

text \<open>What \<^verbatim>\<open>Read\<close> promises of \<open>rd\<close>: something as long as there is something.\<close>

definition reads_ok :: "bytes \<Rightarrow> (nat \<Rightarrow> nat \<Rightarrow> nat) \<Rightarrow> bool" where
  "reads_ok file rd \<longleftrightarrow>
     (\<forall>pos want. rd pos want \<le> want \<and> rd pos want \<le> length file - pos \<and>
        (0 < want \<and> pos < length file \<longrightarrow> 0 < rd pos want))"

text \<open>Reads that give all they are asked for.\<close>

definition plain_rd :: "bytes \<Rightarrow> nat \<Rightarrow> nat \<Rightarrow> nat" where
  "plain_rd data pos want = min want (length data - pos)"

lemma plain_rd_ok: "reads_ok data (plain_rd data)"
  by (auto simp: reads_ok_def plain_rd_def)

end
