(* ===== verification/Strategy.thy ===== *)
theory Strategy
  imports StreamIndex
begin

text \<open>
  \<^verbatim>\<open>src/engine/checkpoint_strategy.rs\<close>: when to lay checkpoints and when to thin them. A strategy is a
  state of any type with a record of its three operations. Where the code computes with \<^verbatim>\<open>f64\<close>, the
  definitions take the floating-point operations as a record, so that what is proved holds for any
  rounding.
\<close>

section \<open>The interface\<close>

record checkpoint_context =
  cx_uncompressed_pos :: nat
  cx_compressed_pos :: nat
  cx_last_checkpoint_uncompressed_pos :: nat
  cx_checkpoint_count :: nat
  cx_total_checkpoint_data_bytes :: nat
  cx_archive_size :: nat

record 's strategy =
  should_checkpoint :: "'s \<Rightarrow> checkpoint_context \<Rightarrow> 's \<times> bool"
  on_checkpoint_created :: "'s \<Rightarrow> checkpoint_context \<Rightarrow> nat \<Rightarrow> 's"
  should_thin :: "'s \<Rightarrow> checkpoint_context \<Rightarrow> 's \<times> bool"

text \<open>The default methods of the trait.\<close>

definition on_created_default :: "'s \<Rightarrow> checkpoint_context \<Rightarrow> nat \<Rightarrow> 's" where
  "on_created_default s ctx data_size = s"

definition never_thin :: "'s \<Rightarrow> checkpoint_context \<Rightarrow> 's \<times> bool" where
  "never_thin s ctx = (s, False)"

definition distance :: "checkpoint_context \<Rightarrow> nat" where
  "distance ctx = cx_uncompressed_pos ctx - cx_last_checkpoint_uncompressed_pos ctx"

section \<open>FixedInterval\<close>

record fixed_interval =
  fi_interval :: nat

definition fixed_interval_new :: "nat \<Rightarrow> fixed_interval" where
  "fixed_interval_new interval = \<lparr>fi_interval = interval\<rparr>"

definition fixed_interval_ops :: "fixed_interval strategy" where
  "fixed_interval_ops =
     \<lparr>should_checkpoint = (\<lambda>s ctx. (s, distance ctx \<ge> fi_interval s)),
      on_checkpoint_created = on_created_default, should_thin = never_thin\<rparr>"

section \<open>Floating point\<close>

record 'f float_ops =
  of_u64 :: "nat \<Rightarrow> 'f"
  to_u64 :: "'f \<Rightarrow> nat"
  f_mul :: "'f \<Rightarrow> 'f \<Rightarrow> 'f"
  f_div :: "'f \<Rightarrow> 'f \<Rightarrow> 'f"
  f_sub :: "'f \<Rightarrow> 'f \<Rightarrow> 'f"
  f_less :: "'f \<Rightarrow> 'f \<Rightarrow> bool"
  f_le :: "'f \<Rightarrow> 'f \<Rightarrow> bool"
  f_zero :: 'f
  f_sqrt2 :: 'f

section \<open>Budget\<close>

record budget =
  bu_budget :: nat
  bu_min_interval :: nat
  bu_current_interval :: nat

definition budget_new :: "nat \<Rightarrow> budget" where
  "budget_new b = \<lparr>bu_budget = b, bu_min_interval = 256 * 1024, bu_current_interval = 1024 * 1024\<rparr>"

definition budget_with_min_interval :: "budget \<Rightarrow> nat \<Rightarrow> budget" where
  "budget_with_min_interval s n = s\<lparr>bu_min_interval := n\<rparr>"

definition budget_should_checkpoint :: "budget \<Rightarrow> checkpoint_context \<Rightarrow> budget \<times> bool" where
  "budget_should_checkpoint s ctx =
     (if cx_total_checkpoint_data_bytes ctx \<ge> bu_budget s then (s, False)
      else (s, distance ctx \<ge> bu_current_interval s))"

definition budget_on_created :: "'f float_ops \<Rightarrow> budget \<Rightarrow> checkpoint_context \<Rightarrow> nat \<Rightarrow> budget" where
  "budget_on_created F s ctx data_size =
     (let real_checkpoints = cx_checkpoint_count ctx - 1 in
      if real_checkpoints = 0 \<or> cx_compressed_pos ctx = 0 \<or> cx_archive_size ctx = 0 then s
      else
        let avg_size = f_div F (of_u64 F (cx_total_checkpoint_data_bytes ctx)) (of_u64 F real_checkpoints) in
        if f_le F avg_size (f_zero F) then s
        else
          let compression_ratio = f_div F (of_u64 F (cx_uncompressed_pos ctx)) (of_u64 F (cx_compressed_pos ctx));
              estimated_total = f_mul F (of_u64 F (cx_archive_size ctx)) compression_ratio;
              remaining_budget = bu_budget s - cx_total_checkpoint_data_bytes ctx;
              remaining_checkpoints = f_div F (of_u64 F remaining_budget) avg_size;
              remaining_uncompressed = f_sub F estimated_total (of_u64 F (cx_uncompressed_pos ctx))
          in if f_less F (f_zero F) remaining_checkpoints \<and> f_less F (f_zero F) remaining_uncompressed
             then let optimal = to_u64 F (f_div F remaining_uncompressed remaining_checkpoints)
                  in s\<lparr>bu_current_interval := max optimal (bu_min_interval s)\<rparr>
             else s)"

definition budget_ops :: "'f float_ops \<Rightarrow> budget strategy" where
  "budget_ops F =
     \<lparr>should_checkpoint = budget_should_checkpoint, on_checkpoint_created = budget_on_created F,
      should_thin = never_thin\<rparr>"

section \<open>BudgetRatio\<close>

record 'f budget_ratio =
  br_ratio :: 'f
  br_inner :: budget
  br_fallback_interval :: nat
  br_initialized :: bool

definition budget_ratio_new :: "'f \<Rightarrow> 'f budget_ratio" where
  "budget_ratio_new ratio =
     \<lparr>br_ratio = ratio, br_inner = budget_new 0, br_fallback_interval = 16 * 1024 * 1024,
      br_initialized = False\<rparr>"

definition budget_ratio_should_checkpoint ::
  "'f float_ops \<Rightarrow> 'f budget_ratio \<Rightarrow> checkpoint_context \<Rightarrow> 'f budget_ratio \<times> bool" where
  "budget_ratio_should_checkpoint F s ctx =
     (let s = (if \<not> br_initialized s then
                 (let s = s\<lparr>br_initialized := True\<rparr> in
                  if cx_archive_size ctx > 0
                  then s\<lparr>br_inner := budget_new (max (to_u64 F (f_mul F (of_u64 F (cx_archive_size ctx)) (br_ratio s))) 1024)\<rparr>
                  else s)
               else s)
      in if cx_archive_size ctx = 0 then (s, distance ctx \<ge> br_fallback_interval s)
         else case budget_should_checkpoint (br_inner s) ctx of
           (inner, b) \<Rightarrow> (s\<lparr>br_inner := inner\<rparr>, b))"

definition budget_ratio_on_created ::
  "'f float_ops \<Rightarrow> 'f budget_ratio \<Rightarrow> checkpoint_context \<Rightarrow> nat \<Rightarrow> 'f budget_ratio" where
  "budget_ratio_on_created F s ctx data_size =
     (if cx_archive_size ctx > 0 then s\<lparr>br_inner := budget_on_created F (br_inner s) ctx data_size\<rparr> else s)"

definition budget_ratio_ops :: "'f float_ops \<Rightarrow> 'f budget_ratio strategy" where
  "budget_ratio_ops F =
     \<lparr>should_checkpoint = budget_ratio_should_checkpoint F,
      on_checkpoint_created = budget_ratio_on_created F, should_thin = never_thin\<rparr>"

section \<open>ThinningBudget\<close>

definition U64_MAX :: nat where
  "U64_MAX = 2 ^ 64 - 1"

record thinning_budget =
  tb_budget :: nat
  tb_interval :: nat
  tb_started :: bool

definition thinning_budget_new :: "nat \<Rightarrow> thinning_budget" where
  "thinning_budget_new b = \<lparr>tb_budget = b, tb_interval = 1024 * 1024, tb_started = False\<rparr>"

definition thinning_with_min_interval :: "thinning_budget \<Rightarrow> nat \<Rightarrow> thinning_budget" where
  "thinning_with_min_interval s n = s\<lparr>tb_interval := max n 1\<rparr>"

text \<open>The doubling loop of \<^verbatim>\<open>start\<close>, with fuel.\<close>

fun grow_interval :: "'f float_ops \<Rightarrow> 'f \<Rightarrow> nat \<Rightarrow> nat \<Rightarrow> nat" where
  "grow_interval F mean 0 interval = interval"
| "grow_interval F mean (Suc fuel) interval =
     (if f_less F (f_mul F (of_u64 F interval) (f_sqrt2 F)) mean
      then grow_interval F mean fuel (saturating_mul64 interval 2) else interval)"

definition thinning_start :: "'f float_ops \<Rightarrow> thinning_budget \<Rightarrow> checkpoint_context \<Rightarrow> thinning_budget" where
  "thinning_start F s ctx =
     (if tb_started s \<or> cx_checkpoint_count ctx < 2 then s\<lparr>tb_started := True\<rparr>
      else
        let mean = f_div F (of_u64 F (cx_last_checkpoint_uncompressed_pos ctx))
                           (of_u64 F (cx_checkpoint_count ctx - 1));
            s = s\<lparr>tb_started := True\<rparr>
        in s\<lparr>tb_interval := grow_interval F mean 64 (tb_interval s)\<rparr>)"

definition thinning_should_checkpoint ::
  "'f float_ops \<Rightarrow> thinning_budget \<Rightarrow> checkpoint_context \<Rightarrow> thinning_budget \<times> bool" where
  "thinning_should_checkpoint F s ctx =
     (let s = thinning_start F s ctx in (s, distance ctx \<ge> tb_interval s))"

definition thinning_should_thin ::
  "'f float_ops \<Rightarrow> thinning_budget \<Rightarrow> checkpoint_context \<Rightarrow> thinning_budget \<times> bool" where
  "thinning_should_thin F s ctx =
     (let s = thinning_start F s ctx in
      if cx_total_checkpoint_data_bytes ctx \<le> tb_budget s then (s, False)
      else (s\<lparr>tb_interval := saturating_mul64 (tb_interval s) 2\<rparr>, True))"

definition thinning_budget_ops :: "'f float_ops \<Rightarrow> thinning_budget strategy" where
  "thinning_budget_ops F =
     \<lparr>should_checkpoint = thinning_should_checkpoint F, on_checkpoint_created = on_created_default,
      should_thin = thinning_should_thin F\<rparr>"

definition default_interval_for_format :: "compression_format \<Rightarrow> nat" where
  "default_interval_for_format f =
     (case f of
        CfNone \<Rightarrow> 1024 * 1024
      | CfBzip2 \<Rightarrow> 1024 * 1024
      | CfGzip \<Rightarrow> 16 * 1024 * 1024
      | CfZstd \<Rightarrow> 64 * 1024 * 1024
      | CfXz \<Rightarrow> 64 * 1024 * 1024)"

section \<open>The doubling loop\<close>

text \<open>
  Sixty-four doublings of a positive interval reach \<^verbatim>\<open>u64::MAX\<close>, and there the loop stops because
  no mean exceeds \<^verbatim>\<open>u64::MAX * sqrt 2\<close>: the fuel is enough.
\<close>

lemma saturating_double: "0 < k \<Longrightarrow> min (2 ^ n * k) U64_MAX \<le> i \<Longrightarrow> min (2 ^ Suc n * k) U64_MAX \<le> saturating_mul64 i 2"
  by (auto simp: saturating_mul64_def U64_MAX_def min_def split: if_splits)

lemma grow_interval_stops:
  assumes top: "\<not> f_less F (f_mul F (of_u64 F U64_MAX) (f_sqrt2 F)) mean"
    and i: "i \<le> U64_MAX" "min (2 ^ n * k) U64_MAX \<le> i" "0 < k"
    and f: "64 \<le> n + fuel"
  shows "\<not> f_less F (f_mul F (of_u64 F (grow_interval F mean fuel i)) (f_sqrt2 F)) mean"
  using i f
proof (induction fuel arbitrary: i n)
  case 0
  then have "(2 :: nat) ^ 64 * 1 \<le> 2 ^ n * k" by (intro mult_le_mono power_increasing) auto
  then have "U64_MAX \<le> 2 ^ n * k" by (simp add: U64_MAX_def)
  then have "i = U64_MAX" using 0 by simp
  then show ?case using top by simp
next
  case (Suc fuel)
  show ?case
  proof (cases "f_less F (f_mul F (of_u64 F i) (f_sqrt2 F)) mean")
    case True
    have "saturating_mul64 i 2 \<le> U64_MAX" by (simp add: saturating_mul64_def U64_MAX_def)
    from Suc.IH [OF this saturating_double [OF Suc.prems(3,2)] Suc.prems(3)] Suc.prems(4) True
    show ?thesis by simp
  qed simp
qed

end
