(* ===== verification/Indexer.thy ===== *)
theory Indexer
  imports Reader Strategy
begin

text \<open>
  \<^verbatim>\<open>src/stream/indexer.rs\<close>: one pass over a compressed stream that lays checkpoints where its
  strategy wants them, hands decoded bytes out when asked to, and can stop early and be resumed.
\<close>

section \<open>State\<close>

datatype indexer_state =
    IxNeedInput
  | IxSeek nat
  | IxProcessing
  | IxDone

record ('d, 's) stream_indexer =
  ix_decompressor :: 'd
  ix_index :: stream_index
  ix_strategy :: 's
  ix_state :: indexer_state
  ix_compressed_pos :: nat
  ix_unpacked_pos :: nat
  ix_last_checkpoint_pos :: nat
  ix_checkpoint_data_bytes :: nat
  ix_stop_at :: "nat option"
  ix_emit_output :: bool
  ix_input_buf :: bytes
  ix_input_pos :: nat
  ix_eof :: bool
  ix_out_buf :: bytes
  ix_out_len :: nat
  ix_out_read :: nat

definition indexer_with_parts ::
  "'d \<Rightarrow> stream_index \<Rightarrow> 's \<Rightarrow> indexer_state \<Rightarrow> nat \<Rightarrow> nat \<Rightarrow> ('d, 's) stream_indexer" where
  "indexer_with_parts decompressor index strat st compressed_pos unpacked_pos =
     \<lparr>ix_decompressor = decompressor, ix_index = index, ix_strategy = strat, ix_state = st,
      ix_compressed_pos = compressed_pos, ix_unpacked_pos = unpacked_pos,
      ix_last_checkpoint_pos = unpacked_pos, ix_checkpoint_data_bytes = checkpoint_data_bytes index,
      ix_stop_at = None, ix_emit_output = False, ix_input_buf = [], ix_input_pos = 0, ix_eof = False,
      ix_out_buf = replicate BUF_SIZE 0, ix_out_len = 0, ix_out_read = 0\<rparr>"

text \<open>\<open>create\<close> is \<^verbatim>\<open>CodecSpec::create\<close>.\<close>

definition indexer_new ::
  "(codec_spec \<Rightarrow> 'd result) \<Rightarrow> codec_spec \<Rightarrow> 's \<Rightarrow> nat option \<Rightarrow> ('d, 's) stream_indexer result" where
  "indexer_new create codec strat compressed_len =
     and_then (create codec) (\<lambda>decompressor.
       Inr (indexer_with_parts decompressor (stream_index_new codec compressed_len) strat IxNeedInput 0 0))"

definition indexer_resume ::
  "'d decompressor \<Rightarrow> (codec_spec \<Rightarrow> 'd result) \<Rightarrow> stream_index \<Rightarrow> 's \<Rightarrow> ('d, 's) stream_indexer result" where
  "indexer_resume ops create index strat =
     (if si_complete index then Inl (InvalidState ''stream index is already complete'')
      else and_then (create (si_codec index)) (\<lambda>decompressor.
        let cp = last_checkpoint index in
        case restore ops decompressor cp of
          (d, Inl e) \<Rightarrow> Inl e
        | (d, Inr _) \<Rightarrow>
            Inr (indexer_with_parts d index strat
              (if compressed_offset cp = 0 then IxNeedInput else IxSeek (compressed_offset cp))
              (compressed_offset cp) (uncompressed_offset cp))))"

definition indexer_emit_output :: "('d, 's) stream_indexer \<Rightarrow> bool \<Rightarrow> ('d, 's) stream_indexer" where
  "indexer_emit_output r e = r\<lparr>ix_emit_output := e\<rparr>"

definition indexer_stop_at :: "('d, 's) stream_indexer \<Rightarrow> nat \<Rightarrow> ('d, 's) stream_indexer" where
  "indexer_stop_at r off = r\<lparr>ix_stop_at := Some off\<rparr>"

definition indexer_set_unpacked_len :: "('d, 's) stream_indexer \<Rightarrow> nat \<Rightarrow> ('d, 's) stream_indexer" where
  "indexer_set_unpacked_len r len = r\<lparr>ix_index := (ix_index r)\<lparr>si_unpacked_len := Some len\<rparr>\<rparr>"

section \<open>Checkpoints\<close>

definition indexer_context :: "('d, 's) stream_indexer \<Rightarrow> checkpoint_context" where
  "indexer_context r =
     \<lparr>cx_uncompressed_pos = ix_unpacked_pos r, cx_compressed_pos = ix_compressed_pos r,
      cx_last_checkpoint_uncompressed_pos = ix_last_checkpoint_pos r,
      cx_checkpoint_count = length (si_checkpoints (ix_index r)),
      cx_total_checkpoint_data_bytes = ix_checkpoint_data_bytes r,
      cx_archive_size = (case si_compressed_len (ix_index r) of None \<Rightarrow> 0 | Some n \<Rightarrow> n)\<rparr>"

lemma thin_shrinks:
  assumes "thin idx = (idx', True)"
  shows "length (si_checkpoints idx') < length (si_checkpoints idx)"
proof -
  have "length (si_checkpoints idx) \<noteq> 0" "length (si_checkpoints idx) \<noteq> 1"
    using assms by (auto simp: thin_def Let_def split: if_splits)
  then have "length (si_checkpoints idx) = 2 \<or> 3 \<le> length (si_checkpoints idx)" by linarith
  then show ?thesis using assms retained_props(1) [of "si_checkpoints idx"]
    by (auto simp: thin_def Let_def split: if_splits)
qed

text \<open>The thinning loop of \<^verbatim>\<open>try_checkpoint\<close>.\<close>

function thin_loop :: "'s strategy \<Rightarrow> ('d, 's) stream_indexer \<Rightarrow> ('d, 's) stream_indexer" where
  "thin_loop S r =
     (case should_thin S (ix_strategy r) (indexer_context r) of
        (s, False) \<Rightarrow> r\<lparr>ix_strategy := s\<rparr>
      | (s, True) \<Rightarrow>
          (case thin (ix_index r) of
             (index, False) \<Rightarrow> r\<lparr>ix_strategy := s, ix_index := index\<rparr>
           | (index, True) \<Rightarrow>
               thin_loop S (r\<lparr>ix_strategy := s, ix_index := index,
                 ix_checkpoint_data_bytes := checkpoint_data_bytes index,
                 ix_last_checkpoint_pos := uncompressed_offset (last_checkpoint index)\<rparr>)))"
  by pat_completeness auto

termination
  by (relation "measure (\<lambda>(S, r). length (si_checkpoints (ix_index r)))") (auto dest!: thin_shrinks sym [of "(_, True)"])

declare thin_loop.simps [simp del]

definition try_checkpoint ::
  "'d decompressor \<Rightarrow> 's strategy \<Rightarrow> ('d, 's) stream_indexer \<Rightarrow> bool \<Rightarrow> ('d, 's) stream_indexer \<times> unit result" where
  "try_checkpoint ops S r notify =
     (if ix_unpacked_pos r = ix_last_checkpoint_pos r \<and>
         uncompressed_offset (last_checkpoint (ix_index r)) = ix_unpacked_pos r
      then (r, Inr ())
      else case take_checkpoint ops (ix_decompressor r) (ix_compressed_pos r) (ix_unpacked_pos r) of
        Inl e \<Rightarrow> (r, Inl e)
      | Inr None \<Rightarrow> (r, Inr ())
      | Inr (Some cp) \<Rightarrow>
          let n = estimated_size cp;
              r = r\<lparr>ix_checkpoint_data_bytes := ix_checkpoint_data_bytes r + n,
                    ix_index := (ix_index r)\<lparr>si_checkpoints := si_checkpoints (ix_index r) @ [cp]\<rparr>,
                    ix_last_checkpoint_pos := ix_unpacked_pos r\<rparr>;
              r = (if notify
                   then r\<lparr>ix_strategy := on_checkpoint_created S (ix_strategy r) (indexer_context r) n\<rparr> else r)
          in (thin_loop S r, Inr ()))"

section \<open>Stepping\<close>

type_synonym ('d, 's) indexer_step = "('d, 's) stream_indexer \<times> engine_request option"

definition pending_output :: "('d, 's) stream_indexer \<Rightarrow> bool" where
  "pending_output r \<longleftrightarrow> ix_out_read r < ix_out_len r"

text \<open>The end of \<^verbatim>\<open>step_once\<close>, after a decoder step and its checkpoint.\<close>

definition indexer_conclude ::
  "'d decompressor \<Rightarrow> 's strategy \<Rightarrow> ('d, 's) stream_indexer \<Rightarrow> decompress_result \<Rightarrow> bool \<Rightarrow> ('d, 's) indexer_step" where
  "indexer_conclude ops S r result had_input =
     (let stopped = (case ix_stop_at r of None \<Rightarrow> False | Some stop \<Rightarrow> ix_unpacked_pos r \<ge> stop);
          idle_at_eof = (\<not> had_input \<and> bytes_consumed result = 0 \<and> bytes_produced result = 0)
      in if idle_at_eof \<and> status result \<noteq> StreamEnd \<and> ix_compressed_pos r > 0
         then (r, Some (RequestError TruncatedInput))
         else
           let ended = (status result = StreamEnd \<or> idle_at_eof) in
           if ended \<or> stopped then
             (case (if ended
                    then (r\<lparr>ix_index := (ix_index r)\<lparr>si_complete := True, si_unpacked_len := Some (ix_unpacked_pos r)\<rparr>\<rparr>,
                          Inr ())
                    else try_checkpoint ops S r False) of
                (r, Inl e) \<Rightarrow> (r, Some (RequestError e))
              | (r, Inr _) \<Rightarrow>
                  (r\<lparr>ix_state := IxDone\<rparr>, Some (if pending_output r then OutputReady else RequestDone)))
           else if pending_output r then (r, Some OutputReady)
           else if ix_input_pos r \<ge> length (ix_input_buf r) then
             (if ix_eof r then (r, Some NeedInput) else (r\<lparr>ix_state := IxNeedInput\<rparr>, Some NeedInput))
           else if bytes_consumed result = 0 \<and> bytes_produced result = 0
           then (r, Some (RequestError (DecompressionError
                  ''decompressor made no progress with input remaining'')))
           else (r, None))"

text \<open>The middle of \<^verbatim>\<open>step_once\<close>: a decoder step, its checkpoint and its output.\<close>

definition indexer_decode ::
  "'d decompressor \<Rightarrow> 's strategy \<Rightarrow> ('d, 's) stream_indexer \<Rightarrow> bytes \<Rightarrow> ('d, 's) indexer_step" where
  "indexer_decode ops S r input =
     (case decompress ops (ix_decompressor r) input (length (ix_out_buf r)) of
        (d, Inl e) \<Rightarrow> (r\<lparr>ix_decompressor := d\<rparr>, Some (RequestError e))
      | (d, Inr result) \<Rightarrow>
          let n = bytes_produced result;
              before = ix_unpacked_pos r;
              r = r\<lparr>ix_decompressor := d, ix_out_buf := copy_into (ix_out_buf r) 0 (produced result),
                    ix_input_pos := ix_input_pos r + bytes_consumed result,
                    ix_compressed_pos := ix_compressed_pos r + bytes_consumed result,
                    ix_unpacked_pos := ix_unpacked_pos r + n\<rparr>;
              is_fresh = (ix_unpacked_pos r > si_indexed_to (ix_index r))
          in case (if n > 0 \<and> is_fresh then
                     (case should_checkpoint S (ix_strategy r) (indexer_context r) of
                        (s, lay) \<Rightarrow>
                          (case (if lay then try_checkpoint ops S (r\<lparr>ix_strategy := s\<rparr>) True
                                 else (r\<lparr>ix_strategy := s\<rparr>, Inr ())) of
                             (r, Inl e) \<Rightarrow> (r, Inl e)
                           | (r, Inr _) \<Rightarrow>
                               (if ix_emit_output r
                                then r\<lparr>ix_out_len := n, ix_out_read := si_indexed_to (ix_index r) - before\<rparr>
                                else r, Inr ())))
                   else (r, Inr ())) of
               (r, Inl e) \<Rightarrow> (r, Some (RequestError e))
             | (r, Inr _) \<Rightarrow>
                 indexer_conclude ops S
                   (if is_fresh then r\<lparr>ix_index := (ix_index r)\<lparr>si_indexed_to := ix_unpacked_pos r\<rparr>\<rparr> else r)
                   result (input \<noteq> []))"

definition indexer_process ::
  "'d decompressor \<Rightarrow> 's strategy \<Rightarrow> ('d, 's) stream_indexer \<Rightarrow> ('d, 's) indexer_step" where
  "indexer_process ops S r =
     (if pending_output r then (r, Some OutputReady)
      else if ix_input_pos r < length (ix_input_buf r)
      then indexer_decode ops S r (drop (ix_input_pos r) (ix_input_buf r))
      else if ix_eof r then indexer_decode ops S r []
      else (r\<lparr>ix_state := IxNeedInput\<rparr>, Some NeedInput))"

definition indexer_step_once ::
  "'d decompressor \<Rightarrow> 's strategy \<Rightarrow> ('d, 's) stream_indexer \<Rightarrow> ('d, 's) indexer_step" where
  "indexer_step_once ops S r =
     (case ix_state r of
        IxDone \<Rightarrow> (r, Some RequestDone)
      | IxSeek offset \<Rightarrow> (r\<lparr>ix_state := IxNeedInput\<rparr>, Some (SeekAndRead offset BUF_SIZE))
      | IxNeedInput \<Rightarrow>
          if \<not> ix_eof r then (r, Some NeedInput)
          else indexer_process ops S (r\<lparr>ix_state := IxProcessing\<rparr>)
      | IxProcessing \<Rightarrow> indexer_process ops S r)"

partial_function (option) indexer_step ::
  "'d decompressor \<Rightarrow> 's strategy \<Rightarrow> ('d, 's) stream_indexer \<Rightarrow> (('d, 's) stream_indexer \<times> engine_request) option" where
  "indexer_step ops S r =
     (case indexer_step_once ops S r of
        (r', Some q) \<Rightarrow> Some (r', q)
      | (r', None) \<Rightarrow> indexer_step ops S r')"

definition indexer_provide_data :: "('d, 's) stream_indexer \<Rightarrow> bytes \<Rightarrow> ('d, 's) stream_indexer" where
  "indexer_provide_data r data = r\<lparr>ix_input_buf := data, ix_input_pos := 0, ix_state := IxProcessing\<rparr>"

definition indexer_signal_eof :: "('d, 's) stream_indexer \<Rightarrow> ('d, 's) stream_indexer" where
  "indexer_signal_eof r = r\<lparr>ix_eof := True, ix_state := IxProcessing\<rparr>"

definition indexer_read_output :: "('d, 's) stream_indexer \<Rightarrow> nat \<Rightarrow> ('d, 's) stream_indexer \<times> bytes" where
  "indexer_read_output r cap =
     (let available = ix_out_len r - ix_out_read r in
      if available = 0 then (r, [])
      else
        let n = min available cap;
            out = subslice (ix_out_read r) (ix_out_read r + n) (ix_out_buf r);
            r = r\<lparr>ix_out_read := ix_out_read r + n\<rparr>;
            r = (if ix_out_read r \<ge> ix_out_len r then r\<lparr>ix_out_len := 0, ix_out_read := 0\<rparr> else r)
        in (r, out))"

text \<open>\<^verbatim>\<open>StreamProgress\<close>.\<close>

record stream_progress =
  sp_compressed_pos :: nat
  sp_compressed_len :: "nat option"
  sp_unpacked_pos :: nat
  sp_unpacked_len :: "nat option"
  sp_checkpoints :: nat
  sp_checkpoint_data_bytes :: nat
  sp_done :: bool

definition indexer_progress :: "('d, 's) stream_indexer \<Rightarrow> stream_progress" where
  "indexer_progress r =
     \<lparr>sp_compressed_pos = ix_compressed_pos r, sp_compressed_len = si_compressed_len (ix_index r),
      sp_unpacked_pos = ix_unpacked_pos r, sp_unpacked_len = si_unpacked_len (ix_index r),
      sp_checkpoints = length (si_checkpoints (ix_index r)),
      sp_checkpoint_data_bytes = ix_checkpoint_data_bytes r, sp_done = (ix_state r = IxDone)\<rparr>"

definition indexer_snapshot :: "('d, 's) stream_indexer \<Rightarrow> stream_index" where
  "indexer_snapshot r = ix_index r"

definition indexer_finish :: "('d, 's) stream_indexer \<Rightarrow> stream_index" where
  "indexer_finish r = ix_index r"

end
