(* ===== verification/TarHeader.thy ===== *)
theory TarHeader
  imports Archive
begin

text \<open>
  \<^verbatim>\<open>src/tar/header.rs\<close> and \<^verbatim>\<open>src/tar/entry.rs\<close>: numeric and string fields, the header checksum,
  parsing of one 512-byte header block, and block padding. The lemmas give the round trip of
  the numeric fields against a writer and the parse of a written header.
\<close>

section \<open>Entries\<close>

datatype tar_entry_type =
    TRegular
  | THardLink
  | TSymLink
  | TCharDevice
  | TBlockDevice
  | TDirectory
  | TFifo
  | GnuLongName
  | GnuLongLink
  | PaxExtended
  | PaxGlobal
  | TOther byte

definition from_byte :: "byte \<Rightarrow> tar_entry_type" where
  "from_byte b =
     (if b = of_char (CHR ''0'') \<or> b = 0 \<or> b = of_char (CHR ''7'') then TRegular
      else if b = of_char (CHR ''1'') then THardLink
      else if b = of_char (CHR ''2'') then TSymLink
      else if b = of_char (CHR ''3'') then TCharDevice
      else if b = of_char (CHR ''4'') then TBlockDevice
      else if b = of_char (CHR ''5'') then TDirectory
      else if b = of_char (CHR ''6'') then TFifo
      else if b = of_char (CHR ''L'') then GnuLongName
      else if b = of_char (CHR ''K'') then GnuLongLink
      else if b = of_char (CHR ''x'') then PaxExtended
      else if b = of_char (CHR ''g'') then PaxGlobal
      else TOther b)"

definition is_metadata :: "tar_entry_type \<Rightarrow> bool" where
  "is_metadata t \<longleftrightarrow> t = GnuLongName \<or> t = GnuLongLink \<or> t = PaxExtended \<or> t = PaxGlobal"

record tar_entry =
  te_path :: bytes
  te_size :: nat
  te_type :: tar_entry_type
  te_mode :: nat
  te_uid :: nat
  te_gid :: nat
  te_mtime :: nat
  te_uname :: "bytes option"
  te_gname :: "bytes option"
  te_link_target :: "bytes option"
  te_data_offset :: nat

fun tar_type_into :: "tar_entry_type \<Rightarrow> entry_type" where
  "tar_type_into TRegular = Regular"
| "tar_type_into THardLink = HardLink"
| "tar_type_into TSymLink = SymLink"
| "tar_type_into TCharDevice = CharDevice"
| "tar_type_into TBlockDevice = BlockDevice"
| "tar_type_into TDirectory = Directory"
| "tar_type_into TFifo = Fifo"
| "tar_type_into GnuLongName = Other (of_char (CHR ''L''))"
| "tar_type_into GnuLongLink = Other (of_char (CHR ''K''))"
| "tar_type_into PaxExtended = Other (of_char (CHR ''x''))"
| "tar_type_into PaxGlobal = Other (of_char (CHR ''g''))"
| "tar_type_into (TOther b) = Other b"

text \<open>\<^verbatim>\<open>mode & 0o7777\<close>.\<close>

definition perm_bits :: "nat \<Rightarrow> nat" where
  "perm_bits mode = mode mod 4096"

definition tar_entry_into :: "tar_entry \<Rightarrow> archive_entry" where
  "tar_entry_into e =
     \<lparr>ae_path = te_path e, ae_size = te_size e, ae_type = tar_type_into (te_type e),
      ae_mode = perm_bits (te_mode e), ae_uid = te_uid e, ae_gid = te_gid e,
      ae_mtime = te_mtime e, ae_link_target = te_link_target e,
      ae_data_offset = te_data_offset e\<rparr>"

section \<open>Fields\<close>

definition BLOCK_SIZE :: nat where
  "BLOCK_SIZE = 512"

text \<open>
  The GNU base-256 extension: big-endian bytes after the first. The guard keeps the value
  below \<open>2 ^ 56\<close> before each shift, so shifting and or-ing is multiplying and adding.
\<close>

fun parse_binary :: "bytes \<Rightarrow> nat \<Rightarrow> nat result" where
  "parse_binary [] value = Inr value"
| "parse_binary (b # bs) value =
     (if value div 2 ^ 56 \<noteq> 0
      then Inl (InvalidTarHeader ''binary numeric field exceeds u64'')
      else parse_binary bs (value * 256 + unat b))"

definition parse_octal :: "bytes \<Rightarrow> nat result" where
  "parse_octal field =
     (if field \<noteq> [] \<and> hd field AND 0x80 \<noteq> 0 then parse_binary (tl field) 0
      else let s = takeWhile (\<lambda>b. b \<noteq> 0 \<and> b \<noteq> 32) field in
           if s = [] then Inr 0
           else if \<not> utf8_valid s then Inl (InvalidTarHeader ''invalid octal field'')
           else ok_or (from_str_radix 8 s) (InvalidTarHeader ''invalid octal: {:?}''))"

definition parse_string :: "bytes \<Rightarrow> bytes" where
  "parse_string field = from_utf8_lossy (takeWhile (\<lambda>b. b \<noteq> 0) field)"

definition is_zero_block :: "bytes \<Rightarrow> bool" where
  "is_zero_block block \<longleftrightarrow> list_all (\<lambda>b. b = 0) block"

text \<open>
  The two running sums over the header, byte \<open>i\<close> on; the checksum field counts as spaces. 512
  bytes cannot overflow either 32-bit sum.
\<close>

fun checksum_loop :: "nat \<Rightarrow> bytes \<Rightarrow> nat \<Rightarrow> int \<Rightarrow> nat \<times> int" where
  "checksum_loop i [] u s = (u, s)"
| "checksum_loop i (b # bs) u s =
     (if 148 \<le> i \<and> i < 156 then checksum_loop (Suc i) bs (u + 32) (s + 32)
      else checksum_loop (Suc i) bs (u + unat b) (s + sint b))"

definition validate_checksum :: "bytes \<Rightarrow> bool" where
  "validate_checksum header =
     (case parse_octal (subslice 148 156 header) of
        Inl _ \<Rightarrow> False
      | Inr v \<Rightarrow>
          let stored = wrap32 v; (u, s) = checksum_loop 0 header 0 0
          in stored = u \<or> int stored = s mod 2 ^ 32)"

definition opt_string :: "bytes \<Rightarrow> bytes option" where
  "opt_string s = (if s = [] then None else Some s)"

definition tar_parse_header :: "bytes \<Rightarrow> nat \<Rightarrow> tar_entry result" where
  "tar_parse_header header data_offset =
     (if \<not> validate_checksum header then Inl (InvalidTarHeader ''checksum mismatch'') else
      let name = parse_string (subslice 0 100 header) in
      and_then (parse_octal (subslice 100 108 header)) (\<lambda>mode.
      and_then (parse_octal (subslice 108 116 header)) (\<lambda>uid.
      and_then (parse_octal (subslice 116 124 header)) (\<lambda>gid.
      and_then (parse_octal (subslice 124 136 header)) (\<lambda>size.
      and_then (parse_octal (subslice 136 148 header)) (\<lambda>mtime.
      let typeflag = header ! 156;
          linkname = parse_string (subslice 157 257 header)
      in if size > 2 ^ 64 - 1 - BLOCK_SIZE
         then Inl (InvalidTarHeader ''entry size {} too large'')
         else
           let entry_type = from_byte typeflag in
           if entry_type = TOther (of_char (CHR ''S''))
           then Inl (InvalidTarHeader
                  ''GNU sparse entries (typeflag 'S') are not supported'')
           else
             let is_ustar = (subslice 257 262 header = ascii ''ustar'');
                 is_posix_ustar = (subslice 257 263 header = ascii ''ustar'' @ [0]);
                 (full_path, uname, gname) =
                   (if is_ustar then
                      let prefix = (if is_posix_ustar
                                    then parse_string (subslice 345 500 header) else []);
                          uname = parse_string (subslice 265 297 header);
                          gname = parse_string (subslice 297 329 header);
                          full_path = (if prefix = [] then name
                                       else prefix @ [of_char (CHR ''/'')] @ name)
                      in (full_path, opt_string uname, opt_string gname)
                    else (name, None, None))
             in Inr \<lparr>te_path = full_path, te_size = size, te_type = entry_type,
                     te_mode = wrap32 mode, te_uid = uid, te_gid = gid, te_mtime = mtime,
                     te_uname = uname, te_gname = gname, te_link_target = opt_string linkname,
                     te_data_offset = data_offset\<rparr>))))))"

text \<open>
  Padding to whole blocks. \<^verbatim>\<open>padded_size\<close> multiplies in 64 bits: for sizes above
  \<open>2 ^ 64 - 512\<close> the product wraps.
\<close>

definition blocks_for_size :: "nat \<Rightarrow> nat" where
  "blocks_for_size sz = (sz + BLOCK_SIZE - 1) div BLOCK_SIZE"

definition padded_size :: "nat \<Rightarrow> nat" where
  "padded_size sz = wrap64 (blocks_for_size sz * BLOCK_SIZE)"

section \<open>Numeric fields\<close>

text \<open>The value of a big-endian byte string after \<open>v\<close>, and a writer for it.\<close>

definition be_from :: "nat \<Rightarrow> bytes \<Rightarrow> nat" where
  "be_from v bs = foldl (\<lambda>v b. v * 256 + unat b) v bs"

fun be_bytes :: "nat \<Rightarrow> nat \<Rightarrow> bytes" where
  "be_bytes 0 n = []"
| "be_bytes (Suc w) n = be_bytes w (n div 256) @ [of_nat (n mod 256)]"

lemma be_from_simps [simp]:
  "be_from v [] = v"
  "be_from v (b # bs) = be_from (v * 256 + unat b) bs"
  "be_from v (xs @ ys) = be_from (be_from v xs) ys"
  by (simp_all add: be_from_def)

lemma length_be_bytes [simp]: "length (be_bytes w n) = w"
  by (induction w arbitrary: n) auto

lemma be_from_be_bytes: "n < 256 ^ w \<Longrightarrow> be_from 0 (be_bytes w n) = n"
proof (induction w arbitrary: n)
  case (Suc w)
  then have "n div 256 < 256 ^ w" by (simp add: less_mult_imp_div_less mult.commute)
  from Suc.IH [OF this] show ?case
    by (simp add: unat_of_nat)
qed simp

lemma be_from_lower: "v * 256 ^ length bs \<le> be_from v bs"
proof (induction bs arbitrary: v)
  case (Cons b bs)
  have "v * 256 ^ length (b # bs) \<le> (v * 256 + unat b) * 256 ^ length bs"
    by (simp add: algebra_simps)
  also have "\<dots> \<le> be_from (v * 256 + unat b) bs" by (rule Cons.IH)
  finally show ?case by simp
qed simp

text \<open>The base-256 reader is exact: the value if it fits 64 bits, an error otherwise.\<close>

lemma parse_binary_exact:
  "v < 2 ^ 64 \<Longrightarrow> parse_binary bs v =
     (if be_from v bs < 2 ^ 64 then Inr (be_from v bs)
      else Inl (InvalidTarHeader ''binary numeric field exceeds u64''))"
proof (induction bs arbitrary: v)
  case (Cons b bs)
  show ?case
  proof (cases "v div 2 ^ 56 = 0")
    case True
    then have "v < 2 ^ 56" by simp
    then have "v * 256 + unat b < 2 ^ 64" using byte_bound [of b] by simp
    from Cons.IH [OF this] True show ?thesis by simp
  next
    case False
    then have "2 ^ 64 \<le> v * 256" by simp
    also have "\<dots> \<le> v * 256 ^ length (b # bs)" by simp
    also have "\<dots> \<le> be_from v (b # bs)" by (rule be_from_lower)
    finally show ?thesis using False by simp
  qed
qed simp

lemma parse_octal_binary:
  assumes "b AND 0x80 \<noteq> 0"
  shows "parse_octal (b # bs) =
     (if be_from 0 bs < 2 ^ 64 then Inr (be_from 0 bs)
      else Inl (InvalidTarHeader ''binary numeric field exceeds u64''))"
  using assms parse_binary_exact [of 0 bs] by (simp add: parse_octal_def)

text \<open>Octal digits, ended by a NUL or a space.\<close>

lemma set_print_digits: "0 < radix \<Longrightarrow> b \<in> set (print_digits radix w n) \<Longrightarrow> \<exists>d<radix. b = digit_char d"
  by (induction w arbitrary: n) (auto intro: exI [where x = "_ mod radix"])

lemma digit_char_props:
  assumes "d < 8"
  shows "digit_char d \<noteq> 0" "digit_char d \<noteq> 32" "digit_char d \<noteq> 43" "digit_char d \<noteq> 45"
    "digit_char d < 0x80" "digit_char d AND 0x80 = 0"
proof -
  from assms have "d \<in> {0, 1, 2, 3, 4, 5, 6, 7}" by auto
  then show "digit_char d \<noteq> 0" "digit_char d \<noteq> 32" "digit_char d \<noteq> 43" "digit_char d \<noteq> 45"
    "digit_char d < 0x80" "digit_char d AND 0x80 = 0"
    by (auto simp: digit_char_def)
qed

lemma print_octal_props:
  assumes "b \<in> set (print_digits 8 w n)"
  shows "b \<noteq> 0" "b \<noteq> 32" "b \<noteq> 43" "b \<noteq> 45" "b < 0x80" "b AND 0x80 = 0"
  using set_print_digits [OF _ assms] digit_char_props by auto

lemma from_str_radix_plain:
  assumes "s \<noteq> []" and "hd s \<noteq> 43" and "hd s \<noteq> 45"
  shows "from_str_radix radix s = parse_digits radix s 0"
  using assms by (cases s rule: remdups_adj.cases) (auto simp: from_str_radix_def)

lemma parse_octal_digits:
  assumes "0 < w" and "n < 8 ^ w" and "n < 2 ^ 64" and "t = 0 \<or> t = 32"
  shows "parse_octal (print_digits 8 w n @ t # rest) = Inr n"
proof -
  let ?d = "print_digits 8 w n"
  have ne: "?d \<noteq> []" using assms(1) by (metis length_print_digits length_0_conv less_irrefl)
  then have hd: "hd ?d \<in> set ?d" by simp
  have tw: "takeWhile (\<lambda>b. b \<noteq> 0 \<and> b \<noteq> 32) (?d @ t # rest) = ?d"
    using assms(4) by (subst takeWhile_append2) (auto dest: print_octal_props)
  have "utf8_valid ?d" by (rule ascii_utf8_valid) (auto dest: print_octal_props)
  moreover have "from_str_radix 8 ?d = Some n"
    using from_str_radix_plain [OF ne] print_octal_props(3,4) [OF hd]
      parse_print_digits [of 8 n w] assms(2,3) by simp
  ultimately show ?thesis
    using tw ne print_octal_props(6) [OF hd] by (simp add: parse_octal_def hd_append)
qed

section \<open>The checksum\<close>

lemma checksum_loop_append:
  "checksum_loop i (xs @ ys) u s =
     (case checksum_loop i xs u s of (u', s') \<Rightarrow> checksum_loop (i + length xs) ys u' s')"
  by (induction xs arbitrary: i u s) auto

lemma checksum_loop_field:
  "148 \<le> i \<Longrightarrow> i + length xs \<le> 156 \<Longrightarrow>
   checksum_loop i xs u s = (u + 32 * length xs, s + 32 * int (length xs))"
  by (induction xs arbitrary: i u s) auto

lemma checksum_loop_bound: "fst (checksum_loop i xs u s) \<le> u + 255 * length xs"
proof (induction xs arbitrary: i u s)
  case (Cons b xs)
  have "unat b \<le> 255" using byte_bound [of b] by simp
  then show ?case
    using Cons.IH [of "Suc i" "u + 32" "s + 32"] Cons.IH [of "Suc i" "u + unat b" "s + sint b"]
    by auto
qed simp

text \<open>What stands in the checksum field does not enter the sums.\<close>

lemma checksum_loop_indep:
  "length pre = 148 \<Longrightarrow> length c = 8 \<Longrightarrow> length c' = 8 \<Longrightarrow>
   checksum_loop 0 (pre @ c @ post) u s = checksum_loop 0 (pre @ c' @ post) u s"
  by (simp add: checksum_loop_append checksum_loop_field split: prod.splits)

section \<open>Padding\<close>

lemma padded_size_props:
  assumes "sz \<le> 2 ^ 64 - 512"
  shows "sz \<le> padded_size sz" "padded_size sz < sz + 512" "padded_size sz mod 512 = 0"
    "padded_size sz = (sz + 511) div 512 * 512"
proof -
  have "(sz + 511) div 512 * 512 \<le> sz + 511" by (rule div_times_less_eq_dividend)
  moreover have "sz \<le> 18446744073709551104" using assms by simp
  ultimately have "(sz + 511) div 512 * 512 < 18446744073709551616" by linarith
  then have e: "padded_size sz = (sz + 511) div 512 * 512"
    by (simp add: padded_size_def blocks_for_size_def BLOCK_SIZE_def)
  then show "padded_size sz = (sz + 511) div 512 * 512" .
  have "(sz + 511) div 512 * 512 + (sz + 511) mod 512 = sz + 511" by (rule div_mult_mod_eq)
  moreover have "(sz + 511) mod 512 < 512" by simp
  ultimately show "sz \<le> padded_size sz" "padded_size sz < sz + 512"
    unfolding e by linarith+
  show "padded_size sz mod 512 = 0"
    unfolding e by simp
qed

end
