(* ===== verification/TarParser.thy ===== *)
theory TarParser
  imports TarHeader
begin

text \<open>
  \<^verbatim>\<open>src/tar/parser.rs\<close>: the incremental tar parser as a state machine over chunks. Its state
  record has the fields of \<^verbatim>\<open>TarParser\<close>; \<open>feed_tar\<close> dispatches on the state as the source does.
  The interpretation of the parser interface at the end gives independence of chunking.
\<close>

section \<open>State\<close>

definition MAX_METADATA_SIZE :: nat where
  "MAX_METADATA_SIZE = 2 ^ 20"

datatype tar_state =
    TReadingHeader
  | TSkippingData (skip_remaining: nat)
  | TReadingPaxData (pax_remaining: nat) (pax_logical: nat) (pax_buf: bytes)
  | TReadingGnuLong (long_remaining: nat) (long_logical: nat) (long_buf: bytes) (is_link: bool)
  | TOneZeroBlock
  | TEnd

record tar_parser =
  tp_state :: tar_state
  tp_header_buf :: bytes
  tp_header_pos :: nat
  tp_stream_pos :: nat
  tp_pax_path :: "bytes option"
  tp_pax_linkpath :: "bytes option"
  tp_pax_size :: "nat option"
  tp_gnu_long_name :: "bytes option"
  tp_gnu_long_link :: "bytes option"

definition tar_new :: tar_parser where
  "tar_new =
     \<lparr>tp_state = TReadingHeader, tp_header_buf = replicate BLOCK_SIZE 0, tp_header_pos = 0,
      tp_stream_pos = 0, tp_pax_path = None, tp_pax_linkpath = None, tp_pax_size = None,
      tp_gnu_long_name = None, tp_gnu_long_link = None\<rparr>"

type_synonym tar_step = "tar_parser \<times> (nat \<times> tar_entry event) result"

section \<open>PAX records\<close>

text \<open>\<^verbatim>\<open>iter().position(|&b| b == c)\<close>.\<close>

definition position :: "byte \<Rightarrow> bytes \<Rightarrow> nat option" where
  "position c s = (let n = length (takeWhile (\<lambda>b. b \<noteq> c) s) in if n < length s then Some n else None)"

text \<open>One record \<^verbatim>\<open>key=value\<close>, without its length and newline.\<close>

definition pax_record :: "tar_parser \<Rightarrow> bytes \<Rightarrow> tar_parser" where
  "pax_record p record =
     (case position (of_char (CHR ''='')) record of
        None \<Rightarrow> p
      | Some eq \<Rightarrow>
          let key = take eq record; value = from_utf8_lossy (drop (eq + 1) record) in
          if key = ascii ''path'' then p\<lparr>tp_pax_path := Some value\<rparr>
          else if key = ascii ''linkpath'' then p\<lparr>tp_pax_linkpath := Some value\<rparr>
          else if key = ascii ''size'' then
            (case from_str_radix 10 value of
               Some sz \<Rightarrow> p\<lparr>tp_pax_size := Some sz\<rparr>
             | None \<Rightarrow> p)
          else p)"

text \<open>
  \<^verbatim>\<open>parse_pax_data\<close>, on what is left of the data from \<^verbatim>\<open>pos\<close> on. A record's declared length counts
  from its length field to its newline; it must be longer than the length field. Its end is computed
  in 64 bits: where the sum wraps, a release build slices with an end before the start and panics (a
  debug build panics in the addition).
\<close>

definition pax_len :: "bytes \<Rightarrow> nat \<Rightarrow> nat option" where
  "pax_len data space =
     (let s = take space data in
      if \<not> utf8_valid s then None
      else case from_str_radix 10 s of
             None \<Rightarrow> None
           | Some l \<Rightarrow> if l > space then Some l else None)"

function parse_pax_from :: "tar_parser \<Rightarrow> nat \<Rightarrow> bytes \<Rightarrow> tar_parser \<times> unit result" where
  "parse_pax_from p pos data =
     (if data = [] then (p, Inr ())
      else case position 32 data of
             None \<Rightarrow> (p, Inr ())
           | Some space \<Rightarrow>
               (case pax_len data space of
                  None \<Rightarrow> (p, Inr ())
                | Some len \<Rightarrow>
                    let end = wrap64 (pos + len) in
                    if end > pos + length data then (p, Inr ())
                    else if end < pos + space + 1 then (p, Inl (Panicked ''slice index starts at {} but ends at {}''))
                    else parse_pax_from
                           (pax_record p (strip_one_end 10 (subslice (space + 1) (end - pos) data)))
                           end (drop (end - pos) data)))"
  by pat_completeness auto
termination
  by (relation "measure (\<lambda>(p, pos, data). length data)") auto

declare parse_pax_from.simps [simp del]

definition parse_pax_data :: "tar_parser \<Rightarrow> bytes \<Rightarrow> tar_parser \<times> unit result" where
  "parse_pax_data p data = parse_pax_from p 0 data"

section \<open>Feeding\<close>

text \<open>
  \<^verbatim>\<open>process_header\<close>: the complete, non-zero header block in the buffer. The pending attributes
  of extended headers are taken, in the source's order, by the next ordinary entry.
\<close>

definition apply_pending :: "tar_parser \<Rightarrow> tar_entry \<Rightarrow> tar_parser \<times> tar_entry" where
  "apply_pending p e =
     (let e = (case tp_pax_path p of Some path \<Rightarrow> e\<lparr>te_path := path\<rparr> | None \<Rightarrow> e);
          e = (case tp_pax_linkpath p of Some l \<Rightarrow> e\<lparr>te_link_target := Some l\<rparr> | None \<Rightarrow> e);
          e = (case tp_pax_size p of Some sz \<Rightarrow> e\<lparr>te_size := sz\<rparr> | None \<Rightarrow> e);
          e = (case tp_gnu_long_name p of Some name \<Rightarrow> e\<lparr>te_path := name\<rparr> | None \<Rightarrow> e);
          e = (case tp_gnu_long_link p of Some l \<Rightarrow> e\<lparr>te_link_target := Some l\<rparr> | None \<Rightarrow> e)
      in (p\<lparr>tp_pax_path := None, tp_pax_linkpath := None, tp_pax_size := None,
            tp_gnu_long_name := None, tp_gnu_long_link := None\<rparr>, e))"

definition process_header :: "tar_parser \<Rightarrow> nat \<Rightarrow> tar_step" where
  "process_header p available =
     (let data_offset = tp_stream_pos p in
      case tar_parse_header (tp_header_buf p) data_offset of
        Inl err \<Rightarrow> (p, Inl err)
      | Inr entry \<Rightarrow>
          if is_metadata (te_type entry) \<and> te_size entry > MAX_METADATA_SIZE
          then (p, Inl (InvalidTarHeader ''metadata entry ({:?}) declares implausible size {}''))
          else (case te_type entry of
              PaxExtended \<Rightarrow>
                (p\<lparr>tp_state := TReadingPaxData (padded_size (te_size entry)) (te_size entry) []\<rparr>,
                 Inr (available, NeedData))
            | PaxGlobal \<Rightarrow>
                (p\<lparr>tp_state := TSkippingData (padded_size (te_size entry))\<rparr>,
                 Inr (available, NeedData))
            | GnuLongName \<Rightarrow>
                (p\<lparr>tp_state := TReadingGnuLong (padded_size (te_size entry)) (te_size entry) [] False\<rparr>,
                 Inr (available, NeedData))
            | GnuLongLink \<Rightarrow>
                (p\<lparr>tp_state := TReadingGnuLong (padded_size (te_size entry)) (te_size entry) [] True\<rparr>,
                 Inr (available, NeedData))
            | _ \<Rightarrow>
                let (p, entry) = apply_pending p entry;
                    padded = padded_size (te_size entry);
                    p = (if padded > 0 then p\<lparr>tp_state := TSkippingData padded\<rparr>
                         else p\<lparr>tp_state := TReadingHeader\<rparr>)
                in (p, Inr (available, Entry entry))))"

text \<open>Accumulate header bytes: the common first half of \<^verbatim>\<open>feed_header\<close> and \<^verbatim>\<open>feed_second_zero\<close>.\<close>

definition fill_header :: "tar_parser \<Rightarrow> bytes \<Rightarrow> tar_parser \<times> nat" where
  "fill_header p data =
     (let needed = BLOCK_SIZE - tp_header_pos p; available = min (length data) needed in
      (p\<lparr>tp_header_buf := copy_into (tp_header_buf p) (tp_header_pos p) (take available data),
         tp_header_pos := tp_header_pos p + available,
         tp_stream_pos := tp_stream_pos p + available\<rparr>, available))"

definition tar_feed_header :: "tar_parser \<Rightarrow> bytes \<Rightarrow> tar_step" where
  "tar_feed_header p data =
     (if data = [] then (p, Inr (0, NeedData))
      else let (p, available) = fill_header p data in
           if tp_header_pos p < BLOCK_SIZE then (p, Inr (available, NeedData))
           else let p = p\<lparr>tp_header_pos := 0\<rparr> in
                if is_zero_block (tp_header_buf p)
                then (p\<lparr>tp_state := TOneZeroBlock\<rparr>, Inr (available, NeedData))
                else process_header p available)"

definition feed_second_zero :: "tar_parser \<Rightarrow> bytes \<Rightarrow> tar_step" where
  "feed_second_zero p data =
     (if data = [] then (p, Inr (0, NeedData))
      else let (p, available) = fill_header p data in
           if tp_header_pos p < BLOCK_SIZE then (p, Inr (available, NeedData))
           else let p = p\<lparr>tp_header_pos := 0\<rparr> in
                if is_zero_block (tp_header_buf p)
                then (p\<lparr>tp_state := TEnd\<rparr>, Inr (available, EndOfArchive))
                else process_header p available)"

definition tar_feed_skip :: "tar_parser \<Rightarrow> nat \<Rightarrow> bytes \<Rightarrow> tar_step" where
  "tar_feed_skip p remaining data =
     (if data = [] then (p, Inr (0, NeedData))
      else let skip = min (length data) remaining; remaining = remaining - skip in
           (p\<lparr>tp_stream_pos := tp_stream_pos p + skip,
              tp_state := (if remaining = 0 then TReadingHeader else TSkippingData remaining)\<rparr>,
            Inr (skip, NeedData)))"

definition feed_pax :: "tar_parser \<Rightarrow> nat \<Rightarrow> nat \<Rightarrow> bytes \<Rightarrow> bytes \<Rightarrow> tar_step" where
  "feed_pax p remaining sz buf data =
     (if data = [] then (p, Inr (0, NeedData))
      else let tk = min (length data) remaining;
               useful = min tk (sz - length buf);
               buf = buf @ take useful data;
               remaining = remaining - tk;
               p = p\<lparr>tp_stream_pos := tp_stream_pos p + tk\<rparr>
           in if remaining = 0
              then (case parse_pax_data p buf of
                      (p, Inl panic) \<Rightarrow> (p\<lparr>tp_state := TReadingPaxData 0 sz []\<rparr>, Inl panic)
                    | (p, Inr _) \<Rightarrow> (p\<lparr>tp_state := TReadingHeader\<rparr>, Inr (tk, NeedData)))
              else (p\<lparr>tp_state := TReadingPaxData remaining sz buf\<rparr>, Inr (tk, NeedData)))"

definition feed_gnu_long :: "tar_parser \<Rightarrow> nat \<Rightarrow> nat \<Rightarrow> bytes \<Rightarrow> bool \<Rightarrow> bytes \<Rightarrow> tar_step" where
  "feed_gnu_long p remaining sz buf lnk data =
     (if data = [] then (p, Inr (0, NeedData))
      else let tk = min (length data) remaining;
               useful = min tk (sz - length buf);
               buf = buf @ take useful data;
               remaining = remaining - tk;
               p = p\<lparr>tp_stream_pos := tp_stream_pos p + tk\<rparr>
           in if remaining = 0
              then let name = trim_end 0 (from_utf8_lossy buf);
                       p = (if lnk then p\<lparr>tp_gnu_long_link := Some name\<rparr>
                            else p\<lparr>tp_gnu_long_name := Some name\<rparr>)
                   in (p\<lparr>tp_state := TReadingHeader\<rparr>, Inr (tk, NeedData))
              else (p\<lparr>tp_state := TReadingGnuLong remaining sz buf lnk\<rparr>, Inr (tk, NeedData)))"

definition feed_tar :: "tar_parser \<Rightarrow> bytes \<Rightarrow> tar_step" where
  "feed_tar p data =
     (case tp_state p of
        TReadingHeader \<Rightarrow> tar_feed_header p data
      | TSkippingData remaining \<Rightarrow> tar_feed_skip p remaining data
      | TReadingPaxData remaining sz buf \<Rightarrow> feed_pax p remaining sz buf data
      | TReadingGnuLong remaining sz buf lnk \<Rightarrow> feed_gnu_long p remaining sz buf lnk data
      | TOneZeroBlock \<Rightarrow> feed_second_zero p data
      | TEnd \<Rightarrow> (p, Inr (0, EndOfArchive)))"

text \<open>\<^verbatim>\<open>ArchiveParser::feed\<close> for tar.\<close>

definition tar_feed :: "tar_parser feeder" where
  "tar_feed p data =
     (case feed_tar p data of
        (p', r) \<Rightarrow> (p', map_sum id (\<lambda>(k, ev). (k, map_event tar_entry_into ev)) r))"

text \<open>\<^verbatim>\<open>ArchiveParser::end_of_stream\<close> for tar.\<close>

definition tar_end_of_stream :: "tar_parser \<Rightarrow> unit result" where
  "tar_end_of_stream p =
     (case tp_state p of
        TReadingHeader \<Rightarrow>
          if tp_header_pos p = 0 then
            (if tp_pax_path p \<noteq> None \<or> tp_pax_linkpath p \<noteq> None \<or> tp_pax_size p \<noteq> None
                \<or> tp_gnu_long_name p \<noteq> None \<or> tp_gnu_long_link p \<noteq> None
             then Inl (TruncatedArchive
                    ''stream ended after an extended header, before its entry'')
             else Inr ())
          else Inl (TruncatedArchive ''stream ended inside a header'')
      | TOneZeroBlock \<Rightarrow> Inr ()
      | TEnd \<Rightarrow> Inr ()
      | TSkippingData remaining \<Rightarrow>
          Inl (TruncatedArchive ''stream ended {} bytes before the end of a member'')
      | TReadingPaxData _ _ _ \<Rightarrow> Inl (TruncatedArchive ''stream ended inside an extended header'')
      | TReadingGnuLong _ _ _ _ \<Rightarrow> Inl (TruncatedArchive ''stream ended inside an extended header''))"

section \<open>Splitting a chunk\<close>

definition tar_inv :: "tar_parser \<Rightarrow> bool" where
  "tar_inv p \<longleftrightarrow> tp_header_pos p < BLOCK_SIZE \<and> length (tp_header_buf p) = BLOCK_SIZE"

lemma tar_inv_new: "tar_inv tar_new"
  by (simp add: tar_inv_def tar_new_def BLOCK_SIZE_def)

lemma fill_header_done:
  assumes "BLOCK_SIZE \<le> tp_header_pos p + length xs"
  shows "fill_header p (xs @ ys) = fill_header p xs"
proof -
  have "min (length (xs @ zs)) (BLOCK_SIZE - tp_header_pos p) = BLOCK_SIZE - tp_header_pos p"
    for zs using assms by simp
  from this [of ys] this [of "[]"] assms show ?thesis
    by (simp add: fill_header_def Let_def)
qed

lemma fill_header_facts:
  assumes "tar_inv p" and "fill_header p xs = (p1, k)"
  shows "k \<le> length xs" "tp_stream_pos p1 = tp_stream_pos p + k" "tp_state p1 = tp_state p"
    "length (tp_header_buf p1) = BLOCK_SIZE" "tp_header_pos p1 = tp_header_pos p + k"
    "xs \<noteq> [] \<Longrightarrow> 0 < k"
  using assms by (auto simp: fill_header_def Let_def tar_inv_def)

lemma fill_header_part:
  assumes "tar_inv p" and "tp_header_pos p + length xs < BLOCK_SIZE"
    and "fill_header p xs = (p1, k)"
  shows "k = length xs" "tar_inv p1"
    "fill_header p (xs @ ys) = (case fill_header p1 ys of (p2, k2) \<Rightarrow> (p2, length xs + k2))"
proof -
  have eqs: "min (length xs) (BLOCK_SIZE - tp_header_pos p) = length xs"
    using assms(2) by simp
  from assms show "k = length xs" "tar_inv p1"
    by (auto simp: fill_header_def Let_def tar_inv_def)
  let ?m = "min (length ys) (BLOCK_SIZE - (tp_header_pos p + length xs))"
  have m: "min (length xs + length ys) (BLOCK_SIZE - tp_header_pos p) = length xs + ?m"
    using assms(2) by simp
  have "tp_header_pos p + length xs + length (take ?m ys) \<le> length (tp_header_buf p)"
    using assms(1,2) by (simp add: tar_inv_def)
  from copy_into_append [OF this] assms(2,3) m
  show "fill_header p (xs @ ys) = (case fill_header p1 ys of (p2, k2) \<Rightarrow> (p2, length xs + k2))"
    by (auto simp: fill_header_def Let_def)
qed

lemma process_header_shift: "process_header p (n + k) = shift_feed n (process_header p k)"
  by (simp add: process_header_def Let_def split: sum.split tar_entry_type.split prod.split)

lemma process_header_facts:
  assumes "process_header p k = (p', Inr (k', ev))"
  shows "k' = k" "tp_stream_pos p' = tp_stream_pos p" "tp_header_pos p' = tp_header_pos p"
    "tp_header_buf p' = tp_header_buf p" "ev \<noteq> EndOfArchive"
  using assms
  by (auto simp: process_header_def apply_pending_def Let_def
      split: sum.splits if_splits tar_entry_type.splits)

text \<open>Both header-reading states have the same shape.\<close>

definition header_step :: "(tar_parser \<Rightarrow> nat \<Rightarrow> tar_step) \<Rightarrow> tar_parser \<Rightarrow> bytes \<Rightarrow> tar_step" where
  "header_step k p data =
     (let (p, available) = fill_header p data in
      if tp_header_pos p < BLOCK_SIZE then (p, Inr (available, NeedData))
      else k (p\<lparr>tp_header_pos := 0\<rparr>) available)"

lemma header_step_split:
  assumes "tar_inv p" and "xs \<noteq> []" and "ys \<noteq> []"
    and shift: "\<And>p n k. f p (n + k) = shift_feed n (f p k)"
    and bound: "\<And>p k p' k' ev. f p k = (p', Inr (k', ev)) \<Longrightarrow> k' = k"
  shows "header_step f p (xs @ ys) = header_step f p xs \<or>
    (\<exists>p1. header_step f p xs = (p1, Inr (length xs, NeedData)) \<and> tp_state p1 = tp_state p \<and>
       header_step f p (xs @ ys) = shift_feed (length xs) (header_step f p1 ys) \<and>
       \<not> stalls (header_step f p1 ys))"
proof (cases "BLOCK_SIZE \<le> tp_header_pos p + length xs")
  case True
  then show ?thesis by (simp add: header_step_def fill_header_done)
next
  case False
  then have lt: "tp_header_pos p + length xs < BLOCK_SIZE" by simp
  obtain p1 k where fx: "fill_header p xs = (p1, k)" by fastforce
  note part = fill_header_part [OF assms(1) lt fx] and facts = fill_header_facts [OF assms(1) fx]
  obtain p2 k2 where fy: "fill_header p1 ys = (p2, k2)" by fastforce
  note facts2 = fill_header_facts [OF part(2) fy]
  have "header_step f p xs = (p1, Inr (length xs, NeedData))"
    using fx lt part(1) facts by (simp add: header_step_def)
  moreover have "header_step f p (xs @ ys) = shift_feed (length xs) (header_step f p1 ys)"
    using fy part(3) by (simp add: header_step_def shift)
  moreover have "\<not> stalls (header_step f p1 ys)"
  proof
    assume "stalls (header_step f p1 ys)"
    then obtain p' where "header_step f p1 ys = (p', Inr (0, NeedData))"
      by (cases "header_step f p1 ys") (auto simp: stalls_def)
    with fy facts2(6) [OF assms(3)] bound show False
      by (fastforce simp: header_step_def split: if_splits)
  qed
  ultimately show ?thesis using facts by blast
qed


definition first_header :: "tar_parser \<Rightarrow> nat \<Rightarrow> tar_step" where
  "first_header p available =
     (if is_zero_block (tp_header_buf p) then (p\<lparr>tp_state := TOneZeroBlock\<rparr>, Inr (available, NeedData))
      else process_header p available)"

definition second_header :: "tar_parser \<Rightarrow> nat \<Rightarrow> tar_step" where
  "second_header p available =
     (if is_zero_block (tp_header_buf p) then (p\<lparr>tp_state := TEnd\<rparr>, Inr (available, EndOfArchive))
      else process_header p available)"

lemma header_steps:
  "data \<noteq> [] \<Longrightarrow> tar_feed_header p data = header_step first_header p data"
  "data \<noteq> [] \<Longrightarrow> feed_second_zero p data = header_step second_header p data"
  by (simp_all add: tar_feed_header_def feed_second_zero_def header_step_def first_header_def
      second_header_def Let_def split: prod.split)

lemma header_shift:
  "first_header p (n + k) = shift_feed n (first_header p k)"
  "second_header p (n + k) = shift_feed n (second_header p k)"
  by (simp_all add: first_header_def second_header_def process_header_shift)

lemma header_facts:
  assumes "first_header p k = (p', Inr (k', ev)) \<or> second_header p k = (p', Inr (k', ev))"
  shows "k' = k" "tp_stream_pos p' = tp_stream_pos p" "tp_header_pos p' = tp_header_pos p"
    "tp_header_buf p' = tp_header_buf p"
  using assms process_header_facts
  by (auto simp: first_header_def second_header_def split: if_splits)

lemma pax_record_frame [simp]:
  "tp_stream_pos (pax_record p r) = tp_stream_pos p"
  "tp_header_pos (pax_record p r) = tp_header_pos p"
  "tp_header_buf (pax_record p r) = tp_header_buf p"
  "tp_state (pax_record p r) = tp_state p"
  by (simp_all add: pax_record_def Let_def split: option.split)

text \<open>The cases of a step over the records.\<close>

lemma parse_pax_step [consumes 0, case_names stop panic line]:
  obtains "parse_pax_from p pos data = (p, Inr ())" "\<And>q. parse_pax_from q pos data = (q, Inr ())"
  | m where "parse_pax_from p pos data = (p, Inl (Panicked m))" "\<And>q. parse_pax_from q pos data = (q, Inl (Panicked m))"
  | r fin where "length (drop (fin - pos) data) < length data"
      "\<And>q. parse_pax_from q pos data = parse_pax_from (pax_record q r) fin (drop (fin - pos) data)"
proof (cases "data = [] \<or> position 32 data = None \<or> pax_len data (the (position 32 data)) = None")
  case True
  then have "parse_pax_from q pos data = (q, Inr ())" for q by (subst parse_pax_from.simps) (auto split: option.split)
  then show ?thesis using that(1) by blast
next
  case False
  then obtain space len where s: "position 32 data = Some space" "pax_len data space = Some len" "data \<noteq> []" by auto
  let ?fin = "wrap64 (pos + len)"
  let ?r = "strip_one_end 10 (subslice (space + 1) (?fin - pos) data)"
  have unf: "parse_pax_from q pos data =
      (if ?fin > pos + length data then (q, Inr ())
       else if ?fin < pos + space + 1 then (q, Inl (Panicked ''slice index starts at {} but ends at {}''))
       else parse_pax_from (pax_record q ?r) ?fin (drop (?fin - pos) data))" for q
    using s by (subst parse_pax_from.simps) (simp add: Let_def)
  consider "?fin > pos + length data" | "?fin \<le> pos + length data" "?fin < pos + space + 1"
    | "?fin \<le> pos + length data" "pos + space + 1 \<le> ?fin" by linarith
  then show ?thesis
  proof cases
    case 1
    then show ?thesis using unf that(1) by simp
  next
    case 2
    then show ?thesis using unf that(2) by simp
  next
    case 3
    then have "length (drop (?fin - pos) data) < length data" using s(3) by (cases data) auto
    then show ?thesis using unf 3 that(3) [of ?fin ?r] by simp
  qed
qed

lemma parse_pax_from_frame:
  "parse_pax_from p pos d = (p', r) \<Longrightarrow> tp_stream_pos p' = tp_stream_pos p \<and>
   tp_header_pos p' = tp_header_pos p \<and> tp_header_buf p' = tp_header_buf p"
proof (induction "length d" arbitrary: p pos d rule: less_induct)
  case less
  show ?case
  proof (cases rule: parse_pax_step [of p pos d])
    case (line rec fin)
    from less.hyps [OF line(1), of "pax_record p rec" fin] line(2) less.prems show ?thesis by simp
  qed (use less.prems in auto)
qed

lemma parse_pax_data_frame:
  "parse_pax_data p d = (p', r) \<Longrightarrow> tp_stream_pos p' = tp_stream_pos p \<and>
   tp_header_pos p' = tp_header_pos p \<and> tp_header_buf p' = tp_header_buf p"
  unfolding parse_pax_data_def by (rule parse_pax_from_frame)

text \<open>A parse of a longer prefix of the stream goes past no byte it did not read.\<close>

lemma header_step_facts:
  assumes "tar_inv p" and "d \<noteq> []"
    and "header_step first_header p d = (p', Inr (k, ev)) \<or> header_step second_header p d = (p', Inr (k, ev))"
  shows "tar_inv p' \<and> k \<le> length d \<and> tp_stream_pos p' = tp_stream_pos p + k \<and> 0 < k"
proof -
  obtain p1 n where f: "fill_header p d = (p1, n)" by fastforce
  note facts = fill_header_facts [OF assms(1) f]
  show ?thesis
  proof (cases "tp_header_pos p1 < BLOCK_SIZE")
    case True
    with assms f facts show ?thesis
      by (auto simp: header_step_def tar_inv_def)
  next
    case False
    with assms(3) f have "first_header (p1\<lparr>tp_header_pos := 0\<rparr>) n = (p', Inr (k, ev)) \<or>
        second_header (p1\<lparr>tp_header_pos := 0\<rparr>) n = (p', Inr (k, ev))"
      by (simp add: header_step_def)
    from header_facts [OF this] facts assms(2) show ?thesis
      by (simp add: tar_inv_def BLOCK_SIZE_def)
  qed
qed

lemma feed_tar_facts:
  assumes "tar_inv p" and "feed_tar p d = (p', Inr (k, ev))"
  shows "tar_inv p' \<and> k \<le> length d \<and> tp_stream_pos p' = tp_stream_pos p + k \<and>
    (d \<noteq> [] \<and> ev = Entry e \<longrightarrow> 0 < k)"
proof (cases "d = []")
  case True
  with assms show ?thesis
    by (auto simp: feed_tar_def tar_feed_header_def feed_second_zero_def tar_feed_skip_def
        feed_pax_def feed_gnu_long_def split: tar_state.splits)
next
  case ne: False
  show ?thesis
  proof (cases "tp_state p")
    case TReadingHeader
    with assms ne have "header_step first_header p d = (p', Inr (k, ev))"
      by (simp add: feed_tar_def header_steps)
    with header_step_facts [OF assms(1) ne] show ?thesis by blast
  next
    case TOneZeroBlock
    with assms ne have "header_step second_header p d = (p', Inr (k, ev))"
      by (simp add: feed_tar_def header_steps)
    with header_step_facts [OF assms(1) ne] show ?thesis by blast
  qed (use assms ne in \<open>auto simp: feed_tar_def tar_feed_skip_def feed_pax_def feed_gnu_long_def
    tar_inv_def Let_def split: if_splits prod.splits sum.splits dest!: parse_pax_data_frame\<close>)
qed

lemma first_header_split:
  assumes "tar_inv p" and "xs \<noteq> []" and "ys \<noteq> []"
  shows "header_step first_header p (xs @ ys) = header_step first_header p xs \<or>
    (\<exists>p1. header_step first_header p xs = (p1, Inr (length xs, NeedData)) \<and> tp_state p1 = tp_state p \<and>
       header_step first_header p (xs @ ys) = shift_feed (length xs) (header_step first_header p1 ys) \<and>
       \<not> stalls (header_step first_header p1 ys))"
  by (rule header_step_split [OF assms]) (rule header_shift, rule header_facts(1), erule disjI1)

lemma second_header_split:
  assumes "tar_inv p" and "xs \<noteq> []" and "ys \<noteq> []"
  shows "header_step second_header p (xs @ ys) = header_step second_header p xs \<or>
    (\<exists>p1. header_step second_header p xs = (p1, Inr (length xs, NeedData)) \<and> tp_state p1 = tp_state p \<and>
       header_step second_header p (xs @ ys) = shift_feed (length xs) (header_step second_header p1 ys) \<and>
       \<not> stalls (header_step second_header p1 ys))"
  by (rule header_step_split [OF assms]) (rule header_shift, rule header_facts(1), erule disjI2)

lemma collect_append:
  fixes buf xs ys :: bytes
  assumes "b1 = buf @ take (min (length xs) (sz - length buf)) xs"
  shows "buf @ take (min (length xs + m) (sz - length buf)) (xs @ ys) = b1 @ take (min m (sz - length b1)) ys"
proof -
  have "sz - length b1 = sz - length buf - length xs" using assms by (simp add: min_def)
  moreover have "min (length xs + m) (sz - length buf) - length xs = min m (sz - length buf - length xs)"
    by arith
  moreover have "take (min (length xs + m) (sz - length buf)) xs = take (min (length xs) (sz - length buf)) xs"
    by (cases "length xs \<le> sz - length buf") simp_all
  ultimately show ?thesis using assms by simp
qed

lemma min_length_append:
  "length (xs :: bytes) < r \<Longrightarrow> min (length xs + n) r = length xs + min n (r - length xs)"
  by arith

definition pax_step :: "tar_parser \<Rightarrow> nat \<Rightarrow> nat \<Rightarrow> bytes \<Rightarrow> nat \<Rightarrow> tar_step" where
  "pax_step p remaining sz buf tk =
     (if remaining = 0
      then (case parse_pax_data p buf of
              (p, Inl panic) \<Rightarrow> (p\<lparr>tp_state := TReadingPaxData 0 sz []\<rparr>, Inl panic)
            | (p, Inr _) \<Rightarrow> (p\<lparr>tp_state := TReadingHeader\<rparr>, Inr (tk, NeedData)))
      else (p\<lparr>tp_state := TReadingPaxData remaining sz buf\<rparr>, Inr (tk, NeedData)))"

definition long_step :: "tar_parser \<Rightarrow> nat \<Rightarrow> nat \<Rightarrow> bytes \<Rightarrow> bool \<Rightarrow> nat \<Rightarrow> tar_step" where
  "long_step p remaining sz buf lnk tk =
     (if remaining = 0 then
        (let name = trim_end 0 (from_utf8_lossy buf);
             p = (if lnk then p\<lparr>tp_gnu_long_link := Some name\<rparr> else p\<lparr>tp_gnu_long_name := Some name\<rparr>)
         in (p\<lparr>tp_state := TReadingHeader\<rparr>, Inr (tk, NeedData)))
      else (p\<lparr>tp_state := TReadingGnuLong remaining sz buf lnk\<rparr>, Inr (tk, NeedData)))"

lemma feed_pax_step:
  assumes "data \<noteq> []" and "tk = min (length data) remaining" and "b1 = buf @ take (min tk (sz - length buf)) data"
    and "n = tp_stream_pos p + tk" and "m = remaining - tk"
  shows "feed_pax p remaining sz buf data = pax_step (p\<lparr>tp_stream_pos := n\<rparr>) m sz b1 tk"
  unfolding feed_pax_def pax_step_def Let_def assms(2-) using assms(1) by (simp only: if_False)

lemma feed_gnu_long_step:
  assumes "data \<noteq> []" and "tk = min (length data) remaining" and "b1 = buf @ take (min tk (sz - length buf)) data"
    and "n = tp_stream_pos p + tk" and "m = remaining - tk"
  shows "feed_gnu_long p remaining sz buf lnk data = long_step (p\<lparr>tp_stream_pos := n\<rparr>) m sz b1 lnk tk"
  unfolding feed_gnu_long_def long_step_def Let_def assms(2-) using assms(1) by (simp only: if_False)

lemma pax_record_state:
  "pax_record (p\<lparr>tp_state := s\<rparr>) r = (pax_record p r)\<lparr>tp_state := s\<rparr>"
  by (simp add: pax_record_def Let_def split: option.split)

lemma parse_pax_from_state:
  "parse_pax_from (p\<lparr>tp_state := s\<rparr>) pos d = apfst (\<lambda>p. p\<lparr>tp_state := s\<rparr>) (parse_pax_from p pos d)"
proof (induction "length d" arbitrary: p pos d rule: less_induct)
  case less
  show ?case
  proof (cases rule: parse_pax_step [of p pos d])
    case (line rec fin)
    from less.hyps [OF line(1), of "pax_record p rec" fin] line(2) show ?thesis by (simp add: pax_record_state)
  qed (use less.prems in simp_all)
qed

lemma parse_pax_data_state:
  "parse_pax_data (p\<lparr>tp_state := s\<rparr>) d = apfst (\<lambda>p. p\<lparr>tp_state := s\<rparr>) (parse_pax_data p d)"
  unfolding parse_pax_data_def by (rule parse_pax_from_state)

lemma pax_step_shift:
  "pax_step p r sz b (n + k) = shift_feed n (pax_step (p\<lparr>tp_state := s\<rparr>) r sz b k)"
  by (cases "parse_pax_data p b"; cases "snd (parse_pax_data p b)") (simp_all add: pax_step_def parse_pax_data_state)

lemma long_step_shift:
  "long_step p r sz b lnk (n + k) = shift_feed n (long_step (p\<lparr>tp_state := s\<rparr>) r sz b lnk k)"
  by (simp add: long_step_def Let_def)

lemma feed_pax_split:
  assumes "tp_state p = TReadingPaxData remaining sz buf" and "length xs < remaining" "xs \<noteq> []" "ys \<noteq> []"
  shows "\<exists>p1. feed_tar p xs = (p1, Inr (length xs, NeedData)) \<and>
       feed_tar p (xs @ ys) = shift_feed (length xs) (feed_tar p1 ys) \<and> \<not> stalls (feed_tar p1 ys)"
proof -
  let ?b = "buf @ take (min (length xs) (sz - length buf)) xs"
  let ?p1 = "p\<lparr>tp_stream_pos := tp_stream_pos p + length xs, tp_state := TReadingPaxData (remaining - length xs) sz ?b\<rparr>"
  let ?k = "min (length ys) (remaining - length xs)"
  have "feed_tar p xs = (?p1, Inr (length xs, NeedData))"
    using assms by (simp add: feed_tar_def feed_pax_def Let_def)
  moreover have "\<not> stalls (feed_tar ?p1 ys)"
    using assms by (auto simp: feed_tar_def feed_pax_def Let_def stalls_def split: prod.split sum.split)
  moreover have "feed_tar p (xs @ ys) = shift_feed (length xs) (feed_tar ?p1 ys)"
  proof -
    let ?c = "?b @ take (min ?k (sz - length ?b)) ys"
    have ne: "xs @ ys \<noteq> []" using assms by simp
    have tk: "length xs + ?k = min (length (xs @ ys)) remaining" using assms by simp
    have c: "?c = buf @ take (min (length xs + ?k) (sz - length buf)) (xs @ ys)"
      using collect_append [OF refl, where buf = buf and xs = xs and sz = sz and m = ?k and ys = ys]
      by (rule sym)
    let ?q = "p\<lparr>tp_stream_pos := tp_stream_pos p + length xs + ?k\<rparr>"
    let ?r = "remaining - (length xs + ?k)"
    have "feed_tar p (xs @ ys) = feed_pax p remaining sz buf (xs @ ys)"
      using assms(1) by (simp add: feed_tar_def)
    also have "... = pax_step ?q ?r sz ?c (length xs + ?k)"
      using ne tk c by (rule feed_pax_step) simp_all
    also have "... = shift_feed (length xs) (pax_step (?q\<lparr>tp_state := tp_state ?p1\<rparr>) ?r sz ?c ?k)"
      by (rule pax_step_shift)
    also have "?q\<lparr>tp_state := tp_state ?p1\<rparr> = ?p1\<lparr>tp_stream_pos := tp_stream_pos p + length xs + ?k\<rparr>"
      by simp
    also have "pax_step ... ?r sz ?c ?k = feed_pax ?p1 (remaining - length xs) sz ?b ys"
      using assms(4) refl refl by (rule feed_pax_step [symmetric]) simp_all
    also have "... = feed_tar ?p1 ys" by (simp add: feed_tar_def)
    finally show ?thesis .
  qed
  ultimately show ?thesis by blast
qed

lemma feed_gnu_long_split:
  assumes "tp_state p = TReadingGnuLong remaining sz buf lnk" and "length xs < remaining" "xs \<noteq> []" "ys \<noteq> []"
  shows "\<exists>p1. feed_tar p xs = (p1, Inr (length xs, NeedData)) \<and>
       feed_tar p (xs @ ys) = shift_feed (length xs) (feed_tar p1 ys) \<and> \<not> stalls (feed_tar p1 ys)"
proof -
  let ?b = "buf @ take (min (length xs) (sz - length buf)) xs"
  let ?p1 = "p\<lparr>tp_stream_pos := tp_stream_pos p + length xs, tp_state := TReadingGnuLong (remaining - length xs) sz ?b lnk\<rparr>"
  let ?k = "min (length ys) (remaining - length xs)"
  have "feed_tar p xs = (?p1, Inr (length xs, NeedData))"
    using assms by (simp add: feed_tar_def feed_gnu_long_def Let_def)
  moreover have "\<not> stalls (feed_tar ?p1 ys)"
    using assms by (simp add: feed_tar_def feed_gnu_long_def Let_def stalls_def)
  moreover have "feed_tar p (xs @ ys) = shift_feed (length xs) (feed_tar ?p1 ys)"
  proof -
    let ?c = "?b @ take (min ?k (sz - length ?b)) ys"
    have ne: "xs @ ys \<noteq> []" using assms by simp
    have tk: "length xs + ?k = min (length (xs @ ys)) remaining" using assms by simp
    have c: "?c = buf @ take (min (length xs + ?k) (sz - length buf)) (xs @ ys)"
      using collect_append [OF refl, where buf = buf and xs = xs and sz = sz and m = ?k and ys = ys]
      by (rule sym)
    let ?q = "p\<lparr>tp_stream_pos := tp_stream_pos p + length xs + ?k\<rparr>"
    let ?r = "remaining - (length xs + ?k)"
    have "feed_tar p (xs @ ys) = feed_gnu_long p remaining sz buf lnk (xs @ ys)"
      using assms(1) by (simp add: feed_tar_def)
    also have "... = long_step ?q ?r sz ?c lnk (length xs + ?k)"
      using ne tk c by (rule feed_gnu_long_step) simp_all
    also have "... = shift_feed (length xs) (long_step (?q\<lparr>tp_state := tp_state ?p1\<rparr>) ?r sz ?c lnk ?k)"
      by (rule long_step_shift)
    also have "?q\<lparr>tp_state := tp_state ?p1\<rparr> = ?p1\<lparr>tp_stream_pos := tp_stream_pos p + length xs + ?k\<rparr>"
      by simp
    also have "long_step ... ?r sz ?c lnk ?k = feed_gnu_long ?p1 (remaining - length xs) sz ?b lnk ys"
      using assms(4) refl refl by (rule feed_gnu_long_step [symmetric]) simp_all
    also have "... = feed_tar ?p1 ys" by (simp add: feed_tar_def)
    finally show ?thesis .
  qed
  ultimately show ?thesis by blast
qed

lemma feed_tar_split:
  assumes "tar_inv p" and "xs \<noteq> []" and "ys \<noteq> []"
  shows "feed_tar p (xs @ ys) = feed_tar p xs \<or>
    (\<exists>p1. feed_tar p xs = (p1, Inr (length xs, NeedData)) \<and>
       feed_tar p (xs @ ys) = shift_feed (length xs) (feed_tar p1 ys) \<and> \<not> stalls (feed_tar p1 ys))"
proof (cases "tp_state p")
  case TReadingHeader
  from first_header_split [OF assms] TReadingHeader assms(2,3) show ?thesis
    by (auto simp: feed_tar_def header_steps)
next
  case TOneZeroBlock
  from second_header_split [OF assms] TOneZeroBlock assms(2,3) show ?thesis
    by (auto simp: feed_tar_def header_steps)
next
  case (TSkippingData remaining)
  with assms show ?thesis
    by (cases "remaining \<le> length xs")
       (auto simp: feed_tar_def tar_feed_skip_def Let_def stalls_def min_def)
next
  case (TReadingPaxData remaining sz buf)
  show ?thesis
  proof (cases "remaining \<le> length xs")
    case True
    with assms have "take (min (min (length xs + length ys) remaining) (sz - length buf)) (xs @ ys) =
        take (min (min (length xs) remaining) (sz - length buf)) xs"
      "min (length xs + length ys) remaining = min (length xs) remaining" by simp_all
    with True assms TReadingPaxData show ?thesis
      by (simp add: feed_tar_def feed_pax_def Let_def)
  next
    case False
    with feed_pax_split [OF TReadingPaxData] assms show ?thesis by simp
  qed
next
  case (TReadingGnuLong remaining sz buf lnk)
  show ?thesis
  proof (cases "remaining \<le> length xs")
    case True
    with assms have "take (min (min (length xs + length ys) remaining) (sz - length buf)) (xs @ ys) =
        take (min (min (length xs) remaining) (sz - length buf)) xs"
      "min (length xs + length ys) remaining = min (length xs) remaining" by simp_all
    with True assms TReadingGnuLong show ?thesis
      by (simp add: feed_tar_def feed_gnu_long_def Let_def)
  next
    case False
    with feed_gnu_long_split [OF TReadingGnuLong] assms show ?thesis by simp
  qed
next
  case TEnd
  then show ?thesis by (simp add: feed_tar_def)
qed


section \<open>The parser as an incremental parser\<close>

lemma tar_feed_Inr:
  "tar_feed p d = (p', Inr (k, ev)) \<longleftrightarrow>
   (\<exists>ev0. feed_tar p d = (p', Inr (k, ev0)) \<and> ev = map_event tar_entry_into ev0)"
  by (cases "feed_tar p d") (auto simp: tar_feed_def map_sum_def split: sum.splits)

lemma tar_feed_shift:
  "feed_tar p d = shift_feed n (feed_tar p1 d1) \<Longrightarrow> tar_feed p d = shift_feed n (tar_feed p1 d1)"
  by (cases "feed_tar p1 d1"; cases "snd (feed_tar p1 d1)") (auto simp: tar_feed_def)

lemma tar_feed_stalls: "stalls (tar_feed p d) = stalls (feed_tar p d)"
  by (cases "feed_tar p d"; cases "snd (feed_tar p d)")
     (auto simp: tar_feed_def stalls_def map_event_iff)

interpretation tar: incremental_parser tar_feed tar_inv tp_stream_pos "\<lambda>_. 0"
proof unfold_locales
  fix p d p' k and ev :: archive_event
  assume inv: "tar_inv p" and "tar_feed p d = (p', Inr (k, ev))"
  then obtain ev0 where f: "feed_tar p d = (p', Inr (k, ev0))" by (auto simp: tar_feed_Inr)
  from feed_tar_facts [OF inv f] show "tar_inv p'" "k \<le> length d" "tp_stream_pos p' = tp_stream_pos p + k"
    by auto
next
  fix p d p' k e
  assume inv: "tar_inv p" and "d \<noteq> []" and "tar_feed p d = (p', Inr (k, Entry e))"
  then obtain e0 where "feed_tar p d = (p', Inr (k, Entry e0))"
    by (auto simp: tar_feed_Inr dest!: map_event_iff(1) [THEN iffD1, OF sym])
  from feed_tar_facts [OF inv this] \<open>d \<noteq> []\<close> show "0 < k \<or> (0::nat) < 0" by auto
next
  fix p and xs ys :: bytes
  assume "tar_inv p" "xs \<noteq> []" "ys \<noteq> []"
  from feed_tar_split [OF this] show "tar_feed p (xs @ ys) = tar_feed p xs \<or>
    (\<exists>p1. tar_feed p xs = (p1, Inr (length xs, NeedData)) \<and>
       tar_feed p (xs @ ys) = shift_feed (length xs) (tar_feed p1 ys) \<and> \<not> stalls (tar_feed p1 ys))"
  proof
    assume "feed_tar p (xs @ ys) = feed_tar p xs"
    then show ?thesis by (simp add: tar_feed_def)
  next
    assume "\<exists>p1. feed_tar p xs = (p1, Inr (length xs, NeedData)) \<and>
      feed_tar p (xs @ ys) = shift_feed (length xs) (feed_tar p1 ys) \<and> \<not> stalls (feed_tar p1 ys)"
    then show ?thesis by (auto simp: tar_feed_Inr tar_feed_stalls intro: tar_feed_shift)
  qed
qed

end
