(* ===== verification/CpioParser.thy ===== *)
theory CpioParser
  imports Archive "HOL-Library.Product_Lexorder" "HOL-Library.Multiset"
begin

text \<open>
  \<^verbatim>\<open>src/cpio/header.rs\<close> and \<^verbatim>\<open>src/cpio/parser.rs\<close>: the incremental parser of newc, newc-CRC and odc
  archives with its resolution of hard links. The lemmas show that the hard-link policy loses
  no member; the interpretation of the parser interface at the end gives independence of
  chunking.
\<close>

section \<open>Headers\<close>

definition NEWC_HEADER_SIZE :: nat where
  "NEWC_HEADER_SIZE = 110"

definition ODC_HEADER_SIZE :: nat where
  "ODC_HEADER_SIZE = 76"

definition NEWC_MAGIC :: bytes where
  "NEWC_MAGIC = ascii ''070701''"

definition NEWC_CRC_MAGIC :: bytes where
  "NEWC_CRC_MAGIC = ascii ''070702''"

definition ODC_MAGIC :: bytes where
  "ODC_MAGIC = ascii ''070707''"

definition TRAILER_NAME :: bytes where
  "TRAILER_NAME = ascii ''TRAILER!!!''"

datatype cpio_sub_format = Newc | NewcCrc | Odc

record cpio_header =
  ch_ino :: nat
  ch_mode :: nat
  ch_uid :: nat
  ch_gid :: nat
  ch_nlink :: nat
  ch_mtime :: nat
  ch_filesize :: nat
  ch_devmajor :: nat
  ch_devminor :: nat
  ch_rdevmajor :: nat
  ch_rdevminor :: nat
  ch_namesize :: nat

definition parse_hex8 :: "bytes \<Rightarrow> nat result" where
  "parse_hex8 data =
     (if \<not> utf8_valid data then Inl (InvalidCpioHeader ''invalid UTF-8 in hex field'')
      else ok_or (from_str_radix 16 data) (InvalidCpioHeader ''invalid hex field: {:?}''))"

definition cpio_parse_octal :: "bytes \<Rightarrow> nat result" where
  "cpio_parse_octal data =
     (if \<not> utf8_valid data then Inl (InvalidCpioHeader ''invalid UTF-8 in octal field'')
      else ok_or (from_str_radix 8 data) (InvalidCpioHeader ''invalid octal field: {:?}''))"

definition parse_newc_header :: "bytes \<Rightarrow> cpio_header result" where
  "parse_newc_header data =
     (if length data < NEWC_HEADER_SIZE then Inl (InvalidCpioHeader ''header too short'') else
      and_then (parse_hex8 (subslice 6 14 data)) (\<lambda>ino.
      and_then (parse_hex8 (subslice 14 22 data)) (\<lambda>mode.
      and_then (parse_hex8 (subslice 22 30 data)) (\<lambda>uid.
      and_then (parse_hex8 (subslice 30 38 data)) (\<lambda>gid.
      and_then (parse_hex8 (subslice 38 46 data)) (\<lambda>nlink.
      and_then (parse_hex8 (subslice 46 54 data)) (\<lambda>mtime.
      and_then (parse_hex8 (subslice 54 62 data)) (\<lambda>filesize.
      and_then (parse_hex8 (subslice 62 70 data)) (\<lambda>devmajor.
      and_then (parse_hex8 (subslice 70 78 data)) (\<lambda>devminor.
      and_then (parse_hex8 (subslice 78 86 data)) (\<lambda>rdevmajor.
      and_then (parse_hex8 (subslice 86 94 data)) (\<lambda>rdevminor.
      and_then (parse_hex8 (subslice 94 102 data)) (\<lambda>namesize.
      Inr \<lparr>ch_ino = ino, ch_mode = wrap32 mode, ch_uid = uid, ch_gid = gid, ch_nlink = wrap32 nlink,
           ch_mtime = mtime, ch_filesize = filesize, ch_devmajor = wrap32 devmajor,
           ch_devminor = wrap32 devminor, ch_rdevmajor = wrap32 rdevmajor,
           ch_rdevminor = wrap32 rdevminor, ch_namesize = wrap32 namesize\<rparr>)))))))))))))"

definition parse_odc_header :: "bytes \<Rightarrow> cpio_header result" where
  "parse_odc_header data =
     (if length data < ODC_HEADER_SIZE then Inl (InvalidCpioHeader ''odc header too short'') else
      and_then (cpio_parse_octal (subslice 6 12 data)) (\<lambda>dev.
      and_then (cpio_parse_octal (subslice 42 48 data)) (\<lambda>rdev.
      let dev = wrap32 dev; rdev = wrap32 rdev in
      and_then (cpio_parse_octal (subslice 12 18 data)) (\<lambda>ino.
      and_then (cpio_parse_octal (subslice 18 24 data)) (\<lambda>mode.
      and_then (cpio_parse_octal (subslice 24 30 data)) (\<lambda>uid.
      and_then (cpio_parse_octal (subslice 30 36 data)) (\<lambda>gid.
      and_then (cpio_parse_octal (subslice 36 42 data)) (\<lambda>nlink.
      and_then (cpio_parse_octal (subslice 48 59 data)) (\<lambda>mtime.
      and_then (cpio_parse_octal (subslice 65 76 data)) (\<lambda>filesize.
      and_then (cpio_parse_octal (subslice 59 65 data)) (\<lambda>namesize.
      Inr \<lparr>ch_ino = ino, ch_mode = wrap32 mode, ch_uid = uid, ch_gid = gid, ch_nlink = wrap32 nlink,
           ch_mtime = mtime, ch_filesize = filesize, ch_devmajor = dev div 256,
           ch_devminor = dev mod 256, ch_rdevmajor = rdev div 256,
           ch_rdevminor = rdev mod 256, ch_namesize = wrap32 namesize\<rparr>)))))))))))"

text \<open>The type bits \<^verbatim>\<open>mode & 0o170000\<close>, in units of 0o10000.\<close>

definition entry_type_from_mode :: "nat \<Rightarrow> entry_type" where
  "entry_type_from_mode mode =
     (let t = mode div 4096 mod 16 in
      if t = 8 then Regular
      else if t = 4 then Directory
      else if t = 10 then SymLink
      else if t = 2 then CharDevice
      else if t = 6 then BlockDevice
      else if t = 1 then Fifo
      else if t = 12 then Socket
      else Other (of_nat (mode div 4096)))"

definition align4 :: "nat \<Rightarrow> nat" where
  "align4 offset = (offset + 3) div 4 * 4"

section \<open>State\<close>

definition CPIO_MAX_NAME_SIZE :: nat where
  "CPIO_MAX_NAME_SIZE = 2 ^ 16"

type_synonym inode_key = "nat \<times> nat \<times> nat"

definition inode_key :: "cpio_header \<Rightarrow> inode_key" where
  "inode_key hdr = (ch_devmajor hdr, ch_devminor hdr, ch_ino hdr)"

datatype cpio_state =
    CReadingHeader
  | CReadingFilename (cf_header: cpio_header) (cf_remaining: nat) (cf_buf: bytes)
  | CSkippingNamePad (cn_entry: archive_entry) (cn_remaining: nat) (cn_inode: inode_key) (cn_nlink: nat)
  | CReadingLinkTarget (cl_entry: archive_entry) (cl_remaining: nat) (cl_buf: bytes)
  | CSkippingData (cs_remaining: nat)
  | CSkippingDataPad (cd_remaining: nat)
  | CEnd

text \<open>
  \<^verbatim>\<open>deferred_links\<close> is a \<^verbatim>\<open>BTreeMap\<close>: a list of keys and values in the order of the keys.
\<close>

record cpio_parser =
  cp_state :: cpio_state
  cp_header_buf :: bytes
  cp_stream_pos :: nat
  cp_sub_format :: "cpio_sub_format option"
  cp_resolved_inodes :: "inode_key \<rightharpoonup> bytes"
  cp_deferred_links :: "(inode_key \<times> archive_entry list) list"
  cp_pending :: "archive_entry list"

definition cpio_new :: cpio_parser where
  "cpio_new =
     \<lparr>cp_state = CReadingHeader, cp_header_buf = [], cp_stream_pos = 0, cp_sub_format = None,
      cp_resolved_inodes = Map.empty, cp_deferred_links = [], cp_pending = []\<rparr>"

type_synonym cpio_step = "cpio_parser \<times> (nat \<times> archive_event) result"

text \<open>\<^verbatim>\<open>entry(key).or_default().push(e)\<close> and \<^verbatim>\<open>remove(&key)\<close>.\<close>

fun btree_push :: "'k::linorder \<Rightarrow> 'e \<Rightarrow> ('k \<times> 'e list) list \<Rightarrow> ('k \<times> 'e list) list" where
  "btree_push k e [] = [(k, [e])]"
| "btree_push k e ((k', es) # t) =
     (if k = k' then (k', es @ [e]) # t
      else if k < k' then (k, [e]) # (k', es) # t
      else (k', es) # btree_push k e t)"

fun btree_remove :: "'k \<Rightarrow> ('k \<times> 'e list) list \<Rightarrow> 'e list option \<times> ('k \<times> 'e list) list" where
  "btree_remove k [] = (None, [])"
| "btree_remove k ((k', es) # t) =
     (if k = k' then (Some es, t)
      else case btree_remove k t of (found, t') \<Rightarrow> (found, (k', es) # t'))"

section \<open>Hard links\<close>

definition as_hard_link :: "bytes \<Rightarrow> archive_entry \<Rightarrow> archive_entry" where
  "as_hard_link path d = d\<lparr>ae_type := HardLink, ae_link_target := Some path\<rparr>"

definition apply_hardlink_policy ::
  "cpio_parser \<Rightarrow> archive_entry \<Rightarrow> inode_key \<Rightarrow> nat \<Rightarrow> cpio_parser \<times> archive_entry option" where
  "apply_hardlink_policy p entry inode nlink =
     (if ae_type entry \<noteq> Regular \<or> nlink \<le> 1 then (p, Some entry)
      else if ae_size entry > 0 then
        (let p = p\<lparr>cp_resolved_inodes := (cp_resolved_inodes p)(inode \<mapsto> ae_path entry)\<rparr>;
             (found, rest) = btree_remove inode (cp_deferred_links p);
             p = p\<lparr>cp_deferred_links := rest\<rparr>
         in case found of
              Some deferred \<Rightarrow>
                (p\<lparr>cp_pending := cp_pending p @ map (as_hard_link (ae_path entry)) deferred\<rparr>, Some entry)
            | None \<Rightarrow> (p, Some entry))
      else case cp_resolved_inodes p inode of
        Some path \<Rightarrow> (p, Some (as_hard_link path entry))
      | None \<Rightarrow>
          (p\<lparr>cp_deferred_links := btree_push inode entry (cp_deferred_links p)\<rparr>, None))"

text \<open>The event for the entry to emit now, if there is one.\<close>

definition emit :: "nat \<Rightarrow> cpio_parser \<times> archive_entry option \<Rightarrow> cpio_step" where
  "emit k r = (case r of (p, Some e) \<Rightarrow> (p, Inr (k, Entry e)) | (p, None) \<Rightarrow> (p, Inr (k, NeedData)))"

section \<open>Feeding\<close>

definition header_size :: "cpio_parser \<Rightarrow> nat" where
  "header_size p = (case cp_sub_format p of Some Odc \<Rightarrow> ODC_HEADER_SIZE | _ \<Rightarrow> NEWC_HEADER_SIZE)"

definition uses_alignment :: "cpio_parser \<Rightarrow> bool" where
  "uses_alignment p = (case cp_sub_format p of Some Odc \<Rightarrow> False | _ \<Rightarrow> True)"

definition detect_sub_format :: "bytes \<Rightarrow> cpio_sub_format result" where
  "detect_sub_format m =
     (if m = NEWC_MAGIC then Inr Newc
      else if m = NEWC_CRC_MAGIC then Inr NewcCrc
      else if m = ODC_MAGIC then Inr Odc
      else Inl (InvalidCpioHeader ''unrecognized cpio magic: {:?}''))"

definition cpio_process_header :: "cpio_parser \<Rightarrow> nat \<Rightarrow> cpio_step" where
  "cpio_process_header p consumed =
     (let magic = subslice 0 6 (cp_header_buf p);
          magic_ok = (case cp_sub_format p of
                        Some Odc \<Rightarrow> magic = ODC_MAGIC
                      | _ \<Rightarrow> magic = NEWC_MAGIC \<or> magic = NEWC_CRC_MAGIC)
      in if \<not> magic_ok then (p, Inl (InvalidCpioHeader ''bad magic {:?} at offset {}''))
         else case (case cp_sub_format p of
                      Some Odc \<Rightarrow> parse_odc_header (cp_header_buf p)
                    | _ \<Rightarrow> parse_newc_header (cp_header_buf p)) of
             Inl e \<Rightarrow> (p, Inl e)
           | Inr hdr \<Rightarrow>
               if ch_namesize hdr > CPIO_MAX_NAME_SIZE
               then (p, Inl (InvalidCpioHeader ''implausible namesize {}''))
               else (p\<lparr>cp_header_buf := [], cp_state := CReadingFilename hdr (ch_namesize hdr) []\<rparr>,
                     Inr (consumed, NeedData)))"

text \<open>The second half of \<^verbatim>\<open>feed_header\<close>: the sub-format is known, \<open>consumed\<close> bytes are taken.\<close>

definition feed_known_header :: "cpio_parser \<Rightarrow> nat \<Rightarrow> bytes \<Rightarrow> cpio_step" where
  "feed_known_header p consumed data =
     (let needed = header_size p - length (cp_header_buf p);
          available = min (length data - consumed) needed;
          p = p\<lparr>cp_header_buf := cp_header_buf p @ subslice consumed (consumed + available) data,
                cp_stream_pos := cp_stream_pos p + available\<rparr>;
          consumed = consumed + available
      in if length (cp_header_buf p) < header_size p then (p, Inr (consumed, NeedData))
         else cpio_process_header p consumed)"

definition cpio_feed_header :: "cpio_parser \<Rightarrow> bytes \<Rightarrow> cpio_step" where
  "cpio_feed_header p data =
     (if data = [] then (p, Inr (0, NeedData))
      else if cp_sub_format p = None then
        (let need_magic = 6 - length (cp_header_buf p);
             tk = min (length data) need_magic;
             p = p\<lparr>cp_header_buf := cp_header_buf p @ take tk data,
                   cp_stream_pos := cp_stream_pos p + tk\<rparr>
         in if length (cp_header_buf p) < 6 then (p, Inr (tk, NeedData))
            else case detect_sub_format (subslice 0 6 (cp_header_buf p)) of
                Inl e \<Rightarrow> (p, Inl e)
              | Inr f \<Rightarrow> feed_known_header (p\<lparr>cp_sub_format := Some f\<rparr>) tk data)
      else feed_known_header p 0 data)"

text \<open>
  \<^verbatim>\<open>transition_to_data\<close>, and the same steps after the name padding in \<^verbatim>\<open>feed_skip_name_pad\<close>: the
  entry's data begins at the current position.
\<close>

definition transition_to_data ::
  "cpio_parser \<Rightarrow> archive_entry \<Rightarrow> inode_key \<Rightarrow> nat \<Rightarrow> nat \<Rightarrow> cpio_step" where
  "transition_to_data p entry inode nlink k =
     (let entry = entry\<lparr>ae_data_offset := cp_stream_pos p\<rparr>; filesize = ae_size entry in
      if ae_type entry = SymLink \<and> filesize > 0 then
        (if filesize > CPIO_MAX_NAME_SIZE
         then (p, Inl (InvalidCpioHeader ''implausible symlink target size {}''))
         else (p\<lparr>cp_state := CReadingLinkTarget entry filesize []\<rparr>, Inr (k, NeedData)))
      else if filesize > 0 then
        (let data_pad = (if uses_alignment p then align4 filesize - filesize else 0) in
         emit k (apply_hardlink_policy (p\<lparr>cp_state := CSkippingData (filesize + data_pad)\<rparr>) entry inode nlink))
      else emit k (apply_hardlink_policy (p\<lparr>cp_state := CReadingHeader\<rparr>) entry inode nlink))"

text \<open>\<^verbatim>\<open>feed_filename\<close>: first the part after the name is complete, then the whole.\<close>

definition filename_done :: "cpio_parser \<Rightarrow> cpio_header \<Rightarrow> bytes \<Rightarrow> nat \<Rightarrow> cpio_step" where
  "filename_done p hdr buf tk =
     (let filename = trim_end 0 (from_utf8_lossy buf);
          entry_type = entry_type_from_mode (ch_mode hdr)
      in if filename = TRAILER_NAME then
           (let queue = cp_pending p @ concat (map snd (cp_deferred_links p));
                p = p\<lparr>cp_deferred_links := [], cp_state := CEnd\<rparr>
            in case queue of
                 e # rest \<Rightarrow> (p\<lparr>cp_pending := rest\<rparr>, Inr (tk, Entry e))
               | [] \<Rightarrow> (p\<lparr>cp_pending := []\<rparr>, Inr (tk, EndOfArchive)))
         else
           let total_header_name = header_size p + ch_namesize hdr;
               name_pad = (if uses_alignment p
                           then align4 total_header_name - total_header_name else 0);
               entry = \<lparr>ae_path = filename, ae_size = ch_filesize hdr, ae_type = entry_type,
                        ae_mode = ch_mode hdr mod 4096, ae_uid = ch_uid hdr, ae_gid = ch_gid hdr,
                        ae_mtime = ch_mtime hdr, ae_link_target = None,
                        ae_data_offset = cp_stream_pos p + name_pad\<rparr>
           in if name_pad > 0
              then (p\<lparr>cp_state := CSkippingNamePad entry name_pad (inode_key hdr) (ch_nlink hdr)\<rparr>,
                    Inr (tk, NeedData))
              else transition_to_data p entry (inode_key hdr) (ch_nlink hdr) tk)"

definition feed_filename :: "cpio_parser \<Rightarrow> cpio_header \<Rightarrow> nat \<Rightarrow> bytes \<Rightarrow> bytes \<Rightarrow> cpio_step" where
  "feed_filename p hdr remaining buf data =
     (if data = [] then (p, Inr (0, NeedData))
      else
        let tk = min (length data) remaining;
            buf = buf @ take tk data;
            remaining = remaining - tk;
            p = p\<lparr>cp_state := CReadingFilename hdr remaining buf, cp_stream_pos := cp_stream_pos p + tk\<rparr>
        in if remaining > 0 then (p, Inr (tk, NeedData)) else filename_done p hdr buf tk)"

definition feed_skip_name_pad ::
  "cpio_parser \<Rightarrow> archive_entry \<Rightarrow> nat \<Rightarrow> inode_key \<Rightarrow> nat \<Rightarrow> bytes \<Rightarrow> cpio_step" where
  "feed_skip_name_pad p entry remaining inode nlink data =
     (if data = [] then (p, Inr (0, NeedData))
      else
        let skip = min (length data) remaining;
            remaining = remaining - skip;
            p = p\<lparr>cp_stream_pos := cp_stream_pos p + skip\<rparr>
        in if remaining > 0
           then (p\<lparr>cp_state := CSkippingNamePad entry remaining inode nlink\<rparr>, Inr (skip, NeedData))
           else transition_to_data (p\<lparr>cp_state := CEnd\<rparr>) entry inode nlink skip)"

definition feed_link_target :: "cpio_parser \<Rightarrow> archive_entry \<Rightarrow> nat \<Rightarrow> bytes \<Rightarrow> bytes \<Rightarrow> cpio_step" where
  "feed_link_target p entry remaining buf data =
     (if data = [] then (p, Inr (0, NeedData))
      else
        let tk = min (length data) remaining;
            buf = buf @ take tk data;
            remaining = remaining - tk;
            p = p\<lparr>cp_stream_pos := cp_stream_pos p + tk\<rparr>
        in if remaining > 0
           then (p\<lparr>cp_state := CReadingLinkTarget entry remaining buf\<rparr>, Inr (tk, NeedData))
           else
             let entry = entry\<lparr>ae_link_target := Some (from_utf8_lossy buf), ae_size := 0\<rparr>;
                 original_filesize = cp_stream_pos p - ae_data_offset entry;
                 data_pad = (if uses_alignment p
                             then align4 original_filesize - original_filesize else 0)
             in (p\<lparr>cp_state := (if data_pad > 0 then CSkippingDataPad data_pad else CReadingHeader)\<rparr>,
                 Inr (tk, Entry entry)))"

definition feed_skip_data :: "cpio_parser \<Rightarrow> nat \<Rightarrow> bytes \<Rightarrow> cpio_step" where
  "feed_skip_data p remaining data =
     (if data = [] then (p, Inr (0, NeedData))
      else let skip = min (length data) remaining; remaining = remaining - skip in
           (p\<lparr>cp_stream_pos := cp_stream_pos p + skip,
              cp_state := (if remaining = 0 then CReadingHeader else CSkippingData remaining)\<rparr>,
            Inr (skip, NeedData)))"

definition feed_skip_data_pad :: "cpio_parser \<Rightarrow> nat \<Rightarrow> bytes \<Rightarrow> cpio_step" where
  "feed_skip_data_pad p remaining data =
     (if data = [] then (p, Inr (0, NeedData))
      else let skip = min (length data) remaining; remaining = remaining - skip in
           (p\<lparr>cp_stream_pos := cp_stream_pos p + skip,
              cp_state := (if remaining = 0 then CReadingHeader else CSkippingDataPad remaining)\<rparr>,
            Inr (skip, NeedData)))"

text \<open>\<^verbatim>\<open>ArchiveParser::feed\<close> for cpio.\<close>

definition cpio_feed :: "cpio_parser feeder" where
  "cpio_feed p data =
     (case cp_pending p of
        entry # rest \<Rightarrow> (p\<lparr>cp_pending := rest\<rparr>, Inr (0, Entry entry))
      | [] \<Rightarrow>
          (case cp_state p of
             CReadingHeader \<Rightarrow> cpio_feed_header p data
           | CReadingFilename hdr remaining buf \<Rightarrow> feed_filename p hdr remaining buf data
           | CSkippingNamePad entry remaining inode nlink \<Rightarrow>
               feed_skip_name_pad p entry remaining inode nlink data
           | CReadingLinkTarget entry remaining buf \<Rightarrow> feed_link_target p entry remaining buf data
           | CSkippingData remaining \<Rightarrow> feed_skip_data p remaining data
           | CSkippingDataPad remaining \<Rightarrow> feed_skip_data_pad p remaining data
           | CEnd \<Rightarrow> (p, Inr (0, EndOfArchive))))"

text \<open>\<^verbatim>\<open>ArchiveParser::end_of_stream\<close> for cpio.\<close>

definition cpio_end_of_stream :: "cpio_parser \<Rightarrow> unit result" where
  "cpio_end_of_stream p =
     (case cp_state p of
        CEnd \<Rightarrow> Inr ()
      | CReadingHeader \<Rightarrow>
          if cp_header_buf p = [] then Inl (TruncatedArchive ''stream ended before the {} member'')
          else Inl (TruncatedArchive ''stream ended inside a header'')
      | CReadingFilename _ _ _ \<Rightarrow> Inl (TruncatedArchive ''stream ended inside a header'')
      | CSkippingData remaining \<Rightarrow>
          Inl (TruncatedArchive ''stream ended {} bytes before the end of a member'')
      | CSkippingNamePad _ _ _ _ \<Rightarrow> Inl (TruncatedArchive ''stream ended inside a member'')
      | CReadingLinkTarget _ _ _ \<Rightarrow> Inl (TruncatedArchive ''stream ended inside a member'')
      | CSkippingDataPad _ \<Rightarrow> Inl (TruncatedArchive ''stream ended inside a member''))"

section \<open>Splitting a chunk\<close>

definition cpio_inv :: "cpio_parser \<Rightarrow> bool" where
  "cpio_inv p \<longleftrightarrow>
     (case cp_state p of
        CReadingHeader \<Rightarrow> length (cp_header_buf p) < (if cp_sub_format p = None then 6 else header_size p)
      | CSkippingNamePad _ remaining _ _ \<Rightarrow> cp_header_buf p = [] \<and> 0 < remaining
      | CReadingLinkTarget _ remaining _ \<Rightarrow> cp_header_buf p = [] \<and> 0 < remaining
      | _ \<Rightarrow> cp_header_buf p = [])"

definition deferred_count :: "cpio_parser \<Rightarrow> nat" where
  "deferred_count p = length (concat (map snd (cp_deferred_links p)))"

text \<open>
  Entries held back: the queue, the deferred links, and one for a file name of no bytes, after
  which an entry is emitted without taking any data.
\<close>

definition cpio_queued :: "cpio_parser \<Rightarrow> nat" where
  "cpio_queued p = length (cp_pending p) + deferred_count p +
     (case cp_state p of CReadingFilename _ remaining _ \<Rightarrow> if remaining = 0 then 1 else 0 | _ \<Rightarrow> 0)"

lemma header_size_pos [simp]: "6 < header_size p"
  by (simp add: header_size_def ODC_HEADER_SIZE_def NEWC_HEADER_SIZE_def split: option.split cpio_sub_format.split)

lemma header_size_pos0 [simp]: "0 < header_size p"
  using header_size_pos [of p] by linarith

lemma header_size_frame [simp]:
  "header_size (p\<lparr>cp_header_buf := b\<rparr>) = header_size p"
  "header_size (p\<lparr>cp_stream_pos := n\<rparr>) = header_size p"
  "header_size (p\<lparr>cp_state := s\<rparr>) = header_size p"
  "header_size (p\<lparr>cp_pending := q\<rparr>) = header_size p"
  by (simp_all add: header_size_def)

lemma cpio_inv_pending: "cpio_inv (p\<lparr>cp_pending := q\<rparr>) = cpio_inv p"
  by (auto simp: cpio_inv_def split: cpio_state.split)

lemma cpio_inv_new: "cpio_inv cpio_new"
  by (simp add: cpio_inv_def cpio_new_def)

lemma cpio_inv_empty:
  "cp_header_buf p = [] \<Longrightarrow>
   (\<And>e r i n. cp_state p = CSkippingNamePad e r i n \<Longrightarrow> 0 < r) \<Longrightarrow>
   (\<And>e r b. cp_state p = CReadingLinkTarget e r b \<Longrightarrow> 0 < r) \<Longrightarrow> cpio_inv p"
  using header_size_pos [of p] by (auto simp: cpio_inv_def split: cpio_state.split)

lemma btree_remove_count:
  "btree_remove k t = (found, t') \<Longrightarrow>
   length (concat (map snd t)) = (case found of Some es \<Rightarrow> length es | None \<Rightarrow> 0) + length (concat (map snd t'))"
  by (induction t arbitrary: found t') (auto split: if_splits prod.splits)

lemma btree_push_count:
  "length (concat (map snd (btree_push k e t))) = Suc (length (concat (map snd t)))"
  by (induction k e t rule: btree_push.induct) auto

text \<open>Resolving hard links touches nothing but the tables and the queue.\<close>

lemma apply_hardlink_policy_frame:
  assumes "apply_hardlink_policy p e i n = (p', r)"
  shows "cp_state p' = cp_state p" "cp_header_buf p' = cp_header_buf p"
    "cp_stream_pos p' = cp_stream_pos p" "cp_sub_format p' = cp_sub_format p"
  using assms by (auto simp: apply_hardlink_policy_def Let_def split: if_splits option.splits prod.splits)

lemma apply_hardlink_policy_queued:
  assumes "apply_hardlink_policy p e i n = (p', Some e')"
  shows "length (cp_pending p') + deferred_count p' = length (cp_pending p) + deferred_count p"
  using assms
  by (auto simp: apply_hardlink_policy_def deferred_count_def Let_def
      split: if_splits option.splits prod.splits dest!: btree_remove_count)

lemma apply_hardlink_policy_cong:
  "apply_hardlink_policy (p\<lparr>cp_state := s\<rparr>) e i n =
   (case apply_hardlink_policy p e i n of (p', r) \<Rightarrow> (p'\<lparr>cp_state := s\<rparr>, r))"
  by (simp add: apply_hardlink_policy_def Let_def split: option.split prod.split)

lemma emit_cases:
  assumes "emit k (apply_hardlink_policy p e i n) = (p', Inr (k', ev))"
  shows "k' = k \<and> cp_state p' = cp_state p \<and> cp_header_buf p' = cp_header_buf p \<and>
    cp_stream_pos p' = cp_stream_pos p \<and> cp_sub_format p' = cp_sub_format p \<and> ev \<noteq> EndOfArchive \<and>
    (ev = NeedData \<or> length (cp_pending p') + deferred_count p' = length (cp_pending p) + deferred_count p)"
proof (cases "apply_hardlink_policy p e i n")
  case (Pair p1 r)
  with assms show ?thesis
    using apply_hardlink_policy_frame [OF Pair] apply_hardlink_policy_queued [of p e i n]
    by (cases r) (auto simp: emit_def)
qed

lemma emit_shift: "emit (n + k) r = shift_feed n (emit k r)"
  by (cases r; cases "snd r") (auto simp: emit_def)

lemma transition_to_data_shift:
  "transition_to_data p e i n (m + k) = shift_feed m (transition_to_data p e i n k)"
  by (simp add: transition_to_data_def Let_def emit_shift)

lemma transition_to_data_facts:
  assumes "transition_to_data p e i n k = (p', Inr (k', ev))" and "cp_header_buf p = []"
  shows "k' = k" "cpio_inv p'" "cp_stream_pos p' = cp_stream_pos p"
    "ev = Entry x \<Longrightarrow> cpio_queued p' = length (cp_pending p) + deferred_count p"
proof -
  consider (link) "p' = p\<lparr>cp_state := CReadingLinkTarget (e\<lparr>ae_data_offset := cp_stream_pos p\<rparr>) (ae_size e) []\<rparr>"
      "0 < ae_size e" "k' = k" "ev = NeedData"
    | (skip) m where "emit k (apply_hardlink_policy (p\<lparr>cp_state := CSkippingData m\<rparr>)
        (e\<lparr>ae_data_offset := cp_stream_pos p\<rparr>) i n) = (p', Inr (k', ev))"
    | (header) "emit k (apply_hardlink_policy (p\<lparr>cp_state := CReadingHeader\<rparr>)
        (e\<lparr>ae_data_offset := cp_stream_pos p\<rparr>) i n) = (p', Inr (k', ev))"
    using assms(1) by (auto simp: transition_to_data_def Let_def split: if_splits)
  then have "k' = k \<and> cpio_inv p' \<and> cp_stream_pos p' = cp_stream_pos p \<and>
    (ev = Entry x \<longrightarrow> cpio_queued p' = length (cp_pending p) + deferred_count p)"
  proof cases
    case link
    with assms(2) show ?thesis by (simp add: cpio_inv_def)
  next
    case skip
    from emit_cases [OF skip] assms(2) show ?thesis
      by (auto simp: cpio_inv_def cpio_queued_def deferred_count_def)
  next
    case header
    from emit_cases [OF header] assms(2) show ?thesis
      using header_size_pos [of p'] by (auto simp: cpio_inv_def cpio_queued_def deferred_count_def)
  qed
  then show "k' = k" "cpio_inv p'" "cp_stream_pos p' = cp_stream_pos p"
    "ev = Entry x \<Longrightarrow> cpio_queued p' = length (cp_pending p) + deferred_count p" by auto
qed

text \<open>Headers.\<close>

lemma cpio_process_header_shift:
  "cpio_process_header p (n + k) = shift_feed n (cpio_process_header p k)"
  by (simp add: cpio_process_header_def Let_def split: sum.split)

lemma cpio_process_header_facts:
  assumes "cpio_process_header p k = (p', Inr (k', ev))"
  shows "k' = k \<and> cpio_inv p' \<and> cp_stream_pos p' = cp_stream_pos p \<and> ev = NeedData"
  using assms
  by (auto simp: cpio_process_header_def Let_def cpio_inv_def split: sum.splits if_splits)

lemma feed_known_header_split:
  assumes "length (cp_header_buf p) < header_size p" and "cp_state p = CReadingHeader"
    and "cp_sub_format p \<noteq> None" and "c \<le> length xs" and "ys \<noteq> []"
  shows "feed_known_header p c (xs @ ys) = feed_known_header p c xs \<or>
    (\<exists>p1. feed_known_header p c xs = (p1, Inr (length xs, NeedData)) \<and>
       feed_known_header p c (xs @ ys) = shift_feed (length xs) (cpio_feed_header p1 ys) \<and>
       cp_state p1 = CReadingHeader \<and> cp_pending p1 = cp_pending p \<and> \<not> stalls (cpio_feed_header p1 ys))"
proof (cases "header_size p \<le> length (cp_header_buf p) + (length xs - c)")
  case True
  with assms show ?thesis
    by (simp add: feed_known_header_def Let_def slice_simps)
next
  case False
  define n where "n = length xs - c"
  define p1 where "p1 = p\<lparr>cp_header_buf := cp_header_buf p @ drop c xs, cp_stream_pos := cp_stream_pos p + n\<rparr>"
  define m where "m = min (length ys) (header_size p - length (cp_header_buf p1))"
  define p2 where "p2 = p1\<lparr>cp_header_buf := cp_header_buf p1 @ take m ys, cp_stream_pos := cp_stream_pos p1 + m\<rparr>"
  define r where "r k = (if length (cp_header_buf p2) < header_size p2 then (p2, Inr (k, NeedData))
    else cpio_process_header p2 k)" for k
  have p1: "length (cp_header_buf p1) = length (cp_header_buf p) + n" "header_size p1 = header_size p"
    "cp_state p1 = CReadingHeader" "cp_sub_format p1 \<noteq> None" "cp_pending p1 = cp_pending p"
    "length (cp_header_buf p1) < header_size p"
    using assms(2,3) False by (simp_all add: p1_def n_def)
  have xs: "feed_known_header p c xs = (p1, Inr (length xs, NeedData))"
  proof -
    have a: "min (length xs - c) (header_size p - length (cp_header_buf p)) = n"
      using False by (simp add: n_def)
    have b: "c + n = length xs" using assms(4) by (simp add: n_def)
    have d: "subslice c (length xs) xs = drop c xs" by (simp add: subslice_def)
    show ?thesis
      unfolding feed_known_header_def Let_def a b d p1_def [symmetric] using p1(2,6) by simp
  qed
  have ys: "feed_known_header p1 0 ys = r m"
  proof -
    have a: "min (length ys - 0) (header_size p1 - length (cp_header_buf p1)) = m"
      using p1(2) by (simp add: m_def)
    have d: "subslice 0 (0 + m) ys = take m ys" by (simp add: subslice_def)
    show ?thesis
      unfolding feed_known_header_def Let_def a d p2_def [symmetric] r_def by simp
  qed
  have whole: "feed_known_header p c (xs @ ys) = r (length xs + m)"
  proof -
    have a: "min (length (xs @ ys) - c) (header_size p - length (cp_header_buf p)) = n + m"
      using False assms(4) by (simp add: n_def m_def p1(1))
    have b: "c + (n + m) = length xs + m" using assms(4) by (simp add: n_def)
    have d: "subslice c (length xs + m) (xs @ ys) = drop c xs @ take m ys"
      using assms(4) by (simp add: subslice_def)
    have e: "p\<lparr>cp_header_buf := cp_header_buf p @ drop c xs @ take m ys, cp_stream_pos := cp_stream_pos p + (n + m)\<rparr> = p2"
      by (simp add: p2_def p1_def)
    show ?thesis unfolding feed_known_header_def Let_def a b d e r_def by simp
  qed
  have feed: "cpio_feed_header p1 ys = r m"
    using ys p1(4) assms(5) by (auto simp: cpio_feed_header_def)
  have "0 < m" using p1(6) assms(5) by (simp add: m_def)
  then have "\<not> stalls (r m)"
    using cpio_process_header_facts [of p2 m]
    by (cases "cpio_process_header p2 m") (auto simp: r_def stalls_def)
  moreover have "r (length xs + m) = shift_feed (length xs) (r m)"
    by (simp add: r_def cpio_process_header_shift)
  ultimately show ?thesis using xs whole feed p1 by (intro disjI2 exI [of _ p1]) simp
qed

lemma feed_known_header_facts:
  assumes "length (cp_header_buf p) < header_size p" and "cp_state p = CReadingHeader"
    and "cp_sub_format p \<noteq> None" and "c \<le> length d"
    and "feed_known_header p c d = (p', Inr (k, ev))"
  shows "cpio_inv p' \<and> k \<le> length d \<and> cp_stream_pos p' + c = cp_stream_pos p + k \<and> ev = NeedData \<and> c \<le> k"
proof -
  define a where "a = min (length d - c) (header_size p - length (cp_header_buf p))"
  define p1 where "p1 = p\<lparr>cp_header_buf := cp_header_buf p @ subslice c (c + a) d,
    cp_stream_pos := cp_stream_pos p + a\<rparr>"
  have unf: "feed_known_header p c d =
      (if length (cp_header_buf p1) < header_size p1 then (p1, Inr (c + a, NeedData))
       else cpio_process_header p1 (c + a))"
    by (simp add: feed_known_header_def Let_def p1_def a_def)
  have p1: "cp_state p1 = CReadingHeader" "cp_sub_format p1 \<noteq> None" "cp_stream_pos p1 = cp_stream_pos p + a"
    using assms by (simp_all add: p1_def)
  have a: "c + a \<le> length d" using assms(4) by (simp add: a_def)
  show ?thesis
  proof (cases "length (cp_header_buf p1) < header_size p1")
    case True
    with unf assms(5) have "p' = p1" "k = c + a" "ev = NeedData" by auto
    moreover have "cpio_inv p1" using True p1 by (auto simp: cpio_inv_def)
    ultimately show ?thesis using a p1 by simp
  next
    case False
    with unf assms(5) have "cpio_process_header p1 (c + a) = (p', Inr (k, ev))" by simp
    from cpio_process_header_facts [OF this] a p1 show ?thesis by auto
  qed
qed

lemma cpio_feed_header_facts:
  assumes "cpio_inv p" and "cp_state p = CReadingHeader" and "cpio_feed_header p d = (p', Inr (k, ev))"
  shows "cpio_inv p' \<and> k \<le> length d \<and> cp_stream_pos p' = cp_stream_pos p + k \<and> ev = NeedData"
proof (cases "d = [] \<or> cp_sub_format p \<noteq> None")
  case True
  show ?thesis
  proof (cases "d = []")
    case True
    with assms show ?thesis by (simp add: cpio_feed_header_def)
  next
    case False
    with True assms have "length (cp_header_buf p) < header_size p" "feed_known_header p 0 d = (p', Inr (k, ev))"
      by (auto simp: cpio_inv_def cpio_feed_header_def)
    from feed_known_header_facts [OF this(1) assms(2) _ _ this(2)] True False show ?thesis by simp
  qed
next
  case False
  define t where "t = min (length d) (6 - length (cp_header_buf p))"
  define p1 where "p1 = p\<lparr>cp_header_buf := cp_header_buf p @ take t d, cp_stream_pos := cp_stream_pos p + t\<rparr>"
  have lt: "length (cp_header_buf p) < 6" using assms(1,2) False by (simp add: cpio_inv_def)
  have unf: "cpio_feed_header p d =
      (if length (cp_header_buf p1) < 6 then (p1, Inr (t, NeedData))
       else case detect_sub_format (subslice 0 6 (cp_header_buf p1)) of
                Inl e \<Rightarrow> (p1, Inl e)
              | Inr f \<Rightarrow> feed_known_header (p1\<lparr>cp_sub_format := Some f\<rparr>) t d)"
    unfolding p1_def t_def cpio_feed_header_def Let_def using False by simp
  show ?thesis
  proof (cases "length (cp_header_buf p1) < 6")
    case True
    with unf assms(3) have "p' = p1" "k = t" "ev = NeedData" by auto
    moreover have "cpio_inv p1" using True False assms(2) by (simp add: cpio_inv_def p1_def)
    ultimately show ?thesis by (simp add: p1_def t_def)
  next
    case full: False
    with unf assms(3) obtain f where
      f: "feed_known_header (p1\<lparr>cp_sub_format := Some f\<rparr>) t d = (p', Inr (k, ev))"
      by (auto split: sum.splits)
    have "length (cp_header_buf (p1\<lparr>cp_sub_format := Some f\<rparr>)) \<le> 6" using lt by (simp add: p1_def t_def)
    then have "length (cp_header_buf (p1\<lparr>cp_sub_format := Some f\<rparr>)) < header_size (p1\<lparr>cp_sub_format := Some f\<rparr>)"
      using header_size_pos [of "p1\<lparr>cp_sub_format := Some f\<rparr>"] by (rule le_less_trans)
    from feed_known_header_facts [OF this _ _ _ f] assms(2) show ?thesis by (auto simp: p1_def t_def)
  qed
qed

lemma cpio_feed_header_split:
  assumes "cpio_inv p" and "cp_state p = CReadingHeader" and "cp_pending p = []" and "xs \<noteq> []" and "ys \<noteq> []"
  shows "cpio_feed_header p (xs @ ys) = cpio_feed_header p xs \<or>
    (\<exists>p1. cpio_feed_header p xs = (p1, Inr (length xs, NeedData)) \<and>
       cpio_feed_header p (xs @ ys) = shift_feed (length xs) (cpio_feed_header p1 ys) \<and>
       cp_state p1 = CReadingHeader \<and> cp_pending p1 = [] \<and> \<not> stalls (cpio_feed_header p1 ys))"
proof (cases "cp_sub_format p = None")
  case False
  have "length (cp_header_buf p) < header_size p" using assms(1,2) False by (simp add: cpio_inv_def)
  note split = feed_known_header_split [OF this assms(2) False _ assms(5), of 0 xs]
  have "cpio_feed_header p zs = feed_known_header p 0 zs" if "zs \<noteq> []" for zs
    using that False by (auto simp: cpio_feed_header_def)
  with split assms(3,4) show ?thesis by simp
next
  case True
  have lt: "length (cp_header_buf p) < 6" using assms(1,2) True by (simp add: cpio_inv_def)
  show ?thesis
  proof (cases "length (cp_header_buf p) + length xs < 6")
    case False
    define t where "t = 6 - length (cp_header_buf p)"
    define p1 where "p1 = p\<lparr>cp_header_buf := cp_header_buf p @ take t xs, cp_stream_pos := cp_stream_pos p + t\<rparr>"
    have t: "t \<le> length xs" "length (cp_header_buf p1) = 6" using False lt by (simp_all add: t_def p1_def)
    have unf: "cpio_feed_header p (xs @ zs) =
        (case detect_sub_format (subslice 0 6 (cp_header_buf p1)) of
           Inl e \<Rightarrow> (p1, Inl e)
         | Inr f \<Rightarrow> feed_known_header (p1\<lparr>cp_sub_format := Some f\<rparr>) t (xs @ zs))" for zs
    proof -
      have m: "min (length (xs @ zs)) (6 - length (cp_header_buf p)) = t" using False by (simp add: t_def)
      have tk: "take t (xs @ zs) = take t xs" using t(1) by simp
      show ?thesis using True assms(4) t(2) unfolding cpio_feed_header_def Let_def m tk p1_def [symmetric]
        by simp
    qed
    show ?thesis
    proof (cases "detect_sub_format (subslice 0 6 (cp_header_buf p1))")
      case (Inl e)
      with unf [of ys] unf [of "[]"] show ?thesis by simp
    next
      case (Inr f)
      define p2 where "p2 = p1\<lparr>cp_sub_format := Some f\<rparr>"
      have "length (cp_header_buf p2) = 6" using t by (simp add: p2_def)
      then have "length (cp_header_buf p2) < header_size p2" by simp
      from feed_known_header_split [OF this _ _ _ assms(5), of t xs] t(1) assms(2,3)
        unf [of ys] unf [of "[]"] Inr
      show ?thesis by (simp add: p2_def [symmetric]) (simp add: p2_def p1_def)
    qed
  next
    case short: True
    define p1 where "p1 = p\<lparr>cp_header_buf := cp_header_buf p @ xs, cp_stream_pos := cp_stream_pos p + length xs\<rparr>"
    define t where "t = min (length ys) (6 - length (cp_header_buf p1))"
    define p2 where "p2 = p1\<lparr>cp_header_buf := cp_header_buf p1 @ take t ys, cp_stream_pos := cp_stream_pos p1 + t\<rparr>"
    have p1: "length (cp_header_buf p1) = length (cp_header_buf p) + length xs" "cp_sub_format p1 = None"
      using True by (simp_all add: p1_def)
    have pos: "0 < t" using short assms(5) by (simp add: t_def p1)
    have p2: "length (cp_header_buf p2) \<le> 6" using short by (simp add: p2_def t_def p1)
    have xs: "cpio_feed_header p xs = (p1, Inr (length xs, NeedData))"
    proof -
      have a: "min (length xs) (6 - length (cp_header_buf p)) = length xs" using short by simp
      show ?thesis
        unfolding cpio_feed_header_def Let_def a take_all [OF order_refl] p1_def [symmetric]
        using short True assms(4) by (simp add: p1)
    qed
    have ys: "cpio_feed_header p1 ys =
      (if length (cp_header_buf p2) < 6 then (p2, Inr (t, NeedData))
       else case detect_sub_format (subslice 0 6 (cp_header_buf p2)) of
                Inl e \<Rightarrow> (p2, Inl e)
              | Inr f \<Rightarrow> feed_known_header (p2\<lparr>cp_sub_format := Some f\<rparr>) t ys)"
      unfolding cpio_feed_header_def Let_def t_def [symmetric] p2_def [symmetric] using p1(2) assms(5) by simp
    have shift: "feed_known_header q (length xs + t) (xs @ ys) = shift_feed (length xs) (feed_known_header q t ys)" for q
      by (simp add: feed_known_header_def Let_def add.assoc subslice_def cpio_process_header_shift)
    have "cpio_feed_header p (xs @ ys) =
      (if length (cp_header_buf p2) < 6 then (p2, Inr (length xs + t, NeedData))
       else case detect_sub_format (subslice 0 6 (cp_header_buf p2)) of
                Inl e \<Rightarrow> (p2, Inl e)
              | Inr f \<Rightarrow> feed_known_header (p2\<lparr>cp_sub_format := Some f\<rparr>) (length xs + t) (xs @ ys))"
    proof -
      have a: "min (length (xs @ ys)) (6 - length (cp_header_buf p)) = length xs + t"
        using short by (simp add: t_def p1)
      have b: "p\<lparr>cp_header_buf := cp_header_buf p @ take (length xs + t) (xs @ ys),
          cp_stream_pos := cp_stream_pos p + (length xs + t)\<rparr> = p2"
        by (simp add: p2_def p1_def)
      show ?thesis unfolding cpio_feed_header_def Let_def a b using True assms(4) by simp
    qed
    then have whole: "cpio_feed_header p (xs @ ys) = shift_feed (length xs) (cpio_feed_header p1 ys)"
      unfolding ys by (simp add: shift split: sum.split)
    have "\<not> stalls (cpio_feed_header p1 ys)"
    proof
      assume st: "stalls (cpio_feed_header p1 ys)"
      with pos ys obtain f p3 where f: "feed_known_header (p2\<lparr>cp_sub_format := Some f\<rparr>) t ys = (p3, Inr (0, NeedData))"
        unfolding stalls_def by (cases "feed_known_header (p2\<lparr>cp_sub_format := Some (projr (detect_sub_format (subslice 0 6 (cp_header_buf p2))))\<rparr>) t ys")
          (auto split: sum.splits if_splits)
      have "length (cp_header_buf (p2\<lparr>cp_sub_format := Some f\<rparr>)) \<le> 6" using p2 by simp
      then have "length (cp_header_buf (p2\<lparr>cp_sub_format := Some f\<rparr>)) < header_size (p2\<lparr>cp_sub_format := Some f\<rparr>)"
        using header_size_pos [of "p2\<lparr>cp_sub_format := Some f\<rparr>"] by (rule le_less_trans)
      from feed_known_header_facts [OF this _ _ _ f] assms(2) pos show False
        by (auto simp: p2_def p1_def t_def)
    qed
    with xs whole assms(2,3) show ?thesis by (intro disjI2 exI [of _ p1]) (simp add: p1_def)
  qed
qed

text \<open>All states together.\<close>

lemma feed_filename_eq:
  assumes "d \<noteq> []"
  shows "feed_filename p hdr r buf d =
    (if length d < r
     then (p\<lparr>cp_state := CReadingFilename hdr (r - length d) (buf @ d), cp_stream_pos := cp_stream_pos p + length d\<rparr>,
           Inr (length d, NeedData))
     else filename_done (p\<lparr>cp_state := CReadingFilename hdr 0 (buf @ take r d), cp_stream_pos := cp_stream_pos p + r\<rparr>)
            hdr (buf @ take r d) r)"
  using assms by (simp add: feed_filename_def Let_def min_absorb2)

lemma filename_done_shift:
  "filename_done p hdr buf (n + k) = shift_feed n (filename_done p hdr buf k)"
proof -
  define queue where "queue = cp_pending p @ concat (map snd (cp_deferred_links p))"
  show ?thesis unfolding filename_done_def queue_def [symmetric]
    by (cases queue) (simp_all add: Let_def transition_to_data_shift)
qed

lemma filename_done_facts:
  assumes "cp_header_buf p = []" and "filename_done p hdr buf k = (p', Inr (k', ev))"
  shows "k' = k \<and> cpio_inv p' \<and> cp_stream_pos p' = cp_stream_pos p \<and>
    (ev = Entry x \<longrightarrow> cpio_queued p' \<le> length (cp_pending p) + deferred_count p)"
proof -
  define queue where "queue = cp_pending p @ concat (map snd (cp_deferred_links p))"
  have queue: "length queue = length (cp_pending p) + deferred_count p"
    by (simp add: queue_def deferred_count_def)
  show ?thesis
  proof (cases "trim_end 0 (from_utf8_lossy buf) = TRAILER_NAME")
    case True
    with assms queue show ?thesis
      unfolding filename_done_def queue_def [symmetric]
      by (cases queue) (auto simp: cpio_inv_def cpio_queued_def deferred_count_def)
  next
    case False
    then consider (pad) e m where "p' = p\<lparr>cp_state := CSkippingNamePad e m (inode_key hdr) (ch_nlink hdr)\<rparr>"
        "0 < m" "k' = k" "ev = NeedData"
      | (data) e where "transition_to_data p e (inode_key hdr) (ch_nlink hdr) k = (p', Inr (k', ev))"
      using assms(2) by (auto simp: filename_done_def Let_def split: if_splits)
    then show ?thesis
    proof cases
      case pad
      with assms(1) show ?thesis by (simp add: cpio_inv_def)
    next
      case data
      from transition_to_data_facts [OF data assms(1)] show ?thesis by auto
    qed
  qed
qed

lemma cpio_feed_facts:
  assumes "cpio_inv p" and "cpio_feed p d = (p', Inr (k, ev))"
  shows "cpio_inv p' \<and> k \<le> length d \<and> cp_stream_pos p' = cp_stream_pos p + k \<and>
    (d \<noteq> [] \<and> ev = Entry x \<longrightarrow> 0 < k \<or> cpio_queued p' < cpio_queued p)"
proof (cases "cp_pending p")
  case (Cons e rest)
  with assms have "p' = p\<lparr>cp_pending := rest\<rparr>" "k = 0" by (simp_all add: cpio_feed_def)
  with assms(1) Cons show ?thesis
    by (simp add: cpio_inv_pending cpio_queued_def deferred_count_def)
next
  case np: Nil
  show ?thesis
  proof (cases "d = []")
    case True
    with np assms show ?thesis
      by (auto simp: cpio_feed_def cpio_feed_header_def feed_filename_def feed_skip_name_pad_def
          feed_link_target_def feed_skip_data_def feed_skip_data_pad_def split: cpio_state.splits)
  next
    case ne: False
    show ?thesis
    proof (cases "cp_state p")
      case CReadingHeader
      with assms(2) np have "cpio_feed_header p d = (p', Inr (k, ev))" by (simp add: cpio_feed_def)
      from cpio_feed_header_facts [OF assms(1) CReadingHeader this] show ?thesis by simp
    next
      case (CReadingFilename hdr r buf)
      with assms np have hb: "cp_header_buf p = []" and ff: "feed_filename p hdr r buf d = (p', Inr (k, ev))"
        by (simp_all add: cpio_inv_def cpio_feed_def)
      show ?thesis
      proof (cases "length d < r")
        case True
        with ff hb show ?thesis by (auto simp: feed_filename_eq [OF ne] cpio_inv_def)
      next
        case False
        let ?p = "p\<lparr>cp_state := CReadingFilename hdr 0 (buf @ take r d), cp_stream_pos := cp_stream_pos p + r\<rparr>"
        have "filename_done ?p hdr (buf @ take r d) r = (p', Inr (k, ev))"
          using ff False by (simp add: feed_filename_eq [OF ne])
        from filename_done_facts [OF _ this, of x] hb False CReadingFilename show ?thesis
          by (auto simp: cpio_queued_def deferred_count_def)
      qed
    next
      case (CSkippingNamePad e r i n)
      with assms(1) have hb: "cp_header_buf p = []" and r: "0 < r" by (simp_all add: cpio_inv_def)
      show ?thesis
      proof (cases "length d < r")
        case True
        with assms np CSkippingNamePad ne hb show ?thesis
          by (auto simp: cpio_feed_def feed_skip_name_pad_def Let_def cpio_inv_def)
      next
        case False
        with assms(2) np CSkippingNamePad ne have
          "transition_to_data (p\<lparr>cp_stream_pos := cp_stream_pos p + r, cp_state := CEnd\<rparr>) e i n r = (p', Inr (k, ev))"
          by (simp add: cpio_feed_def feed_skip_name_pad_def Let_def min_absorb2)
        from transition_to_data_facts(1-3) [OF this] hb False r show ?thesis by simp
      qed
    next
      case (CReadingLinkTarget e r buf)
      with assms np ne show ?thesis
        using header_size_pos0
        by (auto simp: cpio_feed_def feed_link_target_def Let_def cpio_inv_def split: if_splits)
    qed (use assms np ne header_size_pos0 in \<open>auto simp: cpio_feed_def feed_skip_data_def
      feed_skip_data_pad_def Let_def cpio_inv_def split: if_splits\<close>)
  qed
qed

text \<open>
  The accumulating states: as long as the first part does not complete them, feeding it only
  moves it into the state.
\<close>

lemma partial_min: "length (xs :: bytes) < r \<Longrightarrow> min (length xs + n) r = length xs + min n (r - length xs)"
  by arith

lemma cpio_feed_split:
  assumes "cpio_inv p" and "xs \<noteq> []" and "ys \<noteq> []"
  shows "cpio_feed p (xs @ ys) = cpio_feed p xs \<or>
    (\<exists>p1. cpio_feed p xs = (p1, Inr (length xs, NeedData)) \<and>
       cpio_feed p (xs @ ys) = shift_feed (length xs) (cpio_feed p1 ys) \<and> \<not> stalls (cpio_feed p1 ys))"
proof (cases "cp_pending p")
  case (Cons e rest)
  then show ?thesis by (simp add: cpio_feed_def)
next
  case np: Nil
  have ne: "xs @ ys \<noteq> []" using assms(2) by simp
  show ?thesis
  proof (cases "cp_state p")
    case CReadingHeader
    from cpio_feed_header_split [OF assms(1) this np assms(2,3)] np CReadingHeader show ?thesis
      by (auto simp: cpio_feed_def)
  next
    case (CReadingFilename hdr r buf)
    show ?thesis
    proof (cases "length xs < r")
      case False
      with np CReadingFilename show ?thesis
        by (simp add: cpio_feed_def feed_filename_eq assms(2) ne)
    next
      case True
      let ?p1 = "p\<lparr>cp_state := CReadingFilename hdr (r - length xs) (buf @ xs), cp_stream_pos := cp_stream_pos p + length xs\<rparr>"
      let ?q = "p\<lparr>cp_state := CReadingFilename hdr 0 (buf @ take r (xs @ ys)), cp_stream_pos := cp_stream_pos p + r\<rparr>"
      have "cpio_feed p xs = (?p1, Inr (length xs, NeedData))"
        using True np CReadingFilename by (simp add: cpio_feed_def feed_filename_eq assms(2))
      moreover have y: "cpio_feed ?p1 ys = feed_filename ?p1 hdr (r - length xs) (buf @ xs) ys"
        using np by (simp add: cpio_feed_def)
      moreover have "cpio_feed p (xs @ ys) = feed_filename p hdr r buf (xs @ ys)"
        using np CReadingFilename by (simp add: cpio_feed_def)
      moreover have "feed_filename p hdr r buf (xs @ ys) =
          shift_feed (length xs) (feed_filename ?p1 hdr (r - length xs) (buf @ xs) ys)"
      proof (cases "length (xs @ ys) < r")
        case True
        then have "length ys < r - length xs" by simp
        with True show ?thesis by (simp add: feed_filename_eq assms(2,3) add.assoc)
      next
        case False
        have "filename_done ?q hdr (buf @ take r (xs @ ys)) r =
            shift_feed (length xs) (filename_done ?q hdr (buf @ take r (xs @ ys)) (r - length xs))"
          using True filename_done_shift [of ?q hdr "buf @ take r (xs @ ys)" "length xs" "r - length xs"] by simp
        moreover have "\<not> length ys < r - length xs" using False by simp
        ultimately show ?thesis using True False by (simp add: feed_filename_eq assms(2,3))
      qed
      moreover have "\<not> stalls (feed_filename ?p1 hdr (r - length xs) (buf @ xs) ys)"
      proof (cases "length (xs @ ys) < r")
        case True
        then have "length ys < r - length xs" by simp
        then show ?thesis using assms(3) by (simp add: feed_filename_eq assms(3) stalls_def)
      next
        case False
        have "snd (filename_done ?q hdr (buf @ take r (xs @ ys)) (r - length xs)) \<noteq> Inr (0, NeedData)"
        proof
          assume s: "snd (filename_done ?q hdr (buf @ take r (xs @ ys)) (r - length xs)) = Inr (0, NeedData)"
          have "cp_header_buf ?q = []" using assms(1) CReadingFilename by (simp add: cpio_inv_def)
          from filename_done_facts [OF this, of hdr "buf @ take r (xs @ ys)" "r - length xs"] s True
          show False by (metis prod.collapse less_irrefl zero_less_diff)
        qed
        moreover have "\<not> length ys < r - length xs" using False by simp
        ultimately show ?thesis using True by (simp add: feed_filename_eq assms(3) stalls_def)
      qed
      ultimately show ?thesis by auto
    qed
  next
    case (CSkippingNamePad e r i n)
    show ?thesis
    proof (cases "length xs < r")
      case False
      with np CSkippingNamePad assms(2) show ?thesis
        by (simp add: cpio_feed_def feed_skip_name_pad_def Let_def min_absorb2)
    next
      case True
      let ?p1 = "p\<lparr>cp_stream_pos := cp_stream_pos p + length xs, cp_state := CSkippingNamePad e (r - length xs) i n\<rparr>"
      let ?q = "p\<lparr>cp_stream_pos := cp_stream_pos p + r, cp_state := CEnd\<rparr>"
      have x: "cpio_feed p xs = (?p1, Inr (length xs, NeedData))"
        using True np CSkippingNamePad assms(2) by (simp add: cpio_feed_def feed_skip_name_pad_def Let_def)
      show ?thesis
      proof (cases "length xs + length ys < r")
        case more: True
        then have m: "min (length xs + length ys) r = length xs + length ys"
          "length ys < r - length xs" by simp_all
        from x more np CSkippingNamePad assms show ?thesis
          by (simp add: cpio_feed_def feed_skip_name_pad_def Let_def stalls_def m)
      next
        case False
        then have m: "min (length xs + length ys) r = r" "min (length ys) (r - length xs) = r - length xs" by simp_all
        have y: "cpio_feed ?p1 ys = transition_to_data ?q e i n (r - length xs)"
          using True np assms(3) by (simp add: cpio_feed_def feed_skip_name_pad_def Let_def m)
        have "cpio_feed p (xs @ ys) = transition_to_data ?q e i n r"
          using True np assms(2) CSkippingNamePad by (simp add: cpio_feed_def feed_skip_name_pad_def Let_def m)
        also have "\<dots> = shift_feed (length xs) (cpio_feed ?p1 ys)"
          unfolding y using True transition_to_data_shift [of ?q e i n "length xs" "r - length xs"] by simp
        finally have "cpio_feed p (xs @ ys) = shift_feed (length xs) (cpio_feed ?p1 ys)" .
        moreover have "\<not> stalls (cpio_feed ?p1 ys)"
        proof
          assume "stalls (cpio_feed ?p1 ys)"
          then have "\<exists>p3. transition_to_data ?q e i n (r - length xs) = (p3, Inr (0, NeedData))"
            unfolding y stalls_def by (metis prod.collapse)
          then obtain p3 where "transition_to_data ?q e i n (r - length xs) = (p3, Inr (0, NeedData))" by blast
          from transition_to_data_facts(1) [OF this] assms(1) CSkippingNamePad True show False
            by (simp add: cpio_inv_def)
        qed
        ultimately show ?thesis using x by blast
      qed
    qed
  next
    case (CReadingLinkTarget e r buf)
    show ?thesis
    proof (cases "length xs < r")
      case False
      with np CReadingLinkTarget assms(2) show ?thesis
        by (simp add: cpio_feed_def feed_link_target_def Let_def min_absorb2)
    next
      case True
      with np CReadingLinkTarget assms show ?thesis
        by (simp add: cpio_feed_def feed_link_target_def Let_def stalls_def partial_min uses_alignment_def)
    qed
  next
    case (CSkippingData r)
    with np assms show ?thesis
      by (cases "length xs < r")
         (simp_all add: cpio_feed_def feed_skip_data_def Let_def stalls_def min_absorb2 partial_min)
  next
    case (CSkippingDataPad r)
    with np assms show ?thesis
      by (cases "length xs < r")
         (simp_all add: cpio_feed_def feed_skip_data_pad_def Let_def stalls_def min_absorb2 partial_min)
  next
    case CEnd
    with np show ?thesis by (simp add: cpio_feed_def)
  qed
qed

interpretation cpio: incremental_parser cpio_feed cpio_inv cp_stream_pos cpio_queued
proof unfold_locales
  fix p and xs ys :: bytes
  assume "cpio_inv p" "xs \<noteq> []" "ys \<noteq> []"
  then show "cpio_feed p (xs @ ys) = cpio_feed p xs \<or>
    (\<exists>p1. cpio_feed p xs = (p1, Inr (length xs, NeedData)) \<and>
       cpio_feed p (xs @ ys) = shift_feed (length xs) (cpio_feed p1 ys) \<and> \<not> stalls (cpio_feed p1 ys))"
    by (rule cpio_feed_split)
qed (use cpio_feed_facts in blast)+

end
