(* ===== verification/ArParser.thy ===== *)
theory ArParser
  imports Archive
begin

text \<open>
  \<^verbatim>\<open>src/ar/header.rs\<close> and \<^verbatim>\<open>src/ar/parser.rs\<close>: the incremental parser of Unix ar archives, with the
  GNU long-name table and the BSD inline names. The interpretation of the parser interface at the
  end gives independence of chunking.
\<close>

section \<open>Member headers\<close>

definition AR_HEADER_SIZE :: nat where
  "AR_HEADER_SIZE = 60"

definition FMAG :: bytes where
  "FMAG = [96, 10]"

record ar_header =
  ah_name :: bytes
  ah_mtime :: nat
  ah_uid :: nat
  ah_gid :: nat
  ah_mode :: nat
  ah_size :: nat

definition parse_field :: "bytes \<Rightarrow> nat \<Rightarrow> nat result" where
  "parse_field data radix =
     (if \<not> utf8_valid data then Inl (InvalidArHeader ''invalid UTF-8 in {} field'')
      else let s = trim_end 32 data in
           if s = [] then Inr 0
           else ok_or (from_str_radix radix s) (InvalidArHeader ''invalid {} field: {:?}''))"

definition ar_parse_header :: "bytes \<Rightarrow> ar_header result" where
  "ar_parse_header data =
     (if length data < AR_HEADER_SIZE then Inl (InvalidArHeader ''header too short'')
      else if subslice 58 60 data \<noteq> FMAG
      then Inl (InvalidArHeader ''bad header terminator: {:?}'')
      else
        and_then (parse_field (subslice 16 28 data) 10) (\<lambda>mtime.
        and_then (parse_field (subslice 28 34 data) 10) (\<lambda>uid.
        and_then (parse_field (subslice 34 40 data) 10) (\<lambda>gid.
        and_then (parse_field (subslice 40 48 data) 8) (\<lambda>mode.
        and_then (parse_field (subslice 48 58 data) 10) (\<lambda>size.
        Inr \<lparr>ah_name = trim_end 32 (take 16 data), ah_mtime = mtime, ah_uid = uid, ah_gid = gid,
             ah_mode = wrap32 mode, ah_size = size\<rparr>))))))"

text \<open>\<^verbatim>\<open>u8::is_ascii_digit\<close>.\<close>

definition is_ascii_digit :: "byte \<Rightarrow> bool" where
  "is_ascii_digit b \<longleftrightarrow> 48 \<le> b \<and> b \<le> 57"

definition parse_name_number :: "bytes \<Rightarrow> nat option" where
  "parse_name_number digits =
     (if digits = [] \<or> \<not> list_all is_ascii_digit digits then None
      else from_str_radix 10 digits)"

section \<open>State\<close>

definition MAX_NAME_SIZE :: nat where
  "MAX_NAME_SIZE = 2 ^ 16"

definition MAX_NAME_TABLE_SIZE :: nat where
  "MAX_NAME_TABLE_SIZE = 64 * 2 ^ 20"

datatype ar_state =
    AReadingMagic
  | AReadingHeader
  | AReadingNameTable (table_remaining: nat) (table_pad: nat) (table_buf: bytes)
  | AReadingBsdName (bsd_header: ar_header) (bsd_remaining: nat) (bsd_buf: bytes)
  | ASkippingData (askip_remaining: nat) (askip_pad: nat)

datatype ar_member_kind =
    Skip
  | NameTable
  | BsdName nat
  | Named bytes

record ar_parser =
  ap_state :: ar_state
  ap_header_buf :: bytes
  ap_stream_pos :: nat
  ap_name_table :: "bytes option"

definition ar_new :: ar_parser where
  "ar_new = \<lparr>ap_state = AReadingMagic, ap_header_buf = [], ap_stream_pos = 0, ap_name_table = None\<rparr>"

type_synonym ar_step = "ar_parser \<times> (nat \<times> archive_event) result"

section \<open>Feeding\<close>

definition fill_header_buf :: "ar_parser \<Rightarrow> bytes \<Rightarrow> nat \<Rightarrow> ar_parser \<times> nat \<times> bool" where
  "fill_header_buf p data sz =
     (let tk = min (length data) (sz - length (ap_header_buf p));
          p = p\<lparr>ap_header_buf := ap_header_buf p @ take tk data,
                ap_stream_pos := ap_stream_pos p + tk\<rparr>
      in (p, tk, length (ap_header_buf p) = sz))"

definition feed_magic :: "ar_parser \<Rightarrow> bytes \<Rightarrow> ar_step" where
  "feed_magic p data =
     (let (p, tk, full) = fill_header_buf p data (length AR_MAGIC) in
      if \<not> full then (p, Inr (tk, NeedData))
      else if ap_header_buf p = THIN_MAGIC
      then (p, Inl (InvalidArHeader
             ''thin archives are not supported (member data is stored outside the archive)''))
      else if ap_header_buf p \<noteq> AR_MAGIC
      then (p, Inl (InvalidArHeader ''unrecognized ar magic: {:?}''))
      else (p\<lparr>ap_header_buf := [], ap_state := AReadingHeader\<rparr>, Inr (tk, NeedData)))"

definition lookup_long_name :: "ar_parser \<Rightarrow> nat \<Rightarrow> bytes result" where
  "lookup_long_name p offset =
     (case ap_name_table p of
        None \<Rightarrow> Inl (InvalidArHeader ''long name reference without a long-name table'')
      | Some table \<Rightarrow>
          if length table < offset then Inl (InvalidArHeader ''long name offset {} out of range'')
          else
            let name = takeWhile (\<lambda>b. \<not> (b = 10 \<or> b = 0)) (drop offset table);
                name = strip_one_end (of_char (CHR ''/'')) name
            in if name = [] then Inl (InvalidArHeader ''empty member name'')
               else Inr (from_utf8_lossy name))"

text \<open>\<^verbatim>\<open>strip_prefix\<close>.\<close>

definition strip_prefix :: "bytes \<Rightarrow> bytes \<Rightarrow> bytes option" where
  "strip_prefix pre s = (if take (length pre) s = pre then Some (drop (length pre) s) else None)"

definition ar_classify :: "ar_parser \<Rightarrow> ar_header \<Rightarrow> ar_member_kind result" where
  "ar_classify p hdr =
     (let name = ah_name hdr in
      if name = ascii ''//'' then Inr NameTable
      else case strip_prefix (ascii ''/'') name of
        Some rest \<Rightarrow>
          (case parse_name_number rest of
             Some offset \<Rightarrow> and_then (lookup_long_name p offset) (\<lambda>n. Inr (Named n))
           | None \<Rightarrow> Inr Skip)
      | None \<Rightarrow>
          (case strip_prefix (ascii ''#1/'') name of
             Some rest \<Rightarrow>
               (case parse_name_number rest of
                  Some len \<Rightarrow>
                    if len \<le> MAX_NAME_SIZE \<and> len \<le> ah_size hdr then Inr (BsdName len)
                    else Inl (InvalidArHeader
                           ''invalid BSD name length {:?} for member of size {}'')
                | None \<Rightarrow> Inl (InvalidArHeader
                            ''invalid BSD name length {:?} for member of size {}''))
           | None \<Rightarrow>
               if strip_prefix (ascii ''__.SYMDEF'') name \<noteq> None then Inr Skip
               else
                 let name = strip_one_end (of_char (CHR ''/'')) name in
                 if name = [] then Inl (InvalidArHeader ''empty member name'')
                 else Inr (Named (from_utf8_lossy name))))"

definition ar_entry :: "ar_parser \<Rightarrow> bytes \<Rightarrow> ar_header \<Rightarrow> nat \<Rightarrow> archive_entry" where
  "ar_entry p path hdr sz =
     \<lparr>ae_path = path, ae_size = sz, ae_type = Regular, ae_mode = ah_mode hdr mod 4096,
      ae_uid = ah_uid hdr, ae_gid = ah_gid hdr, ae_mtime = ah_mtime hdr, ae_link_target = None,
      ae_data_offset = ap_stream_pos p\<rparr>"

definition ar_skip :: "ar_parser \<Rightarrow> nat \<Rightarrow> nat \<Rightarrow> ar_parser" where
  "ar_skip p data pad =
     (let remaining = data + pad in
      p\<lparr>ap_state := (if remaining = 0 then AReadingHeader else ASkippingData remaining pad)\<rparr>)"

text \<open>The part of \<^verbatim>\<open>feed_header\<close> after the header buffer is full.\<close>

definition ar_member_header :: "ar_parser \<Rightarrow> nat \<Rightarrow> ar_step" where
  "ar_member_header p tk =
     (case ar_parse_header (ap_header_buf p) of
        Inl e \<Rightarrow> (p, Inl e)
      | Inr hdr \<Rightarrow>
          let p = p\<lparr>ap_header_buf := []\<rparr>; pad = ah_size hdr mod 2 in
          (case ar_classify p hdr of
             Inl e \<Rightarrow> (p, Inl e)
           | Inr Skip \<Rightarrow> (ar_skip p (ah_size hdr) pad, Inr (tk, NeedData))
           | Inr NameTable \<Rightarrow>
               if ah_size hdr > MAX_NAME_TABLE_SIZE
               then (p, Inl (InvalidArHeader ''implausible long-name table size {}''))
               else (p\<lparr>ap_state := AReadingNameTable (ah_size hdr) pad []\<rparr>, Inr (tk, NeedData))
           | Inr (BsdName len) \<Rightarrow> (p\<lparr>ap_state := AReadingBsdName hdr len []\<rparr>, Inr (tk, NeedData))
           | Inr (Named path) \<Rightarrow>
               (ar_skip p (ah_size hdr) pad, Inr (tk, Entry (ar_entry p path hdr (ah_size hdr))))))"

definition ar_feed_header :: "ar_parser \<Rightarrow> bytes \<Rightarrow> ar_step" where
  "ar_feed_header p data =
     (let (p, tk, full) = fill_header_buf p data AR_HEADER_SIZE in
      if \<not> full then (p, Inr (tk, NeedData)) else ar_member_header p tk)"

definition feed_name_table :: "ar_parser \<Rightarrow> nat \<Rightarrow> nat \<Rightarrow> bytes \<Rightarrow> bytes \<Rightarrow> ar_step" where
  "feed_name_table p remaining pad buf data =
     (let tk = min (length data) remaining;
          buf = buf @ take tk data;
          remaining = remaining - tk;
          p = p\<lparr>ap_stream_pos := ap_stream_pos p + tk\<rparr>
      in if remaining > 0
         then (p\<lparr>ap_state := AReadingNameTable remaining pad buf\<rparr>, Inr (tk, NeedData))
         else (ar_skip (p\<lparr>ap_name_table := Some buf\<rparr>) 0 pad, Inr (tk, NeedData)))"

definition feed_bsd_name :: "ar_parser \<Rightarrow> ar_header \<Rightarrow> nat \<Rightarrow> bytes \<Rightarrow> bytes \<Rightarrow> ar_step" where
  "feed_bsd_name p hdr remaining buf data =
     (let tk = min (length data) remaining;
          buf = buf @ take tk data;
          remaining = remaining - tk;
          p = p\<lparr>ap_stream_pos := ap_stream_pos p + tk\<rparr>
      in if remaining > 0
         then (p\<lparr>ap_state := AReadingBsdName hdr remaining buf\<rparr>, Inr (tk, NeedData))
         else
           let name = trim_end 0 buf;
               data_size = ah_size hdr - length buf;
               pad = ah_size hdr mod 2;
               p = p\<lparr>ap_state := AReadingHeader\<rparr>
           in if strip_prefix (ascii ''__.SYMDEF'') name \<noteq> None
              then (ar_skip p data_size pad, Inr (tk, NeedData))
              else if name = [] then (p, Inl (InvalidArHeader ''empty member name''))
              else (ar_skip p data_size pad,
                    Inr (tk, Entry (ar_entry p (from_utf8_lossy name) hdr data_size))))"

definition ar_feed_skip :: "ar_parser \<Rightarrow> nat \<Rightarrow> nat \<Rightarrow> bytes \<Rightarrow> ar_step" where
  "ar_feed_skip p remaining pad data =
     (let skip = min (length data) remaining;
          remaining = remaining - skip;
          pad = min pad remaining
      in (p\<lparr>ap_stream_pos := ap_stream_pos p + skip,
            ap_state := (if remaining = 0 then AReadingHeader else ASkippingData remaining pad)\<rparr>,
          Inr (skip, NeedData)))"

text \<open>\<^verbatim>\<open>ArchiveParser::feed\<close> for ar.\<close>

definition ar_feed :: "ar_parser feeder" where
  "ar_feed p data =
     (if data = [] then (p, Inr (0, NeedData))
      else case ap_state p of
        AReadingMagic \<Rightarrow> feed_magic p data
      | AReadingHeader \<Rightarrow> ar_feed_header p data
      | AReadingNameTable remaining pad buf \<Rightarrow> feed_name_table p remaining pad buf data
      | AReadingBsdName hdr remaining buf \<Rightarrow> feed_bsd_name p hdr remaining buf data
      | ASkippingData remaining pad \<Rightarrow> ar_feed_skip p remaining pad data)"

text \<open>\<^verbatim>\<open>ArchiveParser::end_of_stream\<close> for ar.\<close>

definition ar_end_of_stream :: "ar_parser \<Rightarrow> unit result" where
  "ar_end_of_stream p =
     (case ap_state p of
        AReadingHeader \<Rightarrow>
          if ap_header_buf p = [] then Inr ()
          else Inl (TruncatedArchive ''stream ended inside a member header'')
      | ASkippingData remaining pad \<Rightarrow>
          if remaining \<le> pad then Inr ()
          else Inl (TruncatedArchive ''stream ended {} bytes before the end of a member'')
      | AReadingMagic \<Rightarrow> Inl (TruncatedArchive ''stream ended inside the global header'')
      | AReadingNameTable _ _ _ \<Rightarrow> Inl (TruncatedArchive ''stream ended inside the long-name table'')
      | AReadingBsdName _ _ _ \<Rightarrow> Inl (TruncatedArchive ''stream ended inside a member name''))"

section \<open>Splitting a chunk\<close>

definition ar_inv :: "ar_parser \<Rightarrow> bool" where
  "ar_inv p \<longleftrightarrow>
     (case ap_state p of
        AReadingMagic \<Rightarrow> length (ap_header_buf p) < length AR_MAGIC
      | AReadingHeader \<Rightarrow> length (ap_header_buf p) < AR_HEADER_SIZE
      | AReadingBsdName hdr remaining buf \<Rightarrow> ap_header_buf p = [] \<and> (remaining = 0 \<longrightarrow> buf = [])
      | _ \<Rightarrow> ap_header_buf p = [])"

lemma ar_inv_new: "ar_inv ar_new"
  by (simp add: ar_inv_def ar_new_def AR_MAGIC_def)

lemma fill_header_buf_split:
  assumes "length (ap_header_buf p) < sz" and "xs \<noteq> []" and "ys \<noteq> []"
  shows "fill_header_buf p (xs @ ys) sz = fill_header_buf p xs sz \<or>
    (\<exists>p1. fill_header_buf p xs sz = (p1, length xs, False) \<and> ap_state p1 = ap_state p \<and>
       (\<exists>p2 k full. fill_header_buf p1 ys sz = (p2, k, full) \<and> 0 < k \<and>
          fill_header_buf p (xs @ ys) sz = (p2, length xs + k, full)))"
proof (cases "sz \<le> length (ap_header_buf p) + length xs")
  case True
  then show ?thesis by (simp add: fill_header_buf_def Let_def)
next
  case False
  let ?p1 = "p\<lparr>ap_header_buf := ap_header_buf p @ xs, ap_stream_pos := ap_stream_pos p + length xs\<rparr>"
  have "fill_header_buf p xs sz = (?p1, length xs, False)"
    using False by (simp add: fill_header_buf_def Let_def)
  moreover have "min (length xs + length ys) (sz - length (ap_header_buf p)) =
      length xs + min (length ys) (sz - (length (ap_header_buf p) + length xs))"
    using False by arith
  with assms False have "\<exists>p2 k full. fill_header_buf ?p1 ys sz = (p2, k, full) \<and> 0 < k \<and>
          fill_header_buf p (xs @ ys) sz = (p2, length xs + k, full)"
    by (simp add: fill_header_buf_def Let_def)
  ultimately show ?thesis by (intro disjI2 exI [of _ ?p1]) simp
qed

lemma fill_header_buf_facts:
  assumes "fill_header_buf p d sz = (p1, k, full)"
  shows "k \<le> length d" "ap_stream_pos p1 = ap_stream_pos p + k" "ap_state p1 = ap_state p"
    "length (ap_header_buf p) \<le> sz \<Longrightarrow> length (ap_header_buf p1) = length (ap_header_buf p) + k"
    "full \<longleftrightarrow> length (ap_header_buf p1) = sz"
    "length (ap_header_buf p) \<le> sz \<Longrightarrow> length (ap_header_buf p1) \<le> sz"
    "ap_name_table p1 = ap_name_table p"
    "length (ap_header_buf p) < sz \<Longrightarrow> d \<noteq> [] \<Longrightarrow> 0 < k"
  using assms by (auto simp: fill_header_buf_def Let_def)

lemma ar_skip_frame [simp]:
  "ap_header_buf (ar_skip p n m) = ap_header_buf p"
  "ap_stream_pos (ar_skip p n m) = ap_stream_pos p"
  by (simp_all add: ar_skip_def Let_def)

lemma ar_skip_inv [simp]: "ap_header_buf p = [] \<Longrightarrow> ar_inv (ar_skip p n m)"
  by (simp add: ar_skip_def ar_inv_def Let_def AR_HEADER_SIZE_def)

lemma ar_member_header_shift: "ar_member_header p (n + k) = shift_feed n (ar_member_header p k)"
  by (simp add: ar_member_header_def Let_def split: sum.split ar_member_kind.split)

lemma ar_member_header_facts:
  assumes "ar_member_header p k = (p', Inr (k', ev))"
  shows "k' = k \<and> ar_inv p' \<and> ap_stream_pos p' = ap_stream_pos p"
  using assms
  by (auto simp: ar_member_header_def Let_def split: sum.splits ar_member_kind.splits if_splits)
     (simp_all add: ar_inv_def)

text \<open>The states that accumulate: the name table and an inline name.\<close>

lemma feed_name_table_facts:
  assumes "ap_header_buf p = []" and "feed_name_table p r pad buf d = (p', Inr (k, ev))"
  shows "ar_inv p' \<and> k \<le> length d \<and> ap_stream_pos p' = ap_stream_pos p + k \<and> ev = NeedData"
  using assms by (auto simp: feed_name_table_def Let_def split: if_splits) (simp_all add: ar_inv_def)

lemma feed_bsd_name_facts:
  assumes "ap_header_buf p = []" and "r = 0 \<Longrightarrow> buf = []" and "d \<noteq> []"
    and "feed_bsd_name p hdr r buf d = (p', Inr (k, ev))"
  shows "ar_inv p' \<and> k \<le> length d \<and> ap_stream_pos p' = ap_stream_pos p + k \<and> 0 < k"
  using assms
  by (auto simp: feed_bsd_name_def Let_def strip_prefix_def split: if_splits)
     (simp_all add: ar_inv_def, (cases "k = 0"; simp)+)

lemma ar_feed_facts:
  assumes "ar_inv p" and "ar_feed p d = (p', Inr (k, ev))"
  shows "ar_inv p' \<and> k \<le> length d \<and> ap_stream_pos p' = ap_stream_pos p + k \<and>
    (d \<noteq> [] \<and> ev = Entry e \<longrightarrow> 0 < k)"
proof (cases "d = []")
  case True
  with assms show ?thesis by (simp add: ar_feed_def)
next
  case ne: False
  show ?thesis
  proof (cases "ap_state p")
    case AReadingMagic
    obtain p1 n full where f: "fill_header_buf p d (length AR_MAGIC) = (p1, n, full)" by (metis prod_cases3)
    from assms AReadingMagic have lt: "length (ap_header_buf p) < length AR_MAGIC" by (simp add: ar_inv_def)
    note facts = fill_header_buf_facts [OF f]
    from assms(2) ne AReadingMagic f facts lt show ?thesis
      by (auto simp: ar_feed_def feed_magic_def ar_inv_def AR_HEADER_SIZE_def split: if_splits)
  next
    case AReadingHeader
    obtain p1 n full where f: "fill_header_buf p d AR_HEADER_SIZE = (p1, n, full)" by (metis prod_cases3)
    from assms AReadingHeader have lt: "length (ap_header_buf p) < AR_HEADER_SIZE" by (simp add: ar_inv_def)
    note facts = fill_header_buf_facts [OF f]
    show ?thesis
    proof (cases full)
      case True
      with assms(2) ne AReadingHeader f have "ar_member_header p1 n = (p', Inr (k, ev))"
        by (simp add: ar_feed_def ar_feed_header_def)
      from ar_member_header_facts [OF this] facts lt ne show ?thesis by simp
    next
      case False
      with assms(2) ne AReadingHeader f facts lt show ?thesis
        by (auto simp: ar_feed_def ar_feed_header_def ar_inv_def)
    qed
  next
    case (AReadingNameTable r pad buf)
    with assms ne feed_name_table_facts [of p r pad buf d p' k ev] show ?thesis
      by (simp add: ar_feed_def ar_inv_def)
  next
    case (AReadingBsdName hdr r buf)
    with assms ne feed_bsd_name_facts [of p r buf d hdr p' k ev] show ?thesis
      by (simp add: ar_feed_def ar_inv_def)
  next
    case (ASkippingData r pad)
    with assms ne show ?thesis
      by (auto simp: ar_feed_def ar_feed_skip_def Let_def ar_inv_def AR_HEADER_SIZE_def split: if_splits)
  qed
qed

lemma ar_feed_split:
  assumes "ar_inv p" and "xs \<noteq> []" and "ys \<noteq> []"
  shows "ar_feed p (xs @ ys) = ar_feed p xs \<or>
    (\<exists>p1. ar_feed p xs = (p1, Inr (length xs, NeedData)) \<and>
       ar_feed p (xs @ ys) = shift_feed (length xs) (ar_feed p1 ys) \<and> \<not> stalls (ar_feed p1 ys))"
proof (cases "ap_state p")
  case AReadingMagic
  then have "length (ap_header_buf p) < length AR_MAGIC" using assms(1) by (simp add: ar_inv_def)
  from fill_header_buf_split [OF this assms(2,3)] AReadingMagic assms(2,3) show ?thesis
    by (auto simp: ar_feed_def feed_magic_def stalls_def split: if_split_asm)
next
  case AReadingHeader
  then have "length (ap_header_buf p) < AR_HEADER_SIZE" using assms(1) by (simp add: ar_inv_def)
  from fill_header_buf_split [OF this assms(2,3)] show ?thesis
  proof
    assume "fill_header_buf p (xs @ ys) AR_HEADER_SIZE = fill_header_buf p xs AR_HEADER_SIZE"
    with AReadingHeader assms show ?thesis by (simp add: ar_feed_def ar_feed_header_def)
  next
    assume "\<exists>p1. fill_header_buf p xs AR_HEADER_SIZE = (p1, length xs, False) \<and> ap_state p1 = ap_state p \<and>
      (\<exists>p2 k full. fill_header_buf p1 ys AR_HEADER_SIZE = (p2, k, full) \<and> 0 < k \<and>
         fill_header_buf p (xs @ ys) AR_HEADER_SIZE = (p2, length xs + k, full))"
    then obtain p1 p2 k full where s: "fill_header_buf p xs AR_HEADER_SIZE = (p1, length xs, False)"
      "ap_state p1 = ap_state p" "fill_header_buf p1 ys AR_HEADER_SIZE = (p2, k, full)" "0 < k"
      "fill_header_buf p (xs @ ys) AR_HEADER_SIZE = (p2, length xs + k, full)" by blast
    have eq: "ar_feed p1 ys = (if full then ar_member_header p2 k else (p2, Inr (k, NeedData)))"
      using s AReadingHeader assms(3) by (simp add: ar_feed_def ar_feed_header_def)
    have "\<not> stalls (ar_feed p1 ys)"
      using s(4) ar_member_header_facts [of p2 k]
      by (cases "ar_member_header p2 k") (auto simp: eq stalls_def)
    moreover have "ar_feed p xs = (p1, Inr (length xs, NeedData))"
      using s AReadingHeader assms(2) by (simp add: ar_feed_def ar_feed_header_def)
    moreover have "ar_feed p (xs @ ys) = shift_feed (length xs) (ar_feed p1 ys)"
      using s AReadingHeader assms(2)
      by (simp add: eq) (simp add: ar_feed_def ar_feed_header_def ar_member_header_shift)
    ultimately show ?thesis by blast
  qed
next
  case (AReadingNameTable r pad buf)
  show ?thesis
  proof (cases "r \<le> length xs")
    case True
    with AReadingNameTable assms show ?thesis by (simp add: ar_feed_def feed_name_table_def Let_def)
  next
    case False
    then have "min (length xs + length ys) r = length xs + min (length ys) (r - length xs)" by arith
    with False AReadingNameTable assms show ?thesis
      by (simp add: ar_feed_def feed_name_table_def ar_skip_def Let_def stalls_def)
  qed
next
  case (AReadingBsdName hdr r buf)
  show ?thesis
  proof (cases "r \<le> length xs")
    case True
    with AReadingBsdName assms show ?thesis by (simp add: ar_feed_def feed_bsd_name_def Let_def)
  next
    case False
    then have "min (length xs + length ys) r = length xs + min (length ys) (r - length xs)" by arith
    with False AReadingBsdName assms show ?thesis
      by (simp add: ar_feed_def feed_bsd_name_def ar_skip_def ar_entry_def Let_def stalls_def)
  qed
next
  case (ASkippingData r pad)
  show ?thesis
  proof (cases "r \<le> length xs")
    case True
    with ASkippingData assms show ?thesis by (simp add: ar_feed_def ar_feed_skip_def Let_def)
  next
    case False
    then have "min (length xs + length ys) r = length xs + min (length ys) (r - length xs)" by arith
    with False ASkippingData assms show ?thesis
      by (simp add: ar_feed_def ar_feed_skip_def Let_def stalls_def)
  qed
qed

interpretation ar: incremental_parser ar_feed ar_inv ap_stream_pos "\<lambda>_. 0"
proof unfold_locales
  fix p and xs ys :: bytes
  assume "ar_inv p" "xs \<noteq> []" "ys \<noteq> []"
  then show "ar_feed p (xs @ ys) = ar_feed p xs \<or>
    (\<exists>p1. ar_feed p xs = (p1, Inr (length xs, NeedData)) \<and>
       ar_feed p (xs @ ys) = shift_feed (length xs) (ar_feed p1 ys) \<and> \<not> stalls (ar_feed p1 ys))"
    by (rule ar_feed_split)
qed (use ar_feed_facts in blast)+

end
