(* ===== verification/Engine.thy ===== *)
theory Engine
  imports ArchiveIndex Indexer TarParser CpioParser ArParser
begin

text \<open>
  \<^verbatim>\<open>src/engine/state_machine.rs\<close>: the indexing engine, which feeds what a stream indexer decodes
  through format detection to one of the three archive parsers, and the read engine.
\<close>

section \<open>Parsers\<close>

text \<open>\<^verbatim>\<open>Box<dyn ArchiveParser>\<close>: the parsers \<^verbatim>\<open>create_archive_parser\<close> makes.\<close>

datatype archive_parser = PTar tar_parser | PCpio cpio_parser | PAr ar_parser

definition create_archive_parser :: "archive_format \<Rightarrow> archive_parser" where
  "create_archive_parser f = (case f of Tar \<Rightarrow> PTar tar_new | Cpio \<Rightarrow> PCpio cpio_new | Ar \<Rightarrow> PAr ar_new)"

definition parser_feed :: "archive_parser feeder" where
  "parser_feed p d =
     (case p of
        PTar t \<Rightarrow> map_prod PTar id (tar_feed t d)
      | PCpio c \<Rightarrow> map_prod PCpio id (cpio_feed c d)
      | PAr a \<Rightarrow> map_prod PAr id (ar_feed a d))"

definition parser_end_of_stream :: "archive_parser \<Rightarrow> unit result" where
  "parser_end_of_stream p =
     (case p of PTar t \<Rightarrow> tar_end_of_stream t | PCpio c \<Rightarrow> cpio_end_of_stream c | PAr a \<Rightarrow> ar_end_of_stream a)"

section \<open>The indexing engine\<close>

record ('d, 's) indexing_engine =
  ie_indexer :: "('d, 's) stream_indexer"
  ie_parser :: "archive_parser option"
  ie_builder :: index_builder
  ie_detect_buf :: bytes
  ie_done :: bool

definition unwrap_or :: "'a option \<Rightarrow> 'a \<Rightarrow> 'a" where
  "unwrap_or x d = (case x of None \<Rightarrow> d | Some v \<Rightarrow> v)"

definition engine_with_strategy ::
  "(codec_spec \<Rightarrow> 'd result) \<Rightarrow> compression_format \<Rightarrow> archive_format option \<Rightarrow> 's \<Rightarrow> nat \<Rightarrow> ('d, 's) indexing_engine result" where
  "engine_with_strategy create compression archive_format strat archive_size =
     (let compressed_len = (if archive_size = 0 then None else Some archive_size) in
      and_then (indexer_new create (codec_of_format compression) strat compressed_len) (\<lambda>indexer.
        Inr \<lparr>ie_indexer = indexer_emit_output indexer True,
             ie_parser = map_option create_archive_parser archive_format,
             ie_builder = builder_new compression (unwrap_or archive_format Tar) archive_size,
             ie_detect_buf = [], ie_done = False\<rparr>))"

definition engine_new ::
  "(codec_spec \<Rightarrow> 'd result) \<Rightarrow> compression_format \<Rightarrow> archive_format option \<Rightarrow> nat \<Rightarrow>
   ('d, fixed_interval) indexing_engine result" where
  "engine_new create compression archive_format archive_size =
     engine_with_strategy create compression archive_format
       (fixed_interval_new (default_interval_for_format compression)) archive_size"

text \<open>\<^verbatim>\<open>feed_to_parser\<close> with the parser it works on, which is put (back) into the engine.\<close>

definition engine_feed ::
  "('d, 's) indexing_engine \<Rightarrow> archive_parser \<Rightarrow> bytes \<Rightarrow> (('d, 's) indexing_engine \<times> unit result) option" where
  "engine_feed e p data =
     (case feed_to_parser parser_feed add_entry p (ie_builder e) data 0 of
        None \<Rightarrow> None
      | Some (p', b', r) \<Rightarrow>
          (case r of
             Inl err \<Rightarrow> Some (e\<lparr>ie_parser := Some p', ie_builder := b'\<rparr>, Inl err)
           | Inr (_, fin) \<Rightarrow>
               Some (e\<lparr>ie_parser := Some p', ie_builder := b', ie_done := (ie_done e \<or> fin)\<rparr>, Inr ())))"

text \<open>The detected format: a new parser is fed all the bytes held back so far.\<close>

definition engine_replay ::
  "('d, 's) indexing_engine \<Rightarrow> archive_format \<Rightarrow> (('d, 's) indexing_engine \<times> unit result) option" where
  "engine_replay e af =
     engine_feed (e\<lparr>ie_builder := set_archive_format (ie_builder e) af, ie_detect_buf := []\<rparr>)
       (create_archive_parser af) (ie_detect_buf e)"

partial_function (option) engine_drain ::
  "('d, 's) indexing_engine \<Rightarrow> (('d, 's) indexing_engine \<times> unit result) option" where
  "engine_drain e =
     (case indexer_read_output (ie_indexer e) BUF_SIZE of
        (ix, data) \<Rightarrow>
          let e = e\<lparr>ie_indexer := ix\<rparr> in
          if data = [] then Some (e, Inr ())
          else
            (case ie_parser e of
               None \<Rightarrow>
                 let e = e\<lparr>ie_detect_buf := ie_detect_buf e @ data\<rparr> in
                 (case detect_archive_format (ie_detect_buf e) of
                    None \<Rightarrow> engine_drain e
                  | Some af \<Rightarrow>
                      (case engine_replay e af of
                         None \<Rightarrow> None
                       | Some (e, r) \<Rightarrow>
                           (case r of
                              Inl err \<Rightarrow> Some (e, Inl err)
                            | Inr _ \<Rightarrow> if ie_done e then Some (e, Inr ()) else engine_drain e)))
             | Some p \<Rightarrow>
                 if ie_done e then engine_drain e
                 else
                   (case engine_feed e p data of
                      None \<Rightarrow> None
                    | Some (e, r) \<Rightarrow>
                        (case r of Inl err \<Rightarrow> Some (e, Inl err) | Inr _ \<Rightarrow> engine_drain e))))"

text \<open>\<^verbatim>\<open>end_of_stream\<close>: what is too short for detection can only be tar.\<close>

definition check_end :: "('d, 's) indexing_engine \<Rightarrow> unit result" where
  "check_end e = (case ie_parser e of None \<Rightarrow> Inr () | Some p \<Rightarrow> parser_end_of_stream p)"

definition engine_end_of_stream ::
  "('d, 's) indexing_engine \<Rightarrow> (('d, 's) indexing_engine \<times> unit result) option" where
  "engine_end_of_stream e =
     (case ie_parser e of
        Some _ \<Rightarrow> Some (e, check_end e)
      | None \<Rightarrow>
          if ie_detect_buf e = [] then Some (e, Inr ())
          else
            (case engine_replay e Tar of
               None \<Rightarrow> None
             | Some (e, r) \<Rightarrow>
                 (case r of
                    Inl err \<Rightarrow> Some (e, Inl err)
                  | Inr _ \<Rightarrow> if ie_done e then Some (e, Inr ()) else Some (e, check_end e))))"

definition truncated_stream :: "error \<Rightarrow> error" where
  "truncated_stream err =
     (if err = TruncatedInput then TruncatedArchive ''the compressed stream ends prematurely'' else err)"

partial_function (option) engine_step ::
  "'d decompressor \<Rightarrow> 's strategy \<Rightarrow> ('d, 's) indexing_engine \<Rightarrow> (('d, 's) indexing_engine \<times> engine_request) option" where
  "engine_step ops S e =
     (if ie_done e then Some (e, RequestDone)
      else
        (case indexer_step ops S (ie_indexer e) of
           None \<Rightarrow> None
         | Some (ix, q) \<Rightarrow>
             let e = e\<lparr>ie_indexer := ix\<rparr> in
             (case q of
                OutputReady \<Rightarrow>
                  (case engine_drain e of
                     None \<Rightarrow> None
                   | Some (e, r) \<Rightarrow>
                       (case r of Inl err \<Rightarrow> Some (e, RequestError err) | Inr _ \<Rightarrow> engine_step ops S e))
              | RequestDone \<Rightarrow>
                  (case engine_end_of_stream e of
                     None \<Rightarrow> None
                   | Some (e, r) \<Rightarrow>
                       (case r of
                          Inl err \<Rightarrow> Some (e, RequestError err)
                        | Inr _ \<Rightarrow> Some (e\<lparr>ie_done := True\<rparr>, RequestDone)))
              | RequestError err \<Rightarrow> Some (e, RequestError (truncated_stream err))
              | _ \<Rightarrow> Some (e, q))))"

definition engine_provide_data :: "('d, 's) indexing_engine \<Rightarrow> bytes \<Rightarrow> ('d, 's) indexing_engine" where
  "engine_provide_data e data = e\<lparr>ie_indexer := indexer_provide_data (ie_indexer e) data\<rparr>"

definition engine_signal_eof :: "('d, 's) indexing_engine \<Rightarrow> ('d, 's) indexing_engine" where
  "engine_signal_eof e = e\<lparr>ie_indexer := indexer_signal_eof (ie_indexer e)\<rparr>"

definition engine_finish :: "('d, 's) indexing_engine \<Rightarrow> archive_index" where
  "engine_finish e = builder_finish (ie_builder e) (indexer_finish (ie_indexer e)) True"

definition engine_cancel :: "('d, 's) indexing_engine \<Rightarrow> archive_index" where
  "engine_cancel e = builder_finish (ie_builder e) (indexer_finish (ie_indexer e)) False"

definition engine_snapshot :: "('d, 's) indexing_engine \<Rightarrow> archive_index" where
  "engine_snapshot e = builder_snapshot (ie_builder e) (indexer_snapshot (ie_indexer e))"

text \<open>\<^verbatim>\<open>IndexProgress\<close>.\<close>

record index_progress =
  ip_compressed_bytes_processed :: nat
  ip_compressed_bytes_total :: nat
  ip_uncompressed_bytes_processed :: nat
  ip_entries_found :: nat
  ip_checkpoints_created :: nat
  ip_checkpoint_data_bytes :: nat
  ip_last_entry_path :: "bytes option"
  ip_is_complete :: bool

definition engine_progress :: "('d, 's) indexing_engine \<Rightarrow> index_progress" where
  "engine_progress e =
     (let stream = indexer_progress (ie_indexer e) in
      \<lparr>ip_compressed_bytes_processed = sp_compressed_pos stream,
       ip_compressed_bytes_total = unwrap_or (sp_compressed_len stream) 0,
       ip_uncompressed_bytes_processed = sp_unpacked_pos stream,
       ip_entries_found = length (ib_entries (ie_builder e)),
       ip_checkpoints_created = sp_checkpoints stream,
       ip_checkpoint_data_bytes = sp_checkpoint_data_bytes stream,
       ip_last_entry_path = ib_last_entry_path (ie_builder e),
       ip_is_complete = ie_done e\<rparr>)"

section \<open>The read engine\<close>

text \<open>A read engine is a stream reader over the range; \<open>create\<close> is \<^verbatim>\<open>CodecSpec::create\<close>.\<close>

definition read_engine_for_entry_range ::
  "(codec_spec \<Rightarrow> 'd result) \<Rightarrow> archive_index \<Rightarrow> index_entry \<Rightarrow> nat \<Rightarrow> nat \<Rightarrow> 'd stream_reader result" where
  "read_engine_for_entry_range create idx entry file_offset len =
     (if (case si_unpacked_len (ai_stream idx) of None \<Rightarrow> False
          | Some t \<Rightarrow> saturating_add64 (en_offset entry) (en_size entry) > t)
      then Inl TruncatedInput
      else
        let file_offset = min file_offset (en_size entry);
            read_len = min len (en_size entry - file_offset)
        in and_then (reader_new create (ai_stream idx) (wrap64 (en_offset entry + file_offset)) read_len)
             (\<lambda>reader. Inr (require_full_range reader)))"

definition read_engine_for_entry ::
  "(codec_spec \<Rightarrow> 'd result) \<Rightarrow> archive_index \<Rightarrow> index_entry \<Rightarrow> 'd stream_reader result" where
  "read_engine_for_entry create idx entry = read_engine_for_entry_range create idx entry 0 (2 ^ 64 - 1)"

definition read_engine_new_range ::
  "(codec_spec \<Rightarrow> 'd result) \<Rightarrow> archive_index \<Rightarrow> bytes \<Rightarrow> nat \<Rightarrow> nat \<Rightarrow> 'd stream_reader result" where
  "read_engine_new_range create idx path file_offset len =
     and_then (ok_or (archive_get idx path) (FileNotFound path))
       (\<lambda>entry. read_engine_for_entry_range create idx entry file_offset len)"

definition read_engine_new ::
  "(codec_spec \<Rightarrow> 'd result) \<Rightarrow> archive_index \<Rightarrow> bytes \<Rightarrow> 'd stream_reader result" where
  "read_engine_new create idx path = read_engine_new_range create idx path 0 (2 ^ 64 - 1)"

section \<open>Any of the three parsers\<close>

definition parser_inv :: "archive_parser \<Rightarrow> bool" where
  "parser_inv p = (case p of PTar t \<Rightarrow> tar_inv t | PCpio c \<Rightarrow> cpio_inv c | PAr a \<Rightarrow> ar_inv a)"

definition parser_pos :: "archive_parser \<Rightarrow> nat" where
  "parser_pos p = (case p of PTar t \<Rightarrow> tp_stream_pos t | PCpio c \<Rightarrow> cp_stream_pos c | PAr a \<Rightarrow> ap_stream_pos a)"

definition parser_queued :: "archive_parser \<Rightarrow> nat" where
  "parser_queued p = (case p of PCpio c \<Rightarrow> cpio_queued c | _ \<Rightarrow> 0)"

lemma parser_feed_simps [simp]:
  "parser_feed (PTar t) d = map_prod PTar id (tar_feed t d)"
  "parser_feed (PCpio c) d = map_prod PCpio id (cpio_feed c d)"
  "parser_feed (PAr a) d = map_prod PAr id (ar_feed a d)"
  by (simp_all add: parser_feed_def)

lemma parser_view_simps [simp]:
  "parser_inv (PTar t) = tar_inv t" "parser_inv (PCpio c) = cpio_inv c" "parser_inv (PAr a) = ar_inv a"
  "parser_pos (PTar t) = tp_stream_pos t" "parser_pos (PCpio c) = cp_stream_pos c" "parser_pos (PAr a) = ap_stream_pos a"
  "parser_queued (PTar t) = 0" "parser_queued (PCpio c) = cpio_queued c" "parser_queued (PAr a) = 0"
  by (simp_all add: parser_inv_def parser_pos_def parser_queued_def)

lemma parser_inv_new: "parser_inv (create_archive_parser f)"
  by (cases f) (simp_all add: create_archive_parser_def tar_inv_new cpio_inv_new ar_inv_new)

lemma map_prod_eq: "map_prod f id r = (p', v) \<longleftrightarrow> (\<exists>q. r = (q, v) \<and> p' = f q)"
  by (cases r) auto

lemma map_prod_shift: "map_prod f id (shift_feed n r) = shift_feed n (map_prod f id r)"
  by (auto simp: shift_feed_def split: prod.split sum.split)

lemma map_prod_stalls: "stalls (map_prod f id r) = stalls r"
  by (cases r) (simp add: stalls_def)

lemma split_lift:
  assumes "f p (xs @ ys) = f p xs \<or>
      (\<exists>p1. f p xs = (p1, Inr (length xs, NeedData)) \<and>
            f p (xs @ ys) = shift_feed (length xs) (f p1 ys) \<and> \<not> stalls (f p1 ys))"
    and "\<And>q d. g (C q) d = map_prod C id (f q d)"
  shows "g (C p) (xs @ ys) = g (C p) xs \<or>
      (\<exists>p1. g (C p) xs = (p1, Inr (length xs, NeedData)) \<and>
            g (C p) (xs @ ys) = shift_feed (length xs) (g p1 ys) \<and> \<not> stalls (g p1 ys))"
  using assms(1)
proof
  assume "\<exists>p1. f p xs = (p1, Inr (length xs, NeedData)) \<and>
            f p (xs @ ys) = shift_feed (length xs) (f p1 ys) \<and> \<not> stalls (f p1 ys)"
  then obtain p1 where "f p xs = (p1, Inr (length xs, NeedData))"
    "f p (xs @ ys) = shift_feed (length xs) (f p1 ys)" "\<not> stalls (f p1 ys)" by blast
  then have "g (C p) xs = (C p1, Inr (length xs, NeedData)) \<and>
      g (C p) (xs @ ys) = shift_feed (length xs) (g (C p1) ys) \<and> \<not> stalls (g (C p1) ys)"
    by (simp add: assms(2) map_prod_shift map_prod_stalls)
  then show ?thesis by blast
qed (simp add: assms(2))

interpretation any: incremental_parser parser_feed parser_inv parser_pos parser_queued
proof unfold_locales
  fix p d p' k and ev :: archive_event
  assume inv: "parser_inv p" and eq: "parser_feed p d = (p', Inr (k, ev))"
  show "parser_inv p'" using inv eq tar.feed_inv cpio.feed_inv ar.feed_inv
    by (cases p) (auto simp: map_prod_eq)
  show "k \<le> length d" using inv eq tar.feed_bound cpio.feed_bound ar.feed_bound
    by (cases p) (auto simp: map_prod_eq)
  show "parser_pos p' = parser_pos p + k" using inv eq tar.feed_pos cpio.feed_pos ar.feed_pos
    by (cases p) (auto simp: map_prod_eq)
next
  fix p d p' k e
  assume inv: "parser_inv p" and ne: "d \<noteq> []" and eq: "parser_feed p d = (p', Inr (k, Entry e))"
  show "0 < k \<or> parser_queued p' < parser_queued p"
    using inv ne eq
    by (cases p) (auto simp: map_prod_eq dest: tar.feed_entry cpio.feed_entry ar.feed_entry)
next
  fix p and xs ys :: bytes
  assume inv: "parser_inv p" and ne: "xs \<noteq> []" "ys \<noteq> []"
  show "parser_feed p (xs @ ys) = parser_feed p xs \<or>
      (\<exists>p1. parser_feed p xs = (p1, Inr (length xs, NeedData)) \<and>
            parser_feed p (xs @ ys) = shift_feed (length xs) (parser_feed p1 ys) \<and> \<not> stalls (parser_feed p1 ys))"
  proof (cases p)
    case (PTar t)
    show ?thesis unfolding PTar by (rule split_lift [where f = tar_feed]) (use inv ne PTar tar.feed_split in simp_all)
  next
    case (PCpio c)
    show ?thesis unfolding PCpio by (rule split_lift [where f = cpio_feed]) (use inv ne PCpio cpio.feed_split in simp_all)
  next
    case (PAr a)
    show ?thesis unfolding PAr by (rule split_lift [where f = ar_feed]) (use inv ne PAr ar.feed_split in simp_all)
  qed
qed

text \<open>A run of one parser is a run of the sum; chunks keep the invariant and compose.\<close>

context incremental_parser
begin

lemma run_lift:
  assumes "inv p" and g: "\<And>q d. g (C q) d = map_prod C id (feed q d)"
  shows "feed_to_parser g add (C p) b d off =
    map_option (\<lambda>(p', b', r). (C p', b', r)) (feed_to_parser feed add p b d off)"
  using assms(1)
proof (induction arbitrary: b off rule: run_induct)
  case (step p d)
  show ?case
  proof (cases "d = []")
    case False
    note unf = feed_to_parser.simps [of feed add p b d] feed_to_parser.simps [of g add "C p" b d]
    from step.hyps False show ?thesis
    proof (cases rule: feed_cases)
      case (entry p' k e)
      from step.IH [OF entry(2,5), of "add b e" "off + k"] entry False g show ?thesis by (simp add: unf)
    next
      case (need p' k)
      from step.IH [OF need(3) disjI1 [OF need(6)], of b "off + k"] need False g show ?thesis by (simp add: unf)
    qed (use False g in \<open>simp_all add: unf\<close>)
  qed simp
qed

lemma chunks_inv:
  assumes "inv p"
  shows "feed_chunks feed add p b cs = Some (p', b', Inr False) \<Longrightarrow> inv p'"
  using assms
proof (induction cs arbitrary: p b)
  case (Cons c cs)
  from Cons.prems(2) show ?case
  proof (cases rule: run_cases [of p add b c 0])
    case (2 p1 b1 off fin)
    with Cons show ?thesis by (cases fin) auto
  qed (use Cons.prems in auto)
qed simp

lemma chunks_total:
  assumes "inv p"
  shows "\<exists>r. feed_chunks feed add p b cs = Some r"
  using assms
proof (induction cs arbitrary: p b)
  case (Cons c cs)
  from Cons.prems show ?case
  proof (cases rule: run_cases [of p add b c 0])
    case (2 p1 b1 off fin)
    with Cons.IH [OF 2(2), of b1] show ?thesis by (cases fin) auto
  qed simp
qed simp

end

lemma feed_chunks_append:
  "feed_chunks feed add p b (cs @ ds) =
     (case feed_chunks feed add p b cs of
        None \<Rightarrow> None
      | Some (p1, b1, r) \<Rightarrow> if r = Inr False then feed_chunks feed add p1 b1 ds else Some (p1, b1, r))"
  by (induction feed add p b cs rule: feed_chunks.induct) (auto split: option.splits sum.splits bool.splits)

text \<open>
  Chunks that are the beginning of a stream and end the run, or are all of the stream, give what the
  whole stream in one piece gives, unless that gives up on the rest of a chunk.
\<close>

definition run_stalls ::
  "'p feeder \<Rightarrow> ('b \<Rightarrow> archive_entry \<Rightarrow> 'b) \<Rightarrow> 'p \<Rightarrow> 'b \<Rightarrow> bytes \<Rightarrow> bool" where
  "run_stalls feed add p b data \<longleftrightarrow>
     (case feed_to_parser feed add p b data 0 of Some (_, _, Inr (off, False)) \<Rightarrow> off \<noteq> length data | _ \<Rightarrow> False)"

context incremental_parser
begin

lemma chunks_whole:
  assumes "inv p" and "\<not> run_stalls feed add p b (concat cs @ rest)"
    and "feed_chunks feed add p b cs = Some (p', b', r)" and "r \<noteq> Inr False \<or> rest = []"
  obtains r' where "feed_to_parser feed add p b (concat cs @ rest) 0 = Some (p', b', r')" "map_sum id snd r' = r"
proof -
  obtain p1 b1 r1 where run: "feed_to_parser feed add p b (concat cs @ rest) 0 = Some (p1, b1, r1)"
    using run_total [OF assms(1), of add b "concat cs @ rest" 0] by blast
  have "off = length (concat cs @ rest)" if "r1 = Inr (off, False)" for off
    using assms(2) run that by (simp add: run_stalls_def)
  moreover have cat: "concat (cs @ [rest]) = concat cs @ rest" by simp
  ultimately have "feed_chunks feed add p b (cs @ [rest]) = Some (p1, b1, map_sum id snd r1)"
    using chunks_run [OF assms(1), of add b "cs @ [rest]" p1 b1 r1] run by simp
  moreover have "feed_chunks feed add p b (cs @ [rest]) = Some (p', b', r)"
    using assms(3,4) by (auto simp: feed_chunks_append)
  ultimately show thesis using that run by simp
qed

end

end
