(* ===== verification/NoneDecompressor.thy ===== *)
theory NoneDecompressor
  imports Checkpoint
begin

text \<open>
  \<^verbatim>\<open>src/compress/none.rs\<close>: the decompressor of \<^verbatim>\<open>Codec::Copy\<close>, and that it keeps the \<open>decoder\<close>
  contract with the packed bytes as their own contents.
\<close>

record none_decompressor =
  nd_total_in :: nat
  nd_total_out :: nat

definition none_new :: none_decompressor where
  "none_new = \<lparr>nd_total_in = 0, nd_total_out = 0\<rparr>"

definition none_decompress ::
  "none_decompressor \<Rightarrow> bytes \<Rightarrow> nat \<Rightarrow> none_decompressor \<times> decompress_result result" where
  "none_decompress d input cap =
     (if input = [] then (d, Inr \<lparr>bytes_consumed = 0, produced = [], status = StreamEnd\<rparr>)
      else let n = min (length input) cap in
           (d\<lparr>nd_total_in := nd_total_in d + n, nd_total_out := nd_total_out d + n\<rparr>,
            Inr \<lparr>bytes_consumed = n, produced = take n input, status = Continue\<rparr>))"

definition none_checkpoint :: "none_decompressor \<Rightarrow> nat \<Rightarrow> nat \<Rightarrow> checkpoint option result" where
  "none_checkpoint d c u = Inr (Some (Ck c 0 u CkNone))"

definition none_restore :: "none_decompressor \<Rightarrow> checkpoint \<Rightarrow> none_decompressor \<times> unit result" where
  "none_restore d cp =
     (d\<lparr>nd_total_in := compressed_offset cp, nd_total_out := uncompressed_offset cp\<rparr>, Inr ())"

definition none_ops :: "none_decompressor decompressor" where
  "none_ops = \<lparr>decompress = none_decompress, take_checkpoint = none_checkpoint, restore = none_restore\<rparr>"

definition none_at :: "bytes \<Rightarrow> none_decompressor \<Rightarrow> nat \<Rightarrow> nat \<Rightarrow> bool" where
  "none_at data d c u \<longleftrightarrow> u = c \<and> c \<le> length data \<and> nd_total_in d = c \<and> nd_total_out d = u"

definition none_good :: "bytes \<Rightarrow> checkpoint \<Rightarrow> bool" where
  "none_good data cp \<longleftrightarrow> uncompressed_offset cp = compressed_offset cp \<and> compressed_offset cp \<le> length data"

interpretation none: decoder none_ops data data "none_at data" "none_good data" "\<lambda>d. d = none_new" for data
proof
  fix d c u input cap
  assume at: "none_at data d c u" and inp: "take (length input) (drop c data) = input"
    and "input \<noteq> [] \<or> c = length data" and cap: "0 < (cap :: nat)"
  show "\<exists>d' r. decompress none_ops d input cap = (d', Inr r) \<and> bytes_consumed r \<le> length input \<and>
      bytes_produced r \<le> cap \<and> take (bytes_produced r) (drop u data) = produced r \<and>
      none_at data d' (c + bytes_consumed r) (u + bytes_produced r) \<and>
      (status r = StreamEnd \<longrightarrow> u + bytes_produced r = length data) \<and>
      (bytes_consumed r = 0 \<and> bytes_produced r = 0 \<longrightarrow> status r = StreamEnd)"
  proof (cases "input = []")
    case True
    then show ?thesis using at \<open>input \<noteq> [] \<or> c = length data\<close>
      by (auto simp: none_ops_def none_decompress_def none_at_def bytes_produced_def)
  next
    case False
    let ?n = "min (length input) cap"
    have "length input \<le> length data - c" using arg_cong [OF inp, of length] by simp
    moreover have "take ?n (drop c data) = take ?n input"
      using arg_cong [OF inp, of "take ?n"] by (simp add: min_def split: if_splits)
    ultimately show ?thesis using False at cap
      by (auto simp: none_ops_def none_decompress_def none_at_def bytes_produced_def Let_def)
  qed
qed (auto simp: none_at_def none_good_def none_ops_def none_checkpoint_def none_restore_def none_new_def start_checkpoint_def)

end
