(* ===== verification/IndexerCorrect.thy ===== *)
theory IndexerCorrect
  imports Indexer NoneDecompressor
begin

text \<open>
  Correctness of \<^verbatim>\<open>StreamIndexer\<close> over any decompressor that keeps the \<open>decoder\<close> contract and for any
  strategy: the invariant of the index while it grows, the output handed out, and the end of a pass.
\<close>

section \<open>What thinning and checkpoints leave alone\<close>

definition indexer_frame ::
  "('d, 's) stream_indexer \<Rightarrow> 'd \<times> indexer_state \<times> nat \<times> nat \<times> nat option \<times> bool \<times> bytes \<times> nat \<times> bool \<times> bytes \<times> nat \<times> nat \<times>
   codec_spec \<times> nat option \<times> nat option \<times> nat \<times> bool" where
  "indexer_frame r =
     (ix_decompressor r, ix_state r, ix_compressed_pos r, ix_unpacked_pos r, ix_stop_at r, ix_emit_output r,
      ix_input_buf r, ix_input_pos r, ix_eof r, ix_out_buf r, ix_out_len r, ix_out_read r,
      si_codec (ix_index r), si_compressed_len (ix_index r), si_unpacked_len (ix_index r),
      si_indexed_to (ix_index r), si_complete (ix_index r))"

lemma indexer_frame_eq [simp]:
  "indexer_frame r = indexer_frame r' \<longleftrightarrow>
     ix_decompressor r = ix_decompressor r' \<and> ix_state r = ix_state r' \<and> ix_compressed_pos r = ix_compressed_pos r' \<and>
     ix_unpacked_pos r = ix_unpacked_pos r' \<and> ix_stop_at r = ix_stop_at r' \<and> ix_emit_output r = ix_emit_output r' \<and>
     ix_input_buf r = ix_input_buf r' \<and> ix_input_pos r = ix_input_pos r' \<and> ix_eof r = ix_eof r' \<and>
     ix_out_buf r = ix_out_buf r' \<and> ix_out_len r = ix_out_len r' \<and> ix_out_read r = ix_out_read r' \<and>
     si_codec (ix_index r) = si_codec (ix_index r') \<and> si_compressed_len (ix_index r) = si_compressed_len (ix_index r') \<and>
     si_unpacked_len (ix_index r) = si_unpacked_len (ix_index r') \<and>
     si_indexed_to (ix_index r) = si_indexed_to (ix_index r') \<and> si_complete (ix_index r) = si_complete (ix_index r')"
  by (simp add: indexer_frame_def)

text \<open>The checkpoints laid so far: a good table, none past the decoder, the counters right.\<close>

definition table_ok :: "(checkpoint \<Rightarrow> bool) \<Rightarrow> ('d, 's) stream_indexer \<Rightarrow> bool" where
  "table_ok good r \<longleftrightarrow>
     cps_ok (si_checkpoints (ix_index r)) \<and>
     (\<forall>cp\<in>set (si_checkpoints (ix_index r)). good cp \<and> uncompressed_offset cp \<le> ix_unpacked_pos r) \<and>
     ix_last_checkpoint_pos r \<le> ix_unpacked_pos r \<and>
     ix_checkpoint_data_bytes r = checkpoint_data_bytes (ix_index r)"

lemma thin_false: "thin idx = (idx', False) \<Longrightarrow> idx' = idx"
  by (auto simp: thin_def Let_def split: if_splits)

lemma last_checkpoint_in: "cps_ok (si_checkpoints idx) \<Longrightarrow> last_checkpoint idx \<in> set (si_checkpoints idx)"
  by (simp add: cps_ok_def last_checkpoint_def)

lemma last_checkpoint_max:
  assumes "cps_ok (si_checkpoints idx)" and "cp \<in> set (si_checkpoints idx)"
  shows "uncompressed_offset cp \<le> uncompressed_offset (last_checkpoint idx)"
proof -
  define front where "front = butlast (si_checkpoints idx)"
  have split: "si_checkpoints idx = front @ [last_checkpoint idx]"
    using assms(1) by (simp add: front_def cps_ok_def last_checkpoint_def)
  moreover have "sorted (map uncompressed_offset (si_checkpoints idx))" using assms(1) by (simp add: cps_ok_def)
  ultimately have "sorted (map uncompressed_offset (front @ [last_checkpoint idx]))" by simp
  then have "\<forall>x\<in>set front. uncompressed_offset x \<le> uncompressed_offset (last_checkpoint idx)" by (simp add: sorted_append)
  moreover have "cp \<in> set front \<or> cp = last_checkpoint idx" using assms(2) unfolding arg_cong [OF split, of set] by auto
  ultimately show ?thesis by auto
qed

lemma thin_loop_ok:
  "table_ok good r \<Longrightarrow> table_ok good (thin_loop S r) \<and> indexer_frame (thin_loop S r) = indexer_frame r"
proof (induction S r rule: thin_loop.induct)
  case (1 S r)
  obtain s b where st: "should_thin S (ix_strategy r) (indexer_context r) = (s, b)"
    by (cases "should_thin S (ix_strategy r) (indexer_context r)") auto
  obtain idx b' where th: "thin (ix_index r) = (idx, b')" by (cases "thin (ix_index r)") auto
  show ?case
  proof (cases "b \<and> b'")
    case False
    then show ?thesis using st th "1.prems" thin_false [of "ix_index r" idx]
      by (cases b) (auto simp: thin_loop.simps [of S r] table_ok_def)
  next
    case True
    define r' where "r' = r\<lparr>ix_strategy := s, ix_index := idx,
        ix_checkpoint_data_bytes := checkpoint_data_bytes idx,
        ix_last_checkpoint_pos := uncompressed_offset (last_checkpoint idx)\<rparr>"
    have eq: "thin_loop S r = thin_loop S r'" using st th True by (simp add: thin_loop.simps [of S r] r'_def)
    have ok: "cps_ok (si_checkpoints (ix_index r))" using "1.prems" by (simp add: table_ok_def)
    note tp = thin_props [OF ok, of idx]
    have t: "thin (ix_index r) = (idx, True)" using th True by simp
    have "last_checkpoint idx \<in> set (si_checkpoints (ix_index r))"
      using last_checkpoint_in [OF tp(1) [OF t]] tp(3) [OF t] by blast
    then have "table_ok good r'" using "1.prems" tp(1,3) [OF t] by (auto simp: table_ok_def r'_def)
    moreover have "indexer_frame r' = indexer_frame r" using tp(5-9) [OF t] by (simp add: r'_def)
    ultimately show ?thesis using "1.IH" [OF st [symmetric] _ t [symmetric]] True eq unfolding r'_def [symmetric] by auto
  qed
qed

lemma checkpoint_data_bytes_snoc:
  "checkpoint_data_bytes (idx\<lparr>si_checkpoints := si_checkpoints idx @ [cp]\<rparr>) = checkpoint_data_bytes idx + estimated_size cp"
  by (simp add: checkpoint_data_bytes_def)

section \<open>Views\<close>

definition ix_unread :: "('d, 's) stream_indexer \<Rightarrow> bytes" where
  "ix_unread r = drop (ix_input_pos r) (ix_input_buf r)"

definition ix_pending :: "('d, 's) stream_indexer \<Rightarrow> bytes" where
  "ix_pending r = drop (ix_out_read r) (take (ix_out_len r) (ix_out_buf r))"

definition ix_fed :: "('d, 's) stream_indexer \<Rightarrow> nat" where
  "ix_fed r = ix_compressed_pos r + length (ix_unread r)"

definition ix_input_ok :: "bytes \<Rightarrow> ('d, 's) stream_indexer \<Rightarrow> bool" where
  "ix_input_ok packed r \<longleftrightarrow>
     ix_fed r \<le> length packed \<and> take (length (ix_unread r)) (drop (ix_compressed_pos r) packed) = ix_unread r \<and>
     (ix_eof r \<longrightarrow> ix_fed r = length packed)"

text \<open>
  What was handed out since the pass began at \<open>base\<close>, with what is pending, is the contents up to
  \<open>indexed_to\<close>.
\<close>

definition ix_output_ok :: "bytes \<Rightarrow> nat \<Rightarrow> bytes \<Rightarrow> ('d, 's) stream_indexer \<Rightarrow> bool" where
  "ix_output_ok unpacked base acc r \<longleftrightarrow>
     ix_out_read r \<le> ix_out_len r \<and> ix_out_len r \<le> length (ix_out_buf r) \<and> length (ix_out_buf r) = BUF_SIZE \<and>
     base \<le> si_indexed_to (ix_index r) \<and> si_indexed_to (ix_index r) \<le> length unpacked \<and>
     ix_unpacked_pos r \<le> si_indexed_to (ix_index r) \<and>
     (if ix_emit_output r then acc @ ix_pending r = drop base (take (si_indexed_to (ix_index r)) unpacked)
      else acc = [] \<and> ix_pending r = [])"

definition ix_len_ok :: "bytes \<Rightarrow> ('d, 's) stream_indexer \<Rightarrow> bool" where
  "ix_len_ok unpacked r \<longleftrightarrow>
     (si_unpacked_len (ix_index r) = None \<or> si_unpacked_len (ix_index r) = Some (length unpacked)) \<and>
     (si_complete (ix_index r) \<longrightarrow> si_unpacked_len (ix_index r) = Some (length unpacked) \<and>
        si_indexed_to (ix_index r) = length unpacked)"

definition ix_state_ok :: "('d, 's) stream_indexer \<Rightarrow> bool" where
  "ix_state_ok r \<longleftrightarrow>
     (ix_state r \<noteq> IxDone \<longrightarrow> \<not> si_complete (ix_index r)) \<and>
     (case ix_state r of
        IxProcessing \<Rightarrow> True
      | IxNeedInput \<Rightarrow> ix_unread r = [] \<and> ix_pending r = []
      | IxSeek off \<Rightarrow> ix_unread r = [] \<and> ix_pending r = [] \<and> off = ix_compressed_pos r \<and> \<not> ix_eof r
      | IxDone \<Rightarrow> si_complete (ix_index r) \<or> (\<exists>stop. ix_stop_at r = Some stop \<and> stop \<le> ix_unpacked_pos r))"

definition ix_work :: "bytes \<Rightarrow> bytes \<Rightarrow> ('d, 's) stream_indexer \<Rightarrow> nat" where
  "ix_work packed unpacked r = (length packed - ix_compressed_pos r) + (length unpacked - ix_unpacked_pos r)"

definition ix_config :: "('d, 's) stream_indexer \<Rightarrow> bool \<times> nat option \<times> codec_spec \<times> nat option" where
  "ix_config r = (ix_emit_output r, ix_stop_at r, si_codec (ix_index r), si_compressed_len (ix_index r))"

lemma ix_config_eq [simp]:
  "ix_config r = ix_config r' \<longleftrightarrow>
     ix_emit_output r = ix_emit_output r' \<and> ix_stop_at r = ix_stop_at r' \<and>
     si_codec (ix_index r) = si_codec (ix_index r') \<and> si_compressed_len (ix_index r) = si_compressed_len (ix_index r')"
  by (simp add: ix_config_def)

lemma ix_frame_views:
  assumes "indexer_frame r' = indexer_frame r"
  shows "ix_unread r' = ix_unread r" "ix_pending r' = ix_pending r" "ix_fed r' = ix_fed r"
    "ix_input_ok packed r' = ix_input_ok packed r" "ix_output_ok unpacked base acc r' = ix_output_ok unpacked base acc r"
    "ix_len_ok unpacked r' = ix_len_ok unpacked r" "ix_work packed unpacked r' = ix_work packed unpacked r"
    "ix_config r' = ix_config r" "pending_output r' = pending_output r"
  using assms
  by (simp_all add: ix_unread_def ix_pending_def ix_fed_def ix_input_ok_def ix_output_ok_def ix_len_ok_def ix_work_def
      pending_output_def)

lemma ix_views_simps [simp]:
  "ix_unread (r\<lparr>ix_state := s\<rparr>) = ix_unread r" "ix_unread (r\<lparr>ix_index := idx\<rparr>) = ix_unread r"
  "ix_pending (r\<lparr>ix_state := s\<rparr>) = ix_pending r" "ix_pending (r\<lparr>ix_index := idx\<rparr>) = ix_pending r"
  "ix_unread (r\<lparr>ix_out_len := n\<rparr>) = ix_unread r" "ix_unread (r\<lparr>ix_out_read := n\<rparr>) = ix_unread r"
  "ix_fed (r\<lparr>ix_state := s\<rparr>) = ix_fed r" "ix_fed (r\<lparr>ix_index := idx\<rparr>) = ix_fed r"
  "ix_work p u (r\<lparr>ix_state := s\<rparr>) = ix_work p u r" "ix_work p u (r\<lparr>ix_index := idx\<rparr>) = ix_work p u r"
  "ix_input_ok p (r\<lparr>ix_state := s\<rparr>) = ix_input_ok p r" "ix_input_ok p (r\<lparr>ix_index := idx\<rparr>) = ix_input_ok p r"
  "ix_output_ok u base acc (r\<lparr>ix_state := s\<rparr>) = ix_output_ok u base acc r"
  "ix_len_ok u (r\<lparr>ix_state := s\<rparr>) = ix_len_ok u r" "table_ok good (r\<lparr>ix_state := s\<rparr>) = table_ok good r"
  "pending_output (r\<lparr>ix_state := s\<rparr>) = pending_output r" "pending_output (r\<lparr>ix_index := idx\<rparr>) = pending_output r"
  by (simp_all add: ix_unread_def ix_pending_def ix_fed_def ix_work_def ix_input_ok_def ix_output_ok_def ix_len_ok_def
      table_ok_def pending_output_def)

lemma pending_output_iff: "ix_output_ok unpacked base acc r \<Longrightarrow> pending_output r \<longleftrightarrow> ix_pending r \<noteq> []"
  by (auto simp: pending_output_def ix_pending_def ix_output_ok_def)

text \<open>A decoder step, its checkpoint and its output.\<close>

definition ix_decoded :: "('d, 's) stream_indexer \<Rightarrow> 'd \<Rightarrow> decompress_result \<Rightarrow> ('d, 's) stream_indexer" where
  "ix_decoded r d res =
     r\<lparr>ix_decompressor := d, ix_out_buf := copy_into (ix_out_buf r) 0 (produced res),
       ix_input_pos := ix_input_pos r + bytes_consumed res,
       ix_compressed_pos := ix_compressed_pos r + bytes_consumed res,
       ix_unpacked_pos := ix_unpacked_pos r + bytes_produced res\<rparr>"

text \<open>The checkpoint and the output offered for it.\<close>

definition ix_offer ::
  "'d decompressor \<Rightarrow> 's strategy \<Rightarrow> ('d, 's) stream_indexer \<Rightarrow> nat \<Rightarrow> nat \<Rightarrow> ('d, 's) stream_indexer \<times> unit result" where
  "ix_offer ops S r n before =
     (case should_checkpoint S (ix_strategy r) (indexer_context r) of
        (s, lay) \<Rightarrow>
          (case (if lay then try_checkpoint ops S (r\<lparr>ix_strategy := s\<rparr>) True
                 else (r\<lparr>ix_strategy := s\<rparr>, Inr ())) of
             (r, Inl e) \<Rightarrow> (r, Inl e)
           | (r, Inr _) \<Rightarrow>
               (if ix_emit_output r
                then r\<lparr>ix_out_len := n, ix_out_read := si_indexed_to (ix_index r) - before\<rparr>
                else r, Inr ())))"

lemma indexer_decode_alt:
  assumes "decompress ops (ix_decompressor r) input (length (ix_out_buf r)) = (d, Inr res)"
  shows "indexer_decode ops S r input =
    (let r1 = ix_decoded r d res; is_fresh = (ix_unpacked_pos r1 > si_indexed_to (ix_index r1)) in
     case (if bytes_produced res > 0 \<and> is_fresh then ix_offer ops S r1 (bytes_produced res) (ix_unpacked_pos r) else (r1, Inr ())) of
       (r, Inl e) \<Rightarrow> (r, Some (RequestError e))
     | (r, Inr _) \<Rightarrow>
         indexer_conclude ops S
           (if is_fresh then r\<lparr>ix_index := (ix_index r)\<lparr>si_indexed_to := ix_unpacked_pos r\<rparr>\<rparr> else r) res (input \<noteq> []))"
  using assms by (simp add: indexer_decode_def ix_offer_def ix_decoded_def Let_def)

context decoder
begin

definition ix_live :: "nat \<Rightarrow> bytes \<Rightarrow> ('d, 's) stream_indexer \<Rightarrow> bool" where
  "ix_live base acc r \<longleftrightarrow>
     at (ix_decompressor r) (ix_compressed_pos r) (ix_unpacked_pos r) \<and> ix_input_ok packed r \<and>
     ix_output_ok unpacked base acc r \<and> ix_len_ok unpacked r \<and> table_ok good r \<and> ix_state_ok r"

lemma try_checkpoint_ok:
  assumes "at (ix_decompressor r) (ix_compressed_pos r) (ix_unpacked_pos r)" and "table_ok good r"
  obtains r' where "try_checkpoint ops S r notify = (r', Inr ())" "table_ok good r'" "indexer_frame r' = indexer_frame r"
proof -
  from checkpoint_law [OF assms(1)] obtain ocp where
    c: "take_checkpoint ops (ix_decompressor r) (ix_compressed_pos r) (ix_unpacked_pos r) = Inr ocp"
      "\<forall>cp. ocp = Some cp \<longrightarrow> good cp \<and> uncompressed_offset cp = ix_unpacked_pos r \<and> compressed_offset cp \<le> ix_compressed_pos r"
    by blast
  show thesis
  proof (cases "(ix_unpacked_pos r = ix_last_checkpoint_pos r \<and>
         uncompressed_offset (last_checkpoint (ix_index r)) = ix_unpacked_pos r) \<or> ocp = None")
    case True
    then have "try_checkpoint ops S r notify = (r, Inr ())" using c(1) by (auto simp: try_checkpoint_def)
    then show thesis using that [of r] assms(2) by simp
  next
    case False
    then obtain cp where cp: "ocp = Some cp" by auto
    define r1 where "r1 = r\<lparr>ix_checkpoint_data_bytes := ix_checkpoint_data_bytes r + estimated_size cp,
        ix_index := (ix_index r)\<lparr>si_checkpoints := si_checkpoints (ix_index r) @ [cp]\<rparr>,
        ix_last_checkpoint_pos := ix_unpacked_pos r\<rparr>"
    define r2 where "r2 = (if notify
        then r1\<lparr>ix_strategy := on_checkpoint_created S (ix_strategy r1) (indexer_context r1) (estimated_size cp)\<rparr> else r1)"
    have eq: "try_checkpoint ops S r notify = (thin_loop S r2, Inr ())"
    proof -
      have ng: "\<not> (ix_unpacked_pos r = ix_last_checkpoint_pos r \<and>
         uncompressed_offset (last_checkpoint (ix_index r)) = ix_unpacked_pos r)" using False by simp
      show ?thesis unfolding try_checkpoint_def if_not_P [OF ng] c(1) cp r2_def r1_def by (simp add: Let_def)
    qed
    have g: "good cp" "uncompressed_offset cp = ix_unpacked_pos r" using c(2) cp by auto
    have "cps_ok (si_checkpoints (ix_index r) @ [cp])"
      using assms(2) g(2) last_checkpoint_in [of "ix_index r"]
      by (intro cps_ok_snoc) (auto simp: table_ok_def last_checkpoint_def)
    then have "table_ok good r1" using assms(2) g
      by (auto simp: table_ok_def r1_def checkpoint_data_bytes_snoc)
    then have "table_ok good r2" by (simp add: r2_def table_ok_def)
    moreover have "indexer_frame r2 = indexer_frame r" by (simp add: r2_def r1_def)
    ultimately show thesis using that [OF eq] thin_loop_ok [of good r2 S] by auto
  qed
qed

text \<open>What one step may do.\<close>

definition ix_step_ok ::
  "nat \<Rightarrow> bytes \<Rightarrow> ('d, 's) stream_indexer \<Rightarrow> ('d, 's) stream_indexer \<Rightarrow> engine_request option \<Rightarrow> bool" where
  "ix_step_ok base acc r r' q \<longleftrightarrow>
     ix_live base acc r' \<and> ix_eof r' = ix_eof r \<and> ix_fed r' = ix_fed r \<and> ix_config r' = ix_config r \<and>
     ix_work packed unpacked r' \<le> ix_work packed unpacked r \<and>
     (\<forall>off. ix_state r' \<noteq> IxSeek off) \<and>
     (case q of
        None \<Rightarrow> ix_work packed unpacked r' < ix_work packed unpacked r \<and> ix_pending r' = []
      | Some NeedInput \<Rightarrow> ix_unread r' = [] \<and> ix_pending r' = [] \<and> ix_state r' \<noteq> IxDone \<and>
          (ix_eof r \<longrightarrow> ix_work packed unpacked r' < ix_work packed unpacked r)
      | Some OutputReady \<Rightarrow> ix_pending r' \<noteq> [] \<and> ix_emit_output r \<and>
          (ix_work packed unpacked r' < ix_work packed unpacked r \<or> ix_pending r \<noteq> [])
      | Some RequestDone \<Rightarrow> ix_state r' = IxDone \<and> (ix_pending r = [] \<longrightarrow> ix_pending r' = [])
      | _ \<Rightarrow> False)"

text \<open>The end of a step, from a state whose decoder step has been taken.\<close>

lemma indexer_conclude_ok:
  fixes r :: "('d, 's) stream_indexer"
  assumes at: "at (ix_decompressor r) (ix_compressed_pos r) (ix_unpacked_pos r)"
    and i: "ix_input_ok packed r" and o: "ix_output_ok unpacked base acc r" and l: "ix_len_ok unpacked r"
    and t: "table_ok good r" and st: "ix_state r = IxProcessing"
    and pos: "si_complete (ix_index r) = False"
    and r0: "ix_eof r0 = ix_eof r" "ix_fed r0 = ix_fed r" "ix_config r0 = ix_config r"
      "ix_work packed unpacked r0 = ix_work packed unpacked r + bytes_consumed res + bytes_produced res"
    and se: "status res = StreamEnd \<Longrightarrow> ix_unpacked_pos r = length unpacked"
    and np: "bytes_consumed res = 0 \<Longrightarrow> bytes_produced res = 0 \<Longrightarrow> status res = StreamEnd"
    and pend: "ix_pending r \<noteq> [] \<Longrightarrow> ix_emit_output r \<and> 0 < bytes_produced res"
    and eq: "indexer_conclude ops S r res had_input = (r', q)"
  shows "ix_step_ok base acc r0 r' q"
proof -
  define stopped where "stopped \<longleftrightarrow> (case ix_stop_at r of None \<Rightarrow> False | Some stop \<Rightarrow> ix_unpacked_pos r \<ge> stop)"
  have po: "pending_output r \<longleftrightarrow> ix_pending r \<noteq> []" by (rule pending_output_iff [OF o])
  have un: "ix_input_pos r \<ge> length (ix_input_buf r) \<longleftrightarrow> ix_unread r = []" by (simp add: ix_unread_def)
  have live: "ix_live base acc r" using at i o l t st pos by (simp add: ix_live_def ix_state_ok_def)
  have sh: "indexer_conclude ops S r res had_input =
      (if stopped then
         (case try_checkpoint ops S r False of
            (r, Inl e) \<Rightarrow> (r, Some (RequestError e))
          | (r, Inr _) \<Rightarrow> (r\<lparr>ix_state := IxDone\<rparr>, Some (if pending_output r then OutputReady else RequestDone)))
       else if pending_output r then (r, Some OutputReady)
       else if ix_unread r = [] then (if ix_eof r then (r, Some NeedInput) else (r\<lparr>ix_state := IxNeedInput\<rparr>, Some NeedInput))
       else (r, None))" if ne: "status res \<noteq> StreamEnd"
  proof -
    have nz: "(bytes_consumed res = 0 \<and> bytes_produced res = 0) = False" using np ne by blast
    show ?thesis unfolding indexer_conclude_def nz un stopped_def using ne by simp
  qed
  consider (ended) "status res = StreamEnd" | (stopped) "status res \<noteq> StreamEnd" "stopped"
    | (out) "status res \<noteq> StreamEnd" "\<not> stopped" "ix_pending r \<noteq> []"
    | (input) "status res \<noteq> StreamEnd" "\<not> stopped" "ix_pending r = []" "ix_unread r = []"
    | (go) "status res \<noteq> StreamEnd" "\<not> stopped" "ix_pending r = []" "ix_unread r \<noteq> []" by blast
  then show ?thesis
  proof cases
    case ended
    define r1 where "r1 = r\<lparr>ix_index := (ix_index r)\<lparr>si_complete := True, si_unpacked_len := Some (ix_unpacked_pos r)\<rparr>,
      ix_state := IxDone\<rparr>"
    have eq': "r' = r1" "q = Some (if pending_output r then OutputReady else RequestDone)"
      using eq ended by (auto simp: indexer_conclude_def Let_def r1_def pending_output_def)
    have U: "ix_unpacked_pos r = length unpacked" by (rule se [OF ended])
    have "si_indexed_to (ix_index r) = length unpacked" using o U by (simp add: ix_output_ok_def)
    then have "ix_live base acc r1" using at i o l t U
      by (simp add: ix_live_def r1_def ix_output_ok_def ix_len_ok_def table_ok_def ix_state_ok_def
          checkpoint_data_bytes_def)
    moreover have "ix_pending r1 = ix_pending r" "ix_fed r1 = ix_fed r" "ix_work packed unpacked r1 = ix_work packed unpacked r"
      by (simp_all add: r1_def)
    ultimately show ?thesis using eq' po pend r0 by (auto simp: ix_step_ok_def r1_def)
  next
    case stopped
    from try_checkpoint_ok [OF at t, of S False] obtain r1 where
      r1: "try_checkpoint ops S r False = (r1, Inr ())" "table_ok good r1" "indexer_frame r1 = indexer_frame r" by blast
    note v = ix_frame_views [OF r1(3)]
    have eq': "r' = r1\<lparr>ix_state := IxDone\<rparr>" "q = Some (if pending_output r then OutputReady else RequestDone)"
      using eq r1(1) v(9) stopped(2) unfolding sh [OF stopped(1)] by auto
    have "ix_stop_at r \<noteq> None \<and> the (ix_stop_at r) \<le> ix_unpacked_pos r"
      using stopped(2) by (auto simp: stopped_def split: option.splits)
    then have "ix_live base acc (r1\<lparr>ix_state := IxDone\<rparr>)" using at i o l r1(2,3) v
      by (auto simp: ix_live_def ix_state_ok_def)
    moreover have "ix_pending r' = ix_pending r" "ix_fed r' = ix_fed r" "ix_work packed unpacked r' = ix_work packed unpacked r"
      "ix_eof r' = ix_eof r" "ix_config r' = ix_config r"
      using v r1(3) unfolding eq'(1) by simp_all
    ultimately show ?thesis using eq' po pend r0 by (auto simp: ix_step_ok_def)
  next
    case out
    then have "r' = r" "q = Some OutputReady" using eq po unfolding sh [OF out(1)] by auto
    then show ?thesis using live r0 out st pend [OF out(3)] by (auto simp: ix_step_ok_def)
  next
    case input
    then have eq': "r' = (if ix_eof r then r else r\<lparr>ix_state := IxNeedInput\<rparr>)" "q = Some NeedInput"
      using eq input po unfolding sh [OF input(1)] by (auto split: if_splits)
    have "ix_live base acc (r\<lparr>ix_state := IxNeedInput\<rparr>)" using at i o l t input pos
      by (simp add: ix_live_def ix_state_ok_def)
    moreover have "bytes_consumed res \<noteq> 0 \<or> bytes_produced res \<noteq> 0" using np input(1) by blast
    ultimately show ?thesis using eq' live r0 input st
      by (auto simp: ix_step_ok_def)
  next
    case go
    then have p: "bytes_consumed res \<noteq> 0 \<or> bytes_produced res \<noteq> 0" using np by blast
    then have "r' = r" "q = None" using eq go po unfolding sh [OF go(1)] by (auto split: if_splits)
    then show ?thesis using live r0 p st go(3) by (auto simp: ix_step_ok_def)
  qed
qed

lemma ix_offer_ok:
  assumes at: "at (ix_decompressor r) (ix_compressed_pos r) (ix_unpacked_pos r)" and t: "table_ok good r"
  obtains r1 where
    "ix_offer ops S r n before =
       (if ix_emit_output r then r1\<lparr>ix_out_len := n, ix_out_read := si_indexed_to (ix_index r) - before\<rparr> else r1, Inr ())"
    "table_ok good r1" "indexer_frame r1 = indexer_frame r"
proof -
  obtain s lay where sc: "should_checkpoint S (ix_strategy r) (indexer_context r) = (s, lay)"
    by (cases "should_checkpoint S (ix_strategy r) (indexer_context r)") auto
  have t': "table_ok good (r\<lparr>ix_strategy := s\<rparr>)" using t by (simp add: table_ok_def)
  have at': "at (ix_decompressor (r\<lparr>ix_strategy := s\<rparr>)) (ix_compressed_pos (r\<lparr>ix_strategy := s\<rparr>)) (ix_unpacked_pos (r\<lparr>ix_strategy := s\<rparr>))"
    using at by simp
  obtain r1 where
    "(if lay then try_checkpoint ops S (r\<lparr>ix_strategy := s\<rparr>) True else (r\<lparr>ix_strategy := s\<rparr>, Inr ())) = (r1, Inr ())"
    "table_ok good r1" "indexer_frame r1 = indexer_frame (r\<lparr>ix_strategy := s\<rparr>)"
  proof (cases lay)
    case True
    from try_checkpoint_ok [OF at' t', of S True] obtain r1 where
      "try_checkpoint ops S (r\<lparr>ix_strategy := s\<rparr>) True = (r1, Inr ())" "table_ok good r1"
      "indexer_frame r1 = indexer_frame (r\<lparr>ix_strategy := s\<rparr>)" by blast
    with True show thesis by (intro that [of r1]) simp_all
  next
    case False
    with t' show thesis by (intro that [of "r\<lparr>ix_strategy := s\<rparr>"]) simp_all
  qed
  then show thesis using that [of r1] sc by (simp add: ix_offer_def)
qed

lemma indexer_decode_ok:
  fixes r :: "('d, 's) stream_indexer"
  assumes r: "ix_live base acc r" and st: "ix_state r = IxProcessing" and p: "ix_pending r = []"
    and hi: "ix_unread r \<noteq> [] \<or> ix_eof r"
    and r0: "ix_eof r0 = ix_eof r" "ix_fed r0 = ix_fed r" "ix_config r0 = ix_config r"
      "ix_work packed unpacked r0 = ix_work packed unpacked r"
    and eq: "indexer_decode ops S r (ix_unread r) = (r', q)"
  shows "ix_step_ok base acc r0 r' q"
proof -
  let ?c = "ix_compressed_pos r" and ?u = "ix_unpacked_pos r" and ?t = "si_indexed_to (ix_index r)"
  from r have at: "at (ix_decompressor r) ?c ?u" and i: "ix_input_ok packed r" and o: "ix_output_ok unpacked base acc r"
    and l: "ix_len_ok unpacked r" and t: "table_ok good r" and nc: "\<not> si_complete (ix_index r)"
    using st by (simp_all add: ix_live_def ix_state_ok_def)
  have inp: "take (length (ix_unread r)) (drop ?c packed) = ix_unread r" using i by (simp add: ix_input_ok_def)
  have hi': "ix_unread r \<noteq> [] \<or> ?c = length packed" using hi i by (auto simp: ix_input_ok_def ix_fed_def)
  have cap: "0 < length (ix_out_buf r)" using o by (simp add: ix_output_ok_def BUF_SIZE_def)
  from step_facts [OF at inp hi' cap] obtain d res where
    d: "decompress ops (ix_decompressor r) (ix_unread r) (length (ix_out_buf r)) = (d, Inr res)"
      "bytes_consumed res \<le> length (ix_unread r)" "bytes_produced res \<le> length (ix_out_buf r)"
      "produced res = take (bytes_produced res) (drop ?u unpacked)"
      "at d (?c + bytes_consumed res) (?u + bytes_produced res)"
      "?u + bytes_produced res \<le> length unpacked" "?c + bytes_consumed res \<le> length packed"
      "status res = StreamEnd \<Longrightarrow> ?u + bytes_produced res = length unpacked"
      "bytes_consumed res = 0 \<Longrightarrow> bytes_produced res = 0 \<Longrightarrow> status res = StreamEnd" by blast
  let ?n = "bytes_produced res"
  define r1 where "r1 = ix_decoded r d res"
  have sel: "ix_decompressor r1 = d" "ix_compressed_pos r1 = ?c + bytes_consumed res" "ix_unpacked_pos r1 = ?u + ?n"
    "ix_index r1 = ix_index r" "ix_state r1 = IxProcessing" "ix_eof r1 = ix_eof r" "ix_emit_output r1 = ix_emit_output r"
    "ix_stop_at r1 = ix_stop_at r" "ix_out_len r1 = ix_out_len r" "ix_out_read r1 = ix_out_read r"
    "ix_out_buf r1 = copy_into (ix_out_buf r) 0 (produced res)" "ix_unread r1 = drop (bytes_consumed res) (ix_unread r)"
    "ix_last_checkpoint_pos r1 = ix_last_checkpoint_pos r" "ix_checkpoint_data_bytes r1 = ix_checkpoint_data_bytes r"
    using st by (simp_all add: r1_def ix_decoded_def ix_unread_def add.commute)
  have pl: "length (produced res) = ?n" by (simp add: bytes_produced_def)
  have fed: "ix_fed r1 = ix_fed r" using d(2) by (simp add: ix_fed_def sel)
  have "take (length (ix_unread r) - bytes_consumed res) (drop (?c + bytes_consumed res) packed)
      = drop (bytes_consumed res) (take (length (ix_unread r)) (drop ?c packed))"
    by (simp add: drop_take add.commute)
  also have "\<dots> = drop (bytes_consumed res) (ix_unread r)" using inp by simp
  finally have i1: "ix_input_ok packed r1" using i by (simp add: ix_input_ok_def fed sel)
  have t1: "table_ok good r1" using t by (auto simp: table_ok_def sel intro: trans_le_add1)
  have w: "ix_work packed unpacked r0 = ix_work packed unpacked r1 + bytes_consumed res + ?n"
    using r0(4) d(6,7) by (simp add: ix_work_def sel)
  define is_fresh where "is_fresh \<longleftrightarrow> ?u + ?n > ?t"
  have tb: "?u \<le> ?t" "?t \<le> length unpacked" "base \<le> ?t" using o by (simp_all add: ix_output_ok_def)
  have at1: "at (ix_decompressor r1) (ix_compressed_pos r1) (ix_unpacked_pos r1)" using d(5) by (simp add: sel)
  obtain r2 where
    raw: "ix_offer ops S r1 ?n ?u =
       (if ix_emit_output r1 then r2\<lparr>ix_out_len := ?n, ix_out_read := si_indexed_to (ix_index r1) - ?u\<rparr> else r2, Inr ())"
      "table_ok good r2" "indexer_frame r2 = indexer_frame r1"
    by (rule ix_offer_ok [OF at1 t1, of S ?n ?u])
  then have
    r2: "ix_offer ops S r1 ?n ?u = (if ix_emit_output r then r2\<lparr>ix_out_len := ?n, ix_out_read := ?t - ?u\<rparr> else r2, Inr ())"
      "table_ok good r2" "indexer_frame r2 = indexer_frame r1" by (simp_all only: sel)
  note v = ix_frame_views [OF r2(3)] and f2 = r2(3) [unfolded indexer_frame_eq]
  define r4 where "r4 = (if is_fresh then
       (if ix_emit_output r then r2\<lparr>ix_out_len := ?n, ix_out_read := ?t - ?u\<rparr> else r2)
         \<lparr>ix_index := (ix_index r2)\<lparr>si_indexed_to := ?u + ?n\<rparr>\<rparr> else r1)"
  have eq4: "indexer_conclude ops S r4 res (ix_unread r \<noteq> []) = (r', q)"
    using eq r2(1,3) tb(1) unfolding indexer_decode_alt [OF d(1)] r1_def [symmetric]
    by (auto simp: Let_def sel is_fresh_def r4_def)
  have sel4: "ix_decompressor r4 = d" "ix_compressed_pos r4 = ?c + bytes_consumed res" "ix_unpacked_pos r4 = ?u + ?n"
    "ix_state r4 = IxProcessing" "ix_eof r4 = ix_eof r" "ix_emit_output r4 = ix_emit_output r" "ix_stop_at r4 = ix_stop_at r"
    "ix_out_buf r4 = copy_into (ix_out_buf r) 0 (produced res)" "ix_unread r4 = ix_unread r1"
    "si_indexed_to (ix_index r4) = (if is_fresh then ?u + ?n else ?t)"
    "si_unpacked_len (ix_index r4) = si_unpacked_len (ix_index r)" "si_complete (ix_index r4) = si_complete (ix_index r)"
    "si_codec (ix_index r4) = si_codec (ix_index r)" "si_compressed_len (ix_index r4) = si_compressed_len (ix_index r)"
    "ix_out_len r4 = (if is_fresh \<and> ix_emit_output r then ?n else ix_out_len r)"
    "ix_out_read r4 = (if is_fresh \<and> ix_emit_output r then ?t - ?u else ix_out_read r)"
    using v(1) by (cases is_fresh; cases "ix_emit_output r"; simp add: r4_def f2 sel)+
  have fed4: "ix_fed r4 = ix_fed r" using fed by (simp add: ix_fed_def sel4 sel)
  have i4: "ix_input_ok packed r4" using i1 by (simp add: ix_input_ok_def fed4 fed sel4 sel)
  have t4: "table_ok good r4"
    using t1 r2(2) by (auto simp: r4_def table_ok_def checkpoint_data_bytes_def)
  have l4: "ix_len_ok unpacked r4" using l nc by (simp add: ix_len_ok_def sel4)
  have w4: "ix_work packed unpacked r0 = ix_work packed unpacked r4 + bytes_consumed res + ?n"
    using w by (simp add: ix_work_def sel4 sel)
  have buf: "take ?n (copy_into (ix_out_buf r) 0 (produced res)) = produced res"
    using pl by (simp add: copy_into_def)
  have same: "ix_out_read r = ix_out_len r" using p o by (auto simp: ix_pending_def ix_output_ok_def)
  have pend4: "ix_pending r4 = (if is_fresh \<and> ix_emit_output r then drop (?t - ?u) (produced res) else [])"
    using buf same by (simp add: ix_pending_def sel4)
  have o4: "ix_output_ok unpacked base acc r4"
  proof -
    have blen: "length (copy_into (ix_out_buf r) 0 (produced res)) = length (ix_out_buf r)" using d(3) pl by simp
    have app: "acc @ drop (?t - ?u) (produced res) = drop base (take (?u + ?n) unpacked)" if f: is_fresh and e: "ix_emit_output r"
    proof -
      have acc: "acc = drop base (take ?t unpacked)" using o p e by (simp add: ix_output_ok_def)
      have "take (?u + ?n) unpacked = take ?t unpacked @ take (?u + ?n - ?t) (drop ?t unpacked)"
        using f take_add [of ?t "?u + ?n - ?t" unpacked] by (simp add: is_fresh_def)
      moreover have "drop (?t - ?u) (produced res) = take (?u + ?n - ?t) (drop ?t unpacked)"
        using tb(1) f unfolding d(4) is_fresh_def by (simp add: drop_take add.commute)
      ultimately show ?thesis using acc tb by simp
    qed
    show ?thesis using o d(3,6) tb app blen p
      by (cases "is_fresh \<and> ix_emit_output r") (auto simp: ix_output_ok_def sel4 pend4 is_fresh_def)
  qed
  show ?thesis
  proof (rule indexer_conclude_ok [OF _ i4 o4 l4 t4 _ _ _ _ _ w4 _ _ _ eq4])
    show "ix_pending r4 \<noteq> [] \<Longrightarrow> ix_emit_output r4 \<and> 0 < ?n" using pend4 pl by (auto simp: sel4 split: if_splits)
  qed (use d sel4 fed4 r0 nc in auto)
qed

lemma indexer_process_ok:
  assumes r: "ix_live base acc r" and st: "ix_state r = IxProcessing"
    and r0: "ix_eof r0 = ix_eof r" "ix_fed r0 = ix_fed r" "ix_config r0 = ix_config r"
      "ix_work packed unpacked r0 = ix_work packed unpacked r" "ix_pending r0 = ix_pending r"
    and eq: "indexer_process ops S r = (r', q)"
  shows "ix_step_ok base acc r0 r' q"
proof -
  from r have o: "ix_output_ok unpacked base acc r" by (simp add: ix_live_def)
  have po: "pending_output r \<longleftrightarrow> ix_pending r \<noteq> []" by (rule pending_output_iff [OF o])
  have un: "ix_input_pos r < length (ix_input_buf r) \<longleftrightarrow> ix_unread r \<noteq> []" by (auto simp: ix_unread_def)
  consider (out) "ix_pending r \<noteq> []" | (dec) "ix_pending r = []" "ix_unread r \<noteq> [] \<or> ix_eof r"
    | (wait) "ix_pending r = []" "ix_unread r = []" "\<not> ix_eof r" by blast
  then show ?thesis
  proof cases
    case out
    moreover have "ix_emit_output r" using out o by (auto simp: ix_output_ok_def split: if_splits)
    ultimately show ?thesis using eq r r0 po st by (auto simp: indexer_process_def ix_step_ok_def)
  next
    case dec
    then have "indexer_decode ops S r (ix_unread r) = (r', q)"
      using eq po un by (auto simp: indexer_process_def ix_unread_def split: if_splits)
    then show ?thesis using dec r st r0 by (intro indexer_decode_ok)
  next
    case wait
    then have eq': "r' = r\<lparr>ix_state := IxNeedInput\<rparr>" "q = Some NeedInput"
      using eq po un by (auto simp: indexer_process_def)
    have "ix_live base acc (r\<lparr>ix_state := IxNeedInput\<rparr>)" using r wait st by (simp add: ix_live_def ix_state_ok_def)
    then show ?thesis using eq' wait r0 by (auto simp: ix_step_ok_def)
  qed
qed

lemma indexer_step_once_ok:
  assumes r: "ix_live base acc r" and ns: "\<forall>off. ix_state r \<noteq> IxSeek off" and eq: "indexer_step_once ops S r = (r', q)"
  shows "ix_step_ok base acc r r' q"
proof (cases "ix_state r")
  case IxNeedInput
  show ?thesis
  proof (cases "ix_eof r")
    case True
    have "ix_live base acc (r\<lparr>ix_state := IxProcessing\<rparr>)" using r IxNeedInput by (simp add: ix_live_def ix_state_ok_def)
    moreover have "indexer_process ops S (r\<lparr>ix_state := IxProcessing\<rparr>) = (r', q)"
      using eq IxNeedInput True by (simp add: indexer_step_once_def)
    ultimately show ?thesis by (intro indexer_process_ok [where r = "r\<lparr>ix_state := IxProcessing\<rparr>"]) simp_all
  next
    case False
    then show ?thesis using eq r IxNeedInput by (auto simp: indexer_step_once_def ix_step_ok_def ix_live_def ix_state_ok_def)
  qed
next
  case IxProcessing
  then show ?thesis using eq r by (intro indexer_process_ok [of base acc r r]) (simp_all add: indexer_step_once_def)
qed (use ns eq r in \<open>auto simp: indexer_step_once_def ix_step_ok_def\<close>)

lemma indexer_step_live:
  assumes "ix_live base acc r" and "\<forall>off. ix_state r \<noteq> IxSeek off"
  shows "\<exists>r' q. indexer_step ops S r = Some (r', q) \<and> ix_step_ok base acc r r' (Some q)"
  using assms
proof (induction "ix_work packed unpacked r" arbitrary: r rule: less_induct)
  case less
  obtain r1 q1 where one: "indexer_step_once ops S r = (r1, q1)" by (cases "indexer_step_once ops S r") auto
  from indexer_step_once_ok [OF less.prems one] have ok: "ix_step_ok base acc r r1 q1" .
  show ?case
  proof (cases q1)
    case None
    with ok have l1: "ix_live base acc r1" "ix_work packed unpacked r1 < ix_work packed unpacked r"
      "\<forall>off. ix_state r1 \<noteq> IxSeek off" by (simp_all add: ix_step_ok_def)
    from less.hyps [OF l1(2,1,3)] obtain r' q where
      st: "indexer_step ops S r1 = Some (r', q)" "ix_step_ok base acc r1 r' (Some q)" by blast
    have "indexer_step ops S r = indexer_step ops S r1" using one None by (subst indexer_step.simps) simp
    moreover have "ix_step_ok base acc r r' (Some q)"
      using ok st(2) None by (auto simp: ix_step_ok_def split: engine_request.splits)
    ultimately show ?thesis using st(1) by auto
  next
    case (Some q)
    then have "indexer_step ops S r = Some (r1, q)" using one by (subst indexer_step.simps) simp
    then show ?thesis using ok Some by auto
  qed
qed

text \<open>The first step of a resumed pass.\<close>

lemma indexer_step_seek:
  assumes "ix_live base acc r" and "ix_state r = IxSeek off"
  shows "indexer_step ops S r = Some (r\<lparr>ix_state := IxNeedInput\<rparr>, SeekAndRead off BUF_SIZE)"
    "ix_live base acc (r\<lparr>ix_state := IxNeedInput\<rparr>)" "ix_unread r = []" "ix_fed r = off" "\<not> ix_eof r"
proof -
  show "indexer_step ops S r = Some (r\<lparr>ix_state := IxNeedInput\<rparr>, SeekAndRead off BUF_SIZE)"
    using assms(2) by (subst indexer_step.simps) (simp add: indexer_step_once_def)
qed (use assms in \<open>simp_all add: ix_live_def ix_state_ok_def ix_fed_def\<close>)

section \<open>Input and output\<close>

lemma ix_provide_live:
  assumes r: "ix_live base acc r" and un: "ix_unread r = []" and ns: "ix_state r \<noteq> IxDone" and eof: "\<not> ix_eof r"
    and data: "take (length data) (drop (ix_fed r) packed) = data" "data \<noteq> []"
  shows "ix_live base acc (indexer_provide_data r data)"
    "ix_work packed unpacked (indexer_provide_data r data) = ix_work packed unpacked r"
    "ix_fed (indexer_provide_data r data) = ix_fed r + length data"
    "ix_fed r + length data \<le> length packed"
    "ix_config (indexer_provide_data r data) = ix_config r"
proof -
  define r' where "r' = indexer_provide_data r data"
  have sel: "ix_decompressor r' = ix_decompressor r" "ix_unpacked_pos r' = ix_unpacked_pos r" "ix_eof r' = ix_eof r"
    "ix_compressed_pos r' = ix_compressed_pos r" "ix_unread r' = data" "ix_pending r' = ix_pending r"
    "ix_index r' = ix_index r" "ix_out_buf r' = ix_out_buf r" "ix_out_len r' = ix_out_len r" "ix_out_read r' = ix_out_read r"
    "ix_emit_output r' = ix_emit_output r" "ix_state r' = IxProcessing" "ix_last_checkpoint_pos r' = ix_last_checkpoint_pos r"
    "ix_checkpoint_data_bytes r' = ix_checkpoint_data_bytes r" "ix_stop_at r' = ix_stop_at r"
    by (simp_all add: r'_def indexer_provide_data_def ix_unread_def ix_pending_def)
  have f: "ix_fed r = ix_compressed_pos r" using un by (simp add: ix_fed_def)
  have f': "ix_fed r' = ix_fed r + length data" by (simp add: ix_fed_def sel un)
  have "length data \<le> length packed - ix_fed r" using arg_cong [OF data(1), of length] by simp
  moreover have "ix_fed r \<le> length packed" using r by (simp add: ix_live_def ix_input_ok_def)
  ultimately have le: "ix_fed r + length data \<le> length packed" by linarith
  have "ix_input_ok packed r'" using le data(1) eof f by (simp add: ix_input_ok_def f' sel)
  moreover have "ix_output_ok unpacked base acc r'" "ix_len_ok unpacked r'" "table_ok good r'" "ix_state_ok r'"
    using r ns by (simp_all add: ix_live_def ix_output_ok_def ix_len_ok_def table_ok_def ix_state_ok_def sel
        split: indexer_state.splits)
  ultimately show "ix_live base acc (indexer_provide_data r data)"
    using r unfolding r'_def [symmetric] by (simp add: ix_live_def sel)
  show "ix_work packed unpacked (indexer_provide_data r data) = ix_work packed unpacked r"
    "ix_fed (indexer_provide_data r data) = ix_fed r + length data" "ix_fed r + length data \<le> length packed"
    "ix_config (indexer_provide_data r data) = ix_config r"
    unfolding r'_def [symmetric] using le f' by (simp_all add: ix_work_def sel)
qed

lemma ix_signal_eof_live:
  assumes r: "ix_live base acc r" and ns: "ix_state r \<noteq> IxDone" and f: "ix_fed r = length packed"
  shows "ix_live base acc (indexer_signal_eof r)" "ix_eof (indexer_signal_eof r)"
    "ix_work packed unpacked (indexer_signal_eof r) = ix_work packed unpacked r"
    "ix_fed (indexer_signal_eof r) = ix_fed r" "ix_config (indexer_signal_eof r) = ix_config r"
    "ix_pending (indexer_signal_eof r) = ix_pending r"
proof -
  define r' where "r' = indexer_signal_eof r"
  have sel: "ix_decompressor r' = ix_decompressor r" "ix_unpacked_pos r' = ix_unpacked_pos r" "ix_eof r'"
    "ix_compressed_pos r' = ix_compressed_pos r" "ix_unread r' = ix_unread r" "ix_pending r' = ix_pending r"
    "ix_index r' = ix_index r" "ix_out_buf r' = ix_out_buf r" "ix_out_len r' = ix_out_len r" "ix_out_read r' = ix_out_read r"
    "ix_emit_output r' = ix_emit_output r" "ix_state r' = IxProcessing" "ix_last_checkpoint_pos r' = ix_last_checkpoint_pos r"
    "ix_checkpoint_data_bytes r' = ix_checkpoint_data_bytes r" "ix_stop_at r' = ix_stop_at r"
    by (simp_all add: r'_def indexer_signal_eof_def ix_unread_def ix_pending_def)
  have f': "ix_fed r' = ix_fed r" by (simp add: ix_fed_def sel)
  have "ix_input_ok packed r'" using r f by (simp add: ix_live_def ix_input_ok_def f' sel)
  moreover have "ix_output_ok unpacked base acc r'" "ix_len_ok unpacked r'" "table_ok good r'" "ix_state_ok r'"
    using r ns by (simp_all add: ix_live_def ix_output_ok_def ix_len_ok_def table_ok_def ix_state_ok_def sel
        split: indexer_state.splits)
  ultimately show "ix_live base acc (indexer_signal_eof r)"
    using r unfolding r'_def [symmetric] by (simp add: ix_live_def sel)
  show "ix_eof (indexer_signal_eof r)" "ix_work packed unpacked (indexer_signal_eof r) = ix_work packed unpacked r"
    "ix_fed (indexer_signal_eof r) = ix_fed r" "ix_config (indexer_signal_eof r) = ix_config r"
    "ix_pending (indexer_signal_eof r) = ix_pending r"
    unfolding r'_def [symmetric] using f' by (simp_all add: ix_work_def sel)
qed

lemma ix_read_output_live:
  assumes r: "ix_live base acc r" and e: "ix_emit_output r" and eq: "indexer_read_output r cap = (r', out)" and cap: "0 < cap"
  shows "ix_live base (acc @ out) r'" "out = take cap (ix_pending r)" "ix_pending r' = drop cap (ix_pending r)"
    "ix_eof r' = ix_eof r" "ix_fed r' = ix_fed r" "ix_config r' = ix_config r"
    "ix_work packed unpacked r' = ix_work packed unpacked r" "ix_state r' = ix_state r"
proof -
  have o: "ix_output_ok unpacked base acc r" using r by (simp add: ix_live_def)
  define k where "k = min (ix_out_len r - ix_out_read r) cap"
  have lp: "length (ix_pending r) = ix_out_len r - ix_out_read r" using o by (simp add: ix_pending_def ix_output_ok_def)
  define r1 where "r1 = r\<lparr>ix_out_read := ix_out_read r + k\<rparr>"
  have r': "r' = (if ix_out_len r = ix_out_read r then r else
      if ix_out_read r + k \<ge> ix_out_len r then r1\<lparr>ix_out_len := 0, ix_out_read := 0\<rparr> else r1)"
    and out: "out = (if ix_out_len r = ix_out_read r then [] else subslice (ix_out_read r) (ix_out_read r + k) (ix_out_buf r))"
  proof -
    have z: "(ix_out_len r - ix_out_read r = 0) = (ix_out_len r = ix_out_read r)" using o by (auto simp: ix_output_ok_def)
    from eq have eq': "(r', out) = (if ix_out_len r = ix_out_read r then (r, []) else
        (if ix_out_read r + k \<ge> ix_out_len r then r1\<lparr>ix_out_len := 0, ix_out_read := 0\<rparr> else r1,
         subslice (ix_out_read r) (ix_out_read r + k) (ix_out_buf r)))"
      unfolding indexer_read_output_def Let_def z k_def [symmetric] r1_def [symmetric]
      by (cases "ix_out_len r = ix_out_read r") (simp_all add: r1_def)
    then show "r' = (if ix_out_len r = ix_out_read r then r else
      if ix_out_read r + k \<ge> ix_out_len r then r1\<lparr>ix_out_len := 0, ix_out_read := 0\<rparr> else r1)"
      "out = (if ix_out_len r = ix_out_read r then [] else subslice (ix_out_read r) (ix_out_read r + k) (ix_out_buf r))"
      by (cases "ix_out_len r = ix_out_read r"; simp)+
  qed
  have kc: "take k xs = take cap xs \<and> drop k xs = drop cap xs" if "length xs = ix_out_len r - ix_out_read r" for xs :: bytes
    using that by (simp add: k_def min_def)
  show outp: "out = take cap (ix_pending r)"
  proof (cases "ix_out_len r = ix_out_read r")
    case True
    then show ?thesis using out lp by simp
  next
    case False
    have "k \<le> ix_out_len r - ix_out_read r" "ix_out_read r \<le> ix_out_len r" using o by (simp_all add: k_def ix_output_ok_def)
    then have "ix_out_read r + k \<le> ix_out_len r" by linarith
    then have "out = take k (ix_pending r)"
      using out False by (simp add: subslice_def ix_pending_def drop_take)
    then show ?thesis using kc lp by simp
  qed
  show pend': "ix_pending r' = drop cap (ix_pending r)"
  proof -
    have "ix_pending r' = drop k (ix_pending r)"
    proof (cases "ix_out_read r + k \<ge> ix_out_len r")
      case True
      then have "drop k (ix_pending r) = []" using lp by simp
      moreover have "ix_pending r' = []" using True lp by (cases "ix_out_len r = ix_out_read r") (simp_all add: r' ix_pending_def)
      ultimately show ?thesis by simp
    next
      case False
      then show ?thesis by (simp add: r' r1_def ix_pending_def add.commute)
    qed
    then show ?thesis using kc lp by simp
  qed
  have sel: "ix_decompressor r' = ix_decompressor r" "ix_unpacked_pos r' = ix_unpacked_pos r" "ix_eof r' = ix_eof r"
    "ix_compressed_pos r' = ix_compressed_pos r" "ix_unread r' = ix_unread r"
    "ix_index r' = ix_index r" "ix_out_buf r' = ix_out_buf r"
    "ix_emit_output r' = ix_emit_output r" "ix_state r' = ix_state r" "ix_last_checkpoint_pos r' = ix_last_checkpoint_pos r"
    "ix_checkpoint_data_bytes r' = ix_checkpoint_data_bytes r" "ix_stop_at r' = ix_stop_at r"
    by (simp_all add: r' r1_def ix_unread_def)
  have lens: "ix_out_read r' \<le> ix_out_len r'" "ix_out_len r' \<le> length (ix_out_buf r')"
    using o by (auto simp: r' r1_def ix_output_ok_def)
  have "ix_output_ok unpacked base (acc @ out) r'"
    using o e lens outp pend' by (simp add: ix_output_ok_def sel)
  moreover have f': "ix_fed r' = ix_fed r" by (simp add: ix_fed_def sel)
  moreover have "ix_input_ok packed r'" using r by (simp add: ix_live_def ix_input_ok_def f' sel)
  moreover have "ix_state_ok r'" using r pend' by (auto simp: ix_live_def ix_state_ok_def sel split: indexer_state.splits)
  ultimately show "ix_live base (acc @ out) r'" using r by (simp add: ix_live_def ix_len_ok_def table_ok_def sel)
  show "ix_eof r' = ix_eof r" "ix_fed r' = ix_fed r" "ix_config r' = ix_config r"
    "ix_work packed unpacked r' = ix_work packed unpacked r" "ix_state r' = ix_state r"
    using f' by (simp_all add: ix_work_def sel)
qed

section \<open>The start of a pass\<close>

lemma indexer_new_live:
  assumes "create codec = Inr d" and "fresh d"
  obtains r where "indexer_new create codec strat clen = Inr r" "ix_live 0 [] r" "\<forall>off. ix_state r \<noteq> IxSeek off"
    "ix_config r = (False, None, codec, clen)" "ix_fed r = 0" "\<not> ix_eof r" "ix_pending r = []" "ix_unread r = []" "ix_state r \<noteq> IxDone"
proof -
  from assms(1) obtain r where r: "indexer_new create codec strat clen = Inr r" by (simp add: indexer_new_def)
  moreover have "ix_live 0 [] r" using r assms fresh_law [OF assms(2)] start_law cps_ok_start
    by (auto simp: indexer_new_def indexer_with_parts_def stream_index_new_def ix_live_def ix_input_ok_def ix_fed_def
        ix_unread_def ix_output_ok_def ix_pending_def ix_len_ok_def table_ok_def ix_state_ok_def start_checkpoint_def)
  ultimately show thesis using that r assms
    by (auto simp: indexer_new_def indexer_with_parts_def stream_index_new_def ix_config_def ix_fed_def ix_unread_def ix_pending_def)
qed

lemma indexer_resume_live:
  assumes cr: "create (si_codec idx) = Inr d" "fresh d" and nc: "\<not> si_complete idx"
    and cps: "cps_ok (si_checkpoints idx)" "\<forall>cp\<in>set (si_checkpoints idx). good cp"
    and to: "uncompressed_offset (last_checkpoint idx) \<le> si_indexed_to idx" "si_indexed_to idx \<le> length unpacked"
    and len: "si_unpacked_len idx = None \<or> si_unpacked_len idx = Some (length unpacked)"
  obtains r where "indexer_resume ops create idx strat = Inr r" "ix_live (si_indexed_to idx) [] r" "ix_pending r = []"
    "ix_config r = (False, None, si_codec idx, si_compressed_len idx)" "ix_fed r = compressed_offset (last_checkpoint idx)"
    "\<not> ix_eof r" "ix_index r = idx" "ix_unread r = []" "ix_state r \<noteq> IxDone"
proof -
  let ?cp = "last_checkpoint idx"
  have g: "good ?cp" using cps last_checkpoint_in by blast
  from restore_law [OF cr(2) g] obtain d' where
    d: "restore ops d ?cp = (d', Inr ())" "at d' (compressed_offset ?cp) (uncompressed_offset ?cp)" by blast
  define r where "r = indexer_with_parts d' idx strat
      (if compressed_offset ?cp = 0 then IxNeedInput else IxSeek (compressed_offset ?cp)) (compressed_offset ?cp) (uncompressed_offset ?cp)"
  have "indexer_resume ops create idx strat = Inr r" using nc cr(1) d(1) by (simp add: indexer_resume_def r_def Let_def)
  moreover note sorted = last_checkpoint_max [OF cps(1)]
  moreover have "ix_live (si_indexed_to idx) [] r"
    using d(2) at_bound [OF d(2)] nc cps to len sorted
    by (simp add: r_def indexer_with_parts_def ix_live_def ix_input_ok_def ix_fed_def
        ix_unread_def ix_output_ok_def ix_pending_def ix_len_ok_def table_ok_def ix_state_ok_def)
  ultimately show thesis using that
    by (auto simp: r_def indexer_with_parts_def ix_config_def ix_fed_def ix_unread_def ix_pending_def split: if_splits)
qed

end

end
