(* ===== verification/ReaderCorrect.thy ===== *)
theory ReaderCorrect
  imports Reader
begin

text \<open>
  Correctness of \<^verbatim>\<open>StreamReader\<close> over any decompressor that keeps the \<open>decoder\<close> contract: an
  invariant of a live reader, its preservation by every operation, and that driving the reader
  ends and hands out exactly the bytes of the range.
\<close>

section \<open>What holds of a live reader\<close>

definition unread :: "'d stream_reader \<Rightarrow> bytes" where
  "unread r = drop (sr_input_pos r) (sr_input_buf r)"

definition buffered :: "'d stream_reader \<Rightarrow> bytes" where
  "buffered r = drop (sr_output_read r) (take (sr_output_len r) (sr_output_buf r))"

text \<open>Packed bytes given to the decompressor.\<close>

definition consumed :: "'d stream_reader \<Rightarrow> nat" where
  "consumed r = sr_compressed_pos r - length (unread r)"

definition input_ok :: "bytes \<Rightarrow> 'd stream_reader \<Rightarrow> bool" where
  "input_ok packed r \<longleftrightarrow>
     length (unread r) \<le> sr_compressed_pos r \<and> sr_compressed_pos r \<le> length packed \<and>
     take (length (unread r)) (drop (consumed r) packed) = unread r \<and>
     (sr_eof r \<longrightarrow> sr_compressed_pos r = length packed)"

definition output_ok :: "bytes \<Rightarrow> 'd stream_reader \<Rightarrow> bool" where
  "output_ok unpacked r \<longleftrightarrow>
     sr_output_read r \<le> sr_output_len r \<and> sr_output_len r \<le> length (sr_output_buf r) \<and>
     length (sr_output_buf r) = BUF_SIZE \<and> length (buffered r) \<le> sr_unpacked_pos r \<and>
     take (length (buffered r)) (drop (sr_unpacked_pos r - length (buffered r)) unpacked) = buffered r \<and>
     (sr_stream_ended r \<longrightarrow> sr_unpacked_pos r = length unpacked)"

text \<open>The reader stands where its state says, having handed out \<open>acc\<close> of the range \<open>off\<close>, \<open>len\<close>.\<close>

definition range_ok :: "bytes \<Rightarrow> nat \<Rightarrow> nat \<Rightarrow> bytes \<Rightarrow> 'd stream_reader \<Rightarrow> bool" where
  "range_ok unpacked off len acc r \<longleftrightarrow>
     sr_target_offset r = off \<and> sr_target_len r = len \<and> length acc \<le> len \<and>
     sr_range_left r = len - length acc \<and> take (length acc) (drop off unpacked) = acc"

definition state_ok :: "bytes \<Rightarrow> nat \<Rightarrow> nat \<Rightarrow> bytes \<Rightarrow> 'd stream_reader \<Rightarrow> bool" where
  "state_ok unpacked off len acc r \<longleftrightarrow>
     (let pos = sr_unpacked_pos r - length (buffered r) in
      case sr_state r of
        SeekToCheckpoint \<Rightarrow> False
      | Skipping n \<Rightarrow> sr_unpacked_pos r + n = off \<and> 0 < n \<and> buffered r = [] \<and> acc = [] \<and> 0 < len
      | NeedInputSkipping n \<Rightarrow> sr_unpacked_pos r + n = off \<and> 0 < n \<and> buffered r = [] \<and> acc = [] \<and> 0 < len \<and> unread r = []
      | Emitting n \<Rightarrow> sr_unpacked_pos r + n = off + len \<and> 0 < n \<and> pos = off + length acc
      | NeedInputEmitting n \<Rightarrow> sr_unpacked_pos r + n = off + len \<and> 0 < n \<and> pos = off + length acc \<and> unread r = []
      | ReaderDone \<Rightarrow> (len = 0 \<and> pos \<le> off)
          \<or> (sr_unpacked_pos r = length unpacked \<and> sr_unpacked_pos r \<le> off \<and> buffered r = [] \<and> acc = [])
          \<or> (pos = off + length acc \<and> (off + len \<le> sr_unpacked_pos r \<or> sr_unpacked_pos r = length unpacked)))"

definition work_left :: "bytes \<Rightarrow> bytes \<Rightarrow> 'd stream_reader \<Rightarrow> nat" where
  "work_left packed unpacked r = (length packed - consumed r) + (length unpacked - sr_unpacked_pos r)"

lemma state_ok_cong:
  "sr_unpacked_pos r' = sr_unpacked_pos r \<Longrightarrow> buffered r' = buffered r \<Longrightarrow> unread r' = unread r \<Longrightarrow>
   sr_state r' = sr_state r \<Longrightarrow> state_ok u off len acc r' = state_ok u off len acc r"
  unfolding state_ok_def by (cases "sr_state r") simp_all

text \<open>What stays as \<^verbatim>\<open>new\<close> set it.\<close>

definition config :: "'d stream_reader \<Rightarrow> bool \<times> nat option" where
  "config r = (sr_require_full r, sr_unpacked_len r)"

lemma config_eq [simp]:
  "config r = config r' \<longleftrightarrow> sr_require_full r = sr_require_full r' \<and> sr_unpacked_len r = sr_unpacked_len r'"
  by (simp add: config_def)

text \<open>What driving a reader gives when the stream holds \<open>out\<close> of its \<open>len\<close> bytes.\<close>

definition read_result :: "bool \<Rightarrow> nat \<Rightarrow> bytes \<Rightarrow> bytes result" where
  "read_result full len out = (if full \<and> length out < len then Inl TruncatedInput else Inr out)"

lemmas reader_ok_defs = input_ok_def output_ok_def range_ok_def state_ok_def

lemma length_buffered: "output_ok unpacked r \<Longrightarrow> length (buffered r) = sr_output_len r - sr_output_read r"
  by (simp add: buffered_def output_ok_def)

lemma serveable_buffered: "output_ok unpacked r \<Longrightarrow> serveable r = min (length (buffered r)) (sr_range_left r)"
  by (simp add: serveable_def length_buffered)

lemma reader_views_simps [simp]:
  "unread (r\<lparr>sr_state := s\<rparr>) = unread r" "unread (r\<lparr>sr_stream_ended := b\<rparr>) = unread r"
  "buffered (r\<lparr>sr_state := s\<rparr>) = buffered r" "buffered (r\<lparr>sr_stream_ended := b\<rparr>) = buffered r"
  "consumed (r\<lparr>sr_state := s\<rparr>) = consumed r" "consumed (r\<lparr>sr_stream_ended := b\<rparr>) = consumed r"
  "serveable (r\<lparr>sr_state := s\<rparr>) = serveable r" "serveable (r\<lparr>sr_stream_ended := b\<rparr>) = serveable r"
  "work_left p u (r\<lparr>sr_state := s\<rparr>) = work_left p u r" "work_left p u (r\<lparr>sr_stream_ended := b\<rparr>) = work_left p u r"
  "input_ok p (r\<lparr>sr_state := s\<rparr>) = input_ok p r" "input_ok p (r\<lparr>sr_stream_ended := b\<rparr>) = input_ok p r"
  "output_ok u (r\<lparr>sr_state := s\<rparr>) = output_ok u r"
  "range_ok u off len acc (r\<lparr>sr_state := s\<rparr>) = range_ok u off len acc r"
  "range_ok u off len acc (r\<lparr>sr_stream_ended := b\<rparr>) = range_ok u off len acc r"
  by (simp_all add: unread_def buffered_def consumed_def serveable_def work_left_def input_ok_def output_ok_def range_ok_def)

context decoder
begin

definition live :: "nat \<Rightarrow> nat \<Rightarrow> bytes \<Rightarrow> 'd stream_reader \<Rightarrow> bool" where
  "live off len acc r \<longleftrightarrow>
     sr_started r \<and> at (sr_decompressor r) (consumed r) (sr_unpacked_pos r) \<and> input_ok packed r \<and>
     output_ok unpacked r \<and> range_ok unpacked off len acc r \<and> state_ok unpacked off len acc r"

definition step_ok :: "nat \<Rightarrow> nat \<Rightarrow> bytes \<Rightarrow> 'd stream_reader \<Rightarrow> 'd stream_reader \<Rightarrow> engine_request option \<Rightarrow> bool" where
  "step_ok off len acc r r' q \<longleftrightarrow>
     live off len acc r' \<and> sr_eof r' = sr_eof r \<and> sr_compressed_pos r' = sr_compressed_pos r \<and>
     config r' = config r \<and>
     work_left packed unpacked r' \<le> work_left packed unpacked r \<and>
     (case q of
        None \<Rightarrow> work_left packed unpacked r' < work_left packed unpacked r
      | Some NeedInput \<Rightarrow> unread r' = [] \<and> serveable r' = 0 \<and>
          (sr_eof r \<longrightarrow> work_left packed unpacked r' < work_left packed unpacked r)
      | Some OutputReady \<Rightarrow> serveable r' > 0 \<and>
          (work_left packed unpacked r' < work_left packed unpacked r \<or> serveable r > 0)
      | Some RequestDone \<Rightarrow> serveable r' = 0 \<and> sr_state r' = ReaderDone
      | _ \<Rightarrow> False)"

text \<open>A decoding step that hands nothing out.\<close>

lemma after_decode_ok:
  assumes r: "sr_started r" "input_ok packed r" "output_ok unpacked r" "range_ok unpacked off len acc r"
    and at: "at (sr_decompressor r) (consumed r) (sr_unpacked_pos r)"
    and b: "buffered r = []"
    and st: "(\<exists>n. sr_state r = Skipping n \<or> sr_state r = Emitting n)" "state_ok unpacked off len acc r"
    and r0: "sr_eof r0 = sr_eof r" "sr_compressed_pos r0 = sr_compressed_pos r" "config r0 = config r"
      "work_left packed unpacked r0 = work_left packed unpacked r + bytes_consumed res + bytes_produced res"
    and se: "status res = StreamEnd \<Longrightarrow> sr_unpacked_pos r = length unpacked"
    and np: "bytes_consumed res = 0 \<Longrightarrow> bytes_produced res = 0 \<Longrightarrow> status res = StreamEnd"
    and hi: "had_input \<or> sr_eof r" "\<not> had_input \<Longrightarrow> unread r = []"
    and eq: "after_decode r res had_input = (r', q)"
  shows "step_ok off len acc r0 r' q"
proof -
  have sv: "serveable r = 0" using r(3) b by (simp add: serveable_buffered)
  have done_ok: "step_ok off len acc r0 (r\<lparr>sr_stream_ended := True, sr_state := ReaderDone\<rparr>) (Some RequestDone)"
    if "sr_unpacked_pos r = length unpacked"
  proof -
    have "output_ok unpacked (r\<lparr>sr_stream_ended := True\<rparr>)" using r(3) that b by (simp add: output_ok_def)
    moreover have "state_ok unpacked off len acc (r\<lparr>sr_stream_ended := True, sr_state := ReaderDone\<rparr>)"
      using st b that by (auto simp: state_ok_def)
    ultimately show ?thesis using r at r0 sv by (simp add: step_ok_def live_def)
  qed
  have same: "live off len acc r" using r at st by (simp add: live_def)
  let ?fin = "r\<lparr>sr_stream_ended := True, sr_state := ReaderDone\<rparr>"
  have un: "sr_input_pos r \<ge> length (sr_input_buf r) \<longleftrightarrow> unread r = []" by (simp add: unread_def)
  consider (ended) "status res = StreamEnd" "had_input" | (idle) "unread r = []" "sr_eof r" "\<not> (status res = StreamEnd \<and> had_input)"
      "bytes_consumed res = 0" "bytes_produced res = 0"
    | (drain) "unread r = []" "sr_eof r" "\<not> (status res = StreamEnd \<and> had_input)"
      "bytes_consumed res \<noteq> 0 \<or> bytes_produced res \<noteq> 0"
    | (wait) "unread r = []" "\<not> sr_eof r" "\<not> (status res = StreamEnd \<and> had_input)"
    | (go) "unread r \<noteq> []" "\<not> (status res = StreamEnd \<and> had_input)" by blast
  then show ?thesis
  proof cases
    case ended
    then have "r' = ?fin" "q = Some RequestDone" using eq by (simp_all add: after_decode_def)
    then show ?thesis using done_ok se [OF ended(1)] by simp
  next
    case idle
    then have s: "status res = StreamEnd" using np by blast
    then have "r' = ?fin" "q = Some RequestDone" using eq idle by (simp_all add: after_decode_def un)
    then show ?thesis using done_ok se [OF s] by simp
  next
    case drain
    then have "r' = r" "q = Some NeedInput" using eq by (simp_all add: after_decode_def un split: if_splits)
    then show ?thesis using same r0 sv drain by (auto simp: step_ok_def)
  next
    case wait
    from st(1) obtain n where n: "sr_state r = Skipping n \<or> sr_state r = Emitting n" by blast
    then have q: "q = Some NeedInput" and r': "sr_state r = Skipping n \<and> r' = r\<lparr>sr_state := NeedInputSkipping n\<rparr> \<or>
        sr_state r = Emitting n \<and> r' = r\<lparr>sr_state := NeedInputEmitting n\<rparr>"
      using eq wait by (elim disjE; simp add: after_decode_def un)+
    from r' have "state_ok unpacked off len acc r'" using st(2) wait(1) by (elim disjE) (simp_all add: state_ok_def)
    then show ?thesis using r' q wait r at r0 sv by (elim disjE) (simp_all add: step_ok_def live_def)
  next
    case go
    then have np': "bytes_consumed res \<noteq> 0 \<or> bytes_produced res \<noteq> 0" using np hi by blast
    then have "r' = r" "q = None" using eq go by (simp_all add: after_decode_def un split: if_splits)
    then show ?thesis using same r0 np' by (auto simp: step_ok_def)
  qed
qed

text \<open>What a decoder step does to a live reader, before its output is looked at.\<close>

definition decoded :: "'d stream_reader \<Rightarrow> 'd \<Rightarrow> decompress_result \<Rightarrow> 'd stream_reader" where
  "decoded r d res = r\<lparr>sr_decompressor := d, sr_input_pos := sr_input_pos r + bytes_consumed res,
     sr_unpacked_pos := sr_unpacked_pos r + bytes_produced res\<rparr>"

lemma decoded_sel [simp]:
  "sr_state (decoded r d res) = sr_state r" "sr_started (decoded r d res) = sr_started r"
  "sr_eof (decoded r d res) = sr_eof r" "sr_compressed_pos (decoded r d res) = sr_compressed_pos r"
  "sr_require_full (decoded r d res) = sr_require_full r" "sr_unpacked_len (decoded r d res) = sr_unpacked_len r" "buffered (decoded r d res) = buffered r"
  "sr_output_buf (decoded r d res) = sr_output_buf r" "sr_decompressor (decoded r d res) = d"
  "sr_unpacked_pos (decoded r d res) = sr_unpacked_pos r + bytes_produced res"
  "sr_target_len (decoded r d res) = sr_target_len r" "sr_range_left (decoded r d res) = sr_range_left r"
  "sr_stream_ended (decoded r d res) = sr_stream_ended r" "sr_output_len (decoded r d res) = sr_output_len r"
  "sr_output_read (decoded r d res) = sr_output_read r" "sr_target_offset (decoded r d res) = sr_target_offset r"
  by (simp_all add: decoded_def buffered_def)

lemma decoded_facts:
  assumes r: "live off len acc r" and hi: "unread r \<noteq> [] \<or> sr_eof r" and cap: "0 < cap"
  obtains d res where "decompress ops (sr_decompressor r) (unread r) cap = (d, Inr res)"
    "bytes_produced res \<le> cap" "produced res = take (bytes_produced res) (drop (sr_unpacked_pos r) unpacked)"
    "sr_unpacked_pos r + bytes_produced res \<le> length unpacked"
    "status res = StreamEnd \<Longrightarrow> sr_unpacked_pos r + bytes_produced res = length unpacked"
    "bytes_consumed res = 0 \<Longrightarrow> bytes_produced res = 0 \<Longrightarrow> status res = StreamEnd"
    "at d (consumed (decoded r d res)) (sr_unpacked_pos r + bytes_produced res)"
    "input_ok packed (decoded r d res)" "unread r = [] \<Longrightarrow> unread (decoded r d res) = []"
    "range_ok unpacked off len acc (decoded r d res)"
    "work_left packed unpacked r =
       work_left packed unpacked (decoded r d res) + bytes_consumed res + bytes_produced res"
proof -
  let ?c = "consumed r" and ?u = "sr_unpacked_pos r"
  from r have at: "at (sr_decompressor r) ?c ?u" and i: "input_ok packed r" and ra: "range_ok unpacked off len acc r"
    by (simp_all add: live_def)
  have inp: "take (length (unread r)) (drop ?c packed) = unread r" using i by (simp add: input_ok_def)
  have "unread r \<noteq> [] \<or> ?c = length packed" using hi i by (auto simp: input_ok_def consumed_def)
  from step_facts [OF at inp this cap] obtain d res where
    d: "decompress ops (sr_decompressor r) (unread r) cap = (d, Inr res)"
      "bytes_consumed res \<le> length (unread r)" "bytes_produced res \<le> cap"
      "produced res = take (bytes_produced res) (drop ?u unpacked)"
      "at d (?c + bytes_consumed res) (?u + bytes_produced res)"
      "?u + bytes_produced res \<le> length unpacked" "?c + bytes_consumed res \<le> length packed"
      "status res = StreamEnd \<Longrightarrow> ?u + bytes_produced res = length unpacked"
      "bytes_consumed res = 0 \<Longrightarrow> bytes_produced res = 0 \<Longrightarrow> status res = StreamEnd" by blast
  have un: "unread (decoded r d res) = drop (bytes_consumed res) (unread r)"
    by (simp add: unread_def decoded_def add.commute)
  have c: "consumed (decoded r d res) = ?c + bytes_consumed res"
    using i d(2) un by (simp add: consumed_def input_ok_def)
  have "take (length (unread r) - bytes_consumed res) (drop (?c + bytes_consumed res) packed)
      = drop (bytes_consumed res) (take (length (unread r)) (drop ?c packed))"
    by (simp add: drop_take add.commute)
  also have "\<dots> = drop (bytes_consumed res) (unread r)" using inp by simp
  finally have i': "input_ok packed (decoded r d res)"
    using i by (simp add: input_ok_def un c le_trans [OF diff_le_self])
  have ra': "range_ok unpacked off len acc (decoded r d res)" using ra by (simp add: range_ok_def)
  have w': "work_left packed unpacked r = work_left packed unpacked (decoded r d res) + bytes_consumed res + bytes_produced res"
    using c d(6,7) by (simp add: work_left_def)
  have at': "at d (consumed (decoded r d res)) (?u + bytes_produced res)" using d(5) c by simp
  have un': "unread (decoded r d res) = []" if "unread r = []" using un that by simp
  show thesis by (rule that [OF d(1,3,4,6,8,9) at' i' un' ra' w'])
qed

text \<open>Filling the output buffer.\<close>

definition filled :: "'d stream_reader \<Rightarrow> bytes \<Rightarrow> nat \<Rightarrow> decompress_result \<Rightarrow> 'd stream_reader" where
  "filled r xs left res =
    (let r = r\<lparr>sr_output_buf := copy_into (sr_output_buf r) 0 xs, sr_output_len := length xs, sr_output_read := 0,
               sr_state := (if left = 0 then ReaderDone else Emitting left)\<rparr>
     in if status res = StreamEnd then r\<lparr>sr_stream_ended := True, sr_state := ReaderDone\<rparr> else r)"

lemma filled_ok:
  assumes r1: "sr_started r" "at (sr_decompressor r) (consumed r) (sr_unpacked_pos r)" "input_ok packed r"
      "range_ok unpacked off len acc r" "length (sr_output_buf r) = BUF_SIZE"
      "sr_stream_ended r \<Longrightarrow> sr_unpacked_pos r = length unpacked"
    and xs: "length xs \<le> BUF_SIZE" "0 < length xs" "length xs \<le> sr_unpacked_pos r"
      "take (length xs) (drop (sr_unpacked_pos r - length xs) unpacked) = xs"
    and pos: "sr_unpacked_pos r - length xs = off + length acc" "length acc < len"
    and left: "left = off + len - sr_unpacked_pos r"
    and se: "status res = StreamEnd \<Longrightarrow> sr_unpacked_pos r = length unpacked"
    and r0: "sr_eof r0 = sr_eof r" "sr_compressed_pos r0 = sr_compressed_pos r" "config r0 = config r"
      "work_left packed unpacked r0 > work_left packed unpacked r"
  shows "step_ok off len acc r0 (filled r xs left res) (Some OutputReady)"
proof -
  define r' where "r' = filled r xs left res"
  have sel: "sr_started r' = sr_started r" "sr_decompressor r' = sr_decompressor r" "sr_unpacked_pos r' = sr_unpacked_pos r"
    "sr_eof r' = sr_eof r" "sr_compressed_pos r' = sr_compressed_pos r" "sr_require_full r' = sr_require_full r" "sr_unpacked_len r' = sr_unpacked_len r"
    "unread r' = unread r" "sr_output_len r' = length xs" "sr_output_read r' = 0"
    "sr_output_buf r' = copy_into (sr_output_buf r) 0 xs" "sr_range_left r' = sr_range_left r"
    "sr_target_offset r' = sr_target_offset r" "sr_target_len r' = sr_target_len r"
    "sr_stream_ended r' = (sr_stream_ended r \<or> status res = StreamEnd)"
    "sr_state r' = (if status res = StreamEnd \<or> left = 0 then ReaderDone else Emitting left)"
    by (simp_all add: r'_def filled_def unread_def Let_def)
  have c: "consumed r' = consumed r" by (simp add: consumed_def sel)
  have b: "buffered r' = xs" using r1(5) xs(1) by (simp add: buffered_def sel copy_into_def)
  have "output_ok unpacked r'" 
  proof -
    have "sr_stream_ended r' \<longrightarrow> sr_unpacked_pos r = length unpacked" using r1(6) se sel(15) by blast
    then show ?thesis using xs r1(5) by (simp add: output_ok_def b) (simp add: sel)
  qed
  moreover have "input_ok packed r'" using r1(3) by (simp add: input_ok_def sel c)
  moreover have "range_ok unpacked off len acc r'" using r1(4) by (simp add: range_ok_def sel)
  moreover have "state_ok unpacked off len acc r'"
    unfolding state_ok_def sel b using pos xs(3) left se by (simp add: Let_def)
  moreover have "serveable r' > 0" using r1(4) xs(2) pos(2) by (simp add: serveable_def sel range_ok_def)
  moreover have "work_left packed unpacked r' = work_left packed unpacked r" by (simp add: work_left_def c sel)
  ultimately show ?thesis using r1 r0 unfolding r'_def [symmetric] by (simp add: step_ok_def live_def sel c)
qed

lemma live_output_ok: "live off len acc r \<Longrightarrow> output_ok unpacked r"
  by (simp add: live_def)

lemma reader_skip_ok:
  assumes r: "live off len acc r" and st: "sr_state r = Skipping n" and eq: "reader_skip ops r n = (r', q)"
    and r0: "sr_eof r0 = sr_eof r" "sr_compressed_pos r0 = sr_compressed_pos r" "config r0 = config r"
      "work_left packed unpacked r0 = work_left packed unpacked r"
  shows "step_ok off len acc r0 r' q"
proof -
  from r st have s: "sr_unpacked_pos r + n = off" "0 < n" "buffered r = []" "acc = []" "0 < len"
    by (simp_all add: live_def state_ok_def Let_def)
  from r have o: "output_ok unpacked r" and sta: "sr_started r" by (simp_all add: live_def)
  have sv: "serveable r = 0" using o s(3) by (simp add: serveable_buffered)
  show ?thesis
  proof (cases "unread r = [] \<and> \<not> sr_eof r")
    case True
    then have "r' = r\<lparr>sr_state := NeedInputSkipping n\<rparr>" "q = Some NeedInput"
      using eq by (simp_all add: reader_skip_def unread_def)
    moreover have "state_ok unpacked off len acc (r\<lparr>sr_state := NeedInputSkipping n\<rparr>)"
      using s True by (simp add: state_ok_def)
    ultimately show ?thesis using r True r0 sv by (simp add: step_ok_def live_def)
  next
    case False
    then obtain d res where d:
      "decompress ops (sr_decompressor r) (unread r) BUF_SIZE = (d, Inr res)"
      "bytes_produced res \<le> BUF_SIZE" "produced res = take (bytes_produced res) (drop (sr_unpacked_pos r) unpacked)"
      "sr_unpacked_pos r + bytes_produced res \<le> length unpacked"
      "status res = StreamEnd \<Longrightarrow> sr_unpacked_pos r + bytes_produced res = length unpacked"
      "bytes_consumed res = 0 \<Longrightarrow> bytes_produced res = 0 \<Longrightarrow> status res = StreamEnd"
      "at d (consumed (decoded r d res)) (sr_unpacked_pos r + bytes_produced res)"
      "input_ok packed (decoded r d res)" "unread r = [] \<Longrightarrow> unread (decoded r d res) = []"
      "range_ok unpacked off len acc (decoded r d res)"
      "work_left packed unpacked r =
         work_left packed unpacked (decoded r d res) + bytes_consumed res + bytes_produced res"
      using decoded_facts [OF r, of BUF_SIZE] by (auto simp: BUF_SIZE_def)
    let ?r1 = "decoded r d res" and ?n = "bytes_produced res"
    have se: "sr_stream_ended r \<Longrightarrow> sr_unpacked_pos r + ?n = length unpacked"
      using o d(4) by (simp add: output_ok_def)
    show ?thesis
    proof (cases "?n > n")
      case True
      let ?xs = "drop n (produced res)"
      have len: "length ?xs = ?n - n" by (simp add: bytes_produced_def)
      have "len = sr_target_len r" using r by (simp add: live_def range_ok_def)
      then have eq': "r' = filled ?r1 ?xs (len - (?n - n)) res" "q = Some OutputReady"
        using eq False True d(1) len
        by (auto simp: reader_skip_def Let_def unread_def [symmetric] filled_def decoded_def)
      have "step_ok off len acc r0 (filled ?r1 ?xs (len - (?n - n)) res) (Some OutputReady)"
      proof (rule filled_ok)
        show "take (length ?xs) (drop (sr_unpacked_pos ?r1 - length ?xs) unpacked) = ?xs"
          using True d(3) s(1) len by (simp add: drop_take add.commute)
        show "status res = StreamEnd \<Longrightarrow> sr_unpacked_pos ?r1 = length unpacked" using d(5) by simp
        show "sr_stream_ended ?r1 \<Longrightarrow> sr_unpacked_pos ?r1 = length unpacked" using se by simp
        show "work_left packed unpacked ?r1 < work_left packed unpacked r0" using r0 d(11) True by simp
        show "len - (?n - n) = off + len - sr_unpacked_pos ?r1" using s(1) True by simp
      qed (use sta d o s r0 True len in \<open>simp_all add: output_ok_def\<close>)
      with eq' show ?thesis by simp
    next
      case le: False
      define r2 where "r2 = ?r1\<lparr>sr_state := (if n - ?n = 0 then Emitting (sr_target_len ?r1) else Skipping (n - ?n))\<rparr>"
      have "after_decode r2 res (unread r \<noteq> []) = (r', q)"
        using eq False le d(1) unfolding r2_def
        by (simp add: reader_skip_def Let_def unread_def [symmetric] decoded_def split: if_splits)
      then show ?thesis
      proof (rule after_decode_ok [rotated -1])
        show "output_ok unpacked r2" using o s(3) d(4) se unfolding r2_def by (simp add: output_ok_def)
        show "state_ok unpacked off len acc r2" using s le d(10) unfolding r2_def
          by (simp add: state_ok_def range_ok_def)
      qed (use sta d s r0 False in \<open>simp_all add: r2_def\<close>)
    qed
  qed
qed

lemma reader_emit_ok:
  assumes r: "live off len acc r" and st: "sr_state r = Emitting n" and sv: "serveable r = 0"
    and eq: "reader_emit ops r n = (r', q)"
    and r0: "sr_eof r0 = sr_eof r" "sr_compressed_pos r0 = sr_compressed_pos r" "config r0 = config r"
      "work_left packed unpacked r0 = work_left packed unpacked r"
  shows "step_ok off len acc r0 r' q"
proof -
  from r have o: "output_ok unpacked r" and sta: "sr_started r" and ra: "range_ok unpacked off len acc r"
    by (simp_all add: live_def)
  from r st have s: "sr_unpacked_pos r + n = off + len" "0 < n"
      "sr_unpacked_pos r - length (buffered r) = off + length acc"
    by (simp_all add: live_def state_ok_def Let_def)
  have b: "buffered r = []"
  proof (rule ccontr)
    assume "buffered r \<noteq> []"
    then have "sr_range_left r = 0" using sv o by (simp add: serveable_buffered min_def split: if_splits)
    then show False using s ra by (simp add: range_ok_def) linarith
  qed
  show ?thesis
  proof (cases "unread r = [] \<and> \<not> sr_eof r")
    case True
    then have "r' = r\<lparr>sr_state := NeedInputEmitting n\<rparr>" "q = Some NeedInput"
      using eq by (simp_all add: reader_emit_def unread_def)
    moreover have "state_ok unpacked off len acc (r\<lparr>sr_state := NeedInputEmitting n\<rparr>)"
      using s True by (simp add: state_ok_def)
    ultimately show ?thesis using r True r0 sv by (simp add: step_ok_def live_def)
  next
    case False
    then obtain d res where d:
      "decompress ops (sr_decompressor r) (unread r) (min n BUF_SIZE) = (d, Inr res)"
      "bytes_produced res \<le> min n BUF_SIZE" "produced res = take (bytes_produced res) (drop (sr_unpacked_pos r) unpacked)"
      "sr_unpacked_pos r + bytes_produced res \<le> length unpacked"
      "status res = StreamEnd \<Longrightarrow> sr_unpacked_pos r + bytes_produced res = length unpacked"
      "bytes_consumed res = 0 \<Longrightarrow> bytes_produced res = 0 \<Longrightarrow> status res = StreamEnd"
      "at d (consumed (decoded r d res)) (sr_unpacked_pos r + bytes_produced res)"
      "input_ok packed (decoded r d res)" "unread r = [] \<Longrightarrow> unread (decoded r d res) = []"
      "range_ok unpacked off len acc (decoded r d res)"
      "work_left packed unpacked r =
         work_left packed unpacked (decoded r d res) + bytes_consumed res + bytes_produced res"
      using decoded_facts [OF r, of "min n BUF_SIZE"] s(2) by (auto simp: BUF_SIZE_def)
    let ?r1 = "decoded r d res" and ?n = "bytes_produced res"
    have se: "sr_stream_ended r \<Longrightarrow> sr_unpacked_pos r + ?n = length unpacked"
      using o d(4) by (simp add: output_ok_def)
    have bp: "length (produced res) = ?n" by (simp add: bytes_produced_def)
    have inp: "drop (sr_input_pos r) (sr_input_buf r) = unread r" by (simp add: unread_def)
    show ?thesis
    proof (cases "?n > 0")
      case True
      have eq': "r' = filled ?r1 (produced res) (n - ?n) res" "q = Some OutputReady"
        using eq False True d(1) bp
        by (auto simp: reader_emit_def Let_def inp filled_def decoded_def)
      have "step_ok off len acc r0 (filled ?r1 (produced res) (n - ?n) res) (Some OutputReady)"
      proof (rule filled_ok)
        show "take (length (produced res)) (drop (sr_unpacked_pos ?r1 - length (produced res)) unpacked) = produced res"
          using d(3) bp by simp
        show "status res = StreamEnd \<Longrightarrow> sr_unpacked_pos ?r1 = length unpacked" using d(5) by simp
        show "sr_stream_ended ?r1 \<Longrightarrow> sr_unpacked_pos ?r1 = length unpacked" using se by simp
        show "work_left packed unpacked ?r1 < work_left packed unpacked r0" using r0 d(11) True by simp
        show "n - ?n = off + len - sr_unpacked_pos ?r1" using s(1) True by simp
        show "length acc < len" using s b by simp
        show "length (produced res) \<le> BUF_SIZE" using d(2) bp by simp
      qed (use sta d o s r0 True bp b in \<open>simp_all add: output_ok_def\<close>)
      with eq' show ?thesis by simp
    next
      case z: False
      define r2 where "r2 = ?r1\<lparr>sr_state := Emitting n\<rparr>"
      have "after_decode r2 res (unread r \<noteq> []) = (r', q)"
        using eq False z d(1) unfolding r2_def
        by (simp add: reader_emit_def Let_def inp decoded_def)
      then show ?thesis
      proof (rule after_decode_ok [rotated -1])
        show "output_ok unpacked r2" using o b d(4) se unfolding r2_def by (simp add: output_ok_def)
        show "state_ok unpacked off len acc r2" using s z b d(10) unfolding r2_def
          by (simp add: state_ok_def range_ok_def)
      qed (use sta d s r0 False b z in \<open>simp_all add: r2_def\<close>)
    qed
  qed
qed

text \<open>One step of a live reader, and the whole of \<^verbatim>\<open>step\<close>.\<close>

lemma reader_step_once_live:
  assumes r: "live off len acc r" and eq: "reader_step_once ops r = (r', q)"
  shows "step_ok off len acc r r' q"
proof (cases "serveable r > 0")
  case True
  then show ?thesis using eq r by (auto simp: reader_step_once_def step_ok_def)
next
  case sv: False
  have switch: "live off len acc (r\<lparr>sr_state := s\<rparr>)" if "state_ok unpacked off len acc (r\<lparr>sr_state := s\<rparr>)" for s
    using r that by (simp add: live_def)
  show ?thesis
  proof (cases "sr_state r")
    case (Skipping n)
    then show ?thesis using eq sv r by (intro reader_skip_ok) (auto simp: reader_step_once_def)
  next
    case (Emitting n)
    then show ?thesis using eq sv r by (intro reader_emit_ok) (auto simp: reader_step_once_def)
  next
    case (NeedInputSkipping n)
    show ?thesis
    proof (cases "sr_eof r")
      case True
      with NeedInputSkipping eq sv have "reader_skip ops (r\<lparr>sr_state := Skipping n\<rparr>) n = (r', q)"
        by (simp add: reader_step_once_def)
      moreover have "live off len acc (r\<lparr>sr_state := Skipping n\<rparr>)"
        using r NeedInputSkipping by (intro switch) (simp add: live_def state_ok_def)
      ultimately show ?thesis by (intro reader_skip_ok [where r = "r\<lparr>sr_state := Skipping n\<rparr>" and n = n]) simp_all
    next
      case False
      then show ?thesis using eq sv r NeedInputSkipping by (auto simp: reader_step_once_def step_ok_def live_def state_ok_def)
    qed
  next
    case (NeedInputEmitting n)
    show ?thesis
    proof (cases "sr_eof r")
      case True
      with NeedInputEmitting eq sv have "reader_emit ops (r\<lparr>sr_state := Emitting n\<rparr>) n = (r', q)"
        by (simp add: reader_step_once_def)
      moreover have "live off len acc (r\<lparr>sr_state := Emitting n\<rparr>)"
        using r NeedInputEmitting by (intro switch) (simp add: live_def state_ok_def)
      ultimately show ?thesis using sv by (intro reader_emit_ok [where r = "r\<lparr>sr_state := Emitting n\<rparr>" and n = n]) simp_all
    next
      case False
      then show ?thesis using eq sv r NeedInputEmitting by (auto simp: reader_step_once_def step_ok_def live_def state_ok_def Let_def)
    qed
  qed (use eq sv r in \<open>auto simp: reader_step_once_def step_ok_def live_def state_ok_def\<close>)
qed

definition finish_request :: "'d stream_reader \<Rightarrow> engine_request \<Rightarrow> engine_request" where
  "finish_request r q =
     (if q = RequestDone \<and> sr_range_left r > 0 \<and> sr_require_full r then RequestError TruncatedInput else q)"

lemma reader_step_live:
  assumes "live off len acc r"
  shows "\<exists>r' q. reader_step ops r = Some (r', finish_request r' q) \<and> step_ok off len acc r r' (Some q)"
  using assms
proof (induction "work_left packed unpacked r" arbitrary: r rule: less_induct)
  case less
  obtain r1 q1 where one: "reader_step_once ops r = (r1, q1)" by (cases "reader_step_once ops r") auto
  with less.prems have ok: "step_ok off len acc r r1 q1" by (rule reader_step_once_live)
  show ?case
  proof (cases q1)
    case None
    with ok have l1: "live off len acc r1" "work_left packed unpacked r1 < work_left packed unpacked r"
      by (simp_all add: step_ok_def)
    from less.hyps [OF l1(2,1)] obtain r' q where
      st: "reader_step ops r1 = Some (r', finish_request r' q)" "step_ok off len acc r1 r' (Some q)" by blast
    have "reader_step ops r = reader_step ops r1" using one None by (subst reader_step.simps) simp
    moreover have "step_ok off len acc r r' (Some q)"
      using ok st(2) None by (auto simp: step_ok_def split: engine_request.splits)
    ultimately show ?thesis using st(1) by auto
  next
    case (Some q)
    then have "reader_step ops r = Some (r1, finish_request r1 q)"
      using one by (subst reader_step.simps) (simp add: finish_request_def)
    then show ?thesis using ok Some by auto
  qed
qed

section \<open>Taking output\<close>

lemma read_output_live:
  assumes r: "live off len acc r" and eq: "reader_read_output r cap = (r', out)" and n: "0 < min (serveable r) cap"
  shows "live off len (acc @ out) r'" "out \<noteq> []" "sr_eof r' = sr_eof r" "sr_compressed_pos r' = sr_compressed_pos r"
    "config r' = config r" "work_left packed unpacked r' = work_left packed unpacked r"
    "sr_range_left r' < sr_range_left r" "sr_state r' = sr_state r"
proof -
  define k where "k = min (serveable r) cap"
  from r have o: "output_ok unpacked r" and ra: "range_ok unpacked off len acc r" by (simp_all add: live_def)
  have sv: "k \<le> length (buffered r)" "k \<le> sr_range_left r" "0 < k"
    using n serveable_buffered [OF o] by (simp_all add: k_def)
  define r1 where "r1 = r\<lparr>sr_output_read := sr_output_read r + k, sr_range_left := sr_range_left r - k\<rparr>"
  have r': "r' = (if sr_output_read r + k \<ge> sr_output_len r then r1\<lparr>sr_output_len := 0, sr_output_read := 0\<rparr> else r1)"
    and out: "out = subslice (sr_output_read r) (sr_output_read r + k) (sr_output_buf r)"
    using eq sv(3) by (auto simp: reader_read_output_def k_def [symmetric] r1_def Let_def)
  have "sr_output_read r + k \<le> sr_output_len r" using sv(1,3) unfolding length_buffered [OF o] by linarith
  then have outb: "out = take k (buffered r)"
    unfolding out subslice_def buffered_def by (simp add: drop_take)
  have len_b: "length (buffered r) = sr_output_len r - sr_output_read r" by (rule length_buffered [OF o])
  have b': "buffered r' = drop k (buffered r)"
  proof (cases "sr_output_read r + k \<ge> sr_output_len r")
    case True
    then have "drop k (buffered r) = []" using len_b by simp
    with True show ?thesis by (simp add: r' buffered_def)
  next
    case False
    then show ?thesis by (simp add: r' r1_def buffered_def drop_drop add.commute)
  qed
  have sel: "sr_started r' = sr_started r" "sr_decompressor r' = sr_decompressor r" "sr_unpacked_pos r' = sr_unpacked_pos r"
    "sr_eof r' = sr_eof r" "sr_compressed_pos r' = sr_compressed_pos r" "sr_require_full r' = sr_require_full r" "sr_unpacked_len r' = sr_unpacked_len r"
    "unread r' = unread r" "sr_output_buf r' = sr_output_buf r" "sr_range_left r' = sr_range_left r - k"
    "sr_target_offset r' = sr_target_offset r" "sr_target_len r' = sr_target_len r"
    "sr_stream_ended r' = sr_stream_ended r" "sr_state r' = sr_state r"
    by (simp_all add: r' r1_def unread_def)
  have c: "consumed r' = consumed r" by (simp add: consumed_def sel)
  have lens: "sr_output_read r' \<le> sr_output_len r'" "sr_output_len r' \<le> length (sr_output_buf r')"
    using o by (auto simp: r' r1_def output_ok_def)
  have bp: "take (length (buffered r)) (drop (sr_unpacked_pos r - length (buffered r)) unpacked) = buffered r"
    "length (buffered r) \<le> sr_unpacked_pos r" using o by (simp_all add: output_ok_def)
  have "take (length (buffered r) - k) (drop (sr_unpacked_pos r - (length (buffered r) - k)) unpacked)
      = drop k (take (length (buffered r)) (drop (sr_unpacked_pos r - length (buffered r)) unpacked))"
    using sv(1) bp(2) by (simp add: drop_take add.commute)
  also have "\<dots> = drop k (buffered r)" using bp(1) by simp
  finally have o': "output_ok unpacked r'" using o lens bp(2) by (simp add: output_ok_def b' sel)
  have pos: "acc @ out = take (length acc + k) (drop off unpacked)"
    if "sr_unpacked_pos r - length (buffered r) = off + length acc"
  proof -
    have "take (length acc + k) (drop off unpacked) = take (length acc) (drop off unpacked) @ take k (drop (length acc + off) unpacked)"
      by (simp add: take_add)
    also have "take (length acc) (drop off unpacked) = acc" using ra by (simp add: range_ok_def)
    also have "take k (drop (length acc + off) unpacked) = take k (buffered r)"
      using that bp(1) sv(1) by (metis add.commute min.absorb1 take_take)
    finally show ?thesis using outb by simp
  qed
  have st: "sr_unpacked_pos r - length (buffered r) = off + length acc"
    using r sv n by (auto simp: live_def state_ok_def range_ok_def Let_def split: reader_state.splits)
  have lo: "length out = k" using outb sv(1) by simp
  have "range_ok unpacked off len (acc @ out) r'"
    using ra sv pos [OF st] lo unfolding range_ok_def sel length_append by (simp del: length_append)
  moreover have "state_ok unpacked off len (acc @ out) r'"
    using r st sv bp(2) lo unfolding live_def state_ok_def sel b'
    by (auto simp: Let_def range_ok_def split: reader_state.splits)
  moreover have "input_ok packed r'" using r by (simp add: live_def input_ok_def sel c)
  ultimately show "live off len (acc @ out) r'" using r o' by (simp add: live_def sel c)
  show "out \<noteq> []" using lo sv(3) by auto
  show "sr_eof r' = sr_eof r" "sr_compressed_pos r' = sr_compressed_pos r" "config r' = config r"
    "sr_state r' = sr_state r" by (simp_all add: sel)
  show "work_left packed unpacked r' = work_left packed unpacked r" by (simp add: work_left_def c sel)
  show "sr_range_left r' < sr_range_left r" using sv(2,3) by (simp add: sel)
qed

lemma drain_reader_live:
  assumes "live off len acc r" and "drain_reader r acc = (r', acc')"
  shows "live off len acc' r' \<and> serveable r' = 0 \<and> sr_eof r' = sr_eof r \<and> sr_compressed_pos r' = sr_compressed_pos r \<and>
    config r' = config r \<and> work_left packed unpacked r' = work_left packed unpacked r"
  using assms
proof (induction "sr_range_left r" arbitrary: r acc rule: less_induct)
  case less
  obtain r1 out where ro: "reader_read_output r BUF_SIZE = (r1, out)" by (cases "reader_read_output r BUF_SIZE") auto
  show ?case
  proof (cases "0 < min (serveable r) BUF_SIZE")
    case True
    note f = read_output_live [OF less.prems(1) ro True]
    from less.prems(2) ro f(2) have "drain_reader r1 (acc @ out) = (r', acc')" by (subst (asm) drain_reader.simps) simp
    from less.hyps [OF f(7,1) this] f show ?thesis by simp
  next
    case False
    then have z: "serveable r = 0" by (simp add: BUF_SIZE_def)
    then have "out = []" "r1 = r" using ro by (simp_all add: reader_read_output_def Let_def)
    then have "r' = r" "acc' = acc" using less.prems(2) ro by (simp_all add: drain_reader.simps)
    then show ?thesis using less.prems(1) z by simp
  qed
qed

section \<open>Input\<close>

lemma provide_live:
  assumes r: "live off len acc r" and un: "unread r = []" and eof: "\<not> sr_eof r"
    and data: "take (length data) (drop (sr_compressed_pos r) packed) = data" "data \<noteq> []"
  shows "live off len acc (reader_provide_data r data)"
    "work_left packed unpacked (reader_provide_data r data) = work_left packed unpacked r"
    "sr_compressed_pos (reader_provide_data r data) = sr_compressed_pos r + length data"
    "sr_compressed_pos r < sr_compressed_pos (reader_provide_data r data)"
    "sr_compressed_pos (reader_provide_data r data) \<le> length packed"
    "config (reader_provide_data r data) = config r"
proof -
  define r' where "r' = reader_provide_data r data"
  have sel: "sr_started r' = sr_started r" "sr_decompressor r' = sr_decompressor r" "sr_unpacked_pos r' = sr_unpacked_pos r"
    "sr_eof r' = sr_eof r" "sr_compressed_pos r' = sr_compressed_pos r + length data" "sr_require_full r' = sr_require_full r" "sr_unpacked_len r' = sr_unpacked_len r"
    "unread r' = data" "buffered r' = buffered r" "sr_output_buf r' = sr_output_buf r" "sr_range_left r' = sr_range_left r"
    "sr_target_offset r' = sr_target_offset r" "sr_target_len r' = sr_target_len r" "sr_output_read r' = sr_output_read r"
    "sr_output_len r' = sr_output_len r" "sr_stream_ended r' = sr_stream_ended r"
    by (simp_all add: r'_def reader_provide_data_def unread_def buffered_def)
  have cr: "consumed r = sr_compressed_pos r" using un by (simp add: consumed_def)
  have c: "consumed r' = consumed r" by (simp add: consumed_def sel un)
  have "length data \<le> length packed - sr_compressed_pos r" 
    using arg_cong [OF data(1), of length] by simp
  moreover have "sr_compressed_pos r \<le> length packed" using r by (simp add: live_def input_ok_def)
  ultimately have le: "sr_compressed_pos r + length data \<le> length packed" by linarith
  have "input_ok packed r'" using le data(1) eof by (simp add: input_ok_def sel c cr)
  moreover have "state_ok unpacked off len acc r'" using r
    by (auto simp: live_def state_ok_def sel r'_def reader_provide_data_def Let_def buffered_def split: reader_state.splits)
  moreover have "output_ok unpacked r'" "range_ok unpacked off len acc r'"
    using r by (simp_all add: live_def output_ok_def range_ok_def sel)
  ultimately show "live off len acc (reader_provide_data r data)"
    using r unfolding r'_def [symmetric] by (simp add: live_def sel c)
  show "sr_compressed_pos r < sr_compressed_pos (reader_provide_data r data)"
    using data(2) by (simp add: reader_provide_data_def)
  show "work_left packed unpacked (reader_provide_data r data) = work_left packed unpacked r"
    unfolding r'_def [symmetric] by (simp add: work_left_def c sel)
  show "sr_compressed_pos (reader_provide_data r data) = sr_compressed_pos r + length data"
    "sr_compressed_pos (reader_provide_data r data) \<le> length packed"
    "config (reader_provide_data r data) = config r"
    using le sel unfolding r'_def by simp_all
qed

lemma signal_eof_live:
  assumes "live off len acc r" and "sr_compressed_pos r = length packed"
  shows "live off len acc (reader_signal_eof r)"
    "work_left packed unpacked (reader_signal_eof r) = work_left packed unpacked r"
    "serveable (reader_signal_eof r) = serveable r"
proof -
  define r' where "r' = reader_signal_eof r"
  have sel: "sr_started r' = sr_started r" "sr_decompressor r' = sr_decompressor r" "sr_unpacked_pos r' = sr_unpacked_pos r"
    "sr_compressed_pos r' = sr_compressed_pos r" "unread r' = unread r" "buffered r' = buffered r"
    "sr_output_buf r' = sr_output_buf r" "sr_range_left r' = sr_range_left r" "sr_state r' = sr_state r"
    "sr_target_offset r' = sr_target_offset r" "sr_target_len r' = sr_target_len r" "sr_output_read r' = sr_output_read r"
    "sr_output_len r' = sr_output_len r" "sr_stream_ended r' = sr_stream_ended r"
    by (simp_all add: r'_def reader_signal_eof_def unread_def buffered_def)
  have c: "consumed r' = consumed r" by (simp add: consumed_def sel)
  have "input_ok packed r'" using assms by (simp add: live_def input_ok_def sel c)
  then show "live off len acc (reader_signal_eof r)"
    using assms state_ok_cong [of r' r] unfolding r'_def [symmetric]
    by (simp add: live_def output_ok_def range_ok_def sel c)
  show "work_left packed unpacked (reader_signal_eof r) = work_left packed unpacked r"
    "serveable (reader_signal_eof r) = serveable r"
    unfolding r'_def [symmetric] by (simp_all add: work_left_def serveable_def sel c)
qed

section \<open>The whole loop\<close>

lemma live_done:
  assumes "live off len acc r" and "sr_state r = ReaderDone" and "serveable r = 0"
  shows "acc = take len (drop off unpacked)" "sr_range_left r = len - length (take len (drop off unpacked))"
proof -
  from assms(1) have o: "output_ok unpacked r" and ra: "range_ok unpacked off len acc r"
    and s: "len = 0 \<or> (sr_unpacked_pos r = length unpacked \<and> sr_unpacked_pos r \<le> off \<and> buffered r = [] \<and> acc = [])
          \<or> (sr_unpacked_pos r - length (buffered r) = off + length acc \<and>
              (off + len \<le> sr_unpacked_pos r \<or> sr_unpacked_pos r = length unpacked))"
    using assms(2) by (auto simp: live_def state_ok_def Let_def)
  have acc: "take (length acc) (drop off unpacked) = acc" "length acc \<le> len" using ra by (simp_all add: range_ok_def)
  have sv: "buffered r = [] \<or> length acc = len"
    using assms(3) serveable_buffered [OF o] ra by (auto simp: range_ok_def min_def split: if_splits)
  have "length acc = len \<or> length unpacked - off \<le> length acc"
    using s sv acc(2) by auto
  then show a: "acc = take len (drop off unpacked)" using acc by (metis length_drop take_all min.absorb_iff1 take_take nle_le)
  show "sr_range_left r = len - length (take len (drop off unpacked))"
    using ra a by (simp add: range_ok_def)
qed

definition finished :: "nat \<Rightarrow> nat \<Rightarrow> 'd stream_reader \<Rightarrow> bool" where
  "finished off len r \<longleftrightarrow> live off len (take len (drop off unpacked)) r \<and> sr_state r = ReaderDone \<and> serveable r = 0"

text \<open>How far a reader is: what is left to decode, to read, and to hand out.\<close>

definition progress_rel :: "('d stream_reader \<times> 'd stream_reader) set" where
  "progress_rel = measures [work_left packed unpacked, \<lambda>r. length packed - sr_compressed_pos r,
     \<lambda>r. if sr_eof r then 0 else 1, \<lambda>r. if serveable r > 0 then 1 else 0]"

lemma wf_progress: "wf progress_rel"
  by (simp add: progress_rel_def)

text \<open>A request for input, answered with bytes of the file or its end.\<close>

definition fed_reader :: "(nat \<Rightarrow> nat \<Rightarrow> nat) \<Rightarrow> 'd stream_reader \<Rightarrow> 'd stream_reader" where
  "fed_reader rd r =
     (let n = rd (sr_compressed_pos r) BUF_SIZE in
      if n = 0 then reader_signal_eof r else reader_provide_data r (take n (drop (sr_compressed_pos r) packed)))"

lemma fed_reader_live:
  assumes rd: "reads_ok packed rd" and l: "live off len acc r" and un: "unread r = []"
  shows "live off len acc (fed_reader rd r)" "work_left packed unpacked (fed_reader rd r) = work_left packed unpacked r"
    "sr_compressed_pos (fed_reader rd r) = sr_compressed_pos r + rd (sr_compressed_pos r) BUF_SIZE"
    "config (fed_reader rd r) = config r"
    "length packed - sr_compressed_pos (fed_reader rd r) < length packed - sr_compressed_pos r \<or>
     sr_compressed_pos (fed_reader rd r) = sr_compressed_pos r \<and> sr_eof (fed_reader rd r)"
proof -
  let ?n = "rd (sr_compressed_pos r) BUF_SIZE"
  have cp: "sr_compressed_pos r \<le> length packed" using l by (simp add: live_def input_ok_def)
  have "live off len acc (fed_reader rd r) \<and> work_left packed unpacked (fed_reader rd r) = work_left packed unpacked r \<and>
    sr_compressed_pos (fed_reader rd r) = sr_compressed_pos r + rd (sr_compressed_pos r) BUF_SIZE \<and>
    config (fed_reader rd r) = config r \<and>
    (length packed - sr_compressed_pos (fed_reader rd r) < length packed - sr_compressed_pos r \<or>
     sr_compressed_pos (fed_reader rd r) = sr_compressed_pos r \<and> sr_eof (fed_reader rd r))"
  proof (cases "?n = 0")
    case True
    have "sr_compressed_pos r = length packed"
    proof (rule ccontr)
      assume "sr_compressed_pos r \<noteq> length packed"
      with cp have "0 < BUF_SIZE \<and> sr_compressed_pos r < length packed" by (simp add: BUF_SIZE_def)
      with rd True show False unfolding reads_ok_def by (metis less_irrefl)
    qed
    note se = signal_eof_live [OF l this]
    have "fed_reader rd r = reader_signal_eof r" using True by (simp add: fed_reader_def)
    moreover have "sr_compressed_pos (reader_signal_eof r) = sr_compressed_pos r" "sr_eof (reader_signal_eof r)"
      "config (reader_signal_eof r) = config r" by (simp_all add: reader_signal_eof_def)
    ultimately show ?thesis using se(1,2) True by simp
  next
    case False
    let ?data = "take ?n (drop (sr_compressed_pos r) packed)"
    have nle: "?n \<le> length packed - sr_compressed_pos r" using rd by (simp add: reads_ok_def)
    then have len: "length ?data = ?n" by simp
    have "sr_compressed_pos r < length packed" using nle False by linarith
    then have ne: "\<not> sr_eof r" using l by (auto simp: live_def input_ok_def)
    have d: "take (length ?data) (drop (sr_compressed_pos r) packed) = ?data" "?data \<noteq> []" using len False by auto
    note pl = provide_live [OF l un ne d]
    have "fed_reader rd r = reader_provide_data r ?data" using False by (simp add: fed_reader_def)
    moreover have "length packed - sr_compressed_pos (reader_provide_data r ?data) < length packed - sr_compressed_pos r"
      using pl(4,5) by linarith
    ultimately show ?thesis using pl(1,2,3,6) len by simp
  qed
  then show "live off len acc (fed_reader rd r)" "work_left packed unpacked (fed_reader rd r) = work_left packed unpacked r"
    "sr_compressed_pos (fed_reader rd r) = sr_compressed_pos r + rd (sr_compressed_pos r) BUF_SIZE"
    "config (fed_reader rd r) = config r"
    "length packed - sr_compressed_pos (fed_reader rd r) < length packed - sr_compressed_pos r \<or>
     sr_compressed_pos (fed_reader rd r) = sr_compressed_pos r \<and> sr_eof (fed_reader rd r)" by blast+
qed

lemma need_input_progress:
  assumes rd: "reads_ok packed rd" and ok: "step_ok off len acc r r1 (Some NeedInput)"
  shows "live off len acc (fed_reader rd r1)" "(fed_reader rd r1, r) \<in> progress_rel"
    "sr_compressed_pos (fed_reader rd r1) = sr_compressed_pos r + rd (sr_compressed_pos r) BUF_SIZE"
    "config (fed_reader rd r1) = config r"
proof -
  from ok have l: "live off len acc r1" "unread r1 = []" and e: "sr_eof r1 = sr_eof r" "sr_compressed_pos r1 = sr_compressed_pos r"
    "config r1 = config r" "work_left packed unpacked r1 \<le> work_left packed unpacked r"
    "sr_eof r \<longrightarrow> work_left packed unpacked r1 < work_left packed unpacked r"
    by (simp_all add: step_ok_def)
  note f = fed_reader_live [OF rd l]
  show "live off len acc (fed_reader rd r1)" "config (fed_reader rd r1) = config r"
    "sr_compressed_pos (fed_reader rd r1) = sr_compressed_pos r + rd (sr_compressed_pos r) BUF_SIZE"
    using f e by simp_all
  show "(fed_reader rd r1, r) \<in> progress_rel" using f(2,5) e(2,4,5) by (auto simp: progress_rel_def le_less)
qed

lemma read_loop_live:
  assumes rd: "reads_ok packed rd"
  shows "live off len acc r \<Longrightarrow>
    \<exists>r'. read_loop ops packed rd r (sr_compressed_pos r) acc =
        Some (r', read_result (sr_require_full r) len (take len (drop off unpacked))) \<and>
      finished off len r' \<and> config r' = config r"
proof (induction r arbitrary: acc rule: wf_induct_rule [OF wf_progress])
  case (1 r)
  from reader_step_live [OF 1(2)] obtain r1 q where
    st: "reader_step ops r = Some (r1, finish_request r1 q)" "step_ok off len acc r r1 (Some q)" by blast
  from st(2) have l1: "live off len acc r1" and e1: "sr_eof r1 = sr_eof r" "sr_compressed_pos r1 = sr_compressed_pos r"
    "sr_require_full r1 = sr_require_full r" "sr_unpacked_len r1 = sr_unpacked_len r" "work_left packed unpacked r1 \<le> work_left packed unpacked r"
    by (simp_all add: step_ok_def)
  show ?case
  proof (cases q)
    case NeedInput
    note f = need_input_progress [OF rd st(2) [unfolded NeedInput]]
    have "read_loop ops packed rd r (sr_compressed_pos r) acc =
        read_loop ops packed rd (fed_reader rd r1) (sr_compressed_pos (fed_reader rd r1)) acc"
      using st(1) NeedInput e1(2) f(3)
      by (subst read_loop.simps) (auto simp: finish_request_def Let_def fed_reader_def)
    then show ?thesis using 1(1) [OF f(2,1)] f(4) by simp
  next
    case OutputReady
    obtain r2 acc' where dr: "drain_reader r1 acc = (r2, acc')" by (cases "drain_reader r1 acc") auto
    note d = drain_reader_live [OF l1 dr]
    have "(r2, r) \<in> progress_rel"
      using d e1 st(2) OutputReady by (auto simp: step_ok_def progress_rel_def)
    from 1(1) [OF this] d obtain r' where
      "read_loop ops packed rd r2 (sr_compressed_pos r2) acc' =
         Some (r', read_result (sr_require_full r2) len (take len (drop off unpacked)))"
      "finished off len r'" "config r' = config r2" by blast
    then show ?thesis using st(1) OutputReady e1 d dr
      by (subst read_loop.simps) (simp add: finish_request_def)
  next
    case RequestDone
    with st(2) have "serveable r1 = 0" "sr_state r1 = ReaderDone" by (auto simp: step_ok_def)
    note dn = live_done [OF l1 this(2,1)]
    have "read_loop ops packed rd r (sr_compressed_pos r) acc =
        Some (r1, read_result (sr_require_full r) len (take len (drop off unpacked)))"
      using st(1) RequestDone dn e1 by (subst read_loop.simps) (auto simp: finish_request_def read_result_def)
    then show ?thesis using l1 dn \<open>serveable r1 = 0\<close> \<open>sr_state r1 = ReaderDone\<close> e1 by (auto simp: finished_def)
  qed (use st(2) in \<open>simp_all add: step_ok_def\<close>)
qed

end

end
