(* ===== verification/ReaderRange.thy ===== *)
theory ReaderRange
  imports ReaderCorrect NoneDecompressor
begin

text \<open>
  \<^verbatim>\<open>src/stream/reader.rs\<close>: a reader from \<^verbatim>\<open>new\<close> to the end of its range, \<^verbatim>\<open>seek_forward\<close>, and many
  ranges read with one live reader.
\<close>

context decoder
begin

section \<open>A reader that has not been stepped\<close>

definition unstarted :: "nat \<Rightarrow> nat \<Rightarrow> 'd stream_reader \<Rightarrow> bool" where
  "unstarted off len r \<longleftrightarrow>
     \<not> sr_started r \<and> \<not> sr_eof r \<and> \<not> sr_stream_ended r \<and> fresh (sr_decompressor r) \<and>
     good (sr_checkpoint r) \<and> uncompressed_offset (sr_checkpoint r) \<le> off \<and>
     sr_target_offset r = off \<and> sr_target_len r = len \<and> sr_range_left r = len \<and>
     sr_output_len r = 0 \<and> sr_output_read r = 0 \<and> length (sr_output_buf r) = BUF_SIZE \<and>
     sr_input_buf r = [] \<and> sr_input_pos r = 0 \<and>
     sr_state r = (if len = 0 then ReaderDone else SeekToCheckpoint)"

lemma reader_new_unstarted:
  assumes idx: "cps_ok (si_checkpoints idx)" "\<forall>cp\<in>set (si_checkpoints idx). good cp"
    and cr: "create (si_codec idx) = Inr d" "fresh d"
  obtains r where "reader_new create idx off len = Inr r"
    "unstarted off (clamp_len (si_unpacked_len idx) off len) r"
    "sr_unpacked_len r = si_unpacked_len idx" "sr_require_full r = (si_unpacked_len idx \<noteq> None)"
proof -
  obtain i cp where cp: "best_checkpoint_for_offset idx off = (i, cp)" by (cases "best_checkpoint_for_offset idx off")
  note bp = best_checkpoint_props [OF idx(1) cp]
  from cr obtain r where r: "reader_new create idx off len = Inr r" by (simp add: reader_new_def Let_def)
  then show thesis
    by (rule that) (use r cr cp bp(3,5) idx(2) in \<open>auto simp: reader_new_def unstarted_def Let_def\<close>)
qed

lemma unstarted_step:
  assumes r: "unstarted off len r" and len: "0 < len"
  obtains r' where "reader_step ops r = Some (r', SeekAndRead (compressed_offset (sr_checkpoint r)) BUF_SIZE)"
    "live off len [] r'" "unread r' = []" "\<not> sr_eof r'" "sr_compressed_pos r' = compressed_offset (sr_checkpoint r)"
    "config r' = config r"
proof -
  let ?cp = "sr_checkpoint r"
  from r have f: "fresh (sr_decompressor r)" "good ?cp" "uncompressed_offset ?cp \<le> off" by (simp_all add: unstarted_def)
  from restore_law [OF f(1,2)] obtain d where
    d: "restore ops (sr_decompressor r) ?cp = (d, Inr ())" "at d (compressed_offset ?cp) (uncompressed_offset ?cp)" by blast
  let ?skip = "off - uncompressed_offset ?cp"
  define r' where "r' = r\<lparr>sr_decompressor := d, sr_started := True, sr_compressed_pos := compressed_offset ?cp,
      sr_unpacked_pos := uncompressed_offset ?cp,
      sr_state := (if ?skip > 0 then NeedInputSkipping ?skip else NeedInputEmitting len)\<rparr>"
  have sv: "serveable r = 0" using r by (simp add: serveable_def unstarted_def)
  have "reader_step ops r = Some (r', SeekAndRead (compressed_offset ?cp) BUF_SIZE)"
  proof -
    have t: "sr_target_len r = len" "sr_target_offset r = off" "sr_state r = SeekToCheckpoint"
      using r len by (simp_all add: unstarted_def)
    have "reader_step_once ops r = (r', Some (SeekAndRead (compressed_offset ?cp) BUF_SIZE))"
      unfolding reader_step_once_def t d(1) r'_def using sv t by (simp add: Let_def)
    then show ?thesis by (subst reader_step.simps) simp
  qed
  moreover have un: "unread r' = []" and b: "buffered r' = []"
    using r by (simp_all add: unread_def buffered_def unstarted_def r'_def)
  have c: "consumed r' = compressed_offset ?cp" using un by (simp add: consumed_def) (simp add: r'_def)
  have "input_ok packed r'" using un restore_bound [OF f(1,2)] r
    by (simp add: input_ok_def) (simp add: r'_def unstarted_def)
  moreover have "output_ok unpacked r'" using b r by (simp add: output_ok_def) (simp add: r'_def unstarted_def)
  moreover have "range_ok unpacked off len [] r'" using r by (simp add: range_ok_def r'_def unstarted_def)
  moreover have "state_ok unpacked off len [] r'" using f(3) len un b
    by (simp add: state_ok_def) (simp add: r'_def)
  ultimately show thesis using that [of r'] un d(2) c r by (simp add: live_def r'_def unstarted_def)
qed

lemma read_loop_unstarted:
  assumes rd: "reads_ok packed rd" and r: "unstarted off len r"
  shows "\<exists>r'. read_loop ops packed rd r pos [] =
        Some (r', read_result (sr_require_full r) len (take len (drop off unpacked))) \<and>
      (if len = 0 then r' = r else finished off len r') \<and> config r' = config r"
proof (cases "len = 0")
  case True
  then have "reader_step ops r = Some (r, RequestDone)"
    using r by (subst reader_step.simps) (simp add: reader_step_once_def unstarted_def serveable_def)
  then show ?thesis using True by (subst read_loop.simps) (simp add: read_result_def)
next
  case False
  let ?p = "compressed_offset (sr_checkpoint r)"
  from unstarted_step [OF r] False obtain r1 where
    st: "reader_step ops r = Some (r1, SeekAndRead ?p BUF_SIZE)" "live off len [] r1" "unread r1 = []" "\<not> sr_eof r1"
      "sr_compressed_pos r1 = ?p" "config r1 = config r" by auto
  note f = fed_reader_live [OF rd st(2,3)]
  have "read_loop ops packed rd r pos [] = read_loop ops packed rd (fed_reader rd r1) (sr_compressed_pos (fed_reader rd r1)) []"
    using st(1,5) f(3) by (subst read_loop.simps) (auto simp: Let_def fed_reader_def)
  then show ?thesis using read_loop_live [OF rd f(1)] f(4) st(6) False by simp
qed

section \<open>Moving a reader forward\<close>

lemma position_le: "live off len acc r \<Longrightarrow> reader_position r \<le> off + length acc"
  using length_buffered [of unpacked r]
  by (auto simp: live_def reader_position_def state_ok_def Let_def split: reader_state.splits)

lemma seek_forward_live:
  assumes r: "live off0 len0 acc r" and fwd: "reader_position r \<le> off"
  shows "\<exists>r'. seek_forward r off len = (r', Inr ()) \<and> live off (clamp_len (sr_unpacked_len r) off len) [] r' \<and>
    config r' = config r"
proof -
  from r have o: "output_ok unpacked r" and sta: "sr_started r" by (simp_all add: live_def)
  define len' where "len' = clamp_len (sr_unpacked_len r) off len"
  define pos where "pos = reader_position r"
  define k where "k = min (off - pos) (length (buffered r))"
  have len_b: "length (buffered r) = sr_output_len r - sr_output_read r" by (rule length_buffered [OF o])
  have pos: "pos = sr_unpacked_pos r - length (buffered r)" "pos \<le> off"
    using sta fwd by (simp_all add: pos_def reader_position_def len_b)
  define r1 where "r1 = r\<lparr>sr_output_read := sr_output_read r + k\<rparr>"
  define r2 where "r2 = (if sr_output_read r1 = sr_output_len r1 then r1\<lparr>sr_output_len := 0, sr_output_read := 0\<rparr> else r1)"
  define r3 where "r3 = r2\<lparr>sr_target_offset := off, sr_target_len := len', sr_range_left := len'\<rparr>"
  define beyond where "beyond = off - pos - k"
  define rest where "rest = len' - serveable r3"
  define r' where "r' = r3\<lparr>sr_state := (if rest = 0 \<or> sr_stream_ended r3 then ReaderDone
      else if beyond > 0 then Skipping beyond else Emitting rest)\<rparr>"
  have sel2: "sr_started r2 = sr_started r" "sr_decompressor r2 = sr_decompressor r" "sr_unpacked_pos r2 = sr_unpacked_pos r"
    "sr_compressed_pos r2 = sr_compressed_pos r" "unread r2 = unread r" "sr_eof r2 = sr_eof r" "sr_output_buf r2 = sr_output_buf r"
    "sr_require_full r2 = sr_require_full r" "sr_unpacked_len r2 = sr_unpacked_len r" "sr_stream_ended r2 = sr_stream_ended r"
    "sr_input_buf r2 = sr_input_buf r" "sr_input_pos r2 = sr_input_pos r"
    by (simp_all add: r2_def r1_def unread_def)
  have sk: "seek_forward r off len = (r', Inr ())"
    unfolding seek_forward_def Let_def pos_def [symmetric] len_b [symmetric] k_def [symmetric] r1_def [symmetric]
      r2_def [symmetric] sel2(9) len'_def [symmetric] r3_def [symmetric] beyond_def [symmetric] rest_def [symmetric] r'_def [symmetric]
    using sta pos(2) by simp
  have sel: "sr_started r' = sr_started r" "sr_decompressor r' = sr_decompressor r" "sr_unpacked_pos r' = sr_unpacked_pos r"
    "sr_compressed_pos r' = sr_compressed_pos r" "unread r' = unread r" "sr_eof r' = sr_eof r"
    "sr_output_buf r' = sr_output_buf r" "sr_range_left r' = len'" "sr_require_full r' = sr_require_full r"
    "sr_target_offset r' = off" "sr_target_len r' = len'" "sr_unpacked_len r' = sr_unpacked_len r"
    "sr_stream_ended r' = sr_stream_ended r" "sr_stream_ended r3 = sr_stream_ended r"
    unfolding r'_def r3_def by (simp_all add: sel2 unread_def)
  have c: "consumed r' = consumed r" by (simp add: consumed_def sel)
  have lens: "sr_output_read r + k \<le> sr_output_len r" 
  proof -
    have "sr_output_read r \<le> sr_output_len r" "k \<le> sr_output_len r - sr_output_read r"
      using o len_b by (simp_all add: k_def output_ok_def)
    then show ?thesis by linarith
  qed
  have b: "buffered r' = drop k (buffered r)" and b3: "buffered r3 = drop k (buffered r)"
    using len_b by (auto simp: r'_def r3_def r2_def r1_def buffered_def drop_drop add.commute)
  have bp: "take (length (buffered r)) (drop (sr_unpacked_pos r - length (buffered r)) unpacked) = buffered r"
    "length (buffered r) \<le> sr_unpacked_pos r" using o by (simp_all add: output_ok_def)
  have kl: "k \<le> length (buffered r)" by (simp add: k_def)
  have "take (length (buffered r) - k) (drop (sr_unpacked_pos r - (length (buffered r) - k)) unpacked)
      = drop k (take (length (buffered r)) (drop (sr_unpacked_pos r - length (buffered r)) unpacked))"
    using kl bp(2) by (simp add: drop_take add.commute)
  also have "\<dots> = drop k (buffered r)" using bp(1) by simp
  finally have o3: "output_ok unpacked r3" and o': "output_ok unpacked r'"
    using o bp(2) lens sel unfolding output_ok_def b b3
    by (auto simp: r'_def r3_def r2_def r1_def)
  have sv: "serveable r3 = min (length (buffered r) - k) len'"
  proof -
    have "sr_range_left r3 = len'" by (simp add: r3_def)
    then show ?thesis using serveable_buffered [OF o3] by (simp add: b3)
  qed
  have far: "length (buffered r) = k" if "beyond > 0"
    using that by (simp add: beyond_def k_def min_def split: if_splits)
  have kp: "k \<le> off - pos" by (simp add: k_def)
  have near: "sr_unpacked_pos r - (length (buffered r) - k) = off" if "beyond = 0"
  proof -
    have "k = off - pos" using that kp by (simp add: beyond_def)
    then show ?thesis using pos bp(2) kl by simp
  qed
  have before: "sr_unpacked_pos r - (length (buffered r) - k) \<le> off" using pos kp kl bp(2) by simp
  have "state_ok unpacked off len' [] r'"
  proof (cases "rest = 0 \<or> sr_stream_ended r")
    case True
    then have s: "sr_state r' = ReaderDone" using sel(14) by (simp add: r'_def)
    consider (none) "len' = 0" | (buf) "beyond = 0" "off + len' \<le> sr_unpacked_pos r"
      | (ended) "sr_unpacked_pos r = length unpacked" "beyond = 0" | (past) "sr_unpacked_pos r = length unpacked" "0 < beyond"
    proof (cases "rest = 0")
      case True
      then have "len' = 0 \<or> len' \<le> length (buffered r) - k" using sv by (simp add: rest_def min_def split: if_splits)
      moreover have "off + len' \<le> sr_unpacked_pos r" if "beyond = 0" "len' \<le> length (buffered r) - k"
        using near [OF that(1)] that(2) bp(2) by linarith
      ultimately show thesis using that far by (cases "beyond = 0"; cases "len' = 0") auto
    next
      case False
      then show thesis using True o that(3,4) by (cases "beyond = 0") (simp_all add: output_ok_def)
    qed
    then show ?thesis
    proof cases
      case past
      then have "sr_unpacked_pos r \<le> off" using far [OF past(2)] before by simp
      then show ?thesis using past far [OF past(2)] by (simp add: state_ok_def s b sel)
    qed (use before near in \<open>simp_all add: state_ok_def s b sel Let_def\<close>)
  next
    case False
    then have lt: "length (buffered r) - k < len'" and rest: "rest = len' - (length (buffered r) - k)"
      using sv by (simp_all add: rest_def min_def split: if_splits)
    show ?thesis
    proof (cases "beyond = 0")
      case True
      have s: "sr_state r' = Emitting rest" using True \<open>\<not> (rest = 0 \<or> sr_stream_ended r)\<close> sel(14) by (simp add: r'_def)
      have "sr_unpacked_pos r + rest = off + len'" using near [OF True] rest lt bp(2) kl by linarith
      then show ?thesis using lt rest near [OF True] by (simp add: state_ok_def s b sel)
    next
      case False
      have s: "sr_state r' = Skipping beyond" using False \<open>\<not> (rest = 0 \<or> sr_stream_ended r)\<close> sel(14) by (simp add: r'_def)
      have far': "length (buffered r) = k" using far False by simp
      then have "sr_unpacked_pos r + beyond = off" using pos bp(2) False by (simp add: beyond_def)
      then show ?thesis using False far' lt by (simp add: state_ok_def s b sel)
    qed
  qed
  moreover have "input_ok packed r'" using r by (simp add: live_def input_ok_def sel c)
  moreover have "range_ok unpacked off len' [] r'" by (simp add: range_ok_def sel)
  ultimately have "live off len' [] r'" using r o' by (simp add: live_def sel c)
  then show ?thesis using sk sel unfolding len'_def config_eq by blast
qed

lemma seek_forward_unstarted:
  assumes r: "unstarted off0 len0 r" and fwd: "off0 \<le> off"
  shows "\<exists>r'. seek_forward r off len = (r', Inr ()) \<and> unstarted off (clamp_len (sr_unpacked_len r) off len) r' \<and>
    config r' = config r"
  using assms by (simp add: seek_forward_def unstarted_def Let_def)

end

section \<open>Many ranges with one reader\<close>

text \<open>
  The loop of \<^emph>\<open>Reading many files\<close> in the documentation of \<^verbatim>\<open>StreamReader\<close>: one live reader moved
  from range to range, its input read from where it stands.
\<close>

fun read_ranges ::
  "'d decompressor \<Rightarrow> bytes \<Rightarrow> (nat \<Rightarrow> nat \<Rightarrow> nat) \<Rightarrow> 'd stream_reader \<Rightarrow> (nat \<times> nat) list \<Rightarrow>
   ('d stream_reader \<times> bytes list result) option" where
  "read_ranges ops file rd r [] = Some (r, Inr [])"
| "read_ranges ops file rd r ((off, len) # rs) =
     (case seek_forward r off len of
        (r, Inl e) \<Rightarrow> Some (r, Inl e)
      | (r, Inr _) \<Rightarrow>
          (case read_loop ops file rd r (compressed_position r) [] of
             None \<Rightarrow> None
           | Some (r, Inl e) \<Rightarrow> Some (r, Inl e)
           | Some (r, Inr out) \<Rightarrow>
               (case read_ranges ops file rd r rs of
                  None \<Rightarrow> None
                | Some (r, Inl e) \<Rightarrow> Some (r, Inl e)
                | Some (r, Inr outs) \<Rightarrow> Some (r, Inr (out # outs)))))"

fun ascending :: "nat \<Rightarrow> (nat \<times> nat) list \<Rightarrow> bool" where
  "ascending start [] \<longleftrightarrow> True"
| "ascending start ((off, len) # rs) \<longleftrightarrow> start \<le> off \<and> ascending (off + len) rs"

lemma ascending_mono: "ascending b rs \<Longrightarrow> a \<le> b \<Longrightarrow> ascending a rs"
  by (cases rs) auto

lemma clamp_len_le: "clamp_len n off len \<le> len"
  by (simp add: clamp_len_def split: option.split)

lemma clamp_take:
  "n = None \<or> n = Some (length unpacked) \<Longrightarrow> take (clamp_len n off len) (drop off unpacked) = take len (drop off unpacked)"
  by (auto simp: clamp_len_def take_all min_def split: option.split)

lemma clamp_full: "length (take (clamp_len (Some (length unpacked)) off len) (drop off unpacked)) = clamp_len (Some (length unpacked)) off len"
  by (simp add: clamp_len_def)

lemma read_result_clamped:
  assumes "n = None \<or> n = Some (length unpacked)"
  shows "read_result (n \<noteq> None) (clamp_len n off len) (take (clamp_len n off len) (drop off unpacked)) =
    Inr (take len (drop off unpacked))"
proof (cases n)
  case None
  then show ?thesis by (simp add: read_result_def clamp_len_def)
next
  case (Some m)
  then have "length (take (clamp_len n off len) (drop off unpacked)) = clamp_len n off len" using assms clamp_full by auto
  then show ?thesis using clamp_take [OF assms, of off len] by (simp add: read_result_def del: length_take)
qed

context decoder
begin

text \<open>A reader at or before \<open>p\<close>.\<close>

definition stands_before :: "nat \<Rightarrow> 'd stream_reader \<Rightarrow> bool" where
  "stands_before p r \<longleftrightarrow>
     (\<exists>off len acc. live off len acc r \<and> reader_position r \<le> p) \<or> (\<exists>off len. unstarted off len r \<and> off \<le> p)"

lemma seek_read:
  assumes rd: "reads_ok packed rd" and r: "stands_before off r"
    and ul: "sr_unpacked_len r = None \<or> sr_unpacked_len r = Some (length unpacked)"
    and full: "sr_require_full r \<longleftrightarrow> sr_unpacked_len r \<noteq> None"
  shows "\<exists>r1 r2. seek_forward r off len = (r1, Inr ()) \<and>
      read_loop ops packed rd r1 (compressed_position r1) [] = Some (r2, Inr (take len (drop off unpacked))) \<and>
      stands_before (off + len) r2 \<and> config r2 = config r"
proof -
  let ?len = "clamp_len (sr_unpacked_len r) off len"
  have ct: "take ?len (drop off unpacked) = take len (drop off unpacked)" by (rule clamp_take [OF ul])
  have res: "read_result (sr_require_full r) ?len (take ?len (drop off unpacked)) = Inr (take len (drop off unpacked))"
    using read_result_clamped [OF ul] full by simp
  have fin: "stands_before (off + len) r2" if "finished off ?len r2" for r2
  proof -
    from that have l: "live off ?len (take ?len (drop off unpacked)) r2" by (simp add: finished_def)
    have "reader_position r2 \<le> off + ?len" using position_le [OF l] by simp
    then have "reader_position r2 \<le> off + len" using clamp_len_le [of "sr_unpacked_len r" off len] by linarith
    with l show ?thesis by (auto simp: stands_before_def)
  qed
  from r consider (live) off0 len0 acc where "live off0 len0 acc r" "reader_position r \<le> off"
    | (new) off0 len0 where "unstarted off0 len0 r" "off0 \<le> off" by (auto simp: stands_before_def)
  then show ?thesis
  proof cases
    case live
    from seek_forward_live [OF live, of len] obtain r1 where
      r1: "seek_forward r off len = (r1, Inr ())" "live off ?len [] r1" "config r1 = config r" by auto
    from read_loop_live [OF rd r1(2)] r1(3) res obtain r2 where
      "read_loop ops packed rd r1 (sr_compressed_pos r1) [] = Some (r2, Inr (take len (drop off unpacked)))"
      "finished off ?len r2" "config r2 = config r" by auto
    then show ?thesis using r1(1) fin by (auto simp: compressed_position_def)
  next
    case new
    from seek_forward_unstarted [OF new, of len] obtain r1 where
      r1: "seek_forward r off len = (r1, Inr ())" "unstarted off ?len r1" "config r1 = config r" by auto
    from read_loop_unstarted [OF rd r1(2), of "compressed_position r1"] r1(3) res obtain r2 where
      r2: "read_loop ops packed rd r1 (compressed_position r1) [] = Some (r2, Inr (take len (drop off unpacked)))"
      "if ?len = 0 then r2 = r1 else finished off ?len r2" "config r2 = config r" by auto
    have "stands_before (off + len) r2"
      using r2(2) r1(2) fin by (auto simp: stands_before_def split: if_splits)
    then show ?thesis using r1(1) r2 by auto
  qed
qed

lemma read_ranges_ascending:
  assumes rd: "reads_ok packed rd"
  shows "ascending start rs \<Longrightarrow> stands_before start r \<Longrightarrow>
    sr_unpacked_len r = None \<or> sr_unpacked_len r = Some (length unpacked) \<Longrightarrow>
    sr_require_full r = (sr_unpacked_len r \<noteq> None) \<Longrightarrow>
    \<exists>r'. read_ranges ops packed rd r rs = Some (r', Inr (map (\<lambda>(off, len). take len (drop off unpacked)) rs))"
proof (induction rs arbitrary: start r)
  case (Cons x rs)
  obtain off len where x: "x = (off, len)" by (cases x)
  from Cons.prems(1) x have a: "start \<le> off" "ascending (off + len) rs" by simp_all
  have sb: "stands_before off r" using Cons.prems(2) a(1) unfolding stands_before_def by (meson le_trans)
  from seek_read [OF rd sb Cons.prems(3,4), of len] obtain r1 r2 where
    s: "seek_forward r off len = (r1, Inr ())"
      "read_loop ops packed rd r1 (compressed_position r1) [] = Some (r2, Inr (take len (drop off unpacked)))"
      "stands_before (off + len) r2" "config r2 = config r" by blast
  have c: "sr_unpacked_len r2 = sr_unpacked_len r" "sr_require_full r2 = sr_require_full r" using s(4) by simp_all
  from Cons.IH [OF a(2) s(3)] c Cons.prems(3,4) obtain r' where
    "read_ranges ops packed rd r2 rs = Some (r', Inr (map (\<lambda>(off, len). take len (drop off unpacked)) rs))" by auto
  then show ?case using s(1,2) x by simp
qed simp

text \<open>From an index to the bytes.\<close>

lemma reader_new_reads:
  assumes rd: "reads_ok packed rd" and cr: "create (si_codec idx) = Inr d" "fresh d"
    and idx: "cps_ok (si_checkpoints idx)" "\<forall>cp\<in>set (si_checkpoints idx). good cp"
    and ul: "si_unpacked_len idx = None \<or> si_unpacked_len idx = Some (length unpacked)"
  shows "\<exists>r r'. reader_new create idx off len = Inr r \<and>
    read_loop ops packed rd r pos [] = Some (r', Inr (take len (drop off unpacked)))"
proof -
  let ?len = "clamp_len (si_unpacked_len idx) off len"
  obtain r where r: "reader_new create idx off len = Inr r" "unstarted off ?len r"
      "sr_unpacked_len r = si_unpacked_len idx" "sr_require_full r = (si_unpacked_len idx \<noteq> None)"
    by (rule reader_new_unstarted [where create = create and idx = idx and off = off and len = len, OF idx cr])
  have "read_result (sr_require_full r) ?len (take ?len (drop off unpacked)) = Inr (take len (drop off unpacked))"
    using read_result_clamped [OF ul] r(4) by simp
  with read_loop_unstarted [OF rd r(2), of pos] r(1) show ?thesis by auto
qed

lemma require_full_reads:
  assumes rd: "reads_ok packed rd" and cr: "create (si_codec idx) = Inr d" "fresh d"
    and idx: "cps_ok (si_checkpoints idx)" "\<forall>cp\<in>set (si_checkpoints idx). good cp"
    and ul: "si_unpacked_len idx = None"
  shows "\<exists>r r'. reader_new create idx off len = Inr r \<and>
    read_loop ops packed rd (require_full_range r) pos [] =
      Some (r', if len \<le> length unpacked - off then Inr (take len (drop off unpacked)) else Inl TruncatedInput)"
proof -
  from reader_new_unstarted [where create = create and idx = idx and off = off and len = len, OF idx cr] ul obtain r where
    r: "reader_new create idx off len = Inr r" "unstarted off len r" by (auto simp: clamp_len_def)
  then have r': "unstarted off len (require_full_range r)" by (simp add: unstarted_def require_full_range_def)
  have "read_result (sr_require_full (require_full_range r)) len (take len (drop off unpacked)) =
      (if len \<le> length unpacked - off then Inr (take len (drop off unpacked)) else Inl TruncatedInput)"
    by (simp add: read_result_def require_full_range_def)
  with read_loop_unstarted [OF rd r', of pos] r(1) show ?thesis by auto
qed

lemma reader_new_ranges:
  assumes rd: "reads_ok packed rd" and cr: "create (si_codec idx) = Inr d" "fresh d"
    and idx: "cps_ok (si_checkpoints idx)" "\<forall>cp\<in>set (si_checkpoints idx). good cp"
    and ul: "si_unpacked_len idx = None \<or> si_unpacked_len idx = Some (length unpacked)"
    and rs: "ascending off rs"
  shows "\<exists>r r'. reader_new create idx off len = Inr r \<and>
    read_ranges ops packed rd r rs = Some (r', Inr (map (\<lambda>(off, len). take len (drop off unpacked)) rs))"
proof -
  let ?len = "clamp_len (si_unpacked_len idx) off len"
  obtain r where r: "reader_new create idx off len = Inr r" "unstarted off ?len r"
      "sr_unpacked_len r = si_unpacked_len idx" "sr_require_full r = (si_unpacked_len idx \<noteq> None)"
    by (rule reader_new_unstarted [where create = create and idx = idx and off = off and len = len, OF idx cr])
  from r(2) have "stands_before off r" by (auto simp: stands_before_def)
  with read_ranges_ascending [OF rd rs] r ul show ?thesis by auto
qed

end

section \<open>Reading ranges\<close>

text \<open>C17: Reading a range of a stream, from any good index and with any split of the file into
  reads, ends, and gives exactly the bytes of the range, cut at the end of the stream.\<close>

theorem reader_reads_range:
  assumes "decoder ops packed unpacked at good fresh" and "reads_ok packed rd"
    and "create (si_codec idx) = Inr d" and "fresh d"
    and "cps_ok (si_checkpoints idx)" and "\<forall>cp\<in>set (si_checkpoints idx). good cp"
    and "si_unpacked_len idx = None \<or> si_unpacked_len idx = Some (length unpacked)"
  shows "\<exists>r r'. reader_new create idx off len = Inr r \<and>
    read_loop ops packed rd r pos [] = Some (r', Inr (take len (drop off unpacked)))"
  by (rule decoder.reader_new_reads [where ops = ops and at = at and good = good and fresh = fresh and create = create and d = d, OF assms])

definition example_index :: stream_index where
  "example_index = stream_index_new (codec_of_format CfNone) (Some 4)"

definition example_rd :: "nat \<Rightarrow> nat \<Rightarrow> nat" where
  "example_rd pos want = min (min want 3) (4 - pos)"

lemma example_ok:
  "reads_ok [1, 2, 3, 4] example_rd" "cps_ok (si_checkpoints example_index)"
  "\<forall>cp\<in>set (si_checkpoints example_index). none_good [1, 2, 3, 4] cp" "si_unpacked_len example_index = None"
  by (auto simp: reads_ok_def example_rd_def example_index_def stream_index_new_def cps_ok_def
      start_checkpoint_def none_good_def)

theorem reader_reads_range_witness:
  "\<exists>r r'. reader_new (\<lambda>_. Inr none_new) example_index 1 2 = Inr r \<and>
    read_loop none_ops [1, 2, 3, 4] example_rd r 0 [] = Some (r', Inr [2, 3])"
  using reader_reads_range [where create = "\<lambda>_. Inr none_new" and d = none_new and off = 1 and len = 2 and pos = 0,
      OF none.decoder_axioms example_ok(1) _ _ example_ok(2,3)]
    example_ok(4) by simp

text \<open>C18: A reader told that its range must exist reports a stream that ends before it as
  \<^verbatim>\<open>TruncatedInput\<close>, and otherwise gives the whole range.\<close>

theorem reader_reports_truncation:
  assumes "decoder ops packed unpacked at good fresh" and "reads_ok packed rd"
    and "create (si_codec idx) = Inr d" and "fresh d"
    and "cps_ok (si_checkpoints idx)" and "\<forall>cp\<in>set (si_checkpoints idx). good cp"
    and "si_unpacked_len idx = None"
  shows "\<exists>r r'. reader_new create idx off len = Inr r \<and>
    read_loop ops packed rd (require_full_range r) pos [] =
      Some (r', if len \<le> length unpacked - off then Inr (take len (drop off unpacked)) else Inl TruncatedInput)"
  by (rule decoder.require_full_reads [where ops = ops and at = at and good = good and fresh = fresh and create = create and d = d, OF assms])

theorem reader_reports_truncation_witness:
  "\<exists>r r'. reader_new (\<lambda>_. Inr none_new) example_index 2 3 = Inr r \<and>
    read_loop none_ops [1, 2, 3, 4] example_rd (require_full_range r) 0 [] = Some (r', Inl TruncatedInput)"
  using reader_reports_truncation [where create = "\<lambda>_. Inr none_new" and d = none_new and off = 2 and len = 3 and pos = 0,
      OF none.decoder_axioms example_ok(1) _ _ example_ok(2,3,4)] by simp

text \<open>C19: One live reader moved over ascending ranges with \<^verbatim>\<open>seek_forward\<close> gives the same bytes as
  reading each range from the stream's contents.\<close>

theorem live_reader_reads_all:
  assumes "decoder ops packed unpacked at good fresh" and "reads_ok packed rd"
    and "create (si_codec idx) = Inr d" and "fresh d"
    and "cps_ok (si_checkpoints idx)" and "\<forall>cp\<in>set (si_checkpoints idx). good cp"
    and "si_unpacked_len idx = None \<or> si_unpacked_len idx = Some (length unpacked)"
    and "ascending off rs"
  shows "\<exists>r r'. reader_new create idx off len = Inr r \<and>
    read_ranges ops packed rd r rs = Some (r', Inr (map (\<lambda>(off, len). take len (drop off unpacked)) rs))"
  by (rule decoder.reader_new_ranges [where ops = ops and at = at and good = good and fresh = fresh and create = create and d = d, OF assms])

theorem live_reader_reads_all_witness:
  "\<exists>r r'. reader_new (\<lambda>_. Inr none_new) example_index 0 1 = Inr r \<and>
    read_ranges none_ops [1, 2, 3, 4] example_rd r [(0, 1), (1, 0), (2, 5)] = Some (r', Inr [[1], [], [3, 4]])"
  using live_reader_reads_all [where create = "\<lambda>_. Inr none_new" and d = none_new and off = 0 and len = 1
      and rs = "[(0, 1), (1, 0), (2, 5)]", OF none.decoder_axioms example_ok(1) _ _ example_ok(2,3)] example_ok(4) by simp

end
