(* ===== verification/SyncStream.thy ===== *)
theory SyncStream
  imports IndexerCorrect ReaderRange
begin

text \<open>
  \<^verbatim>\<open>src/sync/stream.rs\<close>, and \<^verbatim>\<open>EntryReader\<close> of \<^verbatim>\<open>src/sync/reader.rs\<close>: building the index of a compressed
  file and reading ranges of it. A file is its bytes with \<open>rd\<close>, which says how many bytes a read of up
  to \<open>want\<close> bytes at \<open>pos\<close> gives; reads do not fail.
\<close>

section \<open>Building an index\<close>

text \<open>\<^verbatim>\<open>while indexer.read_output(&mut buf) > 0 {}\<close>.\<close>

function discard_output :: "('d, 's) stream_indexer \<Rightarrow> ('d, 's) stream_indexer" where
  "discard_output r =
     (case indexer_read_output r BUF_SIZE of (r', out) \<Rightarrow> if out = [] then r' else discard_output r')"
  by pat_completeness auto
termination
proof (relation "measure (\<lambda>r. ix_out_len r - ix_out_read r)")
  fix r :: "('d, 's) stream_indexer" and r' out
  assume eq: "(r', out) = indexer_read_output r BUF_SIZE" and ne: "out \<noteq> []"
  then have "ix_out_len r - ix_out_read r \<noteq> 0" by (auto simp: indexer_read_output_def Let_def split: if_splits)
  then show "(r', r) \<in> measure (\<lambda>r. ix_out_len r - ix_out_read r)" using eq
    by (auto simp: indexer_read_output_def Let_def BUF_SIZE_def split: if_splits)
qed simp

declare discard_output.simps [simp del]

text \<open>
  The loop of \<^verbatim>\<open>build_with_progress\<close>: what it does with a request, and the loop; \<open>p\<close> is the state
  of the progress callback.
\<close>

definition request_error :: "engine_request \<Rightarrow> error option" where
  "request_error q = (case q of RequestError e \<Rightarrow> Some e | _ \<Rightarrow> None)"

definition indexer_answer ::
  "bytes \<Rightarrow> (nat \<Rightarrow> nat \<Rightarrow> nat) \<Rightarrow> ('d, 's) stream_indexer \<Rightarrow> engine_request \<Rightarrow> nat \<Rightarrow> ('d, 's) stream_indexer \<times> nat" where
  "indexer_answer data rd r q pos =
     (case q of
        NeedInput \<Rightarrow>
          let n = rd pos BUF_SIZE in
          if n = 0 then (indexer_signal_eof r, pos)
          else (indexer_provide_data r (take n (drop pos data)), pos + n)
      | SeekAndRead offset len \<Rightarrow>
          let n = rd offset (min len BUF_SIZE) in
          if n = 0 then (indexer_signal_eof r, offset)
          else (indexer_provide_data r (take n (drop offset data)), offset + n)
      | OutputReady \<Rightarrow> (discard_output r, pos)
      | _ \<Rightarrow> (r, pos))"

partial_function (option) build_loop ::
  "'d decompressor \<Rightarrow> 's strategy \<Rightarrow> bytes \<Rightarrow> (nat \<Rightarrow> nat \<Rightarrow> nat) \<Rightarrow> ('p \<Rightarrow> stream_progress \<Rightarrow> 'p \<times> bool) \<Rightarrow>
   'p \<Rightarrow> ('d, 's) stream_indexer \<Rightarrow> nat \<Rightarrow> (('d, 's) stream_indexer \<times> unit result) option" where
  "build_loop ops S data rd on_progress p r pos =
     (case indexer_step ops S r of
        None \<Rightarrow> None
      | Some (r', q) \<Rightarrow>
          if q = RequestDone then Some (r', Inr ())
          else
            (case request_error q of
               Some e \<Rightarrow> Some (r', Inl e)
             | None \<Rightarrow>
                 (case indexer_answer data rd r' q pos of
                    (r'', pos') \<Rightarrow>
                      (case on_progress p (indexer_progress r'') of
                         (p', go) \<Rightarrow> if go then build_loop ops S data rd on_progress p' r'' pos' else Some (r'', Inr ())))))"

text \<open>\<^verbatim>\<open>build_with_progress\<close>, giving the index of the \<^verbatim>\<open>Stream\<close>.\<close>

definition stream_build ::
  "'d decompressor \<Rightarrow> (codec_spec \<Rightarrow> 'd result) \<Rightarrow> codec_spec \<Rightarrow> 's strategy \<Rightarrow> 's \<Rightarrow>
   ('p \<Rightarrow> stream_progress \<Rightarrow> 'p \<times> bool) \<Rightarrow> 'p \<Rightarrow> bytes \<Rightarrow> (nat \<Rightarrow> nat \<Rightarrow> nat) \<Rightarrow> stream_index result option" where
  "stream_build ops create codec S strat on_progress p data rd =
     (case indexer_new create codec strat (Some (length data)) of
        Inl e \<Rightarrow> Some (Inl e)
      | Inr r \<Rightarrow>
          (case build_loop ops S data rd on_progress p r 0 of
             None \<Rightarrow> None
           | Some (r', Inl e) \<Rightarrow> Some (Inl e)
           | Some (r', Inr _) \<Rightarrow> Some (Inr (indexer_finish r'))))"

text \<open>\<^verbatim>\<open>with_codec_and_strategy\<close>: the callback never stops.\<close>

definition stream_with_codec ::
  "'d decompressor \<Rightarrow> (codec_spec \<Rightarrow> 'd result) \<Rightarrow> codec_spec \<Rightarrow> 's strategy \<Rightarrow> 's \<Rightarrow> bytes \<Rightarrow> (nat \<Rightarrow> nat \<Rightarrow> nat) \<Rightarrow>
   stream_index result option" where
  "stream_with_codec ops create codec S strat data rd =
     stream_build ops create codec S strat (\<lambda>p _. (p, True)) () data rd"

text \<open>The loop of \<^verbatim>\<open>detect_format\<close>: the first 512 bytes, in as many reads as it takes.\<close>

function header_len :: "(nat \<Rightarrow> nat \<Rightarrow> nat) \<Rightarrow> nat \<Rightarrow> nat" where
  "header_len rd len =
     (if len < 512 then let n = rd len (512 - len) in if n = 0 then len else header_len rd (len + n) else len)"
  by pat_completeness auto
termination by (relation "measure (\<lambda>(rd, len). 512 - len)") auto

declare header_len.simps [simp del]

definition stream_detect_format :: "bytes \<Rightarrow> (nat \<Rightarrow> nat \<Rightarrow> nat) \<Rightarrow> compression_format result" where
  "stream_detect_format data rd = ok_or (detect_format (take (header_len rd 0) data)) UnsupportedFormat"

definition stream_with_strategy ::
  "'d decompressor \<Rightarrow> (codec_spec \<Rightarrow> 'd result) \<Rightarrow> 's strategy \<Rightarrow> 's \<Rightarrow> bytes \<Rightarrow> (nat \<Rightarrow> nat \<Rightarrow> nat) \<Rightarrow>
   stream_index result option" where
  "stream_with_strategy ops create S strat data rd =
     (case stream_detect_format data rd of
        Inl e \<Rightarrow> Some (Inl e)
      | Inr format \<Rightarrow> stream_with_codec ops create (codec_of_format format) S strat data rd)"

definition stream_new ::
  "'d decompressor \<Rightarrow> (codec_spec \<Rightarrow> 'd result) \<Rightarrow> bytes \<Rightarrow> (nat \<Rightarrow> nat \<Rightarrow> nat) \<Rightarrow> stream_index result option" where
  "stream_new ops create data rd =
     (case stream_detect_format data rd of
        Inl e \<Rightarrow> Some (Inl e)
      | Inr format \<Rightarrow>
          stream_with_codec ops create (codec_of_format format) fixed_interval_ops
            (fixed_interval_new (default_interval_for_format format)) data rd)"

section \<open>Reading\<close>

record 'd entry_reader =
  er_engine :: "'d stream_reader"
  er_pos :: nat
  er_done :: bool

definition entry_reader_over :: "'d stream_reader \<Rightarrow> nat \<Rightarrow> 'd entry_reader" where
  "entry_reader_over engine pos = \<lparr>er_engine = engine, er_pos = pos, er_done = False\<rparr>"

text \<open>The loop of \<^verbatim>\<open>EntryReader::read\<close> with a buffer of \<open>cap\<close> bytes.\<close>

partial_function (option) entry_read_loop ::
  "'d decompressor \<Rightarrow> bytes \<Rightarrow> (nat \<Rightarrow> nat \<Rightarrow> nat) \<Rightarrow> 'd entry_reader \<Rightarrow> nat \<Rightarrow> ('d entry_reader \<times> bytes result) option" where
  "entry_read_loop ops data rd e cap =
     (case reader_step ops (er_engine e) of
        None \<Rightarrow> None
      | Some (r, q) \<Rightarrow>
          (case q of
             NeedInput \<Rightarrow>
               let n = rd (er_pos e) BUF_SIZE in
               if n = 0 then entry_read_loop ops data rd (e\<lparr>er_engine := reader_signal_eof r\<rparr>) cap
               else entry_read_loop ops data rd
                 (e\<lparr>er_engine := reader_provide_data r (take n (drop (er_pos e) data)), er_pos := er_pos e + n\<rparr>) cap
           | SeekAndRead offset len \<Rightarrow>
               let n = rd offset (min len BUF_SIZE) in
               if n = 0 then entry_read_loop ops data rd (e\<lparr>er_engine := reader_signal_eof r, er_pos := offset\<rparr>) cap
               else entry_read_loop ops data rd
                 (e\<lparr>er_engine := reader_provide_data r (take n (drop offset data)), er_pos := offset + n\<rparr>) cap
           | OutputReady \<Rightarrow>
               (case reader_read_output r cap of
                  (r', out) \<Rightarrow>
                    if out \<noteq> [] then Some (e\<lparr>er_engine := r'\<rparr>, Inr out)
                    else entry_read_loop ops data rd (e\<lparr>er_engine := r'\<rparr>) cap)
           | RequestDone \<Rightarrow> Some (e\<lparr>er_engine := r, er_done := True\<rparr>, Inr [])
           | RequestError err \<Rightarrow> Some (e\<lparr>er_engine := r, er_done := True\<rparr>, Inl err)))"

definition entry_read ::
  "'d decompressor \<Rightarrow> bytes \<Rightarrow> (nat \<Rightarrow> nat \<Rightarrow> nat) \<Rightarrow> 'd entry_reader \<Rightarrow> nat \<Rightarrow> ('d entry_reader \<times> bytes result) option" where
  "entry_read ops data rd e cap =
     (if er_done e \<or> cap = 0 then Some (e, Inr [])
      else case reader_read_output (er_engine e) cap of
        (r, out) \<Rightarrow>
          if out \<noteq> [] then Some (e\<lparr>er_engine := r\<rparr>, Inr out)
          else entry_read_loop ops data rd (e\<lparr>er_engine := r\<rparr>) cap)"

text \<open>
  \<^verbatim>\<open>read_to_end\<close> of the standard library: reads until one gives nothing; the length of what was
  read so far decides the size of the next buffer.
\<close>

partial_function (option) read_to_end ::
  "'d decompressor \<Rightarrow> bytes \<Rightarrow> (nat \<Rightarrow> nat \<Rightarrow> nat) \<Rightarrow> (nat \<Rightarrow> nat) \<Rightarrow> 'd entry_reader \<Rightarrow> bytes \<Rightarrow>
   ('d entry_reader \<times> bytes result) option" where
  "read_to_end ops data rd caps e acc =
     (case entry_read ops data rd e (caps (length acc)) of
        None \<Rightarrow> None
      | Some (e', Inl err) \<Rightarrow> Some (e', Inl err)
      | Some (e', Inr out) \<Rightarrow>
          if out = [] then Some (e', Inr acc) else read_to_end ops data rd caps e' (acc @ out))"

definition stream_open ::
  "(codec_spec \<Rightarrow> 'd result) \<Rightarrow> stream_index \<Rightarrow> nat \<Rightarrow> nat \<Rightarrow> nat \<Rightarrow> 'd entry_reader result" where
  "stream_open create index pos offset len =
     and_then (reader_new create index offset len) (\<lambda>r. Inr (entry_reader_over r pos))"

text \<open>\<^verbatim>\<open>read_range\<close>; an error of the reader comes back as an I/O error with its message.\<close>

definition stream_read_range ::
  "'d decompressor \<Rightarrow> (codec_spec \<Rightarrow> 'd result) \<Rightarrow> stream_index \<Rightarrow> bytes \<Rightarrow> (nat \<Rightarrow> nat \<Rightarrow> nat) \<Rightarrow> (nat \<Rightarrow> nat) \<Rightarrow>
   nat \<Rightarrow> nat \<Rightarrow> nat \<Rightarrow> bytes result option" where
  "stream_read_range ops create index data rd caps pos offset len =
     (case stream_open create index pos offset len of
        Inl e \<Rightarrow> Some (Inl e)
      | Inr r \<Rightarrow>
          (case read_to_end ops data rd caps r [] of
             None \<Rightarrow> None
           | Some (_, Inl e) \<Rightarrow> Some (Inl (IoError ''{}''))
           | Some (_, Inr out) \<Rightarrow> Some (Inr out)))"

section \<open>A whole pass\<close>

context decoder
begin

definition ix_progress_rel :: "(('d, 's) stream_indexer \<times> ('d, 's) stream_indexer) set" where
  "ix_progress_rel = measures [\<lambda>r. case ix_state r of IxSeek _ \<Rightarrow> 1 | _ \<Rightarrow> 0, ix_work packed unpacked,
     \<lambda>r. length packed - ix_fed r, \<lambda>r. if ix_eof r then 0 else 1, \<lambda>r. if ix_pending r \<noteq> [] then 1 else 0]"

lemma wf_ix_progress: "wf ix_progress_rel"
  by (simp add: ix_progress_rel_def)

definition fed_indexer :: "(nat \<Rightarrow> nat \<Rightarrow> nat) \<Rightarrow> ('d, 's) stream_indexer \<Rightarrow> ('d, 's) stream_indexer" where
  "fed_indexer rd r =
     (let n = rd (ix_fed r) BUF_SIZE in
      if n = 0 then indexer_signal_eof r else indexer_provide_data r (take n (drop (ix_fed r) packed)))"

lemma fed_indexer_live:
  assumes rd: "reads_ok packed rd" and l: "ix_live base acc r" and un: "ix_unread r = []" and ns: "ix_state r \<noteq> IxDone"
  shows "ix_live base acc (fed_indexer rd r)" "ix_work packed unpacked (fed_indexer rd r) = ix_work packed unpacked r"
    "ix_fed (fed_indexer rd r) = ix_fed r + rd (ix_fed r) BUF_SIZE" "ix_config (fed_indexer rd r) = ix_config r"
    "ix_pending (fed_indexer rd r) = ix_pending r" "ix_state (fed_indexer rd r) = IxProcessing"
    "length packed - ix_fed (fed_indexer rd r) < length packed - ix_fed r \<or>
     ix_fed (fed_indexer rd r) = ix_fed r \<and> ix_eof (fed_indexer rd r)"
proof -
  let ?n = "rd (ix_fed r) BUF_SIZE" and ?r = "fed_indexer rd r"
  have cp: "ix_fed r \<le> length packed" using l by (simp add: ix_live_def ix_input_ok_def)
  have "ix_live base acc ?r \<and> ix_work packed unpacked ?r = ix_work packed unpacked r \<and> ix_fed ?r = ix_fed r + ?n \<and>
    ix_config ?r = ix_config r \<and> ix_pending ?r = ix_pending r \<and> ix_state ?r = IxProcessing \<and>
    (length packed - ix_fed ?r < length packed - ix_fed r \<or> ix_fed ?r = ix_fed r \<and> ix_eof ?r)"
  proof (cases "?n = 0")
    case True
    have "ix_fed r = length packed"
    proof (rule ccontr)
      assume "ix_fed r \<noteq> length packed"
      with cp have "0 < BUF_SIZE \<and> ix_fed r < length packed" by (simp add: BUF_SIZE_def)
      with rd True show False unfolding reads_ok_def by (metis less_irrefl)
    qed
    note se = ix_signal_eof_live [OF l ns this]
    have "?r = indexer_signal_eof r" using True by (simp add: fed_indexer_def)
    moreover have "ix_state (indexer_signal_eof r) = IxProcessing" by (simp add: indexer_signal_eof_def)
    ultimately show ?thesis using se True by simp
  next
    case False
    let ?data = "take ?n (drop (ix_fed r) packed)"
    have nle: "?n \<le> length packed - ix_fed r" using rd by (simp add: reads_ok_def)
    then have len: "length ?data = ?n" by simp
    have "ix_fed r < length packed" using nle False by linarith
    then have ne: "\<not> ix_eof r" using l by (auto simp: ix_live_def ix_input_ok_def)
    have d: "take (length ?data) (drop (ix_fed r) packed) = ?data" "?data \<noteq> []" using len False by auto
    note pl = ix_provide_live [OF l un ns ne d]
    have r': "?r = indexer_provide_data r ?data" using False by (simp add: fed_indexer_def)
    moreover have "ix_state (indexer_provide_data r ?data) = IxProcessing" "ix_pending (indexer_provide_data r ?data) = ix_pending r"
      by (simp_all add: indexer_provide_data_def ix_pending_def)
    moreover have "length packed - ix_fed (indexer_provide_data r ?data) < length packed - ix_fed r"
      using pl(3,4) len False by simp
    ultimately show ?thesis using pl len by simp
  qed
  then show "ix_live base acc ?r" "ix_work packed unpacked ?r = ix_work packed unpacked r" "ix_fed ?r = ix_fed r + ?n"
    "ix_config ?r = ix_config r" "ix_pending ?r = ix_pending r" "ix_state ?r = IxProcessing"
    "length packed - ix_fed ?r < length packed - ix_fed r \<or> ix_fed ?r = ix_fed r \<and> ix_eof ?r" by blast+
qed

lemma ix_need_input_progress:
  assumes rd: "reads_ok packed rd" and ok: "ix_step_ok base acc r r1 (Some NeedInput)" and ns: "\<forall>off. ix_state r \<noteq> IxSeek off"
  shows "ix_live base acc (fed_indexer rd r1)" "(fed_indexer rd r1, r) \<in> ix_progress_rel"
    "ix_fed (fed_indexer rd r1) = ix_fed r + rd (ix_fed r) BUF_SIZE" "ix_config (fed_indexer rd r1) = ix_config r"
    "ix_pending (fed_indexer rd r1) = []" "ix_state (fed_indexer rd r1) = IxProcessing" "ix_fed r1 = ix_fed r"
proof -
  from ok have l: "ix_live base acc r1" "ix_unread r1 = []" "ix_state r1 \<noteq> IxDone" and e: "ix_eof r1 = ix_eof r" "ix_fed r1 = ix_fed r"
    "ix_config r1 = ix_config r" "ix_work packed unpacked r1 \<le> ix_work packed unpacked r"
    "ix_eof r \<longrightarrow> ix_work packed unpacked r1 < ix_work packed unpacked r" "ix_pending r1 = []"
    by (simp_all add: ix_step_ok_def)
  note f = fed_indexer_live [OF rd l]
  show "ix_live base acc (fed_indexer rd r1)" "ix_config (fed_indexer rd r1) = ix_config r"
    "ix_fed (fed_indexer rd r1) = ix_fed r + rd (ix_fed r) BUF_SIZE" "ix_pending (fed_indexer rd r1) = []"
    "ix_state (fed_indexer rd r1) = IxProcessing" "ix_fed r1 = ix_fed r"
    using f e by simp_all
  show "(fed_indexer rd r1, r) \<in> ix_progress_rel" using f(2,6,7) e(2,4,5) ns
    by (auto simp: ix_progress_rel_def le_less split: indexer_state.splits)
qed

text \<open>The index a pass leaves behind.\<close>

definition index_ok :: "stream_index \<Rightarrow> bool" where
  "index_ok idx \<longleftrightarrow> cps_ok (si_checkpoints idx) \<and> (\<forall>cp\<in>set (si_checkpoints idx). good cp) \<and>
     (si_unpacked_len idx = None \<or> si_unpacked_len idx = Some (length unpacked)) \<and>
     (si_complete idx \<longrightarrow> si_unpacked_len idx = Some (length unpacked) \<and> si_indexed_to idx = length unpacked) \<and>
     uncompressed_offset (last_checkpoint idx) \<le> si_indexed_to idx \<and> si_indexed_to idx \<le> length unpacked"

lemma live_index_ok:
  assumes "ix_live base acc r"
  shows "index_ok (ix_index r)"
proof -
  have t: "table_ok good r" and l: "ix_len_ok unpacked r" and o: "ix_output_ok unpacked base acc r"
    using assms by (simp_all add: ix_live_def)
  have "last_checkpoint (ix_index r) \<in> set (si_checkpoints (ix_index r))"
    using t by (intro last_checkpoint_in) (simp add: table_ok_def)
  then have "uncompressed_offset (last_checkpoint (ix_index r)) \<le> ix_unpacked_pos r" using t by (simp add: table_ok_def)
  then show ?thesis using t l o by (auto simp: index_ok_def table_ok_def ix_len_ok_def ix_output_ok_def)
qed

lemma build_loop_live:
  assumes rd: "reads_ok packed rd"
  shows "ix_live base [] r \<Longrightarrow> \<not> ix_emit_output r \<Longrightarrow> (\<forall>off. ix_state r \<noteq> IxSeek off) \<Longrightarrow>
    \<exists>r'. build_loop ops S packed rd on_progress p r (ix_fed r) = Some (r', Inr ()) \<and> ix_live base [] r' \<and>
      ix_config r' = ix_config r \<and> ((\<forall>p x. snd (on_progress p x)) \<longrightarrow> ix_state r' = IxDone)"
proof (induction r arbitrary: p rule: wf_induct_rule [OF wf_ix_progress])
  case (1 r)
  from indexer_step_live [OF 1(2,4)] obtain r1 q where
    st: "indexer_step ops S r = Some (r1, q)" "ix_step_ok base [] r r1 (Some q)" by blast
  show ?case
  proof (cases q)
    case NeedInput
    note f = ix_need_input_progress [OF rd st(2) [unfolded NeedInput] 1(4)]
    let ?r2 = "fed_indexer rd r1"
    have ans: "indexer_answer packed rd r1 q (ix_fed r) = (?r2, ix_fed ?r2)"
      using NeedInput f(3,7) by (auto simp: indexer_answer_def fed_indexer_def Let_def)
    obtain p' go where pr: "on_progress p (indexer_progress ?r2) = (p', go)"
      by (cases "on_progress p (indexer_progress ?r2)") auto
    show ?thesis
    proof (cases go)
      case True
      have "build_loop ops S packed rd on_progress p r (ix_fed r) = build_loop ops S packed rd on_progress p' ?r2 (ix_fed ?r2)"
        using st(1) NeedInput ans pr True by (subst build_loop.simps) (simp add: request_error_def)
      moreover have "\<not> ix_emit_output ?r2" using f(4) 1(3) by simp
      ultimately show ?thesis using 1(1) [OF f(2,1), of p'] f(4,6) by simp
    next
      case False
      then have "build_loop ops S packed rd on_progress p r (ix_fed r) = Some (?r2, Inr ())"
        using st(1) NeedInput ans pr by (subst build_loop.simps) (simp add: request_error_def)
      moreover have "\<not> (\<forall>p x. snd (on_progress p x))" using pr False by (metis snd_conv)
      ultimately show ?thesis using f(1,4) by auto
    qed
  next
    case RequestDone
    then have "build_loop ops S packed rd on_progress p r (ix_fed r) = Some (r1, Inr ())"
      using st(1) by (subst build_loop.simps) simp
    then show ?thesis using st(2) RequestDone by (simp add: ix_step_ok_def)
  qed (use st(2) 1(3) in \<open>simp_all add: ix_step_ok_def\<close>)
qed

text \<open>Building with any strategy and callback leaves a good index, complete if nothing stops it.\<close>

lemma stream_build_ok:
  assumes rd: "reads_ok packed rd" and cr: "create codec = Inr d" "fresh d"
  shows "\<exists>idx. stream_build ops create codec S strat on_progress p packed rd = Some (Inr idx) \<and> index_ok idx \<and>
    si_codec idx = codec \<and> si_compressed_len idx = Some (length packed) \<and>
    ((\<forall>p x. snd (on_progress p x)) \<longrightarrow> si_complete idx)"
proof -
  obtain r where r: "indexer_new create codec strat (Some (length packed)) = Inr r" "ix_live 0 [] r"
      "\<forall>off. ix_state r \<noteq> IxSeek off" "ix_config r = (False, None, codec, Some (length packed))" "ix_fed r = 0"
    by (rule indexer_new_live [of create codec, OF cr, where strat = strat and clen = "Some (length packed)"])
  have e: "\<not> ix_emit_output r" "ix_stop_at r = None" "si_codec (ix_index r) = codec"
      "si_compressed_len (ix_index r) = Some (length packed)"
    using r(4) by (simp_all add: ix_config_def)
  from build_loop_live [OF rd r(2) e(1) r(3), of S on_progress p] r(5) obtain r' where
    b: "build_loop ops S packed rd on_progress p r 0 = Some (r', Inr ())" "ix_live 0 [] r'" "ix_config r' = ix_config r"
      "(\<forall>p x. snd (on_progress p x)) \<longrightarrow> ix_state r' = IxDone" by auto
  have "stream_build ops create codec S strat on_progress p packed rd = Some (Inr (ix_index r'))"
    using r(1) b(1) by (simp add: stream_build_def indexer_finish_def)
  moreover have "ix_state r' = IxDone \<Longrightarrow> si_complete (ix_index r')"
    using b(2,3) e(2) by (auto simp: ix_live_def ix_state_ok_def)
  ultimately show ?thesis using live_index_ok [OF b(2)] b(3,4) e by auto
qed

section \<open>Streaming reads\<close>

lemma entry_read_loop_live:
  assumes rd: "reads_ok packed rd" and cap: "0 < cap"
  shows "live off len acc (er_engine e) \<Longrightarrow> er_pos e = sr_compressed_pos (er_engine e) \<Longrightarrow> \<not> er_done e \<Longrightarrow>
    (sr_require_full (er_engine e) \<longrightarrow> len \<le> length unpacked - off) \<Longrightarrow>
    \<exists>e' out. entry_read_loop ops packed rd e cap = Some (e', Inr out) \<and>
      (if out = [] then acc = take len (drop off unpacked) \<and> er_done e'
       else live off len (acc @ out) (er_engine e') \<and> er_pos e' = sr_compressed_pos (er_engine e') \<and> \<not> er_done e' \<and>
         sr_require_full (er_engine e') = sr_require_full (er_engine e))"
proof (induction "er_engine e" arbitrary: e rule: wf_induct_rule [OF wf_progress])
  case (1 e)
  let ?r = "er_engine e"
  from reader_step_live [OF 1(2)] obtain r1 q where
    st: "reader_step ops ?r = Some (r1, finish_request r1 q)" "step_ok off len acc ?r r1 (Some q)" by blast
  show ?case
  proof (cases q)
    case NeedInput
    note f = need_input_progress [OF rd st(2) [unfolded NeedInput]]
    have cp: "sr_compressed_pos r1 = sr_compressed_pos ?r" using st(2) by (simp add: step_ok_def)
    define e' where "e' = e\<lparr>er_engine := fed_reader rd r1, er_pos := sr_compressed_pos (fed_reader rd r1)\<rparr>"
    have "e' = (if rd (er_pos e) BUF_SIZE = 0 then e\<lparr>er_engine := reader_signal_eof r1\<rparr>
        else e\<lparr>er_engine := reader_provide_data r1 (take (rd (er_pos e) BUF_SIZE) (drop (er_pos e) packed)),
               er_pos := er_pos e + rd (er_pos e) BUF_SIZE\<rparr>)"
      using f(3) cp 1(3) by (auto simp: e'_def fed_reader_def Let_def)
    then have eq: "entry_read_loop ops packed rd e cap = entry_read_loop ops packed rd e' cap"
      using st(1) NeedInput by (subst entry_read_loop.simps) (auto simp: finish_request_def Let_def)
    have sel: "er_engine e' = fed_reader rd r1" "er_pos e' = sr_compressed_pos (fed_reader rd r1)" "\<not> er_done e'"
      using 1(4) by (simp_all add: e'_def)
    have n: "(er_engine e', er_engine e) \<in> progress_rel" "live off len acc (er_engine e')"
      "er_pos e' = sr_compressed_pos (er_engine e')"
      "sr_require_full (er_engine e') \<longrightarrow> len \<le> length unpacked - off" using f sel 1(5) by simp_all
    have "sr_require_full (er_engine e') = sr_require_full (er_engine e)" using f(4) sel by simp
    with 1(1) [OF n(1,2,3) sel(3) n(4)] show ?thesis by (simp only: eq)
  next
    case OutputReady
    obtain r2 out where ro: "reader_read_output r1 cap = (r2, out)" by (cases "reader_read_output r1 cap") auto
    have l1: "live off len acc r1" "0 < min (serveable r1) cap" "config r1 = config ?r" "sr_compressed_pos r1 = sr_compressed_pos ?r"
      using st(2) OutputReady cap by (simp_all add: step_ok_def)
    note ro' = read_output_live [OF l1(1) ro l1(2)]
    have "entry_read_loop ops packed rd e cap = Some (e\<lparr>er_engine := r2\<rparr>, Inr out)"
      using st(1) OutputReady ro ro'(2) by (subst entry_read_loop.simps) (simp add: finish_request_def)
    then show ?thesis using ro' l1 1(3,4) by auto
  next
    case RequestDone
    with st(2) have l1: "live off len acc r1" "sr_state r1 = ReaderDone" "serveable r1 = 0" "config r1 = config ?r"
      by (simp_all add: step_ok_def)
    note dn = live_done [OF l1(1-3)]
    have "\<not> (sr_range_left r1 > 0 \<and> sr_require_full r1)" using dn(2) l1(4) 1(5) by auto
    then have "entry_read_loop ops packed rd e cap = Some (e\<lparr>er_engine := r1, er_done := True\<rparr>, Inr [])"
      using st(1) RequestDone by (subst entry_read_loop.simps) (simp add: finish_request_def)
    then show ?thesis using dn(1) by simp
  qed (use st(2) in \<open>simp_all add: step_ok_def\<close>)
qed

lemma entry_read_live:
  assumes rd: "reads_ok packed rd" and cap: "0 < cap"
    and l: "live off len acc (er_engine e)" "er_pos e = sr_compressed_pos (er_engine e)" "\<not> er_done e"
      "sr_require_full (er_engine e) \<longrightarrow> len \<le> length unpacked - off"
  shows "\<exists>e' out. entry_read ops packed rd e cap = Some (e', Inr out) \<and>
      (if out = [] then acc = take len (drop off unpacked) \<and> er_done e'
       else live off len (acc @ out) (er_engine e') \<and> er_pos e' = sr_compressed_pos (er_engine e') \<and> \<not> er_done e' \<and>
         sr_require_full (er_engine e') = sr_require_full (er_engine e))"
proof -
  obtain r out where ro: "reader_read_output (er_engine e) cap = (r, out)" by (cases "reader_read_output (er_engine e) cap") auto
  show ?thesis
  proof (cases "0 < min (serveable (er_engine e)) cap")
    case True
    note ro' = read_output_live [OF l(1) ro True]
    have "entry_read ops packed rd e cap = Some (e\<lparr>er_engine := r\<rparr>, Inr out)"
      using l(3) cap ro ro'(2) by (simp add: entry_read_def)
    then show ?thesis using ro' l by auto
  next
    case False
    then have "r = er_engine e" "out = []" using ro cap by (auto simp: reader_read_output_def Let_def)
    then have "entry_read ops packed rd e cap = entry_read_loop ops packed rd e cap"
      using l(3) cap ro by (simp add: entry_read_def)
    then show ?thesis using entry_read_loop_live [OF rd cap l] by simp
  qed
qed

lemma read_to_end_live:
  assumes rd: "reads_ok packed rd" and caps: "\<forall>n. 0 < caps n"
  shows "live off len acc (er_engine e) \<Longrightarrow> er_pos e = sr_compressed_pos (er_engine e) \<Longrightarrow> \<not> er_done e \<Longrightarrow>
    (sr_require_full (er_engine e) \<longrightarrow> len \<le> length unpacked - off) \<Longrightarrow>
    \<exists>e'. read_to_end ops packed rd caps e acc = Some (e', Inr (take len (drop off unpacked)))"
proof (induction "len - length acc" arbitrary: e acc rule: less_induct)
  case less
  from entry_read_live [OF rd caps [rule_format] less.prems] obtain e' out where
    er: "entry_read ops packed rd e (caps (length acc)) = Some (e', Inr out)"
    "if out = [] then acc = take len (drop off unpacked) \<and> er_done e'
       else live off len (acc @ out) (er_engine e') \<and> er_pos e' = sr_compressed_pos (er_engine e') \<and> \<not> er_done e' \<and>
         sr_require_full (er_engine e') = sr_require_full (er_engine e)" by blast
  show ?case
  proof (cases "out = []")
    case True
    then show ?thesis using er by (subst read_to_end.simps) simp
  next
    case False
    with er(2) have l': "live off len (acc @ out) (er_engine e')" "er_pos e' = sr_compressed_pos (er_engine e')" "\<not> er_done e'"
      "sr_require_full (er_engine e') = sr_require_full (er_engine e)" by simp_all
    have "length (acc @ out) \<le> len" using l'(1) by (simp add: live_def range_ok_def)
    moreover have "0 < length out" using False by simp
    ultimately have "len - length (acc @ out) < len - length acc" unfolding length_append by linarith
    from less.hyps [OF this l'(1-3)] l'(4) less.prems(4) show ?thesis
      using er(1) False by (subst read_to_end.simps) simp
  qed
qed

text \<open>The first read of an entry reader that has not been stepped.\<close>

lemma read_to_end_unstarted:
  assumes rd: "reads_ok packed rd" and caps: "\<forall>n. 0 < caps n" and r: "unstarted off len (er_engine e)" "\<not> er_done e"
    and full: "sr_require_full (er_engine e) \<longrightarrow> len \<le> length unpacked - off"
  shows "\<exists>e'. read_to_end ops packed rd caps e [] = Some (e', Inr (take len (drop off unpacked)))"
proof -
  let ?r = "er_engine e"
  have noout: "reader_read_output ?r (caps 0) = (?r, [])"
    using r by (simp add: reader_read_output_def Let_def serveable_def unstarted_def)
  have er: "entry_read ops packed rd e (caps 0) = entry_read_loop ops packed rd e (caps 0)"
    using noout r(2) caps [rule_format, of 0] by (simp add: entry_read_def)
  show ?thesis
  proof (cases "len = 0")
    case True
    then have "reader_step ops ?r = Some (?r, RequestDone)"
      using r by (subst reader_step.simps) (simp add: reader_step_once_def unstarted_def serveable_def)
    then have "entry_read_loop ops packed rd e (caps 0) = Some (e\<lparr>er_engine := ?r, er_done := True\<rparr>, Inr [])"
      by (subst entry_read_loop.simps) simp
    then show ?thesis using True er by (subst read_to_end.simps) simp
  next
    case False
    let ?p = "compressed_offset (sr_checkpoint ?r)"
    from unstarted_step [OF r(1)] False obtain r1 where
      st: "reader_step ops ?r = Some (r1, SeekAndRead ?p BUF_SIZE)" "live off len [] r1" "unread r1 = []"
        "sr_compressed_pos r1 = ?p" "config r1 = config ?r" by auto
    note f = fed_reader_live [OF rd st(2,3)]
    define e1 where "e1 = e\<lparr>er_engine := fed_reader rd r1, er_pos := sr_compressed_pos (fed_reader rd r1)\<rparr>"
    have "e1 = (if rd ?p BUF_SIZE = 0 then e\<lparr>er_engine := reader_signal_eof r1, er_pos := ?p\<rparr>
        else e\<lparr>er_engine := reader_provide_data r1 (take (rd ?p BUF_SIZE) (drop ?p packed)), er_pos := ?p + rd ?p BUF_SIZE\<rparr>)"
      using f(3) st(4) by (auto simp: e1_def fed_reader_def Let_def)
    then have "entry_read_loop ops packed rd e (caps 0) = entry_read_loop ops packed rd e1 (caps 0)"
      using st(1) by (subst entry_read_loop.simps) (auto simp: Let_def)
    moreover have sel: "er_engine e1 = fed_reader rd r1" "er_pos e1 = sr_compressed_pos (er_engine e1)" "\<not> er_done e1"
      using r(2) by (simp_all add: e1_def)
    moreover have "live off len [] (er_engine e1)" "sr_require_full (er_engine e1) \<longrightarrow> len \<le> length unpacked - off"
      using f(1,4) st(5) sel full by simp_all
    ultimately obtain e' out where er': "entry_read ops packed rd e (caps 0) = Some (e', Inr out)"
      "if out = [] then [] = take len (drop off unpacked) \<and> er_done e'
       else live off len ([] @ out) (er_engine e') \<and> er_pos e' = sr_compressed_pos (er_engine e') \<and> \<not> er_done e' \<and>
         sr_require_full (er_engine e') = sr_require_full (er_engine e1)"
      using entry_read_loop_live [OF rd caps [rule_format, of 0], of off len "[]" e1] er by auto
    show ?thesis
    proof (cases "out = []")
      case True
      then show ?thesis using er' by (subst read_to_end.simps) simp
    next
      case False
      then have l': "live off len out (er_engine e')" "er_pos e' = sr_compressed_pos (er_engine e')" "\<not> er_done e'"
        "sr_require_full (er_engine e') \<longrightarrow> len \<le> length unpacked - off"
        using er'(2) f(4) st(5) sel full by simp_all
      from read_to_end_live [OF rd caps l'] show ?thesis using er'(1) False by (subst read_to_end.simps) simp
    qed
  qed
qed

lemma stream_read_range_ok:
  assumes rd: "reads_ok packed rd" and caps: "\<forall>n. 0 < caps n" and cr: "create (si_codec idx) = Inr d" "fresh d"
    and idx: "cps_ok (si_checkpoints idx)" "\<forall>cp\<in>set (si_checkpoints idx). good cp"
    and ul: "si_unpacked_len idx = None \<or> si_unpacked_len idx = Some (length unpacked)"
  shows "stream_read_range ops create idx packed rd caps pos off len = Some (Inr (take len (drop off unpacked)))"
proof -
  let ?len = "clamp_len (si_unpacked_len idx) off len"
  obtain r where r: "reader_new create idx off len = Inr r" "unstarted off ?len r"
      "sr_unpacked_len r = si_unpacked_len idx" "sr_require_full r = (si_unpacked_len idx \<noteq> None)"
    by (rule reader_new_unstarted [where create = create and idx = idx and off = off and len = len, OF idx cr])
  have "sr_require_full r \<longrightarrow> ?len \<le> length unpacked - off" using r(4) ul by (auto simp: clamp_len_def)
  with read_to_end_unstarted [OF rd caps, of off ?len "entry_reader_over r pos"] r(2) obtain e' where
    "read_to_end ops packed rd caps (entry_reader_over r pos) [] = Some (e', Inr (take ?len (drop off unpacked)))"
    by (auto simp: entry_reader_over_def)
  then show ?thesis using r(1) clamp_take [OF ul, of off len] by (simp add: stream_read_range_def stream_open_def)
qed

lemma index_ok_reads:
  "index_ok idx \<Longrightarrow> reads_ok packed rd \<Longrightarrow> (\<forall>n. 0 < caps n) \<Longrightarrow> create (si_codec idx) = Inr d \<Longrightarrow> fresh d \<Longrightarrow>
    stream_read_range ops create idx packed rd caps pos off len = Some (Inr (take len (drop off unpacked)))"
  by (rule stream_read_range_ok) (auto simp: index_ok_def)

end

section \<open>From a compressed file to its bytes\<close>

text \<open>C20: Building the index of a compressed file with any strategy, stopped by its callback anywhere
  or not at all, succeeds, and reading any range through that index gives exactly the bytes of the
  range, however the file is cut into reads in either pass.\<close>

theorem stream_build_read:
  assumes "decoder ops packed unpacked at good fresh" and "reads_ok packed rd" and "reads_ok packed rd'"
    and "create codec = Inr d" and "fresh d" and "\<forall>n. 0 < caps n"
  shows "\<exists>idx. stream_build ops create codec S strat on_progress p packed rd = Some (Inr idx) \<and>
    (\<forall>pos off len. stream_read_range ops create idx packed rd' caps pos off len =
       Some (Inr (take len (drop off unpacked))))"
proof -
  from decoder.stream_build_ok [where create = create and codec = codec and d = d and fresh = fresh,
      OF assms(1,2,4,5), of S strat on_progress p] obtain idx where
    b: "stream_build ops create codec S strat on_progress p packed rd = Some (Inr idx)"
      "decoder.index_ok unpacked good idx" "si_codec idx = codec" by blast
  have "stream_read_range ops create idx packed rd' caps pos off len = Some (Inr (take len (drop off unpacked)))"
    for pos off len
    using decoder.index_ok_reads [where create = create and caps = caps and fresh = fresh and d = d, OF assms(1) b(2) assms(3,6)]
      assms(4,5) b(3) by auto
  with b(1) show ?thesis by blast
qed

theorem stream_build_read_witness:
  "\<exists>idx. stream_build none_ops (\<lambda>_. Inr none_new) [Copy] fixed_interval_ops (fixed_interval_new 2)
      (\<lambda>n _. (n + 1, n < (2 :: nat))) 0 [1, 2, 3, 4] example_rd = Some (Inr idx) \<and>
    stream_read_range none_ops (\<lambda>_. Inr none_new) idx [1, 2, 3, 4] example_rd (\<lambda>_. 1) 0 1 2 = Some (Inr [2, 3])"
  using stream_build_read [where create = "\<lambda>_. Inr none_new" and d = none_new and caps = "\<lambda>_. 1" and codec = "[Copy]",
      OF none.decoder_axioms example_ok(1) example_ok(1), of fixed_interval_ops "fixed_interval_new 2"
      "\<lambda>n _. (n + 1, n < (2 :: nat))" 0] by auto

text \<open>C21: A pass that nothing stops ends with a complete index that knows the unpacked length and has
  the stream indexed to its end.\<close>

theorem stream_build_complete:
  assumes "decoder ops packed unpacked at good fresh" and "reads_ok packed rd"
    and "create codec = Inr d" and "fresh d"
  shows "\<exists>idx. stream_with_codec ops create codec S strat packed rd = Some (Inr idx) \<and> si_complete idx \<and>
    si_unpacked_len idx = Some (length unpacked) \<and> si_indexed_to idx = length unpacked \<and>
    cps_ok (si_checkpoints idx) \<and> (\<forall>cp\<in>set (si_checkpoints idx). uncompressed_offset cp \<le> length unpacked)"
proof -
  from decoder.stream_build_ok [where create = create and codec = codec and d = d and fresh = fresh,
      OF assms, of S strat "\<lambda>p _. (p, True)" "()"] obtain idx where
    b: "stream_with_codec ops create codec S strat packed rd = Some (Inr idx)"
      "decoder.index_ok unpacked good idx" "si_complete idx" by (auto simp: stream_with_codec_def)
  from b(2,3) have i: "si_unpacked_len idx = Some (length unpacked)" "si_indexed_to idx = length unpacked"
    "cps_ok (si_checkpoints idx)" "uncompressed_offset (last_checkpoint idx) \<le> length unpacked"
    by (auto simp: decoder.index_ok_def [OF assms(1)])
  then have "\<forall>cp\<in>set (si_checkpoints idx). uncompressed_offset cp \<le> length unpacked"
    using last_checkpoint_max by (meson le_trans)
  with b(1,3) i show ?thesis by blast
qed

theorem stream_build_complete_witness:
  "\<exists>idx. stream_with_codec none_ops (\<lambda>_. Inr none_new) [Copy] fixed_interval_ops (fixed_interval_new 2) [1, 2, 3, 4] example_rd
      = Some (Inr idx) \<and> si_complete idx \<and> si_unpacked_len idx = Some 4"
  using stream_build_complete [where create = "\<lambda>_. Inr none_new" and d = none_new and codec = "[Copy]",
      OF none.decoder_axioms example_ok(1), of fixed_interval_ops "fixed_interval_new 2"] by auto

end
