(* ===== verification/EngineCorrect.thy ===== *)
theory EngineCorrect
  imports Engine SyncStream
begin

text \<open>
  The indexing engine over a decoder that keeps its contract: whatever chunks the stream arrives
  in, the engine ends with what the archive parser gives when it is handed the unpacked stream in some
  chunks, which is what it gives in one piece unless it gives up inside a chunk.
\<close>

section \<open>Format detection\<close>

lemma take_first: "take (Suc n) zs = c # cs \<Longrightarrow> zs ! 0 = c"
  by (cases zs) auto

lemma detect_alt:
  "detect_archive_format data =
     (if take 8 data = AR_MAGIC \<or> take 8 data = THIN_MAGIC then Some Ar
      else if take 6 data \<in> {ascii ''070701'', ascii ''070702'', ascii ''070707''} then Some Cpio
      else if take 2 data \<in> {[0xC7, 0x71], [0x71, 0xC7]} then Some Cpio
      else if MIN_DETECT_BYTES \<le> length data then Some Tar else None)"
proof -
  have pre: "n \<le> length data \<and> subslice 0 n data = xs \<longleftrightarrow> take n data = xs" if "length xs = n" for n xs
    using that by (auto simp: subslice_def) (metis length_take min.cobounded1)
  have two: "2 \<le> length data \<and> data ! 0 = a \<and> data ! 1 = b \<longleftrightarrow> take 2 data = [a, b]" for a b
    by (cases data; cases "tl data") (auto simp: take_Cons')
  show ?thesis
    unfolding detect_archive_format_def conj_disj_distribL two insert_iff empty_iff simp_thms
    by (simp add: pre AR_MAGIC_simp THIN_MAGIC_simp)
qed

lemma take_prefix: "take n xs = zs \<Longrightarrow> length zs = n \<Longrightarrow> take n (xs @ ys) = zs"
  by (metis append_Nil2 append_take_drop_id diff_is_0_eq length_take min.cobounded2 min_def take0 take_append)

lemma take_prefix_in: "take n xs \<in> Z \<Longrightarrow> \<forall>z\<in>Z. length z = n \<Longrightarrow> take n (xs @ ys) \<in> Z"
  using take_prefix by metis

lemma detect_mono:
  assumes "detect_archive_format xs = Some f"
  shows "detect_archive_format (xs @ ys) = Some f"
proof (cases "8 \<le> length xs")
  case True
  then show ?thesis using assms by (auto simp: detect_alt split: if_splits)
next
  case False
  have ne: "xs \<noteq> []" using assms by (auto simp: detect_alt AR_MAGIC_simp THIN_MAGIC_simp MIN_DETECT_BYTES_def)
  have "\<not> (take 8 xs = AR_MAGIC \<or> take 8 xs = THIN_MAGIC)"
    using False arg_cong [of "take 8 xs" _ length] by (auto simp: AR_MAGIC_simp THIN_MAGIC_simp)
  moreover have "\<not> MIN_DETECT_BYTES \<le> length xs" using False by (simp add: MIN_DETECT_BYTES_def)
  ultimately have f: "f = Cpio" and pre: "take 6 xs \<in> {ascii ''070701'', ascii ''070702'', ascii ''070707''} \<or>
      take 2 xs \<in> {[0xC7, 0x71], [0x71, 0xC7]}"
    using assms by (auto simp: detect_alt split: if_splits)
  have hd: "xs ! 0 \<in> {48, 0xC7, 0x71}"
    using pre take_first [of 5 xs] take_first [of 1 xs] by (auto simp: numeral_eq_Suc)
  have "\<not> (take 8 (xs @ ys) = AR_MAGIC \<or> take 8 (xs @ ys) = THIN_MAGIC)"
  proof
    assume "take 8 (xs @ ys) = AR_MAGIC \<or> take 8 (xs @ ys) = THIN_MAGIC"
    then have "(xs @ ys) ! 0 = 33"
      using take_first [of 7 "xs @ ys" 33] by (auto simp: AR_MAGIC_simp THIN_MAGIC_simp numeral_eq_Suc)
    with hd ne show False by (auto simp: nth_append)
  qed
  moreover have "take 6 (xs @ ys) \<in> {ascii ''070701'', ascii ''070702'', ascii ''070707''} \<or>
      take 2 (xs @ ys) \<in> {[0xC7, 0x71], [0x71, 0xC7]}"
    using pre
  proof
    assume "take 6 xs \<in> {ascii ''070701'', ascii ''070702'', ascii ''070707''}"
    from take_prefix_in [OF this, of ys] show ?thesis by simp
  next
    assume "take 2 xs \<in> {[0xC7, 0x71], [0x71, 0xC7]}"
    from take_prefix_in [OF this, of ys] show ?thesis by simp
  qed
  ultimately show ?thesis using f by (auto simp: detect_alt)
qed

section \<open>Parsing a whole stream\<close>

definition stream_format :: "archive_format option \<Rightarrow> bytes \<Rightarrow> archive_format" where
  "stream_format fmt data = unwrap_or fmt (unwrap_or (detect_archive_format data) Tar)"

text \<open>The specification: one parser over the whole stream.\<close>

definition parse_stream :: "archive_format option \<Rightarrow> index_builder \<Rightarrow> bytes \<Rightarrow> index_builder result option" where
  "parse_stream fmt b data =
     (if fmt = None \<and> data = [] then Some (Inr b)
      else
        let af = stream_format fmt data in
        (case feed_to_parser parser_feed add_entry (create_archive_parser af) (set_archive_format b af) data 0 of
           None \<Rightarrow> None
         | Some (p, b', r) \<Rightarrow>
             (case r of
                Inl err \<Rightarrow> Some (Inl err)
              | Inr (_, fin) \<Rightarrow>
                  if fin then Some (Inr b')
                  else (case parser_end_of_stream p of Inl err \<Rightarrow> Some (Inl err) | Inr _ \<Rightarrow> Some (Inr b')))))"

definition stream_stalls :: "archive_format option \<Rightarrow> index_builder \<Rightarrow> bytes \<Rightarrow> bool" where
  "stream_stalls fmt b data \<longleftrightarrow>
     run_stalls parser_feed add_entry (create_archive_parser (stream_format fmt data))
       (set_archive_format b (stream_format fmt data)) data"

abbreviation parse_chunks ::
  "archive_format \<Rightarrow> index_builder \<Rightarrow> bytes list \<Rightarrow> (archive_parser \<times> index_builder \<times> bool result) option" where
  "parse_chunks af b cs \<equiv> feed_chunks parser_feed add_entry (create_archive_parser af) (set_archive_format b af) cs"

definition format_ok :: "archive_format option \<Rightarrow> bytes \<Rightarrow> archive_format \<Rightarrow> bool" where
  "format_ok fmt acc af \<longleftrightarrow> (case fmt of Some f \<Rightarrow> af = f | None \<Rightarrow> detect_archive_format acc = Some af)"

lemma format_ok_mono: "format_ok fmt acc af \<Longrightarrow> format_ok fmt (acc @ rest) af"
  by (auto simp: format_ok_def detect_mono split: option.splits)

lemma format_ok_stream: "format_ok fmt acc af \<Longrightarrow> stream_format fmt (acc @ rest) = af"
  by (auto simp: format_ok_def stream_format_def unwrap_or_def detect_mono split: option.splits)

lemma format_ok_nonempty: "format_ok fmt acc af \<Longrightarrow> fmt = None \<Longrightarrow> acc @ rest \<noteq> []"
  by (auto simp: format_ok_def detect_alt AR_MAGIC_simp THIN_MAGIC_simp MIN_DETECT_BYTES_def)

text \<open>
  What an engine has made of the bytes \<open>acc\<close> so far: it is still detecting, or the parser has seen
  exactly them.
\<close>

definition parse_ok :: "archive_format option \<Rightarrow> index_builder \<Rightarrow> bytes \<Rightarrow> ('d, 's) indexing_engine \<Rightarrow> bool" where
  "parse_ok fmt b acc e \<longleftrightarrow>
     (case ie_parser e of
        None \<Rightarrow> fmt = None \<and> \<not> ie_done e \<and> ie_detect_buf e = acc \<and> detect_archive_format acc = None \<and> ie_builder e = b
      | Some p \<Rightarrow> \<exists>af cs. format_ok fmt acc af \<and> concat cs = acc \<and> ie_detect_buf e = [] \<and>
          parse_chunks af b cs = Some (p, ie_builder e, Inr (ie_done e)))"

definition parse_fails :: "archive_format option \<Rightarrow> index_builder \<Rightarrow> bytes \<Rightarrow> error \<Rightarrow> bool" where
  "parse_fails fmt b acc err \<longleftrightarrow>
     (\<exists>af cs p b'. format_ok fmt acc af \<and> concat cs = acc \<and> parse_chunks af b cs = Some (p, b', Inl err))"

lemma parse_okI:
  "ie_parser e = Some p \<Longrightarrow> format_ok fmt acc af \<Longrightarrow> concat cs = acc \<Longrightarrow> ie_detect_buf e = [] \<Longrightarrow>
    parse_chunks af b cs = Some (p, ie_builder e, Inr (ie_done e)) \<Longrightarrow> parse_ok fmt b acc e"
  unfolding parse_ok_def by (simp only: option.case) blast

lemma parse_stream_run:
  assumes af: "stream_format fmt (concat cs @ rest) = af" "fmt = None \<longrightarrow> concat cs @ rest \<noteq> []"
    and "parse_chunks af b cs = Some (p, b', r)"
    and "\<not> stream_stalls fmt b (concat cs @ rest)" and "r \<noteq> Inr False \<or> rest = []"
  shows "parse_stream fmt b (concat cs @ rest) =
    (case r of Inl err \<Rightarrow> Some (Inl err)
     | Inr fin \<Rightarrow> if fin then Some (Inr b')
         else (case parser_end_of_stream p of Inl err \<Rightarrow> Some (Inl err) | Inr _ \<Rightarrow> Some (Inr b')))"
proof -
  have ns: "\<not> run_stalls parser_feed add_entry (create_archive_parser af) (set_archive_format b af) (concat cs @ rest)"
    using assms(4) by (simp add: stream_stalls_def af)
  obtain r' where
    "feed_to_parser parser_feed add_entry (create_archive_parser af) (set_archive_format b af) (concat cs @ rest) 0 =
      Some (p, b', r')" "map_sum id snd r' = r"
    by (rule any.chunks_whole [OF parser_inv_new ns assms(3,5)])
  then show ?thesis using af by (cases r') (auto simp: parse_stream_def Let_def)
qed

text \<open>
  What the engine's way of handing the stream over in chunks comes to: the chunks \<open>cs\<close> are fed up to an
  error, the end of the archive or the end of the stream, where the parser is asked whether it may end
  there. Nothing is fed of an empty stream whose format is not given.
\<close>

definition parse_result :: "archive_parser \<Rightarrow> index_builder \<Rightarrow> bool result \<Rightarrow> index_builder result" where
  "parse_result p b r =
     (case r of Inl err \<Rightarrow> Inl err
      | Inr fin \<Rightarrow> if fin then Inr b
          else (case parser_end_of_stream p of Inl err \<Rightarrow> Inl err | Inr _ \<Rightarrow> Inr b))"

definition parse_outcome :: "archive_format option \<Rightarrow> index_builder \<Rightarrow> bytes \<Rightarrow> index_builder result \<Rightarrow> bool" where
  "parse_outcome fmt b data res \<longleftrightarrow>
     (if fmt = None \<and> data = [] then res = Inr b
      else \<exists>cs rest p b' r. concat cs @ rest = data \<and> parse_chunks (stream_format fmt data) b cs = Some (p, b', r) \<and>
        (r \<noteq> Inr False \<or> rest = []) \<and> res = parse_result p b' r)"

text \<open>A stream that does not stall has one outcome, that of the parser over the whole of it.\<close>

lemma parse_outcome_stream:
  assumes "parse_outcome fmt b data res" and "\<not> stream_stalls fmt b data"
  shows "parse_stream fmt b data = Some res"
proof (cases "fmt = None \<and> data = []")
  case True
  then show ?thesis using assms(1) by (simp add: parse_outcome_def parse_stream_def)
next
  case False
  obtain cs rest p b' r where c: "concat cs @ rest = data"
    "parse_chunks (stream_format fmt data) b cs = Some (p, b', r)" "r \<noteq> Inr False \<or> rest = []" "res = parse_result p b' r"
    using assms(1) unfolding parse_outcome_def if_not_P [OF False] by blast
  have f: "stream_format fmt (concat cs @ rest) = stream_format fmt data" "fmt = None \<longrightarrow> concat cs @ rest \<noteq> []"
    "\<not> stream_stalls fmt b (concat cs @ rest)"
    using c(1) False assms(2) by auto
  from parse_stream_run [OF f(1,2) c(2) f(3) c(3)] c(1,4)
  show ?thesis by (cases r; cases "parser_end_of_stream p") (simp_all add: parse_result_def)
qed

lemma parse_outcome_chunks:
  assumes "format_ok fmt (concat cs) af" and "parse_chunks af b cs = Some (p, b', r)" and "r \<noteq> Inr False \<or> rest = []"
  shows "parse_outcome fmt b (concat cs @ rest) (parse_result p b' r)"
proof -
  have ne: "\<not> (fmt = None \<and> concat cs @ rest = [])" using format_ok_nonempty [OF assms(1)] by blast
  show ?thesis
    unfolding parse_outcome_def if_not_P [OF ne] format_ok_stream [OF assms(1)] using assms(2,3) by blast
qed

lemma parse_outcome_fails: "parse_fails fmt b acc err \<Longrightarrow> parse_outcome fmt b (acc @ rest) (Inl err)"
  unfolding parse_fails_def using parse_outcome_chunks [of fmt _ _ b _ _ "Inl err" rest] by (fastforce simp: parse_result_def)

lemma parse_outcome_done:
  assumes "parse_ok fmt b acc e" and "ie_done e"
  shows "parse_outcome fmt b (acc @ rest) (Inr (ie_builder e))"
proof -
  from assms(1,2) obtain p af cs where p: "format_ok fmt (concat cs) af" "concat cs = acc"
    "parse_chunks af b cs = Some (p, ie_builder e, Inr True)"
    by (auto simp: parse_ok_def split: option.splits)
  with parse_outcome_chunks [OF p(1,3), of rest] show ?thesis by (simp add: parse_result_def)
qed

section \<open>Feeding and draining\<close>

lemma engine_feed_chunks:
  assumes "parser_inv p" and "\<not> ie_done e"
  obtains p' b' r where "feed_chunks parser_feed add_entry p (ie_builder e) [data] = Some (p', b', r)"
    "engine_feed e p data = Some (e\<lparr>ie_parser := Some p', ie_builder := b', ie_done := (r = Inr True)\<rparr>, map_sum id (\<lambda>_. ()) r)"
  using assms(1)
proof (cases rule: any.run_cases [of p add_entry "ie_builder e" data 0])
  case (1 p' b' err)
  show thesis by (rule that [of p' b' "Inl err"]) (use 1 assms(2) in \<open>simp_all add: engine_feed_def\<close>)
next
  case (2 p' b' off fin)
  show thesis by (rule that [of p' b' "Inr fin"]) (use 2(1) assms(2) in \<open>cases fin; simp add: engine_feed_def\<close>)+
qed

text \<open>The parser and its last chunk.\<close>

lemma parse_snoc:
  assumes "format_ok fmt acc af" and "concat cs = acc"
    and "parse_chunks af b cs = Some (p, b1, Inr False)"
    and "feed_chunks parser_feed add_entry p b1 [data] = Some (p', b', r)"
  shows "parse_chunks af b (cs @ [data]) = Some (p', b', r)" "concat (cs @ [data]) = acc @ data"
    "format_ok fmt (acc @ data) af"
  using assms format_ok_mono by (auto simp: feed_chunks_append simp del: feed_chunks.simps)

lemma parse_inv: "parse_chunks af b cs = Some (p, b', Inr False) \<Longrightarrow> parser_inv p"
  by (rule any.chunks_inv [OF parser_inv_new])

definition same_indexer :: "bytes \<Rightarrow> bytes \<Rightarrow> ('d, 's) stream_indexer \<Rightarrow> ('d, 's) stream_indexer \<Rightarrow> bool" where
  "same_indexer packed unpacked r r' \<longleftrightarrow>
     ix_eof r' = ix_eof r \<and> ix_fed r' = ix_fed r \<and> ix_config r' = ix_config r \<and>
     ix_work packed unpacked r' = ix_work packed unpacked r \<and> ix_state r' = ix_state r"

lemma same_indexer_trans:
  "same_indexer p u r1 r2 \<Longrightarrow> same_indexer p u r2 r3 \<Longrightarrow> same_indexer p u r1 r3"
  by (simp add: same_indexer_def ix_config_def)

text \<open>A new parser over everything held back.\<close>

lemma engine_replay_run:
  assumes "\<not> ie_done e"
  obtains p' b' r where "parse_chunks af (ie_builder e) [ie_detect_buf e] = Some (p', b', r)"
    "engine_replay e af = Some (e\<lparr>ie_detect_buf := [], ie_parser := Some p', ie_builder := b', ie_done := (r = Inr True)\<rparr>,
       map_sum id (\<lambda>_. ()) r)"
proof -
  let ?e = "e\<lparr>ie_builder := set_archive_format (ie_builder e) af, ie_detect_buf := []\<rparr>"
  have nd: "\<not> ie_done ?e" using assms(1) by simp
  obtain p' b' r where
    f: "feed_chunks parser_feed add_entry (create_archive_parser af) (ie_builder ?e) [ie_detect_buf e] = Some (p', b', r)"
      "engine_feed ?e (create_archive_parser af) (ie_detect_buf e) =
        Some (?e\<lparr>ie_parser := Some p', ie_builder := b', ie_done := (r = Inr True)\<rparr>, map_sum id (\<lambda>_. ()) r)"
    by (rule engine_feed_chunks [OF parser_inv_new nd, where data = "ie_detect_buf e"])
  have "?e\<lparr>ie_parser := Some p', ie_builder := b', ie_done := (r = Inr True)\<rparr> =
      e\<lparr>ie_detect_buf := [], ie_parser := Some p', ie_builder := b', ie_done := (r = Inr True)\<rparr>" by simp
  with f that show thesis by (simp add: engine_replay_def del: feed_chunks.simps)
qed

lemma engine_replay_ok:
  assumes "\<not> ie_done e" and "format_ok fmt (ie_detect_buf e) af"
  obtains e' r where "engine_replay e af = Some (e', r)" "ie_indexer e' = ie_indexer e"
    "case r of Inr _ \<Rightarrow> parse_ok fmt (ie_builder e) (ie_detect_buf e) e' | Inl err \<Rightarrow> parse_fails fmt (ie_builder e) (ie_detect_buf e) err"
proof -
  obtain p' b' r where pc: "parse_chunks af (ie_builder e) [ie_detect_buf e] = Some (p', b', r)"
    "engine_replay e af = Some (e\<lparr>ie_detect_buf := [], ie_parser := Some p', ie_builder := b', ie_done := (r = Inr True)\<rparr>,
       map_sum id (\<lambda>_. ()) r)" by (rule engine_replay_run [OF assms(1)])
  let ?e' = "e\<lparr>ie_detect_buf := [], ie_parser := Some p', ie_builder := b', ie_done := (r = Inr True)\<rparr>"
  have "case map_sum id (\<lambda>_. ()) r of Inr _ \<Rightarrow> parse_ok fmt (ie_builder e) (ie_detect_buf e) ?e'
      | Inl err \<Rightarrow> parse_fails fmt (ie_builder e) (ie_detect_buf e) err"
  proof (cases r)
    case (Inl err)
    then show ?thesis using pc assms(2) unfolding parse_fails_def
      by (auto simp del: feed_chunks.simps intro!: exI [of _ af] exI [of _ "[ie_detect_buf e]"])
  next
    case (Inr fin)
    then show ?thesis using pc assms(2) unfolding parse_ok_def
      by (auto simp del: feed_chunks.simps intro!: exI [of _ af] exI [of _ "[ie_detect_buf e]"])
  qed
  then show thesis using that [of ?e' "map_sum id (\<lambda>_. ()) r"] pc(2) by simp
qed

text \<open>The end of the stream.\<close>

lemma engine_end_ok:
  assumes "parse_ok fmt b data e" and "\<not> ie_done e"
  obtains e' r where "engine_end_of_stream e = Some (e', r)" "ie_indexer e' = ie_indexer e"
    "parse_outcome fmt b data (case r of Inl err \<Rightarrow> Inl err | Inr _ \<Rightarrow> Inr (ie_builder e'))"
proof (cases "ie_parser e")
  case None
  with assms(1) have p: "fmt = None" "ie_detect_buf e = data" "detect_archive_format data = None" "ie_builder e = b"
    by (simp_all add: parse_ok_def)
  show ?thesis
  proof (cases "data = []")
    case True
    then show ?thesis using that [of e "Inr ()"] None p by (simp add: engine_end_of_stream_def parse_outcome_def)
  next
    case False
    obtain p' b' r where
      rp: "parse_chunks Tar b [data] = Some (p', b', r)"
        "engine_replay e Tar = Some (e\<lparr>ie_detect_buf := [], ie_parser := Some p', ie_builder := b', ie_done := (r = Inr True)\<rparr>,
           map_sum id (\<lambda>_. ()) r)"
      using engine_replay_run [OF assms(2), of Tar] p by auto
    let ?e' = "e\<lparr>ie_detect_buf := [], ie_parser := Some p', ie_builder := b', ie_done := (r = Inr True)\<rparr>"
    have fm: "stream_format fmt data = Tar" using p by (simp add: stream_format_def unwrap_or_def)
    have "\<exists>cs rest. concat cs @ rest = data \<and> parse_chunks Tar b cs = Some (p', b', r) \<and> (r \<noteq> Inr False \<or> rest = [])"
      using rp(1) by (intro exI [of _ "[data]"] exI [of _ "[]"]) simp
    moreover have ne: "\<not> (fmt = None \<and> data = [])" using False by simp
    ultimately have ps: "parse_outcome fmt b data (parse_result p' b' r)"
      unfolding parse_outcome_def if_not_P [OF ne] fm by blast
    have es: "engine_end_of_stream e = (case r of Inl err \<Rightarrow> Some (?e', Inl err)
        | Inr fin \<Rightarrow> if fin then Some (?e', Inr ()) else Some (?e', parser_end_of_stream p'))"
      using None p False rp(2) by (cases r) (auto simp: engine_end_of_stream_def check_end_def)
    show ?thesis
    proof (cases r)
      case (Inl err)
      then show ?thesis using that [of ?e' "Inl err"] es ps by (simp add: parse_result_def)
    next
      case (Inr fin)
      then show ?thesis using that [of ?e' "if fin then Inr () else parser_end_of_stream p'"] es ps
        by (cases "parser_end_of_stream p'") (auto simp: parse_result_def split: if_splits)
    qed
  qed
next
  case (Some p)
  with assms(1,2) obtain af cs where p: "format_ok fmt (concat cs) af" "concat cs = data"
    "parse_chunks af b cs = Some (p, ie_builder e, Inr False)" by (auto simp: parse_ok_def)
  from parse_outcome_chunks [OF p(1,3), of "[]"] p(2) have
    "parse_outcome fmt b data (case parser_end_of_stream p of Inl err \<Rightarrow> Inl err | Inr _ \<Rightarrow> Inr (ie_builder e))"
    by (simp add: parse_result_def)
  then show ?thesis using that [of e "parser_end_of_stream p"] Some
    by (simp add: engine_end_of_stream_def check_end_def split: sum.splits)
qed

lemma parse_ok_indexer [simp]: "parse_ok fmt b acc (e\<lparr>ie_indexer := ix\<rparr>) = parse_ok fmt b acc e"
  by (cases "ie_parser e") (simp_all add: parse_ok_def)

context decoder
begin

lemma same_indexer_step:
  assumes "same_indexer packed unpacked r r0" and "ix_pending r = ix_pending r0" and "(x, r0) \<in> ix_progress_rel"
  shows "(x, r) \<in> ix_progress_rel"
  using assms by (simp add: same_indexer_def ix_progress_rel_def)

lemma progress_shrinks:
  assumes "(x, r') \<in> ix_progress_rel" and "\<forall>off. ix_state r' \<noteq> IxSeek off" and "\<forall>off. ix_state r \<noteq> IxSeek off"
    and "ix_work packed unpacked r' < ix_work packed unpacked r"
  shows "(x, r) \<in> ix_progress_rel"
proof -
  have seek: "(case ix_state q of IxSeek _ \<Rightarrow> 1 | _ \<Rightarrow> (0 :: nat)) = 0" if "\<forall>off. ix_state q \<noteq> IxSeek off" for q :: "('d, 's) stream_indexer"
    using that by (cases "ix_state q") simp_all
  from assms(1,4) show ?thesis by (auto simp: ix_progress_rel_def seek [OF assms(2)] seek [OF assms(3)])
qed

lemma engine_drain_ok:
  assumes "ix_live 0 acc (ie_indexer e)" and "ix_emit_output (ie_indexer e)" and "parse_ok fmt b acc e"
  shows "\<exists>e' r acc'. engine_drain e = Some (e', r) \<and> ix_live 0 acc' (ie_indexer e') \<and>
    same_indexer packed unpacked (ie_indexer e) (ie_indexer e') \<and>
    (case r of Inr _ \<Rightarrow> parse_ok fmt b acc' e' \<and> (ie_done e' \<or> ix_pending (ie_indexer e') = [])
     | Inl err \<Rightarrow> parse_fails fmt b acc' err)"
  using assms
proof (induction "length (ix_pending (ie_indexer e))" arbitrary: e acc rule: less_induct)
  case less
  obtain ix out where ro: "indexer_read_output (ie_indexer e) BUF_SIZE = (ix, out)" by fastforce
  have "0 < BUF_SIZE" by (simp add: BUF_SIZE_def)
  note f = ix_read_output_live [OF less.prems(1,2) ro this]
  let ?e = "e\<lparr>ie_indexer := ix\<rparr>"
  have same: "same_indexer packed unpacked (ie_indexer e) ix" using f by (simp add: same_indexer_def)
  have em: "ix_emit_output ix" using f(6) less.prems(2) by simp
  note unf = engine_drain.simps [of e] ro
  show ?case
  proof (cases "out = []")
    case True
    then have "engine_drain e = Some (?e, Inr ())" by (simp add: unf)
    moreover have "ix_pending ix = []" using True f(2,3) \<open>0 < BUF_SIZE\<close> by simp
    moreover have "ix_live 0 acc ix" using f(1) True by simp
    moreover have "parse_ok fmt b acc ?e" using less.prems(3) by simp
    ultimately show ?thesis using same by (intro exI [of _ ?e] exI [of _ "Inr ()"] exI [of _ acc]) simp
  next
    case False
    then have dec: "length (ix_pending ix) < length (ix_pending (ie_indexer e))"
      using f(2,3) \<open>0 < BUF_SIZE\<close> by (cases "ix_pending (ie_indexer e)") auto
    have go: ?thesis if e1: "engine_drain e = engine_drain e1" "ie_indexer e1 = ix" "parse_ok fmt b (acc @ out) e1" for e1
    proof -
      have "length (ix_pending (ie_indexer e1)) < length (ix_pending (ie_indexer e))" using dec e1(2) by simp
      from less.hyps [OF this, of "acc @ out"] f(1) em e1(2,3) obtain e' r acc' where
        "engine_drain e1 = Some (e', r)" "ix_live 0 acc' (ie_indexer e')"
        "same_indexer packed unpacked ix (ie_indexer e')"
        "case r of Inr _ \<Rightarrow> parse_ok fmt b acc' e' \<and> (ie_done e' \<or> ix_pending (ie_indexer e') = [])
         | Inl err \<Rightarrow> parse_fails fmt b acc' err" by auto
      then show ?thesis using same_indexer_trans [OF same] e1(1) by auto
    qed
    have stop: ?thesis if "engine_drain e = Some (e1, r)" "ie_indexer e1 = ix"
      "case r of Inr _ \<Rightarrow> parse_ok fmt b (acc @ out) e1 \<and> ie_done e1 | Inl err \<Rightarrow> parse_fails fmt b (acc @ out) err" for e1 r
      using that f(1) same by (intro exI [of _ e1] exI [of _ r] exI [of _ "acc @ out"]) (auto split: sum.splits)
    show ?thesis
    proof (cases "ie_parser e")
      case None
      let ?d = "?e\<lparr>ie_detect_buf := ie_detect_buf ?e @ out\<rparr>"
      from None less.prems(3) have p: "fmt = None" "\<not> ie_done e" "ie_detect_buf e = acc" "ie_builder e = b"
        by (simp_all add: parse_ok_def)
      show ?thesis
      proof (cases "detect_archive_format (acc @ out)")
        case None': None
        show ?thesis
          by (rule go [of ?d]) (use None None' False p in \<open>simp_all add: unf parse_ok_def Let_def\<close>)
      next
        case (Some af)
        have "\<not> ie_done ?d" "format_ok fmt (ie_detect_buf ?d) af" using p Some by (simp_all add: format_ok_def)
        then obtain e1 r where rp: "engine_replay ?d af = Some (e1, r)" "ie_indexer e1 = ie_indexer ?d"
          "case r of Inr _ \<Rightarrow> parse_ok fmt (ie_builder ?d) (ie_detect_buf ?d) e1 | Inl err \<Rightarrow> parse_fails fmt (ie_builder ?d) (ie_detect_buf ?d) err"
          by (rule engine_replay_ok)
        have views: "ie_builder ?d = b" "ie_detect_buf ?d = acc @ out" "ie_indexer ?d = ix" using p by simp_all
        note rp' = rp(2,3) [unfolded views]
        have dr: "engine_drain e = (case r of Inl err \<Rightarrow> Some (e1, Inl err)
            | Inr _ \<Rightarrow> if ie_done e1 then Some (e1, Inr ()) else engine_drain e1)"
          using None False p Some rp(1) by (simp add: unf Let_def)
        show ?thesis
        proof (cases r)
          case (Inl err)
          then show ?thesis using stop [of e1 r] dr rp' by simp
        next
          case (Inr u)
          then show ?thesis using stop [of e1 "Inr ()"] go [of e1] dr rp' by (cases "ie_done e1") simp_all
        qed
      qed
    next
      case (Some p)
      then obtain af cs where p: "format_ok fmt acc af" "concat cs = acc" "ie_detect_buf e = []"
        "parse_chunks af b cs = Some (p, ie_builder e, Inr (ie_done e))"
        using less.prems(3) by (auto simp: parse_ok_def)
      show ?thesis
      proof (cases "ie_done e")
        case True
        have "parse_chunks af b (cs @ [out]) = Some (p, ie_builder e, Inr True)"
          using p(4) True by (simp add: feed_chunks_append del: feed_chunks.simps)
        moreover have "concat (cs @ [out]) = acc @ out" using p(2) by simp
        ultimately have "parse_ok fmt b (acc @ out) ?e"
          using Some True p(3) format_ok_mono [OF p(1)] by (intro parse_okI [where p = p and cs = "cs @ [out]"]) simp_all
        then show ?thesis using go [of ?e] Some True False by (simp add: unf)
      next
        case nd: False
        then have pc: "parse_chunks af b cs = Some (p, ie_builder ?e, Inr False)" "\<not> ie_done ?e" using p(4) by simp_all
        obtain p' b' r where fd: "feed_chunks parser_feed add_entry p (ie_builder ?e) [out] = Some (p', b', r)"
          "engine_feed ?e p out = Some (?e\<lparr>ie_parser := Some p', ie_builder := b', ie_done := (r = Inr True)\<rparr>, map_sum id (\<lambda>_. ()) r)"
          by (rule engine_feed_chunks [OF parse_inv [OF pc(1)] pc(2), where data = out])
        note sn = parse_snoc [OF p(1,2) pc(1) fd(1)]
        let ?e1 = "?e\<lparr>ie_parser := Some p', ie_builder := b', ie_done := (r = Inr True)\<rparr>"
        show ?thesis
        proof (cases r)
          case (Inl err)
          have "parse_fails fmt b (acc @ out) err" unfolding parse_fails_def using sn Inl by blast
          then show ?thesis using stop [of ?e1 "Inl err"] Some nd False Inl fd(2) by (simp add: unf)
        next
          case (Inr fin)
          have "parse_ok fmt b (acc @ out) ?e1" using sn Inr p(3)
            by (intro parse_okI [where p = p' and cs = "cs @ [out]"]) simp_all
          then show ?thesis using go [of ?e1] Some nd False Inr fd(2) by (simp add: unf)
        qed
      qed
    qed
  qed
qed

text \<open>What is handed out is the beginning of the contents.\<close>

lemma ix_live_prefix:
  assumes "ix_live 0 acc r" and "ix_emit_output r"
  obtains rest where "unpacked = acc @ rest"
proof -
  from assms have "acc @ ix_pending r = take (si_indexed_to (ix_index r)) unpacked"
    by (simp add: ix_live_def ix_output_ok_def)
  then have "unpacked = acc @ (ix_pending r @ drop (si_indexed_to (ix_index r)) unpacked)"
    by (metis append.assoc append_take_drop_id)
  then show thesis using that by blast
qed

section \<open>Stepping the engine\<close>

definition engine_live :: "archive_format option \<Rightarrow> index_builder \<Rightarrow> bytes \<Rightarrow> ('d, 's) indexing_engine \<Rightarrow> bool" where
  "engine_live fmt b acc e \<longleftrightarrow>
     ix_live 0 acc (ie_indexer e) \<and> ix_emit_output (ie_indexer e) \<and> ix_stop_at (ie_indexer e) = None \<and>
     (\<forall>off. ix_state (ie_indexer e) \<noteq> IxSeek off) \<and> parse_ok fmt b acc e \<and>
     (ie_done e \<or> ix_pending (ie_indexer e) = [])"

text \<open>What a step of the engine may do, compared with parsing the whole stream.\<close>

definition engine_step_ok ::
  "archive_format option \<Rightarrow> index_builder \<Rightarrow> ('d, 's) indexing_engine \<Rightarrow> ('d, 's) indexing_engine \<Rightarrow> engine_request \<Rightarrow> bool" where
  "engine_step_ok fmt b e e' q \<longleftrightarrow>
     (\<exists>acc. ix_live 0 acc (ie_indexer e')) \<and> ix_config (ie_indexer e') = ix_config (ie_indexer e) \<and>
     (case q of
        NeedInput \<Rightarrow> (\<exists>acc r0. engine_live fmt b acc e' \<and> \<not> ie_done e' \<and> \<not> ie_done e \<and>
            ix_step_ok 0 acc r0 (ie_indexer e') (Some NeedInput) \<and> (\<forall>off. ix_state r0 \<noteq> IxSeek off) \<and>
            ix_fed r0 = ix_fed (ie_indexer e) \<and>
            (\<forall>x. (x, r0) \<in> ix_progress_rel \<longrightarrow> (x, ie_indexer e) \<in> ix_progress_rel))
      | RequestDone \<Rightarrow> parse_outcome fmt b unpacked (Inr (ie_builder e'))
      | RequestError err \<Rightarrow> parse_outcome fmt b unpacked (Inl err)
      | _ \<Rightarrow> False)"

lemma engine_step_ok_trans:
  assumes ok: "engine_step_ok fmt b e' e2 q" and c: "ix_config (ie_indexer e') = ix_config (ie_indexer e)"
    and fed: "ix_fed (ie_indexer e') = ix_fed (ie_indexer e)"
    and rel: "\<forall>x. (x, ie_indexer e') \<in> ix_progress_rel \<longrightarrow> (x, ie_indexer e) \<in> ix_progress_rel" and nd: "\<not> ie_done e"
  shows "engine_step_ok fmt b e e2 q"
proof (cases q)
  case NeedInput
  with ok obtain acc r0 where "engine_live fmt b acc e2" "\<not> ie_done e2"
    "ix_step_ok 0 acc r0 (ie_indexer e2) (Some NeedInput)" "\<forall>off. ix_state r0 \<noteq> IxSeek off"
    "ix_fed r0 = ix_fed (ie_indexer e')" "\<forall>x. (x, r0) \<in> ix_progress_rel \<longrightarrow> (x, ie_indexer e') \<in> ix_progress_rel"
    unfolding engine_step_ok_def by (simp only: engine_request.case) blast
  with fed rel nd have "\<exists>acc r0. engine_live fmt b acc e2 \<and> \<not> ie_done e2 \<and> \<not> ie_done e \<and>
      ix_step_ok 0 acc r0 (ie_indexer e2) (Some NeedInput) \<and> (\<forall>off. ix_state r0 \<noteq> IxSeek off) \<and>
      ix_fed r0 = ix_fed (ie_indexer e) \<and> (\<forall>x. (x, r0) \<in> ix_progress_rel \<longrightarrow> (x, ie_indexer e) \<in> ix_progress_rel)"
    by (intro exI [of _ acc] exI [of _ r0]) simp
  then show ?thesis using ok c NeedInput by (simp only: engine_step_ok_def engine_request.case)
qed (use ok c in \<open>simp_all add: engine_step_ok_def\<close>)

lemma engine_step_live:
  assumes "engine_live fmt b acc e"
  shows "\<exists>e' q. engine_step ops S e = Some (e', q) \<and> engine_step_ok fmt b e e' q"
  using assms
proof (induction "ix_work packed unpacked (ie_indexer e)" arbitrary: e acc rule: less_induct)
  case less
  note live = less.prems [unfolded engine_live_def]
  show ?case
  proof (cases "ie_done e")
    case True
    obtain rest where "unpacked = acc @ rest" using live by (blast elim: ix_live_prefix)
    then have "parse_outcome fmt b unpacked (Inr (ie_builder e))"
      using parse_outcome_done [of fmt b acc e rest] live True by simp
    moreover have "engine_step ops S e = Some (e, RequestDone)" using True by (subst engine_step.simps) simp
    ultimately show ?thesis using live by (auto simp: engine_step_ok_def)
  next
    case nd: False
    with live have l: "ix_live 0 acc (ie_indexer e)" "\<forall>off. ix_state (ie_indexer e) \<noteq> IxSeek off"
      "ix_pending (ie_indexer e) = []" "parse_ok fmt b acc e" "ix_emit_output (ie_indexer e)" by simp_all
    from indexer_step_live [OF l(1,2)] obtain r1 q where
      st: "indexer_step ops S (ie_indexer e) = Some (r1, q)" "ix_step_ok 0 acc (ie_indexer e) r1 (Some q)" by blast
    from st(2) have f: "ix_live 0 acc r1" "ix_config r1 = ix_config (ie_indexer e)" "\<forall>off. ix_state r1 \<noteq> IxSeek off"
      by (simp_all add: ix_step_ok_def)
    let ?e = "e\<lparr>ie_indexer := r1\<rparr>"
    have sel: "ix_emit_output r1" "ix_stop_at r1 = None" using f(2) live by simp_all
    note unf = engine_step.simps [of ops S e]
    show ?thesis
    proof (cases q)
      case NeedInput
      then have "engine_step ops S e = Some (?e, NeedInput)" using nd st(1) by (simp add: unf)
      moreover have "engine_live fmt b acc ?e" using f sel l st(2) NeedInput nd by (simp add: engine_live_def ix_step_ok_def)
      ultimately show ?thesis using f st(2) NeedInput nd l unfolding engine_step_ok_def
        by (intro exI [of _ ?e] exI [of _ NeedInput] conjI) auto
    next
      case RequestDone
      with st(2) l(3) f sel have d: "ix_state r1 = IxDone" "ix_pending r1 = []" by (simp_all add: ix_step_ok_def)
      then have "si_complete (ix_index r1)" using f(1) sel by (simp add: ix_live_def ix_state_ok_def)
      then have "acc = unpacked" using f(1) d(2) sel by (simp add: ix_live_def ix_len_ok_def ix_output_ok_def)
      then have pk: "parse_ok fmt b unpacked ?e" "\<not> ie_done ?e" using l(4) nd by simp_all
      obtain e' r where en: "engine_end_of_stream ?e = Some (e', r)" "ie_indexer e' = ie_indexer ?e"
        "parse_outcome fmt b unpacked (case r of Inl err \<Rightarrow> Inl err | Inr _ \<Rightarrow> Inr (ie_builder e'))"
        by (rule engine_end_ok [OF pk])
      show ?thesis
      proof (cases r)
        case (Inl err)
        then have "engine_step ops S e = Some (e', RequestError err)" using nd st(1) RequestDone en(1) by (simp add: unf)
        then show ?thesis using en Inl f by (auto simp: engine_step_ok_def)
      next
        case (Inr u)
        then have "engine_step ops S e = Some (e'\<lparr>ie_done := True\<rparr>, RequestDone)" using nd st(1) RequestDone en(1) by (simp add: unf)
        then show ?thesis using en Inr f by (auto simp: engine_step_ok_def)
      qed
    next
      case OutputReady
      then have work: "ix_work packed unpacked r1 < ix_work packed unpacked (ie_indexer e)"
        using st(2) l(3) by (simp add: ix_step_ok_def)
      have "ix_live 0 acc (ie_indexer ?e)" "ix_emit_output (ie_indexer ?e)" "parse_ok fmt b acc ?e" using f sel l by simp_all
      from engine_drain_ok [OF this] obtain e' r acc' where dr: "engine_drain ?e = Some (e', r)"
        "ix_live 0 acc' (ie_indexer e')" "same_indexer packed unpacked r1 (ie_indexer e')"
        "case r of Inr _ \<Rightarrow> parse_ok fmt b acc' e' \<and> (ie_done e' \<or> ix_pending (ie_indexer e') = [])
         | Inl err \<Rightarrow> parse_fails fmt b acc' err" by auto
      have c: "ix_config (ie_indexer e') = ix_config (ie_indexer e)" using dr(3) f(2) by (simp add: same_indexer_def)
      show ?thesis
      proof (cases r)
        case (Inl err)
        obtain rest where "unpacked = acc' @ rest" using dr(2) c sel f(2) l(5) by (auto elim!: ix_live_prefix)
        then have "parse_outcome fmt b unpacked (Inl err)"
          using parse_outcome_fails [of fmt b acc' err rest] dr(4) Inl by simp
        moreover have "engine_step ops S e = Some (e', RequestError err)"
          using nd st(1) OutputReady dr(1) Inl by (simp add: unf)
        ultimately show ?thesis using dr(2) c by (auto simp: engine_step_ok_def)
      next
        case (Inr u)
        have "engine_live fmt b acc' e'" using dr Inr c live f(3) by (auto simp: engine_live_def same_indexer_def)
        moreover have w: "ix_work packed unpacked (ie_indexer e') < ix_work packed unpacked (ie_indexer e)"
          using work dr(3) by (simp add: same_indexer_def)
        ultimately obtain e2 q2 where e2: "engine_step ops S e' = Some (e2, q2)" "engine_step_ok fmt b e' e2 q2"
          using less.hyps by blast
        have "engine_step ops S e = engine_step ops S e'" using nd st(1) OutputReady dr(1) Inr by (simp add: unf)
        moreover have "(x, ie_indexer e) \<in> ix_progress_rel" if "(x, ie_indexer e') \<in> ix_progress_rel" for x
          using that by (rule progress_shrinks) (use w l(2) dr(3) f(3) in \<open>simp_all add: same_indexer_def\<close>)
        moreover have "ix_fed (ie_indexer e') = ix_fed (ie_indexer e)" using dr(3) st(2) by (simp add: same_indexer_def ix_step_ok_def)
        ultimately have "engine_step_ok fmt b e e2 q2" using engine_step_ok_trans [OF e2(2) c _ _ nd] by blast
        then show ?thesis using e2(1) \<open>engine_step ops S e = engine_step ops S e'\<close> by auto
      qed
    qed (use st(2) in \<open>simp_all add: ix_step_ok_def\<close>)
  qed
qed

end

end
