(* ===== verification/SyncArchive.thy ===== *)
theory SyncArchive
  imports EngineCorrect
begin

text \<open>
  \<^verbatim>\<open>Archive\<close> of \<^verbatim>\<open>src/sync/reader.rs\<close>: indexing a compressed archive and reading its members. As for
  streams, a file is its bytes with \<open>rd\<close>, which says how many bytes a read gives.
\<close>

section \<open>Indexing\<close>

text \<open>\<^verbatim>\<open>detect_format_from_reader\<close>: the format and the header that was read for it.\<close>

definition archive_detect :: "bytes \<Rightarrow> (nat \<Rightarrow> nat \<Rightarrow> nat) \<Rightarrow> (compression_format \<times> bytes) result" where
  "archive_detect data rd =
     (let header = take (header_len rd 0) data in
      and_then (ok_or (detect_format header) UnsupportedFormat) (\<lambda>format. Inr (format, header)))"

text \<open>What \<^verbatim>\<open>drive_indexing\<close> does with a request; \<open>fed\<close> is \<^verbatim>\<open>header_fed\<close>.\<close>

definition engine_answer ::
  "bytes \<Rightarrow> (nat \<Rightarrow> nat \<Rightarrow> nat) \<Rightarrow> bytes \<Rightarrow> ('d, 's) indexing_engine \<Rightarrow> engine_request \<Rightarrow> nat \<Rightarrow> bool \<Rightarrow>
   ('d, 's) indexing_engine \<times> nat \<times> bool" where
  "engine_answer data rd header e q pos fed =
     (case q of
        NeedInput \<Rightarrow>
          if \<not> fed then (engine_provide_data e header, pos, True)
          else
            let n = rd pos BUF_SIZE in
            if n = 0 then (engine_signal_eof e, pos, fed)
            else (engine_provide_data e (take n (drop pos data)), pos + n, fed)
      | _ \<Rightarrow> (e, pos, fed))"

partial_function (option) drive_loop ::
  "'d decompressor \<Rightarrow> 's strategy \<Rightarrow> bytes \<Rightarrow> (nat \<Rightarrow> nat \<Rightarrow> nat) \<Rightarrow> ('p \<Rightarrow> index_progress \<Rightarrow> 'p \<times> bool) \<Rightarrow> bytes \<Rightarrow>
   'p \<Rightarrow> ('d, 's) indexing_engine \<Rightarrow> nat \<Rightarrow> bool \<Rightarrow> archive_index result option" where
  "drive_loop ops S data rd on_progress header p e pos fed =
     (case engine_step ops S e of
        None \<Rightarrow> None
      | Some (e, q) \<Rightarrow>
          if q = RequestDone then Some (Inr (engine_finish e))
          else
            (case request_error q of
               Some err \<Rightarrow> Some (Inl err)
             | None \<Rightarrow>
                 (case engine_answer data rd header e q pos fed of
                    (e, pos, fed) \<Rightarrow>
                      (case on_progress p (engine_progress e) of
                         (p, go) \<Rightarrow>
                           if go then drive_loop ops S data rd on_progress header p e pos fed
                           else Some (Inr (engine_cancel e))))))"

definition drive_indexing ::
  "'d decompressor \<Rightarrow> (codec_spec \<Rightarrow> 'd result) \<Rightarrow> bytes \<Rightarrow> (nat \<Rightarrow> nat \<Rightarrow> nat) \<Rightarrow> nat \<Rightarrow> nat \<Rightarrow> compression_format \<Rightarrow> bytes \<Rightarrow>
   's strategy \<Rightarrow> 's \<Rightarrow> ('p \<Rightarrow> index_progress \<Rightarrow> 'p \<times> bool) \<Rightarrow> 'p \<Rightarrow> archive_index result option" where
  "drive_indexing ops create data rd pos file_size format header S strat on_progress p =
     (case engine_with_strategy create format None strat file_size of
        Inl err \<Rightarrow> Some (Inl err)
      | Inr e \<Rightarrow> drive_loop ops S data rd on_progress header p e pos False)"

definition build_index_with_strategy ::
  "'d decompressor \<Rightarrow> (codec_spec \<Rightarrow> 'd result) \<Rightarrow> bytes \<Rightarrow> (nat \<Rightarrow> nat \<Rightarrow> nat) \<Rightarrow> nat \<Rightarrow> 's strategy \<Rightarrow> 's \<Rightarrow>
   ('p \<Rightarrow> index_progress \<Rightarrow> 'p \<times> bool) \<Rightarrow> 'p \<Rightarrow> archive_index result option" where
  "build_index_with_strategy ops create data rd file_size S strat on_progress p =
     (case archive_detect data rd of
        Inl err \<Rightarrow> Some (Inl err)
      | Inr (format, header) \<Rightarrow>
          drive_indexing ops create data rd (length header) file_size format header S strat on_progress p)"

definition build_index_with_progress ::
  "'d decompressor \<Rightarrow> (codec_spec \<Rightarrow> 'd result) \<Rightarrow> bytes \<Rightarrow> (nat \<Rightarrow> nat \<Rightarrow> nat) \<Rightarrow> nat \<Rightarrow>
   ('p \<Rightarrow> index_progress \<Rightarrow> 'p \<times> bool) \<Rightarrow> 'p \<Rightarrow> archive_index result option" where
  "build_index_with_progress ops create data rd file_size on_progress p =
     (case archive_detect data rd of
        Inl err \<Rightarrow> Some (Inl err)
      | Inr (format, header) \<Rightarrow>
          drive_indexing ops create data rd (length header) file_size format header fixed_interval_ops
            (fixed_interval_new (default_interval_for_format format)) on_progress p)"

text \<open>\<^verbatim>\<open>from_reader\<close> and \<^verbatim>\<open>from_reader_with_strategy\<close>, \<^verbatim>\<open>new\<close> and \<^verbatim>\<open>with_strategy\<close>, giving the index.\<close>

definition archive_from_reader ::
  "'d decompressor \<Rightarrow> (codec_spec \<Rightarrow> 'd result) \<Rightarrow> bytes \<Rightarrow> (nat \<Rightarrow> nat \<Rightarrow> nat) \<Rightarrow> nat \<Rightarrow> archive_index result option" where
  "archive_from_reader ops create data rd file_size =
     build_index_with_progress ops create data rd file_size (\<lambda>p _. (p, True)) ()"

definition archive_from_reader_with_strategy ::
  "'d decompressor \<Rightarrow> (codec_spec \<Rightarrow> 'd result) \<Rightarrow> bytes \<Rightarrow> (nat \<Rightarrow> nat \<Rightarrow> nat) \<Rightarrow> nat \<Rightarrow> 's strategy \<Rightarrow> 's \<Rightarrow>
   archive_index result option" where
  "archive_from_reader_with_strategy ops create data rd file_size S strat =
     build_index_with_strategy ops create data rd file_size S strat (\<lambda>p _. (p, True)) ()"

definition archive_new ::
  "'d decompressor \<Rightarrow> (codec_spec \<Rightarrow> 'd result) \<Rightarrow> bytes \<Rightarrow> (nat \<Rightarrow> nat \<Rightarrow> nat) \<Rightarrow> archive_index result option" where
  "archive_new ops create data rd =
     build_index_with_progress ops create data rd (length data) (\<lambda>p _. (p, True)) ()"

definition archive_with_strategy ::
  "'d decompressor \<Rightarrow> (codec_spec \<Rightarrow> 'd result) \<Rightarrow> bytes \<Rightarrow> (nat \<Rightarrow> nat \<Rightarrow> nat) \<Rightarrow> 's strategy \<Rightarrow> 's \<Rightarrow> archive_index result option" where
  "archive_with_strategy ops create data rd S strat =
     build_index_with_strategy ops create data rd (length data) S strat (\<lambda>p _. (p, True)) ()"

section \<open>Reading members\<close>

definition archive_read_file ::
  "'d decompressor \<Rightarrow> (codec_spec \<Rightarrow> 'd result) \<Rightarrow> archive_index \<Rightarrow> bytes \<Rightarrow> (nat \<Rightarrow> nat \<Rightarrow> nat) \<Rightarrow> bytes \<Rightarrow> bytes result option" where
  "archive_read_file ops create idx data rd path =
     (case read_engine_new create idx path of
        Inl err \<Rightarrow> Some (Inl err)
      | Inr engine \<Rightarrow> map_option snd (read_loop ops data rd engine 0 []))"

definition archive_read_file_range ::
  "'d decompressor \<Rightarrow> (codec_spec \<Rightarrow> 'd result) \<Rightarrow> archive_index \<Rightarrow> bytes \<Rightarrow> (nat \<Rightarrow> nat \<Rightarrow> nat) \<Rightarrow> bytes \<Rightarrow> nat \<Rightarrow> nat \<Rightarrow>
   bytes result option" where
  "archive_read_file_range ops create idx data rd path off len =
     (case read_engine_new_range create idx path off len of
        Inl err \<Rightarrow> Some (Inl err)
      | Inr engine \<Rightarrow> map_option snd (read_loop ops data rd engine 0 []))"

definition archive_open ::
  "(codec_spec \<Rightarrow> 'd result) \<Rightarrow> archive_index \<Rightarrow> bytes \<Rightarrow> 'd entry_reader result" where
  "archive_open create idx path =
     and_then (read_engine_new create idx path) (\<lambda>engine. Inr (entry_reader_over engine 0))"

definition archive_list_all :: "archive_index \<Rightarrow> index_entry list" where
  "archive_list_all idx = archive_list idx None"

definition archive_list_dir :: "archive_index \<Rightarrow> bytes \<Rightarrow> index_entry list" where
  "archive_list_dir idx path = archive_list idx (Some path)"

section \<open>A whole pass\<close>

lemma header_len_ok: "reads_ok data rd \<Longrightarrow> n \<le> min 512 (length data) \<Longrightarrow> header_len rd n = min 512 (length data)"
proof (induction rd n rule: header_len.induct)
  case (1 rd n)
  let ?k = "rd n (512 - n)"
  have b: "?k \<le> 512 - n" "?k \<le> length data - n" "0 < 512 - n \<and> n < length data \<longrightarrow> 0 < ?k"
    using 1(2) by (simp_all add: reads_ok_def)
  show ?case
  proof (cases "n < 512 \<and> ?k \<noteq> 0")
    case True
    then have le: "n + ?k \<le> min 512 (length data)" using b(1,2) 1(3) by linarith
    with 1(1) [OF _ refl _ 1(2)] True show ?thesis by (subst header_len.simps) (simp add: Let_def)
  next
    case False
    then have "n = min 512 (length data)" using b(3) 1(3) by auto
    with False show ?thesis by (subst header_len.simps) (auto simp: Let_def)
  qed
qed

lemma archive_detect_ok:
  "reads_ok data rd \<Longrightarrow> archive_detect data rd =
    (case detect_format (take 512 data) of None \<Rightarrow> Inl UnsupportedFormat | Some f \<Rightarrow> Inr (f, take 512 data))"
  using header_len_ok [of data rd 0] by (simp add: archive_detect_def min_def split: option.splits)

text \<open>The entries found in the part \<open>acc\<close> of a stream.\<close>

definition parsed_so_far :: "archive_format option \<Rightarrow> index_builder \<Rightarrow> bytes \<Rightarrow> index_builder \<Rightarrow> bool" where
  "parsed_so_far fmt b acc b' \<longleftrightarrow> b' = b \<or>
     (\<exists>af cs p fin. format_ok fmt acc af \<and> concat cs = acc \<and> parse_chunks af b cs = Some (p, b', Inr fin))"

lemma parse_ok_so_far: "parse_ok fmt b acc e \<Longrightarrow> parsed_so_far fmt b acc (ie_builder e)"
  unfolding parse_ok_def parsed_so_far_def by (cases "ie_parser e") (simp_all, blast)

context decoder
begin

lemma engine_with_strategy_live:
  assumes "create (codec_of_format format) = Inr d" and "fresh d"
  obtains e where "engine_with_strategy create format fmt strat sz = Inr e"
    "engine_live fmt (builder_new format (unwrap_or fmt Tar) sz) [] e" "ix_fed (ie_indexer e) = 0"
    "si_codec (ix_index (ie_indexer e)) = codec_of_format format" "\<not> ie_done e"
proof -
  obtain r where r: "indexer_new create (codec_of_format format) strat (if sz = 0 then None else Some sz) = Inr r"
    "ix_live 0 [] r" "\<forall>off. ix_state r \<noteq> IxSeek off"
    "ix_config r = (False, None, codec_of_format format, if sz = 0 then None else Some sz)"
    "ix_fed r = 0" "\<not> ix_eof r" "ix_pending r = []"
    by (rule indexer_new_live [of create "codec_of_format format", OF assms, where strat = strat and clen = "if sz = 0 then None else Some sz"])
  define r' where "r' = indexer_emit_output r True"
  let ?e = "\<lparr>ie_indexer = r', ie_parser = map_option create_archive_parser fmt,
      ie_builder = builder_new format (unwrap_or fmt Tar) sz, ie_detect_buf = [], ie_done = False\<rparr>"
  have idx: "si_indexed_to (ix_index r) = 0" using r(1) by (auto simp: indexer_new_def and_then_Inr_iff indexer_with_parts_def stream_index_new_def)
  have sel: "ix_decompressor r' = ix_decompressor r" "ix_unpacked_pos r' = ix_unpacked_pos r" "ix_eof r' = ix_eof r"
    "ix_compressed_pos r' = ix_compressed_pos r" "ix_unread r' = ix_unread r" "ix_pending r' = ix_pending r"
    "ix_fed r' = ix_fed r" "ix_index r' = ix_index r" "ix_out_buf r' = ix_out_buf r" "ix_out_len r' = ix_out_len r"
    "ix_out_read r' = ix_out_read r" "ix_emit_output r'" "ix_state r' = ix_state r"
    "ix_last_checkpoint_pos r' = ix_last_checkpoint_pos r"
    "ix_checkpoint_data_bytes r' = ix_checkpoint_data_bytes r" "ix_stop_at r' = ix_stop_at r"
    by (simp_all add: r'_def indexer_emit_output_def ix_unread_def ix_pending_def ix_fed_def)
  have "at (ix_decompressor r') (ix_compressed_pos r') (ix_unpacked_pos r')" using r(2) by (simp add: ix_live_def sel)
  moreover have "ix_input_ok packed r'" "ix_len_ok unpacked r'" "table_ok good r'"
    using r(2) by (simp_all add: ix_live_def ix_input_ok_def ix_len_ok_def table_ok_def sel)
  moreover have "ix_state_ok r'" using r(2) by (simp add: ix_live_def ix_state_ok_def sel split: indexer_state.splits)
  moreover have "ix_output_ok unpacked 0 [] r'" using r(2,7) idx by (simp add: ix_live_def ix_output_ok_def sel)
  ultimately have "ix_live 0 [] r'" by (simp add: ix_live_def)
  moreover have "parse_ok fmt (builder_new format (unwrap_or fmt Tar) sz) [] ?e"
  proof (cases fmt)
    case None
    then show ?thesis by (simp add: parse_ok_def detect_archive_format_def MIN_DETECT_BYTES_def)
  next
    case (Some f)
    then show ?thesis
      by (intro parse_okI [where af = f and cs = "[]"])
        (simp_all add: format_ok_def unwrap_or_def builder_new_def set_archive_format_def)
  qed
  ultimately have "engine_live fmt (builder_new format (unwrap_or fmt Tar) sz) [] ?e"
    using r(3,4,7) by (simp add: engine_live_def ix_config_def sel)
  then show thesis using that [of ?e] r(1,4,5)
    by (simp add: engine_with_strategy_def Let_def ix_config_def sel) (simp add: r'_def)
qed

text \<open>Answering a request for input.\<close>

lemma engine_answer_live:
  assumes rd: "reads_ok packed rd" and ok: "engine_step_ok fmt b e e1 NeedInput"
    and hd: "\<not> fed \<longrightarrow> ix_fed (ie_indexer e) = 0 \<and> header = take hl packed \<and> header \<noteq> [] \<and> pos = length header"
    and pos: "fed \<longrightarrow> pos = ix_fed (ie_indexer e)"
  shows "\<exists>e2 pos' acc. engine_answer packed rd header e1 NeedInput pos fed = (e2, pos', True) \<and>
    engine_live fmt b acc e2 \<and> pos' = ix_fed (ie_indexer e2) \<and>
    ix_config (ie_indexer e2) = ix_config (ie_indexer e) \<and> (fed \<longrightarrow> (ie_indexer e2, ie_indexer e) \<in> ix_progress_rel)"
proof -
  from ok obtain acc r0 where l: "engine_live fmt b acc e1" "\<not> ie_done e1"
    "ix_step_ok 0 acc r0 (ie_indexer e1) (Some NeedInput)" "\<forall>off. ix_state r0 \<noteq> IxSeek off"
    "ix_fed r0 = ix_fed (ie_indexer e)" "\<forall>x. (x, r0) \<in> ix_progress_rel \<longrightarrow> (x, ie_indexer e) \<in> ix_progress_rel"
    and c: "ix_config (ie_indexer e1) = ix_config (ie_indexer e)"
    by (auto simp: engine_step_ok_def)
  from l(3) have ix: "ix_live 0 acc (ie_indexer e1)" "ix_unread (ie_indexer e1) = []" "ix_pending (ie_indexer e1) = []"
    "ix_state (ie_indexer e1) \<noteq> IxDone" "ix_fed (ie_indexer e1) = ix_fed r0" by (simp_all add: ix_step_ok_def)
  have set_live: "engine_live fmt b acc (e1\<lparr>ie_indexer := r\<rparr>)"
    if "ix_live 0 acc r" "ix_config r = ix_config (ie_indexer e1)" "ix_state r = IxProcessing" "ix_pending r = []" for r
    using that l(1) by (simp add: engine_live_def)
  show ?thesis
  proof (cases fed)
    case True
    note f = ix_need_input_progress [OF rd l(3,4)]
    let ?e2 = "e1\<lparr>ie_indexer := fed_indexer rd (ie_indexer e1)\<rparr>"
    have "engine_answer packed rd header e1 NeedInput pos fed = (?e2, ix_fed (ie_indexer ?e2), True)"
      using True pos f(3,7) l(5)
      by (auto simp: engine_answer_def fed_indexer_def engine_signal_eof_def engine_provide_data_def Let_def)
    moreover have "ix_config (fed_indexer rd (ie_indexer e1)) = ix_config (ie_indexer e1)"
      using f(4) l(3) by (simp add: ix_step_ok_def)
    ultimately show ?thesis using set_live [OF f(1)] f(2,5,6) l(6) c by (intro exI [of _ ?e2]) auto
  next
    case False
    with hd have h0: "ix_fed (ie_indexer e) = 0" and h: "header = take hl packed" "header \<noteq> []" "pos = length header" by blast+
    have z: "ix_fed (ie_indexer e1) = 0" using h0 l(5) ix(5) by simp
    have ne: "\<not> ix_eof (ie_indexer e1)" using ix(1) z h(1,2) by (auto simp: ix_live_def ix_input_ok_def)
    have "take (length header) (drop (ix_fed (ie_indexer e1)) packed) = header" using h(1) z by (simp add: min_def)
    note p = ix_provide_live [OF ix(1,2,4) ne this h(2)]
    let ?r = "indexer_provide_data (ie_indexer e1) header"
    have "ix_state ?r = IxProcessing" "ix_pending ?r = []" using ix(3) by (simp_all add: indexer_provide_data_def ix_pending_def)
    with set_live [OF p(1,5)] p(3,5) h z False c show ?thesis
      by (intro exI [of _ "e1\<lparr>ie_indexer := ?r\<rparr>"]) (auto simp: engine_answer_def engine_provide_data_def)
  qed
qed

text \<open>
  How a pass ends: with the error or the entries of the whole stream, or stopped by the callback
  after some part of it.
\<close>

definition drive_result :: "archive_format option \<Rightarrow> index_builder \<Rightarrow> codec_spec \<Rightarrow> archive_index result \<Rightarrow> bool \<Rightarrow> bool" where
  "drive_result fmt b codec res whole \<longleftrightarrow>
     (case res of
        Inl err \<Rightarrow> parse_outcome fmt b unpacked (Inl err)
      | Inr idx \<Rightarrow> \<exists>stream b' complete. idx = builder_finish b' stream complete \<and> index_ok stream \<and> si_codec stream = codec \<and>
          (complete \<longrightarrow> parse_outcome fmt b unpacked (Inr b')) \<and> (whole \<longrightarrow> complete) \<and>
          (\<not> complete \<longrightarrow> (\<exists>acc rest. unpacked = acc @ rest \<and> parsed_so_far fmt b acc b')))"

lemma drive_loop_live:
  assumes rd: "reads_ok packed rd" and hd: "header = take hl packed" "header \<noteq> []"
  shows "engine_live fmt b acc e \<Longrightarrow> (if fed then pos = ix_fed (ie_indexer e) else ix_fed (ie_indexer e) = 0 \<and> pos = length header) \<Longrightarrow>
    \<exists>res. drive_loop ops S packed rd on_progress header p e pos fed = Some res \<and>
      drive_result fmt b (si_codec (ix_index (ie_indexer e))) res (\<forall>p x. snd (on_progress p x))"
proof (induction "(fed, ie_indexer e)" arbitrary: p e acc pos fed rule: wf_induct_rule
    [OF wf_lex_prod [OF wf_measure [of "\<lambda>fed. if fed then 0 else 1"] wf_ix_progress]])
  case (1 e fed p acc pos)
  from engine_step_live [OF 1(2)] obtain e1 q where
    st: "engine_step ops S e = Some (e1, q)" "engine_step_ok fmt b e e1 q" by blast
  note unf = drive_loop.simps [of ops S packed rd on_progress header p e pos fed]
  have c1: "ix_config (ie_indexer e1) = ix_config (ie_indexer e)" using st(2) by (simp add: engine_step_ok_def)
  show ?case
  proof (cases q)
    case NeedInput
    from 1(3) hd have h: "\<not> fed \<longrightarrow> ix_fed (ie_indexer e) = 0 \<and> header = take hl packed \<and> header \<noteq> [] \<and> pos = length header"
      "fed \<longrightarrow> pos = ix_fed (ie_indexer e)" by auto
    from engine_answer_live [OF rd st(2) [unfolded NeedInput] h] obtain e2 pos' acc' where
      a: "engine_answer packed rd header e1 NeedInput pos fed = (e2, pos', True)" "engine_live fmt b acc' e2"
        "pos' = ix_fed (ie_indexer e2)" "ix_config (ie_indexer e2) = ix_config (ie_indexer e)"
        "fed \<longrightarrow> (ie_indexer e2, ie_indexer e) \<in> ix_progress_rel" by blast
    obtain p' go where pr: "on_progress p (engine_progress e2) = (p', go)" by fastforce
    show ?thesis
    proof (cases go)
      case True
      have "((True, ie_indexer e2), (fed, ie_indexer e)) \<in> measure (\<lambda>fed. if fed then 0 else 1) <*lex*> ix_progress_rel"
        using a(5) by simp
      from 1(1) [OF this a(2), of pos' p'] a(3,4) have
        "\<exists>res. drive_loop ops S packed rd on_progress header p' e2 pos' True = Some res \<and>
          drive_result fmt b (si_codec (ix_index (ie_indexer e))) res (\<forall>p x. snd (on_progress p x))" by simp
      moreover have "drive_loop ops S packed rd on_progress header p e pos fed =
          drive_loop ops S packed rd on_progress header p' e2 pos' True"
        using st(1) NeedInput a(1) pr True by (simp add: unf request_error_def)
      ultimately show ?thesis by simp
    next
      case False
      then have nw: "\<not> (\<forall>p x. snd (on_progress p x))" using pr by (metis snd_conv)
      from a(2) have l: "ix_live 0 acc' (ie_indexer e2)" "ix_emit_output (ie_indexer e2)" "parse_ok fmt b acc' e2"
        by (simp_all add: engine_live_def)
      obtain rest where "unpacked = acc' @ rest" by (rule ix_live_prefix [OF l(1,2)])
      then have ex: "\<exists>acc rest. unpacked = acc @ rest \<and> parsed_so_far fmt b acc (ie_builder e2)"
        using parse_ok_so_far [OF l(3)] by blast
      have "drive_result fmt b (si_codec (ix_index (ie_indexer e))) (Inr (engine_cancel e2)) (\<forall>p x. snd (on_progress p x))"
        unfolding drive_result_def engine_cancel_def indexer_finish_def sum.case
        by (intro exI [of _ "ix_index (ie_indexer e2)"] exI [of _ "ie_builder e2"] exI [of _ False])
          (use ex live_index_ok [OF l(1)] nw a(4) in simp)
      then show ?thesis using st(1) NeedInput a(1) pr False by (simp add: unf request_error_def)
    qed
  next
    case RequestDone
    from st(2) obtain acc' where l: "ix_live 0 acc' (ie_indexer e1)" by (auto simp: engine_step_ok_def)
    have "drive_result fmt b (si_codec (ix_index (ie_indexer e))) (Inr (engine_finish e1)) (\<forall>p x. snd (on_progress p x))"
      using live_index_ok [OF l] c1 st(2) RequestDone
      by (auto simp: drive_result_def engine_finish_def indexer_finish_def engine_step_ok_def)
    then show ?thesis using st(1) RequestDone by (simp add: unf)
  next
    case (RequestError err)
    then show ?thesis using st by (simp add: unf request_error_def drive_result_def engine_step_ok_def)
  qed (use st(2) in \<open>simp_all add: engine_step_ok_def\<close>)
qed

lemma drive_indexing_ok:
  assumes "reads_ok packed rd" and "detect_format (take 512 packed) = Some format"
    and "create (codec_of_format format) = Inr d" and "fresh d"
  shows "\<exists>res. drive_indexing ops create packed rd (length (take 512 packed)) file_size format (take 512 packed) S strat on_progress p =
      Some res \<and>
    drive_result None (builder_new format Tar file_size) (codec_of_format format) res (\<forall>p x. snd (on_progress p x))"
proof -
  obtain e where e: "engine_with_strategy create format None strat file_size = Inr e"
    "engine_live None (builder_new format (unwrap_or None Tar) file_size) [] e" "ix_fed (ie_indexer e) = 0"
    "si_codec (ix_index (ie_indexer e)) = codec_of_format format"
    by (rule engine_with_strategy_live [where create = create, OF assms(3,4), where fmt = None and strat = strat and sz = file_size])
  have ne: "take 512 packed \<noteq> []" using assms(2) by (auto simp: detect_format_def)
  have "unwrap_or None Tar = Tar" by (simp add: unwrap_or_def)
  then show ?thesis
    using drive_loop_live [where S = S and on_progress = on_progress and p = p and acc = "[]" and e = e and fed = False
        and fmt = None and b = "builder_new format Tar file_size" and pos = "length (take 512 packed)", OF assms(1) refl ne] e
    by (simp add: drive_indexing_def)
qed

lemma build_with_strategy_ok:
  assumes "reads_ok packed rd" and "detect_format (take 512 packed) = Some format"
    and "create (codec_of_format format) = Inr d" and "fresh d"
  shows "\<exists>res. build_index_with_strategy ops create packed rd file_size S strat on_progress p = Some res \<and>
    drive_result None (builder_new format Tar file_size) (codec_of_format format) res (\<forall>p x. snd (on_progress p x))"
  using drive_indexing_ok [where create = create and S = S and strat = strat and on_progress = on_progress and p = p, OF assms] archive_detect_ok [OF assms(1)] assms(2)
  by (simp add: build_index_with_strategy_def)

lemma build_with_progress_ok:
  assumes "reads_ok packed rd" and "detect_format (take 512 packed) = Some format"
    and "create (codec_of_format format) = Inr d" and "fresh d"
  shows "\<exists>res. build_index_with_progress ops create packed rd file_size on_progress p = Some res \<and>
    drive_result None (builder_new format Tar file_size) (codec_of_format format) res (\<forall>p x. snd (on_progress p x))"
  using drive_indexing_ok [where create = create and S = fixed_interval_ops and on_progress = on_progress and p = p, OF assms] archive_detect_ok [OF assms(1)] assms(2)
  by (simp add: build_index_with_progress_def)

section \<open>Reading a member\<close>

lemma full_range_reads:
  assumes rd: "reads_ok packed rd" and idx: "index_ok idx" and cr: "create (si_codec idx) = Inr d" "fresh d"
    and n: "si_unpacked_len idx \<noteq> None \<longrightarrow> n \<le> length unpacked - off"
  shows "\<exists>r r'. reader_new create idx off n = Inr r \<and>
    read_loop ops packed rd (require_full_range r) pos [] =
      Some (r', if n \<le> length unpacked - off then Inr (take n (drop off unpacked)) else Inl TruncatedInput)"
proof (cases "si_unpacked_len idx")
  case None
  from idx have "cps_ok (si_checkpoints idx)" "\<forall>cp\<in>set (si_checkpoints idx). good cp" by (simp_all add: index_ok_def)
  from require_full_reads [where create = create and d = d, OF rd cr this None] show ?thesis .
next
  case (Some m)
  from idx have cps: "cps_ok (si_checkpoints idx)" "\<forall>cp\<in>set (si_checkpoints idx). good cp"
    and m: "m = length unpacked" using Some by (auto simp: index_ok_def)
  have le: "n \<le> length unpacked - off" using n Some by simp
  then have cl: "clamp_len (si_unpacked_len idx) off n = n" using Some m by (simp add: clamp_len_def)
  obtain r where r: "reader_new create idx off n = Inr r" "unstarted off n r"
    by (rule reader_new_unstarted [where create = create and off = off and len = n, OF cps cr, unfolded cl])
  from r(2) have "unstarted off n (require_full_range r)" by (simp add: unstarted_def require_full_range_def)
  from read_loop_unstarted [OF rd this, of pos] obtain r' where
    "read_loop ops packed rd (require_full_range r) pos [] =
      Some (r', read_result (sr_require_full (require_full_range r)) n (take n (drop off unpacked)))" by blast
  moreover have "read_result full n (take n (drop off unpacked)) = Inr (take n (drop off unpacked))" for full
    using le by (simp add: read_result_def)
  ultimately show ?thesis using r(1) le by auto
qed

text \<open>The bytes of an entry, if it lies within the stream.\<close>

lemma read_entry_range:
  assumes rd: "reads_ok packed rd" and idx: "index_ok (ai_stream idx)" and cr: "create (si_codec (ai_stream idx)) = Inr d" "fresh d"
    and e: "en_offset e + en_size e < 2 ^ 64"
  shows "(if en_offset e + en_size e \<le> length unpacked
     then \<exists>r r'. read_engine_for_entry_range create idx e fo len = Inr r \<and>
       read_loop ops packed rd r pos [] =
         Some (r', Inr (take len (drop fo (subslice (en_offset e) (en_offset e + en_size e) unpacked))))
     else 0 < en_size e \<and> en_size e \<le> len \<longrightarrow> read_engine_for_entry_range create idx e 0 len = Inl TruncatedInput \<or>
       (\<exists>r r'. read_engine_for_entry_range create idx e 0 len = Inr r \<and>
         read_loop ops packed rd r pos [] = Some (r', Inl TruncatedInput)))"
proof (cases "en_offset e + en_size e \<le> length unpacked")
  case True
  let ?fo = "min fo (en_size e)" and ?n = "min len (en_size e - min fo (en_size e))"
  have len: "si_unpacked_len (ai_stream idx) = None \<or> si_unpacked_len (ai_stream idx) = Some (length unpacked)"
    using idx by (simp add: index_ok_def)
  have sat: "saturating_add64 (en_offset e) (en_size e) = en_offset e + en_size e" using e by (simp add: saturating_add64_def)
  have n: "?n \<le> length unpacked - (en_offset e + ?fo)" using True by linarith
  then have "si_unpacked_len (ai_stream idx) \<noteq> None \<longrightarrow> ?n \<le> length unpacked - (en_offset e + ?fo)" by simp
  from full_range_reads [where create = create and d = d, OF rd idx cr this, of pos] n obtain r r' where
    r: "reader_new create (ai_stream idx) (en_offset e + ?fo) ?n = Inr r"
      "read_loop ops packed rd (require_full_range r) pos [] = Some (r', Inr (take ?n (drop (en_offset e + ?fo) unpacked)))" by auto
  have w: "wrap64 (en_offset e + ?fo) = en_offset e + ?fo" using e by (intro wrap64_small) simp
  have "read_engine_for_entry_range create idx e fo len = Inr (require_full_range r)"
    unfolding read_engine_for_entry_range_def Let_def w using r(1) len True sat by auto
  moreover have "take ?n (drop (en_offset e + ?fo) unpacked) =
      take len (drop fo (subslice (en_offset e) (en_offset e + en_size e) unpacked))"
  proof (cases "fo \<le> en_size e")
    case True
    then show ?thesis by (simp add: subslice_def drop_take min_absorb1 add.commute)
  next
    case False
    then show ?thesis by (simp add: subslice_def)
  qed
  ultimately show ?thesis using r(2) True by auto
next
  case False
  have len: "si_unpacked_len (ai_stream idx) = None \<or> si_unpacked_len (ai_stream idx) = Some (length unpacked)"
    using idx by (simp add: index_ok_def)
  have sat: "saturating_add64 (en_offset e) (en_size e) = en_offset e + en_size e" using e by (simp add: saturating_add64_def)
  show ?thesis
  proof (cases "si_unpacked_len (ai_stream idx)")
    case (Some m)
    then show ?thesis using len False sat by (simp add: read_engine_for_entry_range_def)
  next
    case None
    have w: "wrap64 (en_offset e) = en_offset e" using e by (intro wrap64_small) simp
    from full_range_reads [where create = create and d = d, OF rd idx cr, of "en_size e" "en_offset e" pos] None obtain r r' where
      r: "reader_new create (ai_stream idx) (en_offset e) (en_size e) = Inr r"
        "read_loop ops packed rd (require_full_range r) pos [] =
          Some (r', if en_size e \<le> length unpacked - en_offset e then Inr (take (en_size e) (drop (en_offset e) unpacked)) else Inl TruncatedInput)"
      by auto
    have no: "\<not> en_size e \<le> length unpacked - en_offset e" if "0 < en_size e" using that False by linarith
    show ?thesis using r False None w no by (simp add: read_engine_for_entry_range_def min_absorb2)
  qed
qed

end

end
