(* ===== verification/TarWriter.thy ===== *)
theory TarWriter
  imports TarParser
begin

text \<open>
  The ustar format from the writer's side: how a member's header, data and padding and the end
  of an archive are laid out. It is the specification the parser is checked against: whatever
  such a writer produces, cut into chunks in any way, is parsed back into its members.
\<close>

section \<open>The writer\<close>

record tar_member =
  tm_name :: bytes
  tm_prefix :: bytes
  tm_mode :: nat
  tm_uid :: nat
  tm_gid :: nat
  tm_mtime :: nat
  tm_type :: byte
  tm_link :: bytes
  tm_uname :: bytes
  tm_gname :: bytes
  tm_data :: bytes

definition pad_field :: "nat \<Rightarrow> bytes \<Rightarrow> bytes" where
  "pad_field w s = s @ replicate (w - length s) 0"

definition octal_field :: "nat \<Rightarrow> nat \<Rightarrow> bytes" where
  "octal_field w n = print_digits 8 (w - 1) n @ [0]"

text \<open>Sizes of 8 GiB and more take the GNU base-256 form.\<close>

definition size_field :: "nat \<Rightarrow> bytes" where
  "size_field n = (if n < 8 ^ 11 then octal_field 12 n else 0x80 # be_bytes 11 n)"

definition tar_pre :: "tar_member \<Rightarrow> bytes" where
  "tar_pre m = pad_field 100 (tm_name m) @ octal_field 8 (tm_mode m) @ octal_field 8 (tm_uid m) @
     octal_field 8 (tm_gid m) @ size_field (length (tm_data m)) @ octal_field 12 (tm_mtime m)"

definition tar_post :: "tar_member \<Rightarrow> bytes" where
  "tar_post m = [tm_type m] @ pad_field 100 (tm_link m) @ (ascii ''ustar'' @ [0]) @ ascii ''00'' @
     pad_field 32 (tm_uname m) @ pad_field 32 (tm_gname m) @ replicate 16 0 @
     pad_field 155 (tm_prefix m) @ replicate 12 0"

definition tar_checksum :: "tar_member \<Rightarrow> nat" where
  "tar_checksum m = fst (checksum_loop 0 (tar_pre m @ replicate 8 32 @ tar_post m) 0 0)"

definition tar_header_bytes :: "tar_member \<Rightarrow> bytes" where
  "tar_header_bytes m = tar_pre m @ (print_digits 8 6 (tar_checksum m) @ [0, 32]) @ tar_post m"

definition tar_member_bytes :: "tar_member \<Rightarrow> bytes" where
  "tar_member_bytes m = tar_header_bytes m @ tm_data m @
     replicate (padded_size (length (tm_data m)) - length (tm_data m)) 0"

definition tar_archive_bytes :: "tar_member list \<Rightarrow> bytes" where
  "tar_archive_bytes ms = concat (map tar_member_bytes ms) @ replicate 1024 0"

text \<open>
  What a writer can express in a header; a member of its own moreover has a type that stands for one
  (extended headers are written as members whose type is one of the metadata types).
\<close>

definition text_ok :: "nat \<Rightarrow> bytes \<Rightarrow> bool" where
  "text_ok w s \<longleftrightarrow> length s \<le> w \<and> 0 \<notin> set s \<and> utf8_valid s"

definition tar_header_ok :: "tar_member \<Rightarrow> bool" where
  "tar_header_ok m \<longleftrightarrow>
     text_ok 100 (tm_name m) \<and> text_ok 155 (tm_prefix m) \<and> text_ok 100 (tm_link m) \<and>
     text_ok 32 (tm_uname m) \<and> text_ok 32 (tm_gname m) \<and>
     tm_mode m < 8 ^ 7 \<and> tm_uid m < 8 ^ 7 \<and> tm_gid m < 8 ^ 7 \<and> tm_mtime m < 8 ^ 11 \<and>
     length (tm_data m) < 2 ^ 63 \<and> tm_type m \<noteq> of_char (CHR ''S'')"

definition tar_member_ok :: "tar_member \<Rightarrow> bool" where
  "tar_member_ok m \<longleftrightarrow> tar_header_ok m \<and> \<not> is_metadata (from_byte (tm_type m))"

lemma tar_member_header_ok [simp]: "tar_member_ok m \<Longrightarrow> tar_header_ok m"
  by (simp add: tar_member_ok_def)

definition tar_member_entry :: "nat \<Rightarrow> tar_member \<Rightarrow> tar_entry" where
  "tar_member_entry off m =
     \<lparr>te_path = (if tm_prefix m = [] then tm_name m else tm_prefix m @ [of_char (CHR ''/'')] @ tm_name m),
      te_size = length (tm_data m), te_type = from_byte (tm_type m), te_mode = tm_mode m,
      te_uid = tm_uid m, te_gid = tm_gid m, te_mtime = tm_mtime m,
      te_uname = opt_string (tm_uname m), te_gname = opt_string (tm_gname m),
      te_link_target = opt_string (tm_link m), te_data_offset = off\<rparr>"

text \<open>The entries of members laid out one after the other from \<open>off\<close> on.\<close>

fun tar_entries_at :: "nat \<Rightarrow> tar_member list \<Rightarrow> archive_entry list" where
  "tar_entries_at off [] = []"
| "tar_entries_at off (m # ms) =
     tar_entry_into (tar_member_entry (off + BLOCK_SIZE) m) #
     tar_entries_at (off + length (tar_member_bytes m)) ms"

section \<open>One header\<close>

lemma length_fields [simp]:
  "length s \<le> w \<Longrightarrow> length (pad_field w s) = w"
  "0 < w \<Longrightarrow> length (octal_field w n) = w"
  "length (size_field n) = 12"
  by (simp_all add: pad_field_def octal_field_def size_field_def)

lemma parse_pad_field: "text_ok w s \<Longrightarrow> parse_string (pad_field w s) = s"
  by (cases "w - length s")
     (auto simp: parse_string_def pad_field_def text_ok_def takeWhile_tail from_utf8_lossy_valid
       takeWhile_append2 intro: takeWhile_eq_all_conv [THEN iffD2] arg_cong [where f = from_utf8_lossy, THEN trans])

lemma parse_octal_field:
  "1 < w \<Longrightarrow> n < 8 ^ (w - 1) \<Longrightarrow> n < 2 ^ 64 \<Longrightarrow> parse_octal (octal_field w n) = Inr n"
  using parse_octal_digits [of "w - 1" n 0 "[]"] by (simp add: octal_field_def)

lemma parse_size_field:
  assumes "n < 2 ^ 64"
  shows "parse_octal (size_field n) = Inr n"
proof (cases "n < 8 ^ 11")
  case True
  with parse_octal_field [of 12 n] show ?thesis by (simp add: size_field_def)
next
  case False
  have "be_from 0 (be_bytes 11 n) = n"
    using assms by (intro be_from_be_bytes) simp
  with False assms show ?thesis by (simp add: size_field_def parse_octal_binary)
qed

lemma length_tar_parts:
  assumes "tar_header_ok m"
  shows "length (tar_pre m) = 148" "length (tar_post m) = 356" "length (tar_header_bytes m) = 512"
  using assms by (auto simp: tar_header_ok_def text_ok_def tar_pre_def tar_post_def tar_header_bytes_def)

lemma tar_header_fields:
  assumes "tar_header_ok m"
  shows "subslice 0 100 (tar_header_bytes m) = pad_field 100 (tm_name m)"
    "subslice 100 108 (tar_header_bytes m) = octal_field 8 (tm_mode m)"
    "subslice 108 116 (tar_header_bytes m) = octal_field 8 (tm_uid m)"
    "subslice 116 124 (tar_header_bytes m) = octal_field 8 (tm_gid m)"
    "subslice 124 136 (tar_header_bytes m) = size_field (length (tm_data m))"
    "subslice 136 148 (tar_header_bytes m) = octal_field 12 (tm_mtime m)"
  using assms length_tar_parts [OF assms]
  by (simp_all add: tar_header_bytes_def tar_pre_def tar_header_ok_def text_ok_def slice_simps)

lemma tar_header_fields_post:
  assumes "tar_header_ok m"
  shows "subslice 148 156 (tar_header_bytes m) = print_digits 8 6 (tar_checksum m) @ [0, 32]"
    "tar_header_bytes m ! 156 = tm_type m"
    "subslice 157 257 (tar_header_bytes m) = pad_field 100 (tm_link m)"
    "subslice 257 262 (tar_header_bytes m) = ascii ''ustar''"
    "subslice 257 263 (tar_header_bytes m) = ascii ''ustar'' @ [0]"
    "subslice 265 297 (tar_header_bytes m) = pad_field 32 (tm_uname m)"
    "subslice 297 329 (tar_header_bytes m) = pad_field 32 (tm_gname m)"
    "subslice 345 500 (tar_header_bytes m) = pad_field 155 (tm_prefix m)"
  using assms length_tar_parts(1) [OF assms]
  by (simp_all add: tar_header_bytes_def tar_post_def tar_header_ok_def text_ok_def slice_simps
      nth_append subslice_def)

lemma tar_header_checksum:
  assumes "tar_header_ok m"
  shows "validate_checksum (tar_header_bytes m)"
proof -
  note len = length_tar_parts [OF assms]
  have "tar_checksum m \<le> 255 * length (tar_pre m @ replicate 8 32 @ tar_post m)"
    using checksum_loop_bound [of 0 "tar_pre m @ replicate 8 32 @ tar_post m" 0 0]
    by (simp only: tar_checksum_def add_0)
  also have "\<dots> = 130560" using len by simp
  finally have small: "tar_checksum m < 8 ^ 6" by simp
  have "parse_octal (subslice 148 156 (tar_header_bytes m)) = Inr (tar_checksum m)"
    using small parse_octal_digits [of 6 "tar_checksum m" 0 "[32]"]
    by (simp add: tar_header_fields_post [OF assms])
  moreover have "checksum_loop 0 (tar_header_bytes m) 0 0 =
      checksum_loop 0 (tar_pre m @ replicate 8 32 @ tar_post m) 0 0"
    unfolding tar_header_bytes_def using len by (intro checksum_loop_indep) simp_all
  ultimately show ?thesis
    using small by (simp add: validate_checksum_def tar_checksum_def split: prod.split)
qed

lemma from_byte_S: "from_byte b = TOther c \<Longrightarrow> c = b"
  by (auto simp: from_byte_def split: if_splits)

lemma tar_parse_header_written:
  assumes "tar_header_ok m"
  shows "tar_parse_header (tar_header_bytes m) off = Inr (tar_member_entry off m)"
proof -
  note ok = assms [unfolded tar_header_ok_def]
  have strings: "parse_string (pad_field 100 (tm_name m)) = tm_name m"
    "parse_string (pad_field 155 (tm_prefix m)) = tm_prefix m"
    "parse_string (pad_field 100 (tm_link m)) = tm_link m"
    "parse_string (pad_field 32 (tm_uname m)) = tm_uname m"
    "parse_string (pad_field 32 (tm_gname m)) = tm_gname m"
    using ok by (simp_all add: parse_pad_field)
  have numbers: "parse_octal (octal_field 8 (tm_mode m)) = Inr (tm_mode m)"
    "parse_octal (octal_field 8 (tm_uid m)) = Inr (tm_uid m)"
    "parse_octal (octal_field 8 (tm_gid m)) = Inr (tm_gid m)"
    "parse_octal (octal_field 12 (tm_mtime m)) = Inr (tm_mtime m)"
    using ok by (simp_all add: parse_octal_field)
  have size: "parse_octal (size_field (length (tm_data m))) = Inr (length (tm_data m))"
    using ok by (intro parse_size_field) simp
  have "from_byte (tm_type m) \<noteq> TOther (of_char (CHR ''S''))"
    using ok from_byte_S [of "tm_type m"] by auto
  then show ?thesis
    using ok tar_header_checksum [OF assms]
    by (simp add: tar_parse_header_def tar_header_fields [OF assms] tar_header_fields_post [OF assms]
        strings numbers size tar_member_entry_def BLOCK_SIZE_def Let_def)
qed

section \<open>A whole archive\<close>

text \<open>Between two members the parser stands at the start of a header with nothing pending.\<close>

definition tar_clean :: "nat \<Rightarrow> tar_parser \<Rightarrow> bool" where
  "tar_clean off p \<longleftrightarrow> tp_state p = TReadingHeader \<and> tp_header_pos p = 0 \<and>
     length (tp_header_buf p) = BLOCK_SIZE \<and> tp_stream_pos p = off \<and>
     tp_pax_path p = None \<and> tp_pax_linkpath p = None \<and> tp_pax_size p = None \<and>
     tp_gnu_long_name p = None \<and> tp_gnu_long_link p = None"

lemma fill_header_block:
  assumes "tp_header_pos p = 0" and "length h = BLOCK_SIZE" and "length (tp_header_buf p) = BLOCK_SIZE"
  shows "fill_header p (h @ rest) =
    (p\<lparr>tp_header_buf := h, tp_header_pos := BLOCK_SIZE, tp_stream_pos := tp_stream_pos p + BLOCK_SIZE\<rparr>,
     BLOCK_SIZE)"
  using assms by (simp add: fill_header_def Let_def copy_into_full)

lemma header_not_zero:
  assumes "tar_header_ok m"
  shows "\<not> is_zero_block (tar_header_bytes m)"
proof
  assume "is_zero_block (tar_header_bytes m)"
  then have "\<forall>b \<in> set (subslice 257 262 (tar_header_bytes m)). b = 0"
    by (auto simp: is_zero_block_def list_all_iff subslice_def dest!: in_set_takeD in_set_dropD)
  then show False by (simp add: tar_header_fields_post [OF assms])
qed

lemma feed_member_header:
  assumes "tar_clean off p" and "tar_member_ok m"
  shows "\<exists>p1. tar_feed p (tar_header_bytes m @ rest) =
      (p1, Inr (BLOCK_SIZE, Entry (tar_entry_into (tar_member_entry (off + BLOCK_SIZE) m)))) \<and>
    tar_clean (off + BLOCK_SIZE) (p1\<lparr>tp_state := TReadingHeader\<rparr>) \<and>
    tp_state p1 = (if 0 < padded_size (length (tm_data m)) then TSkippingData (padded_size (length (tm_data m)))
                   else TReadingHeader)"
proof -
  note clean = assms(1) [unfolded tar_clean_def]
  have len: "length (tar_header_bytes m) = BLOCK_SIZE"
    using length_tar_parts(3) [OF tar_member_header_ok [OF assms(2)]] by (simp add: BLOCK_SIZE_def)
  have ne: "tar_header_bytes m \<noteq> []"
    using len by (auto simp: BLOCK_SIZE_def)
  let ?p = "p\<lparr>tp_header_buf := tar_header_bytes m, tp_stream_pos := off + BLOCK_SIZE, tp_header_pos := 0\<rparr>"
  have "feed_tar p (tar_header_bytes m @ rest) = process_header ?p BLOCK_SIZE"
    using clean header_not_zero [OF tar_member_header_ok [OF assms(2)]] fill_header_block [OF _ len, of p rest] ne
    by (simp add: feed_tar_def tar_feed_header_def)
  moreover have meta: "\<not> is_metadata (te_type (tar_member_entry (off + BLOCK_SIZE) m))"
    using assms(2) by (simp add: tar_member_ok_def tar_member_entry_def)
  let ?n = "padded_size (length (tm_data m))"
  let ?p1 = "?p\<lparr>tp_pax_path := None, tp_pax_linkpath := None, tp_pax_size := None,
    tp_gnu_long_name := None, tp_gnu_long_link := None,
    tp_state := (if 0 < ?n then TSkippingData ?n else TReadingHeader)\<rparr>"
  have "process_header ?p BLOCK_SIZE =
      (?p1, Inr (BLOCK_SIZE, Entry (tar_member_entry (off + BLOCK_SIZE) m)))"
    using clean meta tar_parse_header_written [OF tar_member_header_ok [OF assms(2)]]
    by (cases "te_type (tar_member_entry (off + BLOCK_SIZE) m)")
       (simp_all add: process_header_def apply_pending_def is_metadata_def tar_member_entry_def Let_def)
  ultimately have "tar_feed p (tar_header_bytes m @ rest) =
      (?p1, Inr (BLOCK_SIZE, Entry (tar_entry_into (tar_member_entry (off + BLOCK_SIZE) m))))"
    by (simp add: tar_feed_def)
  moreover have "tar_clean (off + BLOCK_SIZE) (?p1\<lparr>tp_state := TReadingHeader\<rparr>)"
    using clean len by (simp add: tar_clean_def)
  ultimately show ?thesis by (intro exI [of _ ?p1]) simp
qed

lemma feed_member_data:
  assumes "tp_state p = TSkippingData (length d)" and "d \<noteq> []"
  shows "tar_feed p (d @ rest) =
    (p\<lparr>tp_stream_pos := tp_stream_pos p + length d, tp_state := TReadingHeader\<rparr>, Inr (length d, NeedData))"
  using assms by (simp add: tar_feed_def feed_tar_def tar_feed_skip_def Let_def)

lemma length_tar_member:
  assumes "tar_member_ok m"
  shows "length (tar_member_bytes m) = BLOCK_SIZE + padded_size (length (tm_data m))"
proof -
  have "length (tm_data m) \<le> padded_size (length (tm_data m))"
    using assms by (intro padded_size_props) (simp add: tar_member_ok_def tar_header_ok_def)
  then show ?thesis
    using length_tar_parts(3) [OF tar_member_header_ok [OF assms]] by (simp add: tar_member_bytes_def BLOCK_SIZE_def)
qed

lemma run_member:
  assumes "tar_clean pos p" and "tar_member_ok m"
  shows "\<exists>p1. tar_clean (pos + length (tar_member_bytes m)) p1 \<and>
    feed_to_parser tar_feed add p b (tar_member_bytes m @ rest) off =
    feed_to_parser tar_feed add p1 (add b (tar_entry_into (tar_member_entry (pos + BLOCK_SIZE) m))) rest
      (off + length (tar_member_bytes m))"
proof -
  let ?h = "tar_header_bytes m" and ?n = "padded_size (length (tm_data m))"
  define d where "d = tm_data m @ replicate (?n - length (tm_data m)) 0"
  let ?e = "tar_entry_into (tar_member_entry (pos + BLOCK_SIZE) m)"
  have hl: "length ?h = BLOCK_SIZE"
    using length_tar_parts(3) [OF tar_member_header_ok [OF assms(2)]] by (simp add: BLOCK_SIZE_def)
  have ml: "length (tar_member_bytes m) = BLOCK_SIZE + ?n" by (rule length_tar_member [OF assms(2)])
  have dl: "length d = ?n" using ml hl by (simp add: tar_member_bytes_def d_def)
  obtain p1 where p1: "tar_feed p (?h @ d @ rest) = (p1, Inr (BLOCK_SIZE, Entry ?e))"
    "tar_clean (pos + BLOCK_SIZE) (p1\<lparr>tp_state := TReadingHeader\<rparr>)"
    "tp_state p1 = (if 0 < ?n then TSkippingData ?n else TReadingHeader)"
    using feed_member_header [OF assms] by blast
  have step: "feed_to_parser tar_feed add p b (tar_member_bytes m @ rest) off =
      feed_to_parser tar_feed add p1 (add b ?e) (d @ rest) (off + BLOCK_SIZE)"
  proof -
    have "?h @ d @ rest \<noteq> []" using hl by (auto simp: BLOCK_SIZE_def)
    from feed_to_parser_steps(2) [where feed = tar_feed, OF this p1(1), of add b off] hl
    show ?thesis by (simp add: tar_member_bytes_def d_def)
  qed
  show ?thesis
  proof (cases "0 < ?n")
    case True
    let ?p2 = "p1\<lparr>tp_stream_pos := tp_stream_pos p1 + ?n, tp_state := TReadingHeader\<rparr>"
    have ne: "d \<noteq> []" using dl True by auto
    have "tar_feed p1 (d @ rest) = (?p2, Inr (?n, NeedData))"
      using feed_member_data [OF _ ne, of p1 rest] p1(3) True dl by simp
    then have "feed_to_parser tar_feed add p1 (add b ?e) (d @ rest) (off + BLOCK_SIZE) =
        feed_to_parser tar_feed add ?p2 (add b ?e) rest (off + (BLOCK_SIZE + ?n))"
      using ne dl True by (subst feed_to_parser.simps) (simp add: add.assoc)
    moreover have "tar_clean (pos + (BLOCK_SIZE + ?n)) ?p2"
      using p1(2) by (simp add: tar_clean_def)
    ultimately show ?thesis using step ml by metis
  next
    case False
    with dl have "d = []" by simp
    moreover have "p1\<lparr>tp_state := TReadingHeader\<rparr> = p1" using p1(3) False by simp
    ultimately show ?thesis using step ml p1(2) False by auto
  qed
qed

lemma run_members:
  assumes "tar_clean pos p" and "list_all tar_member_ok ms"
  shows "\<exists>p1. tar_clean (pos + length (concat (map tar_member_bytes ms))) p1 \<and>
    feed_to_parser tar_feed add p b (concat (map tar_member_bytes ms) @ rest) off =
    feed_to_parser tar_feed add p1 (foldl add b (tar_entries_at pos ms)) rest
      (off + length (concat (map tar_member_bytes ms)))"
  using assms
proof (induction ms arbitrary: pos p b off)
  case (Cons m ms)
  then have m: "tar_member_ok m" and ms: "list_all tar_member_ok ms" by simp_all
  let ?rest = "concat (map tar_member_bytes ms) @ rest"
  obtain p1 where p1: "tar_clean (pos + length (tar_member_bytes m)) p1"
    "feed_to_parser tar_feed add p b (tar_member_bytes m @ ?rest) off =
     feed_to_parser tar_feed add p1 (add b (tar_entry_into (tar_member_entry (pos + BLOCK_SIZE) m))) ?rest
       (off + length (tar_member_bytes m))"
    using run_member [OF Cons.prems(1) m, of add b ?rest off] by blast
  from Cons.IH [OF p1(1) ms, of "add b (tar_entry_into (tar_member_entry (pos + BLOCK_SIZE) m))"
      "off + length (tar_member_bytes m)"] p1(2)
  show ?case by (auto simp: add.assoc)
qed auto

lemma run_end_blocks:
  assumes "tar_clean pos p"
  shows "\<exists>p1. feed_to_parser tar_feed add p b (replicate 1024 0) off = Some (p1, b, Inr (off + 1024, True)) \<and>
    tar_end_of_stream p1 = Inr ()"
proof -
  note clean = assms [unfolded tar_clean_def]
  let ?z = "replicate BLOCK_SIZE (0 :: byte)"
  have zz: "replicate 1024 0 = ?z @ ?z" by (simp add: BLOCK_SIZE_def replicate_add [symmetric])
  have zero: "is_zero_block ?z" by (simp add: is_zero_block_def list_all_iff)
  have ne: "?z \<noteq> []" by (simp add: BLOCK_SIZE_def)
  let ?p1 = "p\<lparr>tp_header_buf := ?z, tp_header_pos := 0, tp_stream_pos := tp_stream_pos p + BLOCK_SIZE,
    tp_state := TOneZeroBlock\<rparr>"
  let ?p2 = "?p1\<lparr>tp_stream_pos := tp_stream_pos p + BLOCK_SIZE + BLOCK_SIZE, tp_state := TEnd\<rparr>"
  have a: "tar_feed p (?z @ ?z) = (?p1, Inr (BLOCK_SIZE, NeedData))"
    using clean ne zero fill_header_block [of p ?z ?z]
    by (simp add: tar_feed_def feed_tar_def tar_feed_header_def Let_def)
  have b: "tar_feed ?p1 ?z = (?p2, Inr (BLOCK_SIZE, EndOfArchive))"
    using clean ne zero fill_header_block [of ?p1 ?z "[]"]
    by (simp add: tar_feed_def feed_tar_def feed_second_zero_def Let_def)
  have "feed_to_parser tar_feed add p b (?z @ ?z) off = Some (?p2, b, Inr (off + 1024, True))"
  proof -
    have "feed_to_parser tar_feed add p b (?z @ ?z) off = feed_to_parser tar_feed add ?p1 b ?z (off + BLOCK_SIZE)"
      using feed_to_parser_steps(4) [where feed = tar_feed, OF _ a] ne by simp
    also have "\<dots> = Some (?p2, b, Inr (off + BLOCK_SIZE + BLOCK_SIZE, True))"
      using feed_to_parser_steps(5) [where feed = tar_feed, OF ne b] .
    finally show ?thesis by (simp add: BLOCK_SIZE_def)
  qed
  then show ?thesis unfolding zz by (auto simp: tar_end_of_stream_def)
qed

lemma tar_clean_new: "tar_clean 0 tar_new"
  by (simp add: tar_clean_def tar_new_def)

lemma tar_run_archive:
  assumes "list_all tar_member_ok ms"
  shows "\<exists>p1. feed_to_parser tar_feed add tar_new b (tar_archive_bytes ms) 0 =
      Some (p1, foldl add b (tar_entries_at 0 ms), Inr (length (tar_archive_bytes ms), True)) \<and>
    tar_end_of_stream p1 = Inr ()"
proof -
  let ?ms = "concat (map tar_member_bytes ms)"
  obtain p1 where p1: "tar_clean (0 + length ?ms) p1"
    "feed_to_parser tar_feed add tar_new b (?ms @ replicate 1024 0) 0 =
     feed_to_parser tar_feed add p1 (foldl add b (tar_entries_at 0 ms)) (replicate 1024 0) (0 + length ?ms)"
    using run_members [OF tar_clean_new assms, of add b "replicate 1024 0" 0] by blast
  from run_end_blocks [OF p1(1), of add "foldl add b (tar_entries_at 0 ms)" "0 + length ?ms"] p1(2)
  show ?thesis unfolding tar_archive_bytes_def by auto
qed

text \<open>The offsets found point at the data.\<close>

lemma tar_entries_data:
  assumes "list_all tar_member_ok ms" and "i < length ms"
  shows "subslice (ae_data_offset (tar_entries_at (length pre) ms ! i))
      (ae_data_offset (tar_entries_at (length pre) ms ! i) + ae_size (tar_entries_at (length pre) ms ! i))
      (pre @ concat (map tar_member_bytes ms) @ rest) = tm_data (ms ! i)"
  using assms
proof (induction ms arbitrary: pre i)
  case (Cons m ms)
  show ?case
  proof (cases i)
    case 0
    have "length (tar_header_bytes m) = BLOCK_SIZE"
      using Cons.prems length_tar_parts(3) [of m] by (simp add: BLOCK_SIZE_def)
    then show ?thesis
      using 0 by (simp add: tar_entry_into_def tar_member_entry_def tar_member_bytes_def subslice_def)
  next
    case (Suc j)
    from Cons.IH [of j "pre @ tar_member_bytes m"] Cons.prems Suc show ?thesis by simp
  qed
qed simp

section \<open>PAX records\<close>

text \<open>
  A record as writers lay it out: the decimal length of the whole record in \<open>w\<close> digits, a space,
  \<open>key=value\<close> and a newline.
\<close>

definition pax_line :: "nat \<Rightarrow> bytes \<Rightarrow> bytes" where
  "pax_line w body = print_digits 10 w (w + 2 + length body) @ [32] @ body @ [10]"

definition pax_body :: "string \<Rightarrow> bytes \<Rightarrow> bytes" where
  "pax_body key value = ascii key @ [of_char (CHR ''='')] @ value"

lemma decimal_props:
  assumes "b \<in> set (print_digits 10 w n)"
  shows "b \<noteq> 32" "b < 0x80" "b \<noteq> 43" "b \<noteq> 45"
proof -
  obtain d where "d < 10" "b = digit_char d" using set_print_digits [OF _ assms] by auto
  then have "d \<in> {0,1,2,3,4,5,6,7,8,9}" "b = digit_char d" by auto
  then show "b \<noteq> 32" "b < 0x80" "b \<noteq> 43" "b \<noteq> 45" by (auto simp: digit_char_def)
qed

lemma pax_len_digits:
  assumes "0 < w" and "n < 10 ^ w" and "n < 2 ^ 64" and "w < n"
  shows "position 32 (print_digits 10 w n @ 32 # rest) = Some w" "pax_len (print_digits 10 w n @ 32 # rest) w = Some n"
proof -
  let ?d = "print_digits 10 w n"
  have tw: "takeWhile (\<lambda>b. b \<noteq> 32) (?d @ 32 # rest) = ?d" by (simp add: takeWhile_append2 decimal_props)
  then show "position 32 (?d @ 32 # rest) = Some w" by (simp add: position_def)
  have ne: "?d \<noteq> []" using assms(1) by (metis length_print_digits length_0_conv less_irrefl)
  then have hd: "hd ?d \<in> set ?d" by simp
  have "utf8_valid ?d" by (rule ascii_utf8_valid) (auto dest: decimal_props)
  moreover have "from_str_radix 10 ?d = Some n"
    using from_str_radix_plain [OF ne] decimal_props(3,4) [OF hd] parse_print_digits [of 10 n w] assms by simp
  ultimately show "pax_len (?d @ 32 # rest) w = Some n" using assms(4) by (simp add: pax_len_def)
qed

lemma parse_pax_line:
  assumes "0 < w" and "w + 2 + length body < 10 ^ w" and "pos + (w + 2 + length body) < 2 ^ 64"
  shows "parse_pax_from p pos (pax_line w body @ rest) = parse_pax_from (pax_record p body) (pos + (w + 2 + length body)) rest"
proof -
  let ?n = "w + 2 + length body" and ?data = "pax_line w body @ rest"
  have len: "length (pax_line w body) = ?n" by (simp add: pax_line_def)
  have shape: "?data = print_digits 10 w ?n @ 32 # body @ [10] @ rest" by (simp add: pax_line_def)
  have "?n < 2 ^ 64" using assms(3) by linarith
  from pax_len_digits [OF assms(1,2) this, of "body @ [10] @ rest", folded shape]
  have pos: "position 32 ?data = Some w" and pl: "pax_len ?data w = Some ?n" by simp_all
  have "subslice (w + 1) ?n ?data = body @ [10]"
    by (simp add: pax_line_def subslice_def)
  then have st: "strip_one_end 10 (subslice (w + 1) ?n ?data) = body" by (simp add: strip_one_end_def)
  have fin: "wrap64 (pos + ?n) = pos + ?n" by (rule wrap64_small) (use assms(3) in simp)
  have "pax_line w body \<noteq> []" by (simp add: pax_line_def)
  with pos pl st len fin show ?thesis by (subst parse_pax_from.simps) (simp add: Let_def)
qed

lemma parse_pax_lines:
  assumes "list_all (\<lambda>(w, body). 0 < w \<and> w + 2 + length body < 10 ^ w) recs"
    and "pos + length (concat (map (\<lambda>(w, body). pax_line w body) recs)) < 2 ^ 64"
  shows "parse_pax_from p pos (concat (map (\<lambda>(w, body). pax_line w body) recs) @ rest) =
    parse_pax_from (foldl pax_record p (map snd recs)) (pos + length (concat (map (\<lambda>(w, body). pax_line w body) recs))) rest"
  using assms
proof (induction recs arbitrary: p pos)
  case (Cons r recs)
  obtain w body where r: "r = (w, body)" by fastforce
  have len: "length (pax_line w body) = w + 2 + length body" by (simp add: pax_line_def)
  have l: "pos + (w + 2 + length body) + length (concat (map (\<lambda>(w, body). pax_line w body) recs)) < 2 ^ 64"
    using Cons.prems(2) r len by (simp add: add.assoc)
  from Cons.prems(1) r parse_pax_line [of w body pos p "concat (map (\<lambda>(w, body). pax_line w body) recs) @ rest"] l
    Cons.IH [OF _ l, of "pax_record p body"] len
  show ?case by (simp add: add.assoc)
qed simp

text \<open>A length that takes the end of a record past 64 bits.\<close>

lemma parse_pax_overflow:
  assumes "0 < w" and "n < 10 ^ w" and "n < 2 ^ 64" and "w < n" and "2 ^ 64 \<le> pos + n"
    and "pos < 2 ^ 64"
  shows "parse_pax_from p pos (print_digits 10 w n @ 32 # rest) =
    (p, Inl (Panicked ''slice index starts at {} but ends at {}''))"
proof -
  have "pos + n - 2 ^ 64 < 2 ^ 64" using assms(3,6) by linarith
  then have "(pos + n) mod 2 ^ 64 = pos + n - 2 ^ 64"
    using assms(5) by (metis le_mod_geq mod_less)
  then have "wrap64 (pos + n) < pos" using assms(3,5) by (simp add: wrap64_def)
  then show ?thesis using pax_len_digits [OF assms(1-4), of rest] by (subst parse_pax_from.simps) (simp add: Let_def)
qed

lemma pax_record_keys:
  assumes "utf8_valid v"
  shows "pax_record p (pax_body ''path'' v) = p\<lparr>tp_pax_path := Some v\<rparr>"
    "pax_record p (pax_body ''linkpath'' v) = p\<lparr>tp_pax_linkpath := Some v\<rparr>"
    "from_str_radix 10 v = Some sz \<Longrightarrow> pax_record p (pax_body ''size'' v) = p\<lparr>tp_pax_size := Some sz\<rparr>"
  using assms
  by (simp_all add: pax_record_def pax_body_def position_def from_utf8_lossy_valid)

section \<open>Where the parser goes wrong\<close>

text \<open>
  A \<^verbatim>\<open>size\<close> record within 511 of \<open>2 ^ 64\<close> is taken over without the bound that the header's own
  size is checked against, and its padding wraps to 0.
\<close>

lemma padded_size_wraps:
  assumes "2 ^ 64 - 512 < sz" and "sz < 2 ^ 64"
  shows "padded_size sz = 0"
proof -
  from assms have "(sz + 511) div 512 = 2 ^ 55" by (intro div_nat_eqI) simp_all
  then show ?thesis by (simp add: padded_size_def blocks_for_size_def BLOCK_SIZE_def wrap64_def add.commute)
qed

text \<open>The header of a metadata member starts the collection of its data.\<close>

definition metadata_state :: "tar_member \<Rightarrow> tar_state" where
  "metadata_state m =
     (let n = length (tm_data m) in
      case from_byte (tm_type m) of
        PaxExtended \<Rightarrow> TReadingPaxData (padded_size n) n []
      | PaxGlobal \<Rightarrow> TSkippingData (padded_size n)
      | GnuLongName \<Rightarrow> TReadingGnuLong (padded_size n) n [] False
      | GnuLongLink \<Rightarrow> TReadingGnuLong (padded_size n) n [] True
      | _ \<Rightarrow> TReadingHeader)"

lemma feed_metadata_header:
  assumes "tar_clean off p" and "tar_header_ok m" and "is_metadata (from_byte (tm_type m))"
    and "length (tm_data m) \<le> MAX_METADATA_SIZE"
  shows "tar_feed p (tar_header_bytes m @ rest) =
    (p\<lparr>tp_header_buf := tar_header_bytes m, tp_stream_pos := off + BLOCK_SIZE, tp_state := metadata_state m\<rparr>,
     Inr (BLOCK_SIZE, NeedData))"
proof -
  note clean = assms(1) [unfolded tar_clean_def]
  have len: "length (tar_header_bytes m) = BLOCK_SIZE"
    using length_tar_parts(3) [OF assms(2)] by (simp add: BLOCK_SIZE_def)
  have ne: "tar_header_bytes m \<noteq> []"
    using len by (auto simp: BLOCK_SIZE_def)
  let ?p = "p\<lparr>tp_header_buf := tar_header_bytes m, tp_stream_pos := off + BLOCK_SIZE, tp_header_pos := 0\<rparr>"
  have "feed_tar p (tar_header_bytes m @ rest) = process_header ?p BLOCK_SIZE"
    using clean header_not_zero [OF assms(2)] fill_header_block [OF _ len, of p rest] ne
    by (simp add: feed_tar_def tar_feed_header_def)
  also have "\<dots> = (?p\<lparr>tp_state := metadata_state m\<rparr>, Inr (BLOCK_SIZE, NeedData))"
    using tar_parse_header_written [OF assms(2)] assms(3,4)
    by (cases "from_byte (tm_type m)")
       (simp_all add: process_header_def is_metadata_def tar_member_entry_def metadata_state_def Let_def)
  finally show ?thesis using clean by (simp add: tar_feed_def)
qed

text \<open>A parser driven over such a member goes on with its data.\<close>

lemma run_metadata_header:
  assumes "tar_clean pos p" and "tar_header_ok m" and "is_metadata (from_byte (tm_type m))"
    and "length (tm_data m) \<le> MAX_METADATA_SIZE"
  shows "feed_to_parser tar_feed add p b (tar_header_bytes m @ rest) off =
    feed_to_parser tar_feed add
      (p\<lparr>tp_header_buf := tar_header_bytes m, tp_stream_pos := pos + BLOCK_SIZE, tp_state := metadata_state m\<rparr>) b rest
      (off + BLOCK_SIZE)"
proof -
  have len: "length (tar_header_bytes m) = BLOCK_SIZE"
    using length_tar_parts(3) [OF assms(2)] by (simp add: BLOCK_SIZE_def)
  then have "tar_header_bytes m @ rest \<noteq> []" by (auto simp: BLOCK_SIZE_def)
  from feed_to_parser_steps(4) [where feed = tar_feed, OF this feed_metadata_header [OF assms], of add b off] len
  show ?thesis by (simp add: BLOCK_SIZE_def)
qed

section \<open>Properties\<close>

definition demo_member :: tar_member where
  "demo_member =
     \<lparr>tm_name = ascii ''a.txt'', tm_prefix = ascii ''dir'', tm_mode = 420, tm_uid = 1000,
      tm_gid = 1000, tm_mtime = 5, tm_type = of_char (CHR ''0''), tm_link = [], tm_uname = ascii ''u'',
      tm_gname = [], tm_data = ascii ''hello''\<rparr>"

lemma demo_member_ok: "tar_member_ok demo_member"
  by (simp add: demo_member_def tar_member_ok_def tar_header_ok_def text_ok_def from_byte_def is_metadata_def)

text \<open>
  C4. Any archive a ustar writer produces, handed to the parser in chunks cut anywhere, is parsed
  into exactly its members, in order and with their metadata; the parser ends cleanly, and every
  entry's offset and size delimit the member's data in the archive.
\<close>

theorem tar_archive_roundtrip:
  assumes "list_all tar_member_ok ms" and "concat cs = tar_archive_bytes ms"
  shows "(\<exists>p. feed_chunks tar_feed add tar_new b cs = Some (p, foldl add b (tar_entries_at 0 ms), Inr True) \<and>
      tar_end_of_stream p = Inr ()) \<and>
    (\<forall>i<length ms. let e = tar_entries_at 0 ms ! i in
       subslice (ae_data_offset e) (ae_data_offset e + ae_size e) (concat cs) = tm_data (ms ! i))"
proof -
  obtain p where p: "feed_to_parser tar_feed add tar_new b (concat cs) 0 =
      Some (p, foldl add b (tar_entries_at 0 ms), Inr (length (tar_archive_bytes ms), True))"
    "tar_end_of_stream p = Inr ()"
    using tar_run_archive [OF assms(1), of add b] assms(2) by auto
  from tar.chunks_run [OF tar_inv_new p(1)] p(2)
  have "\<exists>p. feed_chunks tar_feed add tar_new b cs = Some (p, foldl add b (tar_entries_at 0 ms), Inr True) \<and>
      tar_end_of_stream p = Inr ()" by simp
  moreover have "subslice (ae_data_offset e) (ae_data_offset e + ae_size e) (concat cs) = tm_data (ms ! i)"
    if "i < length ms" "e = tar_entries_at 0 ms ! i" for i e
    using tar_entries_data [OF assms(1) that(1), of "[]" "replicate 1024 0"] that(2) assms(2)
    by (simp add: tar_archive_bytes_def)
  ultimately show ?thesis by simp
qed

theorem tar_archive_roundtrip_witness:
  "\<exists>p. feed_chunks tar_feed (\<lambda>b e. b @ [e]) tar_new []
      [take 700 (tar_archive_bytes [demo_member]), drop 700 (tar_archive_bytes [demo_member])] =
    Some (p, [tar_entry_into (tar_member_entry 512 demo_member)], Inr True) \<and>
    tar_end_of_stream p = Inr ()"
  using tar_archive_roundtrip [where ms = "[demo_member]" and add = "\<lambda>b e. b @ [e]" and b = "[]"
      and cs = "[take 700 (tar_archive_bytes [demo_member]), drop 700 (tar_archive_bytes [demo_member])]"]
    demo_member_ok
  by (simp add: BLOCK_SIZE_def)

text \<open>
  C5. The tar parser does not depend on how the stream is cut, for every stream that one piece is parsed to
  an error, to the end of the archive or to the end of the stream: every way of cutting it into chunks
  then gives the same parser state, the same entries and the same outcome. The condition is needed:
  after a metadata member of size 0 the parser gives up on the rest of the chunk it is in, as is shown below.
\<close>

theorem tar_chunking_irrelevant:
  assumes "feed_to_parser tar_feed add tar_new b (concat cs) 0 = Some (p', b', r)"
    and "\<forall>off. r = Inr (off, False) \<longrightarrow> off = length (concat cs)"
  shows "feed_chunks tar_feed add tar_new b cs = Some (p', b', map_sum id snd r)"
  using tar.chunks_run [OF tar_inv_new assms(1)] assms(2) by blast

theorem tar_chunking_irrelevant_witness:
  "feed_chunks tar_feed (\<lambda>b e. b @ [e]) tar_new [] [[1], [2, 3], []] =
   Some (tar_new\<lparr>tp_header_buf := [1, 2, 3] @ replicate 509 0, tp_header_pos := 3, tp_stream_pos := 3\<rparr>, [], Inr False)"
proof -
  have step: "tar_feed tar_new [1, 2, 3] = (tar_new\<lparr>tp_header_buf := [1, 2, 3] @ replicate 509 0, tp_header_pos := 3, tp_stream_pos := 3\<rparr>, Inr (3, NeedData))"
    by (simp add: tar_feed_def feed_tar_def tar_feed_header_def fill_header_def tar_new_def
        copy_into_def BLOCK_SIZE_def)
  have "feed_to_parser tar_feed (\<lambda>b e. b @ [e]) tar_new [] (concat [[1], [2, 3], []]) 0 =
    Some (tar_new\<lparr>tp_header_buf := [1, 2, 3] @ replicate 509 0, tp_header_pos := 3, tp_stream_pos := 3\<rparr>, [], Inr (3, False))"
    using feed_to_parser_steps(4) [where feed = tar_feed and add = "\<lambda>b e. b @ [e]" and b = "[]", OF _ step] by simp
  from tar_chunking_irrelevant [OF this] show ?thesis by simp
qed

text \<open>
  C6. The loop that drives the tar parser over a chunk always ends: with an error, or at an
  offset inside the chunk, having advanced the parser's position in the stream by as much. A panic, which
  a PAX record of overflowing length causes, counts as ending with an error.
\<close>

theorem tar_feed_loop_ends:
  assumes "tar_inv p"
  shows "\<exists>p' b' r. feed_to_parser tar_feed add p b d off = Some (p', b', r) \<and>
    (case r of Inl e \<Rightarrow> True
     | Inr (off', fin) \<Rightarrow> tar_inv p' \<and> off \<le> off' \<and> off' \<le> off + length d \<and>
         tp_stream_pos p' + off = tp_stream_pos p + off')"
  using tar.run_total [OF assms, of add b d off] by (fastforce split: sum.split)

theorem tar_feed_loop_ends_witness:
  "\<exists>p' b' r. feed_to_parser tar_feed (\<lambda>b e. b @ [e]) tar_new [] (replicate 2000 7) 0 = Some (p', b', r)"
  using tar_feed_loop_ends [OF tar_inv_new, of "\<lambda>b e. b @ [e]" "[]" "replicate 2000 7" 0] by blast

text \<open>
  C7. PAX records written one after the other are read back whole, whatever bytes (newlines,
  equals signs) the values hold: the parser applies exactly the records' bodies in order.
\<close>

theorem pax_records_roundtrip:
  assumes "list_all (\<lambda>(w, body). 0 < w \<and> w + 2 + length body < 10 ^ w) recs"
    and "length (concat (map (\<lambda>(w, body). pax_line w body) recs)) < 2 ^ 64"
  shows "parse_pax_data p (concat (map (\<lambda>(w, body). pax_line w body) recs)) =
    (foldl pax_record p (map snd recs), Inr ())"
  using parse_pax_lines [OF assms(1), of 0 p "[]"] assms(2)
  by (simp add: parse_pax_data_def parse_pax_from.simps [of _ _ "[]"])

theorem pax_records_roundtrip_witness:
  "parse_pax_data tar_new (pax_line 2 (pax_body ''path'' [97, 10, 61]) @ pax_line 2 (pax_body ''size'' [57])) =
   (tar_new\<lparr>tp_pax_path := Some [97, 10, 61], tp_pax_size := Some 9\<rparr>, Inr ())"
proof -
  have "from_str_radix 10 [57] = Some 9" by (simp add: from_str_radix_def to_digit_def)
  then show ?thesis
    using pax_records_roundtrip [of "[(2, pax_body ''path'' [97, 10, 61]), (2, pax_body ''size'' [57])]" tar_new]
    by (simp add: pax_record_keys) (simp add: pax_body_def pax_line_def)
qed

text \<open>
  C8. A flaw: a record whose declared length takes its end past \<open>2 ^ 64\<close> makes the parser panic
  (here with the message of a release build), wherever the archive is cut. An archive that begins
  with an extended header of any well-formed records and such a length is enough.
\<close>

theorem pax_length_overflow_panics:
  assumes "tar_header_ok m" and "from_byte (tm_type m) = PaxExtended" and "length (tm_data m) \<le> MAX_METADATA_SIZE"
    and "tm_data m = concat (map (\<lambda>(w, body). pax_line w body) recs) @ print_digits 10 w n @ 32 # junk"
    and "list_all (\<lambda>(w, body). 0 < w \<and> w + 2 + length body < 10 ^ w) recs"
    and "0 < w" "n < 10 ^ w" "n < 2 ^ 64" "w < n"
    and "2 ^ 64 \<le> length (concat (map (\<lambda>(w, body). pax_line w body) recs)) + n"
    and "concat cs = tar_member_bytes m @ rest"
  shows "\<exists>p'. feed_chunks tar_feed add tar_new b cs =
    Some (p', b, Inl (Panicked ''slice index starts at {} but ends at {}''))"
proof -
  let ?lines = "concat (map (\<lambda>(w, body). pax_line w body) recs)" and ?n = "length (tm_data m)"
  let ?msg = "Inl (Panicked ''slice index starts at {} but ends at {}'') :: unit result"
  have meta: "is_metadata (from_byte (tm_type m))" using assms(2) by (simp add: is_metadata_def)
  have len: "length ?lines \<le> ?n" using assms(4) by simp
  then have small: "length ?lines < 2 ^ 64" "?n \<le> 2 ^ 64 - 512"
    using assms(3) by (simp_all add: MAX_METADATA_SIZE_def)
  have pax: "parse_pax_data p (tm_data m) = (foldl pax_record p (map snd recs), ?msg)" for p
    unfolding parse_pax_data_def assms(4)
    using parse_pax_lines [OF assms(5), of 0] parse_pax_overflow [OF assms(6-10) small(1)] small(1) by simp
  define d where "d = tm_data m @ replicate (padded_size ?n - ?n) 0"
  have pad: "?n \<le> padded_size ?n" using padded_size_props(1) [OF small(2)] .
  have ne: "0 < ?n" using assms(4) by simp
  let ?p1 = "tar_new\<lparr>tp_header_buf := tar_header_bytes m, tp_stream_pos := 0 + BLOCK_SIZE, tp_state := metadata_state m\<rparr>"
  have st: "metadata_state m = TReadingPaxData (padded_size ?n) ?n []" using assms(2) by (simp add: metadata_state_def Let_def)
  have d: "length d = padded_size ?n" "d \<noteq> []" "take ?n d = tm_data m" using pad ne by (auto simp: d_def)
  have "\<exists>p'. tar_feed ?p1 (d @ rest) = (p', Inl (Panicked ''slice index starts at {} but ends at {}''))"
  proof -
    have "min (min (length (d @ rest)) (padded_size ?n)) (?n - length ([] :: bytes)) = ?n" using d(1) pad by simp
    moreover have "take ?n (d @ rest) = tm_data m" using d(1,3) pad by simp
    moreover have "padded_size ?n - min (length (d @ rest)) (padded_size ?n) = 0" using d(1) by simp
    ultimately show ?thesis using d(2) by (simp add: tar_feed_def feed_tar_def st feed_pax_def Let_def pax)
  qed
  then obtain p' where p': "tar_feed ?p1 (d @ rest) = (p', Inl (Panicked ''slice index starts at {} but ends at {}''))" ..
  have dne: "d @ rest \<noteq> []" using d(2) by simp
  have run: "feed_to_parser tar_feed add tar_new b (concat cs) 0 = Some (p', b, Inl (Panicked ''slice index starts at {} but ends at {}''))"
    using run_metadata_header [OF tar_clean_new assms(1) meta assms(3), of add b "d @ rest" 0]
      feed_to_parser_steps(1) [where feed = tar_feed, OF dne p', of add b "0 + BLOCK_SIZE"] assms(11)
    by (simp add: tar_member_bytes_def d_def)
  from tar.chunks_run [OF tar_inv_new run] show ?thesis by simp
qed

definition overflow_member :: tar_member where
  "overflow_member =
     \<lparr>tm_name = ascii ''x'', tm_prefix = [], tm_mode = 0, tm_uid = 0, tm_gid = 0, tm_mtime = 0,
      tm_type = of_char (CHR ''x''), tm_link = [], tm_uname = [], tm_gname = [],
      tm_data = pax_line 2 (pax_body ''comment'' []) @ print_digits 10 20 18446744073709551615 @ [32]\<rparr>"

theorem pax_length_overflow_panics_witness:
  "\<exists>p'. feed_chunks tar_feed (\<lambda>b e. b @ [e]) tar_new [] [tar_member_bytes overflow_member] =
    Some (p', [], Inl (Panicked ''slice index starts at {} but ends at {}''))"
proof -
  have data: "tm_data overflow_member = concat (map (\<lambda>(w, body). pax_line w body) [(2, pax_body ''comment'' [])]) @
      print_digits 10 20 18446744073709551615 @ 32 # []"
    by (simp add: overflow_member_def)
  have len: "length (concat (map (\<lambda>(w, body). pax_line w body) [(2, pax_body ''comment'' [])])) = 12"
    by (simp add: pax_line_def pax_body_def)
  have "length (tm_data overflow_member) = 33" using data len by simp
  moreover from this have "tar_header_ok overflow_member"
    by (simp add: tar_header_ok_def) (simp add: overflow_member_def text_ok_def)
  ultimately show ?thesis
    using pax_length_overflow_panics [of overflow_member "[(2, pax_body ''comment'' [])]" 20 18446744073709551615 "[]"
        "[tar_member_bytes overflow_member]" "[]" "\<lambda>b e. b @ [e]" "[]"] data len
    by (simp add: MAX_METADATA_SIZE_def) (simp add: overflow_member_def from_byte_def pax_body_def)
qed

text \<open>
  C9. A flaw: a PAX size within 511 of \<open>2 ^ 64\<close> is accepted, though the same size in the header
  itself is refused; the entry carries it and the parser looks for the next header right where
  the member's data begins, because the padded size wraps to 0.
\<close>

theorem pax_size_skips_nothing:
  assumes "tar_member_ok m" and "tar_clean off (p\<lparr>tp_pax_size := None\<rparr>)"
    and "tp_pax_size p = Some sz" and "2 ^ 64 - 512 < sz" and "sz < 2 ^ 64"
  shows "\<exists>p' e. tar_feed p (tar_header_bytes m @ rest) = (p', Inr (BLOCK_SIZE, Entry e)) \<and>
    ae_size e = sz \<and> tp_state p' = TReadingHeader"
proof -
  note clean = assms(2) [unfolded tar_clean_def] and wrap = padded_size_wraps [OF assms(4,5)]
  have len: "length (tar_header_bytes m) = BLOCK_SIZE"
    using length_tar_parts(3) [OF tar_member_header_ok [OF assms(1)]] by (simp add: BLOCK_SIZE_def)
  have ne: "tar_header_bytes m \<noteq> []" using len by (auto simp: BLOCK_SIZE_def)
  let ?p = "p\<lparr>tp_header_buf := tar_header_bytes m, tp_stream_pos := off + BLOCK_SIZE, tp_header_pos := 0\<rparr>"
  have "feed_tar p (tar_header_bytes m @ rest) = process_header ?p BLOCK_SIZE"
    using clean header_not_zero [OF tar_member_header_ok [OF assms(1)]] fill_header_block [OF _ len, of p rest] ne
    by (simp add: feed_tar_def tar_feed_header_def)
  moreover have meta: "\<not> is_metadata (te_type (tar_member_entry (off + BLOCK_SIZE) m))"
    using assms(1) by (simp add: tar_member_ok_def tar_member_entry_def)
  moreover have "\<exists>p' e. process_header ?p BLOCK_SIZE = (p', Inr (BLOCK_SIZE, Entry e)) \<and>
      te_size e = sz \<and> tp_state p' = TReadingHeader"
    using clean meta wrap tar_parse_header_written [OF tar_member_header_ok [OF assms(1)]] assms(3)
    by (cases "te_type (tar_member_entry (off + BLOCK_SIZE) m)")
       (simp_all add: process_header_def apply_pending_def is_metadata_def tar_member_entry_def Let_def)
  ultimately show ?thesis by (auto simp: tar_feed_def tar_entry_into_def)
qed

theorem pax_size_skips_nothing_witness:
  "\<exists>p' e. tar_feed (tar_new\<lparr>tp_pax_size := Some 18446744073709551615\<rparr>)
      (tar_header_bytes demo_member @ tm_data demo_member) = (p', Inr (BLOCK_SIZE, Entry e)) \<and>
    ae_size e = 18446744073709551615 \<and> tp_state p' = TReadingHeader"
  using pax_size_skips_nothing [OF demo_member_ok, of 0 "tar_new\<lparr>tp_pax_size := Some 18446744073709551615\<rparr>"
      18446744073709551615 "tm_data demo_member"] tar_clean_new
  by (simp add: tar_clean_def)

text \<open>
  C10. A flaw: a metadata member of size 0 (an extended or global header, a long name or link without
  data) makes the driving loop drop the rest of the chunk it stands in. The parser needs a call to see
  that nothing is left of the member, that call takes no byte, and the loop stops; the parser then
  takes the next chunk for the next header. After an empty extended or global header the end of
  the stream is accepted too, so an archive handed over in one chunk loses all its other members
  without an error.
\<close>

theorem empty_metadata_drops_chunk:
  assumes "tar_clean pos p" and "tar_header_ok m" and "is_metadata (from_byte (tm_type m))" and "tm_data m = []"
    and "d \<noteq> []"
  shows "\<exists>p'. feed_to_parser tar_feed add p b (tar_member_bytes m @ d) off = Some (p', b, Inr (off + length (tar_member_bytes m), False)) \<and>
    tp_state p' = TReadingHeader \<and> tp_stream_pos p' = pos + length (tar_member_bytes m) \<and>
    (from_byte (tm_type m) \<in> {PaxExtended, PaxGlobal} \<longrightarrow> tar_end_of_stream p' = Inr ())"
proof -
  note clean = assms(1) [unfolded tar_clean_def]
  let ?p1 = "p\<lparr>tp_header_buf := tar_header_bytes m, tp_stream_pos := pos + BLOCK_SIZE, tp_state := metadata_state m\<rparr>"
  have pad: "padded_size 0 = 0" by (simp add: padded_size_def blocks_for_size_def BLOCK_SIZE_def)
  have bytes: "tar_member_bytes m = tar_header_bytes m" "length (tar_header_bytes m) = BLOCK_SIZE"
    using length_tar_parts(3) [OF assms(2)] assms(4) by (simp_all add: tar_member_bytes_def pad BLOCK_SIZE_def)
  have pax: "parse_pax_data q [] = (q, Inr ())" for q by (simp add: parse_pax_data_def parse_pax_from.simps)
  have "\<exists>p'. tar_feed ?p1 d = (p', Inr (0, NeedData)) \<and> tp_state p' = TReadingHeader \<and>
      tp_stream_pos p' = pos + BLOCK_SIZE \<and> tp_header_pos p' = 0 \<and>
      (from_byte (tm_type m) \<in> {PaxExtended, PaxGlobal} \<longrightarrow> tar_end_of_stream p' = Inr ())"
    using assms(3-5) clean pax
    by (cases "from_byte (tm_type m)")
      (simp_all add: is_metadata_def metadata_state_def pad tar_feed_def feed_tar_def feed_pax_def feed_gnu_long_def
        tar_feed_skip_def Let_def tar_end_of_stream_def)
  then obtain p' where p': "tar_feed ?p1 d = (p', Inr (0, NeedData))" "tp_state p' = TReadingHeader"
    "tp_stream_pos p' = pos + BLOCK_SIZE" "from_byte (tm_type m) \<in> {PaxExtended, PaxGlobal} \<longrightarrow> tar_end_of_stream p' = Inr ()"
    by blast
  have "feed_to_parser tar_feed add p b (tar_member_bytes m @ d) off = Some (p', b, Inr (off + BLOCK_SIZE, False))"
    using run_metadata_header [OF assms(1-3), of add b d off] assms(4)
      feed_to_parser_steps(3) [where feed = tar_feed, OF assms(5) p'(1), of add b "off + BLOCK_SIZE"] bytes
    by simp
  then show ?thesis using p' bytes by (intro exI [of _ p']) simp
qed

definition empty_pax_member :: tar_member where
  "empty_pax_member = demo_member\<lparr>tm_type := of_char (CHR ''x''), tm_data := []\<rparr>"

theorem empty_metadata_drops_chunk_witness:
  "\<exists>p'. feed_to_parser tar_feed (\<lambda>b e. b @ [e]) tar_new [] (tar_member_bytes empty_pax_member @ tar_archive_bytes [demo_member]) 0 =
     Some (p', [], Inr (length (tar_member_bytes empty_pax_member), False)) \<and> tar_end_of_stream p' = Inr ()"
proof -
  have t: "from_byte (tm_type empty_pax_member) = PaxExtended" "tm_data empty_pax_member = []"
    by (simp_all add: empty_pax_member_def from_byte_def)
  have ok: "tar_header_ok empty_pax_member"
    by (simp add: tar_header_ok_def) (simp add: empty_pax_member_def demo_member_def text_ok_def)
  have ne: "tar_archive_bytes [demo_member] \<noteq> []" by (simp add: tar_archive_bytes_def)
  have "is_metadata (from_byte (tm_type empty_pax_member))" using t by (simp add: is_metadata_def)
  from empty_metadata_drops_chunk [OF tar_clean_new ok this t(2) ne, of "\<lambda>b e. b @ [e]" "[]" 0] t(1)
  show ?thesis by auto
qed

end
