(* ===== verification/ArWriter.thy ===== *)
theory ArWriter
  imports ArParser
begin

text \<open>
  The GNU variant of the ar format from the writer's side: the global header, the long-name table
  and members with short or long names. Whatever such a writer produces, cut into chunks in any
  way, is parsed back into its members.
\<close>

section \<open>Numbers\<close>

text \<open>A number without leading zeros.\<close>

fun show_num :: "nat \<Rightarrow> nat \<Rightarrow> bytes" where
  "show_num radix n =
     (if n < radix \<or> radix < 2 then [digit_char n] else show_num radix (n div radix) @ [digit_char (n mod radix)])"

declare show_num.simps [simp del]

lemma show_num_nonempty [simp]: "show_num radix n \<noteq> []"
  by (subst show_num.simps) simp

lemma set_show_num: "2 \<le> radix \<Longrightarrow> b \<in> set (show_num radix n) \<Longrightarrow> \<exists>d<radix. b = digit_char d"
proof (induction radix n rule: show_num.induct)
  case (1 radix n)
  then show ?case
    by (subst (asm) (2) show_num.simps) (auto split: if_splits intro: exI [of _ "n mod radix"])
qed

lemma parse_show_num:
  assumes "2 \<le> radix" and "radix \<le> 16"
  shows "n < 2 ^ 64 \<Longrightarrow> parse_digits radix (show_num radix n) 0 = Some n"
  using assms
proof (induction radix n rule: show_num.induct)
  case (1 radix n)
  show ?case
  proof (cases "n < radix")
    case True
    with 1 show ?thesis by (subst show_num.simps) (simp add: to_digit_digit_char)
  next
    case False
    have "n div radix < 2 ^ 64"
      using 1(2) by (rule le_less_trans [OF div_le_dividend])
    with 1 False have "parse_digits radix (show_num radix (n div radix)) 0 = Some (n div radix)" by simp
    moreover have "to_digit radix (digit_char (n mod radix)) = Some (n mod radix)"
      using 1 by (intro to_digit_digit_char) auto
    ultimately show ?thesis
      using 1(2,3) False by (subst show_num.simps) (simp add: parse_digits_append)
  qed
qed

lemma show_num_chars:
  assumes "b \<in> set (show_num radix n)" and "radix = 8 \<or> radix = 10"
  shows "b \<noteq> 32" "b < 0x80" "b \<noteq> 43" "b \<noteq> 45" "is_ascii_digit b"
proof -
  have "2 \<le> radix" using assms(2) by auto
  from set_show_num [OF this assms(1)] obtain d where "d < radix" "b = digit_char d" by auto
  then have "d \<in> {0,1,2,3,4,5,6,7,8,9}" "b = digit_char d" using assms(2) by auto
  then show "b \<noteq> 32" "b < 0x80" "b \<noteq> 43" "b \<noteq> 45" "is_ascii_digit b"
    by (auto simp: digit_char_def is_ascii_digit_def)
qed

lemma from_str_radix_show_num:
  assumes "radix = 8 \<or> radix = 10" and "n < 2 ^ 64"
  shows "from_str_radix radix (show_num radix n) = Some n"
proof -
  have "hd (show_num radix n) \<in> set (show_num radix n)" by simp
  note show_num_chars(3,4) [OF this assms(1)]
  moreover have "parse_digits radix (show_num radix n) 0 = Some n"
    using assms by (intro parse_show_num) auto
  ultimately show ?thesis
    by (cases "show_num radix n" rule: remdups_adj.cases) (auto simp: from_str_radix_def)
qed

definition pad_spaces :: "nat \<Rightarrow> bytes \<Rightarrow> bytes" where
  "pad_spaces w s = s @ replicate (w - length s) 32"

lemma length_pad_spaces [simp]: "length s \<le> w \<Longrightarrow> length (pad_spaces w s) = w"
  by (simp add: pad_spaces_def)

lemma trim_pad_spaces: "s = [] \<or> last s \<noteq> 32 \<Longrightarrow> trim_end 32 (pad_spaces w s) = s"
  by (simp add: pad_spaces_def trim_end_append_replicate trim_end_id)

lemma parse_padded_num:
  assumes "radix = 8 \<or> radix = 10" and "n < 2 ^ 64"
  shows "parse_field (pad_spaces w (show_num radix n)) radix = Inr n"
proof -
  have "last (show_num radix n) \<in> set (show_num radix n)" by simp
  then have "last (show_num radix n) \<noteq> 32" using show_num_chars(1) assms(1) by blast
  moreover have "utf8_valid (pad_spaces w (show_num radix n))"
    using assms(1) by (intro ascii_utf8_valid) (auto simp: pad_spaces_def dest: show_num_chars(2))
  ultimately show ?thesis
    using assms by (simp add: parse_field_def trim_pad_spaces from_str_radix_show_num)
qed

section \<open>The writer\<close>

record ar_member =
  am_name :: bytes
  am_mtime :: nat
  am_uid :: nat
  am_gid :: nat
  am_mode :: nat
  am_data :: bytes

definition is_short :: "bytes \<Rightarrow> bool" where
  "is_short name \<longleftrightarrow> length name \<le> 15 \<and> of_char (CHR ''/'') \<notin> set name"

definition table_line :: "bytes \<Rightarrow> bytes" where
  "table_line name = name @ [of_char (CHR ''/''), 10]"

definition long_table :: "ar_member list \<Rightarrow> bytes" where
  "long_table ms = concat (map (\<lambda>m. if is_short (am_name m) then [] else table_line (am_name m)) ms)"

definition ar_header_bytes :: "bytes \<Rightarrow> bytes \<Rightarrow> bytes \<Rightarrow> bytes \<Rightarrow> bytes \<Rightarrow> nat \<Rightarrow> bytes" where
  "ar_header_bytes name mtime uid gid mode sz =
     pad_spaces 16 name @ pad_spaces 12 mtime @ pad_spaces 6 uid @ pad_spaces 6 gid @
     pad_spaces 8 mode @ pad_spaces 10 (show_num 10 sz) @ FMAG"

text \<open>Member data is padded to an even length with a newline.\<close>

definition ar_body :: "bytes \<Rightarrow> bytes" where
  "ar_body d = d @ replicate (length d mod 2) 10"

definition ar_table_bytes :: "bytes \<Rightarrow> bytes" where
  "ar_table_bytes t = (if t = [] then [] else ar_header_bytes (ascii ''//'') [] [] [] [] (length t) @ ar_body t)"

text \<open>The name field of a member, whose long name, if it has one, stands at \<open>off\<close> in the table.\<close>

definition name_field :: "nat \<Rightarrow> ar_member \<Rightarrow> bytes" where
  "name_field off m = (if is_short (am_name m) then am_name m @ ascii ''/'' else ascii ''/'' @ show_num 10 off)"

definition ar_member_header_bytes :: "nat \<Rightarrow> ar_member \<Rightarrow> bytes" where
  "ar_member_header_bytes off m =
     ar_header_bytes (name_field off m) (show_num 10 (am_mtime m)) (show_num 10 (am_uid m))
       (show_num 10 (am_gid m)) (show_num 8 (am_mode m)) (length (am_data m))"

fun ar_members_bytes :: "nat \<Rightarrow> ar_member list \<Rightarrow> bytes" where
  "ar_members_bytes off [] = []"
| "ar_members_bytes off (m # ms) =
     ar_member_header_bytes off m @ ar_body (am_data m) @ ar_members_bytes (off + length (long_table [m])) ms"

definition ar_archive_bytes :: "ar_member list \<Rightarrow> bytes" where
  "ar_archive_bytes ms = AR_MAGIC @ ar_table_bytes (long_table ms) @ ar_members_bytes 0 ms"

text \<open>
  What a writer can express. A short name may not look like a BSD name field or a symbol table.
\<close>

definition ar_member_ok :: "ar_member \<Rightarrow> bool" where
  "ar_member_ok m \<longleftrightarrow>
     am_name m \<noteq> [] \<and> utf8_valid (am_name m) \<and> 0 \<notin> set (am_name m) \<and> 10 \<notin> set (am_name m) \<and>
     am_name m \<noteq> ascii ''#1'' \<and> take 9 (am_name m) \<noteq> ascii ''__.SYMDEF'' \<and>
     length (show_num 10 (am_mtime m)) \<le> 12 \<and> length (show_num 10 (am_uid m)) \<le> 6 \<and>
     length (show_num 10 (am_gid m)) \<le> 6 \<and> length (show_num 8 (am_mode m)) \<le> 8 \<and>
     length (show_num 10 (length (am_data m))) \<le> 10 \<and>
     am_mtime m < 2 ^ 64 \<and> am_uid m < 2 ^ 64 \<and> am_gid m < 2 ^ 64 \<and> am_mode m < 4096 \<and>
     length (am_data m) < 2 ^ 63"

definition ar_archive_ok :: "ar_member list \<Rightarrow> bool" where
  "ar_archive_ok ms \<longleftrightarrow> list_all ar_member_ok ms \<and> length (long_table ms) < 10 ^ 7"

definition ar_member_entry :: "nat \<Rightarrow> ar_member \<Rightarrow> archive_entry" where
  "ar_member_entry pos m =
     \<lparr>ae_path = am_name m, ae_size = length (am_data m), ae_type = Regular, ae_mode = am_mode m,
      ae_uid = am_uid m, ae_gid = am_gid m, ae_mtime = am_mtime m, ae_link_target = None,
      ae_data_offset = pos\<rparr>"

text \<open>The entries of members laid out one after the other from \<open>pos\<close> on.\<close>

fun ar_entries_at :: "nat \<Rightarrow> ar_member list \<Rightarrow> archive_entry list" where
  "ar_entries_at pos [] = []"
| "ar_entries_at pos (m # ms) =
     ar_member_entry (pos + 60) m # ar_entries_at (pos + 60 + length (ar_body (am_data m))) ms"

section \<open>One header\<close>

lemma length_show_num_less: "n < 10 ^ w \<Longrightarrow> 0 < w \<Longrightarrow> length (show_num 10 n) \<le> w"
proof (induction w arbitrary: n)
  case (Suc w)
  show ?case
  proof (cases "n < 10")
    case True
    then show ?thesis by (subst show_num.simps) simp
  next
    case False
    with Suc.prems have "0 < w" by (cases w) simp_all
    have "n div 10 < 10 ^ w" using Suc.prems(1) by (simp add: less_mult_imp_div_less mult.commute)
    from Suc.IH [OF this \<open>0 < w\<close>] False show ?thesis by (subst show_num.simps) simp
  qed
qed simp

lemma ar_header_fields:
  assumes "length name \<le> 16" "length mt \<le> 12" "length uid \<le> 6" "length gid \<le> 6" "length mode \<le> 8"
    "length (show_num 10 sz) \<le> 10"
  shows "length (ar_header_bytes name mt uid gid mode sz) = 60"
    "subslice 58 60 (ar_header_bytes name mt uid gid mode sz) = FMAG"
    "take 16 (ar_header_bytes name mt uid gid mode sz) = pad_spaces 16 name"
    "subslice 16 28 (ar_header_bytes name mt uid gid mode sz) = pad_spaces 12 mt"
    "subslice 28 34 (ar_header_bytes name mt uid gid mode sz) = pad_spaces 6 uid"
    "subslice 34 40 (ar_header_bytes name mt uid gid mode sz) = pad_spaces 6 gid"
    "subslice 40 48 (ar_header_bytes name mt uid gid mode sz) = pad_spaces 8 mode"
    "subslice 48 58 (ar_header_bytes name mt uid gid mode sz) = pad_spaces 10 (show_num 10 sz)"
  using assms by (simp_all add: ar_header_bytes_def FMAG_def slice_simps)

lemma name_field_props:
  assumes "ar_member_ok m" and "off < 10 ^ 7"
  shows "length (name_field off m) \<le> 16" "trim_end 32 (pad_spaces 16 (name_field off m)) = name_field off m"
proof -
  have "length (show_num 10 off) \<le> 7" using assms(2) by (intro length_show_num_less) auto
  then show "length (name_field off m) \<le> 16" by (simp add: name_field_def is_short_def)
  have "last (show_num 10 off) \<noteq> 32" using show_num_chars(1) [of "last (show_num 10 off)" 10 off] by simp
  then show "trim_end 32 (pad_spaces 16 (name_field off m)) = name_field off m"
    by (intro trim_pad_spaces) (simp add: name_field_def)
qed

definition member_header :: "nat \<Rightarrow> ar_member \<Rightarrow> ar_header" where
  "member_header off m =
     \<lparr>ah_name = name_field off m, ah_mtime = am_mtime m, ah_uid = am_uid m, ah_gid = am_gid m,
      ah_mode = am_mode m, ah_size = length (am_data m)\<rparr>"

lemma ar_parse_member_header:
  assumes "ar_member_ok m" and "off < 10 ^ 7"
  shows "ar_parse_header (ar_member_header_bytes off m) = Inr (member_header off m)"
    "length (ar_member_header_bytes off m) = 60"
proof -
  note ok = assms(1) [unfolded ar_member_ok_def] and np = name_field_props [OF assms]
  have len: "length (show_num 10 (length (am_data m))) \<le> 10" using ok by blast
  note f = ar_header_fields [OF np(1) _ _ _ _ len, of "show_num 10 (am_mtime m)"
      "show_num 10 (am_uid m)" "show_num 10 (am_gid m)" "show_num 8 (am_mode m)"]
  show "length (ar_member_header_bytes off m) = 60"
    using ok f(1) by (simp add: ar_member_header_bytes_def)
  show "ar_parse_header (ar_member_header_bytes off m) = Inr (member_header off m)"
    using ok f np(2)
    by (simp add: ar_parse_header_def ar_member_header_bytes_def AR_HEADER_SIZE_def parse_padded_num
        member_header_def)
qed

section \<open>Names\<close>

lemma of_char_slash [simp]: "of_char (CHR ''/'') = (47 :: byte)"
  by simp

lemma lookup_table_line:
  assumes "ap_name_table p = Some (pre @ table_line name @ post)" and "length pre = off"
    and "name \<noteq> []" and "0 \<notin> set name" and "10 \<notin> set name" and "utf8_valid name"
  shows "lookup_long_name p off = Inr name"
proof -
  have "drop off (pre @ table_line name @ post) = table_line name @ post" using assms(2) by simp
  moreover have "takeWhile (\<lambda>b. \<not> (b = 10 \<or> b = 0)) (table_line name @ post) = name @ ascii ''/''"
  proof -
    have "takeWhile (\<lambda>b. \<not> (b = 10 \<or> b = 0)) ((name @ [47]) @ (10 # post)) = name @ [47]"
      using assms(4,5) by (subst takeWhile_append2) auto
    then show ?thesis by (simp add: table_line_def)
  qed
  ultimately show ?thesis
    using assms by (simp add: lookup_long_name_def strip_one_end_def from_utf8_lossy_valid)
qed

lemma short_name_prefix:
  assumes "of_char (CHR ''/'') \<notin> set name" and "name \<noteq> []" and "take (length pre) (name @ [47]) = pre"
    and "pre \<noteq> []" and "last pre \<noteq> 47"
  shows "take (length pre) name = pre"
proof (cases "length pre \<le> length name")
  case True
  with assms(3) show ?thesis by simp
next
  case False
  then have "pre = name @ [47]" using assms(3) by simp
  with assms(5) show ?thesis by simp
qed

lemma classify_short:
  assumes "ar_member_ok m" and "is_short (am_name m)"
  shows "ar_classify p (member_header off m) = Inr (Named (am_name m))"
proof -
  note ok = assms(1) [unfolded ar_member_ok_def] and sl = assms(2) [unfolded is_short_def]
  let ?n = "am_name m"
  have hd: "hd ?n \<noteq> 47" using ok sl by (metis hd_in_set of_char_slash)
  have a: "?n @ ascii ''/'' \<noteq> ascii ''//''" using ok sl by (auto simp: append_eq_Cons_conv)
  have b: "strip_prefix (ascii ''/'') (?n @ ascii ''/'') = None"
    using hd ok by (cases ?n) (auto simp: strip_prefix_def)
  have c: "strip_prefix (ascii ''#1/'') (?n @ ascii ''/'') = None"
  proof -
    have "take 3 (?n @ [47]) \<noteq> [35, 49, 47]"
    proof
      assume t: "take 3 (?n @ [47]) = [35, 49, 47]"
      show False
      proof (cases "length ?n \<ge> 3")
        case True
        with t have "take 3 ?n = [35, 49, 47]" by simp
        then have "47 \<in> set ?n" by (metis in_set_takeD list.set_intros(1) set_subset_Cons subsetD)
        with sl show False by simp
      next
        case False
        with t have "?n = [35, 49]" by (cases ?n rule: rev_cases) auto
        with ok show False by simp
      qed
    qed
    then show ?thesis by (simp add: strip_prefix_def eval_nat_numeral)
  qed
  have d: "strip_prefix (ascii ''__.SYMDEF'') (?n @ ascii ''/'') = None"
  proof -
    have len: "length (ascii ''__.SYMDEF'') = 9" by simp
    have "take (length (ascii ''__.SYMDEF'')) (?n @ [47]) \<noteq> ascii ''__.SYMDEF''"
    proof
      assume "take (length (ascii ''__.SYMDEF'')) (?n @ [47]) = ascii ''__.SYMDEF''"
      from short_name_prefix [OF _ _ this] ok sl have "take (length (ascii ''__.SYMDEF'')) ?n = ascii ''__.SYMDEF''"
        by simp
      with ok show False unfolding len by simp
    qed
    then show ?thesis by (simp add: strip_prefix_def)
  qed
  have e: "strip_one_end (of_char (CHR ''/'')) (?n @ ascii ''/'') = ?n"
    by (simp add: strip_one_end_def)
  show ?thesis
    unfolding ar_classify_def Let_def
    using assms(2) ok a b c d e
    by (simp add: member_header_def name_field_def from_utf8_lossy_valid del: ascii_Cons)
qed

lemma classify_long:
  assumes "ar_member_ok m" and "\<not> is_short (am_name m)"
    and "ap_name_table p = Some (pre @ table_line (am_name m) @ post)" and "length pre = off" and "off < 2 ^ 64"
  shows "ar_classify p (member_header off m) = Inr (Named (am_name m))"
proof -
  note ok = assms(1) [unfolded ar_member_ok_def]
  have "hd (show_num 10 off) \<in> set (show_num 10 off)" by simp
  then have hd: "hd (show_num 10 off) \<noteq> 47" using show_num_chars(5) by (fastforce simp: is_ascii_digit_def)
  have a: "ascii ''/'' @ show_num 10 off \<noteq> ascii ''//''" using hd by (auto simp: Cons_eq_append_conv)
  have b: "strip_prefix (ascii ''/'') (ascii ''/'' @ show_num 10 off) = Some (show_num 10 off)"
    by (simp add: strip_prefix_def)
  have "parse_name_number (show_num 10 off) = Some off"
    using assms(5) by (auto simp: parse_name_number_def list_all_iff from_str_radix_show_num dest: show_num_chars(5))
  moreover have "lookup_long_name p off = Inr (am_name m)"
    using lookup_table_line [OF assms(3,4)] ok by blast
  ultimately show ?thesis
    using assms(2) a b by (simp add: ar_classify_def member_header_def name_field_def)
qed

section \<open>A whole archive\<close>

definition ar_clean :: "nat \<Rightarrow> bytes option \<Rightarrow> ar_parser \<Rightarrow> bool" where
  "ar_clean pos t p \<longleftrightarrow> ap_state p = AReadingHeader \<and> ap_header_buf p = [] \<and> ap_stream_pos p = pos \<and>
     ap_name_table p = t"

lemma feed_header_block:
  assumes "ar_clean pos t p" and "length h = 60"
  shows "ar_feed p (h @ rest) = ar_member_header (p\<lparr>ap_header_buf := h, ap_stream_pos := pos + 60\<rparr>) 60"
proof -
  have "h \<noteq> []" using assms(2) by auto
  with assms show ?thesis
    by (simp add: ar_feed_def ar_clean_def ar_feed_header_def fill_header_buf_def AR_HEADER_SIZE_def)
qed

text \<open>Skipping a member's data and padding.\<close>

lemma run_ar_body:
  assumes "p1 = ar_skip p (length d) (length d mod 2)" and "ar_clean pos t (p\<lparr>ap_state := AReadingHeader\<rparr>)"
  shows "\<exists>p2. ar_clean (pos + length (ar_body d)) t p2 \<and>
    feed_to_parser ar_feed add p1 b (ar_body d @ rest) off =
    feed_to_parser ar_feed add p2 b rest (off + length (ar_body d))"
proof (cases "d = []")
  case True
  with assms have "ar_clean pos t p1" by (simp add: ar_skip_def)
  with True show ?thesis by (auto simp: ar_body_def)
next
  case False
  define n where "n = length (ar_body d)"
  have n: "n = length d + length d mod 2" "0 < n" using False by (simp_all add: n_def ar_body_def)
  let ?p2 = "p1\<lparr>ap_stream_pos := ap_stream_pos p1 + n, ap_state := AReadingHeader\<rparr>"
  have ne: "ar_body d @ rest \<noteq> []" using False by (simp add: ar_body_def)
  have "ap_state p1 = ASkippingData n (length d mod 2)"
    using n by (simp add: assms(1) ar_skip_def Let_def)
  then have "ar_feed p1 (ar_body d @ rest) = (?p2, Inr (n, NeedData))"
    using ne by (simp add: ar_feed_def ar_feed_skip_def Let_def n_def [symmetric] del: append_is_Nil_conv)
  from feed_to_parser_steps(4) [where feed = ar_feed, OF ne this n(2), of add b off]
  have "feed_to_parser ar_feed add p1 b (ar_body d @ rest) off = feed_to_parser ar_feed add ?p2 b rest (off + n)"
    by (simp add: n_def)
  moreover have "ar_clean (pos + n) t ?p2"
    using assms by (simp add: ar_clean_def ar_skip_def Let_def)
  ultimately show ?thesis unfolding n_def by blast
qed

lemma run_ar_member:
  assumes "ar_clean pos t p" and "ar_member_ok m" and "off0 < 10 ^ 7"
    and "\<And>q. ap_name_table q = t \<Longrightarrow> ar_classify q (member_header off0 m) = Inr (Named (am_name m))"
  shows "\<exists>p2. ar_clean (pos + 60 + length (ar_body (am_data m))) t p2 \<and>
    feed_to_parser ar_feed add p b (ar_member_header_bytes off0 m @ ar_body (am_data m) @ rest) off =
    feed_to_parser ar_feed add p2 (add b (ar_member_entry (pos + 60) m)) rest
      (off + 60 + length (ar_body (am_data m)))"
proof -
  let ?h = "ar_member_header_bytes off0 m"
  note hdr = ar_parse_member_header [OF assms(2,3)]
  let ?q = "p\<lparr>ap_stream_pos := pos + 60, ap_header_buf := []\<rparr>"
  let ?p1 = "ar_skip ?q (length (am_data m)) (length (am_data m) mod 2)"
  have ne: "?h @ ar_body (am_data m) @ rest \<noteq> []" using hdr(2) by auto
  have mode: "am_mode m < 4096" using assms(2) by (simp add: ar_member_ok_def)
  have "ar_feed p (?h @ ar_body (am_data m) @ rest) =
      (?p1, Inr (60, Entry (ar_member_entry (pos + 60) m)))"
    using feed_header_block [OF assms(1) hdr(2), of "ar_body (am_data m) @ rest"] assms(1,4) mode
    by (simp add: ar_member_header_def hdr(1) ar_clean_def ar_entry_def ar_member_entry_def)
       (simp add: member_header_def)
  from feed_to_parser_steps(2) [where feed = ar_feed, OF ne this, of add b off]
  have "feed_to_parser ar_feed add p b (?h @ ar_body (am_data m) @ rest) off =
      feed_to_parser ar_feed add ?p1 (add b (ar_member_entry (pos + 60) m)) (ar_body (am_data m) @ rest) (off + 60)"
    by (simp add: hdr(2))
  moreover have "ar_clean (pos + 60) t (?q\<lparr>ap_state := AReadingHeader\<rparr>)"
    using assms(1) by (simp add: ar_clean_def)
  ultimately show ?thesis using run_ar_body [OF refl, of "pos + 60" t ?q] by metis
qed

lemma classify_member:
  assumes "ar_member_ok m" and "pre @ long_table [m] @ post = T" and "length T < 10 ^ 7"
    and "t = (if T = [] then None else Some T)" and "ap_name_table q = t"
  shows "ar_classify q (member_header (length pre) m) = Inr (Named (am_name m))"
proof (cases "is_short (am_name m)")
  case True
  with classify_short [OF assms(1)] show ?thesis by blast
next
  case False
  with assms(2) have T: "pre @ table_line (am_name m) @ post = T" by (simp add: long_table_def)
  have "T \<noteq> []" unfolding T [symmetric] by (simp add: table_line_def)
  with assms(4,5) T have "ap_name_table q = Some (pre @ table_line (am_name m) @ post)" by simp
  moreover have "length pre < 2 ^ 64" using assms(3) T [symmetric] by simp
  ultimately show ?thesis using classify_long [OF assms(1) False _ refl] by blast
qed

lemma run_ar_members:
  assumes "ar_clean pos t p" and "list_all ar_member_ok ms" and "pre @ long_table ms @ post = T"
    and "length T < 10 ^ 7" and "t = (if T = [] then None else Some T)"
  shows "\<exists>p2. ar_clean (pos + length (ar_members_bytes (length pre) ms)) t p2 \<and>
    feed_to_parser ar_feed add p b (ar_members_bytes (length pre) ms @ rest) off =
    feed_to_parser ar_feed add p2 (foldl add b (ar_entries_at pos ms)) rest
      (off + length (ar_members_bytes (length pre) ms))"
  using assms
proof (induction ms arbitrary: pos p pre b off)
  case (Cons m ms)
  have m: "ar_member_ok m" and ms: "list_all ar_member_ok ms" using Cons.prems(2) by simp_all
  have lt: "long_table (m # ms) = long_table [m] @ long_table ms" by (simp add: long_table_def)
  have T1: "pre @ long_table [m] @ (long_table ms @ post) = T" using Cons.prems(3) lt by simp
  have T2: "(pre @ long_table [m]) @ long_table ms @ post = T" using T1 by simp
  have off: "length pre < 10 ^ 7" using Cons.prems(4) T1 [symmetric] by simp
  have hl: "length (ar_member_header_bytes (length pre) m) = 60" by (rule ar_parse_member_header(2) [OF m off])
  let ?rest = "ar_members_bytes (length (pre @ long_table [m])) ms @ rest"
  obtain p1 where p1: "ar_clean (pos + 60 + length (ar_body (am_data m))) t p1"
    "feed_to_parser ar_feed add p b (ar_member_header_bytes (length pre) m @ ar_body (am_data m) @ ?rest) off =
     feed_to_parser ar_feed add p1 (add b (ar_member_entry (pos + 60) m)) ?rest
       (off + 60 + length (ar_body (am_data m)))"
    using run_ar_member [OF Cons.prems(1) m off classify_member [OF m T1 Cons.prems(4,5)], of add b ?rest off]
    by blast
  from Cons.IH [OF p1(1) ms T2 Cons.prems(4,5), of "add b (ar_member_entry (pos + 60) m)"
      "off + 60 + length (ar_body (am_data m))"] p1(2) hl
  show ?case by (auto simp: add.assoc)
qed auto

text \<open>The global header and the name table.\<close>

lemma run_ar_magic:
  "\<exists>p2. ar_clean 8 None p2 \<and>
    feed_to_parser ar_feed add ar_new b (AR_MAGIC @ rest) 0 = feed_to_parser ar_feed add p2 b rest 8"
proof -
  let ?p2 = "ar_new\<lparr>ap_stream_pos := 8, ap_state := AReadingHeader\<rparr>"
  have "ar_feed ar_new (AR_MAGIC @ rest) = (?p2, Inr (8, NeedData))"
    by (simp add: ar_feed_def ar_new_def feed_magic_def fill_header_buf_def AR_MAGIC_simp THIN_MAGIC_simp Let_def)
  from feed_to_parser_steps(4) [where feed = ar_feed, OF _ this, of add b 0]
  have "feed_to_parser ar_feed add ar_new b (AR_MAGIC @ rest) 0 = feed_to_parser ar_feed add ?p2 b rest 8"
    by (simp add: AR_MAGIC_simp)
  moreover have "ar_clean 8 None ?p2" by (simp add: ar_clean_def ar_new_def)
  ultimately show ?thesis by blast
qed

lemma parse_blank_field: "parse_field (pad_spaces w []) radix = Inr 0"
proof -
  have "utf8_valid (pad_spaces w [])" by (rule ascii_utf8_valid) (simp add: pad_spaces_def)
  then show ?thesis by (simp add: parse_field_def trim_pad_spaces)
qed

lemma run_ar_table:
  assumes "ar_clean pos None p" and "length T < 10 ^ 7"
  shows "\<exists>p2. ar_clean (pos + length (ar_table_bytes T)) (if T = [] then None else Some T) p2 \<and>
    feed_to_parser ar_feed add p b (ar_table_bytes T @ rest) off =
    feed_to_parser ar_feed add p2 b rest (off + length (ar_table_bytes T))"
proof (cases "T = []")
  case True
  with assms(1) show ?thesis by (auto simp: ar_table_bytes_def)
next
  case False
  let ?h = "ar_header_bytes ([47, 47]) [] [] [] [] (length T)"
  have len: "length (show_num 10 (length T)) \<le> 10"
    using assms(2) length_show_num_less [of "length T" 7] by simp
  note f = ar_header_fields [OF _ _ _ _ _ len, of "[47, 47]" "[]" "[]" "[]" "[]"]
  have small: "length T < 18446744073709551616" using assms(2) by simp
  have nm: "trim_end 32 (pad_spaces 16 [47, 47]) = [47, 47]" by (rule trim_pad_spaces) simp
  have parse: "ar_parse_header ?h = Inr \<lparr>ah_name = [47, 47], ah_mtime = 0, ah_uid = 0, ah_gid = 0, ah_mode = 0,
      ah_size = length T\<rparr>"
    using f small nm by (simp add: ar_parse_header_def AR_HEADER_SIZE_def parse_blank_field parse_padded_num)
  have hl: "length ?h = 60" using f(1) by simp
  let ?p1 = "p\<lparr>ap_stream_pos := pos + 60, ap_header_buf := [],
    ap_state := AReadingNameTable (length T) (length T mod 2) []\<rparr>"
  have max: "length T \<le> MAX_NAME_TABLE_SIZE" using assms(2) by (simp add: MAX_NAME_TABLE_SIZE_def)
  have "ar_feed p (?h @ ar_body T @ rest) = (?p1, Inr (60, NeedData))"
    using feed_header_block [OF assms(1) hl, of "ar_body T @ rest"] max assms(1)
    by (simp add: ar_member_header_def parse ar_classify_def ar_clean_def)
  moreover have "?h \<noteq> []" using hl by auto
  ultimately have step1: "feed_to_parser ar_feed add p b (?h @ ar_body T @ rest) off =
      feed_to_parser ar_feed add ?p1 b (ar_body T @ rest) (off + 60)"
    using feed_to_parser_steps(4) [where feed = ar_feed and p = p and k = 60 and d = "?h @ ar_body T @ rest"
      and add = add and b = b] hl by simp
  let ?p2 = "ar_skip (?p1\<lparr>ap_stream_pos := pos + 60 + length T, ap_name_table := Some T\<rparr>) 0 (length T mod 2)"
  let ?pad = "replicate (length T mod 2) 10 :: bytes"
  have "ar_feed ?p1 (T @ ?pad @ rest) = (?p2, Inr (length T, NeedData))"
    using False by (simp add: ar_feed_def feed_name_table_def Let_def)
  from feed_to_parser_steps(4) [where feed = ar_feed, OF _ this, of add b "off + 60"] False
  have step2: "feed_to_parser ar_feed add ?p1 b (T @ ?pad @ rest) (off + 60) =
      feed_to_parser ar_feed add ?p2 b (?pad @ rest) (off + 60 + length T)" by simp
  have total: "length (ar_table_bytes T) = 60 + length T + length T mod 2"
    using False hl by (simp add: ar_table_bytes_def ar_body_def)
  have "\<exists>p3. ar_clean (pos + length (ar_table_bytes T)) (Some T) p3 \<and>
    feed_to_parser ar_feed add ?p2 b (?pad @ rest) (off + 60 + length T) =
    feed_to_parser ar_feed add p3 b rest (off + length (ar_table_bytes T))"
  proof (cases "length T mod 2 = 0")
    case True
    then show ?thesis
      using assms(1) by (intro exI [of _ ?p2]) (simp add: total ar_clean_def ar_skip_def add.assoc)
  next
    case odd: False
    then have one: "length T mod 2 = 1" by simp
    let ?p3 = "?p2\<lparr>ap_stream_pos := pos + 60 + length T + 1, ap_state := AReadingHeader\<rparr>"
    have "ar_feed ?p2 (?pad @ rest) = (?p3, Inr (1, NeedData))"
      by (simp add: one ar_feed_def ar_feed_skip_def ar_skip_def Let_def)
    from feed_to_parser_steps(4) [where feed = ar_feed, OF _ this, of add b "off + 60 + length T"]
    have "feed_to_parser ar_feed add ?p2 b (?pad @ rest) (off + 60 + length T) =
        feed_to_parser ar_feed add ?p3 b rest (off + length (ar_table_bytes T))"
      by (simp add: one total ac_simps)
    moreover have "ar_clean (pos + length (ar_table_bytes T)) (Some T) ?p3"
      using assms(1) by (simp add: total one ar_clean_def ar_skip_def)
    ultimately show ?thesis by blast
  qed
  with step1 step2 False show ?thesis by (simp add: ar_table_bytes_def ar_body_def)
qed

lemma run_ar_archive:
  assumes "ar_archive_ok ms"
  shows "\<exists>p. feed_to_parser ar_feed add ar_new b (ar_archive_bytes ms) 0 =
      Some (p, foldl add b (ar_entries_at (8 + length (ar_table_bytes (long_table ms))) ms),
        Inr (length (ar_archive_bytes ms), False)) \<and>
    ar_end_of_stream p = Inr ()"
proof -
  let ?T = "long_table ms"
  have ok: "list_all ar_member_ok ms" "length ?T < 10 ^ 7" using assms by (simp_all add: ar_archive_ok_def)
  obtain p1 where p1: "ar_clean 8 None p1"
    "feed_to_parser ar_feed add ar_new b (ar_archive_bytes ms) 0 =
     feed_to_parser ar_feed add p1 b (ar_table_bytes ?T @ ar_members_bytes 0 ms) 8"
    using run_ar_magic [of add b "ar_table_bytes ?T @ ar_members_bytes 0 ms"] unfolding ar_archive_bytes_def by blast
  obtain p2 where p2: "ar_clean (8 + length (ar_table_bytes ?T)) (if ?T = [] then None else Some ?T) p2"
    "feed_to_parser ar_feed add p1 b (ar_table_bytes ?T @ ar_members_bytes 0 ms) 8 =
     feed_to_parser ar_feed add p2 b (ar_members_bytes 0 ms) (8 + length (ar_table_bytes ?T))"
    using run_ar_table [OF p1(1) ok(2), of add b "ar_members_bytes 0 ms" 8] by blast
  have T: "[] @ ?T @ [] = ?T" by simp
  obtain p3 where p3: "ar_clean (8 + length (ar_table_bytes ?T) + length (ar_members_bytes 0 ms))
      (if ?T = [] then None else Some ?T) p3"
    "feed_to_parser ar_feed add p2 b (ar_members_bytes 0 ms) (8 + length (ar_table_bytes ?T)) =
     Some (p3, foldl add b (ar_entries_at (8 + length (ar_table_bytes ?T)) ms),
       Inr (8 + length (ar_table_bytes ?T) + length (ar_members_bytes 0 ms), False))"
    using run_ar_members [OF p2(1) ok(1) T ok(2) refl, of add b "[]" "8 + length (ar_table_bytes ?T)"] by auto
  have "ar_end_of_stream p3 = Inr ()" using p3(1) by (simp add: ar_clean_def ar_end_of_stream_def)
  with p1 p2 p3 show ?thesis by (simp add: ar_archive_bytes_def AR_MAGIC_simp add.assoc)
qed

text \<open>The offsets found point at the data.\<close>

lemma ar_entries_data:
  assumes "list_all ar_member_ok ms" and "i < length ms" and "off0 + length (long_table ms) < 10 ^ 7"
  shows "subslice (ae_data_offset (ar_entries_at (length pre) ms ! i))
      (ae_data_offset (ar_entries_at (length pre) ms ! i) + ae_size (ar_entries_at (length pre) ms ! i))
      (pre @ ar_members_bytes off0 ms) = am_data (ms ! i)"
  using assms
proof (induction ms arbitrary: pre i off0)
  case (Cons m ms)
  have lt: "long_table (m # ms) = long_table [m] @ long_table ms" by (simp add: long_table_def)
  have "off0 < 10 ^ 7" using Cons.prems(3) by simp
  then have hl: "length (ar_member_header_bytes off0 m) = 60"
    using Cons.prems(1) by (intro ar_parse_member_header(2)) simp_all
  show ?case
  proof (cases i)
    case 0
    then show ?thesis using hl by (simp add: ar_member_entry_def ar_body_def subslice_def)
  next
    case (Suc j)
    from Cons.IH [of j "off0 + length (long_table [m])" "pre @ ar_member_header_bytes off0 m @ ar_body (am_data m)"]
      Cons.prems Suc hl lt
    show ?thesis by (simp add: add.assoc)
  qed
qed simp

lemma foldl_snoc: "foldl (\<lambda>b e. b @ [e]) xs ys = xs @ ys"
  by (induction ys arbitrary: xs) auto

section \<open>Properties\<close>

definition demo_ar_members :: "ar_member list" where
  "demo_ar_members =
     [\<lparr>am_name = ascii ''a.o'', am_mtime = 1, am_uid = 0, am_gid = 0, am_mode = 420, am_data = [7]\<rparr>,
      \<lparr>am_name = ascii ''a_rather_long_name.o'', am_mtime = 1, am_uid = 0, am_gid = 0, am_mode = 420, am_data = [8, 9]\<rparr>]"

lemma demo_ar_ok: "ar_archive_ok demo_ar_members"
proof -
  have num: "show_num 10 0 = [48]" "show_num 10 1 = [49]" "show_num 10 2 = [50]" "show_num 8 420 = [54, 52, 52]"
    "show_num 10 (Suc 0) = [49]" "show_num 10 (Suc (Suc 0)) = [50]"
    by (simp_all add: show_num.simps digit_char_def)
  show ?thesis
    by (simp add: ar_archive_ok_def demo_ar_members_def ar_member_ok_def num long_table_def is_short_def table_line_def)
qed

text \<open>
  C15. Any archive a GNU ar writer produces, with short names and a long-name table, handed to
  the parser in chunks cut anywhere, is parsed into exactly its members, in order and with their
  names and metadata; the parser accepts its end, and every entry's offset and size delimit the
  member's data.
\<close>

theorem ar_archive_roundtrip:
  assumes "ar_archive_ok ms" and "concat cs = ar_archive_bytes ms"
  shows "let es = ar_entries_at (8 + length (ar_table_bytes (long_table ms))) ms in
    (\<exists>p. feed_chunks ar_feed add ar_new b cs = Some (p, foldl add b es, Inr False) \<and>
       ar_end_of_stream p = Inr ()) \<and>
    (\<forall>i<length ms. subslice (ae_data_offset (es ! i)) (ae_data_offset (es ! i) + ae_size (es ! i)) (concat cs) =
       am_data (ms ! i))"
proof -
  let ?pre = "AR_MAGIC @ ar_table_bytes (long_table ms)"
  let ?es = "ar_entries_at (8 + length (ar_table_bytes (long_table ms))) ms"
  have len: "length ?pre = 8 + length (ar_table_bytes (long_table ms))" by (simp add: AR_MAGIC_simp)
  obtain p where p: "feed_to_parser ar_feed add ar_new b (concat cs) 0 =
      Some (p, foldl add b ?es, Inr (length (concat cs), False))" "ar_end_of_stream p = Inr ()"
    using run_ar_archive [OF assms(1), of add b] assms(2) by auto
  from ar.chunks_run [OF ar_inv_new p(1)] p(2)
  have "\<exists>p. feed_chunks ar_feed add ar_new b cs = Some (p, foldl add b ?es, Inr False) \<and> ar_end_of_stream p = Inr ()"
    by auto
  moreover have "subslice (ae_data_offset (?es ! i)) (ae_data_offset (?es ! i) + ae_size (?es ! i)) (concat cs) = am_data (ms ! i)"
    if "i < length ms" for i
    using ar_entries_data [of ms i 0 ?pre] assms that unfolding len
    by (simp add: ar_archive_ok_def ar_archive_bytes_def)
  ultimately show ?thesis by (simp add: Let_def)
qed

theorem ar_archive_roundtrip_witness:
  "\<exists>p. feed_chunks ar_feed (\<lambda>b e. b @ [e]) ar_new []
      [take 70 (ar_archive_bytes demo_ar_members), drop 70 (ar_archive_bytes demo_ar_members)] =
    Some (p, ar_entries_at (8 + length (ar_table_bytes (long_table demo_ar_members))) demo_ar_members, Inr False)"
  using ar_archive_roundtrip [where ms = demo_ar_members and add = "\<lambda>b e. b @ [e]" and b = "[]"
      and cs = "[take 70 (ar_archive_bytes demo_ar_members), drop 70 (ar_archive_bytes demo_ar_members)]"]
    demo_ar_ok
  by (auto simp: Let_def foldl_snoc)

text \<open>
  C16. The ar parser does not depend on how the stream is cut into chunks, for every stream that one piece
  is parsed to an error or to the end of. The condition is needed: in a \<^verbatim>\<open>//\<close> member of size 0 the parser
  takes no byte and asks for more, and the rest of the chunk it is in is dropped.
\<close>

theorem ar_chunking_irrelevant:
  assumes "feed_to_parser ar_feed add ar_new b (concat cs) 0 = Some (p', b', r)"
    and "\<forall>off. r = Inr (off, False) \<longrightarrow> off = length (concat cs)"
  shows "feed_chunks ar_feed add ar_new b cs = Some (p', b', map_sum id snd r)"
  using ar.chunks_run [OF ar_inv_new assms(1)] assms(2) by blast

theorem ar_chunking_irrelevant_witness:
  "feed_chunks ar_feed (\<lambda>b e. b @ [e]) ar_new [] [[33], [], [60, 97]] =
   Some (ar_new\<lparr>ap_header_buf := [33, 60, 97], ap_stream_pos := 3\<rparr>, [], Inr False)"
proof -
  have step: "ar_feed ar_new [33, 60, 97] = (ar_new\<lparr>ap_header_buf := [33, 60, 97], ap_stream_pos := 3\<rparr>, Inr (3, NeedData))"
    by (simp add: ar_feed_def feed_magic_def fill_header_buf_def ar_new_def AR_MAGIC_simp)
  have "feed_to_parser ar_feed (\<lambda>b e. b @ [e]) ar_new [] (concat [[33], [], [60, 97]]) 0 =
    Some (ar_new\<lparr>ap_header_buf := [33, 60, 97], ap_stream_pos := 3\<rparr>, [], Inr (3, False))"
    using feed_to_parser_steps(4) [where feed = ar_feed and add = "\<lambda>b e. b @ [e]" and b = "[]", OF _ step] by simp
  from ar_chunking_irrelevant [OF this] show ?thesis by simp
qed

end
