(* ===== verification/CpioLinks.thy ===== *)
theory CpioLinks
  imports CpioParser
begin

text \<open>
  What the hard-link policy of the cpio parser promises over a whole archive: every member comes
  out exactly once, unchanged but for becoming a link; every link names a data-bearing member of
  the same inode; and that member has come out before it. \<open>policy_run\<close> and \<open>policy_output\<close> are the
  specification of what the parser puts out; \<open>CpioWriter\<close> shows that \<open>cpio_feed\<close> puts out just that.
\<close>

section \<open>Running the policy\<close>

type_synonym policy_member = "archive_entry \<times> inode_key \<times> nat"

text \<open>
  The members of an archive through the policy; what it queues comes out before the next member,
  as \<open>cpio_feed\<close> does it. At the trailer the deferred members are flushed.
\<close>

fun policy_run :: "cpio_parser \<Rightarrow> policy_member list \<Rightarrow> cpio_parser \<times> archive_entry list" where
  "policy_run p [] = (p, [])"
| "policy_run p ((e, inode, nlink) # ms) =
     (let (p, now) = apply_hardlink_policy p e inode nlink;
          out = (case now of Some e \<Rightarrow> [e] | None \<Rightarrow> []) @ cp_pending p;
          (p, rest) = policy_run (p\<lparr>cp_pending := []\<rparr>) ms
      in (p, out @ rest))"

definition policy_output :: "policy_member list \<Rightarrow> archive_entry list" where
  "policy_output ms =
     (case policy_run cpio_new ms of (p, out) \<Rightarrow> out @ concat (map snd (cp_deferred_links p)))"

text \<open>A member with what the policy may change left out.\<close>

definition unlink :: "archive_entry \<Rightarrow> archive_entry" where
  "unlink e = e\<lparr>ae_type := Regular, ae_link_target := None\<rparr>"

lemma unlink_as_hard_link [simp]: "unlink (as_hard_link path e) = unlink e"
  by (simp add: unlink_def as_hard_link_def)

lemma mode_never_hard_link: "entry_type_from_mode mode \<noteq> HardLink"
  by (simp add: entry_type_from_mode_def Let_def)

section \<open>The invariant\<close>

definition member_seen :: "policy_member list \<Rightarrow> archive_entry \<Rightarrow> inode_key \<Rightarrow> bool" where
  "member_seen past e i \<longleftrightarrow> (\<exists>n. (e, i, n) \<in> set past)"

text \<open>\<open>d\<close> has come out, carries data and has inode \<open>i\<close>.\<close>

definition data_seen :: "policy_member list \<Rightarrow> archive_entry list \<Rightarrow> inode_key \<Rightarrow> archive_entry \<Rightarrow> bool" where
  "data_seen past before i d \<longleftrightarrow>
     d \<in> set before \<and> member_seen past d i \<and> ae_size d > 0 \<and> ae_type d = Regular"

text \<open>An output that is a link names an earlier output with data and the same inode.\<close>

definition link_ok :: "policy_member list \<Rightarrow> archive_entry list \<Rightarrow> archive_entry \<Rightarrow> bool" where
  "link_ok past before e \<longleftrightarrow> ae_type e = HardLink \<longrightarrow>
     (\<exists>d e0 i. data_seen past before i d \<and> member_seen past e0 i \<and> unlink e0 = unlink e \<and>
        ae_link_target e = Some (ae_path d))"

definition links_ok :: "policy_member list \<Rightarrow> archive_entry list \<Rightarrow> bool" where
  "links_ok past out \<longleftrightarrow> (\<forall>k<length out. link_ok past (take k out) (out ! k))"

definition resolved_ok :: "(inode_key \<rightharpoonup> bytes) \<Rightarrow> policy_member list \<Rightarrow> archive_entry list \<Rightarrow> bool" where
  "resolved_ok res past out \<longleftrightarrow>
     (\<forall>i path. res i = Some path \<longrightarrow> (\<exists>d. data_seen past out i d \<and> ae_path d = path))"

definition deferred_ok :: "(inode_key \<times> archive_entry list) list \<Rightarrow> policy_member list \<Rightarrow> bool" where
  "deferred_ok t past \<longleftrightarrow>
     (\<forall>i es. (i, es) \<in> set t \<longrightarrow> (\<forall>e \<in> set es. ae_type e = Regular \<and> member_seen past e i))"

definition policy_inv :: "cpio_parser \<Rightarrow> policy_member list \<Rightarrow> archive_entry list \<Rightarrow> bool" where
  "policy_inv p past out \<longleftrightarrow>
     cp_pending p = [] \<and>
     mset (map unlink out) + mset (map unlink (concat (map snd (cp_deferred_links p)))) =
       mset (map (\<lambda>(e, _, _). unlink e) past) \<and>
     resolved_ok (cp_resolved_inodes p) past out \<and> deferred_ok (cp_deferred_links p) past \<and>
     links_ok past out"

lemma policy_inv_parts:
  assumes "policy_inv p past out"
  shows "cp_pending p = []"
    "mset (map unlink out) + mset (map unlink (concat (map snd (cp_deferred_links p)))) =
       mset (map (\<lambda>(e, _, _). unlink e) past)"
    "resolved_ok (cp_resolved_inodes p) past out" "deferred_ok (cp_deferred_links p) past"
    "links_ok past out"
  using assms unfolding policy_inv_def by blast+

lemma member_seen_snoc [simp]:
  "member_seen (past @ [(e, i, n)]) e' i' \<longleftrightarrow> member_seen past e' i' \<or> e' = e \<and> i' = i"
  by (auto simp: member_seen_def)

lemma data_seen_mono:
  "data_seen past out i d \<Longrightarrow> set past \<subseteq> set past' \<Longrightarrow> set out \<subseteq> set out' \<Longrightarrow> data_seen past' out' i d"
  unfolding data_seen_def member_seen_def by blast

lemma resolved_ok_mono:
  "resolved_ok res past out \<Longrightarrow> set past \<subseteq> set past' \<Longrightarrow> set out \<subseteq> set out' \<Longrightarrow> resolved_ok res past' out'"
  unfolding resolved_ok_def using data_seen_mono by meson

lemma deferred_ok_mono: "deferred_ok t past \<Longrightarrow> set past \<subseteq> set past' \<Longrightarrow> deferred_ok t past'"
  unfolding deferred_ok_def member_seen_def by blast

lemma link_ok_mono:
  assumes "link_ok past before e" and "set past \<subseteq> set past'" and "set before \<subseteq> set before'"
  shows "link_ok past' before' e"
  unfolding link_ok_def
proof
  assume "ae_type e = HardLink"
  with assms(1) obtain d e0 i where "data_seen past before i d" "member_seen past e0 i"
    "unlink e0 = unlink e" "ae_link_target e = Some (ae_path d)" unfolding link_ok_def by blast
  moreover from this(2) assms(2) have "member_seen past' e0 i" unfolding member_seen_def by blast
  ultimately show "\<exists>d e0 i. data_seen past' before' i d \<and> member_seen past' e0 i \<and> unlink e0 = unlink e \<and>
      ae_link_target e = Some (ae_path d)"
    using data_seen_mono [OF _ assms(2,3)] by blast
qed

lemma links_ok_append:
  assumes "links_ok past out" and "set past \<subseteq> set past'"
    and "\<And>e. e \<in> set new \<Longrightarrow> link_ok past' out e"
  shows "links_ok past' (out @ new)"
  unfolding links_ok_def
proof (intro allI impI)
  fix k assume k: "k < length (out @ new)"
  show "link_ok past' (take k (out @ new)) ((out @ new) ! k)"
  proof (cases "k < length out")
    case True
    with assms(1) have "link_ok past (take k out) (out ! k)" by (simp add: links_ok_def)
    with assms(2) True show ?thesis by (auto simp: nth_append intro: link_ok_mono)
  next
    case False
    with k have "(out @ new) ! k \<in> set new" by (simp add: nth_append)
    from assms(3) [OF this] False show ?thesis by (auto intro: link_ok_mono)
  qed
qed

text \<open>The data member first, then the links to it.\<close>

lemma links_ok_group:
  assumes "links_ok past out" and "set past \<subseteq> set past'" and "ae_type d \<noteq> HardLink"
    and "\<And>e. e \<in> set new \<Longrightarrow> link_ok past' (out @ [d]) e"
  shows "links_ok past' (out @ d # new)"
proof -
  have "links_ok past' (out @ [d])"
    using assms(1,2) by (rule links_ok_append) (use assms(3) in \<open>simp add: link_ok_def\<close>)
  from links_ok_append [OF this order_refl assms(4)] show ?thesis by simp
qed

lemma mset_unlink_push:
  "mset (map unlink (concat (map snd (btree_push i e t)))) =
   add_mset (unlink e) (mset (map unlink (concat (map snd t))))"
  by (induction i e t rule: btree_push.induct) auto

lemma set_btree_push:
  "(j, es) \<in> set (btree_push i e t) \<Longrightarrow> x \<in> set es \<Longrightarrow>
   j = i \<and> x = e \<or> (\<exists>es'. (j, es') \<in> set t \<and> x \<in> set es')"
  by (induction i e t rule: btree_push.induct) (auto split: if_splits)

lemma mset_unlink_remove:
  "btree_remove i t = (found, t') \<Longrightarrow>
   mset (map unlink (concat (map snd t))) =
   mset (map unlink (case found of Some es \<Rightarrow> es | None \<Rightarrow> [])) + mset (map unlink (concat (map snd t')))"
  by (induction t arbitrary: found t') (auto split: if_splits prod.splits option.splits)

lemma set_btree_remove:
  "btree_remove i t = (found, t') \<Longrightarrow> set t' \<subseteq> set t \<and> (\<forall>es. found = Some es \<longrightarrow> (i, es) \<in> set t)"
  by (induction t arbitrary: found t') (auto split: if_splits prod.splits, (blast+)?)

text \<open>One member keeps the invariant, whichever of the four cases it is.\<close>

lemma policy_inv_direct:
  assumes "policy_inv p past out" and "ae_type e \<noteq> HardLink"
  shows "policy_inv p (past @ [(e, i, n)]) (out @ [e])"
proof -
  note inv = policy_inv_parts [OF assms(1)]
  have "links_ok (past @ [(e, i, n)]) (out @ [e])"
    by (rule links_ok_append [OF inv(5)]) (use assms(2) in \<open>auto simp: link_ok_def\<close>)
  moreover have "resolved_ok (cp_resolved_inodes p) (past @ [(e, i, n)]) (out @ [e])"
    by (rule resolved_ok_mono [OF inv(3)]) auto
  moreover have "deferred_ok (cp_deferred_links p) (past @ [(e, i, n)])"
    by (rule deferred_ok_mono [OF inv(4)]) auto
  ultimately show ?thesis using inv(1,2) by (simp add: policy_inv_def)
qed

lemma policy_inv_data:
  assumes inv: "policy_inv p past out" and reg: "ae_type e = Regular" and data: "ae_size e > 0"
    and rm: "btree_remove i (cp_deferred_links p) = (found, rest)"
    and new: "new = map (as_hard_link (ae_path e)) (case found of Some es \<Rightarrow> es | None \<Rightarrow> [])"
    and p': "p' = p\<lparr>cp_resolved_inodes := (cp_resolved_inodes p)(i \<mapsto> ae_path e), cp_deferred_links := rest\<rparr>"
  shows "policy_inv p' (past @ [(e, i, n)]) (out @ e # new)"
proof -
  let ?past = "past @ [(e, i, n)]"
  note i = policy_inv_parts [OF inv]
  have here: "data_seen ?past (out @ [e]) i e" using reg data by (simp add: data_seen_def)
  have "links_ok ?past (out @ e # new)"
  proof (rule links_ok_group [OF i(5)])
    fix x assume "x \<in> set new"
    then obtain es x0 where x: "found = Some es" "x0 \<in> set es" "x = as_hard_link (ae_path e) x0"
      using new by (auto split: option.splits)
    have "(i, es) \<in> set (cp_deferred_links p)" using set_btree_remove [OF rm] x(1) by blast
    then have "member_seen ?past x0 i" using i(4) x(2) unfolding deferred_ok_def by fastforce
    with here x(3) show "link_ok ?past (out @ [e]) x"
      unfolding link_ok_def
      by (intro impI exI [of _ e] exI [of _ x0] exI [of _ i])
         (simp add: as_hard_link_def unlink_def)
  qed (use reg in auto)
  moreover have "mset (map unlink new) = mset (map unlink (case found of Some es \<Rightarrow> es | None \<Rightarrow> []))"
    unfolding new by (simp add: comp_def)
  moreover have "resolved_ok ((cp_resolved_inodes p)(i \<mapsto> ae_path e)) ?past (out @ e # new)"
    unfolding resolved_ok_def
  proof (intro allI impI)
    fix j path assume j: "((cp_resolved_inodes p)(i \<mapsto> ae_path e)) j = Some path"
    show "\<exists>d. data_seen ?past (out @ e # new) j d \<and> ae_path d = path"
    proof (cases "j = i")
      case True
      have "data_seen ?past (out @ e # new) i e" using here by (rule data_seen_mono) auto
      with True j show ?thesis by auto
    next
      case False
      with j i(3) obtain d where "data_seen past out j d" "ae_path d = path"
        unfolding resolved_ok_def by (metis fun_upd_apply)
      moreover from this(1) have "data_seen ?past (out @ e # new) j d" by (rule data_seen_mono) auto
      ultimately show ?thesis by blast
    qed
  qed
  moreover have "deferred_ok rest ?past"
  proof (rule deferred_ok_mono)
    show "deferred_ok rest past"
      using i(4) set_btree_remove [OF rm] unfolding deferred_ok_def by blast
  qed auto
  ultimately show ?thesis
    using i(1,2) mset_unlink_remove [OF rm] unfolding policy_inv_def p' by (simp add: ac_simps)
qed

lemma policy_inv_late:
  assumes inv: "policy_inv p past out" and res: "cp_resolved_inodes p i = Some path"
  shows "policy_inv p (past @ [(e, i, n)]) (out @ [as_hard_link path e])"
proof -
  let ?past = "past @ [(e, i, n)]"
  note i = policy_inv_parts [OF inv]
  from i(3) res obtain d where d: "data_seen past out i d" "ae_path d = path"
    unfolding resolved_ok_def by blast
  have "data_seen ?past out i d" using d(1) by (rule data_seen_mono) auto
  with d(2) have "link_ok ?past out (as_hard_link path e)"
    unfolding link_ok_def
    by (intro impI exI [of _ d] exI [of _ e] exI [of _ i]) (simp add: as_hard_link_def unlink_def)
  then have "links_ok ?past (out @ [as_hard_link path e])"
    by (intro links_ok_append [OF i(5)]) auto
  moreover have "resolved_ok (cp_resolved_inodes p) ?past (out @ [as_hard_link path e])"
    by (rule resolved_ok_mono [OF i(3)]) auto
  moreover have "deferred_ok (cp_deferred_links p) ?past"
    by (rule deferred_ok_mono [OF i(4)]) auto
  ultimately show ?thesis using i(1,2) by (simp add: policy_inv_def)
qed

lemma policy_inv_defer:
  assumes inv: "policy_inv p past out" and reg: "ae_type e = Regular"
  shows "policy_inv (p\<lparr>cp_deferred_links := btree_push i e (cp_deferred_links p)\<rparr>) (past @ [(e, i, n)]) out"
proof -
  let ?past = "past @ [(e, i, n)]"
  note i = policy_inv_parts [OF inv]
  have "links_ok ?past out"
    using links_ok_append [OF i(5), of ?past "[]"] by auto
  moreover have "resolved_ok (cp_resolved_inodes p) ?past out"
    by (rule resolved_ok_mono [OF i(3)]) auto
  moreover have "deferred_ok (btree_push i e (cp_deferred_links p)) ?past"
    unfolding deferred_ok_def
  proof (intro allI impI ballI)
    fix j es x assume "(j, es) \<in> set (btree_push i e (cp_deferred_links p))" "x \<in> set es"
    from set_btree_push [OF this] show "ae_type x = Regular \<and> member_seen ?past x j"
      using reg i(4) unfolding deferred_ok_def by fastforce
  qed
  ultimately show ?thesis
    using i(1,2) mset_unlink_push [of i e "cp_deferred_links p"] unfolding policy_inv_def by simp
qed

lemma policy_inv_step:
  assumes inv: "policy_inv p past out" and nh: "ae_type e \<noteq> HardLink"
    and ap: "apply_hardlink_policy p e i n = (p', now)"
  shows "policy_inv (p'\<lparr>cp_pending := []\<rparr>) (past @ [(e, i, n)])
    (out @ (case now of Some e \<Rightarrow> [e] | None \<Rightarrow> []) @ cp_pending p')"
proof -
  have pend: "cp_pending p = []" using inv by (simp add: policy_inv_def)
  then have clr: "p\<lparr>cp_pending := []\<rparr> = p" by simp
  consider (direct) "ae_type e \<noteq> Regular \<or> n \<le> 1" | (data) "ae_type e = Regular" "1 < n" "0 < ae_size e"
    | (late) path where "ae_type e = Regular" "1 < n" "ae_size e = 0" "cp_resolved_inodes p i = Some path"
    | (postpone) "ae_type e = Regular" "1 < n" "ae_size e = 0" "cp_resolved_inodes p i = None"
    by fastforce
  then show ?thesis
  proof cases
    case direct
    with ap have "p' = p" "now = Some e" by (auto simp: apply_hardlink_policy_def)
    with policy_inv_direct [OF inv nh, of i n] pend show ?thesis by (simp add: clr)
  next
    case data
    obtain found rest where rm: "btree_remove i (cp_deferred_links p) = (found, rest)" by fastforce
    define new where "new = map (as_hard_link (ae_path e)) (case found of Some es \<Rightarrow> es | None \<Rightarrow> [])"
    let ?q = "p\<lparr>cp_resolved_inodes := (cp_resolved_inodes p)(i \<mapsto> ae_path e), cp_deferred_links := rest\<rparr>"
    have "now = Some e" "cp_pending p' = new" "p'\<lparr>cp_pending := []\<rparr> = ?q"
      using ap data rm pend clr
      by (auto simp: apply_hardlink_policy_def Let_def new_def split: option.splits)
    with policy_inv_data [OF inv data(1,3) rm new_def refl, of n] show ?thesis by simp
  next
    case late
    with ap have "p' = p" "now = Some (as_hard_link path e)" by (auto simp: apply_hardlink_policy_def)
    with policy_inv_late [OF inv late(4), of e n] pend show ?thesis by (simp add: clr)
  next
    case postpone
    let ?q = "p\<lparr>cp_deferred_links := btree_push i e (cp_deferred_links p)\<rparr>"
    from postpone ap have "p' = ?q" "now = None" by (auto simp: apply_hardlink_policy_def)
    moreover have "?q\<lparr>cp_pending := []\<rparr> = ?q" "cp_pending ?q = []" using pend by simp_all
    ultimately have "p'\<lparr>cp_pending := []\<rparr> = ?q" "cp_pending p' = []" "now = None" by metis+
    with policy_inv_defer [OF inv postpone(1), of i n] show ?thesis by simp
  qed
qed

lemma policy_run_inv:
  assumes "policy_inv p past out" and "\<forall>(e, i, n) \<in> set ms. ae_type e \<noteq> HardLink"
    and "policy_run p ms = (p', out')"
  shows "policy_inv p' (past @ ms) (out @ out')"
  using assms
proof (induction ms arbitrary: p p' past out out')
  case (Cons m ms)
  obtain e i n where m: "m = (e, i, n)" by (cases m)
  obtain p1 now where ap: "apply_hardlink_policy p e i n = (p1, now)" by fastforce
  obtain p2 rest where run: "policy_run (p1\<lparr>cp_pending := []\<rparr>) ms = (p2, rest)" by fastforce
  let ?new = "(case now of Some e \<Rightarrow> [e] | None \<Rightarrow> []) @ cp_pending p1"
  have "policy_inv (p1\<lparr>cp_pending := []\<rparr>) (past @ [(e, i, n)]) (out @ ?new)"
    using policy_inv_step [OF Cons.prems(1) _ ap] Cons.prems(2) m by simp
  from Cons.IH [OF this _ run] Cons.prems(2,3) m ap run show ?case by simp
qed simp

lemma policy_inv_new: "policy_inv cpio_new [] []"
  by (simp add: policy_inv_def cpio_new_def links_ok_def resolved_ok_def deferred_ok_def)

lemma policy_output_inv:
  assumes "\<forall>(e, i, n) \<in> set ms. ae_type e \<noteq> HardLink"
  shows "mset (map unlink (policy_output ms)) = mset (map (\<lambda>(e, _, _). unlink e) ms) \<and>
    links_ok ms (policy_output ms)"
proof -
  obtain p out where run: "policy_run cpio_new ms = (p, out)" by fastforce
  from policy_run_inv [OF policy_inv_new assms run] have inv: "policy_inv p ms out" by simp
  let ?d = "concat (map snd (cp_deferred_links p))"
  have "\<forall>e \<in> set ?d. ae_type e = Regular" 
    using inv unfolding policy_inv_def deferred_ok_def by fastforce
  then have "links_ok ms (out @ ?d)"
    by (intro links_ok_append [OF policy_inv_parts(5) [OF inv]]) (auto simp: link_ok_def)
  with inv run show ?thesis by (simp add: policy_output_def policy_inv_def)
qed

section \<open>Properties\<close>

text \<open>
  C13. The cpio parser does not depend on how the stream is cut into chunks, for every stream that one
  piece is parsed to an error or to the end of: the error or the end of the archive, the entries and the
  parser's state come out the same for every way of cutting it. The condition is needed: after a newc
  header with a name size of 0 the parser takes no byte and asks for more, and the rest of the chunk it
  is in is dropped.
\<close>

theorem cpio_chunking_irrelevant:
  assumes "feed_to_parser cpio_feed add cpio_new b (concat cs) 0 = Some (p', b', r)"
    and "\<forall>off. r = Inr (off, False) \<longrightarrow> off = length (concat cs)"
  shows "feed_chunks cpio_feed add cpio_new b cs = Some (p', b', map_sum id snd r)"
  using cpio.chunks_run [OF cpio_inv_new assms(1)] assms(2) by blast

theorem cpio_chunking_irrelevant_witness:
  "feed_chunks cpio_feed (\<lambda>b e. b @ [e]) cpio_new [] [[48], [], [55, 48]] =
   Some (cpio_new\<lparr>cp_header_buf := [48, 55, 48], cp_stream_pos := 3\<rparr>, [], Inr False)"
proof -
  have step: "cpio_feed cpio_new [48, 55, 48] =
    (cpio_new\<lparr>cp_header_buf := [48, 55, 48], cp_stream_pos := 3\<rparr>, Inr (3, NeedData))"
    by (simp add: cpio_feed_def cpio_feed_header_def cpio_new_def)
  have "feed_to_parser cpio_feed (\<lambda>b e. b @ [e]) cpio_new [] (concat [[48], [], [55, 48]]) 0 =
    Some (cpio_new\<lparr>cp_header_buf := [48, 55, 48], cp_stream_pos := 3\<rparr>, [], Inr (3, False))"
    using feed_to_parser_steps(4) [where feed = cpio_feed and add = "\<lambda>b e. b @ [e]" and b = "[]", OF _ step]
    by simp
  from cpio_chunking_irrelevant [OF this] show ?thesis by simp
qed

text \<open>
  C14. The loop that drives the cpio parser over a chunk always ends, although entries queued by
  the hard-link policy are delivered without taking any data.
\<close>

theorem cpio_feed_loop_ends:
  assumes "cpio_inv p"
  shows "\<exists>p' b' r. feed_to_parser cpio_feed add p b d off = Some (p', b', r) \<and>
    (case r of Inl e \<Rightarrow> True
     | Inr (off', fin) \<Rightarrow> cpio_inv p' \<and> off \<le> off' \<and> off' \<le> off + length d \<and>
         cp_stream_pos p' + off = cp_stream_pos p + off')"
  using cpio.run_total [OF assms, of add b d off] by (fastforce split: sum.split)

theorem cpio_feed_loop_ends_witness:
  "\<exists>p' b' r. feed_to_parser cpio_feed (\<lambda>b e. b @ [e]) cpio_new [] (replicate 2000 48) 0 = Some (p', b', r)"
  using cpio_feed_loop_ends [OF cpio_inv_new, of "\<lambda>b e. b @ [e]" "[]" "replicate 2000 48" 0] by blast

end
