(* ===== verification/CpioWriter.thy ===== *)
theory CpioWriter
  imports CpioLinks
begin

text \<open>
  The newc, newc-CRC and odc formats from the writer's side: headers, names, data and their padding, and
  the trailer. Whatever such a writer produces, cut into chunks in any way, is parsed back by the parser
  of \<^verbatim>\<open>src/cpio/parser.rs\<close> into what the hard-link policy makes of its members: no member is lost, none
  comes out twice, and every link names a member with data of its inode that has come out before. The
  one exception is an odc archive without a byte after its trailer, which loses links.
\<close>

section \<open>The writer\<close>

record cpio_member =
  cm_name :: bytes
  cm_ino :: nat
  cm_mode :: nat
  cm_uid :: nat
  cm_gid :: nat
  cm_nlink :: nat
  cm_mtime :: nat
  cm_devmajor :: nat
  cm_devminor :: nat
  cm_rdevmajor :: nat
  cm_rdevminor :: nat
  cm_check :: "nat option"
  cm_data :: bytes

abbreviation hex8 :: "nat \<Rightarrow> bytes" where
  "hex8 \<equiv> print_digits 16 8"

text \<open>A member with a checksum has the magic of newc-CRC.\<close>

definition newc_header_bytes :: "cpio_member \<Rightarrow> bytes" where
  "newc_header_bytes m =
     (case cm_check m of None \<Rightarrow> NEWC_MAGIC | Some _ \<Rightarrow> NEWC_CRC_MAGIC) @
     hex8 (cm_ino m) @ hex8 (cm_mode m) @ hex8 (cm_uid m) @ hex8 (cm_gid m) @ hex8 (cm_nlink m) @
     hex8 (cm_mtime m) @ hex8 (length (cm_data m)) @ hex8 (cm_devmajor m) @ hex8 (cm_devminor m) @
     hex8 (cm_rdevmajor m) @ hex8 (cm_rdevminor m) @ hex8 (length (cm_name m) + 1) @
     hex8 (case cm_check m of None \<Rightarrow> 0 | Some c \<Rightarrow> c)"

definition odc_header_bytes :: "cpio_member \<Rightarrow> bytes" where
  "odc_header_bytes m =
     ODC_MAGIC @ print_digits 8 6 (cm_devmajor m * 256 + cm_devminor m) @ print_digits 8 6 (cm_ino m) @
     print_digits 8 6 (cm_mode m) @ print_digits 8 6 (cm_uid m) @ print_digits 8 6 (cm_gid m) @
     print_digits 8 6 (cm_nlink m) @ print_digits 8 6 (cm_rdevmajor m * 256 + cm_rdevminor m) @
     print_digits 8 11 (cm_mtime m) @ print_digits 8 6 (length (cm_name m) + 1) @
     print_digits 8 11 (length (cm_data m))"

text \<open>The format is told by \<open>odc\<close>; newc aligns names and data to four bytes, odc does not.\<close>

definition cpio_header_bytes :: "bool \<Rightarrow> cpio_member \<Rightarrow> bytes" where
  "cpio_header_bytes odc m = (if odc then odc_header_bytes m else newc_header_bytes m)"

definition cpio_header_size :: "bool \<Rightarrow> nat" where
  "cpio_header_size odc = (if odc then 76 else 110)"

definition align_pad :: "bool \<Rightarrow> nat \<Rightarrow> nat" where
  "align_pad odc n = (if odc then 0 else align4 n - n)"

definition cpio_name_bytes :: "bool \<Rightarrow> cpio_member \<Rightarrow> bytes" where
  "cpio_name_bytes odc m =
     cm_name m @ [0] @ replicate (align_pad odc (cpio_header_size odc + (length (cm_name m) + 1))) 0"

definition cpio_data_bytes :: "bool \<Rightarrow> cpio_member \<Rightarrow> bytes" where
  "cpio_data_bytes odc m = cm_data m @ replicate (align_pad odc (length (cm_data m))) 0"

definition cpio_member_bytes :: "bool \<Rightarrow> cpio_member \<Rightarrow> bytes" where
  "cpio_member_bytes odc m = cpio_header_bytes odc m @ cpio_name_bytes odc m @ cpio_data_bytes odc m"

definition cpio_trailer :: cpio_member where
  "cpio_trailer =
     \<lparr>cm_name = TRAILER_NAME, cm_ino = 0, cm_mode = 0, cm_uid = 0, cm_gid = 0, cm_nlink = 1, cm_mtime = 0,
      cm_devmajor = 0, cm_devminor = 0, cm_rdevmajor = 0, cm_rdevminor = 0, cm_check = None, cm_data = []\<rparr>"

text \<open>An archive, with the \<open>k\<close> zero bytes that fill its last block.\<close>

definition cpio_archive_bytes :: "bool \<Rightarrow> cpio_member list \<Rightarrow> nat \<Rightarrow> bytes" where
  "cpio_archive_bytes odc ms k =
     concat (map (cpio_member_bytes odc) ms) @ cpio_member_bytes odc cpio_trailer @ replicate k 0"

text \<open>What a writer can express.\<close>

definition cpio_fields_ok :: "bool \<Rightarrow> cpio_member \<Rightarrow> bool" where
  "cpio_fields_ok odc m \<longleftrightarrow>
     length (cm_name m) < 2 ^ 16 \<and> cm_rdevminor m < 2 ^ 32 \<and> cm_rdevmajor m < 2 ^ 32 \<and>
     (if odc
      then cm_ino m < 8 ^ 6 \<and> cm_mode m < 8 ^ 6 \<and> cm_uid m < 8 ^ 6 \<and> cm_gid m < 8 ^ 6 \<and> cm_nlink m < 8 ^ 6 \<and>
        cm_mtime m < 8 ^ 11 \<and> cm_devmajor m < 2 ^ 10 \<and> cm_devminor m < 2 ^ 8 \<and> cm_rdevmajor m < 2 ^ 10 \<and>
        cm_rdevminor m < 2 ^ 8 \<and> length (cm_data m) < 8 ^ 11
      else cm_ino m < 2 ^ 32 \<and> cm_mode m < 2 ^ 32 \<and> cm_uid m < 2 ^ 32 \<and> cm_gid m < 2 ^ 32 \<and> cm_nlink m < 2 ^ 32 \<and>
        cm_mtime m < 2 ^ 32 \<and> cm_devmajor m < 2 ^ 32 \<and> cm_devminor m < 2 ^ 32 \<and> length (cm_data m) < 2 ^ 32)"

definition is_cpio_symlink :: "cpio_member \<Rightarrow> bool" where
  "is_cpio_symlink m \<longleftrightarrow> entry_type_from_mode (cm_mode m) = SymLink \<and> cm_data m \<noteq> []"

definition cpio_member_ok :: "bool \<Rightarrow> cpio_member \<Rightarrow> bool" where
  "cpio_member_ok odc m \<longleftrightarrow> cpio_fields_ok odc m \<and> utf8_valid (cm_name m) \<and> 0 \<notin> set (cm_name m) \<and>
     cm_name m \<noteq> TRAILER_NAME \<and> (is_cpio_symlink m \<longrightarrow> length (cm_data m) \<le> 2 ^ 16)"

text \<open>The entry of a member that starts at \<open>pos\<close>; the data of a symbolic link is its target.\<close>

definition cpio_data_start :: "bool \<Rightarrow> cpio_member \<Rightarrow> nat" where
  "cpio_data_start odc m = cpio_header_size odc + length (cpio_name_bytes odc m)"

definition cpio_member_entry :: "bool \<Rightarrow> nat \<Rightarrow> cpio_member \<Rightarrow> archive_entry" where
  "cpio_member_entry odc pos m =
     \<lparr>ae_path = cm_name m, ae_size = (if is_cpio_symlink m then 0 else length (cm_data m)),
      ae_type = entry_type_from_mode (cm_mode m), ae_mode = cm_mode m mod 4096, ae_uid = cm_uid m,
      ae_gid = cm_gid m, ae_mtime = cm_mtime m,
      ae_link_target = (if is_cpio_symlink m then Some (from_utf8_lossy (cm_data m)) else None),
      ae_data_offset = pos + cpio_data_start odc m\<rparr>"

definition member_inode :: "cpio_member \<Rightarrow> inode_key" where
  "member_inode m = (cm_devmajor m, cm_devminor m, cm_ino m)"

text \<open>The members of an archive as the hard-link policy sees them.\<close>

fun cpio_members_at :: "bool \<Rightarrow> nat \<Rightarrow> cpio_member list \<Rightarrow> policy_member list" where
  "cpio_members_at odc pos [] = []"
| "cpio_members_at odc pos (m # ms) =
     (cpio_member_entry odc pos m, member_inode m, cm_nlink m) #
     cpio_members_at odc (pos + length (cpio_member_bytes odc m)) ms"

section \<open>One header\<close>

definition cpio_member_header :: "cpio_member \<Rightarrow> cpio_header" where
  "cpio_member_header m =
     \<lparr>ch_ino = cm_ino m, ch_mode = cm_mode m, ch_uid = cm_uid m, ch_gid = cm_gid m, ch_nlink = cm_nlink m,
      ch_mtime = cm_mtime m, ch_filesize = length (cm_data m), ch_devmajor = cm_devmajor m,
      ch_devminor = cm_devminor m, ch_rdevmajor = cm_rdevmajor m, ch_rdevminor = cm_rdevminor m,
      ch_namesize = length (cm_name m) + 1\<rparr>"

lemma set_digits: "2 \<le> radix \<Longrightarrow> b \<in> set (print_digits radix w n) \<Longrightarrow> \<exists>d<radix. b = digit_char d"
proof (induction w arbitrary: n)
  case (Suc w)
  have "n mod radix < radix" using Suc.prems(1) by simp
  moreover from Suc.prems(2) have "b \<in> set (print_digits radix w (n div radix)) \<or> b = digit_char (n mod radix)" by auto
  ultimately show ?case using Suc.IH [OF Suc.prems(1)] by blast
qed simp

lemma digits_chars:
  assumes "b \<in> set (print_digits radix w n)" and "radix = 8 \<or> radix = 16"
  shows "b < 0x80" "b \<noteq> 43"
proof -
  from set_digits [OF _ assms(1)] assms(2) obtain d where "d < radix" "b = digit_char d" by auto
  with assms(2) have d: "d < 16" "b = digit_char d" by auto
  then show "b < 0x80" by (simp add: digit_char_ascii)
  from d show "b \<noteq> 43" by (auto simp: digit_char_def word_unat_eq_iff unat_of_nat split: if_splits)
qed

lemma from_str_radix_digits:
  assumes "1 < w" and "n < radix ^ w" and "n < 2 ^ 64" and "radix = 8 \<or> radix = 16"
  shows "from_str_radix radix (print_digits radix w n) = Some n"
proof -
  have pd: "parse_digits radix (print_digits radix w n) 0 = Some n" using assms by (intro parse_print_digits) auto
  have l: "length (print_digits radix w n) = w" by simp
  have ne: "print_digits radix w n \<noteq> []" using l assms(1) by (metis list.size(3) not_one_less_zero)
  then have "hd (print_digits radix w n) \<noteq> 43" by (rule digits_chars(2) [OF hd_in_set assms(4)])
  with pd l ne show ?thesis using assms(1)
    by (cases "print_digits radix w n" rule: remdups_adj.cases) (auto simp: from_str_radix_def)
qed

lemma digits_utf8: "radix = 8 \<or> radix = 16 \<Longrightarrow> utf8_valid (print_digits radix w n)"
  by (rule ascii_utf8_valid) (auto dest: digits_chars(1))

lemma parse_hex8_print: "n < 2 ^ 32 \<Longrightarrow> parse_hex8 (hex8 n) = Inr n"
  using from_str_radix_digits [of 8 n 16] digits_utf8 [of 16 8 n] by (simp add: parse_hex8_def)

lemma cpio_parse_octal_print: "1 < w \<Longrightarrow> n < 8 ^ w \<Longrightarrow> n < 2 ^ 64 \<Longrightarrow> cpio_parse_octal (print_digits 8 w n) = Inr n"
  using from_str_radix_digits [of w n 8] digits_utf8 [of 8 w n] by (simp add: cpio_parse_octal_def)

lemma length_magics [simp]: "length NEWC_MAGIC = 6" "length NEWC_CRC_MAGIC = 6" "length ODC_MAGIC = 6"
  by (simp_all add: NEWC_MAGIC_def NEWC_CRC_MAGIC_def ODC_MAGIC_def)

lemma length_cpio_header [simp]: "length (cpio_header_bytes odc m) = cpio_header_size odc"
  by (simp add: cpio_header_bytes_def newc_header_bytes_def odc_header_bytes_def cpio_header_size_def split: option.split)

definition cpio_magic :: "bool \<Rightarrow> cpio_member \<Rightarrow> bytes" where
  "cpio_magic odc m = (if odc then ODC_MAGIC else case cm_check m of None \<Rightarrow> NEWC_MAGIC | Some _ \<Rightarrow> NEWC_CRC_MAGIC)"

lemma take_cpio_header: "take 6 (cpio_header_bytes odc m) = cpio_magic odc m"
  by (simp add: cpio_header_bytes_def newc_header_bytes_def odc_header_bytes_def cpio_magic_def split: option.split)

lemma parse_newc:
  assumes "cpio_fields_ok False m"
  shows "parse_newc_header (newc_header_bytes m) = Inr (cpio_member_header m)"
proof -
  have "length (case cm_check m of None \<Rightarrow> NEWC_MAGIC | Some _ \<Rightarrow> NEWC_CRC_MAGIC) = 6" by (simp split: option.split)
  then show ?thesis
    using assms by (simp add: parse_newc_header_def newc_header_bytes_def NEWC_HEADER_SIZE_def slice_simps
        cpio_fields_ok_def parse_hex8_print cpio_member_header_def del: print_digits.simps)
qed

lemma parse_odc:
  assumes "cpio_fields_ok True m"
  shows "parse_odc_header (odc_header_bytes m) = Inr (cpio_member_header m)"
  using assms by (simp add: parse_odc_header_def odc_header_bytes_def ODC_HEADER_SIZE_def slice_simps
      cpio_fields_ok_def cpio_parse_octal_print cpio_member_header_def Let_def del: print_digits.simps)

lemma header_fits:
  "cpio_fields_ok odc m \<Longrightarrow> ch_namesize (cpio_member_header m) \<le> CPIO_MAX_NAME_SIZE"
  by (simp add: cpio_fields_ok_def cpio_member_header_def CPIO_MAX_NAME_SIZE_def)

section \<open>Members\<close>

text \<open>Between two members, and in the middle of one, once the format is known.\<close>

definition format_known :: "bool \<Rightarrow> cpio_parser \<Rightarrow> bool" where
  "format_known odc p \<longleftrightarrow> cp_sub_format p \<in> (if odc then {Some Odc} else {Some Newc, Some NewcCrc})"

definition cpio_clean :: "bool \<Rightarrow> nat \<Rightarrow> cpio_parser \<Rightarrow> bool" where
  "cpio_clean odc pos p \<longleftrightarrow> cp_state p = CReadingHeader \<and> cp_header_buf p = [] \<and> cp_stream_pos p = pos \<and>
     cp_pending p = [] \<and> (cp_sub_format p = None \<or> format_known odc p)"

definition in_member :: "bool \<Rightarrow> nat \<Rightarrow> cpio_parser \<Rightarrow> bool" where
  "in_member odc pos p \<longleftrightarrow> cp_header_buf p = [] \<and> cp_stream_pos p = pos \<and> cp_pending p = [] \<and> format_known odc p"

text \<open>The tables of the hard-link policy.\<close>

definition link_tables :: "cpio_parser \<Rightarrow> (inode_key \<rightharpoonup> bytes) \<times> (inode_key \<times> archive_entry list) list" where
  "link_tables p = (cp_resolved_inodes p, cp_deferred_links p)"

lemma known_format [simp]:
  "format_known odc p \<Longrightarrow> header_size p = cpio_header_size odc"
  "format_known odc p \<Longrightarrow> uses_alignment p = (\<not> odc)"
  by (auto simp: format_known_def header_size_def cpio_header_size_def ODC_HEADER_SIZE_def NEWC_HEADER_SIZE_def
      uses_alignment_def split: if_splits)

lemma format_known_frame [simp]:
  "format_known odc (p\<lparr>cp_header_buf := h\<rparr>) = format_known odc p" "format_known odc (p\<lparr>cp_stream_pos := n\<rparr>) = format_known odc p"
  "format_known odc (p\<lparr>cp_state := s\<rparr>) = format_known odc p" "format_known odc (p\<lparr>cp_pending := q\<rparr>) = format_known odc p"
  "format_known odc (p\<lparr>cp_sub_format := f\<rparr>) \<longleftrightarrow> f \<in> (if odc then {Some Odc} else {Some Newc, Some NewcCrc})"
  by (simp_all add: format_known_def)

lemma process_member_header:
  assumes "format_known odc p" and "cp_header_buf p = cpio_header_bytes odc m" and "cpio_fields_ok odc m"
  shows "cpio_process_header p k =
    (p\<lparr>cp_header_buf := [], cp_state := CReadingFilename (cpio_member_header m) (length (cm_name m) + 1) []\<rparr>,
     Inr (k, NeedData))"
proof -
  have magic: "subslice 0 6 (cp_header_buf p) = cpio_magic odc m" using assms(2) take_cpio_header by (simp add: subslice_def)
  have name: "ch_namesize (cpio_member_header m) = length (cm_name m) + 1" by (simp add: cpio_member_header_def)
  show ?thesis
  proof (cases odc)
    case True
    then have "cp_sub_format p = Some Odc" using assms(1) by (simp add: format_known_def)
    moreover have "parse_odc_header (cpio_header_bytes odc m) = Inr (cpio_member_header m)"
      using parse_odc assms(3) True by (simp add: cpio_header_bytes_def)
    ultimately show ?thesis using magic name assms(2) header_fits [OF assms(3)] True
      by (simp add: cpio_process_header_def cpio_magic_def)
  next
    case False
    then have "cp_sub_format p = Some Newc \<or> cp_sub_format p = Some NewcCrc" using assms(1) by (auto simp: format_known_def)
    moreover have "parse_newc_header (cpio_header_bytes odc m) = Inr (cpio_member_header m)"
      using parse_newc assms(3) False by (simp add: cpio_header_bytes_def)
    moreover have "cpio_magic odc m = NEWC_MAGIC \<or> cpio_magic odc m = NEWC_CRC_MAGIC"
      using False by (simp add: cpio_magic_def split: option.split)
    ultimately show ?thesis using magic name assms(2) header_fits [OF assms(3)]
      by (auto simp: cpio_process_header_def)
  qed
qed

lemma detect_member_format:
  obtains f where "detect_sub_format (cpio_magic odc m) = Inr f" "Some f \<in> (if odc then {Some Odc} else {Some Newc, Some NewcCrc})"
proof (cases "\<not> odc \<and> cm_check m = None")
  case True
  then show ?thesis using that [of Newc] by (simp add: detect_sub_format_def cpio_magic_def)
next
  case False
  have d: "NEWC_CRC_MAGIC \<noteq> NEWC_MAGIC" "ODC_MAGIC \<noteq> NEWC_MAGIC" "ODC_MAGIC \<noteq> NEWC_CRC_MAGIC"
    by (simp_all add: NEWC_MAGIC_def NEWC_CRC_MAGIC_def ODC_MAGIC_def)
  show ?thesis
  proof (cases odc)
    case True
    then show ?thesis using that [of Odc] d by (simp add: detect_sub_format_def cpio_magic_def)
  next
    case crc: False
    with False obtain c where "cm_check m = Some c" by auto
    then show ?thesis using that [of NewcCrc] d crc by (simp add: detect_sub_format_def cpio_magic_def)
  qed
qed

lemma feed_known_whole:
  assumes "length (cp_header_buf p) + n = header_size p" and "c + n \<le> length data"
    and "cp_header_buf p @ subslice c (c + n) data = h"
  shows "feed_known_header p c data =
    cpio_process_header (p\<lparr>cp_header_buf := h, cp_stream_pos := cp_stream_pos p + n\<rparr>) (c + n)"
proof -
  have "header_size p - length (cp_header_buf p) = n" "min (length data - c) n = n" using assms(1,2) by simp_all
  moreover have "length (cp_header_buf p @ subslice c (c + n) data) = header_size p" using assms(1,2) by simp
  ultimately show ?thesis using assms(1,3) by (simp add: feed_known_header_def Let_def)
qed

lemma feed_cpio_header:
  assumes "cpio_clean odc pos p" and "cpio_fields_ok odc m"
  shows "\<exists>f. cpio_feed p (cpio_header_bytes odc m @ rest) =
      (p\<lparr>cp_header_buf := [], cp_stream_pos := pos + cpio_header_size odc, cp_sub_format := f,
         cp_state := CReadingFilename (cpio_member_header m) (length (cm_name m) + 1) []\<rparr>,
       Inr (cpio_header_size odc, NeedData)) \<and>
    f \<in> (if odc then {Some Odc} else {Some Newc, Some NewcCrc})"
proof -
  let ?h = "cpio_header_bytes odc m" and ?n = "cpio_header_size odc"
  have n: "6 < ?n" by (simp add: cpio_header_size_def)
  have ne: "?h @ rest \<noteq> []" using length_cpio_header [of odc m] n by (auto simp del: length_cpio_header)
  have feed: "cpio_feed p (?h @ rest) = cpio_feed_header p (?h @ rest)"
    using assms(1) by (simp add: cpio_feed_def cpio_clean_def)
  show ?thesis
  proof (cases "cp_sub_format p")
    case None
    obtain f where f: "detect_sub_format (cpio_magic odc m) = Inr f" "Some f \<in> (if odc then {Some Odc} else {Some Newc, Some NewcCrc})"
      by (rule detect_member_format)
    let ?q = "p\<lparr>cp_header_buf := cpio_magic odc m, cp_stream_pos := pos + 6, cp_sub_format := Some f\<rparr>"
    have k: "format_known odc ?q" using f(2) by (simp add: format_known_def)
    have t6: "take 6 (?h @ rest) = cpio_magic odc m" using take_cpio_header n by simp
    have "length (cpio_magic odc m) = 6" unfolding take_cpio_header [symmetric] using n by simp
    moreover from this have "cpio_feed_header p (?h @ rest) = feed_known_header ?q 6 (?h @ rest)"
      using None ne t6 n f(1) assms(1)
      by (simp add: cpio_feed_header_def cpio_clean_def subslice_def del: append_is_Nil_conv)
    moreover have "cpio_magic odc m @ subslice 6 ?n ?h = ?h"
      using append_take_drop_id [of 6 ?h] take_cpio_header by (simp add: subslice_def)
    then have "cpio_magic odc m @ subslice 6 ?n (?h @ rest) = ?h" by (simp add: subslice_def)
    moreover have "cpio_process_header (?q\<lparr>cp_header_buf := ?h, cp_stream_pos := pos + ?n\<rparr>) ?n =
        (?q\<lparr>cp_header_buf := [], cp_stream_pos := pos + ?n,
           cp_state := CReadingFilename (cpio_member_header m) (length (cm_name m) + 1) []\<rparr>, Inr (?n, NeedData))"
      by (rule trans [OF process_member_header [where odc = odc and m = m]]) (use f(2) assms(2) in simp_all)
    moreover have "feed_known_header ?q 6 (?h @ rest) =
        cpio_process_header (?q\<lparr>cp_header_buf := ?h, cp_stream_pos := cp_stream_pos ?q + (?n - 6)\<rparr>) (6 + (?n - 6))"
      by (rule feed_known_whole) (use known_format(1) [OF k] n calculation(1,3) in simp_all)
    moreover have "6 + (?n - 6) = ?n" "cp_stream_pos ?q + (?n - 6) = pos + ?n" using n by simp_all
    ultimately have "cpio_feed_header p (?h @ rest) =
        (?q\<lparr>cp_header_buf := [], cp_stream_pos := pos + ?n,
           cp_state := CReadingFilename (cpio_member_header m) (length (cm_name m) + 1) []\<rparr>, Inr (?n, NeedData))"
      by (simp only:)
    then show ?thesis using feed f(2) by (intro exI [of _ "Some f"]) simp
  next
    case (Some f)
    then have k: "format_known odc p" using assms(1) by (simp add: cpio_clean_def)
    have "cpio_process_header (p\<lparr>cp_header_buf := ?h, cp_stream_pos := pos + ?n\<rparr>) ?n =
        (p\<lparr>cp_header_buf := [], cp_stream_pos := pos + ?n,
           cp_state := CReadingFilename (cpio_member_header m) (length (cm_name m) + 1) []\<rparr>, Inr (?n, NeedData))"
      using process_member_header [of odc "p\<lparr>cp_header_buf := ?h, cp_stream_pos := pos + ?n\<rparr>" m ?n] k assms(2) by simp
    moreover have whole: "feed_known_header p 0 (?h @ rest) =
        cpio_process_header (p\<lparr>cp_header_buf := ?h, cp_stream_pos := cp_stream_pos p + ?n\<rparr>) (0 + ?n)"
      by (rule feed_known_whole) (use known_format(1) [OF k] assms(1) in \<open>simp_all add: cpio_clean_def slice_simps\<close>)
    ultimately have "cpio_feed_header p (?h @ rest) =
        (p\<lparr>cp_header_buf := [], cp_stream_pos := pos + ?n,
           cp_state := CReadingFilename (cpio_member_header m) (length (cm_name m) + 1) []\<rparr>, Inr (?n, NeedData))"
      using Some ne assms(1) whole by (simp add: cpio_feed_header_def cpio_clean_def del: append_is_Nil_conv)
    then show ?thesis using feed Some k by (intro exI [of _ "Some f"]) (simp add: format_known_def)
  qed
qed

text \<open>Names.\<close>

lemma utf8_head_snoc: "xs \<noteq> [] \<Longrightarrow> utf8_head (xs @ [0]) = utf8_head xs"
proof -
  have "(\<lambda>i. if i < length (xs @ [0 :: byte]) then (xs @ [0]) ! i else 0) = (\<lambda>i. if i < length xs then xs ! i else 0)"
    by (auto simp: fun_eq_iff nth_append)
  then show "utf8_head (xs @ [0]) = utf8_head xs" unfolding utf8_head_def by (simp only:)
qed

lemma cont_not_zero [simp]: "\<not> is_cont 0" "\<not> second_ok b 0"
  by (simp_all add: is_cont_def second_ok_def)

lemma utf8_head_length: "utf8_head xs = (n, True) \<Longrightarrow> xs \<noteq> [] \<Longrightarrow> n \<le> length xs"
  unfolding utf8_head_def Let_def
  by (cases xs) (auto split: if_splits simp: not_less less_Suc_eq_le)

lemma utf8_valid_snoc: "utf8_valid xs \<Longrightarrow> utf8_valid (xs @ [0])"
proof (induction xs rule: utf8_valid.induct)
  case (1 xs)
  show ?case
  proof (cases "xs = []")
    case False
    obtain n ok where h: "utf8_head xs = (n, ok)" by fastforce
    from "1.prems" False h have v: "ok" "utf8_valid (drop n xs)" by (subst (asm) utf8_valid.simps, simp)+
    have n: "n \<le> length xs" using utf8_head_length h v(1) False by simp
    have "utf8_valid (drop n xs @ [0])" using "1.IH" [OF False h [symmetric] refl v(2)] .
    with h v(1) n False show ?thesis by (subst utf8_valid.simps) (simp add: utf8_head_snoc)
  qed simp
qed

lemma name_read: "utf8_valid name \<Longrightarrow> 0 \<notin> set name \<Longrightarrow> trim_end 0 (from_utf8_lossy (name @ [0])) = name"
proof -
  assume a: "utf8_valid name" "0 \<notin> set name"
  have "name = [] \<or> last name \<noteq> 0" using a(2) by (cases name rule: rev_cases) auto
  then have "trim_end 0 (name @ [0]) = name" using trim_end_id by simp
  then show ?thesis using from_utf8_lossy_valid [OF utf8_valid_snoc [OF a(1)]] by simp
qed

text \<open>The entry before its data has been looked at.\<close>

definition raw_entry :: "bool \<Rightarrow> nat \<Rightarrow> cpio_member \<Rightarrow> archive_entry" where
  "raw_entry odc pos m =
     \<lparr>ae_path = cm_name m, ae_size = length (cm_data m), ae_type = entry_type_from_mode (cm_mode m),
      ae_mode = cm_mode m mod 4096, ae_uid = cm_uid m, ae_gid = cm_gid m, ae_mtime = cm_mtime m,
      ae_link_target = None, ae_data_offset = pos + cpio_data_start odc m\<rparr>"

lemma inode_member [simp]: "inode_key (cpio_member_header m) = member_inode m"
  by (simp add: inode_key_def cpio_member_header_def member_inode_def)

lemma feed_name:
  assumes "cp_state p = CReadingFilename (cpio_member_header m) (length (cm_name m) + 1) []" and "cp_pending p = []"
  shows "cpio_feed p ((cm_name m @ [0]) @ rest) =
    filename_done (p\<lparr>cp_state := CReadingFilename (cpio_member_header m) 0 (cm_name m @ [0]),
      cp_stream_pos := cp_stream_pos p + (length (cm_name m) + 1)\<rparr>)
      (cpio_member_header m) (cm_name m @ [0]) (length (cm_name m) + 1)"
  using assms by (simp add: cpio_feed_def feed_filename_def Let_def)

lemma run_name:
  assumes m: "cpio_member_ok odc m" and p: "in_member odc (pos + cpio_header_size odc) p"
    and st: "cp_state p = CReadingFilename (cpio_member_header m) (length (cm_name m) + 1) []"
  shows "\<exists>p2 q k d off2. in_member odc (pos + cpio_data_start odc m) p2 \<and> link_tables p2 = link_tables p \<and> d \<noteq> [] \<and> 0 < k \<and>
    drop k d = rest \<and> cpio_feed q d = transition_to_data p2 (raw_entry odc pos m) (member_inode m) (cm_nlink m) k \<and>
    feed_to_parser cpio_feed add p b (cpio_name_bytes odc m @ rest) off = feed_to_parser cpio_feed add q b d off2 \<and>
    off2 + k = off + length (cpio_name_bytes odc m)"
proof -
  note ok = m [unfolded cpio_member_ok_def] and pp = p [unfolded in_member_def]
  let ?n = "length (cm_name m) + 1"
  define pad where "pad = align_pad odc (cpio_header_size odc + ?n)"
  let ?q = "p\<lparr>cp_state := CReadingFilename (cpio_member_header m) 0 (cm_name m @ [0]), cp_stream_pos := cp_stream_pos p + ?n\<rparr>"
  have hs: "header_size ?q = cpio_header_size odc" "uses_alignment ?q = (\<not> odc)"
    using pp known_format [of odc ?q] by simp_all
  have nb: "cpio_name_bytes odc m = (cm_name m @ [0]) @ replicate pad 0" by (simp add: cpio_name_bytes_def pad_def)
  have start: "cpio_data_start odc m = cpio_header_size odc + ?n + pad" by (simp add: cpio_data_start_def nb)
  have raw: "raw_entry odc pos m =
      \<lparr>ae_path = cm_name m, ae_size = ch_filesize (cpio_member_header m), ae_type = entry_type_from_mode (ch_mode (cpio_member_header m)),
       ae_mode = ch_mode (cpio_member_header m) mod 4096, ae_uid = ch_uid (cpio_member_header m),
       ae_gid = ch_gid (cpio_member_header m), ae_mtime = ch_mtime (cpio_member_header m), ae_link_target = None,
       ae_data_offset = cp_stream_pos ?q + pad\<rparr>"
    using pp by (simp add: raw_entry_def cpio_member_header_def start)
  have ns: "ch_namesize (cpio_member_header m) = ?n" "ch_nlink (cpio_member_header m) = cm_nlink m"
    by (simp_all add: cpio_member_header_def)
  have name: "trim_end 0 (from_utf8_lossy (cm_name m @ [0])) = cm_name m" using name_read ok by blast
  have fin: "filename_done ?q (cpio_member_header m) (cm_name m @ [0]) ?n =
      (if pad > 0 then (?q\<lparr>cp_state := CSkippingNamePad (raw_entry odc pos m) pad (member_inode m) (cm_nlink m)\<rparr>, Inr (?n, NeedData))
       else transition_to_data ?q (raw_entry odc pos m) (member_inode m) (cm_nlink m) ?n)"
    unfolding filename_done_def Let_def name raw hs ns inode_member using ok
    by (simp add: pad_def align_pad_def)
  note feed = feed_name [OF st, unfolded fin]
  show ?thesis
  proof (cases "pad = 0")
    case True
    let ?d = "(cm_name m @ [0]) @ rest"
    have "cpio_feed p ?d = transition_to_data ?q (raw_entry odc pos m) (member_inode m) (cm_nlink m) ?n"
      using feed pp True by simp
    moreover have "in_member odc (pos + cpio_data_start odc m) ?q" using pp True by (simp add: in_member_def start)
    ultimately show ?thesis using True
      by (intro exI [of _ ?q] exI [of _ p] exI [of _ ?n] exI [of _ ?d] exI [of _ off]) (simp add: link_tables_def nb)
  next
    case False
    let ?q1 = "?q\<lparr>cp_state := CSkippingNamePad (raw_entry odc pos m) pad (member_inode m) (cm_nlink m)\<rparr>"
    let ?q2 = "?q1\<lparr>cp_stream_pos := cp_stream_pos p + ?n + pad, cp_state := CEnd\<rparr>"
    let ?d = "replicate pad 0 @ rest"
    have f1: "cpio_feed p (cpio_name_bytes odc m @ rest) = (?q1, Inr (?n, NeedData))"
      using feed [of ?d] pp False by (simp add: nb)
    have "cpio_name_bytes odc m @ rest \<noteq> []" by (simp add: nb)
    from feed_to_parser_steps(4) [where feed = cpio_feed, OF this f1, of add b off]
    have s1: "feed_to_parser cpio_feed add p b (cpio_name_bytes odc m @ rest) off = feed_to_parser cpio_feed add ?q1 b ?d (off + ?n)"
      by (simp add: nb)
    have "cpio_feed ?q1 ?d = transition_to_data ?q2 (raw_entry odc pos m) (member_inode m) (cm_nlink m) pad"
      using pp False by (simp add: cpio_feed_def feed_skip_name_pad_def)
    moreover have "in_member odc (pos + cpio_data_start odc m) ?q2" using pp by (simp add: in_member_def start)
    ultimately show ?thesis using False s1
      by (intro exI [of _ ?q2] exI [of _ ?q1] exI [of _ pad] exI [of _ ?d] exI [of _ "off + ?n"]) (simp add: link_tables_def nb)
  qed
qed

text \<open>Hard links look at nothing but the tables.\<close>

lemma policy_tables:
  assumes "link_tables p = link_tables q" and "cp_pending p = cp_pending q"
    and "apply_hardlink_policy p e i n = (p', r)" and "apply_hardlink_policy q e i n = (q', r')"
  shows "r = r' \<and> link_tables p' = link_tables q' \<and> cp_pending p' = cp_pending q'"
  using assms by (auto simp: apply_hardlink_policy_def link_tables_def Let_def split: if_splits option.splits prod.splits)

lemma policy_in_member:
  assumes "in_member odc pos p" and "apply_hardlink_policy p e i n = (p', r)"
  shows "cp_header_buf p' = [] \<and> cp_stream_pos p' = pos \<and> format_known odc p'"
  using assms apply_hardlink_policy_frame [OF assms(2)] by (simp add: in_member_def format_known_def)

lemma policy_empty:
  assumes "apply_hardlink_policy p e i n = (p', r)" and "ae_size e = 0"
  shows "cp_pending p' = cp_pending p"
  using assms by (auto simp: apply_hardlink_policy_def split: if_splits option.splits)

lemma policy_data:
  assumes "apply_hardlink_policy p e i n = (p', r)" and "ae_size e \<noteq> 0"
  shows "\<exists>e. r = Some e"
  using assms by (auto simp: apply_hardlink_policy_def Let_def split: if_splits option.splits prod.splits)

text \<open>The queue is emptied while there is input left.\<close>

lemma drain_pending:
  assumes "d \<noteq> []"
  shows "feed_to_parser cpio_feed add p b d off =
    feed_to_parser cpio_feed add (p\<lparr>cp_pending := []\<rparr>) (foldl add b (cp_pending p)) d off"
proof (induction "cp_pending p" arbitrary: p b)
  case Nil
  then have e: "cp_pending p = []" by simp
  then have eq: "p\<lparr>cp_pending := []\<rparr> = p" by simp
  show ?case unfolding eq using e by simp
next
  case (Cons e es)
  let ?q = "p\<lparr>cp_pending := es\<rparr>"
  have "cpio_feed p d = (?q, Inr (0, Entry e))" using Cons.hyps(2) [symmetric] by (simp add: cpio_feed_def)
  from feed_to_parser_steps(2) [where feed = cpio_feed, OF assms this, of add b off]
  have "feed_to_parser cpio_feed add p b d off = feed_to_parser cpio_feed add ?q (add b e) d off" by simp
  then show ?case using Cons.hyps(1) [of ?q "add b e"] Cons.hyps(2) [symmetric] by simp
qed

lemma run_skip_data:
  assumes "in_member odc pos p" and "cp_state p = CSkippingData (length x)" and "x \<noteq> []"
  shows "feed_to_parser cpio_feed add p b (x @ rest) off =
    feed_to_parser cpio_feed add (p\<lparr>cp_stream_pos := pos + length x, cp_state := CReadingHeader\<rparr>) b rest (off + length x)"
proof -
  have ne: "x @ rest \<noteq> []" using assms(3) by simp
  have "cpio_feed p (x @ rest) = (p\<lparr>cp_stream_pos := pos + length x, cp_state := CReadingHeader\<rparr>, Inr (length x, NeedData))"
    using assms by (simp add: cpio_feed_def in_member_def feed_skip_data_def Let_def)
  from feed_to_parser_steps(4) [where feed = cpio_feed, OF ne this, of add b off] assms(3) show ?thesis by simp
qed

lemma run_skip_pad:
  assumes "in_member odc pos p" and "cp_state p = (if x = [] then CReadingHeader else CSkippingDataPad (length x))"
  shows "feed_to_parser cpio_feed add p b (x @ rest) off =
    feed_to_parser cpio_feed add (p\<lparr>cp_stream_pos := pos + length x, cp_state := CReadingHeader\<rparr>) b rest (off + length x)"
proof (cases "x = []")
  case True
  with assms have "p\<lparr>cp_stream_pos := pos + length x, cp_state := CReadingHeader\<rparr> = p" by (simp add: in_member_def)
  with True show ?thesis by simp
next
  case False
  then have ne: "x @ rest \<noteq> []" by simp
  have "cpio_feed p (x @ rest) = (p\<lparr>cp_stream_pos := pos + length x, cp_state := CReadingHeader\<rparr>, Inr (length x, NeedData))"
    using assms False by (simp add: cpio_feed_def in_member_def feed_skip_data_pad_def Let_def)
  from feed_to_parser_steps(4) [where feed = cpio_feed, OF ne this, of add b off] False show ?thesis by simp
qed

text \<open>The data of a member.\<close>

lemma member_entry_raw:
  "\<not> is_cpio_symlink m \<Longrightarrow> raw_entry odc pos m = cpio_member_entry odc pos m"
  by (simp add: raw_entry_def cpio_member_entry_def)

lemma raw_entry_sel [simp]:
  "ae_size (raw_entry odc pos m) = length (cm_data m)" "ae_type (raw_entry odc pos m) = entry_type_from_mode (cm_mode m)"
  "ae_data_offset (raw_entry odc pos m) = pos + cpio_data_start odc m"
  "(raw_entry odc pos m)\<lparr>ae_data_offset := pos + cpio_data_start odc m\<rparr> = raw_entry odc pos m"
  by (simp_all add: raw_entry_def)

lemma align_pad_0 [simp]: "align_pad odc 0 = 0"
  by (simp add: align_pad_def align4_def)

text \<open>What the policy puts out for one member.\<close>

definition policy_out :: "cpio_parser \<times> archive_entry option \<Rightarrow> archive_entry list" where
  "policy_out r = (case snd r of Some e \<Rightarrow> [e] | None \<Rightarrow> []) @ cp_pending (fst r)"

lemma run_no_data:
  assumes m: "cm_data m = []" and p2: "in_member odc (pos + cpio_data_start odc m) p2"
    and f: "cpio_feed q d = transition_to_data p2 (raw_entry odc pos m) (member_inode m) (cm_nlink m) k"
    and d: "d \<noteq> []" "0 < k"
    and ap: "apply_hardlink_policy p2 (cpio_member_entry odc pos m) (member_inode m) (cm_nlink m) = (p', now)"
  shows "\<exists>p3. cpio_clean odc (pos + cpio_data_start odc m) p3 \<and> link_tables p3 = link_tables p' \<and>
    feed_to_parser cpio_feed add q b d off =
      feed_to_parser cpio_feed add p3 (foldl add b (policy_out (p', now))) (drop k d) (off + k)"
proof -
  have ns: "\<not> is_cpio_symlink m" using m by (simp add: is_cpio_symlink_def)
  note raw = member_entry_raw [OF ns, of odc pos]
  let ?p3 = "p'\<lparr>cp_state := CReadingHeader\<rparr>"
  have pos: "cp_stream_pos p2 = pos + cpio_data_start odc m" "cp_pending p2 = []" using p2 by (simp_all add: in_member_def)
  have "cpio_feed q d = emit k (apply_hardlink_policy (p2\<lparr>cp_state := CReadingHeader\<rparr>) (raw_entry odc pos m) (member_inode m) (cm_nlink m))"
    unfolding f using m pos by (simp add: transition_to_data_def)
  then have f': "cpio_feed q d = emit k (?p3, now)" using ap unfolding raw apply_hardlink_policy_cong by simp
  have "cp_pending p' = []" using policy_empty [OF ap] m pos by (simp add: cpio_member_entry_def ns)
  moreover from this have "cpio_clean odc (pos + cpio_data_start odc m) ?p3"
    using policy_in_member [OF p2 ap] by (simp add: cpio_clean_def)
  moreover have "feed_to_parser cpio_feed add q b d off =
      feed_to_parser cpio_feed add ?p3 (foldl add b (case now of Some e \<Rightarrow> [e] | None \<Rightarrow> [])) (drop k d) (off + k)"
  proof (cases now)
    case None
    then have "cpio_feed q d = (?p3, Inr (k, NeedData))" using f' by (simp add: emit_def)
    from feed_to_parser_steps(4) [where feed = cpio_feed, OF d(1) this d(2), of add b off] None show ?thesis by simp
  next
    case (Some e)
    then have "cpio_feed q d = (?p3, Inr (k, Entry e))" using f' by (simp add: emit_def)
    from feed_to_parser_steps(2) [where feed = cpio_feed, OF d(1) this, of add b off] Some show ?thesis by simp
  qed
  ultimately show ?thesis by (intro exI [of _ ?p3]) (simp add: policy_out_def link_tables_def)
qed

lemma run_cpio_data:
  assumes m: "cm_data m \<noteq> []" "\<not> is_cpio_symlink m" and p2: "in_member odc (pos + cpio_data_start odc m) p2"
    and f: "cpio_feed q d = transition_to_data p2 (raw_entry odc pos m) (member_inode m) (cm_nlink m) k"
    and d: "d \<noteq> []" "drop k d = cpio_data_bytes odc m @ rest"
    and ap: "apply_hardlink_policy p2 (cpio_member_entry odc pos m) (member_inode m) (cm_nlink m) = (p', now)"
  shows "\<exists>p3. cpio_clean odc (pos + cpio_data_start odc m + length (cpio_data_bytes odc m)) p3 \<and> link_tables p3 = link_tables p' \<and>
    feed_to_parser cpio_feed add q b d off =
      feed_to_parser cpio_feed add p3 (foldl add b (policy_out (p', now))) rest (off + k + length (cpio_data_bytes odc m))"
proof -
  note raw = member_entry_raw [OF m(2), of odc pos]
  let ?x = "cpio_data_bytes odc m"
  let ?p3 = "p'\<lparr>cp_state := CSkippingData (length ?x)\<rparr>"
  have pos: "cp_stream_pos p2 = pos + cpio_data_start odc m" "uses_alignment p2 = (\<not> odc)"
    using p2 by (simp_all add: in_member_def)
  have len: "length (cm_data m) + (if uses_alignment p2 then align4 (length (cm_data m)) - length (cm_data m) else 0) = length ?x"
    by (simp add: pos cpio_data_bytes_def align_pad_def)
  have xne: "?x \<noteq> []" using m(1) by (simp add: cpio_data_bytes_def)
  have nl: "\<not> (ae_type (raw_entry odc pos m) = SymLink \<and> 0 < length (cm_data m))"
    using m by (simp add: is_cpio_symlink_def)
  have "cpio_feed q d = emit k (apply_hardlink_policy (p2\<lparr>cp_state := CSkippingData (length ?x)\<rparr>) (raw_entry odc pos m)
      (member_inode m) (cm_nlink m))"
    unfolding f using m(1) nl len pos xne by (cases odc) (simp_all add: transition_to_data_def Let_def)
  then have f': "cpio_feed q d = emit k (?p3, now)" using ap unfolding raw apply_hardlink_policy_cong by simp
  obtain e where e: "now = Some e" using policy_data [OF ap] m by (auto simp: cpio_member_entry_def)
  then have "cpio_feed q d = (?p3, Inr (k, Entry e))" using f' by (simp add: emit_def)
  from feed_to_parser_steps(2) [where feed = cpio_feed, OF d(1) this, of add b off] d(2)
  have s1: "feed_to_parser cpio_feed add q b d off = feed_to_parser cpio_feed add ?p3 (add b e) (?x @ rest) (off + k)" by simp
  have ne: "?x \<noteq> []" "?x @ rest \<noteq> []" using m(1) by (simp_all add: cpio_data_bytes_def)
  let ?p4 = "?p3\<lparr>cp_pending := []\<rparr>"
  have im: "in_member odc (pos + cpio_data_start odc m) ?p4" using policy_in_member [OF p2 ap] by (simp add: in_member_def)
  let ?p5 = "?p4\<lparr>cp_stream_pos := pos + cpio_data_start odc m + length ?x, cp_state := CReadingHeader\<rparr>"
  have "feed_to_parser cpio_feed add ?p4 (foldl add (add b e) (cp_pending ?p3)) (?x @ rest) (off + k) =
      feed_to_parser cpio_feed add ?p5 (foldl add (add b e) (cp_pending ?p3)) rest (off + k + length ?x)"
    by (rule run_skip_data [OF im _ ne(1)]) simp
  with s1 drain_pending [OF ne(2), of add ?p3 "add b e" "off + k"]
  have "feed_to_parser cpio_feed add q b d off =
      feed_to_parser cpio_feed add ?p5 (foldl add b (policy_out (p', now))) rest (off + k + length ?x)"
    by (simp add: policy_out_def e)
  moreover have "cpio_clean odc (pos + cpio_data_start odc m + length ?x) ?p5" using im by (simp add: in_member_def cpio_clean_def)
  ultimately show ?thesis by (intro exI [of _ ?p5]) (simp add: link_tables_def)
qed

lemma run_symlink:
  assumes m: "is_cpio_symlink m" "length (cm_data m) \<le> 2 ^ 16" and p2: "in_member odc (pos + cpio_data_start odc m) p2"
    and f: "cpio_feed q d = transition_to_data p2 (raw_entry odc pos m) (member_inode m) (cm_nlink m) k"
    and d: "d \<noteq> []" "0 < k" "drop k d = cpio_data_bytes odc m @ rest"
    and ap: "apply_hardlink_policy p2 (cpio_member_entry odc pos m) (member_inode m) (cm_nlink m) = (p', now)"
  shows "\<exists>p3. cpio_clean odc (pos + cpio_data_start odc m + length (cpio_data_bytes odc m)) p3 \<and> link_tables p3 = link_tables p' \<and>
    feed_to_parser cpio_feed add q b d off =
      feed_to_parser cpio_feed add p3 (foldl add b (policy_out (p', now))) rest (off + k + length (cpio_data_bytes odc m))"
proof -
  have sl: "entry_type_from_mode (cm_mode m) = SymLink" "cm_data m \<noteq> []" using m(1) by (simp_all add: is_cpio_symlink_def)
  then have p': "p' = p2" "now = Some (cpio_member_entry odc pos m)"
    using ap by (auto simp: apply_hardlink_policy_def cpio_member_entry_def)
  let ?n = "length (cm_data m)" and ?e = "raw_entry odc pos m"
  let ?pad = "replicate (align_pad odc ?n) (0 :: byte)"
  have pp: "cp_stream_pos p2 = pos + cpio_data_start odc m" "cp_pending p2 = []" "cp_header_buf p2 = []"
    "format_known odc p2" using p2 by (simp_all add: in_member_def)
  let ?q1 = "p2\<lparr>cp_state := CReadingLinkTarget ?e ?n []\<rparr>"
  have "cpio_feed q d = (?q1, Inr (k, NeedData))"
    unfolding f using sl m(2) pp(1) by (simp add: transition_to_data_def CPIO_MAX_NAME_SIZE_def)
  from feed_to_parser_steps(4) [where feed = cpio_feed, OF d(1) this d(2), of add b off] d(3)
  have s1: "feed_to_parser cpio_feed add q b d off = feed_to_parser cpio_feed add ?q1 b (cm_data m @ ?pad @ rest) (off + k)"
    by (simp add: cpio_data_bytes_def)
  let ?q2 = "?q1\<lparr>cp_stream_pos := pos + cpio_data_start odc m + ?n,
    cp_state := (if ?pad = [] then CReadingHeader else CSkippingDataPad (length ?pad))\<rparr>"
  have en: "?e\<lparr>ae_link_target := Some (from_utf8_lossy (cm_data m)), ae_size := 0\<rparr> = cpio_member_entry odc pos m"
    using m(1) by (simp add: raw_entry_def cpio_member_entry_def)
  have ua: "uses_alignment p2 = (\<not> odc)" "uses_alignment ?q1 = (\<not> odc)"
    "uses_alignment (?q1\<lparr>cp_stream_pos := pos + cpio_data_start odc m + ?n\<rparr>) = (\<not> odc)"
    using pp(4) by simp_all
  have off: "ae_data_offset (cpio_member_entry odc pos m) = pos + cpio_data_start odc m" by (simp add: cpio_member_entry_def)
  have ne: "cm_data m @ ?pad @ rest \<noteq> []" using sl by simp
  have "cpio_feed ?q1 (cm_data m @ ?pad @ rest) = (?q2, Inr (?n, Entry (cpio_member_entry odc pos m)))"
    using sl pp ua off by (simp add: cpio_feed_def feed_link_target_def Let_def en align_pad_def)
  from feed_to_parser_steps(2) [where feed = cpio_feed, OF ne this, of add b "off + k"]
  have s2: "feed_to_parser cpio_feed add ?q1 b (cm_data m @ ?pad @ rest) (off + k) =
      feed_to_parser cpio_feed add ?q2 (add b (cpio_member_entry odc pos m)) (?pad @ rest) (off + k + ?n)" by simp
  have im: "in_member odc (pos + cpio_data_start odc m + ?n) ?q2" using pp by (simp add: in_member_def)
  let ?p5 = "?q2\<lparr>cp_stream_pos := pos + cpio_data_start odc m + ?n + length ?pad, cp_state := CReadingHeader\<rparr>"
  have "feed_to_parser cpio_feed add ?q2 (add b (cpio_member_entry odc pos m)) (?pad @ rest) (off + k + ?n) =
      feed_to_parser cpio_feed add ?p5 (add b (cpio_member_entry odc pos m)) rest (off + k + ?n + length ?pad)"
    by (rule run_skip_pad [OF im]) simp
  with s1 s2 have "feed_to_parser cpio_feed add q b d off =
      feed_to_parser cpio_feed add ?p5 (foldl add b (policy_out (p', now))) rest (off + k + length (cpio_data_bytes odc m))"
    by (simp add: policy_out_def p' pp(2) cpio_data_bytes_def add.assoc)
  moreover have "cpio_clean odc (pos + cpio_data_start odc m + length (cpio_data_bytes odc m)) ?p5"
    using im by (simp add: in_member_def cpio_clean_def cpio_data_bytes_def)
  ultimately show ?thesis by (intro exI [of _ ?p5]) (simp add: link_tables_def p')
qed

section \<open>A whole archive\<close>

lemma run_after_name:
  assumes m: "cpio_member_ok odc m" and p2: "in_member odc (pos + cpio_data_start odc m) p2"
    and f: "cpio_feed q d = transition_to_data p2 (raw_entry odc pos m) (member_inode m) (cm_nlink m) k"
    and d: "d \<noteq> []" "0 < k" "drop k d = cpio_data_bytes odc m @ rest"
    and ap: "apply_hardlink_policy p2 (cpio_member_entry odc pos m) (member_inode m) (cm_nlink m) = (p', now)"
  shows "\<exists>p3. cpio_clean odc (pos + cpio_data_start odc m + length (cpio_data_bytes odc m)) p3 \<and> link_tables p3 = link_tables p' \<and>
    feed_to_parser cpio_feed add q b d off =
      feed_to_parser cpio_feed add p3 (foldl add b (policy_out (p', now))) rest (off + k + length (cpio_data_bytes odc m))"
proof -
  consider "cm_data m = []" | "cm_data m \<noteq> []" "\<not> is_cpio_symlink m" | "is_cpio_symlink m" by blast
  then show ?thesis
  proof cases
    case 1
    then have "cpio_data_bytes odc m = []" by (simp add: cpio_data_bytes_def)
    with run_no_data [OF 1 p2 f d(1,2) ap, of add b off] d(3) show ?thesis by simp
  next
    case 2
    show ?thesis by (rule run_cpio_data [OF 2 p2 f d(1,3) ap])
  next
    case 3
    have "length (cm_data m) \<le> 2 ^ 16" using m 3 by (simp add: cpio_member_ok_def)
    from run_symlink [OF 3 this p2 f d ap] show ?thesis .
  qed
qed

lemma run_cpio_member:
  assumes m: "cpio_member_ok odc m" and p: "cpio_clean odc pos p"
    and ap: "apply_hardlink_policy p (cpio_member_entry odc pos m) (member_inode m) (cm_nlink m) = (p', now)"
  shows "\<exists>p3. cpio_clean odc (pos + length (cpio_member_bytes odc m)) p3 \<and> link_tables p3 = link_tables p' \<and>
    feed_to_parser cpio_feed add p b (cpio_member_bytes odc m @ rest) off =
      feed_to_parser cpio_feed add p3 (foldl add b (policy_out (p', now))) rest (off + length (cpio_member_bytes odc m))"
proof -
  let ?hs = "cpio_header_size odc" and ?rest = "cpio_data_bytes odc m @ rest"
  have fo: "cpio_fields_ok odc m" using m by (simp add: cpio_member_ok_def)
  from feed_cpio_header [OF p fo, of "cpio_name_bytes odc m @ ?rest"] obtain f where
    f: "cpio_feed p (cpio_header_bytes odc m @ cpio_name_bytes odc m @ ?rest) =
      (p\<lparr>cp_header_buf := [], cp_stream_pos := pos + ?hs, cp_sub_format := f,
         cp_state := CReadingFilename (cpio_member_header m) (length (cm_name m) + 1) []\<rparr>, Inr (?hs, NeedData))"
    "f \<in> (if odc then {Some Odc} else {Some Newc, Some NewcCrc})" by blast
  let ?p1 = "p\<lparr>cp_header_buf := [], cp_stream_pos := pos + ?hs, cp_sub_format := f,
    cp_state := CReadingFilename (cpio_member_header m) (length (cm_name m) + 1) []\<rparr>"
  have hs: "0 < ?hs" by (simp add: cpio_header_size_def)
  then have ne: "cpio_header_bytes odc m @ cpio_name_bytes odc m @ ?rest \<noteq> []"
    using length_cpio_header [of odc m] by (auto simp del: length_cpio_header)
  from feed_to_parser_steps(4) [where feed = cpio_feed, OF ne f(1) hs, of add b off]
  have s1: "feed_to_parser cpio_feed add p b (cpio_member_bytes odc m @ rest) off =
      feed_to_parser cpio_feed add ?p1 b (cpio_name_bytes odc m @ ?rest) (off + ?hs)"
    by (simp add: cpio_member_bytes_def)
  have im: "in_member odc (pos + ?hs) ?p1" using p f(2) by (simp add: in_member_def cpio_clean_def)
  have st: "cp_state ?p1 = CReadingFilename (cpio_member_header m) (length (cm_name m) + 1) []" by simp
  from run_name [OF m im st, of ?rest add b "off + ?hs"] obtain p2 q k d off2 where
    n: "in_member odc (pos + cpio_data_start odc m) p2" "link_tables p2 = link_tables ?p1" "d \<noteq> []" "0 < k"
      "drop k d = ?rest" "cpio_feed q d = transition_to_data p2 (raw_entry odc pos m) (member_inode m) (cm_nlink m) k"
      "feed_to_parser cpio_feed add ?p1 b (cpio_name_bytes odc m @ ?rest) (off + ?hs) = feed_to_parser cpio_feed add q b d off2"
      "off2 + k = off + ?hs + length (cpio_name_bytes odc m)" by blast
  obtain p2' now' where ap2: "apply_hardlink_policy p2 (cpio_member_entry odc pos m) (member_inode m) (cm_nlink m) = (p2', now')"
    by fastforce
  have "link_tables p2 = link_tables p" "cp_pending p2 = cp_pending p"
    using n(1,2) p by (simp_all add: in_member_def cpio_clean_def link_tables_def)
  from policy_tables [OF this ap2 ap] have same: "now' = now" "link_tables p2' = link_tables p'" "cp_pending p2' = cp_pending p'"
    by simp_all
  have len: "length (cpio_member_bytes odc m) = cpio_data_start odc m + length (cpio_data_bytes odc m)"
    by (simp add: cpio_member_bytes_def cpio_data_start_def)
  from run_after_name [OF m n(1,6,3,4,5) ap2, of add b off2] obtain p3 where
    p3: "cpio_clean odc (pos + cpio_data_start odc m + length (cpio_data_bytes odc m)) p3" "link_tables p3 = link_tables p2'"
      "feed_to_parser cpio_feed add q b d off2 =
        feed_to_parser cpio_feed add p3 (foldl add b (policy_out (p2', now'))) rest (off2 + k + length (cpio_data_bytes odc m))" by blast
  have "policy_out (p2', now') = policy_out (p', now)" using same by (simp add: policy_out_def)
  moreover have "off2 + k + length (cpio_data_bytes odc m) = off + length (cpio_member_bytes odc m)"
    using n(8) len by (simp add: cpio_data_start_def)
  ultimately show ?thesis using s1 n(7) p3 same(2) len by (intro exI [of _ p3]) (simp add: add.assoc)
qed

lemma policy_run_Cons:
  "policy_run p ((e, i, n) # ms) =
     (let r = apply_hardlink_policy p e i n; (p', rest) = policy_run ((fst r)\<lparr>cp_pending := []\<rparr>) ms
      in (p', policy_out r @ rest))"
  by (simp add: policy_out_def Let_def split: prod.split)

lemma run_cpio_members:
  assumes "list_all (cpio_member_ok odc) ms" and "cpio_clean odc pos p" and "link_tables p = link_tables q" and "cp_pending q = []"
    and "policy_run q (cpio_members_at odc pos ms) = (q', es)"
  shows "\<exists>p3. cpio_clean odc (pos + length (concat (map (cpio_member_bytes odc) ms))) p3 \<and> link_tables p3 = link_tables q' \<and>
    feed_to_parser cpio_feed add p b (concat (map (cpio_member_bytes odc) ms) @ rest) off =
      feed_to_parser cpio_feed add p3 (foldl add b es) rest (off + length (concat (map (cpio_member_bytes odc) ms)))"
  using assms
proof (induction ms arbitrary: pos p q b off es)
  case (Cons m ms)
  let ?bs = "cpio_member_bytes odc m" and ?rest = "concat (map (cpio_member_bytes odc) ms) @ rest"
  have m: "cpio_member_ok odc m" and ms: "list_all (cpio_member_ok odc) ms" using Cons.prems(1) by simp_all
  obtain q1 now where aq: "apply_hardlink_policy q (cpio_member_entry odc pos m) (member_inode m) (cm_nlink m) = (q1, now)" by fastforce
  obtain p1 now1 where ap: "apply_hardlink_policy p (cpio_member_entry odc pos m) (member_inode m) (cm_nlink m) = (p1, now1)" by fastforce
  have "cp_pending p = cp_pending q" using Cons.prems(2,4) by (simp add: cpio_clean_def)
  from policy_tables [OF Cons.prems(3) this ap aq] have same: "policy_out (p1, now1) = policy_out (q1, now)" "link_tables p1 = link_tables q1"
    by (simp_all add: policy_out_def)
  obtain es2 where r: "policy_run (q1\<lparr>cp_pending := []\<rparr>) (cpio_members_at odc (pos + length ?bs) ms) = (q', es2)"
    "es = policy_out (q1, now) @ es2"
    using Cons.prems(5) aq by (auto simp: policy_run_Cons Let_def simp del: policy_run.simps split: prod.splits)
  from run_cpio_member [OF m Cons.prems(2) ap, of add b ?rest off] obtain p2 where
    p2: "cpio_clean odc (pos + length ?bs) p2" "link_tables p2 = link_tables p1"
      "feed_to_parser cpio_feed add p b (?bs @ ?rest) off =
        feed_to_parser cpio_feed add p2 (foldl add b (policy_out (p1, now1))) ?rest (off + length ?bs)" by blast
  have t: "link_tables p2 = link_tables (q1\<lparr>cp_pending := []\<rparr>)" using p2(2) same(2) by (simp add: link_tables_def)
  from Cons.IH [OF ms p2(1) t _ r(1), of "foldl add b (policy_out (p1, now1))" "off + length ?bs"] p2(3) same(1) r(2)
  show ?case by (simp add: add.assoc)
qed (auto simp: cpio_clean_def)

text \<open>The trailer: what is deferred comes out one by one, as long as there is input.\<close>

lemma run_trailer:
  assumes p: "cpio_clean odc pos p"
  shows "\<exists>p3. feed_to_parser cpio_feed add p b (cpio_member_bytes odc cpio_trailer @ replicate k 0) off =
      (let queue = concat (map snd (cp_deferred_links p)) in
       Some (p3, foldl add b (if odc \<and> k = 0 then take 1 queue else queue),
         Inr (off + cpio_header_size odc + 11, \<not> ((odc \<and> k = 0) \<and> queue \<noteq> [])))) \<and>
    cp_state p3 = CEnd"
proof -
  let ?m = cpio_trailer and ?hs = "cpio_header_size odc" and ?queue = "concat (map snd (cp_deferred_links p))"
  define z where "z = replicate (align_pad odc (?hs + 11) + k) (0 :: byte)"
  have fo: "cpio_fields_ok odc ?m" by (simp add: cpio_fields_ok_def cpio_trailer_def TRAILER_NAME_def)
  have nl: "length (cm_name ?m) + 1 = 11" "cm_name ?m = TRAILER_NAME" "cm_data ?m = []"
    by (simp_all add: cpio_trailer_def TRAILER_NAME_def)
  have bytes: "cpio_member_bytes odc ?m @ replicate k 0 = cpio_header_bytes odc ?m @ (cm_name ?m @ [0]) @ z"
    using nl(1) by (simp add: cpio_member_bytes_def cpio_name_bytes_def cpio_data_bytes_def nl(3) z_def replicate_add)
  from feed_cpio_header [OF p fo, of "(cm_name ?m @ [0]) @ z"] obtain f where
    f: "cpio_feed p (cpio_header_bytes odc ?m @ (cm_name ?m @ [0]) @ z) =
      (p\<lparr>cp_header_buf := [], cp_stream_pos := pos + ?hs, cp_sub_format := f,
         cp_state := CReadingFilename (cpio_member_header ?m) (length (cm_name ?m) + 1) []\<rparr>, Inr (?hs, NeedData))" by blast
  let ?p1 = "p\<lparr>cp_header_buf := [], cp_stream_pos := pos + ?hs, cp_sub_format := f,
    cp_state := CReadingFilename (cpio_member_header ?m) (length (cm_name ?m) + 1) []\<rparr>"
  have hs: "0 < ?hs" by (simp add: cpio_header_size_def)
  then have ne: "cpio_header_bytes odc ?m @ (cm_name ?m @ [0]) @ z \<noteq> []"
    using length_cpio_header [of odc ?m] by (auto simp del: length_cpio_header)
  from feed_to_parser_steps(4) [where feed = cpio_feed, OF ne f hs, of add b off]
  have s1: "feed_to_parser cpio_feed add p b (cpio_header_bytes odc ?m @ (cm_name ?m @ [0]) @ z) off =
      feed_to_parser cpio_feed add ?p1 b ((cm_name ?m @ [0]) @ z) (off + ?hs)" by simp
  have pend: "cp_pending ?p1 = []" using p by (simp add: cpio_clean_def)
  let ?p2 = "?p1\<lparr>cp_stream_pos := pos + ?hs + 11, cp_deferred_links := [], cp_state := CEnd\<rparr>"
  have nm: "trim_end 0 (from_utf8_lossy (cm_name ?m @ [0])) = TRAILER_NAME"
    unfolding nl(2) by (rule name_read) (simp_all add: TRAILER_NAME_def)
  have feed: "cpio_feed ?p1 ((cm_name ?m @ [0]) @ z) =
      (case ?queue of e # es \<Rightarrow> (?p2\<lparr>cp_pending := es\<rparr>, Inr (11, Entry e)) | [] \<Rightarrow> (?p2, Inr (11, EndOfArchive)))"
    using pend nm nl(1) feed_name [of ?p1 ?m z] p
    by (cases ?queue) (simp_all add: filename_done_def Let_def cpio_clean_def add.assoc del: concat_eq_Nil_conv)
  have ne2: "(cm_name ?m @ [0]) @ z \<noteq> []" by simp
  have dz: "drop 11 ((cm_name ?m @ [0]) @ z) = z" using nl(1) by simp
  show ?thesis
  proof (cases ?queue)
    case Nil
    with feed have "cpio_feed ?p1 ((cm_name ?m @ [0]) @ z) = (?p2, Inr (11, EndOfArchive))" by simp
    from feed_to_parser_steps(5) [where feed = cpio_feed, OF ne2 this, of add b "off + ?hs"] s1 Nil show ?thesis
      unfolding bytes by (intro exI [of _ ?p2]) (simp add: Let_def cpio_header_size_def del: concat_eq_Nil_conv)
  next
    case (Cons e es)
    with feed have "cpio_feed ?p1 ((cm_name ?m @ [0]) @ z) = (?p2\<lparr>cp_pending := es\<rparr>, Inr (11, Entry e))" by simp
    from feed_to_parser_steps(2) [where feed = cpio_feed, OF ne2 this, of add b "off + ?hs"] dz
    have s2: "feed_to_parser cpio_feed add ?p1 b ((cm_name ?m @ [0]) @ z) (off + ?hs) =
        feed_to_parser cpio_feed add (?p2\<lparr>cp_pending := es\<rparr>) (add b e) z (off + ?hs + 11)" by simp
    show ?thesis
    proof (cases "z = []")
      case True
      then have "odc" "k = 0" by (auto simp: z_def align_pad_def align4_def cpio_header_size_def split: if_splits)
      with True s1 s2 Cons show ?thesis
        unfolding bytes by (intro exI [of _ "?p2\<lparr>cp_pending := es\<rparr>"]) (simp add: Let_def cpio_header_size_def)
    next
      case False
      then have k: "\<not> (odc \<and> k = 0)" by (auto simp: z_def align_pad_def)
      let ?p3 = "?p2\<lparr>cp_pending := []\<rparr>"
      have "cpio_feed ?p3 z = (?p3, Inr (0, EndOfArchive))" by (simp add: cpio_feed_def)
      from feed_to_parser_steps(5) [where feed = cpio_feed, OF False this, of add "foldl add (add b e) es" "off + ?hs + 11"]
        drain_pending [OF False, of add "?p2\<lparr>cp_pending := es\<rparr>" "add b e" "off + ?hs + 11"]
      have "feed_to_parser cpio_feed add (?p2\<lparr>cp_pending := es\<rparr>) (add b e) z (off + ?hs + 11) =
          Some (?p3, foldl add (add b e) es, Inr (off + ?hs + 11, True))" by simp
      with s1 s2 Cons k show ?thesis
        unfolding bytes by (intro exI [of _ ?p3]) (auto simp: Let_def cpio_header_size_def)
    qed
  qed
qed

text \<open>The parser over a whole archive, in one piece.\<close>

lemma run_cpio_archive:
  assumes "list_all (cpio_member_ok odc) ms"
  shows "\<exists>p off es q. policy_run cpio_new (cpio_members_at odc 0 ms) = (q, es) \<and>
    feed_to_parser cpio_feed add cpio_new b (cpio_archive_bytes odc ms k) 0 =
      (let queue = concat (map snd (cp_deferred_links q)) in
       Some (p, foldl add b (es @ (if odc \<and> k = 0 then take 1 queue else queue)),
         Inr (off, \<not> ((odc \<and> k = 0) \<and> queue \<noteq> [])))) \<and>
    off \<le> length (cpio_archive_bytes odc ms k) \<and> (odc \<and> k = 0 \<longrightarrow> off = length (cpio_archive_bytes odc ms k)) \<and>
    cpio_end_of_stream p = Inr ()"
proof -
  obtain q es where r: "policy_run cpio_new (cpio_members_at odc 0 ms) = (q, es)" by fastforce
  let ?L = "length (concat (map (cpio_member_bytes odc) ms))"
  have c: "cpio_clean odc 0 cpio_new" "cp_pending cpio_new = []" by (simp_all add: cpio_clean_def cpio_new_def)
  from run_cpio_members [OF assms c(1) refl c(2) r, of add b "cpio_member_bytes odc cpio_trailer @ replicate k 0" 0] obtain p3 where
    p3: "cpio_clean odc (0 + ?L) p3" "link_tables p3 = link_tables q"
      "feed_to_parser cpio_feed add cpio_new b (cpio_archive_bytes odc ms k) 0 =
        feed_to_parser cpio_feed add p3 (foldl add b es) (cpio_member_bytes odc cpio_trailer @ replicate k 0) (0 + ?L)"
    unfolding cpio_archive_bytes_def by blast
  have dq: "cp_deferred_links p3 = cp_deferred_links q" using p3(2) by (simp add: link_tables_def)
  from run_trailer [OF p3(1), of add "foldl add b es" k "0 + ?L"] obtain p4 where
    p4: "feed_to_parser cpio_feed add p3 (foldl add b es) (cpio_member_bytes odc cpio_trailer @ replicate k 0) (0 + ?L) =
      (let queue = concat (map snd (cp_deferred_links q)) in
       Some (p4, foldl add (foldl add b es) (if odc \<and> k = 0 then take 1 queue else queue),
         Inr (0 + ?L + cpio_header_size odc + 11, \<not> ((odc \<and> k = 0) \<and> queue \<noteq> []))))" "cp_state p4 = CEnd"
    unfolding dq by blast
  have "length (cpio_member_bytes odc cpio_trailer) \<ge> cpio_header_size odc + 11"
    "odc \<longrightarrow> length (cpio_member_bytes odc cpio_trailer) = cpio_header_size odc + 11"
    by (simp_all add: cpio_member_bytes_def cpio_name_bytes_def cpio_data_bytes_def cpio_trailer_def TRAILER_NAME_def align_pad_def)
  then have "0 + ?L + cpio_header_size odc + 11 \<le> length (cpio_archive_bytes odc ms k)"
    "odc \<and> k = 0 \<longrightarrow> 0 + ?L + cpio_header_size odc + 11 = length (cpio_archive_bytes odc ms k)"
    by (simp_all add: cpio_archive_bytes_def)
  then show ?thesis using r p3(3) p4
    by (intro exI [of _ p4] exI [of _ "0 + ?L + cpio_header_size odc + 11"] exI [of _ es] exI [of _ q])
      (simp add: Let_def cpio_end_of_stream_def)
qed

lemma cpio_members_nth:
  "i < length ms \<Longrightarrow> fst (cpio_members_at odc pos ms ! i) =
     cpio_member_entry odc (pos + length (concat (map (cpio_member_bytes odc) (take i ms)))) (ms ! i)"
  "length (cpio_members_at odc pos ms) = length ms"
  by (induction ms arbitrary: i pos) (auto simp: nth_Cons' add.assoc less_Suc_eq_0_disj)

lemma cpio_members_data:
  assumes "i < length ms"
  shows "subslice (ae_data_offset (fst (cpio_members_at odc 0 ms ! i)))
      (ae_data_offset (fst (cpio_members_at odc 0 ms ! i)) + length (cm_data (ms ! i))) (cpio_archive_bytes odc ms k) = cm_data (ms ! i)"
    "ae_data_offset (fst (cpio_members_at odc 0 ms ! i)) + length (cm_data (ms ! i)) \<le> length (cpio_archive_bytes odc ms k)"
proof -
  let ?pre = "concat (map (cpio_member_bytes odc) (take i ms))"
  have ms: "ms = take i ms @ ms ! i # drop (Suc i) ms" using assms by (rule id_take_nth_drop)
  have eq: "cpio_archive_bytes odc ms k = (?pre @ cpio_header_bytes odc (ms ! i) @ cpio_name_bytes odc (ms ! i)) @
      cpio_data_bytes odc (ms ! i) @ concat (map (cpio_member_bytes odc) (drop (Suc i) ms)) @
      cpio_member_bytes odc cpio_trailer @ replicate k 0"
    unfolding cpio_archive_bytes_def by (subst ms) (simp add: cpio_member_bytes_def)
  have off: "ae_data_offset (fst (cpio_members_at odc 0 ms ! i)) =
      length (?pre @ cpio_header_bytes odc (ms ! i) @ cpio_name_bytes odc (ms ! i))"
    using cpio_members_nth(1) [OF assms, of odc 0] by (simp add: cpio_member_entry_def cpio_data_start_def)
  show "subslice (ae_data_offset (fst (cpio_members_at odc 0 ms ! i)))
      (ae_data_offset (fst (cpio_members_at odc 0 ms ! i)) + length (cm_data (ms ! i))) (cpio_archive_bytes odc ms k) = cm_data (ms ! i)"
    unfolding off eq by (simp add: subslice_def cpio_data_bytes_def)
  show "ae_data_offset (fst (cpio_members_at odc 0 ms ! i)) + length (cm_data (ms ! i)) \<le> length (cpio_archive_bytes odc ms k)"
    unfolding off eq by (simp add: cpio_data_bytes_def)
qed

lemma cpio_members_no_links: "\<forall>(e, i, n) \<in> set (cpio_members_at odc pos ms). ae_type e \<noteq> HardLink"
  by (induction ms arbitrary: pos) (auto simp: cpio_member_entry_def mode_never_hard_link)

text \<open>What comes out for an entry: the range of one of the members.\<close>

lemma policy_output_member:
  assumes "e \<in> set (policy_output (cpio_members_at odc 0 ms))"
  obtains j where "j < length ms" "unlink e = unlink (fst (cpio_members_at odc 0 ms ! j))"
proof -
  let ?members = "cpio_members_at odc 0 ms"
  have "mset (map unlink (policy_output ?members)) = mset (map (\<lambda>(e, _, _). unlink e) ?members)"
    using policy_output_inv [OF cpio_members_no_links] by blast
  then have "set (map unlink (policy_output ?members)) = set (map (\<lambda>(e, _, _). unlink e) ?members)" by (metis set_mset_mset)
  with assms have "unlink e \<in> (\<lambda>(e, _, _). unlink e) ` set ?members" by auto
  then obtain j where "j < length ?members" "unlink e = unlink (fst (?members ! j))" by (auto simp: in_set_conv_nth)
  then show thesis using that cpio_members_nth(2) by simp
qed

section \<open>Properties\<close>

text \<open>
  C11. Whatever newc, newc-CRC or odc archive a cpio writer produces, cut into chunks in any way, the parser
  gets to its end and puts out its members: each exactly once, unchanged but for being reported as a hard
  link; every hard link names a member with data of the same inode that has come out before it; the
  order is that of the hard-link policy; and a member's offset is that of its data, a symbolic
  link having its data as its target. An odc archive must have at least a byte after its trailer.
\<close>

theorem cpio_archive_roundtrip:
  assumes "list_all (cpio_member_ok odc) ms" and "concat cs = cpio_archive_bytes odc ms k" and "odc \<longrightarrow> 0 < k"
  shows "let members = cpio_members_at odc 0 ms; es = policy_output members in
    (\<exists>p. feed_chunks cpio_feed add cpio_new b cs = Some (p, foldl add b es, Inr True) \<and> cpio_end_of_stream p = Inr ()) \<and>
    mset (map unlink es) = mset (map (\<lambda>(e, _, _). unlink e) members) \<and> links_ok members es \<and>
    (\<forall>i<length ms. subslice (ae_data_offset (fst (members ! i)))
       (ae_data_offset (fst (members ! i)) + length (cm_data (ms ! i))) (concat cs) = cm_data (ms ! i))"
proof -
  let ?members = "cpio_members_at odc 0 ms"
  have k: "(odc \<and> k = 0) = False" using assms(3) by auto
  from run_cpio_archive [OF assms(1), of add b k, unfolded Let_def k if_False simp_thms] obtain p off es q where
    r: "policy_run cpio_new ?members = (q, es)" "cpio_end_of_stream p = Inr ()"
      "feed_to_parser cpio_feed add cpio_new b (cpio_archive_bytes odc ms k) 0 =
        Some (p, foldl add b (es @ concat (map snd (cp_deferred_links q))), Inr (off, True))"
    by blast
  have "policy_output ?members = es @ concat (map snd (cp_deferred_links q))" using r(1) by (simp add: policy_output_def)
  with r(2,3) have "\<exists>p. feed_chunks cpio_feed add cpio_new b cs = Some (p, foldl add b (policy_output ?members), Inr True) \<and>
      cpio_end_of_stream p = Inr ()"
    using cpio.chunks_run [OF cpio_inv_new, of add b cs] assms(2) by auto
  with policy_output_inv [OF cpio_members_no_links] cpio_members_data(1) assms(2) show ?thesis by (simp add: Let_def)
qed

definition demo_cpio :: "string \<Rightarrow> bytes \<Rightarrow> cpio_member" where
  "demo_cpio name d =
     \<lparr>cm_name = ascii name, cm_ino = 7, cm_mode = 33188, cm_uid = 0, cm_gid = 0, cm_nlink = 2, cm_mtime = 1,
      cm_devmajor = 0, cm_devminor = 0, cm_rdevmajor = 0, cm_rdevminor = 0, cm_check = None, cm_data = d\<rparr>"

lemma demo_cpio_sel [simp]:
  "cm_name (demo_cpio name d) = ascii name" "cm_mode (demo_cpio name d) = 33188" "cm_data (demo_cpio name d) = d"
  "cm_nlink (demo_cpio name d) = 2" "member_inode (demo_cpio name d) = (0, 0, 7)"
  by (simp_all add: demo_cpio_def member_inode_def)

lemma demo_cpio_ok:
  "length name < 16 \<Longrightarrow> length d < 16 \<Longrightarrow> utf8_valid (ascii name) \<Longrightarrow> 0 \<notin> set (ascii name) \<Longrightarrow> ascii name \<noteq> TRAILER_NAME \<Longrightarrow>
   cpio_member_ok odc (demo_cpio name d)"
  by (simp add: cpio_member_ok_def cpio_fields_ok_def is_cpio_symlink_def entry_type_from_mode_def demo_cpio_def)

text \<open>An archive of two links to a file, its data at the second: the first link comes out after it.\<close>

theorem cpio_archive_roundtrip_witness:
  "\<exists>p. feed_chunks cpio_feed (\<lambda>b e. b @ [(ae_path e, ae_link_target e)]) cpio_new []
      [cpio_archive_bytes True [demo_cpio ''a'' [], demo_cpio ''b'' [1, 2]] 5] =
    Some (p, [(ascii ''b'', None), (ascii ''a'', Some (ascii ''b''))], Inr True)"
proof -
  let ?ms = "[demo_cpio ''a'' [], demo_cpio ''b'' [1, 2]]"
  have ok: "list_all (cpio_member_ok True) ?ms"
    unfolding list.pred_inject by (intro conjI demo_cpio_ok TrueI) (simp_all add: TRAILER_NAME_def)
  have po: "policy_output (cpio_members_at True 0 ?ms) =
      [cpio_member_entry True (length (cpio_member_bytes True (demo_cpio ''a'' []))) (demo_cpio ''b'' [1, 2]),
       as_hard_link (ascii ''b'') (cpio_member_entry True 0 (demo_cpio ''a'' []))]"
    by (simp add: policy_output_def apply_hardlink_policy_def cpio_new_def cpio_member_entry_def is_cpio_symlink_def
        entry_type_from_mode_def)
  from cpio_archive_roundtrip [OF ok, of "[cpio_archive_bytes True ?ms 5]" 5 "\<lambda>b e. b @ [(ae_path e, ae_link_target e)]" "[]"]
  obtain p where "feed_chunks cpio_feed (\<lambda>b e. b @ [(ae_path e, ae_link_target e)]) cpio_new [] [cpio_archive_bytes True ?ms 5] =
      Some (p, foldl (\<lambda>b e. b @ [(ae_path e, ae_link_target e)]) [] (policy_output (cpio_members_at True 0 ?ms)), Inr True)"
    by (auto simp: Let_def)
  then show ?thesis unfolding po
    by (simp add: as_hard_link_def cpio_member_entry_def is_cpio_symlink_def entry_type_from_mode_def)
qed

text \<open>
  C12. An odc archive that ends with its trailer loses hard links: of the links whose data never came, which
  are put out at the trailer, only the first is reported, and the parser accepts the end of the stream.
\<close>

theorem odc_trailer_loses_links:
  assumes "list_all (cpio_member_ok True) ms" and "policy_run cpio_new (cpio_members_at True 0 ms) = (q, es)"
    and "concat (map snd (cp_deferred_links q)) = e # e' # lost"
  shows "\<exists>p. feed_to_parser cpio_feed add cpio_new b (cpio_archive_bytes True ms 0) 0 =
      Some (p, foldl add b (es @ [e]), Inr (length (cpio_archive_bytes True ms 0), False)) \<and>
    cpio_end_of_stream p = Inr ()"
  using run_cpio_archive [OF assms(1), of add b 0] assms(2,3) by (auto simp: Let_def simp del: concat_eq_Nil_conv)

theorem odc_trailer_loses_links_witness:
  "\<exists>p. feed_to_parser cpio_feed (\<lambda>b e. b @ [ae_path e]) cpio_new []
      (cpio_archive_bytes True [demo_cpio ''a'' [], demo_cpio ''b'' []] 0) 0 =
    Some (p, [ascii ''a''], Inr (length (cpio_archive_bytes True [demo_cpio ''a'' [], demo_cpio ''b'' []] 0), False))"
proof -
  let ?ms = "[demo_cpio ''a'' [], demo_cpio ''b'' []]"
  let ?e = "cpio_member_entry True 0 (demo_cpio ''a'' [])"
  let ?e' = "cpio_member_entry True (length (cpio_member_bytes True (demo_cpio ''a'' []))) (demo_cpio ''b'' [])"
  have ok: "list_all (cpio_member_ok True) ?ms"
    unfolding list.pred_inject by (intro conjI demo_cpio_ok TrueI) (simp_all add: TRAILER_NAME_def)
  have run: "policy_run cpio_new (cpio_members_at True 0 ?ms) = (cpio_new\<lparr>cp_deferred_links := [((0, 0, 7), [?e, ?e'])]\<rparr>, [])"
    by (simp add: apply_hardlink_policy_def cpio_new_def cpio_member_entry_def is_cpio_symlink_def entry_type_from_mode_def)
  from odc_trailer_loses_links [OF ok run, of ?e ?e' "[]" "\<lambda>b e. b @ [ae_path e]" "[]"] show ?thesis
    by (auto simp: cpio_member_entry_def)
qed

end
