(* ===== verification/EndToEnd.thy ===== *)
theory EndToEnd
  imports SyncArchive TarWriter ArWriter CpioWriter
begin

text \<open>
  From a compressed archive to the contents of its members: what the writers of \<^verbatim>\<open>TarWriter\<close>,
  \<^verbatim>\<open>ArWriter\<close> and \<^verbatim>\<open>CpioWriter\<close> lay out, compressed in any way a decoder undoes, indexed by \<^verbatim>\<open>Archive\<close> of
  \<^verbatim>\<open>src/sync/reader.rs\<close> and read back by path.
\<close>

section \<open>Entries and their data\<close>

lemma fold_add_entry [simp]:
  "ib_entries (foldl add_entry b es) = ib_entries b @ map index_entry_of es"
  "ib_archive_format (foldl add_entry b es) = ib_archive_format b"
  by (induction es arbitrary: b) (simp_all add: add_entry_def)

lemma ib_entries_new [simp]: "ib_entries (set_archive_format (builder_new c f n) f') = []"
  "ib_archive_format (set_archive_format b f') = f'"
  by (simp_all add: set_archive_format_def builder_new_def)

text \<open>An entry no later one hides.\<close>

definition last_of_path :: "archive_entry list \<Rightarrow> nat \<Rightarrow> bool" where
  "last_of_path es i \<longleftrightarrow> i < length es \<and> (\<forall>j. i < j \<longrightarrow> j < length es \<longrightarrow> ae_path (es ! j) \<noteq> ae_path (es ! i))"

lemma last_with_path_nth:
  assumes "i < length es" and "\<forall>j. i < j \<longrightarrow> j < length es \<longrightarrow> en_path (es ! j) \<noteq> en_path (es ! i)"
  shows "last_with_path es (en_path (es ! i)) = Some (es ! i)"
  using assms
proof (induction es rule: rev_induct)
  case (snoc e es)
  show ?case
  proof (cases "i = length es")
    case False
    with snoc.prems have i: "i < length es" by simp
    have "en_path e \<noteq> en_path ((es @ [e]) ! i)" using snoc.prems(2) [rule_format, of "length es"] i by (simp add: nth_append)
    moreover have "\<forall>j. i < j \<longrightarrow> j < length es \<longrightarrow> en_path (es ! j) \<noteq> en_path (es ! i)"
    proof (intro allI impI)
      fix j assume "i < j" "j < length es"
      with snoc.prems(2) [rule_format, of j] i show "en_path (es ! j) \<noteq> en_path (es ! i)" by (simp add: nth_append)
    qed
    ultimately show ?thesis using snoc.IH [OF i] i by (simp add: nth_append)
  qed simp
qed simp

lemma assemble_get:
  assumes "last_of_path es i"
  shows "archive_get (assemble (map index_entry_of es) c f n s complete) (ae_path (es ! i)) =
    Some ((index_entry_of (es ! i))\<lparr>en_checkpoint := fst (best_checkpoint_for_offset s (ae_data_offset (es ! i)))\<rparr>)"
proof -
  let ?es = "map (\<lambda>e. e\<lparr>en_checkpoint := fst (best_checkpoint_for_offset s (en_offset e))\<rparr>) (map index_entry_of es)"
  have nth: "?es ! j = (index_entry_of (es ! j))\<lparr>en_checkpoint := fst (best_checkpoint_for_offset s (ae_data_offset (es ! j)))\<rparr>"
    if "j < length es" for j
    using that by (simp add: index_entry_of_def)
  have path: "en_path (?es ! j) = ae_path (es ! j)" if "j < length es" for j
    using that nth [OF that] by (simp add: index_entry_of_def)
  have "i < length ?es" "\<forall>j. i < j \<longrightarrow> j < length ?es \<longrightarrow> en_path (?es ! j) \<noteq> en_path (?es ! i)"
    using assms path unfolding last_of_path_def by (simp_all only: length_map) auto
  from last_with_path_nth [OF this] have "last_with_path ?es (ae_path (es ! i)) = Some (?es ! i)"
    using path assms by (simp add: last_of_path_def)
  then show ?thesis using nth assms
    by (simp add: assemble_def Let_def archive_get_new last_of_path_def)
qed

context decoder
begin

text \<open>Entries whose ranges hold \<open>datas\<close> are read back by path.\<close>

lemma read_members:
  assumes rd: "reads_ok packed rd" and idx: "index_ok stream" and cr: "create (si_codec stream) = Inr d" "fresh d"
    and len: "length unpacked < 2 ^ 64" and last: "last_of_path es i"
    and range: "ae_data_offset (es ! i) + ae_size (es ! i) \<le> length unpacked"
    and b: "ib_entries b = map index_entry_of es"
  shows "archive_read_file ops create (builder_finish b stream complete) packed rd (ae_path (es ! i)) =
      Some (Inr (subslice (ae_data_offset (es ! i)) (ae_data_offset (es ! i) + ae_size (es ! i)) unpacked))"
    "archive_read_file_range ops create (builder_finish b stream complete) packed rd (ae_path (es ! i)) off n =
      Some (Inr (take n (drop off (subslice (ae_data_offset (es ! i)) (ae_data_offset (es ! i) + ae_size (es ! i)) unpacked))))"
proof -
  let ?idx = "builder_finish b stream complete" and ?data = "subslice (ae_data_offset (es ! i)) (ae_data_offset (es ! i) + ae_size (es ! i)) unpacked"
  define e where "e = (index_entry_of (es ! i))\<lparr>en_checkpoint := fst (best_checkpoint_for_offset stream (ae_data_offset (es ! i)))\<rparr>"
  have get: "archive_get ?idx (ae_path (es ! i)) = Some e"
    using assemble_get [OF last] b by (simp add: builder_finish_def e_def)
  have sel: "en_offset e = ae_data_offset (es ! i)" "en_size e = ae_size (es ! i)" by (simp_all add: e_def index_entry_of_def)
  have s: "ai_stream ?idx = stream" by (simp add: builder_finish_def)
  have bound: "en_offset e + en_size e < 2 ^ 64" using range len sel by simp
  have all: "\<exists>r r'. read_engine_for_entry_range create ?idx e off n = Inr r \<and>
      read_loop ops packed rd r 0 [] = Some (r', Inr (take n (drop off ?data)))" for off n
    using read_entry_range [where create = create and d = d and idx = ?idx and e = e and fo = off and len = n and pos = 0, OF rd]
      idx cr bound range by (simp add: s sel)
  have "take (2 ^ 64 - 1) (drop 0 ?data) = ?data" using len by simp
  then show "archive_read_file ops create ?idx packed rd (ae_path (es ! i)) = Some (Inr ?data)"
    using all [of 0 "2 ^ 64 - 1"] get by (auto simp: archive_read_file_def read_engine_new_def read_engine_new_range_def)
  show "archive_read_file_range ops create ?idx packed rd (ae_path (es ! i)) off n = Some (Inr (take n (drop off ?data)))"
    using all [of off n] get by (auto simp: archive_read_file_range_def read_engine_new_range_def)
qed

lemma index_ok_new: "index_ok (stream_index_new codec clen)"
  using start_law by (simp add: index_ok_def stream_index_new_def cps_ok_start last_checkpoint_def) (simp add: start_checkpoint_def)

text \<open>Indexing gives an outcome of handing the unpacked stream to the parser.\<close>

lemma archive_with_strategy_outcome:
  assumes "reads_ok packed rd" and "detect_format (take 512 packed) = Some format"
    and "create (codec_of_format format) = Inr d" and "fresh d"
  shows "\<exists>stream res. index_ok stream \<and> si_codec stream = codec_of_format format \<and>
    parse_outcome None (builder_new format Tar (length packed)) unpacked res \<and>
    archive_with_strategy ops create packed rd S strat = Some (map_sum id (\<lambda>b. builder_finish b stream True) res)"
proof -
  from build_with_strategy_ok [where create = create and format = format and file_size = "length packed" and d = d,
      OF assms, of S strat "\<lambda>p _. (p, True)" "()"]
  obtain res where r: "archive_with_strategy ops create packed rd S strat = Some res"
    "drive_result None (builder_new format Tar (length packed)) (codec_of_format format) res True"
    by (auto simp: archive_with_strategy_def)
  show ?thesis
  proof (cases res)
    case (Inl err)
    with r index_ok_new [of "codec_of_format format" None] show ?thesis
      by (intro exI [of _ "stream_index_new (codec_of_format format) None"] exI [of _ "Inl err"])
        (simp add: drive_result_def stream_index_new_def)
  next
    case (Inr idx)
    from r(2) obtain stream b' complete where i: "idx = builder_finish b' stream complete" "index_ok stream"
      "si_codec stream = codec_of_format format" "complete"
      "complete \<longrightarrow> parse_outcome None (builder_new format Tar (length packed)) unpacked (Inr b')"
      unfolding drive_result_def Inr sum.case by blast
    with r(1) Inr show ?thesis by (intro exI [of _ stream] exI [of _ "Inr b'"]) simp
  qed
qed

lemma archive_with_strategy_parse:
  assumes "reads_ok packed rd" and "detect_format (take 512 packed) = Some format"
    and "create (codec_of_format format) = Inr d" and "fresh d"
    and "\<not> stream_stalls None (builder_new format Tar (length packed)) unpacked"
  shows "\<exists>stream. index_ok stream \<and> si_codec stream = codec_of_format format \<and>
    archive_with_strategy ops create packed rd S strat =
      map_option (map_sum id (\<lambda>b. builder_finish b stream True)) (parse_stream None (builder_new format Tar (length packed)) unpacked)"
  using archive_with_strategy_outcome [where create = create, OF assms(1-4), of S strat] parse_outcome_stream [OF _ assms(5)]
  by fastforce

end

section \<open>What the parsers make of written archives\<close>

lemma parse_stream_tar:
  assumes "list_all tar_member_ok ms" and det: "detect_archive_format (tar_archive_bytes ms) = Some Tar"
  shows "parse_stream None b (tar_archive_bytes ms) = Some (Inr (foldl add_entry (set_archive_format b Tar) (tar_entries_at 0 ms)))"
    "\<not> stream_stalls None b (tar_archive_bytes ms)"
proof -
  let ?b = "set_archive_format b Tar"
  obtain p where "feed_to_parser tar_feed add_entry tar_new ?b (tar_archive_bytes ms) 0 =
      Some (p, foldl add_entry ?b (tar_entries_at 0 ms), Inr (length (tar_archive_bytes ms), True))"
    using tar_run_archive [OF assms(1), of add_entry ?b] by blast
  then have run: "feed_to_parser parser_feed add_entry (create_archive_parser Tar) ?b (tar_archive_bytes ms) 0 =
      Some (PTar p, foldl add_entry ?b (tar_entries_at 0 ms), Inr (length (tar_archive_bytes ms), True))"
    using tar.run_lift [where g = parser_feed and C = PTar and add = add_entry, OF tar_inv_new] by (simp add: create_archive_parser_def)
  have f: "stream_format None (tar_archive_bytes ms) = Tar" using assms(2) by (simp add: stream_format_def unwrap_or_def)
  have ne: "tar_archive_bytes ms \<noteq> []" by (simp add: tar_archive_bytes_def)
  show "parse_stream None b (tar_archive_bytes ms) = Some (Inr (foldl add_entry ?b (tar_entries_at 0 ms)))"
    using run f ne by (simp add: parse_stream_def)
  show "\<not> stream_stalls None b (tar_archive_bytes ms)" using run f by (simp add: stream_stalls_def run_stalls_def)
qed

lemma detect_ar: "detect_archive_format (ar_archive_bytes ms) = Some Ar"
proof -
  have "take 8 (ar_archive_bytes ms) = AR_MAGIC" by (simp add: ar_archive_bytes_def AR_MAGIC_simp)
  then show ?thesis by (simp add: detect_alt)
qed

lemma parse_stream_ar:
  assumes "ar_archive_ok ms"
  shows "parse_stream None b (ar_archive_bytes ms) = Some (Inr (foldl add_entry (set_archive_format b Ar)
      (ar_entries_at (8 + length (ar_table_bytes (long_table ms))) ms)))"
    "\<not> stream_stalls None b (ar_archive_bytes ms)"
proof -
  let ?b = "set_archive_format b Ar" and ?es = "ar_entries_at (8 + length (ar_table_bytes (long_table ms))) ms"
  obtain p where p: "feed_to_parser ar_feed add_entry ar_new ?b (ar_archive_bytes ms) 0 =
      Some (p, foldl add_entry ?b ?es, Inr (length (ar_archive_bytes ms), False))" "ar_end_of_stream p = Inr ()"
    using run_ar_archive [OF assms, of add_entry ?b] by blast
  then have run: "feed_to_parser parser_feed add_entry (create_archive_parser Ar) ?b (ar_archive_bytes ms) 0 =
      Some (PAr p, foldl add_entry ?b ?es, Inr (length (ar_archive_bytes ms), False))"
    using ar.run_lift [where g = parser_feed and C = PAr and add = add_entry, OF ar_inv_new] by (simp add: create_archive_parser_def)
  have f: "stream_format None (ar_archive_bytes ms) = Ar" by (simp add: stream_format_def unwrap_or_def detect_ar)
  have ne: "ar_archive_bytes ms \<noteq> []" by (simp add: ar_archive_bytes_def AR_MAGIC_simp)
  show "parse_stream None b (ar_archive_bytes ms) = Some (Inr (foldl add_entry ?b ?es))"
    using run f ne p(2) by (simp add: parse_stream_def parser_end_of_stream_def)
  show "\<not> stream_stalls None b (ar_archive_bytes ms)" using run f by (simp add: stream_stalls_def run_stalls_def)
qed

lemma tar_entries_nth:
  "length (tar_entries_at off ms) = length ms"
  "i < length ms \<Longrightarrow> \<exists>off'. tar_entries_at off ms ! i = tar_entry_into (tar_member_entry off' (ms ! i))"
  by (induction ms arbitrary: off i) (auto simp: nth_Cons split: nat.split)

lemma ar_entries_nth:
  "length (ar_entries_at off ms) = length ms"
  "i < length ms \<Longrightarrow> \<exists>off'. ar_entries_at off ms ! i = ar_member_entry off' (ms ! i)"
  by (induction ms arbitrary: off i) (auto simp: nth_Cons split: nat.split)

text \<open>Every entry lies within its archive.\<close>

lemma tar_entries_range:
  "list_all tar_member_ok ms \<Longrightarrow> i < length ms \<Longrightarrow>
    ae_data_offset (tar_entries_at off ms ! i) + ae_size (tar_entries_at off ms ! i) \<le> off + length (concat (map tar_member_bytes ms))"
proof (induction ms arbitrary: off i)
  case (Cons m ms)
  have h: "length (tar_header_bytes m) = BLOCK_SIZE"
    using Cons.prems length_tar_parts(3) [of m] by (simp add: BLOCK_SIZE_def)
  show ?case
  proof (cases i)
    case 0
    then show ?thesis using h by (simp add: tar_entry_into_def tar_member_entry_def tar_member_bytes_def)
  next
    case (Suc j)
    with Cons.IH [of j "off + length (tar_member_bytes m)"] Cons.prems show ?thesis by (simp add: add.assoc)
  qed
qed simp

lemma ar_entries_range:
  "list_all ar_member_ok ms \<Longrightarrow> i < length ms \<Longrightarrow> off0 + length (long_table ms) < 10 ^ 7 \<Longrightarrow>
    ae_data_offset (ar_entries_at off ms ! i) + ae_size (ar_entries_at off ms ! i) \<le> off + length (ar_members_bytes off0 ms)"
proof (induction ms arbitrary: off off0 i)
  case (Cons m ms)
  have lt: "long_table (m # ms) = long_table [m] @ long_table ms" by (simp add: long_table_def)
  have "off0 < 10 ^ 7" using Cons.prems(3) by simp
  then have h: "length (ar_member_header_bytes off0 m) = 60"
    using Cons.prems(1) by (intro ar_parse_member_header(2)) simp_all
  show ?case
  proof (cases i)
    case 0
    then show ?thesis using h by (simp add: ar_member_entry_def ar_body_def)
  next
    case (Suc j)
    have "off0 + length (long_table [m]) + length (long_table ms) < 10 ^ 7" using Cons.prems(3) by (simp add: lt)
    with Cons.IH [of j "off0 + length (long_table [m])" "off + 60 + length (ar_body (am_data m))"] Cons.prems Suc h
    show ?thesis by simp
  qed
qed simp

section \<open>Properties\<close>

text \<open>What a compressed archive has to meet: its format is recognised and has a decoder.\<close>

definition opens :: "(codec_spec \<Rightarrow> 'd result) \<Rightarrow> ('d \<Rightarrow> bool) \<Rightarrow> bytes \<Rightarrow> compression_format \<Rightarrow> bool" where
  "opens create fresh packed format \<longleftrightarrow>
     detect_format (take 512 packed) = Some format \<and> (\<exists>d. create (codec_of_format format) = Inr d \<and> fresh d)"

text \<open>A complete index of the members \<open>es\<close> through which every path reads the data of its last member.\<close>

definition serves ::
  "'d decompressor \<Rightarrow> (codec_spec \<Rightarrow> 'd result) \<Rightarrow> bytes \<Rightarrow> archive_index \<Rightarrow> archive_entry list \<Rightarrow> bytes list \<Rightarrow> bool" where
  "serves ops create packed idx es datas \<longleftrightarrow>
     im_complete (ai_metadata idx) \<and> map en_path (archive_list_all idx) = map ae_path es \<and>
     (\<forall>rd i off len. reads_ok packed rd \<longrightarrow> last_of_path es i \<longrightarrow>
        archive_read_file ops create idx packed rd (ae_path (es ! i)) = Some (Inr (datas ! i)) \<and>
        archive_read_file_range ops create idx packed rd (ae_path (es ! i)) off len =
          Some (Inr (take len (drop off (datas ! i)))))"

lemma archive_serves:
  assumes dec: "decoder ops packed unpacked at good fresh" and op: "opens create fresh packed format"
    and rd: "reads_ok packed rd" and len: "length unpacked < 2 ^ 64"
    and ps: "parse_stream None (builder_new format Tar (length packed)) unpacked = Some (Inr b)"
      "\<not> stream_stalls None (builder_new format Tar (length packed)) unpacked"
    and b: "ib_entries b = map index_entry_of es" and n: "length datas = length es"
    and data: "\<And>i. i < length es \<Longrightarrow> ae_data_offset (es ! i) + ae_size (es ! i) \<le> length unpacked \<and>
      subslice (ae_data_offset (es ! i)) (ae_data_offset (es ! i) + ae_size (es ! i)) unpacked = datas ! i"
  shows "\<exists>idx. archive_with_strategy ops create packed rd S strat = Some (Inr idx) \<and>
    im_archive_format (ai_metadata idx) = ib_archive_format b \<and> serves ops create packed idx es datas"
proof -
  from op obtain d where d: "detect_format (take 512 packed) = Some format"
    "create (codec_of_format format) = Inr d" "fresh d" by (auto simp: opens_def)
  from decoder.archive_with_strategy_parse [where create = create and format = format and d = d and fresh = fresh,
      OF dec rd d ps(2), of S strat] ps(1) obtain stream where
    s: "decoder.index_ok unpacked good stream" "si_codec stream = codec_of_format format"
      "archive_with_strategy ops create packed rd S strat = Some (Inr (builder_finish b stream True))" by auto
  let ?idx = "builder_finish b stream True"
  have "archive_read_file ops create ?idx packed rd' (ae_path (es ! i)) = Some (Inr (datas ! i)) \<and>
      archive_read_file_range ops create ?idx packed rd' (ae_path (es ! i)) off m = Some (Inr (take m (drop off (datas ! i))))"
    if "reads_ok packed rd'" "last_of_path es i" for rd' i off m
  proof -
    have i: "i < length es" using that(2) by (simp add: last_of_path_def)
    have cr: "create (si_codec stream) = Inr d" using s(2) d(2) by simp
    note rm = decoder.read_members [where create = create and d = d and fresh = fresh and stream = stream and es = es and i = i and b = b,
        OF dec that(1) s(1) cr d(3) len that(2) _ b]
    show ?thesis using rm data [OF i] by simp
  qed
  moreover have "map en_path (archive_list_all ?idx) = map ae_path es" "im_complete (ai_metadata ?idx)"
    by (simp_all add: archive_list_all_def archive_list_def builder_finish_def b index_entry_of_def)
  ultimately have "serves ops create packed ?idx es datas" by (simp add: serves_def)
  then show ?thesis using s(3) by (auto simp: builder_finish_def)
qed

text \<open>The demonstration archives stored as they are.\<close>

lemma detect_stored:
  "6 \<le> length h \<Longrightarrow> h ! 0 \<notin> {0x1F, 0x42, 0xFD, 0x28} \<Longrightarrow> detect_format h = Some CfNone"
  by (simp add: detect_format_def DETECT_MIN_BYTES_def)

lemma opens_plain:
  assumes "take 6 packed = x" and "x \<in> {[97, 46, 116, 120, 116, 0], [33, 60, 97, 114, 99, 104], [48, 55, 48, 55, 48, 49]}"
  shows "opens (\<lambda>_. Inr none_new) (\<lambda>d. d = none_new) packed CfNone"
proof -
  have "length (take 6 packed) = 6" using assms by auto
  then have len: "6 \<le> length packed" by simp
  have "packed ! 0 = take 6 packed ! 0" by simp
  then have "packed ! 0 \<in> {97, 33, 48}" using assms by auto
  then have "take 512 packed ! 0 \<notin> {0x1F, 0x42, 0xFD, 0x28}" by auto
  then have "detect_format (take 512 packed) = Some CfNone" by (rule detect_stored [rotated]) (use len in simp)
  then show ?thesis by (simp add: opens_def)
qed

text \<open>
  When a tar archive is recognised: \<^verbatim>\<open>detect_archive_format\<close> looks at the magics of the other formats first,
  where a tar archive has the name of its first member.
\<close>

definition first_name :: "tar_member list \<Rightarrow> bytes" where
  "first_name ms = (case ms of [] \<Rightarrow> [] | m # _ \<Rightarrow> tm_name m)"

lemma take_pad_iff:
  assumes "0 \<notin> set z" and "length z = n" and "n \<le> length name + k"
  shows "take n (name @ replicate k 0 @ rest) = z \<longleftrightarrow> take n name = z"
proof (cases "n \<le> length name")
  case False
  then have "0 \<in> set (take n (name @ replicate k 0 @ rest))" using assms(3)
    by (auto simp: in_set_conv_nth nth_append intro!: exI [of _ "length name"])
  moreover have "take n name \<noteq> z" using False assms(2) by auto
  ultimately show ?thesis using assms(1) by metis
qed simp

lemma tar_archive_head:
  assumes "list_all tar_member_ok ms"
  obtains k rest where "tar_archive_bytes ms = first_name ms @ replicate k 0 @ rest" "8 \<le> length (first_name ms) + k"
    "263 \<le> length (tar_archive_bytes ms)"
proof (cases ms)
  case Nil
  have "replicate 1024 (0 :: byte) = replicate 8 0 @ replicate 1016 0" by (simp add: replicate_add [symmetric])
  then show ?thesis using that [of 8 "replicate 1016 0"] Nil by (simp add: tar_archive_bytes_def first_name_def)
next
  case (Cons m ms')
  then have ok: "tar_header_ok m" using assms by simp
  define rest where "rest = drop 100 (tar_archive_bytes ms)"
  have "length (tm_name m) \<le> 100" using ok by (simp add: tar_header_ok_def text_ok_def)
  moreover from this have "tar_archive_bytes ms = pad_field 100 (tm_name m) @ rest"
    by (simp add: rest_def Cons tar_archive_bytes_def tar_member_bytes_def tar_header_bytes_def tar_pre_def)
  moreover have "263 \<le> length (tar_archive_bytes ms)" by (simp add: tar_archive_bytes_def)
  ultimately show ?thesis using that [of "100 - length (tm_name m)" rest] by (simp add: pad_field_def first_name_def Cons)
qed

lemma detect_tar:
  assumes "list_all tar_member_ok ms"
  shows "detect_archive_format (tar_archive_bytes ms) =
    (if take 8 (first_name ms) \<in> {AR_MAGIC, THIN_MAGIC} then Some Ar
     else if take 6 (first_name ms) \<in> {NEWC_MAGIC, NEWC_CRC_MAGIC, ODC_MAGIC} \<or>
       take 2 (first_name ms) \<in> {[0xC7, 0x71], [0x71, 0xC7]} then Some Cpio
     else Some Tar)"
proof -
  obtain k rest where t: "tar_archive_bytes ms = first_name ms @ replicate k 0 @ rest" "8 \<le> length (first_name ms) + k"
    "263 \<le> length (tar_archive_bytes ms)" by (rule tar_archive_head [OF assms])
  have iff: "take n (tar_archive_bytes ms) = z \<longleftrightarrow> take n (first_name ms) = z" if "0 \<notin> set z" "length z = n" "n \<le> 8" for n z
    unfolding t(1) by (rule take_pad_iff) (use that t(2) in auto)
  have z: "0 \<notin> set AR_MAGIC" "length AR_MAGIC = 8" "0 \<notin> set THIN_MAGIC" "length THIN_MAGIC = 8"
    "0 \<notin> set NEWC_MAGIC" "length NEWC_MAGIC = 6" "0 \<notin> set NEWC_CRC_MAGIC" "length NEWC_CRC_MAGIC = 6"
    "0 \<notin> set ODC_MAGIC" "length ODC_MAGIC = 6"
    by (simp_all add: AR_MAGIC_simp THIN_MAGIC_simp NEWC_MAGIC_def NEWC_CRC_MAGIC_def ODC_MAGIC_def)
  note magics = iff [OF z(1,2)] iff [OF z(3,4)] iff [OF z(5,6)] iff [OF z(7,8)] iff [OF z(9,10)]
  have old: "take 2 (tar_archive_bytes ms) = [0xC7, 0x71] \<longleftrightarrow> take 2 (first_name ms) = [0xC7, 0x71]"
    "take 2 (tar_archive_bytes ms) = [0x71, 0xC7] \<longleftrightarrow> take 2 (first_name ms) = [0x71, 0xC7]"
    by (rule iff; simp)+
  show ?thesis
    unfolding detect_alt NEWC_MAGIC_def [symmetric] NEWC_CRC_MAGIC_def [symmetric] ODC_MAGIC_def [symmetric]
      insert_iff empty_iff old simp_thms
    using magics t(3) by (simp add: MIN_DETECT_BYTES_def)
qed

definition tar_first_name_ok :: "tar_member list \<Rightarrow> bool" where
  "tar_first_name_ok ms \<longleftrightarrow>
     take 8 (first_name ms) \<notin> {AR_MAGIC, THIN_MAGIC} \<and>
     take 6 (first_name ms) \<notin> {NEWC_MAGIC, NEWC_CRC_MAGIC, ODC_MAGIC} \<and>
     take 2 (first_name ms) \<notin> {[0xC7, 0x71], [0x71, 0xC7]}"

lemma demo_tar_facts:
  "take 6 (tar_archive_bytes [demo_member]) = [97, 46, 116, 120, 116, 0]"
  "length (tar_archive_bytes [demo_member]) = 2048"
  "tar_first_name_ok [demo_member]"
proof -
  have f: "pad_field 100 (tm_name demo_member) = [97, 46, 116, 120, 116, 0] @ replicate 94 0"
    by (simp add: pad_field_def demo_member_def) (simp add: eval_nat_numeral)
  have p: "take 6 (tar_archive_bytes [demo_member]) = [97, 46, 116, 120, 116, 0]"
    if "tar_archive_bytes [demo_member] = pad_field 100 (tm_name demo_member) @ r" for r
    using that by (simp add: f)
  show t: "take 6 (tar_archive_bytes [demo_member]) = [97, 46, 116, 120, 116, 0]"
    by (rule p, unfold tar_archive_bytes_def tar_member_bytes_def tar_header_bytes_def tar_pre_def list.map concat.simps
        append_assoc, rule refl)
  have "length (tar_header_bytes demo_member) = 512" using length_tar_parts(3) [OF tar_member_header_ok [OF demo_member_ok]] by simp
  then show l: "length (tar_archive_bytes [demo_member]) = 2048"
    by (simp add: tar_archive_bytes_def tar_member_bytes_def padded_size_def blocks_for_size_def BLOCK_SIZE_def)
      (simp add: demo_member_def)
  show "tar_first_name_ok [demo_member]"
    by (simp add: tar_first_name_ok_def first_name_def demo_member_def AR_MAGIC_simp THIN_MAGIC_simp NEWC_MAGIC_def
        NEWC_CRC_MAGIC_def ODC_MAGIC_def)
qed

text \<open>C22: A tar archive of ustar members, compressed in any way its decoder undoes, is indexed with
  any strategy into exactly its members, and every path then reads the whole or any range of its
  last member, however the file is cut into reads in either pass. The one condition on the names is that
  the first member's does not begin with a magic of ar (\<^verbatim>\<open>!<arch>\n\<close>, \<^verbatim>\<open>!<thin>\n\<close>) or cpio (\<^verbatim>\<open>070701\<close>, \<^verbatim>\<open>070702\<close>,
  \<^verbatim>\<open>070707\<close>, the bytes C7 71 or 71 C7).\<close>

theorem tar_archive_reads:
  assumes "decoder ops packed (tar_archive_bytes ms) at good fresh" and "opens create fresh packed format"
    and "reads_ok packed rd" and "length (tar_archive_bytes ms) < 2 ^ 64" and "list_all tar_member_ok ms"
    and "tar_first_name_ok ms"
  shows "\<exists>idx. archive_with_strategy ops create packed rd S strat = Some (Inr idx) \<and>
    im_archive_format (ai_metadata idx) = Tar \<and>
    serves ops create packed idx (tar_entries_at 0 ms) (map tm_data ms)"
proof -
  let ?es = "tar_entries_at 0 ms" and ?U = "tar_archive_bytes ms"
  have det: "detect_archive_format ?U = Some Tar" using assms(6) by (simp add: detect_tar [OF assms(5)] tar_first_name_ok_def)
  have data: "ae_data_offset (?es ! i) + ae_size (?es ! i) \<le> length ?U \<and>
      subslice (ae_data_offset (?es ! i)) (ae_data_offset (?es ! i) + ae_size (?es ! i)) ?U = map tm_data ms ! i"
    if "i < length ?es" for i
  proof -
    have i: "i < length ms" using that by (simp add: tar_entries_nth)
    show ?thesis
      using tar_entries_data [OF assms(5) i, of "[]" "replicate 1024 0"] tar_entries_range [OF assms(5) i, of 0] i
      by (simp add: tar_archive_bytes_def)
  qed
  from archive_serves [where datas = "map tm_data ms" and es = ?es, OF assms(1-4) parse_stream_tar [OF assms(5) det] _ _ data, of S strat]
  show ?thesis by (simp add: tar_entries_nth)
qed

theorem tar_archive_reads_witness:
  "\<exists>idx. archive_with_strategy none_ops (\<lambda>_. Inr none_new) (tar_archive_bytes [demo_member])
      (plain_rd (tar_archive_bytes [demo_member])) fixed_interval_ops (fixed_interval_new 100) = Some (Inr idx) \<and>
    archive_read_file none_ops (\<lambda>_. Inr none_new) idx (tar_archive_bytes [demo_member])
      (plain_rd (tar_archive_bytes [demo_member])) (ascii ''dir/a.txt'') = Some (Inr (ascii ''hello''))"
proof -
  let ?U = "tar_archive_bytes [demo_member]" and ?c = "\<lambda>_. Inr none_new"
  have ok: "list_all tar_member_ok [demo_member]" using demo_member_ok by simp
  have len: "length ?U < 2 ^ 64" by (simp add: demo_tar_facts(2))
  have op: "opens ?c (\<lambda>d. d = none_new) ?U CfNone" by (rule opens_plain [OF demo_tar_facts(1)]) simp
  have last: "last_of_path (tar_entries_at 0 [demo_member]) 0" by (simp add: last_of_path_def)
  have e: "ae_path (tar_entries_at 0 [demo_member] ! 0) = ascii ''dir/a.txt''"
    by (simp add: tar_entry_into_def tar_member_entry_def demo_member_def)
  have d: "map tm_data [demo_member] ! 0 = ascii ''hello''" by (simp add: demo_member_def)
  from tar_archive_reads [OF none.decoder_axioms op plain_rd_ok len ok demo_tar_facts(3),
      of fixed_interval_ops "fixed_interval_new 100"] obtain idx where
    i: "archive_with_strategy none_ops ?c ?U (plain_rd ?U) fixed_interval_ops (fixed_interval_new 100) = Some (Inr idx)"
      "serves none_ops ?c ?U idx (tar_entries_at 0 [demo_member]) (map tm_data [demo_member])" by blast
  from i(2) plain_rd_ok last have "archive_read_file none_ops ?c idx ?U (plain_rd ?U) (ae_path (tar_entries_at 0 [demo_member] ! 0)) =
      Some (Inr (map tm_data [demo_member] ! 0))" unfolding serves_def by blast
  with i(1) show ?thesis unfolding e d by blast
qed

text \<open>C23: The same for the archives of a GNU ar writer, whose format is always recognised.\<close>

theorem ar_archive_reads:
  assumes "decoder ops packed (ar_archive_bytes ms) at good fresh" and "opens create fresh packed format"
    and "reads_ok packed rd" and "length (ar_archive_bytes ms) < 2 ^ 64" and "ar_archive_ok ms"
  shows "\<exists>idx. archive_with_strategy ops create packed rd S strat = Some (Inr idx) \<and>
    im_archive_format (ai_metadata idx) = Ar \<and>
    serves ops create packed idx (ar_entries_at (8 + length (ar_table_bytes (long_table ms))) ms) (map am_data ms)"
proof -
  let ?pre = "AR_MAGIC @ ar_table_bytes (long_table ms)"
  let ?es = "ar_entries_at (8 + length (ar_table_bytes (long_table ms))) ms" and ?U = "ar_archive_bytes ms"
  have ok: "list_all ar_member_ok ms" "0 + length (long_table ms) < 10 ^ 7" using assms(5) by (simp_all add: ar_archive_ok_def)
  have len: "length ?pre = 8 + length (ar_table_bytes (long_table ms))" by (simp add: AR_MAGIC_simp)
  have data: "ae_data_offset (?es ! i) + ae_size (?es ! i) \<le> length ?U \<and>
      subslice (ae_data_offset (?es ! i)) (ae_data_offset (?es ! i) + ae_size (?es ! i)) ?U = map am_data ms ! i"
    if "i < length ?es" for i
  proof -
    have i: "i < length ms" using that by (simp add: ar_entries_nth)
    show ?thesis
      using ar_entries_data [OF ok(1) i ok(2), of ?pre] ar_entries_range [OF ok(1) i ok(2), of "length ?pre"] i
      unfolding len by (simp add: ar_archive_bytes_def AR_MAGIC_simp)
  qed
  from archive_serves [where datas = "map am_data ms" and es = ?es, OF assms(1-4) parse_stream_ar [OF assms(5)] _ _ data, of S strat]
  show ?thesis by (simp add: ar_entries_nth)
qed

theorem ar_archive_reads_witness:
  "\<exists>idx. archive_with_strategy none_ops (\<lambda>_. Inr none_new) (ar_archive_bytes demo_ar_members)
      (plain_rd (ar_archive_bytes demo_ar_members)) fixed_interval_ops (fixed_interval_new 100) = Some (Inr idx) \<and>
    archive_read_file none_ops (\<lambda>_. Inr none_new) idx (ar_archive_bytes demo_ar_members)
      (plain_rd (ar_archive_bytes demo_ar_members)) (ascii ''a_rather_long_name.o'') = Some (Inr [8, 9])"
proof -
  let ?U = "ar_archive_bytes demo_ar_members" and ?c = "\<lambda>_. Inr none_new"
  let ?es = "ar_entries_at (8 + length (ar_table_bytes (long_table demo_ar_members))) demo_ar_members"
  have t: "take 6 ?U = [33, 60, 97, 114, 99, 104]" by (simp add: ar_archive_bytes_def AR_MAGIC_simp)
  have op: "opens ?c (\<lambda>d. d = none_new) ?U CfNone" by (rule opens_plain [OF t]) simp
  have len: "length ?U < 2 ^ 64"
    by (simp add: ar_archive_bytes_def demo_ar_members_def ar_table_bytes_def long_table_def is_short_def table_line_def
        ar_header_bytes_def pad_spaces_def show_num.simps digit_char_def ar_member_header_bytes_def name_field_def
        AR_MAGIC_simp FMAG_def ar_body_def)
  have last: "last_of_path ?es 1" by (auto simp: last_of_path_def demo_ar_members_def)
  have e: "ae_path (?es ! 1) = ascii ''a_rather_long_name.o''" by (simp add: demo_ar_members_def ar_member_entry_def)
  have d: "map am_data demo_ar_members ! 1 = [8, 9]" by (simp add: demo_ar_members_def)
  from ar_archive_reads [OF none.decoder_axioms op plain_rd_ok len demo_ar_ok,
      of fixed_interval_ops "fixed_interval_new 100"] obtain idx where
    i: "archive_with_strategy none_ops ?c ?U (plain_rd ?U) fixed_interval_ops (fixed_interval_new 100) = Some (Inr idx)"
      "serves none_ops ?c ?U idx ?es (map am_data demo_ar_members)" by blast
  from i(2) plain_rd_ok last have "archive_read_file none_ops ?c idx ?U (plain_rd ?U) (ae_path (?es ! 1)) =
      Some (Inr (map am_data demo_ar_members ! 1))" unfolding serves_def by blast
  with i(1) show ?thesis unfolding e d by blast
qed

lemma detect_cpio: "detect_archive_format (cpio_archive_bytes odc ms k) = Some Cpio"
proof -
  define m where "m = hd (ms @ [cpio_trailer])"
  obtain rest where r: "cpio_archive_bytes odc ms k = cpio_header_bytes odc m @ rest"
    by (cases ms) (auto simp: cpio_archive_bytes_def cpio_member_bytes_def m_def)
  have l: "6 \<le> length (cpio_header_bytes odc m)" by (simp add: cpio_header_size_def)
  then have t6: "take 6 (cpio_archive_bytes odc ms k) = cpio_magic odc m" unfolding r using take_cpio_header [of odc m] by simp
  then have "cpio_archive_bytes odc ms k ! 0 = 48"
    using take_first [of 5 "cpio_archive_bytes odc ms k" 48]
    by (simp add: cpio_magic_def NEWC_MAGIC_def NEWC_CRC_MAGIC_def ODC_MAGIC_def split: if_splits option.splits)
  then have "take 8 (cpio_archive_bytes odc ms k) \<notin> {AR_MAGIC, THIN_MAGIC}"
    using take_first [of 7 "cpio_archive_bytes odc ms k" 33] by (auto simp: AR_MAGIC_simp THIN_MAGIC_simp)
  then show ?thesis
    by (simp add: detect_alt t6 cpio_magic_def NEWC_MAGIC_def NEWC_CRC_MAGIC_def ODC_MAGIC_def split: option.split)
qed

lemma parse_stream_cpio:
  assumes "list_all (cpio_member_ok odc) ms" and "odc \<longrightarrow> 0 < k"
  shows "parse_stream None b (cpio_archive_bytes odc ms k) =
      Some (Inr (foldl add_entry (set_archive_format b Cpio) (policy_output (cpio_members_at odc 0 ms))))"
    "\<not> stream_stalls None b (cpio_archive_bytes odc ms k)"
proof -
  let ?b = "set_archive_format b Cpio" and ?es = "policy_output (cpio_members_at odc 0 ms)"
  have k: "(odc \<and> k = 0) = False" using assms(2) by auto
  from run_cpio_archive [OF assms(1), of add_entry ?b k, unfolded Let_def k if_False simp_thms] obtain p off es q where
    "policy_run cpio_new (cpio_members_at odc 0 ms) = (q, es)"
    "feed_to_parser cpio_feed add_entry cpio_new ?b (cpio_archive_bytes odc ms k) 0 =
      Some (p, foldl add_entry ?b (es @ concat (map snd (cp_deferred_links q))), Inr (off, True))" by blast
  then have "feed_to_parser cpio_feed add_entry cpio_new ?b (cpio_archive_bytes odc ms k) 0 =
      Some (p, foldl add_entry ?b ?es, Inr (off, True))" by (simp add: policy_output_def)
  then have run: "feed_to_parser parser_feed add_entry (create_archive_parser Cpio) ?b (cpio_archive_bytes odc ms k) 0 =
      Some (PCpio p, foldl add_entry ?b ?es, Inr (off, True))"
    using cpio.run_lift [where g = parser_feed and C = PCpio and add = add_entry, OF cpio_inv_new] by (simp add: create_archive_parser_def)
  have f: "stream_format None (cpio_archive_bytes odc ms k) = Cpio" by (simp add: stream_format_def unwrap_or_def detect_cpio)
  have ne: "cpio_archive_bytes odc ms k \<noteq> []" by (simp add: cpio_archive_bytes_def cpio_member_bytes_def cpio_name_bytes_def)
  show "parse_stream None b (cpio_archive_bytes odc ms k) = Some (Inr (foldl add_entry ?b ?es))"
    using run f ne by (simp add: parse_stream_def)
  show "\<not> stream_stalls None b (cpio_archive_bytes odc ms k)" using run f by (simp add: stream_stalls_def run_stalls_def)
qed

lemma unlink_sel: "unlink e = unlink e' \<Longrightarrow> ae_data_offset e = ae_data_offset e' \<and> ae_size e = ae_size e' \<and> ae_path e = ae_path e'"
  by (simp add: unlink_def) (metis archive_entry.select_convs(1,2,9) archive_entry.surjective archive_entry.update_convs(3,8))

text \<open>The data of an entry in an archive.\<close>

definition entry_data :: "bytes \<Rightarrow> archive_entry \<Rightarrow> bytes" where
  "entry_data archive e = subslice (ae_data_offset e) (ae_data_offset e + ae_size e) archive"

lemma cpio_entry_data:
  assumes "e \<in> set (policy_output (cpio_members_at odc 0 ms))"
  shows "ae_data_offset e + ae_size e \<le> length (cpio_archive_bytes odc ms k) \<and>
    (\<exists>m\<in>set ms. cm_name m = ae_path e \<and>
       entry_data (cpio_archive_bytes odc ms k) e = (if is_cpio_symlink m then [] else cm_data m))"
proof -
  obtain j where j: "j < length ms" "unlink e = unlink (fst (cpio_members_at odc 0 ms ! j))"
    by (rule policy_output_member [OF assms])
  let ?e = "fst (cpio_members_at odc 0 ms ! j)" and ?m = "ms ! j"
  from unlink_sel [OF j(2)] have sel: "ae_data_offset e = ae_data_offset ?e" "ae_size e = ae_size ?e" "ae_path e = ae_path ?e" by simp_all
  have "ae_size ?e = (if is_cpio_symlink ?m then 0 else length (cm_data ?m))" "ae_path ?e = cm_name ?m"
    using cpio_members_nth(1) [OF j(1), of odc 0] by (simp_all add: cpio_member_entry_def)
  with cpio_members_data [OF j(1), of odc k] sel j(1) show ?thesis
    by (auto simp: entry_data_def subslice_def intro!: bexI [of _ ?m])
qed

text \<open>C24: The same for the archives of a cpio writer (newc, newc-CRC and odc), whose format is always
  recognised: the index has what the hard-link policy makes of the members, every path reads the data
  of its last entry, and that is the data of a member of that name (nothing for a symbolic link, whose
  data is its target). An odc archive must have at least a byte after its trailer.\<close>

theorem cpio_archive_reads:
  assumes "decoder ops packed (cpio_archive_bytes odc ms k) at good fresh" and "opens create fresh packed format"
    and "reads_ok packed rd" and "length (cpio_archive_bytes odc ms k) < 2 ^ 64" and "list_all (cpio_member_ok odc) ms"
    and "odc \<longrightarrow> 0 < k"
  shows "let es = policy_output (cpio_members_at odc 0 ms); datas = map (entry_data (cpio_archive_bytes odc ms k)) es in
    (\<exists>idx. archive_with_strategy ops create packed rd S strat = Some (Inr idx) \<and>
       im_archive_format (ai_metadata idx) = Cpio \<and> serves ops create packed idx es datas) \<and>
    (\<forall>i<length es. \<exists>m\<in>set ms. cm_name m = ae_path (es ! i) \<and> datas ! i = (if is_cpio_symlink m then [] else cm_data m))"
proof -
  let ?es = "policy_output (cpio_members_at odc 0 ms)" and ?U = "cpio_archive_bytes odc ms k"
  have data: "ae_data_offset (?es ! i) + ae_size (?es ! i) \<le> length ?U \<and>
      subslice (ae_data_offset (?es ! i)) (ae_data_offset (?es ! i) + ae_size (?es ! i)) ?U = map (entry_data ?U) ?es ! i"
    if "i < length ?es" for i
    using cpio_entry_data [of "?es ! i" odc ms k] that by (simp add: entry_data_def)
  have "\<exists>idx. archive_with_strategy ops create packed rd S strat = Some (Inr idx) \<and>
      im_archive_format (ai_metadata idx) = Cpio \<and> serves ops create packed idx ?es (map (entry_data ?U) ?es)"
    using archive_serves [where datas = "map (entry_data ?U) ?es" and es = ?es,
        OF assms(1-4) parse_stream_cpio [OF assms(5,6)] _ _ data, of S strat] by simp
  moreover have "\<forall>i<length ?es. \<exists>m\<in>set ms. cm_name m = ae_path (?es ! i) \<and>
      map (entry_data ?U) ?es ! i = (if is_cpio_symlink m then [] else cm_data m)"
    using cpio_entry_data [of _ odc ms k] by simp
  ultimately show ?thesis by (simp add: Let_def)
qed

theorem cpio_archive_reads_witness:
  "\<exists>idx. archive_with_strategy none_ops (\<lambda>_. Inr none_new) (cpio_archive_bytes False [demo_cpio ''b'' [1, 2]] 0)
      (plain_rd (cpio_archive_bytes False [demo_cpio ''b'' [1, 2]] 0)) fixed_interval_ops (fixed_interval_new 100) = Some (Inr idx) \<and>
    archive_read_file none_ops (\<lambda>_. Inr none_new) idx (cpio_archive_bytes False [demo_cpio ''b'' [1, 2]] 0)
      (plain_rd (cpio_archive_bytes False [demo_cpio ''b'' [1, 2]] 0)) (ascii ''b'') = Some (Inr [1, 2])"
proof -
  let ?ms = "[demo_cpio ''b'' [1, 2]]"
  let ?U = "cpio_archive_bytes False ?ms 0" and ?c = "\<lambda>_. Inr none_new" and ?es = "policy_output (cpio_members_at False 0 ?ms)"
  have ok: "list_all (cpio_member_ok False) ?ms"
    unfolding list.pred_inject by (intro conjI demo_cpio_ok TrueI) (simp_all add: TRAILER_NAME_def)
  have "take 6 (cpio_header_bytes False (demo_cpio ''b'' [1, 2])) = [48, 55, 48, 55, 48, 49]"
    unfolding take_cpio_header by (simp add: cpio_magic_def demo_cpio_def NEWC_MAGIC_def)
  moreover have "6 \<le> length (cpio_header_bytes False (demo_cpio ''b'' [1, 2]))" by (simp add: cpio_header_size_def)
  ultimately have t: "take 6 ?U = [48, 55, 48, 55, 48, 49]" by (simp add: cpio_archive_bytes_def cpio_member_bytes_def)
  have op: "opens ?c (\<lambda>d. d = none_new) ?U CfNone" by (rule opens_plain [OF t]) simp
  have len: "length ?U < 2 ^ 64"
    by (simp add: cpio_archive_bytes_def cpio_member_bytes_def cpio_name_bytes_def cpio_data_bytes_def align_pad_def
        align4_def cpio_header_size_def cpio_trailer_def TRAILER_NAME_def)
  have es: "?es = [cpio_member_entry False 0 (demo_cpio ''b'' [1, 2])]"
    by (simp add: policy_output_def apply_hardlink_policy_def cpio_new_def cpio_member_entry_def is_cpio_symlink_def
        entry_type_from_mode_def)
  have last: "last_of_path ?es 0" unfolding es by (simp add: last_of_path_def)
  have e: "ae_path (?es ! 0) = ascii ''b''" unfolding es by (simp add: cpio_member_entry_def)
  have k: "False \<longrightarrow> 0 < (0 :: nat)" by simp
  from cpio_archive_reads [OF none.decoder_axioms op plain_rd_ok len ok k, of fixed_interval_ops "fixed_interval_new 100",
      unfolded Let_def] obtain idx where
    i: "archive_with_strategy none_ops ?c ?U (plain_rd ?U) fixed_interval_ops (fixed_interval_new 100) = Some (Inr idx)"
      "serves none_ops ?c ?U idx ?es (map (entry_data ?U) ?es)"
    and d: "\<forall>i<length ?es. \<exists>m\<in>set ?ms. cm_name m = ae_path (?es ! i) \<and>
      map (entry_data ?U) ?es ! i = (if is_cpio_symlink m then [] else cm_data m)" by blast
  from i(2) plain_rd_ok last have "archive_read_file none_ops ?c idx ?U (plain_rd ?U) (ae_path (?es ! 0)) =
      Some (Inr (map (entry_data ?U) ?es ! 0))" unfolding serves_def by blast
  moreover have "map (entry_data ?U) ?es ! 0 = [1, 2]"
    using d [rule_format, of 0] unfolding es by (simp add: is_cpio_symlink_def entry_type_from_mode_def)
  ultimately show ?thesis using i(1) unfolding e by auto
qed

text \<open>C25: Which archives the detection takes for tar: a tar archive is told from the others by nothing but the
  name of its first member, which stands where the other formats have their magic. A tar archive whose
  first member is called \<^verbatim>\<open>070701.txt\<close> is parsed as a cpio archive.\<close>

theorem tar_detected_by_name:
  assumes "list_all tar_member_ok ms"
  shows "detect_archive_format (tar_archive_bytes ms) =
    (if take 8 (first_name ms) \<in> {AR_MAGIC, THIN_MAGIC} then Some Ar
     else if take 6 (first_name ms) \<in> {NEWC_MAGIC, NEWC_CRC_MAGIC, ODC_MAGIC} \<or>
       take 2 (first_name ms) \<in> {[0xC7, 0x71], [0x71, 0xC7]} then Some Cpio
     else Some Tar)"
  by (rule detect_tar [OF assms])

theorem tar_detected_by_name_witness:
  "detect_archive_format (tar_archive_bytes [demo_member\<lparr>tm_name := ascii ''070701.txt''\<rparr>]) = Some Cpio"
proof -
  have "list_all tar_member_ok [demo_member\<lparr>tm_name := ascii ''070701.txt''\<rparr>]"
    by (simp add: demo_member_def tar_member_ok_def tar_header_ok_def text_ok_def from_byte_def is_metadata_def)
  from tar_detected_by_name [OF this] show ?thesis
    by (simp add: first_name_def AR_MAGIC_simp THIN_MAGIC_simp NEWC_MAGIC_def NEWC_CRC_MAGIC_def ODC_MAGIC_def)
qed

text \<open>C26: Indexing refines parsing: for every strategy, every way the file is read and every unpacked stream,
  the engine ends with the error or exactly the entries the archive parser gives when it is handed the
  stream in some chunks, over a checkpoint table that is good for it. Where the parser does not give up
  inside a chunk (as it does after a size-0 metadata member of tar, a cpio header with no name or an
  empty ar name table), the chunks do not matter: it is the result of the stream in one piece. Parsing a
  PAX record whose length overflows panics, which counts as an error.\<close>

theorem indexing_refines_parsing:
  assumes "decoder ops packed unpacked at good fresh" and "opens create fresh packed format" and "reads_ok packed rd"
  shows "\<exists>stream res. decoder.index_ok unpacked good stream \<and> si_codec stream = codec_of_format format \<and>
    archive_with_strategy ops create packed rd S strat = Some (map_sum id (\<lambda>b. builder_finish b stream True) res) \<and>
    parse_outcome None (builder_new format Tar (length packed)) unpacked res \<and>
    (stream_stalls None (builder_new format Tar (length packed)) unpacked \<or>
     parse_stream None (builder_new format Tar (length packed)) unpacked = Some res)"
proof -
  from assms(2) obtain d where d: "detect_format (take 512 packed) = Some format"
    "create (codec_of_format format) = Inr d" "fresh d" by (auto simp: opens_def)
  from decoder.archive_with_strategy_outcome [where create = create and d = d and fresh = fresh, OF assms(1,3) d, of S strat]
  obtain stream res where o: "decoder.index_ok unpacked good stream" "si_codec stream = codec_of_format format"
    "parse_outcome None (builder_new format Tar (length packed)) unpacked res"
    "archive_with_strategy ops create packed rd S strat = Some (map_sum id (\<lambda>b. builder_finish b stream True) res)" by blast
  from parse_outcome_stream [OF o(3)] o show ?thesis by (intro exI conjI) auto
qed

theorem indexing_refines_parsing_witness:
  "\<exists>stream res. archive_with_strategy none_ops (\<lambda>_. Inr none_new) (tar_archive_bytes [demo_member])
      (plain_rd (tar_archive_bytes [demo_member])) fixed_interval_ops (fixed_interval_new 7) =
        Some (map_sum id (\<lambda>b. builder_finish b stream True) res) \<and>
    parse_stream None (builder_new CfNone Tar 2048) (tar_archive_bytes [demo_member]) = Some res"
proof -
  have op: "opens (\<lambda>_. Inr none_new) (\<lambda>d. d = none_new) (tar_archive_bytes [demo_member]) CfNone"
    by (rule opens_plain [OF demo_tar_facts(1)]) simp
  have ok: "list_all tar_member_ok [demo_member]" using demo_member_ok by simp
  have "detect_archive_format (tar_archive_bytes [demo_member]) = Some Tar"
    using demo_tar_facts(3) by (simp add: detect_tar [OF ok] tar_first_name_ok_def)
  from parse_stream_tar(2) [OF ok this]
  have "\<not> stream_stalls None (builder_new CfNone Tar (length (tar_archive_bytes [demo_member]))) (tar_archive_bytes [demo_member])" .
  with indexing_refines_parsing [OF none.decoder_axioms op plain_rd_ok, of fixed_interval_ops "fixed_interval_new 7"]
  show ?thesis unfolding demo_tar_facts(2) by blast
qed

text \<open>C27: Whatever the progress callback does and whatever the unpacked stream holds, indexing ends, with an
  error or an index; the index, complete or cancelled, is well-formed, and every entry in it that lies
  within the stream reads exactly its bytes. (A size from a PAX header may put an entry's end past the
  end of the stream; nothing is said of such entries.)\<close>

theorem partial_index_usable:
  assumes "decoder ops packed unpacked at good fresh" and "opens create fresh packed format"
    and "reads_ok packed rd" and "reads_ok packed rd'" and "length unpacked < 2 ^ 64"
  shows "\<exists>res. build_index_with_strategy ops create packed rd sz S strat on_progress p = Some res \<and>
    (\<forall>idx. res = Inr idx \<longrightarrow> archive_index_ok idx \<and>
       (\<forall>e\<in>set (ai_entries idx). en_offset e + en_size e \<le> length unpacked \<longrightarrow>
          (\<exists>r r'. read_engine_for_entry create idx e = Inr r \<and>
             read_loop ops packed rd' r 0 [] = Some (r', Inr (subslice (en_offset e) (en_offset e + en_size e) unpacked)))))"
proof -
  from assms(2) obtain d where d: "detect_format (take 512 packed) = Some format"
    "create (codec_of_format format) = Inr d" "fresh d" by (auto simp: opens_def)
  from decoder.build_with_strategy_ok [where create = create and d = d and fresh = fresh and file_size = sz, OF assms(1,3) d,
      of S strat on_progress p] obtain res where
    r: "build_index_with_strategy ops create packed rd sz S strat on_progress p = Some res"
      "decoder.drive_result unpacked good None (builder_new format Tar sz) (codec_of_format format) res (\<forall>p x. snd (on_progress p x))"
    by blast
  have "archive_index_ok idx \<and> (\<forall>e\<in>set (ai_entries idx). en_offset e + en_size e \<le> length unpacked \<longrightarrow>
          (\<exists>r r'. read_engine_for_entry create idx e = Inr r \<and>
             read_loop ops packed rd' r 0 [] = Some (r', Inr (subslice (en_offset e) (en_offset e + en_size e) unpacked))))"
    if idx: "res = Inr idx" for idx
  proof -
    from r(2) idx obtain stream b c where s: "idx = builder_finish b stream c"
      "decoder.index_ok unpacked good stream" "si_codec stream = codec_of_format format"
      by (auto simp: decoder.drive_result_def [OF assms(1)])
    have st: "ai_stream idx = stream" by (simp add: s(1) builder_finish_def)
    have "cps_ok (si_checkpoints stream)" using s(2) by (simp add: decoder.index_ok_def [OF assms(1)])
    then have ok: "archive_index_ok idx" unfolding s(1) builder_finish_def by (rule assemble_ok(1))
    have "\<exists>r r'. read_engine_for_entry create idx e = Inr r \<and>
        read_loop ops packed rd' r 0 [] = Some (r', Inr (subslice (en_offset e) (en_offset e + en_size e) unpacked))"
      if "en_offset e + en_size e \<le> length unpacked" for e
    proof -
      have cr: "create (si_codec (ai_stream idx)) = Inr d" "decoder.index_ok unpacked good (ai_stream idx)" using s d(2) st by simp_all
      have bound: "en_offset e + en_size e < 2 ^ 64" using that assms(5) by simp
      have all: "take (2 ^ 64 - 1) (drop 0 (subslice (en_offset e) (en_offset e + en_size e) unpacked)) =
          subslice (en_offset e) (en_offset e + en_size e) unpacked" using assms(5) by simp
      from decoder.read_entry_range [where create = create and d = d and fresh = fresh and idx = idx and e = e and fo = 0
          and len = "2 ^ 64 - 1" and pos = 0, OF assms(1,4) cr(2,1) d(3) bound] that
      show ?thesis by (simp only: all if_True read_engine_for_entry_def)
    qed
    with ok show ?thesis by blast
  qed
  with r(1) show ?thesis by blast
qed

theorem partial_index_usable_witness:
  "\<exists>res. build_index_with_strategy none_ops (\<lambda>_. Inr none_new) (tar_archive_bytes [demo_member])
      (plain_rd (tar_archive_bytes [demo_member])) 0 fixed_interval_ops (fixed_interval_new 7)
      (\<lambda>n _. (n, False)) () = Some res \<and> (\<forall>idx. res = Inr idx \<longrightarrow> archive_index_ok idx)"
proof -
  have op: "opens (\<lambda>_. Inr none_new) (\<lambda>d. d = none_new) (tar_archive_bytes [demo_member]) CfNone"
    by (rule opens_plain [OF demo_tar_facts(1)]) simp
  have len: "length (tar_archive_bytes [demo_member]) < 2 ^ 64" by (simp add: demo_tar_facts(2))
  from partial_index_usable [OF none.decoder_axioms op plain_rd_ok plain_rd_ok len,
      where S = fixed_interval_ops and strat = "fixed_interval_new 7" and on_progress = "\<lambda>n _. (n, False)" and p = "()" and sz = 0]
  show ?thesis by blast
qed

end
