(* ===== verification/Budget.thy ===== *)
theory Budget
  imports SyncStream
begin

text \<open>
  What \<^verbatim>\<open>ThinningBudget\<close> (\<^verbatim>\<open>src/engine/checkpoint_strategy.rs\<close>) promises of the indexer that uses it:
  the checkpoint data of an index never exceeds the budget by more than the start checkpoint.
\<close>

definition within_budget :: "nat \<Rightarrow> stream_index \<Rightarrow> bool" where
  "within_budget b idx \<longleftrightarrow> checkpoint_data_bytes idx \<le> b \<or> length (si_checkpoints idx) \<le> 1"

definition in_budget :: "nat \<Rightarrow> ('d, thinning_budget) stream_indexer \<Rightarrow> bool" where
  "in_budget b r \<longleftrightarrow> tb_budget (ix_strategy r) = b \<and>
     ix_checkpoint_data_bytes r = checkpoint_data_bytes (ix_index r) \<and> within_budget b (ix_index r)"

text \<open>The invariant reads three fields; every other update keeps it.\<close>

definition ix_table :: "('d, 's) stream_indexer \<Rightarrow> 's \<times> nat \<times> checkpoint list" where
  "ix_table r = (ix_strategy r, ix_checkpoint_data_bytes r, si_checkpoints (ix_index r))"

lemma ix_table_update [simp]:
  "ix_table (ix_state_update a r) = ix_table r"
  "ix_table (ix_decompressor_update b r) = ix_table r"
  "ix_table (ix_out_len_update f r) = ix_table r" "ix_table (ix_out_read_update f r) = ix_table r"
  "si_checkpoints idx = si_checkpoints (ix_index r) \<Longrightarrow> ix_table (r\<lparr>ix_index := idx\<rparr>) = ix_table r"
  by (simp_all add: ix_table_def)

lemma ix_table_input [simp]:
  "ix_table (ix_input_buf_update f r) = ix_table r" "ix_table (ix_input_pos_update g r) = ix_table r"
  "ix_table (ix_eof_update h r) = ix_table r"
  by (simp_all add: ix_table_def)

lemma in_budget_table: "ix_table r' = ix_table r \<Longrightarrow> in_budget b r' = in_budget b r"
  by (simp add: in_budget_def within_budget_def checkpoint_data_bytes_def ix_table_def)

lemma thinning_keeps_budget_field [simp]:
  "tb_budget (fst (thinning_should_checkpoint F s ctx)) = tb_budget s"
  "tb_budget (fst (thinning_should_thin F s ctx)) = tb_budget s"
  by (auto simp: thinning_should_checkpoint_def thinning_should_thin_def thinning_start_def Let_def)

lemma thin_stuck: "thin idx = (idx', False) \<Longrightarrow> idx' = idx \<and> length (si_checkpoints idx) \<le> 1"
  by (auto simp: thin_def Let_def split: if_splits)

lemma thinning_satisfied:
  "thinning_should_thin F s ctx = (s', False) \<Longrightarrow> cx_total_checkpoint_data_bytes ctx \<le> tb_budget s"
  by (auto simp: thinning_should_thin_def thinning_start_def Let_def split: if_splits)

text \<open>The thinning loop brings any table back into the budget.\<close>

lemma thin_loop_budget:
  "S = thinning_budget_ops F \<Longrightarrow> tb_budget (ix_strategy r) = b \<Longrightarrow>
   ix_checkpoint_data_bytes r = checkpoint_data_bytes (ix_index r) \<Longrightarrow> in_budget b (thin_loop S r)"
proof (induction S r rule: thin_loop.induct)
  case (1 S r)
  obtain s t where st: "should_thin S (ix_strategy r) (indexer_context r) = (s, t)"
    by (cases "should_thin S (ix_strategy r) (indexer_context r)") auto
  have ss: "thinning_should_thin F (ix_strategy r) (indexer_context r) = (s, t)"
    using st 1(2) by (simp add: thinning_budget_ops_def)
  have s: "tb_budget s = b" using thinning_keeps_budget_field(2) [of F "ix_strategy r" "indexer_context r"] ss 1(3) by simp
  obtain idx t' where th: "thin (ix_index r) = (idx, t')" by (cases "thin (ix_index r)") auto
  show ?case
  proof (cases t)
    case False
    then have "thin_loop S r = r\<lparr>ix_strategy := s\<rparr>" using st by (simp add: thin_loop.simps [of S r])
    moreover have "checkpoint_data_bytes (ix_index r) \<le> b"
      using thinning_satisfied ss False 1(3,4) by (fastforce simp: indexer_context_def)
    ultimately show ?thesis using s 1(4) by (simp add: in_budget_def within_budget_def)
  next
    case True
    show ?thesis
    proof (cases t')
      case True
      with st th \<open>t\<close> have "thin_loop S r = thin_loop S (r\<lparr>ix_strategy := s, ix_index := idx,
          ix_checkpoint_data_bytes := checkpoint_data_bytes idx, ix_last_checkpoint_pos := uncompressed_offset (last_checkpoint idx)\<rparr>)"
        by (subst thin_loop.simps) simp
      with 1(1) [OF st [symmetric] _ th [symmetric]] \<open>t\<close> True 1(2) s show ?thesis by simp
    next
      case False
      then have "thin_loop S r = r\<lparr>ix_strategy := s, ix_index := idx\<rparr>" using st th \<open>t\<close> by (simp add: thin_loop.simps [of S r])
      then show ?thesis using thin_stuck th False s 1(4) by (fastforce simp: in_budget_def within_budget_def)
    qed
  qed
qed

lemma try_checkpoint_budget:
  assumes "in_budget b r"
  shows "in_budget b (fst (try_checkpoint ops (thinning_budget_ops F) r notify))"
proof -
  have "in_budget b (thin_loop (thinning_budget_ops F) (r\<lparr>ix_checkpoint_data_bytes := ix_checkpoint_data_bytes r + estimated_size cp,
      ix_index := (ix_index r)\<lparr>si_checkpoints := si_checkpoints (ix_index r) @ [cp]\<rparr>, ix_last_checkpoint_pos := ix_unpacked_pos r\<rparr>))" for cp
    by (rule thin_loop_budget [OF refl]) (use assms in \<open>simp_all add: in_budget_def checkpoint_data_bytes_def\<close>)
  then show ?thesis using assms
    by (auto simp: try_checkpoint_def Let_def thinning_budget_ops_def on_created_default_def split: sum.splits option.splits)
qed

section \<open>Every step keeps the budget\<close>

lemma conclude_table:
  "ix_table (fst (indexer_conclude ops S r result had_input)) \<in> {ix_table r, ix_table (fst (try_checkpoint ops S r False))}"
  by (simp add: indexer_conclude_def Let_def split: prod.split sum.split)

lemma conclude_budget:
  "in_budget b r \<Longrightarrow> in_budget b (fst (indexer_conclude ops (thinning_budget_ops F) r result had_input))"
  using conclude_table [of ops "thinning_budget_ops F" r result had_input] try_checkpoint_budget [of b r ops F False]
  by (auto dest!: in_budget_table)

lemma offer_budget:
  assumes b: "in_budget b r"
  shows "in_budget b (fst (ix_offer ops (thinning_budget_ops F) r n before))"
proof -
  obtain s lay where sc: "thinning_should_checkpoint F (ix_strategy r) (indexer_context r) = (s, lay)"
    by (cases "thinning_should_checkpoint F (ix_strategy r) (indexer_context r)") auto
  have "tb_budget s = tb_budget (ix_strategy r)"
    using thinning_keeps_budget_field(1) [of F "ix_strategy r" "indexer_context r"] sc by simp
  then have r2: "in_budget b (r\<lparr>ix_strategy := s\<rparr>)" using b by (simp add: in_budget_def)
  obtain r3 res3 where lc: "(if lay then try_checkpoint ops (thinning_budget_ops F) (r\<lparr>ix_strategy := s\<rparr>) True
      else (r\<lparr>ix_strategy := s\<rparr>, Inr ())) = (r3, res3)" by (metis surj_pair)
  have "in_budget b r3" using lc r2 try_checkpoint_budget [OF r2, of ops F True] by (auto split: if_splits)
  moreover have "ix_table (fst (ix_offer ops (thinning_budget_ops F) r n before)) = ix_table r3"
    using lc by (cases res3; cases lay) (simp_all add: ix_offer_def thinning_budget_ops_def sc)
  ultimately show ?thesis using in_budget_table by blast
qed

lemma decode_budget:
  assumes b: "in_budget b r"
  shows "in_budget b (fst (indexer_decode ops (thinning_budget_ops F) r input))"
proof (cases "decompress ops (ix_decompressor r) input (length (ix_out_buf r))")
  case (Pair d res)
  show ?thesis
  proof (cases res)
    case (Inl e)
    then show ?thesis using Pair b by (simp add: indexer_decode_def in_budget_def)
  next
    case (Inr result)
    define r1 where "r1 = ix_decoded r d result"
    have r1: "in_budget b r1" using b by (simp add: r1_def ix_decoded_def in_budget_def)
    define is_fresh where "is_fresh \<longleftrightarrow> ix_unpacked_pos r1 > si_indexed_to (ix_index r1)"
    obtain r2 res2 where of: "(if bytes_produced result > 0 \<and> is_fresh
        then ix_offer ops (thinning_budget_ops F) r1 (bytes_produced result) (ix_unpacked_pos r) else (r1, Inr ())) = (r2, res2)"
      by (metis surj_pair)
    have r2: "in_budget b r2" using of r1 offer_budget [OF r1, of ops F "bytes_produced result" "ix_unpacked_pos r"]
      by (auto split: if_splits)
    have "indexer_decode ops (thinning_budget_ops F) r input = (case res2 of Inl e \<Rightarrow> (r2, Some (RequestError e))
       | Inr _ \<Rightarrow> indexer_conclude ops (thinning_budget_ops F)
           (if is_fresh then r2\<lparr>ix_index := (ix_index r2)\<lparr>si_indexed_to := ix_unpacked_pos r2\<rparr>\<rparr> else r2) result (input \<noteq> []))"
      using indexer_decode_alt [of ops r input d result "thinning_budget_ops F"] Pair Inr of
      by (simp add: r1_def [symmetric] is_fresh_def [symmetric] Let_def)
    moreover have "in_budget b (if is_fresh then r2\<lparr>ix_index := (ix_index r2)\<lparr>si_indexed_to := ix_unpacked_pos r2\<rparr>\<rparr> else r2)"
      using r2 in_budget_table [of "r2\<lparr>ix_index := (ix_index r2)\<lparr>si_indexed_to := ix_unpacked_pos r2\<rparr>\<rparr>" r2] by simp
    ultimately show ?thesis using r2 conclude_budget by (cases res2) auto
  qed
qed

lemma set_state_budget [simp]: "in_budget b (r\<lparr>ix_state := st\<rparr>) = in_budget b r"
  by (rule in_budget_table) simp

lemma step_once_budget:
  "in_budget b r \<Longrightarrow> in_budget b (fst (indexer_step_once ops (thinning_budget_ops F) r))"
  using decode_budget [of b r ops F] decode_budget [of b "r\<lparr>ix_state := IxProcessing\<rparr>" ops F]
  by (simp add: indexer_step_once_def indexer_process_def split: indexer_state.split)

lemma step_budget_pair:
  "indexer_step ops S r = Some y \<Longrightarrow> S = thinning_budget_ops F \<longrightarrow> in_budget b r \<longrightarrow> in_budget b (fst y)"
proof (rule indexer_step.raw_induct [where P = "\<lambda>ops S r y. S = thinning_budget_ops F \<longrightarrow> in_budget b r \<longrightarrow> in_budget b (fst y)"])
  fix step ops' S' r' y'
  assume IH: "\<And>ops S r y. step ops S r = Some y \<Longrightarrow> S = thinning_budget_ops F \<longrightarrow> in_budget b r \<longrightarrow> in_budget b (fst y)"
    and eq: "(case indexer_step_once ops' S' r' of (r', None) \<Rightarrow> step ops' S' r' | (r', Some q) \<Rightarrow> Some (r', q)) = Some y'"
  obtain r1 q1 where so: "indexer_step_once ops' S' r' = (r1, q1)" by (cases "indexer_step_once ops' S' r'") auto
  then show "S' = thinning_budget_ops F \<longrightarrow> in_budget b r' \<longrightarrow> in_budget b (fst y')"
    using step_once_budget [of b r' ops' F] IH [of ops' S' r1 y'] eq by (cases q1) auto
qed

lemma step_budget:
  "indexer_step ops (thinning_budget_ops F) r = Some (r', q) \<Longrightarrow> in_budget b r \<Longrightarrow> in_budget b r'"
  using step_budget_pair [of ops "thinning_budget_ops F" r "(r', q)" F b] by simp

lemma discard_output_table: "ix_table (discard_output r) = ix_table r"
proof (induction r rule: discard_output.induct)
  case (1 r)
  obtain r1 out where ro: "indexer_read_output r BUF_SIZE = (r1, out)" by (cases "indexer_read_output r BUF_SIZE") auto
  then have "ix_table r1 = ix_table r" by (auto simp: indexer_read_output_def Let_def ix_table_def split: if_splits)
  then show ?case using 1 ro by (subst discard_output.simps) auto
qed

lemma answer_table: "ix_table (fst (indexer_answer data rd r q pos)) = ix_table r"
  by (cases q) (simp_all add: indexer_answer_def Let_def discard_output_table indexer_signal_eof_def indexer_provide_data_def)

lemma build_loop_budget_pair:
  "build_loop ops S data rd on_progress p r pos = Some y \<Longrightarrow> S = thinning_budget_ops F \<longrightarrow> in_budget b r \<longrightarrow> in_budget b (fst y)"
proof (rule build_loop.raw_induct [where P = "\<lambda>ops S data rd on_progress p r pos y.
    S = thinning_budget_ops F \<longrightarrow> in_budget b r \<longrightarrow> in_budget b (fst y)"])
  fix loop and ops' :: "'d decompressor" and S' data' rd' and on' :: "'p \<Rightarrow> stream_progress \<Rightarrow> 'p \<times> bool" and p' r' pos' y'
  assume IH: "\<And>ops S data rd on_progress p r pos y. loop ops S data rd on_progress p r pos = Some y \<Longrightarrow>
      S = thinning_budget_ops F \<longrightarrow> in_budget b r \<longrightarrow> in_budget b (fst y)"
    and eq: "(case indexer_step ops' S' r' of None \<Rightarrow> None | Some (r', q) \<Rightarrow>
        if q = RequestDone then Some (r', Inr ())
        else case request_error q of
          None \<Rightarrow> (case indexer_answer data' rd' r' q pos' of (r'', pos') \<Rightarrow>
            case on' p' (indexer_progress r'') of (p', go) \<Rightarrow>
              if go then loop ops' S' data' rd' on' p' r'' pos' else Some (r'', Inr ()))
        | Some e \<Rightarrow> Some (r', Inl e)) = Some y'"
  show "S' = thinning_budget_ops F \<longrightarrow> in_budget b r' \<longrightarrow> in_budget b (fst y')"
  proof (intro impI)
    assume S: "S' = thinning_budget_ops F" and b: "in_budget b r'"
    from eq obtain r1 q where st: "indexer_step ops' S' r' = Some (r1, q)" by (auto split: option.splits)
    obtain r2 pos2 where an: "indexer_answer data' rd' r1 q pos' = (r2, pos2)" by (cases "indexer_answer data' rd' r1 q pos'") auto
    obtain p2 go where pr: "on' p' (indexer_progress r2) = (p2, go)" by (metis surj_pair)
    have r1: "in_budget b r1" using step_budget st b S by blast
    have r2: "in_budget b r2" using answer_table [of data' rd' r1 q pos'] an r1 in_budget_table [of r2 r1 b] by simp
    show "in_budget b (fst y')"
      using IH [of ops' S' data' rd' on' p2 r2 pos2 y'] eq st an pr r1 r2 S by (auto split: if_splits option.splits)
  qed
qed

text \<open>C28: With the strategy ThinningBudget, an index built over a whole compressed stream is complete, and its
  checkpoints hold at most the budget's bytes, unless only one checkpoint is left.\<close>

theorem thinning_keeps_budget:
  assumes "decoder ops packed unpacked at good fresh" and "reads_ok packed rd"
    and "create codec = Inr d" and "fresh d"
  shows "\<exists>idx. stream_with_codec ops create codec (thinning_budget_ops F) (thinning_with_min_interval (thinning_budget_new b) n) packed rd
      = Some (Inr idx) \<and> si_complete idx \<and>
    (checkpoint_data_bytes idx \<le> b \<or> length (si_checkpoints idx) = 1)"
proof -
  let ?s = "thinning_with_min_interval (thinning_budget_new b) n"
  from decoder.stream_build_ok [where create = create and codec = codec and d = d and fresh = fresh,
      OF assms, of "thinning_budget_ops F" ?s "\<lambda>p _. (p, True)" "()"] obtain idx where
    i: "stream_build ops create codec (thinning_budget_ops F) ?s (\<lambda>p _. (p, True)) () packed rd = Some (Inr idx)"
      "decoder.index_ok unpacked good idx" "si_complete idx" by auto
  obtain r r' where r: "indexer_new create codec ?s (Some (length packed)) = Inr r"
      "build_loop ops (thinning_budget_ops F) packed rd (\<lambda>p _. (p, True)) () r 0 = Some (r', Inr ())" "ix_index r' = idx"
    using i(1) by (auto simp: stream_build_def indexer_finish_def split: sum.splits option.splits)
  have "in_budget b r" using r(1) assms(3)
    by (auto simp: indexer_new_def indexer_with_parts_def in_budget_def within_budget_def stream_index_new_def
        thinning_with_min_interval_def thinning_budget_new_def)
  then have "within_budget b idx" using build_loop_budget_pair [OF r(2), of F b] r(3) by (auto simp: in_budget_def)
  moreover have "si_checkpoints idx \<noteq> []" using i(2) by (auto simp: decoder.index_ok_def [OF assms(1)] cps_ok_def)
  ultimately show ?thesis using i(1,3) by (auto simp: stream_with_codec_def within_budget_def le_Suc_eq)
qed

text \<open>A stream of the copy codec with no room for a second checkpoint.\<close>

theorem thinning_keeps_budget_witness:
  "\<forall>F :: nat float_ops. \<exists>idx. stream_with_codec none_ops (\<lambda>_. Inr none_new) [Copy] (thinning_budget_ops F)
      (thinning_with_min_interval (thinning_budget_new 40) 1) [1, 2, 3, 4] example_rd = Some (Inr idx) \<and> si_complete idx \<and>
    (checkpoint_data_bytes idx \<le> 40 \<or> length (si_checkpoints idx) = 1)"
  using thinning_keeps_budget [where create = "\<lambda>_. Inr none_new" and d = none_new and codec = "[Copy]" and b = 40 and n = 1,
      OF none.decoder_axioms example_ok(1)] by auto

end
