(* ===== verification/Words.thy ===== *)
theory Words
  imports Prelude
begin

text \<open>
  Machine integers of the codecs: words of 16, 32 and 64 bits, conversions between them and bytes
  (\<^verbatim>\<open>as\<close>, \<^verbatim>\<open>from_le_bytes\<close>, \<^verbatim>\<open>to_le_bytes\<close>, \<^verbatim>\<open>from_be_bytes\<close>).
\<close>

type_synonym u16 = "16 word"
type_synonym u32 = "32 word"
type_synonym u64 = "64 word"

abbreviation u8 :: "'a::len word \<Rightarrow> byte" where
  "u8 x \<equiv> ucast x"

abbreviation u32 :: "byte \<Rightarrow> u32" where
  "u32 b \<equiv> ucast b"

text \<open>\<^verbatim>\<open>u32::from_le_bytes\<close> and its inverse, on the bytes in order.\<close>

definition le32 :: "byte \<Rightarrow> byte \<Rightarrow> byte \<Rightarrow> byte \<Rightarrow> u32" where
  "le32 b0 b1 b2 b3 = push_bit 24 (u32 b3) OR push_bit 16 (u32 b2) OR push_bit 8 (u32 b1) OR u32 b0"

definition to_le32 :: "u32 \<Rightarrow> bytes" where
  "to_le32 x = [u8 x, u8 (drop_bit 8 x), u8 (drop_bit 16 x), u8 (drop_bit 24 x)]"

lemma length_to_le32 [simp]: "length (to_le32 x) = 4"
  by (simp add: to_le32_def)

text \<open>\<^verbatim>\<open>u32::from_be_bytes\<close> of a slice of four bytes.\<close>

definition be32 :: "bytes \<Rightarrow> u32" where
  "be32 b = le32 (b ! 3) (b ! 2) (b ! 1) (b ! 0)"

text \<open>The low bits of a sum and of a difference.\<close>

lemma take_bit_word_add:
  "n \<le> LENGTH('a) \<Longrightarrow> take_bit n (take_bit n x + take_bit n y) = take_bit n (x + y :: 'a::len word)"
  by transfer (simp add: take_bit_take_bit take_bit_add min_def)

lemma take_bit_word_diff:
  "n \<le> LENGTH('a) \<Longrightarrow> take_bit n (take_bit n x - take_bit n y) = take_bit n (x - y :: 'a::len word)"
  by transfer (simp add: take_bit_take_bit take_bit_diff min_def)

end
