(* ===== verification/Branch.thy ===== *)
theory Branch
  imports Codec Words
begin

text \<open>
  The branch converters of \<^verbatim>\<open>src/compress/filter.rs\<close>. A converter is given the bytes from its position
  in the buffer on; \<open>here\<close> is \<^verbatim>\<open>now_pos + i\<close>. It gives the converted prefix (its length is the \<^verbatim>\<open>i\<close> the
  source returns) and the tail it left alone.
\<close>

section \<open>The loop\<close>

text \<open>
  The loop of every converter: \<^verbatim>\<open>while i + w <= buf.len()\<close>, look at the \<open>w\<close> bytes at \<^verbatim>\<open>i\<close>, write back the
  bytes they become and move over them. \<open>step\<close> gives these bytes, at least one, and the new state of
  the converter.
\<close>

function convert_loop ::
  "nat \<Rightarrow> (u32 \<Rightarrow> 's \<Rightarrow> bytes \<Rightarrow> 's \<times> bytes) \<Rightarrow> u32 \<Rightarrow> 's \<Rightarrow> bytes \<Rightarrow> 's \<times> bytes \<times> bytes" where
  "convert_loop w step here s buf =
     (if buf = [] \<or> length buf < w then (s, [], buf)
      else case step here s (take w buf) of
        (s', out) \<Rightarrow>
          if out = [] then (s', [], buf)
          else (case convert_loop w step (here + of_nat (length out)) s' (drop (length out) buf) of
                  (s2, o2, t) \<Rightarrow> (s2, out @ o2, t)))"
  by pat_completeness auto
termination by (relation "measure (\<lambda>(w, step, here, s, buf). length buf)") (auto simp: length_greater_0_conv [symmetric] simp del: length_greater_0_conv)

declare convert_loop.simps [simp del]

section \<open>x86\<close>

definition test86_msbyte :: "byte \<Rightarrow> bool" where
  "test86_msbyte b \<longleftrightarrow> b = 0 \<or> b = 0xFF"

definition MASK_TO_BIT_NUMBER :: "nat list" where
  "MASK_TO_BIT_NUMBER = [0, 1, 2, 2, 3]"

text \<open>The step of the inner \<^verbatim>\<open>for\<close> loop over the distance to the previous opcode.\<close>

definition shift_mask :: "u32 \<Rightarrow> u32" where
  "shift_mask m = push_bit 1 (m AND 0x77)"

text \<open>
  The loop that computes the target of a call: \<open>c\<close> is \<^verbatim>\<open>here + 5\<close>. In the states the converter
  reaches the second round is the last; \<open>fuel\<close> counts the rounds.
\<close>

fun x86_dest :: "nat \<Rightarrow> u32 \<Rightarrow> u32 \<Rightarrow> u32 \<Rightarrow> u32 option" where
  "x86_dest 0 pm c src = None"
| "x86_dest (Suc fuel) pm c src =
     (let dest = src - c in
      if pm = 0 then Some dest
      else
        let idx = MASK_TO_BIT_NUMBER ! unat (drop_bit 1 pm);
            b = u8 (drop_bit (24 - idx * 8) dest)
        in if \<not> test86_msbyte b then Some dest
           else x86_dest fuel pm c (dest XOR (push_bit ((32 - idx * 8) mod 32) 1 - 1)))"

definition x86_target :: "u32 \<Rightarrow> u32 \<Rightarrow> u32 \<Rightarrow> u32" where
  "x86_target pm c src = (case x86_dest 2 pm c src of Some dest \<Rightarrow> dest | None \<Rightarrow> 0)"

text \<open>The four bytes after an opcode whose target is \<open>dest\<close>.\<close>

definition x86_operand :: "u32 \<Rightarrow> bytes" where
  "x86_operand dest =
     [u8 dest, u8 (drop_bit 8 dest), u8 (drop_bit 16 dest), u8 (NOT ((drop_bit 24 dest AND 1) - 1))]"

text \<open>\<^verbatim>\<open>prev_mask\<close> brought to the position of the opcode at \<open>here\<close>.\<close>

definition x86_mask :: "u32 \<Rightarrow> u32 \<Rightarrow> u32 \<Rightarrow> u32" where
  "x86_mask here prev_mask prev_pos =
     (let offset = here - prev_pos in if offset > 5 then 0 else (shift_mask ^^ unat offset) prev_mask)"

text \<open>Whether an opcode with the byte \<open>b4\<close> four bytes after it is converted.\<close>

definition x86_converts :: "byte \<Rightarrow> u32 \<Rightarrow> bool" where
  "x86_converts b4 pm \<longleftrightarrow> test86_msbyte b4 \<and> drop_bit 1 pm \<le> 4 \<and> drop_bit 1 pm \<noteq> 3"

definition x86_step :: "u32 \<Rightarrow> u32 \<times> u32 \<Rightarrow> bytes \<Rightarrow> (u32 \<times> u32) \<times> bytes" where
  "x86_step here st buf =
     (case st of (prev_mask, prev_pos) \<Rightarrow>
        let b0 = buf ! 0; b4 = buf ! 4 in
        if b0 \<noteq> 0xE8 \<and> b0 \<noteq> 0xE9 then (st, [b0])
        else
          let pm = x86_mask here prev_mask prev_pos in
          if x86_converts b4 pm
          then ((0, here), b0 # x86_operand (x86_target pm (here + 5) (le32 (buf ! 1) (buf ! 2) (buf ! 3) b4)))
          else
            let pm = pm OR 1;
                pm = (if test86_msbyte b4 then pm OR 0x10 else pm)
            in ((pm, here), [b0]))"

definition x86 :: "bytes \<Rightarrow> u32 \<Rightarrow> u32 \<Rightarrow> u32 \<Rightarrow> (u32 \<times> u32) \<times> bytes \<times> bytes" where
  "x86 buf now_pos prev_mask prev_pos =
     (if length buf < 5 then ((prev_mask, prev_pos), [], buf)
      else convert_loop 5 x86_step now_pos (prev_mask, if now_pos - prev_pos > 5 then now_pos - 5 else prev_pos) buf)"

section \<open>Converters of four-byte instructions\<close>

text \<open>These ignore the state.\<close>

definition arm_quad :: "u32 \<Rightarrow> bytes \<Rightarrow> bytes" where
  "arm_quad here buf =
     (if buf ! 3 = 0xEB then
        let src = push_bit 2 (push_bit 16 (u32 (buf ! 2)) OR push_bit 8 (u32 (buf ! 1)) OR u32 (buf ! 0));
            dest = drop_bit 2 (src - (here + 8))
        in [u8 dest, u8 (drop_bit 8 dest), u8 (drop_bit 16 dest), buf ! 3]
      else buf)"

definition arm :: "bytes \<Rightarrow> u32 \<Rightarrow> 's \<Rightarrow> 's \<times> bytes \<times> bytes" where
  "arm buf now_pos s = convert_loop 4 (\<lambda>here s w. (s, arm_quad here w)) now_pos s buf"

definition powerpc_quad :: "u32 \<Rightarrow> bytes \<Rightarrow> bytes" where
  "powerpc_quad here buf =
     (if drop_bit 2 (buf ! 0) = 0x12 \<and> buf ! 3 AND 3 = 1 then
        let src = push_bit 24 (u32 (buf ! 0) AND 3) OR push_bit 16 (u32 (buf ! 1)) OR push_bit 8 (u32 (buf ! 2)) OR (u32 (buf ! 3) AND NOT 3);
            dest = src - here
        in [0x48 OR u8 (drop_bit 24 dest AND 3), u8 (drop_bit 16 dest), u8 (drop_bit 8 dest), (buf ! 3 AND 3) OR u8 dest]
      else buf)"

definition powerpc :: "bytes \<Rightarrow> u32 \<Rightarrow> 's \<Rightarrow> 's \<times> bytes \<times> bytes" where
  "powerpc buf now_pos s = convert_loop 4 (\<lambda>here s w. (s, powerpc_quad here w)) now_pos s buf"

definition sparc_quad :: "u32 \<Rightarrow> bytes \<Rightarrow> bytes" where
  "sparc_quad here buf =
     (if buf ! 0 = 0x40 \<and> buf ! 1 AND 0xC0 = 0 \<or> buf ! 0 = 0x7F \<and> buf ! 1 AND 0xC0 = 0xC0 then
        let src = push_bit 2 (push_bit 24 (u32 (buf ! 0)) OR push_bit 16 (u32 (buf ! 1)) OR push_bit 8 (u32 (buf ! 2)) OR u32 (buf ! 3));
            dest = drop_bit 2 (src - here);
            dest = (push_bit 22 (0 - (drop_bit 22 dest AND 1)) AND 0x3FFFFFFF) OR (dest AND 0x3FFFFF) OR 0x40000000
        in [u8 (drop_bit 24 dest), u8 (drop_bit 16 dest), u8 (drop_bit 8 dest), u8 dest]
      else buf)"

definition sparc :: "bytes \<Rightarrow> u32 \<Rightarrow> 's \<Rightarrow> 's \<times> bytes \<times> bytes" where
  "sparc buf now_pos s = convert_loop 4 (\<lambda>here s w. (s, sparc_quad here w)) now_pos s buf"

definition arm64_quad :: "u32 \<Rightarrow> bytes \<Rightarrow> bytes" where
  "arm64_quad here buf =
     (let instr = le32 (buf ! 0) (buf ! 1) (buf ! 2) (buf ! 3) in
      if drop_bit 26 instr = 0x25 then
        to_le32 (0x94000000 OR ((instr + (0 - drop_bit 2 here)) AND 0x03FFFFFF))
      else if instr AND 0x9F000000 = 0x90000000 then
        let src = (drop_bit 29 instr AND 3) OR (drop_bit 3 instr AND 0x001FFFFC) in
        if (src + 0x00020000) AND 0x001C0000 \<noteq> 0 then buf
        else
          let instr = instr AND 0x9000001F;
              dest = src + (0 - drop_bit 12 here);
              instr = instr OR push_bit 29 (dest AND 3);
              instr = instr OR push_bit 3 (dest AND 0x0003FFFC);
              instr = instr OR ((0 - (dest AND 0x00020000)) AND 0x00E00000)
          in to_le32 instr
      else buf)"

definition arm64 :: "bytes \<Rightarrow> u32 \<Rightarrow> 's \<Rightarrow> 's \<times> bytes \<times> bytes" where
  "arm64 buf now_pos s = convert_loop 4 (\<lambda>here s w. (s, arm64_quad here w)) now_pos s buf"

section \<open>ARM Thumb\<close>

text \<open>Four bytes are converted or two are skipped.\<close>

definition arm_thumb_pair :: "u32 \<Rightarrow> bytes \<Rightarrow> bytes" where
  "arm_thumb_pair here buf =
     (if buf ! 1 AND 0xF8 = 0xF0 \<and> buf ! 3 AND 0xF8 = 0xF8 then
        let src = push_bit 1 (push_bit 19 (u32 (buf ! 1) AND 7) OR push_bit 11 (u32 (buf ! 0)) OR
                    push_bit 8 (u32 (buf ! 3) AND 7) OR u32 (buf ! 2));
            dest = drop_bit 1 (src - (here + 4))
        in [u8 (drop_bit 11 dest), 0xF0 OR u8 (drop_bit 19 dest AND 7), u8 dest, 0xF8 OR u8 (drop_bit 8 dest AND 7)]
      else take 2 buf)"

definition arm_thumb :: "bytes \<Rightarrow> u32 \<Rightarrow> 's \<Rightarrow> 's \<times> bytes \<times> bytes" where
  "arm_thumb buf now_pos s =
     (if length buf < 4 then (s, [], buf)
      else convert_loop 4 (\<lambda>here s w. (s, arm_thumb_pair here w)) now_pos s buf)"

section \<open>IA-64\<close>

definition BRANCH_TABLE :: "u32 list" where
  "BRANCH_TABLE =
     [0, 0, 0, 0, 0, 0, 0, 0, 0, 0, 0, 0, 0, 0, 0, 0, 4, 4, 6, 6, 0, 0, 7, 7, 4, 4, 0, 0, 4, 4, 0, 0]"

text \<open>One slot of a bundle; \<open>bit_pos\<close> starts at 5 and grows by 41.\<close>

definition ia64_slot :: "u32 \<Rightarrow> u32 \<Rightarrow> nat \<Rightarrow> bytes \<Rightarrow> bytes" where
  "ia64_slot here pm slot buf =
     (if drop_bit slot pm AND 1 \<noteq> 0 then
        let bit_pos = 5 + 41 * slot;
            byte_pos = bit_pos div 8;
            bit_res = bit_pos mod 8;
            instruction = foldl (OR) 0 (map (\<lambda>j. push_bit (8 * j) (ucast (buf ! (j + byte_pos)))) [0..<6]) :: u64;
            inst_norm = drop_bit bit_res instruction
        in if drop_bit 37 inst_norm AND 0xF = 5 \<and> drop_bit 9 inst_norm AND 7 = 0 then
             let src = ucast (drop_bit 13 inst_norm AND 0xFFFFF) :: u32;
                 src = src OR push_bit 20 (ucast (drop_bit 36 inst_norm AND 1));
                 src = push_bit 4 src;
                 dest = drop_bit 4 (src - here);
                 inst_norm = inst_norm AND NOT (push_bit 13 0x8FFFFF);
                 inst_norm = inst_norm OR push_bit 13 (ucast (dest AND 0xFFFFF));
                 inst_norm = inst_norm OR push_bit (36 - 20) (ucast (dest AND 0x100000));
                 instruction = instruction AND (push_bit bit_res 1 - 1);
                 instruction = instruction OR push_bit bit_res inst_norm
             in copy_into buf byte_pos (map (\<lambda>j. u8 (drop_bit (8 * j) instruction)) [0..<6])
           else buf
      else buf)"

definition ia64_bundle :: "u32 \<Rightarrow> bytes \<Rightarrow> bytes" where
  "ia64_bundle here buf =
     (let pm = BRANCH_TABLE ! unat (buf ! 0 AND 0x1F) in
      ia64_slot here pm 2 (ia64_slot here pm 1 (ia64_slot here pm 0 buf)))"

definition ia64 :: "bytes \<Rightarrow> u32 \<Rightarrow> 's \<Rightarrow> 's \<times> bytes \<times> bytes" where
  "ia64 buf now_pos s = convert_loop 16 (\<lambda>here s w. (s, ia64_bundle here w)) now_pos s buf"

section \<open>RISC-V\<close>

definition not_auipc_pair :: "u32 \<Rightarrow> u32 \<Rightarrow> bool" where
  "not_auipc_pair auipc inst2 \<longleftrightarrow> (push_bit 8 auipc XOR (inst2 - 3)) AND 0xF8003 \<noteq> 0"

definition not_special_auipc :: "u32 \<Rightarrow> u32 \<Rightarrow> bool" where
  "not_special_auipc auipc inst2_rs1 \<longleftrightarrow> push_bit 18 (auipc - 0x3117) \<ge> inst2_rs1 AND 0x1D"

text \<open>The bytes after \<^verbatim>\<open>0xEF\<close> of a converted JAL.\<close>

definition riscv_jal :: "u32 \<Rightarrow> byte \<Rightarrow> byte \<Rightarrow> byte \<Rightarrow> bytes" where
  "riscv_jal pc b1 b2 b3 =
     (let addr = (push_bit 13 (u32 b1 AND 0xF0) OR push_bit 9 (u32 b2) OR push_bit 1 (u32 b3)) - pc in
      [u8 ((u32 b1 AND 0x0F) OR (drop_bit 8 addr AND 0xF0)),
       u8 ((drop_bit 16 addr AND 0x0F) OR (drop_bit 7 addr AND 0x10) OR (push_bit 4 addr AND 0xE0)),
       u8 ((drop_bit 4 addr AND 0x7F) OR (drop_bit 13 addr AND 0x80))])"

text \<open>What an AUIPC and the instruction after it become, or how far to skip.\<close>

definition riscv_auipc :: "u32 \<Rightarrow> u32 \<Rightarrow> byte \<Rightarrow> byte \<Rightarrow> byte \<Rightarrow> byte \<Rightarrow> nat + bytes" where
  "riscv_auipc here inst b4 b5 b6 b7 =
     (if inst AND 0xE80 \<noteq> 0 then
        let candidate = le32 b4 b5 b6 b7 in
        if not_auipc_pair inst candidate then Inl 6
        else
          let addr = (inst AND 0xFFFFF000) + drop_bit 20 candidate;
              inst = 0x17 OR push_bit 7 2 OR push_bit 12 candidate
          in Inr (to_le32 inst @ to_le32 addr)
      else
        let inst2_rs1 = drop_bit 27 inst in
        if not_special_auipc inst inst2_rs1 then Inl 4
        else
          let addr = le32 b7 b6 b5 b4 - here;
              inst2 = drop_bit 12 inst OR push_bit 20 addr;
              inst = 0x17 OR push_bit 7 inst2_rs1 OR ((addr + 0x800) AND 0xFFFFF000)
          in Inr (to_le32 inst @ to_le32 inst2))"

definition riscv_window :: "u32 \<Rightarrow> bytes \<Rightarrow> bytes" where
  "riscv_window here buf =
     (if buf ! 0 = 0xEF then
        if u32 (buf ! 1) AND 0x0D \<noteq> 0 then take 2 buf
        else buf ! 0 # riscv_jal here (buf ! 1) (buf ! 2) (buf ! 3)
      else if u32 (buf ! 0) AND 0x7F = 0x17 then
        (case riscv_auipc here (le32 (buf ! 0) (buf ! 1) (buf ! 2) (buf ! 3)) (buf ! 4) (buf ! 5) (buf ! 6) (buf ! 7) of
           Inl n \<Rightarrow> take n buf
         | Inr conv \<Rightarrow> conv)
      else take 2 buf)"

definition riscv :: "bytes \<Rightarrow> u32 \<Rightarrow> 's \<Rightarrow> 's \<times> bytes \<times> bytes" where
  "riscv buf now_pos s =
     (if length buf < 8 then (s, [], buf)
      else convert_loop 8 (\<lambda>here s w. (s, riscv_window here w)) now_pos s buf)"

section \<open>Cutting the stream\<close>

text \<open>
  What the filter relies on: a step looks at \<open>w\<close> bytes and moves over at least one of them. Then
  converting a stream piece by piece, each time with what was left over before, is converting all of it.
\<close>

locale window_step =
  fixes w :: nat
    and step :: "u32 \<Rightarrow> 's \<Rightarrow> bytes \<Rightarrow> 's \<times> bytes"
  assumes w_pos: "0 < w"
    and step_len: "length xs = w \<Longrightarrow> step h s xs = (s', out) \<Longrightarrow> 0 < length out \<and> length out \<le> w"
begin

lemma short: "length xs < w \<Longrightarrow> convert_loop w step h s xs = (s, [], xs)"
  by (subst convert_loop.simps) simp

lemma long:
  assumes "w \<le> length xs"
  obtains s' out s2 o2 t where "step h s (take w xs) = (s', out)" "0 < length out" "length out \<le> w"
    "convert_loop w step (h + of_nat (length out)) s' (drop (length out) xs) = (s2, o2, t)"
    "convert_loop w step h s xs = (s2, out @ o2, t)" "length (drop (length out) xs) < length xs"
proof -
  obtain s' out where st: "step h s (take w xs) = (s', out)" by (cases "step h s (take w xs)") auto
  have l: "0 < length out" "length out \<le> w" using step_len [OF _ st] assms by auto
  obtain s2 o2 t where r: "convert_loop w step (h + of_nat (length out)) s' (drop (length out) xs) = (s2, o2, t)"
    by (cases "convert_loop w step (h + of_nat (length out)) s' (drop (length out) xs)") auto
  have "convert_loop w step h s xs = (s2, out @ o2, t)"
    using assms st l r by (subst convert_loop.simps) auto
  moreover have "length (drop (length out) xs) < length xs" using l assms w_pos unfolding length_drop by linarith
  ultimately show thesis using that st l r by blast
qed

lemma held:
  "convert_loop w step h s xs = (s1, out, t) \<Longrightarrow> length t < w \<and> length out + length t = length xs"
proof (induction "length xs" arbitrary: h s xs s1 out t rule: less_induct)
  case less
  show ?case
  proof (cases "length xs < w")
    case False
    then have "w \<le> length xs" by simp
    from long [OF this, of h s] obtain s' c s2 o2 t2 where r: "length c \<le> w"
      "convert_loop w step (h + of_nat (length c)) s' (drop (length c) xs) = (s2, o2, t2)"
      "convert_loop w step h s xs = (s2, c @ o2, t2)" "length (drop (length c) xs) < length xs" by metis
    from less.hyps [OF r(4,2)] show ?thesis using r(1,3) less.prems False by auto
  qed (use short less.prems in simp)
qed

lemma resume:
  "convert_loop w step h s xs = (s1, out, t) \<Longrightarrow> convert_loop w step (h + of_nat (length out)) s1 (t @ ys) = (s2, o2, t2) \<Longrightarrow>
    convert_loop w step h s (xs @ ys) = (s2, out @ o2, t2)"
proof (induction "length xs" arbitrary: h s xs s1 out t rule: less_induct)
  case less
  show ?case
  proof (cases "length xs < w")
    case True
    then show ?thesis using short less.prems by simp
  next
    case False
    then have le: "w \<le> length xs" by simp
    from long [OF this, of h s] obtain s' c s3 o3 t3 where r: "step h s (take w xs) = (s', c)" "0 < length c" "length c \<le> w"
      "convert_loop w step (h + of_nat (length c)) s' (drop (length c) xs) = (s3, o3, t3)"
      "convert_loop w step h s xs = (s3, c @ o3, t3)" "length (drop (length c) xs) < length xs" by metis
    have o: "s1 = s3" "out = c @ o3" "t = t3" using r(5) less.prems(1) by auto
    have "convert_loop w step (h + of_nat (length c) + of_nat (length o3)) s3 (t3 @ ys) = (s2, o2, t2)"
      using less.prems(2) o by (simp add: add.assoc)
    from less.hyps [OF r(6,4) this]
    have "convert_loop w step (h + of_nat (length c)) s' (drop (length c) (xs @ ys)) = (s2, o3 @ o2, t2)" using r(3) le by simp
    then show ?thesis using r(1,2) le o w_pos by (subst convert_loop.simps) auto
  qed
qed

end

lemma length_riscv_auipc: "riscv_auipc here inst b4 b5 b6 b7 = Inr conv \<Longrightarrow> length conv = 8"
  "riscv_auipc here inst b4 b5 b6 b7 = Inl n \<Longrightarrow> n = 4 \<or> n = 6"
  by (auto simp: riscv_auipc_def Let_def split: if_splits)

lemma length_ia64_slot: "length buf = 16 \<Longrightarrow> slot \<le> 2 \<Longrightarrow> length (ia64_slot here pm slot buf) = 16"
  by (auto simp: ia64_slot_def Let_def)

lemma length_ia64_bundle: "length buf = 16 \<Longrightarrow> length (ia64_bundle here buf) = 16"
  by (simp add: ia64_bundle_def length_ia64_slot Let_def)

interpretation x86: window_step 5 x86_step
  by unfold_locales (auto simp: x86_step_def Let_def x86_operand_def split: if_splits prod.splits)

interpretation arm: window_step 4 "\<lambda>here s w. (s, arm_quad here w)"
  by unfold_locales (auto simp: arm_quad_def Let_def)

interpretation powerpc: window_step 4 "\<lambda>here s w. (s, powerpc_quad here w)"
  by unfold_locales (auto simp: powerpc_quad_def Let_def)

interpretation sparc: window_step 4 "\<lambda>here s w. (s, sparc_quad here w)"
  by unfold_locales (auto simp: sparc_quad_def Let_def)

interpretation arm64: window_step 4 "\<lambda>here s w. (s, arm64_quad here w)"
  by unfold_locales (auto simp: arm64_quad_def Let_def to_le32_def)

interpretation arm_thumb: window_step 4 "\<lambda>here s w. (s, arm_thumb_pair here w)"
  by unfold_locales (auto simp: arm_thumb_pair_def Let_def)

interpretation ia64: window_step 16 "\<lambda>here s w. (s, ia64_bundle here w)"
  by unfold_locales (auto simp: length_ia64_bundle simp flip: length_greater_0_conv)

interpretation riscv: window_step 8 "\<lambda>here s w. (s, riscv_window here w)"
  by unfold_locales (auto simp: riscv_window_def riscv_jal_def Let_def dest: length_riscv_auipc split: if_splits sum.splits)

section \<open>The x86 converter as a shift register\<close>

text \<open>
  Instead of a mask with the position it belongs to, the reference keeps the mask of the current
  position, shifted for every byte. Both give the same bytes.
\<close>

definition x86_ref_step :: "u32 \<Rightarrow> u32 \<Rightarrow> bytes \<Rightarrow> u32 \<times> bytes" where
  "x86_ref_step here m buf =
     (let b0 = buf ! 0; b4 = buf ! 4 in
      if b0 \<noteq> 0xE8 \<and> b0 \<noteq> 0xE9 then (shift_mask m, [b0])
      else if x86_converts b4 m
      then (0, b0 # x86_operand (x86_target m (here + 5) (le32 (buf ! 1) (buf ! 2) (buf ! 3) b4)))
      else (shift_mask (if test86_msbyte b4 then m OR 1 OR 0x10 else m OR 1), [b0]))"

interpretation x86_ref: window_step 5 x86_ref_step
  by unfold_locales (auto simp: x86_ref_step_def Let_def x86_operand_def split: if_splits)

lemma bit_0x77: "bit (0x77 :: u32) n \<longleftrightarrow> n \<in> {0, 1, 2, 4, 5, 6}"
proof -
  have eq: "(0x77 :: u32) = mask 3 OR push_bit 4 (mask 3)" by (simp add: mask_numeral)
  show ?thesis unfolding eq bit_or_iff bit_push_bit_iff bit_mask_iff by auto
qed

lemma bit_shift_mask: "bit (shift_mask m) n \<longleftrightarrow> n \<in> {1, 2, 3, 5, 6, 7} \<and> bit m (n - 1)"
  unfolding shift_mask_def bit_push_bit_iff bit_and_iff bit_0x77 by auto

lemma bit_shift_mask2: "bit (shift_mask (shift_mask m)) n \<longleftrightarrow> n \<in> {2, 3, 6, 7} \<and> bit m (n - 2)"
  unfolding bit_shift_mask by (auto simp: eval_nat_numeral)

lemma shift_mask4: "shift_mask (shift_mask (shift_mask (shift_mask m))) = 0"
  by (rule bit_word_eqI) (unfold bit_shift_mask2, auto)

lemma funpow_shift_zero: "(shift_mask ^^ n) 0 = 0"
  by (induction n) (auto simp: shift_mask_def)

lemma shift_mask_many:
  assumes "4 \<le> n"
  shows "(shift_mask ^^ n) m = 0"
proof -
  have "(shift_mask ^^ n) m = (shift_mask ^^ (n - 4)) ((shift_mask ^^ 4) m)"
    using assms by (metis funpow_add comp_apply le_add_diff_inverse2)
  also have "(shift_mask ^^ 4) m = 0" by (simp add: eval_nat_numeral shift_mask4)
  finally show ?thesis by (simp add: funpow_shift_zero)
qed

lemma unat_next:
  assumes "unat (here - pp :: u32) + 1 < 2 ^ 32"
  shows "unat (here + 1 - pp) = unat (here - pp) + 1"
proof -
  have "here + 1 - pp = (here - pp) + 1" by simp
  then have "unat (here + 1 - pp) = (unat (here - pp) + unat (1 :: u32)) mod 2 ^ 32"
    by (simp only: unat_word_ariths) simp
  then show ?thesis using assms by simp
qed

lemma x86_mask_next:
  assumes "unat (here - pp) + 1 < 2 ^ 32"
  shows "x86_mask (here + 1) pm pp = shift_mask (x86_mask here pm pp)"
proof -
  note d = unat_next [OF assms]
  have m: "x86_mask h pm pp = (if unat (h - pp) > 5 then 0 else (shift_mask ^^ unat (h - pp)) pm)" for h
    by (simp add: x86_mask_def Let_def word_less_nat_alt)
  show ?thesis
  proof (cases "unat (here - pp) < 5")
    case True
    then show ?thesis by (simp add: m d)
  next
    case False
    then show ?thesis by (simp add: m d shift_mask_many) (simp add: shift_mask_def)
  qed
qed

lemma x86_mask_here: "x86_mask (here + 1) pm here = shift_mask pm" "x86_mask (here + 5) pm here = 0"
  using shift_mask_many [of 5 pm] by (simp_all add: x86_mask_def)

lemma x86_mask_clamp: "x86_mask here pm (if here - pp > 5 then here - 5 else pp) = x86_mask here pm pp"
  by (simp add: x86_mask_def Let_def shift_mask_many)

lemma x86_step_ref:
  assumes st: "x86_step here (pm, pp) buf = ((pm1, pp1), out)" and b: "unat (here - pp) + 5 < 2 ^ 32"
  shows "x86_ref_step here (x86_mask here pm pp) buf = (x86_mask (here + of_nat (length out)) pm1 pp1, out)"
    and "unat (here + of_nat (length out) - pp1) \<le> unat (here - pp) + length out"
proof -
  let ?o = "buf ! 0 \<noteq> 0xE8 \<and> buf ! 0 \<noteq> 0xE9" and ?c = "x86_converts (buf ! 4) (x86_mask here pm pp)"
  consider (skip) "?o" "pm1 = pm" "pp1 = pp" "length out = 1"
    | (conv) "\<not> ?o" "?c" "pm1 = 0" "pp1 = here" "length out = 5"
    | (fail) "\<not> ?o" "\<not> ?c" "pp1 = here" "length out = 1"
    using st by (auto simp: x86_step_def Let_def x86_operand_def split: if_splits)
  then have both: "x86_ref_step here (x86_mask here pm pp) buf = (x86_mask (here + of_nat (length out)) pm1 pp1, out) \<and>
    unat (here + of_nat (length out) - pp1) \<le> unat (here - pp) + length out"
  proof cases
    case skip
    show ?thesis using skip st b x86_mask_next [of here pp pm] unat_next [of here pp]
      by (auto simp: x86_step_def x86_ref_step_def Let_def)
  next
    case conv
    then show ?thesis using st by (auto simp: x86_step_def x86_ref_step_def Let_def x86_mask_here)
  next
    case fail
    then show ?thesis using st by (auto simp: x86_step_def x86_ref_step_def Let_def x86_mask_here or.assoc)
  qed
  then show "x86_ref_step here (x86_mask here pm pp) buf = (x86_mask (here + of_nat (length out)) pm1 pp1, out)"
    and "unat (here + of_nat (length out) - pp1) \<le> unat (here - pp) + length out" by simp_all
qed

lemma x86_loop_ref:
  "convert_loop 5 x86_step here (pm, pp) xs = ((pm', pp'), out, t) \<Longrightarrow> unat (here - pp) + length xs < 2 ^ 32 \<Longrightarrow>
   convert_loop 5 x86_ref_step here (x86_mask here pm pp) xs = (x86_mask (here + of_nat (length out)) pm' pp', out, t)"
proof (induction "length xs" arbitrary: here pm pp xs out rule: less_induct)
  case less
  show ?case
  proof (cases "length xs < 5")
    case True
    then show ?thesis using x86.short x86_ref.short less.prems by auto
  next
    case False
    then have "5 \<le> length xs" by simp
    from x86.long [OF this, of here "(pm, pp)"] obtain pm1 pp1 c s2 o2 t2 where r:
      "x86_step here (pm, pp) (take 5 xs) = ((pm1, pp1), c)" "0 < length c" "length c \<le> 5"
      "convert_loop 5 x86_step (here + of_nat (length c)) (pm1, pp1) (drop (length c) xs) = (s2, o2, t2)"
      "convert_loop 5 x86_step here (pm, pp) xs = (s2, c @ o2, t2)" "length (drop (length c) xs) < length xs"
      by (metis surj_pair)
    have b: "unat (here - pp) + 5 < 2 ^ 32" using less.prems(2) False by simp
    note st = x86_step_ref [OF r(1) b]
    have "unat (here + of_nat (length c) - pp1) + length (drop (length c) xs) < 2 ^ 32"
      using st(2) less.prems(2) False r(3) unfolding length_drop by linarith
    moreover have eq: "s2 = (pm', pp')" "out = c @ o2" "t2 = t" using r(5) less.prems(1) by auto
    ultimately have "convert_loop 5 x86_ref_step (here + of_nat (length c)) (x86_mask (here + of_nat (length c)) pm1 pp1)
        (drop (length c) xs) = (x86_mask (here + of_nat (length c) + of_nat (length o2)) pm' pp', o2, t)"
      using less.hyps [OF r(6)] r(4) by simp
    then show ?thesis using st(1) r(2) False eq by (subst convert_loop.simps) (auto simp: add.assoc)
  qed
qed

lemma x86_ref:
  assumes "x86 buf now_pos pm pp = ((pm', pp'), out, t)" and "length buf < 2 ^ 32 - 5"
  shows "convert_loop 5 x86_ref_step now_pos (x86_mask now_pos pm pp) buf = (x86_mask (now_pos + of_nat (length out)) pm' pp', out, t)"
proof (cases "length buf < 5")
  case True
  then show ?thesis using assms x86_ref.short [OF True] by (auto simp: x86_def)
next
  case False
  let ?pp = "if now_pos - pp > 5 then now_pos - 5 else pp"
  have "unat (now_pos - ?pp) \<le> 5" by (auto simp: word_less_nat_alt)
  then have "unat (now_pos - ?pp) + length buf < 2 ^ 32" using assms(2) by simp
  from x86_loop_ref [OF _ this, of pm pm' pp' out t] show ?thesis
    using assms(1) False by (simp add: x86_def x86_mask_clamp)
qed

section \<open>The converter of an architecture\<close>

text \<open>The \<^verbatim>\<open>match arch\<close> of \<^verbatim>\<open>run\<close>; the state is \<^verbatim>\<open>prev_mask\<close> and \<^verbatim>\<open>prev_pos\<close>.\<close>

definition bcj_convert :: "bcj_arch \<Rightarrow> bytes \<Rightarrow> u32 \<Rightarrow> u32 \<times> u32 \<Rightarrow> (u32 \<times> u32) \<times> bytes \<times> bytes" where
  "bcj_convert arch buf now_pos s =
     (case arch of
        X86 \<Rightarrow> x86 buf now_pos (fst s) (snd s)
      | PowerPc \<Rightarrow> powerpc buf now_pos s
      | Ia64 \<Rightarrow> ia64 buf now_pos s
      | Arm \<Rightarrow> arm buf now_pos s
      | ArmThumb \<Rightarrow> arm_thumb buf now_pos s
      | Sparc \<Rightarrow> sparc buf now_pos s
      | Arm64 \<Rightarrow> arm64 buf now_pos s
      | RiscV \<Rightarrow> riscv buf now_pos s)"

text \<open>The reference: the whole stream at once, with the mask of the current position as the state.\<close>

definition bcj_window :: "bcj_arch \<Rightarrow> nat" where
  "bcj_window arch = (case arch of X86 \<Rightarrow> 5 | Ia64 \<Rightarrow> 16 | RiscV \<Rightarrow> 8 | _ \<Rightarrow> 4)"

definition bcj_step :: "bcj_arch \<Rightarrow> u32 \<Rightarrow> u32 \<Rightarrow> bytes \<Rightarrow> u32 \<times> bytes" where
  "bcj_step arch here m w =
     (case arch of
        X86 \<Rightarrow> x86_ref_step here m w
      | PowerPc \<Rightarrow> (m, powerpc_quad here w)
      | Ia64 \<Rightarrow> (m, ia64_bundle here w)
      | Arm \<Rightarrow> (m, arm_quad here w)
      | ArmThumb \<Rightarrow> (m, arm_thumb_pair here w)
      | Sparc \<Rightarrow> (m, sparc_quad here w)
      | Arm64 \<Rightarrow> (m, arm64_quad here w)
      | RiscV \<Rightarrow> (m, riscv_window here w))"

definition bcj_ref :: "bcj_arch \<Rightarrow> u32 \<Rightarrow> u32 \<Rightarrow> bytes \<Rightarrow> u32 \<times> bytes \<times> bytes" where
  "bcj_ref arch = convert_loop (bcj_window arch) (bcj_step arch)"

interpretation bcj: window_step "bcj_window arch" "bcj_step arch" for arch
  by (cases arch) (simp_all add: bcj_window_def bcj_step_def [abs_def] x86_ref.window_step_axioms powerpc.window_step_axioms
    ia64.window_step_axioms arm.window_step_axioms arm_thumb.window_step_axioms sparc.window_step_axioms
    arm64.window_step_axioms riscv.window_step_axioms)

text \<open>A converter without state ignores what it is given as its state.\<close>

lemma stateless_loop:
  "convert_loop w (\<lambda>h s x. (s, f h x)) here s buf = (s1, out, t) \<Longrightarrow>
   s1 = s \<and> convert_loop w (\<lambda>h s x. (s, f h x)) here s' buf = (s', out, t)"
proof (induction "length buf" arbitrary: here buf out rule: less_induct)
  case less
  show ?case
  proof (cases "buf = [] \<or> length buf < w \<or> f here (take w buf) = []")
    case True
    then show ?thesis using less.prems
      by (subst convert_loop.simps) (subst (asm) convert_loop.simps, auto)
  next
    case False
    let ?c = "f here (take w buf)"
    have lt: "length (drop (length ?c) buf) < length buf"
      using False by (auto simp: length_greater_0_conv [symmetric] simp del: length_greater_0_conv)
    obtain s2 o2 t2 where r: "convert_loop w (\<lambda>h s x. (s, f h x)) (here + of_nat (length ?c)) s (drop (length ?c) buf) = (s2, o2, t2)"
      by (metis surj_pair)
    then have "out = ?c @ o2 \<and> t = t2 \<and> s1 = s2" using False less.prems by (subst (asm) convert_loop.simps) auto
    then show ?thesis using less.hyps [OF lt, of "here + of_nat (length ?c)" o2] r False
      by (subst convert_loop.simps) auto
  qed
qed

text \<open>The mask a pair of \<^verbatim>\<open>prev_mask\<close> and \<^verbatim>\<open>prev_pos\<close> means for the next byte.\<close>

definition bcj_mask :: "bcj_arch \<Rightarrow> u32 \<Rightarrow> u32 \<times> u32 \<Rightarrow> u32" where
  "bcj_mask arch here s = (case arch of X86 \<Rightarrow> x86_mask here (fst s) (snd s) | _ \<Rightarrow> 0)"

lemma bcj_convert_ref:
  assumes "bcj_convert arch buf now_pos s = (s', out, t)" and "length buf < 2 ^ 32 - 5"
  shows "bcj_ref arch now_pos (bcj_mask arch now_pos s) buf = (bcj_mask arch (now_pos + of_nat (length out)) s', out, t)"
proof (cases arch)
  case X86
  then show ?thesis using assms x86_ref [of buf now_pos "fst s" "snd s" "fst s'" "snd s'" out t]
    by (simp add: bcj_ref_def bcj_convert_def bcj_mask_def bcj_window_def bcj_step_def [abs_def])
qed (use assms stateless_loop [of _ _ now_pos s buf s' out t 0] in
  \<open>auto simp: bcj_ref_def bcj_convert_def bcj_mask_def bcj_window_def bcj_step_def [abs_def] powerpc_def ia64_def arm_def sparc_def
     arm64_def arm_thumb_def arm_thumb.short riscv_def riscv.short split: if_splits\<close>)

end
