(* ===== verification/FilterStage.thy ===== *)
theory FilterStage
  imports Branch NoneDecompressor
begin

text \<open>
  \<^verbatim>\<open>FilterDecompressor\<close> of \<^verbatim>\<open>src/compress/filter.rs\<close>: a branch converter or the delta filter as a
  decoding stage. It keeps the \<open>decoder\<close> contract: however the stream is cut, and from whichever
  checkpoint it resumes, its output is that of the reference on the whole stream. The bincode
  functions for its state are the parameters \<open>ser\<close> and \<open>de\<close>.
\<close>

section \<open>State\<close>

definition CHUNK :: nat where
  "CHUNK = 64 * 1024"

definition DELTA_HISTORY :: nat where
  "DELTA_HISTORY = 256"

datatype filter_state =
    FsBcj bcj_arch u32 u32
  | FsDelta nat bytes byte

record filter_decompressor =
  fd_state :: filter_state
  fd_pos :: nat
  fd_buf :: bytes
  fd_filtered :: nat
  fd_finished :: bool

definition filter_with_state :: "filter_state \<Rightarrow> filter_decompressor" where
  "filter_with_state st = \<lparr>fd_state = st, fd_pos = 0, fd_buf = [], fd_filtered = 0, fd_finished = False\<rparr>"

definition filter_bcj :: "bcj_arch \<Rightarrow> filter_decompressor" where
  "filter_bcj arch = filter_with_state (FsBcj arch 0 (0 - 5))"

definition filter_delta :: "nat \<Rightarrow> filter_decompressor result" where
  "filter_delta distance =
     (if distance < 1 \<or> DELTA_HISTORY < distance then Inl (DecompressionError ''invalid delta distance: {}'')
      else Inr (filter_with_state (FsDelta distance (replicate DELTA_HISTORY 0) 0)))"

section \<open>Steps\<close>

text \<open>The delta arm of \<^verbatim>\<open>run\<close>.\<close>

primrec delta_loop :: "nat \<Rightarrow> bytes \<Rightarrow> byte \<Rightarrow> bytes \<Rightarrow> (bytes \<times> byte) \<times> bytes" where
  "delta_loop distance history hist_pos [] = ((history, hist_pos), [])"
| "delta_loop distance history hist_pos (b # bs) =
     (let b' = b + history ! ((distance + unat hist_pos) mod 256) in
      case delta_loop distance (history[unat hist_pos := b']) (hist_pos - 1) bs of
        (s, out) \<Rightarrow> (s, b' # out))"

definition filter_run :: "filter_decompressor \<Rightarrow> bool \<Rightarrow> filter_decompressor" where
  "filter_run d end =
     (let start = fd_filtered d;
          now_pos = of_nat (fd_pos d + start) :: u32;
          data = drop start (fd_buf d)
      in case (case fd_state d of
            FsDelta distance history hist_pos \<Rightarrow>
              (case delta_loop distance history hist_pos data of
                 ((history, hist_pos), out) \<Rightarrow> (FsDelta distance history hist_pos, out, length data))
          | FsBcj arch prev_mask prev_pos \<Rightarrow>
              (case bcj_convert arch data now_pos (prev_mask, prev_pos) of
                 ((prev_mask, prev_pos), out, t) \<Rightarrow> (FsBcj arch prev_mask prev_pos, out @ t, length out))) of
        (st, data, n) \<Rightarrow>
          d\<lparr>fd_state := st, fd_buf := take start (fd_buf d) @ data,
            fd_filtered := (if end then length (fd_buf d) else start + n)\<rparr>)"

definition filter_emit :: "filter_decompressor \<Rightarrow> nat \<Rightarrow> filter_decompressor \<times> bytes" where
  "filter_emit d cap =
     (let n = min (fd_filtered d) cap in
      (d\<lparr>fd_buf := drop n (fd_buf d), fd_filtered := fd_filtered d - n, fd_pos := fd_pos d + n\<rparr>, take n (fd_buf d)))"

definition filter_decompress ::
  "filter_decompressor \<Rightarrow> bytes \<Rightarrow> nat \<Rightarrow> filter_decompressor \<times> decompress_result result" where
  "filter_decompress d input cap =
     (case filter_emit d cap of
        (d, out1) \<Rightarrow>
          (case (if length out1 < cap \<and> \<not> fd_finished d then
                   (case (if input = [] then ((filter_run d True)\<lparr>fd_finished := True\<rparr>, 0)
                          else let tk = min (length input) CHUNK in
                               (filter_run (d\<lparr>fd_buf := fd_buf d @ take tk input\<rparr>) False, tk)) of
                      (d, consumed) \<Rightarrow>
                        (case filter_emit d (cap - length out1) of (d, out2) \<Rightarrow> (d, consumed, out1 @ out2)))
                 else (d, 0, out1)) of
             (d, consumed, out) \<Rightarrow>
               (d, Inr \<lparr>bytes_consumed = consumed, produced = out,
                        status = (if fd_finished d \<and> fd_buf d = [] then StreamEnd else Continue)\<rparr>)))"

definition filter_checkpoint ::
  "(filter_state \<Rightarrow> bytes option) \<Rightarrow> filter_decompressor \<Rightarrow> nat \<Rightarrow> nat \<Rightarrow> checkpoint option result" where
  "filter_checkpoint ser d c u =
     (case ser (fd_state d) of
        None \<Rightarrow> Inl (CheckpointError ''serialize filter: {}'')
      | Some extra \<Rightarrow>
          Inr (Some (Ck c 0 u (CkFilter
            \<lparr>fi_pos = fd_pos d, fi_held = fd_buf d, fi_filtered = fd_filtered d, fi_extra = extra,
             fi_finished = fd_finished d\<rparr>))))"

text \<open>The state a filter of the same kind starts from.\<close>

definition filter_reset_state :: "filter_state \<Rightarrow> filter_state" where
  "filter_reset_state st =
     (case st of
        FsBcj arch _ _ \<Rightarrow> FsBcj arch 0 (0 - 5)
      | FsDelta distance _ _ \<Rightarrow> FsDelta distance (replicate DELTA_HISTORY 0) 0)"

definition filter_restore ::
  "(bytes \<Rightarrow> filter_state option) \<Rightarrow> filter_decompressor \<Rightarrow> checkpoint \<Rightarrow> filter_decompressor \<times> unit result" where
  "filter_restore de d cp =
     (case state cp of
        CkFilter s \<Rightarrow>
          if fi_filtered s > length (fi_held s) then (d, Inl (CheckpointError ''filter checkpoint inconsistent''))
          else (case de (fi_extra s) of
                  None \<Rightarrow> (d, Inl (CheckpointError ''deserialize filter: {}''))
                | Some st \<Rightarrow>
                    (d\<lparr>fd_state := st, fd_pos := fi_pos s, fd_buf := fi_held s, fd_filtered := fi_filtered s,
                       fd_finished := fi_finished s\<rparr>, Inr ()))
      | CkNone \<Rightarrow>
          (d\<lparr>fd_state := filter_reset_state (fd_state d), fd_pos := 0, fd_buf := [], fd_filtered := 0,
             fd_finished := False\<rparr>, Inr ())
      | _ \<Rightarrow> (d, Inl (CheckpointError ''expected filter checkpoint state'')))"

definition filter_ops ::
  "(filter_state \<Rightarrow> bytes option) \<Rightarrow> (bytes \<Rightarrow> filter_state option) \<Rightarrow> filter_decompressor decompressor" where
  "filter_ops ser de =
     \<lparr>decompress = filter_decompress, take_checkpoint = filter_checkpoint ser, restore = filter_restore de\<rparr>"

section \<open>The reference\<close>

text \<open>What a filter started in \<open>st\<close> makes of a whole stream, and how far it is after a part of it.\<close>

definition filter_output :: "filter_state \<Rightarrow> bytes \<Rightarrow> bytes" where
  "filter_output st packed =
     (case st of
        FsBcj arch pm pp \<Rightarrow> (case bcj_ref arch 0 (bcj_mask arch 0 (pm, pp)) packed of (_, out, t) \<Rightarrow> out @ t)
      | FsDelta distance history hist_pos \<Rightarrow> snd (delta_loop distance history hist_pos packed))"

definition filter_reaches :: "filter_state \<Rightarrow> bytes \<Rightarrow> filter_state \<Rightarrow> bytes \<Rightarrow> bytes \<Rightarrow> bool" where
  "filter_reaches st0 xs st out t \<longleftrightarrow>
     (case st0 of
        FsBcj arch pm pp \<Rightarrow> \<exists>pm' pp'. st = FsBcj arch pm' pp' \<and>
          bcj_ref arch 0 (bcj_mask arch 0 (pm, pp)) xs = (bcj_mask arch (of_nat (length out)) (pm', pp'), out, t)
      | FsDelta distance history hist_pos \<Rightarrow> \<exists>history' hist_pos'. st = FsDelta distance history' hist_pos' \<and>
          delta_loop distance history hist_pos xs = ((history', hist_pos'), out) \<and> t = [])"

lemma delta_loop_append:
  "delta_loop d h p xs = ((h', p'), out) \<Longrightarrow>
   delta_loop d h p (xs @ ys) = (case delta_loop d h' p' ys of (s, out') \<Rightarrow> (s, out @ out'))"
  by (induction xs arbitrary: h p out) (auto simp: Let_def split: prod.splits)

lemma delta_loop_length: "delta_loop d h p xs = (s, out) \<Longrightarrow> length out = length xs"
  by (induction xs arbitrary: h p s out) (auto simp: Let_def split: prod.splits)

lemma reaches_start: "filter_reaches st [] st [] []"
  by (cases st) (auto simp: filter_reaches_def bcj_ref_def bcj.short bcj.w_pos)

lemma reaches_lengths:
  assumes "filter_reaches st0 xs st out t"
  shows "length out + length t = length xs" "length t < 16"
proof -
  have w: "bcj_window arch \<le> 16" for arch by (cases arch) (simp_all add: bcj_window_def)
  show "length out + length t = length xs" "length t < 16"
    using assms
    by (auto simp: filter_reaches_def bcj_ref_def dest!: bcj.held delta_loop_length intro: less_le_trans [OF _ w]
        split: filter_state.splits)
qed

lemma reaches_output: "filter_reaches st0 packed st out t \<Longrightarrow> filter_output st0 packed = out @ t"
  by (auto simp: filter_reaches_def filter_output_def split: filter_state.splits)

text \<open>What has come out so far is never taken back.\<close>

lemma reaches_prefix:
  assumes "filter_reaches st0 (take c packed) st out t"
  shows "\<exists>rest. filter_output st0 packed = out @ rest"
proof (cases st0)
  case (FsBcj arch pm pp)
  then obtain m where "bcj_ref arch 0 (bcj_mask arch 0 (pm, pp)) (take c packed) = (m, out, t)"
    using assms by (auto simp: filter_reaches_def)
  moreover obtain s2 o2 t2 where "bcj_ref arch (0 + of_nat (length out)) m (t @ drop c packed) = (s2, o2, t2)" by (metis surj_pair)
  ultimately have "bcj_ref arch 0 (bcj_mask arch 0 (pm, pp)) (take c packed @ drop c packed) = (s2, out @ o2, t2)"
    unfolding bcj_ref_def by (rule bcj.resume)
  then show ?thesis using FsBcj by (simp add: filter_output_def)
next
  case (FsDelta d h p)
  then obtain h' p' where "delta_loop d h p (take c packed) = ((h', p'), out)" using assms by (auto simp: filter_reaches_def)
  from delta_loop_append [OF this, of "drop c packed"] show ?thesis using FsDelta
    by (auto simp: filter_output_def split: prod.splits)
qed

lemma length_filter_output: "length (filter_output st packed) = length packed"
proof (cases st)
  case (FsBcj arch pm pp)
  obtain m out t where "bcj_ref arch 0 (bcj_mask arch 0 (pm, pp)) packed = (m, out, t)" by (metis surj_pair)
  then show ?thesis using FsBcj by (auto simp: filter_output_def bcj_ref_def dest!: bcj.held)
next
  case (FsDelta d h p)
  obtain s out where "delta_loop d h p packed = (s, out)" by (metis surj_pair)
  then show ?thesis using FsDelta by (auto simp: filter_output_def dest!: delta_loop_length)
qed

section \<open>The contract\<close>

lemma run_data:
  assumes r: "filter_reaches st0 xs (fd_state d) out t" and f: "fd_filtered d = 0" and p: "fd_pos d = length out"
    and b: "fd_buf d = t @ ys" and len: "length ys \<le> CHUNK"
  obtains st' out' t' where "\<And>e. filter_run d e = d\<lparr>fd_state := st', fd_buf := out' @ t',
      fd_filtered := (if e then length (fd_buf d) else length out')\<rparr>"
    "filter_reaches st0 (xs @ ys) st' (out @ out') t'" "length out' + length t' = length (fd_buf d)"
proof (cases st0)
  case (FsBcj arch pm pp)
  then obtain pm1 pp1 where st: "fd_state d = FsBcj arch pm1 pp1"
      "bcj_ref arch 0 (bcj_mask arch 0 (pm, pp)) xs = (bcj_mask arch (of_nat (length out)) (pm1, pp1), out, t)"
    using r by (auto simp: filter_reaches_def)
  obtain pm2 pp2 out' t' where c: "bcj_convert arch (t @ ys) (of_nat (length out)) (pm1, pp1) = ((pm2, pp2), out', t')"
    by (metis surj_pair)
  have l: "length (t @ ys) < 2 ^ 32 - 5" using reaches_lengths(2) [OF r] len by (simp add: CHUNK_def)
  note cr = bcj_convert_ref [OF c l]
  have "bcj_ref arch 0 (bcj_mask arch 0 (pm, pp)) (xs @ ys) = (bcj_mask arch (of_nat (length (out @ out'))) (pm2, pp2), out @ out', t')"
    using bcj.resume [OF st(2) [unfolded bcj_ref_def], of ys] cr unfolding bcj_ref_def by simp
  then have "filter_reaches st0 (xs @ ys) (FsBcj arch pm2 pp2) (out @ out') t'" using FsBcj by (simp add: filter_reaches_def)
  moreover have "length out' + length t' = length (fd_buf d)" using bcj.held cr b unfolding bcj_ref_def by fastforce
  ultimately show thesis using that [where st' = "FsBcj arch pm2 pp2" and out' = out' and t' = t'] st(1) f p b c by (simp add: filter_run_def Let_def)
next
  case (FsDelta dist h hp)
  then obtain h1 hp1 where st: "fd_state d = FsDelta dist h1 hp1" "delta_loop dist h hp xs = ((h1, hp1), out)" "t = []"
    using r by (auto simp: filter_reaches_def)
  obtain h2 hp2 out' where c: "delta_loop dist h1 hp1 ys = ((h2, hp2), out')" by (metis surj_pair)
  have "filter_reaches st0 (xs @ ys) (FsDelta dist h2 hp2) (out @ out') []"
    using FsDelta delta_loop_append [OF st(2), of ys] c by (simp add: filter_reaches_def)
  then show thesis using that [where st' = "FsDelta dist h2 hp2" and out' = out' and t' = "[]"] st f p b c delta_loop_length [OF c]
    by (simp add: filter_run_def Let_def)
qed

text \<open>At the end nothing that was held back changes.\<close>

lemma reaches_held: "filter_reaches st0 xs st out t \<Longrightarrow> filter_reaches st0 xs st' (out @ out') t' \<Longrightarrow> out' = [] \<and> t' = t"
  by (auto simp: filter_reaches_def split: filter_state.splits)

definition filter_at :: "filter_state \<Rightarrow> bytes \<Rightarrow> filter_decompressor \<Rightarrow> nat \<Rightarrow> nat \<Rightarrow> bool" where
  "filter_at st0 packed d c u \<longleftrightarrow> c \<le> length packed \<and> u \<le> length packed \<and> fd_pos d = u \<and> fd_filtered d \<le> length (fd_buf d) \<and>
     (if fd_finished d
      then c = length packed \<and> fd_buf d = drop u (filter_output st0 packed) \<and> fd_filtered d = length (fd_buf d)
      else \<exists>out t. filter_reaches st0 (take c packed) (fd_state d) out t \<and> u \<le> length out \<and>
        take (fd_filtered d) (fd_buf d) = drop u out \<and> drop (fd_filtered d) (fd_buf d) = t)"

definition filter_fresh :: "filter_state \<Rightarrow> filter_decompressor \<Rightarrow> bool" where
  "filter_fresh st0 d \<longleftrightarrow> d = filter_with_state st0"

definition filter_good ::
  "(bytes \<Rightarrow> filter_state option) \<Rightarrow> filter_state \<Rightarrow> bytes \<Rightarrow> checkpoint \<Rightarrow> bool" where
  "filter_good de st0 packed cp \<longleftrightarrow> cp = start_checkpoint \<or>
     (\<exists>d extra. filter_at st0 packed d (compressed_offset cp) (uncompressed_offset cp) \<and> de extra = Some (fd_state d) \<and>
        state cp = CkFilter \<lparr>fi_pos = fd_pos d, fi_held = fd_buf d, fi_filtered = fd_filtered d, fi_extra = extra,
          fi_finished = fd_finished d\<rparr>)"

text \<open>The state after \<^verbatim>\<open>emit\<close>, and the two ways a step goes on from it.\<close>

lemma emit_at:
  assumes at: "filter_at st0 packed d c u" and e: "filter_emit d cap = (d1, out1)"
  shows "filter_at st0 packed d1 c (u + length out1)" "take (length out1) (drop u (filter_output st0 packed)) = out1"
    "length out1 = min (fd_filtered d) cap" "fd_filtered d1 = fd_filtered d - length out1" "fd_finished d1 = fd_finished d"
    "fd_state d1 = fd_state d"
proof -
  have f: "fd_filtered d \<le> length (fd_buf d)" using at by (simp add: filter_at_def)
  let ?n = "min (fd_filtered d) cap"
  have d1: "d1 = d\<lparr>fd_buf := drop ?n (fd_buf d), fd_filtered := fd_filtered d - ?n, fd_pos := fd_pos d + ?n\<rparr>"
    and o1: "out1 = take ?n (fd_buf d)" using e by (auto simp: filter_emit_def Let_def)
  have n: "length out1 = ?n" using f o1 by simp
  then show "length out1 = min (fd_filtered d) cap" "fd_filtered d1 = fd_filtered d - length out1" "fd_finished d1 = fd_finished d"
    "fd_state d1 = fd_state d" using d1 by simp_all
  have "filter_at st0 packed d1 c (u + ?n) \<and> take ?n (drop u (filter_output st0 packed)) = take ?n (fd_buf d)"
  proof (cases "fd_finished d")
    case True
    then have "fd_buf d = drop u (filter_output st0 packed)" "fd_filtered d = length (fd_buf d)" "u \<le> length packed"
      using at by (simp_all add: filter_at_def)
    then show ?thesis using True at d1 by (auto simp: filter_at_def length_filter_output add.commute)
  next
    case False
    then obtain out t where r: "filter_reaches st0 (take c packed) (fd_state d) out t" "u \<le> length out"
      "take (fd_filtered d) (fd_buf d) = drop u out" "drop (fd_filtered d) (fd_buf d) = t" using at by (auto simp: filter_at_def)
    have lo: "fd_filtered d = length out - u" using arg_cong [OF r(3), of length] f by simp
    obtain rest where ro: "filter_output st0 packed = out @ rest" using reaches_prefix r(1) by blast
    have cl: "length out \<le> length packed" using reaches_lengths(1) [OF r(1)] by simp
    have "take ?n (fd_buf d) = take ?n (drop u out)" using r(3) by (metis min.idem min.commute take_take min.assoc)
    then have "take ?n (drop u (filter_output st0 packed)) = take ?n (fd_buf d)" using ro lo by simp
    moreover have "take (fd_filtered d - ?n) (drop ?n (fd_buf d)) = drop (u + ?n) out"
      using arg_cong [OF r(3), of "drop ?n"] by (simp add: drop_take add.commute)
    moreover have "u + ?n \<le> length out" "drop (fd_filtered d - ?n) (drop ?n (fd_buf d)) = t" using lo r(2,4) by auto
    ultimately show ?thesis using False at d1 r(1) cl f by (auto simp: filter_at_def)
  qed
  then show "filter_at st0 packed d1 c (u + length out1)" "take (length out1) (drop u (filter_output st0 packed)) = out1"
    using n o1 by simp_all
qed

lemma run_at:
  assumes at: "filter_at st0 packed d c u" and nf: "\<not> fd_finished d" and f: "fd_filtered d = 0"
    and inp: "take tk (drop c packed) = ys" and len: "length ys = tk" "tk \<le> CHUNK"
  shows "filter_at st0 packed (filter_run (d\<lparr>fd_buf := fd_buf d @ ys\<rparr>) False) (c + tk) u"
    "\<not> fd_finished (filter_run (d\<lparr>fd_buf := fd_buf d @ ys\<rparr>) False)"
proof -
  let ?d = "d\<lparr>fd_buf := fd_buf d @ ys\<rparr>"
  obtain out t where r: "filter_reaches st0 (take c packed) (fd_state d) out t" "u \<le> length out" "drop u out = []" "fd_buf d = t"
      "fd_pos d = u" "c \<le> length packed"
    using at nf f by (auto simp: filter_at_def)
  have u: "u = length out" using r(2,3) by simp
  have r': "filter_reaches st0 (take c packed) (fd_state ?d) out t" "fd_filtered ?d = 0" "fd_pos ?d = length out" "fd_buf ?d = t @ ys"
    using r f u by simp_all
  obtain st' out' t' where x: "\<And>e. filter_run ?d e = ?d\<lparr>fd_state := st', fd_buf := out' @ t',
      fd_filtered := (if e then length (fd_buf ?d) else length out')\<rparr>"
    "filter_reaches st0 (take c packed @ ys) st' (out @ out') t'" "length out' + length t' = length (fd_buf ?d)"
    by (rule run_data [OF r']) (use len in auto)
  have ct: "take (c + tk) packed = take c packed @ ys" using inp by (simp add: take_add)
  have "c + tk \<le> length packed" using arg_cong [OF inp, of length] len r(6) by (cases "tk = 0") auto
  then show "filter_at st0 packed (filter_run ?d False) (c + tk) u" "\<not> fd_finished (filter_run ?d False)"
    using x(1) [of False] x(2) nf r(5) u at ct reaches_lengths(1) [OF x(2)] by (auto simp: filter_at_def)
qed

lemma run_end_at:
  assumes at: "filter_at st0 packed d (length packed) u" and nf: "\<not> fd_finished d" and f: "fd_filtered d = 0"
  shows "filter_at st0 packed ((filter_run d True)\<lparr>fd_finished := True\<rparr>) (length packed) u"
proof -
  obtain out t where r: "filter_reaches st0 packed (fd_state d) out t" "u \<le> length out" "drop u out = []" "fd_buf d = t @ []"
      "fd_pos d = u" using at nf f by (auto simp: filter_at_def)
  have u: "u = length out" using r(2,3) by simp
  obtain st' out' t' where x: "\<And>e. filter_run d e = d\<lparr>fd_state := st', fd_buf := out' @ t',
      fd_filtered := (if e then length (fd_buf d) else length out')\<rparr>"
    "filter_reaches st0 (packed @ []) st' (out @ out') t'" "length out' + length t' = length (fd_buf d)"
    by (rule run_data [OF r(1) f _ r(4)]) (use r(5) u in auto)
  have "out' = [] \<and> t' = t" using reaches_held [OF r(1)] x(2) by simp
  then show ?thesis using x(1) [of True] at r reaches_output [OF r(1)] u by (auto simp: filter_at_def)
qed

lemma filter_step:
  assumes at: "filter_at st0 packed d c u" and inp: "take (length input) (drop c packed) = input"
    and hi: "input \<noteq> [] \<or> c = length packed" and cap: "0 < cap"
  shows "\<exists>d' r. filter_decompress d input cap = (d', Inr r) \<and> bytes_consumed r \<le> length input \<and> bytes_produced r \<le> cap \<and>
    take (bytes_produced r) (drop u (filter_output st0 packed)) = produced r \<and>
    filter_at st0 packed d' (c + bytes_consumed r) (u + bytes_produced r) \<and>
    (status r = StreamEnd \<longrightarrow> u + bytes_produced r = length (filter_output st0 packed)) \<and>
    (bytes_consumed r = 0 \<and> bytes_produced r = 0 \<longrightarrow> status r = StreamEnd)"
proof -
  obtain d1 out1 where e1: "filter_emit d cap = (d1, out1)" by (cases "filter_emit d cap") auto
  note f1 = emit_at [OF at e1]
  have done': "fd_finished d' \<and> fd_buf d' = [] \<Longrightarrow> filter_at st0 packed d' c' u' \<Longrightarrow> u' = length (filter_output st0 packed)" for d' c' u'
    by (auto simp: filter_at_def length_filter_output)
  show ?thesis
  proof (cases "length out1 < cap \<and> \<not> fd_finished d1")
    case False
    let ?r = "\<lparr>bytes_consumed = 0, produced = out1, status = (if fd_finished d1 \<and> fd_buf d1 = [] then StreamEnd else Continue)\<rparr>"
    have eq: "filter_decompress d input cap = (d1, Inr ?r)" unfolding filter_decompress_def e1 prod.case if_not_P [OF False] by simp
    have "bytes_produced ?r = 0 \<Longrightarrow> status ?r = StreamEnd"
    proof -
      assume "bytes_produced ?r = 0"
      then have z: "length out1 = 0" by (simp add: bytes_produced_def)
      then have "fd_finished d1" using False cap by simp
      moreover have "fd_filtered d = 0" using f1(3) z cap by (simp add: min_def split: if_splits)
      moreover have "fd_filtered d1 = length (fd_buf d1)" using f1(1) calculation(1) by (simp add: filter_at_def)
      ultimately show ?thesis using f1(4) z by simp
    qed
    then show ?thesis using eq f1 done' [of d1 c "u + length out1"] by (auto simp: bytes_produced_def)
  next
    case True
    then have z: "fd_filtered d1 = 0" using f1(3,4) by linarith
    obtain d2 n where run: "(if input = [] then ((filter_run d1 True)\<lparr>fd_finished := True\<rparr>, 0)
        else let tk = min (length input) CHUNK in (filter_run (d1\<lparr>fd_buf := fd_buf d1 @ take tk input\<rparr>) False, tk)) = (d2, n)"
      by (metis surj_pair)
    have r2: "filter_at st0 packed d2 (c + n) (u + length out1)" "n \<le> length input" "n = 0 \<Longrightarrow> fd_finished d2"
    proof -
      have "filter_at st0 packed d2 (c + n) (u + length out1) \<and> n \<le> length input \<and> (n = 0 \<longrightarrow> fd_finished d2)"
      proof (cases "input = []")
        case t: True
        then have "c = length packed" using hi by simp
        with run_end_at [of st0 packed d1 "u + length out1"] f1(1) True z t run show ?thesis by auto
      next
        case f: False
        let ?tk = "min (length input) CHUNK"
        have tk: "take ?tk (drop c packed) = take ?tk input"
        proof -
          have "take ?tk (drop c packed) = take ?tk (take (length input) (drop c packed))" by (simp add: take_take min.commute min.left_commute)
          then show ?thesis using inp by simp
        qed
        have "n = ?tk" "d2 = filter_run (d1\<lparr>fd_buf := fd_buf d1 @ take ?tk input\<rparr>) False" using run f by (auto simp: Let_def)
        moreover have "0 < ?tk" using f by (simp add: CHUNK_def)
        ultimately show ?thesis using run_at [OF f1(1) _ z tk] True by (auto simp: min_def)
      qed
      then show "filter_at st0 packed d2 (c + n) (u + length out1)" "n \<le> length input" "n = 0 \<Longrightarrow> fd_finished d2" by auto
    qed
    obtain d3 out2 where e2: "filter_emit d2 (cap - length out1) = (d3, out2)" by (cases "filter_emit d2 (cap - length out1)") auto
    note f2 = emit_at [OF r2(1) e2]
    let ?r = "\<lparr>bytes_consumed = n, produced = out1 @ out2, status = (if fd_finished d3 \<and> fd_buf d3 = [] then StreamEnd else Continue)\<rparr>"
    have eq: "filter_decompress d input cap = (d3, Inr ?r)"
      unfolding filter_decompress_def e1 prod.case if_P [OF True] run e2 by simp
    have "take (length out1 + length out2) (drop u (filter_output st0 packed)) = out1 @ out2"
      using f1(2) f2(2) by (simp add: take_add add.commute)
    moreover have "bytes_consumed ?r = 0 \<Longrightarrow> bytes_produced ?r = 0 \<Longrightarrow> status ?r = StreamEnd"
    proof -
      assume "bytes_consumed ?r = 0" and "bytes_produced ?r = 0"
      then have zz: "n = 0" "length out1 = 0" "length out2 = 0" by (simp_all add: bytes_produced_def)
      then have fin: "fd_finished d3" using r2(3) f2(5) by simp
      have "fd_filtered d2 = 0" using f2(3) zz cap by (simp add: min_def split: if_splits)
      moreover have "fd_filtered d3 = length (fd_buf d3)" using f2(1) fin by (simp add: filter_at_def)
      ultimately show ?thesis using fin f2(4) zz by simp
    qed
    moreover have "length out1 + length out2 \<le> cap" using f1(3) f2(3) by linarith
    ultimately show ?thesis using eq f2(1) r2(2) done' [of d3 "c + n" "u + length out1 + length out2"]
      by (auto simp: bytes_produced_def add.assoc)
  qed
qed

text \<open>Every filter keeps the contract of a decompressor of the stream its reference gives.\<close>

lemma filter_decoder:
  assumes bincode: "\<forall>s. \<exists>x. ser s = Some x \<and> de x = Some s" and st0: "filter_reset_state st0 = st0"
  shows "decoder (filter_ops ser de) packed (filter_output st0 packed) (filter_at st0 packed) (filter_good de st0 packed) (filter_fresh st0)"
proof
  fix d c u
  assume at: "filter_at st0 packed d c u"
  then show "c \<le> length packed \<and> u \<le> length (filter_output st0 packed)" by (simp add: filter_at_def length_filter_output)
  from bincode obtain extra where x: "ser (fd_state d) = Some extra" "de extra = Some (fd_state d)" by blast
  then show "\<exists>r. take_checkpoint (filter_ops ser de) d c u = Inr r \<and>
      (\<forall>cp. r = Some cp \<longrightarrow> filter_good de st0 packed cp \<and> uncompressed_offset cp = u \<and> compressed_offset cp \<le> c)"
    using at by (auto simp: filter_ops_def filter_checkpoint_def filter_good_def)
next
  fix d c u input cap
  assume "filter_at st0 packed d c u" and "take (length input) (drop c packed) = input"
    and "input \<noteq> [] \<or> c = length packed" and "0 < (cap :: nat)"
  then show "\<exists>d' r. decompress (filter_ops ser de) d input cap = (d', Inr r) \<and> bytes_consumed r \<le> length input \<and>
      bytes_produced r \<le> cap \<and> take (bytes_produced r) (drop u (filter_output st0 packed)) = produced r \<and>
      filter_at st0 packed d' (c + bytes_consumed r) (u + bytes_produced r) \<and>
      (status r = StreamEnd \<longrightarrow> u + bytes_produced r = length (filter_output st0 packed)) \<and>
      (bytes_consumed r = 0 \<and> bytes_produced r = 0 \<longrightarrow> status r = StreamEnd)"
    using filter_step by (simp add: filter_ops_def)
next
  fix d cp
  assume f: "filter_fresh st0 d" and g: "filter_good de st0 packed cp"
  have start: "filter_at st0 packed (filter_with_state st0) 0 0"
    using reaches_start by (auto simp: filter_at_def filter_with_state_def)
  show "\<exists>d'. restore (filter_ops ser de) d cp = (d', Inr ()) \<and> filter_at st0 packed d' (compressed_offset cp) (uncompressed_offset cp)"
  proof (cases "cp = start_checkpoint")
    case True
    then show ?thesis using f st0 start
      by (simp add: filter_ops_def filter_restore_def start_checkpoint_def filter_fresh_def filter_with_state_def)
  next
    case False
    with g obtain d0 extra where d0: "filter_at st0 packed d0 (compressed_offset cp) (uncompressed_offset cp)"
      "de extra = Some (fd_state d0)" "state cp = CkFilter \<lparr>fi_pos = fd_pos d0, fi_held = fd_buf d0, fi_filtered = fd_filtered d0,
        fi_extra = extra, fi_finished = fd_finished d0\<rparr>" by (auto simp: filter_good_def)
    have "fd_filtered d0 \<le> length (fd_buf d0)" using d0(1) by (simp add: filter_at_def)
    then have "restore (filter_ops ser de) d cp = (d0, Inr ())" using d0(2,3) by (simp add: filter_ops_def filter_restore_def)
    then show ?thesis using d0(1) by blast
  qed
next
  show "filter_good de st0 packed start_checkpoint" by (simp add: filter_good_def)
next
  fix d
  assume "filter_fresh st0 d"
  then show "filter_at st0 packed d 0 0" using reaches_start by (auto simp: filter_fresh_def filter_at_def filter_with_state_def)
qed

lemma filter_bcj_started: "filter_reset_state (fd_state (filter_bcj arch)) = fd_state (filter_bcj arch)"
  "filter_fresh (fd_state (filter_bcj arch)) (filter_bcj arch)"
  by (simp_all add: filter_bcj_def filter_with_state_def filter_reset_state_def filter_fresh_def)

lemma filter_delta_started: "filter_delta distance = Inr d \<Longrightarrow> filter_reset_state (fd_state d) = fd_state d"
  "filter_delta distance = Inr d \<Longrightarrow> filter_fresh (fd_state d) d"
  by (auto simp: filter_delta_def filter_with_state_def filter_reset_state_def filter_fresh_def split: if_splits)

end
