(* ===== verification/Bcj2.thy ===== *)
theory Bcj2
  imports Words Codec Checkpoint
begin

text \<open>
  \<^verbatim>\<open>src/compress/bcj2.rs\<close>: 7-Zip's four-stream x86 converter as a decoding stage. The main stream flows
  through it; the CALL, JUMP and range-coder streams are held whole. Machine integers have their
  widths, so a state from a corrupt checkpoint wraps as in a release build. The stage keeps the
  \<open>decoder\<close> contract of the stream its reference gives.
\<close>

definition TOP :: u32 where
  "TOP = push_bit 24 1"

definition BIT_MODEL_TOTAL :: u16 where
  "BIT_MODEL_TOTAL = push_bit 11 1"

definition MOVE_BITS :: nat where
  "MOVE_BITS = 5"

definition NUM_PROBS :: nat where
  "NUM_PROBS = 2 + 256"

record bcj2_state =
  bs_probs :: "u16 list"
  bs_range :: u32
  bs_code :: u32
  bs_rc_pos :: nat
  bs_call_pos :: nat
  bs_jump_pos :: nat
  bs_ip :: u32
  bs_prev :: byte
  bs_pending :: bytes
  bs_finished :: bool

record bcj2_decompressor =
  bd_streams :: bcj2_streams
  bd_state :: bcj2_state

definition bcj2_initial :: "bcj2_streams \<Rightarrow> bcj2_state result" where
  "bcj2_initial streams =
     (if length (b2_rc streams) < 5 then Inl (DecompressionError ''BCJ2 range coder stream truncated'')
      else
        let head = take 5 (b2_rc streams);
            code = be32 (drop 1 head)
        in if head ! 0 \<noteq> 0 \<or> code = - 1 then Inl (DecompressionError ''BCJ2 range coder stream corrupt'')
           else Inr \<lparr>bs_probs = replicate NUM_PROBS (drop_bit 1 BIT_MODEL_TOTAL), bs_range = - 1, bs_code = code,
                     bs_rc_pos = 5, bs_call_pos = 0, bs_jump_pos = 0, bs_ip = 0, bs_prev = 0, bs_pending = [],
                     bs_finished = False\<rparr>)"

definition bcj2_new :: "bcj2_streams \<Rightarrow> bcj2_decompressor result" where
  "bcj2_new streams = and_then (bcj2_initial streams) (\<lambda>st. Inr \<lparr>bd_streams = streams, bd_state = st\<rparr>)"

section \<open>The bit coder and the side streams\<close>

text \<open>The first lines of \<^verbatim>\<open>bit\<close>: a byte is shifted in when the range has become small.\<close>

definition bcj2_normalize :: "bcj2_streams \<Rightarrow> bcj2_state \<Rightarrow> bcj2_state result" where
  "bcj2_normalize streams st =
     (if bs_range st < TOP then
        if bs_rc_pos st < length (b2_rc streams)
        then Inr (st\<lparr>bs_rc_pos := bs_rc_pos st + 1, bs_range := push_bit 8 (bs_range st),
                     bs_code := push_bit 8 (bs_code st) OR u32 (b2_rc streams ! bs_rc_pos st)\<rparr>)
        else Inl (DecompressionError ''BCJ2 range coder stream exhausted'')
      else Inr st)"

definition bcj2_bit :: "bcj2_streams \<Rightarrow> bcj2_state \<Rightarrow> nat \<Rightarrow> bcj2_state \<times> bool result" where
  "bcj2_bit streams st context =
     (case bcj2_normalize streams st of
        Inl e \<Rightarrow> (st, Inl e)
      | Inr st \<Rightarrow>
          let p = bs_probs st ! context;
              bound = drop_bit 11 (bs_range st) * ucast p
          in if bs_code st < bound
             then (st\<lparr>bs_range := bound,
                      bs_probs := (bs_probs st)[context := p + drop_bit MOVE_BITS (BIT_MODEL_TOTAL - p)]\<rparr>, Inr False)
             else (st\<lparr>bs_range := bs_range st - bound, bs_code := bs_code st - bound,
                      bs_probs := (bs_probs st)[context := p - drop_bit MOVE_BITS p]\<rparr>, Inr True))"

definition bcj2_target :: "bcj2_streams \<Rightarrow> bcj2_state \<Rightarrow> bool \<Rightarrow> bcj2_state \<times> u32 result" where
  "bcj2_target streams st call =
     (let stream = (if call then b2_call streams else b2_jump streams);
          pos = (if call then bs_call_pos st else bs_jump_pos st)
      in if length stream < pos + 4 then (st, Inl (DecompressionError ''BCJ2 {} stream exhausted''))
         else
           let src = be32 (subslice pos (pos + 4) stream);
               st = (if call then st\<lparr>bs_call_pos := pos + 4\<rparr> else st\<lparr>bs_jump_pos := pos + 4\<rparr>);
               st = st\<lparr>bs_ip := bs_ip st + 4\<rparr>
           in (st, Inr (src - bs_ip st)))"

section \<open>Decoding\<close>

text \<open>The context of a marker byte.\<close>

definition bcj2_context :: "byte \<Rightarrow> byte \<Rightarrow> nat option" where
  "bcj2_context b prev =
     (if b = 0xE8 then Some (2 + unat prev)
      else if b = 0xE9 then Some 1
      else if 0x80 \<le> b \<and> b \<le> 0x8F \<and> prev = 0x0F then Some 0
      else None)"

text \<open>One byte of the main stream: it goes out, and after it the target, if one was converted.\<close>

definition bcj2_byte :: "bcj2_streams \<Rightarrow> bcj2_state \<Rightarrow> byte \<Rightarrow> bcj2_state \<times> bytes result" where
  "bcj2_byte streams st b =
     (let prev = bs_prev st;
          st = st\<lparr>bs_ip := bs_ip st + 1, bs_prev := b\<rparr>
      in case bcj2_context b prev of
           None \<Rightarrow> (st, Inr [b])
         | Some context \<Rightarrow>
             (case bcj2_bit streams st context of
                (st, Inl e) \<Rightarrow> (st, Inl e)
              | (st, Inr False) \<Rightarrow> (st, Inr [b])
              | (st, Inr True) \<Rightarrow>
                  (case bcj2_target streams st (b = 0xE8) of
                     (st, Inl e) \<Rightarrow> (st, Inl e)
                   | (st, Inr dest) \<Rightarrow>
                       let bytes = to_le32 dest in (st\<lparr>bs_prev := bytes ! 3\<rparr>, Inr (b # bytes)))))"

text \<open>The \<^verbatim>\<open>while\<close> loop, with \<open>room\<close> bytes left in the output: the bytes consumed and put out.\<close>

primrec bcj2_loop :: "bcj2_streams \<Rightarrow> bcj2_state \<Rightarrow> bytes \<Rightarrow> nat \<Rightarrow> bcj2_state \<times> (nat \<times> bytes) result" where
  "bcj2_loop streams st [] room = (st, Inr (0, []))"
| "bcj2_loop streams st (b # bs) room =
     (if bs_pending st \<noteq> [] \<or> room = 0 then (st, Inr (0, []))
      else case bcj2_byte streams st b of
        (st, Inl e) \<Rightarrow> (st, Inl e)
      | (st, Inr bytes) \<Rightarrow>
          (case bcj2_loop streams (st\<lparr>bs_pending := drop room bytes\<rparr>) bs (room - length (take room bytes)) of
             (st, Inl e) \<Rightarrow> (st, Inl e)
           | (st, Inr (n, out)) \<Rightarrow> (st, Inr (n + 1, take room bytes @ out))))"

definition bcj2_decompress ::
  "bcj2_decompressor \<Rightarrow> bytes \<Rightarrow> nat \<Rightarrow> bcj2_decompressor \<times> decompress_result result" where
  "bcj2_decompress d input cap =
     (let out1 = take cap (bs_pending (bd_state d));
          st = (bd_state d)\<lparr>bs_pending := drop cap (bs_pending (bd_state d))\<rparr>
      in case bcj2_loop (bd_streams d) st input (cap - length out1) of
           (st, Inl e) \<Rightarrow> (d\<lparr>bd_state := st\<rparr>, Inl e)
         | (st, Inr (consumed, out2)) \<Rightarrow>
             let st = (if input = [] then st\<lparr>bs_finished := True\<rparr> else st) in
             (d\<lparr>bd_state := st\<rparr>,
              Inr \<lparr>bytes_consumed = consumed, produced = out1 @ out2,
                   status = (if bs_finished st \<and> bs_pending st = [] then StreamEnd else Continue)\<rparr>))"

section \<open>Checkpoints\<close>

definition bcj2_checkpoint ::
  "(bcj2_state \<Rightarrow> bytes option) \<Rightarrow> bcj2_decompressor \<Rightarrow> nat \<Rightarrow> nat \<Rightarrow> checkpoint option result" where
  "bcj2_checkpoint ser d c u =
     (case ser (bd_state d) of
        None \<Rightarrow> Inl (CheckpointError ''serialize bcj2: {}'')
      | Some x \<Rightarrow> Inr (Some (Ck c 0 u (CkBcj2 \<lparr>b2_state = x\<rparr>))))"

text \<open>The checks on a state that was read back.\<close>

definition bcj2_state_fits :: "bcj2_streams \<Rightarrow> bcj2_state \<Rightarrow> bool" where
  "bcj2_state_fits streams st \<longleftrightarrow> \<not> (length (bs_probs st) \<noteq> NUM_PROBS \<or> bs_rc_pos st > length (b2_rc streams) \<or>
     bs_call_pos st > length (b2_call streams) \<or> bs_jump_pos st > length (b2_jump streams))"

definition bcj2_restore ::
  "(bytes \<Rightarrow> bcj2_state option) \<Rightarrow> bcj2_decompressor \<Rightarrow> checkpoint \<Rightarrow> bcj2_decompressor \<times> unit result" where
  "bcj2_restore de d cp =
     (case state cp of
        CkBcj2 s \<Rightarrow>
          (case de (b2_state s) of
             None \<Rightarrow> (d, Inl (CheckpointError ''deserialize bcj2: {}''))
           | Some st \<Rightarrow>
               if \<not> bcj2_state_fits (bd_streams d) st
               then (d, Inl (CheckpointError ''bcj2 checkpoint does not fit its side streams''))
               else (d\<lparr>bd_state := st\<rparr>, Inr ()))
      | CkNone \<Rightarrow>
          (case bcj2_initial (bd_streams d) of
             Inl e \<Rightarrow> (d, Inl e)
           | Inr st \<Rightarrow> (d\<lparr>bd_state := st\<rparr>, Inr ()))
      | _ \<Rightarrow> (d, Inl (CheckpointError ''expected bcj2 checkpoint state'')))"

definition bcj2_ops ::
  "(bcj2_state \<Rightarrow> bytes option) \<Rightarrow> (bytes \<Rightarrow> bcj2_state option) \<Rightarrow> bcj2_decompressor decompressor" where
  "bcj2_ops ser de =
     \<lparr>decompress = bcj2_decompress, take_checkpoint = bcj2_checkpoint ser, restore = bcj2_restore de\<rparr>"

section \<open>The reference\<close>

text \<open>The whole main stream, byte by byte; \<open>None\<close> if a side stream is exhausted.\<close>

primrec bcj2_run :: "bcj2_streams \<Rightarrow> bcj2_state \<Rightarrow> bytes \<Rightarrow> (bcj2_state \<times> bytes) option" where
  "bcj2_run streams st [] = Some (st, [])"
| "bcj2_run streams st (b # bs) =
     (case bcj2_byte streams st b of
        (st, Inl e) \<Rightarrow> None
      | (st, Inr bytes) \<Rightarrow> map_option (\<lambda>(st, out). (st, bytes @ out)) (bcj2_run streams st bs))"

definition bcj2_output :: "bcj2_streams \<Rightarrow> bytes \<Rightarrow> bytes option" where
  "bcj2_output streams packed =
     (case bcj2_initial streams of
        Inl e \<Rightarrow> None
      | Inr st \<Rightarrow> map_option snd (bcj2_run streams st packed))"

lemma bcj2_run_append:
  "bcj2_run S st (xs @ ys) = (case bcj2_run S st xs of None \<Rightarrow> None
     | Some (st', out) \<Rightarrow> map_option (\<lambda>(s, o2). (s, out @ o2)) (bcj2_run S st' ys))"
  by (induction xs arbitrary: st) (auto split: prod.splits sum.splits option.splits simp: map_option_case)

text \<open>What is waiting to be put out, and whether the stream is over, do not matter for decoding.\<close>

definition bcj2_core :: "bcj2_state \<Rightarrow> bcj2_state" where
  "bcj2_core st = st\<lparr>bs_pending := [], bs_finished := False\<rparr>"

lemma bcj2_byte_core:
  "bcj2_byte S (bcj2_core st) b = (case bcj2_byte S st b of (st', r) \<Rightarrow> (bcj2_core st', r))"
  "bcj2_byte S st b = (st', r) \<Longrightarrow> bs_pending st' = bs_pending st \<and> bs_finished st' = bs_finished st"
  by (auto simp: bcj2_byte_def bcj2_core_def bcj2_bit_def bcj2_normalize_def bcj2_target_def Let_def split: option.splits if_splits)

lemma bcj2_byte_fits: "bcj2_byte S st b = (st', Inr out) \<Longrightarrow> bcj2_state_fits S st \<Longrightarrow> bcj2_state_fits S st'"
  by (auto simp: bcj2_byte_def bcj2_bit_def bcj2_normalize_def bcj2_target_def Let_def bcj2_state_fits_def
      split: option.splits if_splits)

lemma bcj2_initial_fits: "bcj2_initial S = Inr st \<Longrightarrow> bcj2_state_fits S st \<and> bcj2_core st = st"
  by (auto simp: bcj2_initial_def bcj2_state_fits_def bcj2_core_def NUM_PROBS_def Let_def split: if_splits)

section \<open>The contract\<close>

text \<open>After the first \<open>c\<close> bytes: what came of them has gone out up to \<open>u\<close>, and the rest is waiting.\<close>

definition bcj2_reaches :: "bcj2_streams \<Rightarrow> bcj2_state \<Rightarrow> bytes \<Rightarrow> bcj2_state \<Rightarrow> nat \<Rightarrow> nat \<Rightarrow> bool" where
  "bcj2_reaches S st0 packed st c u \<longleftrightarrow> c \<le> length packed \<and> bcj2_state_fits S st \<and> (bs_finished st \<longrightarrow> c = length packed) \<and>
     (\<exists>out. bcj2_run S st0 (take c packed) = Some (bcj2_core st, out) \<and> u \<le> length out \<and> bs_pending st = drop u out)"

definition bcj2_at :: "bcj2_streams \<Rightarrow> bytes \<Rightarrow> bcj2_decompressor \<Rightarrow> nat \<Rightarrow> nat \<Rightarrow> bool" where
  "bcj2_at S packed d c u \<longleftrightarrow> bd_streams d = S \<and> (\<exists>st0. bcj2_initial S = Inr st0 \<and> bcj2_reaches S st0 packed (bd_state d) c u)"

definition bcj2_good ::
  "(bytes \<Rightarrow> bcj2_state option) \<Rightarrow> bcj2_streams \<Rightarrow> bytes \<Rightarrow> checkpoint \<Rightarrow> bool" where
  "bcj2_good de S packed cp \<longleftrightarrow> cp = start_checkpoint \<or>
     (\<exists>d x. bcj2_at S packed d (compressed_offset cp) (uncompressed_offset cp) \<and> de x = Some (bd_state d) \<and>
        state cp = CkBcj2 \<lparr>b2_state = x\<rparr>)"

definition bcj2_fresh :: "bcj2_streams \<Rightarrow> bcj2_decompressor \<Rightarrow> bool" where
  "bcj2_fresh S d \<longleftrightarrow> bcj2_new S = Inr d"

lemma reaches_part:
  assumes whole: "bcj2_run S st0 packed = Some (fin, unpacked)" and r: "bcj2_run S st0 (take c packed) = Some (st, out)"
  shows "\<exists>rest. unpacked = out @ rest" "c = length packed \<Longrightarrow> unpacked = out"
  using whole r bcj2_run_append [of S st0 "take c packed" "drop c packed"] by (auto split: option.splits simp: map_option_case)

lemma bcj2_loop_reaches:
  assumes whole: "bcj2_run S st0 packed = Some (fin, unpacked)"
  shows "bcj2_reaches S st0 packed st c u \<Longrightarrow> take (length input) (drop c packed) = input \<Longrightarrow> \<not> bs_finished st \<Longrightarrow>
    \<exists>st' n out. bcj2_loop S st input room = (st', Inr (n, out)) \<and> bcj2_reaches S st0 packed st' (c + n) (u + length out) \<and>
      \<not> bs_finished st' \<and> n \<le> length input \<and> length out \<le> room \<and> take (length out) (drop u unpacked) = out \<and>
      (bs_pending st = [] \<and> 0 < room \<and> input \<noteq> [] \<longrightarrow> 0 < n)"
proof (induction input arbitrary: st c u room)
  case (Cons b bs)
  show ?case
  proof (cases "bs_pending st \<noteq> [] \<or> room = 0")
    case True
    then have "bcj2_loop S st (b # bs) room = (st, Inr (0, []))" by simp
    then show ?thesis using Cons.prems True by auto
  next
    case False
    from Cons.prems(1) obtain out where o: "bcj2_run S st0 (take c packed) = Some (bcj2_core st, out)" "u \<le> length out"
      "bs_pending st = drop u out" "bcj2_state_fits S st" by (auto simp: bcj2_reaches_def)
    have u: "u = length out" using o(2,3) False by simp
    have b: "drop c packed = b # drop (Suc c) packed" "c < length packed"
    proof -
      have "drop c packed \<noteq> []" "hd (drop c packed) = b" using Cons.prems(2) by (cases "drop c packed"; auto)+
      then show "drop c packed = b # drop (Suc c) packed" "c < length packed" by (auto simp: Cons_nth_drop_Suc [symmetric] hd_drop_conv_nth)
    qed
    have tk: "take (Suc c) packed = take c packed @ [b]" using b by (simp add: take_Suc_conv_app_nth Cons_nth_drop_Suc [symmetric])
    have bs: "take (length bs) (drop (Suc c) packed) = bs" using Cons.prems(2) b(1) by simp
    have pk: "packed = take (Suc c) packed @ drop (Suc c) packed" by simp
    obtain st1 r1 where y: "bcj2_byte S st b = (st1, r1)" by (cases "bcj2_byte S st b") auto
    have yc: "bcj2_byte S (bcj2_core st) b = (bcj2_core st1, r1)" using bcj2_byte_core(1) [of S st b] y by simp
    have "bcj2_run S st0 (take (Suc c) packed) \<noteq> None" using whole bcj2_run_append [of S st0 "take (Suc c) packed" "drop (Suc c) packed"]
      by (auto split: option.splits)
    then obtain bytes where bytes: "r1 = Inr bytes" "bcj2_run S st0 (take (Suc c) packed) = Some (bcj2_core st1, out @ bytes)"
      using o(1) yc unfolding tk bcj2_run_append by (cases r1) auto
    define st2 where "st2 = st1\<lparr>bs_pending := drop room bytes\<rparr>"
    have y2: "bs_pending st1 = bs_pending st" "bs_finished st1 = bs_finished st" using bcj2_byte_core(2) [OF y] by auto
    have fits: "bcj2_state_fits S st2" using bcj2_byte_fits y o(4) bytes(1) by (simp add: st2_def bcj2_state_fits_def)
    have core: "bcj2_core st2 = bcj2_core st1" by (simp add: st2_def bcj2_core_def)
    have r2: "bcj2_reaches S st0 packed st2 (Suc c) (u + length (take room bytes))"
      using b(2) fits bytes(2) core u Cons.prems(3) y2(2) by (auto simp: bcj2_reaches_def st2_def min_def)
    have nf: "\<not> bs_finished st2" using Cons.prems(3) y2(2) by (simp add: st2_def)
    from Cons.IH [OF r2 bs nf, of "room - length (take room bytes)"] obtain st3 n o2 where h:
      "bcj2_loop S st2 bs (room - length (take room bytes)) = (st3, Inr (n, o2))"
      "bcj2_reaches S st0 packed st3 (Suc c + n) (u + length (take room bytes) + length o2)" "\<not> bs_finished st3" "n \<le> length bs"
      "length o2 \<le> room - length (take room bytes)" "take (length o2) (drop (u + length (take room bytes)) unpacked) = o2" by blast
    have "bcj2_loop S st (b # bs) room = (st3, Inr (n + 1, take room bytes @ o2))"
      using False y bytes(1) h(1) by (simp add: st2_def)
    moreover have "take (length (take room bytes @ o2)) (drop u unpacked) = take room bytes @ o2"
    proof -
      obtain rest where "unpacked = (out @ bytes) @ rest" using reaches_part(1) [OF whole bytes(2)] by blast
      then have "take (length (take room bytes)) (drop u unpacked) = take room bytes" using u by (auto simp: min_def)
      then show ?thesis using h(6) unfolding length_append take_add drop_drop add.commute [of _ u] by simp
    qed
    moreover have "length (take room bytes @ o2) \<le> room" using h(5) by auto
    ultimately show ?thesis using h(2-4) by (auto simp: add.assoc)
  qed
qed (auto simp: bcj2_reaches_def)

text \<open>Handing out what is waiting.\<close>

lemma reaches_emit:
  assumes whole: "bcj2_run S st0 packed = Some (fin, unpacked)" and r: "bcj2_reaches S st0 packed st c u"
  shows "bcj2_reaches S st0 packed (st\<lparr>bs_pending := drop cap (bs_pending st)\<rparr>) c (u + length (take cap (bs_pending st)))"
    "take (length (take cap (bs_pending st))) (drop u unpacked) = take cap (bs_pending st)"
proof -
  obtain out where o: "bcj2_run S st0 (take c packed) = Some (bcj2_core st, out)" "u \<le> length out" "bs_pending st = drop u out"
    using r by (auto simp: bcj2_reaches_def)
  obtain rest where "unpacked = out @ rest" using reaches_part(1) [OF whole o(1)] by blast
  then show "take (length (take cap (bs_pending st))) (drop u unpacked) = take cap (bs_pending st)" using o(2,3) by (auto simp: min_def)
  have "bcj2_core (st\<lparr>bs_pending := drop cap (bs_pending st)\<rparr>) = bcj2_core st" by (simp add: bcj2_core_def)
  then show "bcj2_reaches S st0 packed (st\<lparr>bs_pending := drop cap (bs_pending st)\<rparr>) c (u + length (take cap (bs_pending st)))"
    using r o by (auto simp: bcj2_reaches_def bcj2_state_fits_def min_def add.commute)
qed

lemma bcj2_step:
  assumes out: "bcj2_output S packed = Some unpacked" and at: "bcj2_at S packed d c u"
    and inp: "take (length input) (drop c packed) = input" and hi: "input \<noteq> [] \<or> c = length packed" and cap: "0 < cap"
  shows "\<exists>d' r. bcj2_decompress d input cap = (d', Inr r) \<and> bytes_consumed r \<le> length input \<and> bytes_produced r \<le> cap \<and>
    take (bytes_produced r) (drop u unpacked) = produced r \<and> bcj2_at S packed d' (c + bytes_consumed r) (u + bytes_produced r) \<and>
    (status r = StreamEnd \<longrightarrow> u + bytes_produced r = length unpacked) \<and>
    (bytes_consumed r = 0 \<and> bytes_produced r = 0 \<longrightarrow> status r = StreamEnd)"
proof -
  obtain st0 fin where S: "bd_streams d = S" "bcj2_initial S = Inr st0" "bcj2_reaches S st0 packed (bd_state d) c u"
    "bcj2_run S st0 packed = Some (fin, unpacked)"
    using at out by (auto simp: bcj2_at_def bcj2_output_def)
  let ?st = "bd_state d" and ?out1 = "take cap (bs_pending (bd_state d))"
  define st1 where "st1 = ?st\<lparr>bs_pending := drop cap (bs_pending ?st)\<rparr>"
  note e = reaches_emit [OF S(4,3), of cap, folded st1_def]
  have full: "u' = length unpacked" if "bcj2_reaches S st0 packed st c' u'" "bs_finished st" "bs_pending st = []" for st c' u'
  proof -
    have "c' = length packed" "\<exists>o1. bcj2_run S st0 (take c' packed) = Some (bcj2_core st, o1) \<and> u' \<le> length o1 \<and> drop u' o1 = []"
      using that by (auto simp: bcj2_reaches_def)
    then show ?thesis using S(4) by auto
  qed
  show ?thesis
  proof (cases "input = []")
    case True
    define st2 where "st2 = st1\<lparr>bs_finished := True\<rparr>"
    have "c = length packed" using True hi by simp
    moreover have "bcj2_core st2 = bcj2_core st1" by (simp add: st2_def bcj2_core_def)
    ultimately have r2: "bcj2_reaches S st0 packed st2 c (u + length ?out1)"
      using e(1) by (auto simp: bcj2_reaches_def st2_def bcj2_state_fits_def)
    have "bcj2_decompress d input cap = (d\<lparr>bd_state := st2\<rparr>, Inr \<lparr>bytes_consumed = 0, produced = ?out1,
        status = (if bs_pending st2 = [] then StreamEnd else Continue)\<rparr>)"
      using True by (simp add: bcj2_decompress_def Let_def st1_def st2_def)
    moreover have "bcj2_at S packed (d\<lparr>bd_state := st2\<rparr>) c (u + length ?out1)" using S(1,2) r2 by (simp add: bcj2_at_def)
    moreover have "bs_pending st2 = [] \<Longrightarrow> u + length ?out1 = length unpacked" using full [OF r2] by (simp add: st2_def)
    moreover have "?out1 = [] \<Longrightarrow> bs_pending st2 = []" using cap by (auto simp: st2_def st1_def)
    ultimately show ?thesis using e(2) by (auto simp: bytes_produced_def)
  next
    case False
    have ni: "c \<noteq> length packed" using inp False by auto
    have nf: "\<not> bs_finished st1" using S(3) ni by (auto simp: st1_def bcj2_reaches_def)
    from bcj2_loop_reaches [OF S(4) e(1) inp nf, of "cap - length ?out1"] obtain st2 n o2 where l:
      "bcj2_loop S st1 input (cap - length ?out1) = (st2, Inr (n, o2))" "bcj2_reaches S st0 packed st2 (c + n) (u + length ?out1 + length o2)"
      "\<not> bs_finished st2" "n \<le> length input" "length o2 \<le> cap - length ?out1"
      "take (length o2) (drop (u + length ?out1) unpacked) = o2"
      "bs_pending st1 = [] \<and> 0 < cap - length ?out1 \<and> input \<noteq> [] \<longrightarrow> 0 < n" by blast
    have "bcj2_decompress d input cap = (d\<lparr>bd_state := st2\<rparr>, Inr \<lparr>bytes_consumed = n, produced = ?out1 @ o2, status = Continue\<rparr>)"
      using False l(1,3) S(1) by (simp add: bcj2_decompress_def Let_def st1_def)
    moreover have "bcj2_at S packed (d\<lparr>bd_state := st2\<rparr>) (c + n) (u + length (?out1 @ o2))"
      using S(1,2) l(2) by (auto simp: bcj2_at_def add.assoc)
    moreover have "take (length (?out1 @ o2)) (drop u unpacked) = ?out1 @ o2"
      using e(2) l(6) unfolding length_append take_add drop_drop add.commute [of _ u] by simp
    moreover have "length (?out1 @ o2) \<le> cap" using l(5) by auto
    moreover have "?out1 = [] \<Longrightarrow> 0 < n" using l(7) cap False by (auto simp: st1_def)
    ultimately show ?thesis using l(4) cap by (auto simp: bytes_produced_def)
  qed
qed

lemma bcj2_decoder:
  assumes bincode: "\<forall>s. \<exists>x. ser s = Some x \<and> de x = Some s" and out: "bcj2_output S packed = Some unpacked"
  shows "decoder (bcj2_ops ser de) packed unpacked (bcj2_at S packed) (bcj2_good de S packed) (bcj2_fresh S)"
proof
  obtain st0 fin where S: "bcj2_initial S = Inr st0" "bcj2_run S st0 packed = Some (fin, unpacked)"
    using out by (auto simp: bcj2_output_def split: sum.splits)
  have start: "bcj2_reaches S st0 packed st0 0 0"
    using bcj2_initial_fits [OF S(1)] S(1) by (auto simp: bcj2_reaches_def bcj2_initial_def Let_def split: if_splits)
  {
    fix d c u
    assume at: "bcj2_at S packed d c u"
    then obtain o1 where "c \<le> length packed" "bcj2_run S st0 (take c packed) = Some (bcj2_core (bd_state d), o1)" "u \<le> length o1"
      using S(1) by (auto simp: bcj2_at_def bcj2_reaches_def)
    moreover from reaches_part(1) [OF S(2) this(2)] obtain rest where "unpacked = o1 @ rest" by blast
    ultimately show "c \<le> length packed \<and> u \<le> length unpacked" by simp
    obtain x where "ser (bd_state d) = Some x" "de x = Some (bd_state d)" using bincode by blast
    then show "\<exists>r. take_checkpoint (bcj2_ops ser de) d c u = Inr r \<and>
        (\<forall>cp. r = Some cp \<longrightarrow> bcj2_good de S packed cp \<and> uncompressed_offset cp = u \<and> compressed_offset cp \<le> c)"
      using at by (auto simp: bcj2_ops_def bcj2_checkpoint_def bcj2_good_def)
  next
    fix d c u input cap
    assume "bcj2_at S packed d c u" and "take (length input) (drop c packed) = input"
      and "input \<noteq> [] \<or> c = length packed" and "0 < (cap :: nat)"
    from bcj2_step [OF out this]
    show "\<exists>d' r. decompress (bcj2_ops ser de) d input cap = (d', Inr r) \<and> bytes_consumed r \<le> length input \<and>
      bytes_produced r \<le> cap \<and> take (bytes_produced r) (drop u unpacked) = produced r \<and>
      bcj2_at S packed d' (c + bytes_consumed r) (u + bytes_produced r) \<and>
      (status r = StreamEnd \<longrightarrow> u + bytes_produced r = length unpacked) \<and>
      (bytes_consumed r = 0 \<and> bytes_produced r = 0 \<longrightarrow> status r = StreamEnd)"
      by (simp add: bcj2_ops_def)
  next
    fix d cp
    assume f: "bcj2_fresh S d" and g: "bcj2_good de S packed cp"
    have d: "d = \<lparr>bd_streams = S, bd_state = st0\<rparr>" using f S(1) by (simp add: bcj2_fresh_def bcj2_new_def)
    show "\<exists>d'. restore (bcj2_ops ser de) d cp = (d', Inr ()) \<and> bcj2_at S packed d' (compressed_offset cp) (uncompressed_offset cp)"
    proof (cases "cp = start_checkpoint")
      case True
      then have "restore (bcj2_ops ser de) d cp = (d, Inr ())"
        using d S(1) by (simp add: bcj2_ops_def bcj2_restore_def start_checkpoint_def)
      moreover have "bcj2_at S packed d 0 0" using d S(1) start by (simp add: bcj2_at_def)
      ultimately show ?thesis using True by (auto simp: start_checkpoint_def)
    next
      case False
      with g obtain d0 x where d0: "bcj2_at S packed d0 (compressed_offset cp) (uncompressed_offset cp)" "de x = Some (bd_state d0)"
        "state cp = CkBcj2 \<lparr>b2_state = x\<rparr>" by (auto simp: bcj2_good_def)
      then have "bcj2_state_fits S (bd_state d0)" "bd_streams d0 = S" by (auto simp: bcj2_at_def bcj2_reaches_def)
      then have "restore (bcj2_ops ser de) d cp = (d0, Inr ())" using d0 d by (simp add: bcj2_ops_def bcj2_restore_def)
      then show ?thesis using d0(1) by blast
    qed
  next
    show "bcj2_good de S packed start_checkpoint" by (simp add: bcj2_good_def)
  next
    fix d
    assume "bcj2_fresh S d"
    then show "bcj2_at S packed d 0 0" using S(1) start by (auto simp: bcj2_fresh_def bcj2_new_def bcj2_at_def)
  }
qed

end
