(* ===== verification/Aes.thy ===== *)
theory Aes
  imports Checkpoint
begin

text \<open>
  \<^verbatim>\<open>src/compress/aes.rs\<close>: AES-256-CBC decryption as a decoding stage. The block cipher is the parameter
  \<open>D\<close>, which gives the decryption of a block under a key. The stage keeps the \<open>decoder\<close> contract.
\<close>

section \<open>State\<close>

definition AES_BLOCK :: nat where
  "AES_BLOCK = 16"

record aes_cbc_decryptor =
  ad_key :: bytes
  ad_iv :: bytes
  ad_prev :: bytes
  ad_carry :: bytes
  ad_staged :: bytes
  ad_produced :: nat
  ad_len :: "nat option"
  ad_finished :: bool

definition aes_new :: "bytes \<Rightarrow> bytes \<Rightarrow> nat option \<Rightarrow> aes_cbc_decryptor" where
  "aes_new key iv len =
     \<lparr>ad_key = key, ad_iv = iv, ad_prev = iv, ad_carry = [], ad_staged = [], ad_produced = 0, ad_len = len,
      ad_finished = False\<rparr>"

definition aes_remaining :: "aes_cbc_decryptor \<Rightarrow> nat" where
  "aes_remaining d = (case ad_len d of None \<Rightarrow> 2 ^ 64 - 1 | Some l \<Rightarrow> l - ad_produced d)"

section \<open>Steps\<close>

definition aes_emit :: "aes_cbc_decryptor \<Rightarrow> nat \<Rightarrow> aes_cbc_decryptor \<times> bytes" where
  "aes_emit d cap =
     (let n = min (min (length (ad_staged d)) cap) (aes_remaining d);
          out = take n (ad_staged d);
          d = d\<lparr>ad_staged := drop n (ad_staged d), ad_produced := ad_produced d + n\<rparr>
      in (if aes_remaining d = 0 then d\<lparr>ad_finished := True, ad_staged := []\<rparr> else d, out))"

definition aes_decrypt_block :: "(bytes \<Rightarrow> bytes \<Rightarrow> bytes) \<Rightarrow> aes_cbc_decryptor \<Rightarrow> bytes \<Rightarrow> aes_cbc_decryptor" where
  "aes_decrypt_block D d block =
     d\<lparr>ad_prev := block, ad_staged := ad_staged d @ map2 (XOR) (D (ad_key d) block) (ad_prev d)\<rparr>"

text \<open>The loop over whole blocks of the input; \<open>inp\<close> is \<^verbatim>\<open>input[pos..]\<close>.\<close>

function aes_blocks ::
  "(bytes \<Rightarrow> bytes \<Rightarrow> bytes) \<Rightarrow> nat \<Rightarrow> aes_cbc_decryptor \<Rightarrow> nat \<Rightarrow> bytes \<Rightarrow> aes_cbc_decryptor \<times> nat \<times> bytes" where
  "aes_blocks D want d blocks inp =
     (if blocks < want \<and> length inp \<ge> AES_BLOCK
      then aes_blocks D want (aes_decrypt_block D d (take AES_BLOCK inp)) (blocks + 1) (drop AES_BLOCK inp)
      else (d, blocks, inp))"
  by pat_completeness auto
termination by (relation "measure (\<lambda>(D, want, d, blocks, inp). length inp)") (auto simp: AES_BLOCK_def)

declare aes_blocks.simps [simp del]

text \<open>Filling up a partial block first: the state and \<^verbatim>\<open>input[pos..]\<close>.\<close>

definition aes_fill_carry :: "(bytes \<Rightarrow> bytes \<Rightarrow> bytes) \<Rightarrow> aes_cbc_decryptor \<Rightarrow> bytes \<Rightarrow> aes_cbc_decryptor \<times> bytes" where
  "aes_fill_carry D d input =
     (if ad_carry d = [] then (d, input)
      else
        let need = AES_BLOCK - length (ad_carry d);
            tk = min need (length input);
            d = d\<lparr>ad_carry := ad_carry d @ take tk input\<rparr>
        in (if length (ad_carry d) = AES_BLOCK
            then aes_decrypt_block D (d\<lparr>ad_carry := []\<rparr>) (ad_carry d)
            else d, drop tk input))"

text \<open>Decrypting as many blocks as the output, with \<open>room\<close> bytes left, can take.\<close>

definition aes_decrypt_input :: "(bytes \<Rightarrow> bytes \<Rightarrow> bytes) \<Rightarrow> aes_cbc_decryptor \<Rightarrow> bytes \<Rightarrow> nat \<Rightarrow> aes_cbc_decryptor \<times> nat" where
  "aes_decrypt_input D d input room =
     (let want_blocks = max (room div AES_BLOCK) 1 in
      case aes_fill_carry D d input of
        (d, inp) \<Rightarrow>
          (case aes_blocks D want_blocks d (if length (ad_staged d) \<ge> AES_BLOCK then 1 else 0) inp of
             (d, blocks, inp) \<Rightarrow>
               if blocks < want_blocks \<and> inp \<noteq> []
               then (d\<lparr>ad_carry := ad_carry d @ inp\<rparr>, length input)
               else (d, length input - length inp)))"

definition aes_decompress ::
  "(bytes \<Rightarrow> bytes \<Rightarrow> bytes) \<Rightarrow> aes_cbc_decryptor \<Rightarrow> bytes \<Rightarrow> nat \<Rightarrow> aes_cbc_decryptor \<times> decompress_result result" where
  "aes_decompress D d input cap =
     (let result = (\<lambda>d c out. (d, Inr \<lparr>bytes_consumed = c, produced = out,
                       status = (if ad_finished d then StreamEnd else Continue)\<rparr>))
      in case aes_emit d cap of
        (d, out) \<Rightarrow>
          if ad_finished d then (d, Inr \<lparr>bytes_consumed = 0, produced = out, status = StreamEnd\<rparr>)
          else if input = [] then
            if ad_carry d \<noteq> [] then (d, Inl TruncatedInput)
            else if ad_staged d = [] then
              if ad_len d \<noteq> None \<and> aes_remaining d > 0 then (d, Inl TruncatedInput)
              else result (d\<lparr>ad_finished := True\<rparr>) 0 out
            else result d 0 out
          else if length out < cap \<and> ad_staged d = [] then
            (case aes_decrypt_input D d input (cap - length out) of
               (d, consumed) \<Rightarrow> (case aes_emit d (cap - length out) of (d, out2) \<Rightarrow> result d consumed (out @ out2)))
          else result d 0 out)"

definition aes_checkpoint :: "aes_cbc_decryptor \<Rightarrow> nat \<Rightarrow> nat \<Rightarrow> checkpoint option result" where
  "aes_checkpoint d c u =
     Inr (Some (Ck c 0 u (CkAes
       \<lparr>ae_prev = ad_prev d, ae_carry = ad_carry d, ae_staged = ad_staged d, ae_produced = ad_produced d,
        ae_finished = ad_finished d\<rparr>)))"

definition aes_restore :: "aes_cbc_decryptor \<Rightarrow> checkpoint \<Rightarrow> aes_cbc_decryptor \<times> unit result" where
  "aes_restore d cp =
     (case state cp of
        CkAes s \<Rightarrow>
          (d\<lparr>ad_prev := ae_prev s, ad_carry := ae_carry s, ad_staged := ae_staged s, ad_produced := ae_produced s,
             ad_finished := ae_finished s\<rparr>, Inr ())
      | CkNone \<Rightarrow>
          (d\<lparr>ad_prev := ad_iv d, ad_carry := [], ad_staged := [], ad_produced := 0, ad_finished := False\<rparr>, Inr ())
      | _ \<Rightarrow> (d, Inl (CheckpointError ''expected AES checkpoint state'')))"

definition aes_ops :: "(bytes \<Rightarrow> bytes \<Rightarrow> bytes) \<Rightarrow> aes_cbc_decryptor decompressor" where
  "aes_ops D = \<lparr>decompress = aes_decompress D, take_checkpoint = aes_checkpoint, restore = aes_restore\<rparr>"

section \<open>Cipher block chaining\<close>

text \<open>The reference, on the whole stream: the last ciphertext block, and the plaintext.\<close>

function cbc_decrypt :: "(bytes \<Rightarrow> bytes) \<Rightarrow> bytes \<Rightarrow> bytes \<Rightarrow> bytes \<times> bytes" where
  "cbc_decrypt B prev xs =
     (if length xs < AES_BLOCK then (prev, [])
      else case cbc_decrypt B (take AES_BLOCK xs) (drop AES_BLOCK xs) of
        (final, out) \<Rightarrow> (final, map2 (XOR) (B (take AES_BLOCK xs)) prev @ out))"
  by pat_completeness auto
termination by (relation "measure (\<lambda>(B, prev, xs). length xs)") (auto simp: AES_BLOCK_def)

declare cbc_decrypt.simps [simp del]

definition aes_plaintext :: "(bytes \<Rightarrow> bytes) \<Rightarrow> bytes \<Rightarrow> nat option \<Rightarrow> bytes \<Rightarrow> bytes" where
  "aes_plaintext B iv len packed =
     (let all = snd (cbc_decrypt B iv packed) in case len of None \<Rightarrow> all | Some l \<Rightarrow> take l all)"

text \<open>The encryption of the tests, block by block from a padded plaintext.\<close>

function cbc_encrypt :: "(bytes \<Rightarrow> bytes) \<Rightarrow> bytes \<Rightarrow> bytes \<Rightarrow> bytes" where
  "cbc_encrypt C prev xs =
     (if length xs < AES_BLOCK then []
      else let b = C (map2 (XOR) (take AES_BLOCK xs) prev) in b @ cbc_encrypt C b (drop AES_BLOCK xs))"
  by pat_completeness auto
termination by (relation "measure (\<lambda>(C, prev, xs). length xs)") (auto simp: AES_BLOCK_def)

declare cbc_encrypt.simps [simp del]

definition pad_block :: "bytes \<Rightarrow> bytes" where
  "pad_block xs = xs @ replicate ((AES_BLOCK - length xs mod AES_BLOCK) mod AES_BLOCK) 0"

lemma cbc_decrypt_append:
  "16 dvd length xs \<Longrightarrow> cbc_decrypt B prev xs = (prev', out) \<Longrightarrow>
   cbc_decrypt B prev (xs @ ys) = (case cbc_decrypt B prev' ys of (p, out') \<Rightarrow> (p, out @ out'))"
proof (induction "length xs" arbitrary: xs prev out rule: less_induct)
  case less
  show ?case
  proof (cases "xs = []")
    case True
    then show ?thesis using less.prems by (simp add: cbc_decrypt.simps [of B prev "[]"] AES_BLOCK_def split: prod.splits)
  next
    case False
    then have l: "16 \<le> length xs" using less.prems(1) by (auto dest: dvd_imp_le)
    obtain p o1 where r: "cbc_decrypt B (take 16 xs) (drop 16 xs) = (p, o1)" by (metis surj_pair)
    have "16 dvd length (drop 16 xs)" using less.prems(1) l by (simp add: dvd_diff_nat)
    moreover have "length (drop 16 xs) < length xs" using l by simp
    moreover have "p = prev'" "out = map2 (XOR) (B (take 16 xs)) prev @ o1"
      using less.prems(2) r l by (simp_all add: cbc_decrypt.simps [of B prev xs] AES_BLOCK_def)
    ultimately show ?thesis using less.hyps [of "drop 16 xs" "take 16 xs" o1] r l
      by (simp add: cbc_decrypt.simps [of B prev "xs @ ys"] AES_BLOCK_def split: prod.splits)
  qed
qed

lemma cbc_decrypt_block:
  assumes "length block = 16"
  shows "cbc_decrypt B prev block = (block, map2 (XOR) (B block) prev)"
  using assms by (subst cbc_decrypt.simps) (simp add: AES_BLOCK_def cbc_decrypt.simps [of B block "[]"])

lemma length_cbc_decrypt:
  assumes B: "\<And>b. length b = 16 \<Longrightarrow> length (B b) = 16"
  shows "length prev = 16 \<Longrightarrow> length (snd (cbc_decrypt B prev xs)) = length xs - length xs mod 16 \<and>
    length (fst (cbc_decrypt B prev xs)) = 16"
proof (induction "length xs" arbitrary: xs prev rule: less_induct)
  case less
  show ?case
  proof (cases "length xs < 16")
    case False
    then have "length (drop 16 xs) < length xs" "length (take 16 xs) = 16" by auto
    note ih = less.hyps [OF this]
    have "length xs mod 16 = (length xs - 16) mod 16" using False by (simp add: mod_if)
    moreover have "(length xs - 16) mod 16 \<le> length xs - 16" by (rule mod_less_eq_dividend)
    moreover obtain p o1 where r: "cbc_decrypt B (take 16 xs) (drop 16 xs) = (p, o1)" by (metis surj_pair)
    moreover have "cbc_decrypt B prev xs = (p, map2 (XOR) (B (take 16 xs)) prev @ o1)"
      using r False by (simp add: cbc_decrypt.simps [of B prev xs] AES_BLOCK_def)
    ultimately show ?thesis using ih B [of "take 16 xs"] less.prems False by simp
  qed (use less.prems in \<open>simp add: cbc_decrypt.simps [of B prev xs] AES_BLOCK_def\<close>)
qed

lemma map2_xor_cancel: "length xs \<le> length ys \<Longrightarrow> map2 (XOR) (map2 (XOR) xs ys) ys = (xs :: bytes)"
  by (induction xs ys rule: list_induct2') (auto simp: xor.assoc)

text \<open>Decryption undoes encryption, and the length cuts off the padding.\<close>

lemma cbc_roundtrip:
  assumes C: "\<And>b. length b = 16 \<Longrightarrow> length (C b) = 16 \<and> B (C b) = b"
  shows "16 dvd length xs \<Longrightarrow> length prev = 16 \<Longrightarrow> snd (cbc_decrypt B prev (cbc_encrypt C prev xs)) = xs"
proof (induction "length xs" arbitrary: xs prev rule: less_induct)
  case less
  show ?case
  proof (cases "xs = []")
    case True
    then show ?thesis by (simp add: cbc_encrypt.simps [of C prev "[]"] cbc_decrypt.simps [of B prev "[]"] AES_BLOCK_def)
  next
    case False
    then have l: "16 \<le> length xs" using less.prems(1) by (auto dest: dvd_imp_le)
    let ?b = "C (map2 (XOR) (take 16 xs) prev)"
    have bl: "length (map2 (XOR) (take 16 xs) prev) = 16" using l less.prems(2) by simp
    note b = C [OF bl]
    have e: "cbc_encrypt C prev xs = ?b @ cbc_encrypt C ?b (drop 16 xs)"
      using l by (subst cbc_encrypt.simps) (simp add: AES_BLOCK_def Let_def)
    have "snd (cbc_decrypt B ?b (cbc_encrypt C ?b (drop 16 xs))) = drop 16 xs"
      using less.hyps [of "drop 16 xs" ?b] less.prems(1) l b by (simp add: dvd_diff_nat)
    moreover have "map2 (XOR) (B ?b) prev = take 16 xs" using b map2_xor_cancel [of "take 16 xs" prev] less.prems(2) by simp
    ultimately show ?thesis using b unfolding e
      by (subst cbc_decrypt.simps) (auto simp: AES_BLOCK_def split: prod.splits)
  qed
qed

section \<open>The contract\<close>

text \<open>
  The blocks before \<open>m\<close> have been decrypted: what is staged is their plaintext that has not been
  handed out. A state of the stage has done so up to its partial block.
\<close>

definition aes_core :: "(bytes \<Rightarrow> bytes) \<Rightarrow> bytes \<Rightarrow> bytes \<Rightarrow> aes_cbc_decryptor \<Rightarrow> nat \<Rightarrow> bool" where
  "aes_core B iv packed d m \<longleftrightarrow> 16 dvd m \<and> m \<le> length packed \<and>
     (\<exists>out. cbc_decrypt B iv (take m packed) = (ad_prev d, out) \<and> ad_produced d \<le> length out \<and>
        ad_staged d = drop (ad_produced d) out)"

definition aes_at ::
  "(bytes \<Rightarrow> bytes \<Rightarrow> bytes) \<Rightarrow> bytes \<Rightarrow> bytes \<Rightarrow> nat option \<Rightarrow> bytes \<Rightarrow> aes_cbc_decryptor \<Rightarrow> nat \<Rightarrow> nat \<Rightarrow> bool" where
  "aes_at D key iv len packed d c u \<longleftrightarrow> c \<le> length packed \<and> ad_key d = key \<and> ad_iv d = iv \<and> ad_len d = len \<and> ad_produced d = u \<and>
     (if ad_finished d then u = length (aes_plaintext (D key) iv len packed) \<and> ad_staged d = []
      else length (ad_carry d) < 16 \<and> length (ad_carry d) \<le> c \<and>
        aes_core (D key) iv packed d (c - length (ad_carry d)) \<and>
        take (length (ad_carry d)) (drop (c - length (ad_carry d)) packed) = ad_carry d \<and>
        (\<forall>l. len = Some l \<longrightarrow> u \<le> l))"

text \<open>What the caller relies on: whole blocks, and a plaintext length they can hold.\<close>

definition aes_stream_ok :: "(bytes \<Rightarrow> bytes) \<Rightarrow> bytes \<Rightarrow> nat option \<Rightarrow> bytes \<Rightarrow> bool" where
  "aes_stream_ok B iv len packed \<longleftrightarrow> (\<forall>b. length b = 16 \<longrightarrow> length (B b) = 16) \<and> length iv = 16 \<and> 16 dvd length packed \<and>
     (\<forall>l. len = Some l \<longrightarrow> l \<le> length packed)"

definition aes_good ::
  "(bytes \<Rightarrow> bytes \<Rightarrow> bytes) \<Rightarrow> bytes \<Rightarrow> bytes \<Rightarrow> nat option \<Rightarrow> bytes \<Rightarrow> checkpoint \<Rightarrow> bool" where
  "aes_good D key iv len packed cp \<longleftrightarrow> cp = start_checkpoint \<or>
     (\<exists>d. aes_at D key iv len packed d (compressed_offset cp) (uncompressed_offset cp) \<and>
        state cp = CkAes \<lparr>ae_prev = ad_prev d, ae_carry = ad_carry d, ae_staged = ad_staged d, ae_produced = ad_produced d,
          ae_finished = ad_finished d\<rparr>)"

lemma core_length:
  assumes ok: "aes_stream_ok B iv len packed" and m: "16 dvd m" "m \<le> length packed" and c: "cbc_decrypt B iv (take m packed) = (p, out)"
  shows "length out = m" "length p = 16" "\<exists>rest. snd (cbc_decrypt B iv packed) = out @ rest"
proof -
  have B: "length (B b) = 16" if "length b = 16" for b using ok that by (simp add: aes_stream_ok_def)
  have iv: "length iv = 16" using ok by (simp add: aes_stream_ok_def)
  have "m mod 16 = 0" using m by (simp add: dvd_eq_mod_eq_0)
  with length_cbc_decrypt [where B = B and prev = iv and xs = "take m packed", OF B iv] c m show "length out = m" "length p = 16" by simp_all
  from cbc_decrypt_append [OF _ c, of "drop m packed"] m show "\<exists>rest. snd (cbc_decrypt B iv packed) = out @ rest"
    by (auto split: prod.splits)
qed

lemma core_block:
  assumes ok: "aes_stream_ok (D (ad_key d)) iv len packed" and c: "aes_core (D (ad_key d)) iv packed d m"
    and b: "take 16 (drop m packed) = block" "length block = 16"
  shows "aes_core (D (ad_key d)) iv packed (aes_decrypt_block D d block) (m + 16)"
proof -
  let ?B = "D (ad_key d)"
  from c obtain out where o: "16 dvd m" "m \<le> length packed" "cbc_decrypt ?B iv (take m packed) = (ad_prev d, out)"
    "ad_produced d \<le> length out" "ad_staged d = drop (ad_produced d) out" by (auto simp: aes_core_def)
  have le: "m + 16 \<le> length packed" using arg_cong [OF b(1), of length] b(2) by simp
  have tk: "take (m + 16) packed = take m packed @ block" using b(1) by (simp add: take_add)
  have "16 dvd length (take m packed)" using o(1,2) by (simp add: min_absorb2)
  from cbc_decrypt_append [OF this o(3), of block] cbc_decrypt_block [OF b(2), of ?B "ad_prev d"]
  have "cbc_decrypt ?B iv (take (m + 16) packed) = (block, out @ map2 (XOR) (?B block) (ad_prev d))" by (simp add: tk)
  then show ?thesis using o le by (auto simp: aes_core_def aes_decrypt_block_def)
qed

lemma take_drop_take: "u + n \<le> l \<Longrightarrow> take n (drop u (take l xs)) = take n (drop u xs)"
  by (simp add: drop_take min_absorb1)

lemma emit_core:
  assumes ok: "aes_stream_ok (D key) iv len packed" and at: "aes_at D key iv len packed d c u" and e: "aes_emit d cap = (d', out)"
  shows "aes_at D key iv len packed d' c (u + length out)" "length out \<le> cap"
    "take (length out) (drop u (aes_plaintext (D key) iv len packed)) = out"
    "out = [] \<Longrightarrow> 0 < cap \<Longrightarrow> \<not> ad_finished d' \<Longrightarrow> ad_staged d = []"
    "\<not> ad_finished d' \<Longrightarrow> ad_carry d' = ad_carry d \<and> aes_remaining d' \<noteq> 0"
proof -
  let ?n = "min (min (length (ad_staged d)) cap) (aes_remaining d)"
  define d1 where "d1 = d\<lparr>ad_staged := drop ?n (ad_staged d), ad_produced := ad_produced d + ?n\<rparr>"
  have out: "out = take ?n (ad_staged d)"
    and d': "d' = (if aes_remaining d1 = 0 then d1\<lparr>ad_finished := True, ad_staged := []\<rparr> else d1)"
    using e by (auto simp: aes_emit_def Let_def d1_def)
  have n: "length out = ?n" "?n \<le> cap" using out by auto
  have u: "ad_produced d = u" using at by (simp add: aes_at_def)
  show "length out \<le> cap" using n by simp
  show "out = [] \<Longrightarrow> 0 < cap \<Longrightarrow> \<not> ad_finished d' \<Longrightarrow> ad_staged d = []"
  proof -
    assume "out = []" "0 < cap" "\<not> ad_finished d'"
    then have "?n = 0" "aes_remaining d1 \<noteq> 0" using n d' by (auto split: if_splits)
    moreover have "?n = 0 \<Longrightarrow> aes_remaining d1 = aes_remaining d" by (simp add: d1_def aes_remaining_def)
    ultimately show ?thesis using \<open>0 < cap\<close> by (auto simp: min_def split: if_splits)
  qed
  show "\<not> ad_finished d' \<Longrightarrow> ad_carry d' = ad_carry d \<and> aes_remaining d' \<noteq> 0"
  proof -
    assume nf: "\<not> ad_finished d'"
    then have "aes_remaining d1 \<noteq> 0" using d' by (auto split: if_splits)
    moreover from this have "d' = d1" using d' by simp
    ultimately show ?thesis by (simp add: d1_def)
  qed
  have "aes_at D key iv len packed d' c (u + ?n) \<and> take ?n (drop u (aes_plaintext (D key) iv len packed)) = out"
  proof (cases "ad_finished d")
    case True
    then have "ad_staged d = []" using at by (simp add: aes_at_def)
    then have "?n = 0" "d1 = d" by (simp_all add: d1_def)
    then show ?thesis using at True d' out by (auto simp: aes_at_def)
  next
    case False
    let ?m = "c - length (ad_carry d)"
    have a: "length (ad_carry d) < 16" "aes_core (D key) iv packed d ?m" "\<forall>l. len = Some l \<longrightarrow> u \<le> l" "ad_len d = len"
      using at False by (simp_all add: aes_at_def)
    then obtain o1 where o: "16 dvd ?m" "?m \<le> length packed" "cbc_decrypt (D key) iv (take ?m packed) = (ad_prev d, o1)"
      "u \<le> length o1" "ad_staged d = drop u o1" by (auto simp: aes_core_def u)
    from core_length [OF ok o(1-3)] obtain rest where o1: "length o1 = ?m" "snd (cbc_decrypt (D key) iv packed) = o1 @ rest" by blast
    have l: "u + ?n \<le> l" "l \<le> length packed" if "len = Some l" for l
      using a(3,4) that u ok by (auto simp: aes_remaining_def aes_stream_ok_def)
    have st: "take ?n (drop u (aes_plaintext (D key) iv len packed)) = out"
    proof (cases len)
      case None
      then show ?thesis using o1(2) o(4,5) out by (simp add: aes_plaintext_def)
    next
      case (Some l)
      have "take ?n (drop u (take l (o1 @ rest))) = take ?n (drop u (o1 @ rest))"
        by (rule take_drop_take [OF l(1) [OF Some]])
      then show ?thesis using Some o1(2) o(4,5) out by (simp add: aes_plaintext_def)
    qed
    have core: "aes_core (D key) iv packed d1 ?m"
      using o u by (auto simp: aes_core_def d1_def add.commute)
    have all: "u + ?n = length (aes_plaintext (D key) iv len packed)" if z: "aes_remaining d1 = 0"
    proof -
      obtain l where ls: "len = Some l" "l \<le> u + ?n" using z a(4) u by (auto simp: aes_remaining_def d1_def split: option.splits)
      then have "u + ?n = l" using l(1) by simp
      moreover have "length (snd (cbc_decrypt (D key) iv packed)) = length packed"
        using length_cbc_decrypt [of "D key" iv packed] ok by (auto simp: aes_stream_ok_def)
      ultimately show ?thesis using ls(1) l(2) [OF ls(1)] by (simp add: aes_plaintext_def)
    qed
    show ?thesis
    proof (cases "aes_remaining d1 = 0")
      case True
      then show ?thesis using all st at u d' by (auto simp: aes_at_def d1_def)
    next
      case nz: False
      then show ?thesis using st at u d' core False l by (auto simp: aes_at_def d1_def)
    qed
  qed
  with n show "aes_at D key iv len packed d' c (u + length out)"
    "take (length out) (drop u (aes_plaintext (D key) iv len packed)) = out" by simp_all
qed

text \<open>Decrypting input: from one position to the next, nothing handed out.\<close>

definition aes_going ::
  "(bytes \<Rightarrow> bytes \<Rightarrow> bytes) \<Rightarrow> bytes \<Rightarrow> bytes \<Rightarrow> nat option \<Rightarrow> bytes \<Rightarrow> aes_cbc_decryptor \<Rightarrow> nat \<Rightarrow> nat \<Rightarrow> bool" where
  "aes_going D key iv len packed d c u \<longleftrightarrow> aes_at D key iv len packed d c u \<and> \<not> ad_finished d"

lemma goingD:
  assumes "aes_going D key iv len packed d c u"
  shows "c \<le> length packed" "ad_key d = key" "length (ad_carry d) < 16" "length (ad_carry d) \<le> c"
    "aes_core (D key) iv packed d (c - length (ad_carry d))" "\<not> ad_finished d"
    "take (length (ad_carry d)) (drop (c - length (ad_carry d)) packed) = ad_carry d"
  using assms by (auto simp: aes_going_def aes_at_def)

lemma going_block:
  assumes ok: "aes_stream_ok (D key) iv len packed" and g: "aes_going D key iv len packed d c u" and c: "ad_carry d = []"
    and b: "take 16 (drop c packed) = block" "length block = 16"
  shows "aes_going D key iv len packed (aes_decrypt_block D d block) (c + 16) u" "ad_carry (aes_decrypt_block D d block) = []"
proof -
  have k: "ad_key d = key" by (rule goingD(2) [OF g])
  have "aes_core (D key) iv packed d c" using goingD(5) [OF g] c by simp
  from core_block [of D d iv len packed, unfolded k, OF ok this b]
  have "aes_core (D key) iv packed (aes_decrypt_block D d block) (c + 16)" .
  then show "aes_going D key iv len packed (aes_decrypt_block D d block) (c + 16) u" "ad_carry (aes_decrypt_block D d block) = []"
    using g c by (auto simp: aes_going_def aes_at_def aes_core_def aes_decrypt_block_def)
qed

lemma going_blocks:
  assumes ok: "aes_stream_ok (D key) iv len packed"
  shows "aes_going D key iv len packed d c u \<Longrightarrow> ad_carry d = [] \<Longrightarrow> take (length inp) (drop c packed) = inp \<Longrightarrow>
    aes_blocks D want d blocks inp = (d', blocks', inp') \<Longrightarrow>
    length inp' \<le> length inp \<and> aes_going D key iv len packed d' (c + (length inp - length inp')) u \<and> ad_carry d' = [] \<and>
    inp' = drop (length inp - length inp') inp \<and> (blocks' < want \<longrightarrow> length inp' < 16) \<and> (blocks < blocks' \<longrightarrow> length inp' < length inp) \<and>
    blocks \<le> blocks'"
proof (induction "length inp" arbitrary: inp d c blocks rule: less_induct)
  case less
  show ?case
  proof (cases "blocks < want \<and> length inp \<ge> 16")
    case False
    then have "aes_blocks D want d blocks inp = (d, blocks, inp)" by (subst aes_blocks.simps) (auto simp: AES_BLOCK_def)
    then show ?thesis using False less.prems by auto
  next
    case True
    have "take 16 (drop c packed) = take 16 (take (length inp) (drop c packed))" using True by simp
    then have b: "take 16 (drop c packed) = take 16 inp" "length (take 16 inp) = 16" using less.prems(3) True by simp_all
    note g = going_block [OF ok less.prems(1,2) b]
    have e: "aes_blocks D want (aes_decrypt_block D d (take 16 inp)) (blocks + 1) (drop 16 inp) = (d', blocks', inp')"
      using less.prems(4) True by (subst (asm) aes_blocks.simps) (simp add: AES_BLOCK_def)
    have i: "take (length (drop 16 inp)) (drop (c + 16) packed) = drop 16 inp"
      using arg_cong [OF less.prems(3), of "drop 16"] by (simp add: drop_take add.commute)
    have lt: "length (drop 16 inp) < length inp" using True unfolding length_drop by linarith
    note ih = less.hyps [OF lt g i e]
    have "c + 16 + (length (drop 16 inp) - length inp') = c + (length inp - length inp')"
      "length (drop 16 inp) - length inp' + 16 = length inp - length inp'" using ih True by auto
    then show ?thesis using ih lt True by (auto simp: add.commute)
  qed
qed

lemma going_fill:
  assumes ok: "aes_stream_ok (D key) iv len packed" and g: "aes_going D key iv len packed d c u"
    and inp: "take (length input) (drop c packed) = input" and ne: "input \<noteq> []" and st: "ad_staged d = []"
    and f: "aes_fill_carry D d input = (d', inp')"
  shows "length inp' \<le> length input" "aes_going D key iv len packed d' (c + (length input - length inp')) u"
    "inp' = drop (length input - length inp') input" "ad_carry d' \<noteq> [] \<Longrightarrow> inp' = []"
    "length inp' = length input \<Longrightarrow> ad_staged d' = []"
proof -
  note a = goingD(3,2) [OF g]
  have "length inp' \<le> length input \<and> aes_going D key iv len packed d' (c + (length input - length inp')) u \<and>
    inp' = drop (length input - length inp') input \<and> (ad_carry d' \<noteq> [] \<longrightarrow> inp' = []) \<and>
    (length inp' = length input \<longrightarrow> ad_staged d' = [])"
  proof (cases "ad_carry d = []")
    case True
    then show ?thesis using f g st by (auto simp: aes_fill_carry_def)
  next
    case False
    let ?k = "length (ad_carry d)" and ?t = "min (16 - length (ad_carry d)) (length input)"
    have t: "0 < ?t" "?t \<le> length input" "?k + ?t \<le> 16" using a(1) ne by auto
    have at: "?k \<le> c" "aes_core (D key) iv packed d (c - ?k)" "take ?k (drop (c - ?k) packed) = ad_carry d" "c \<le> length packed"
      by (rule goingD [OF g])+
    have "take ?t (drop c packed) = take ?t (take (length input) (drop c packed))" using t by simp
    then have tk: "take ?t (drop c packed) = take ?t input" using inp by simp
    have "length (take ?t (drop c packed)) = ?t" using tk t by simp
    then have cl: "c + ?t \<le> length packed" using t(1) unfolding length_take length_drop by linarith
    have block: "take (?k + ?t) (drop (c - ?k) packed) = ad_carry d @ take ?t input"
      using at(1,3) tk by (simp add: take_add)
    have i: "drop ?t input = drop (length input - length (drop ?t input)) input" "length input - length (drop ?t input) = ?t"
      using t by simp_all
    show ?thesis
    proof (cases "?k + ?t = 16")
      case full: True
      let ?b = "ad_carry d @ take ?t input"
      have bl: "take 16 (drop (c - ?k) packed) = ?b" "length ?b = 16" using block full t by simp_all
      have g1: "aes_going D key iv len packed (d\<lparr>ad_carry := []\<rparr>) (c - ?k) u"
        using g by (auto simp: aes_going_def aes_at_def aes_core_def)
      note gb = going_block [OF ok g1 _ bl]
      have "d' = aes_decrypt_block D (d\<lparr>ad_carry := []\<rparr>) ?b" "inp' = drop ?t input"
        using f False full t by (auto simp: aes_fill_carry_def Let_def AES_BLOCK_def aes_decrypt_block_def)
      moreover have "c - ?k + 16 = c + ?t" using full at(1) by simp
      moreover have "length (drop ?t input) < length input" using t unfolding length_drop by linarith
      ultimately show ?thesis using gb i by auto
    next
      case part: False
      then have all: "?t = length input" using t by (auto simp: min_def split: if_splits)
      have d': "d' = d\<lparr>ad_carry := ad_carry d @ input\<rparr>" "inp' = []"
        using f False part t all by (auto simp: aes_fill_carry_def Let_def AES_BLOCK_def split: if_splits)
      have "aes_going D key iv len packed d' (c + length input) u"
        using g part t block all cl at(1) by (auto simp: d' aes_going_def aes_at_def aes_core_def)
      then show ?thesis using d' ne by simp
    qed
  qed
  then show "length inp' \<le> length input" "aes_going D key iv len packed d' (c + (length input - length inp')) u"
    "inp' = drop (length input - length inp') input" "ad_carry d' \<noteq> [] \<Longrightarrow> inp' = []"
    "length inp' = length input \<Longrightarrow> ad_staged d' = []" by blast+
qed

lemma going_input:
  assumes ok: "aes_stream_ok (D key) iv len packed" and g: "aes_going D key iv len packed d c u"
    and inp: "take (length input) (drop c packed) = input" and ne: "input \<noteq> []" and st: "ad_staged d = []"
    and e: "aes_decrypt_input D d input room = (d', n)"
  shows "aes_going D key iv len packed d' (c + n) u" "0 < n" "n \<le> length input"
proof -
  let ?w = "max (room div 16) 1"
  obtain d1 inp1 where f: "aes_fill_carry D d input = (d1, inp1)" by (cases "aes_fill_carry D d input") auto
  note f1 = going_fill [OF ok g inp ne st f]
  let ?b0 = "if length (ad_staged d1) \<ge> 16 then 1 else 0 :: nat"
  obtain d2 blocks inp2 where b: "aes_blocks D ?w d1 ?b0 inp1 = (d2, blocks, inp2)" by (metis surj_pair)
  let ?n1 = "length input - length inp1"
  have i1: "take (length inp1) (drop (c + ?n1) packed) = inp1"
  proof -
    have "drop ?n1 (take (length input) (drop c packed)) = take (length inp1) (drop (c + ?n1) packed)"
      using f1(1) by (simp add: drop_take add.commute)
    then show ?thesis using inp f1(3) by simp
  qed
  have "aes_going D key iv len packed d2 (c + (length input - length inp2)) u \<and> length inp2 \<le> length input \<and>
    (blocks < ?w \<longrightarrow> length inp2 < 16) \<and> (inp2 \<noteq> [] \<longrightarrow> ad_carry d2 = []) \<and>
    inp2 = drop (length input - length inp2) input \<and> (length inp2 = length input \<longrightarrow> blocks = 0)"
  proof (cases "ad_carry d1 = []")
    case True
    note gb = going_blocks [OF ok f1(2) True i1 b]
    have "c + ?n1 + (length inp1 - length inp2) = c + (length input - length inp2)" using f1(1) gb by auto
    moreover have "inp2 = drop (length input - length inp2) input"
    proof -
      have "length inp1 - length inp2 + ?n1 = length input - length inp2" using gb f1(1) by auto
      then show ?thesis using gb f1(3) by (metis drop_drop)
    qed
    moreover have "length inp2 = length input \<Longrightarrow> blocks = 0" using gb f1(1,5) by auto
    ultimately show ?thesis using gb f1(1) by auto
  next
    case False
    then have "inp1 = []" by (rule f1(4))
    moreover have "aes_blocks D ?w d1 ?b0 [] = (d1, ?b0, [])" by (subst aes_blocks.simps) (simp add: AES_BLOCK_def)
    ultimately show ?thesis using b f1(2) ne by auto
  qed
  then have b2: "aes_going D key iv len packed d2 (c + (length input - length inp2)) u" "length inp2 \<le> length input"
    "blocks < ?w \<longrightarrow> length inp2 < 16" "inp2 \<noteq> [] \<longrightarrow> ad_carry d2 = []" "inp2 = drop (length input - length inp2) input"
    "length inp2 = length input \<longrightarrow> blocks = 0" by blast+
  have eq: "aes_decrypt_input D d input room =
    (if blocks < ?w \<and> inp2 \<noteq> [] then (d2\<lparr>ad_carry := ad_carry d2 @ inp2\<rparr>, length input) else (d2, length input - length inp2))"
    using f b by (simp add: aes_decrypt_input_def AES_BLOCK_def Let_def)
  have "aes_going D key iv len packed d' (c + n) u \<and> 0 < n \<and> n \<le> length input"
  proof (cases "blocks < ?w \<and> inp2 \<noteq> []")
    case True
    then have d': "d' = d2\<lparr>ad_carry := inp2\<rparr>" "n = length input" using eq e b2(4) by auto
    let ?m = "c + (length input - length inp2)"
    have m: "?m + length inp2 = c + length input" using b2(2) by simp
    have "take (length inp2) (drop ?m packed) = drop (length input - length inp2) (take (length input) (drop c packed))"
      using b2(2) by (simp add: drop_take add.commute)
    then have carry: "take (length inp2) (drop ?m packed) = inp2" using inp b2(5) by simp
    have cl: "c + length input \<le> length packed"
    proof -
      have "length (take (length input) (drop c packed)) = length input" using inp by simp
      then show ?thesis using ne goingD(1) [OF g] unfolding length_take length_drop by (cases input) auto
    qed
    have "aes_core (D key) iv packed d2 ?m" using goingD(5) [OF b2(1)] b2(4) True by simp
    then have "aes_core (D key) iv packed d' (c + length input - length inp2)" using b2(2) by (auto simp: d' aes_core_def)
    then show ?thesis using b2(1,3) True carry cl b2(2) d' ne m by (auto simp: aes_going_def aes_at_def)
  next
    case False
    then have d': "d' = d2" "n = length input - length inp2" using eq e by auto
    have "length inp2 \<noteq> length input"
    proof
      assume l: "length inp2 = length input"
      then have "blocks < ?w" "inp2 \<noteq> []" using b2(6) ne by auto
      then show False using False by simp
    qed
    then show ?thesis using b2(1,2) d' by auto
  qed
  then show "aes_going D key iv len packed d' (c + n) u" "0 < n" "n \<le> length input" by simp_all
qed

lemma aes_step:
  assumes ok: "aes_stream_ok (D key) iv len packed" and at: "aes_at D key iv len packed d c u"
    and inp: "take (length input) (drop c packed) = input" and hi: "input \<noteq> [] \<or> c = length packed" and cap: "0 < cap"
  shows "\<exists>d' r. aes_decompress D d input cap = (d', Inr r) \<and> bytes_consumed r \<le> length input \<and> bytes_produced r \<le> cap \<and>
    take (bytes_produced r) (drop u (aes_plaintext (D key) iv len packed)) = produced r \<and>
    aes_at D key iv len packed d' (c + bytes_consumed r) (u + bytes_produced r) \<and>
    (status r = StreamEnd \<longrightarrow> u + bytes_produced r = length (aes_plaintext (D key) iv len packed)) \<and>
    (bytes_consumed r = 0 \<and> bytes_produced r = 0 \<longrightarrow> status r = StreamEnd)"
proof -
  let ?P = "aes_plaintext (D key) iv len packed"
  obtain d1 out where e: "aes_emit d cap = (d1, out)" by (cases "aes_emit d cap") auto
  note em = emit_core [OF ok at e]
  have fin: "ad_finished d' \<Longrightarrow> aes_at D key iv len packed d' c' u' \<Longrightarrow> u' = length ?P" for d' c' u' by (simp add: aes_at_def)
  show ?thesis
  proof (cases "ad_finished d1")
    case True
    then have "aes_decompress D d input cap = (d1, Inr \<lparr>bytes_consumed = 0, produced = out, status = StreamEnd\<rparr>)"
      by (simp add: aes_decompress_def Let_def e)
    then show ?thesis using em(1-3) fin [OF True em(1)] by (auto simp: bytes_produced_def)
  next
    case nf: False
    have go: "aes_going D key iv len packed d1 c (u + length out)" using em(1) nf by (simp add: aes_going_def)
    show ?thesis
    proof (cases "input = []")
      case True
      then have c: "c = length packed" using hi by simp
      have cc: "aes_core (D key) iv packed d1 (c - length (ad_carry d1))" "length (ad_carry d1) < 16" "length (ad_carry d1) \<le> c"
        by (rule goingD [OF go])+
      have "16 dvd length packed" "16 dvd c - length (ad_carry d1)" using ok cc(1) by (auto simp: aes_stream_ok_def aes_core_def)
      then have "16 dvd c - (c - length (ad_carry d1))" using c dvd_diff_nat by metis
      moreover have "c - (c - length (ad_carry d1)) = length (ad_carry d1)" using cc(3) by simp
      ultimately have "16 dvd length (ad_carry d1)" by simp
      then have carry: "ad_carry d1 = []" using cc(2) by (auto dest: dvd_imp_le)
      show ?thesis
      proof (cases "ad_staged d1 = []")
        case st: True
        obtain o1 where o1: "cbc_decrypt (D key) iv packed = (ad_prev d1, o1)" "ad_produced d1 \<le> length o1" "drop (ad_produced d1) o1 = []"
          using cc(1) carry c st by (auto simp: aes_core_def)
        have all: "length o1 = length packed" using core_length(1) [OF ok _ _, of "length packed" "ad_prev d1" o1] o1(1) ok
          by (simp add: aes_stream_ok_def)
        have up: "u + length out = length packed" "ad_produced d1 = u + length out"
          using o1 all em(1) by (auto simp: aes_at_def)
        have rem: "\<not> (ad_len d1 \<noteq> None \<and> aes_remaining d1 > 0)"
        proof (cases len)
          case (Some l)
          then have "l \<le> length packed" "ad_len d1 = Some l" using ok em(1) by (auto simp: aes_stream_ok_def aes_at_def)
          then show ?thesis using up by (simp add: aes_remaining_def)
        qed (use em(1) in \<open>simp add: aes_at_def\<close>)
        have "len = None"
        proof (rule ccontr)
          assume "len \<noteq> None"
          then have "ad_len d1 \<noteq> None" using em(1) by (simp add: aes_at_def)
          then show False using rem em(5) [OF nf] by simp
        qed
        then have P: "length ?P = u + length out" using o1(1) all up by (simp add: aes_plaintext_def)
        have "aes_decompress D d input cap = (d1\<lparr>ad_finished := True\<rparr>,
            Inr \<lparr>bytes_consumed = 0, produced = out, status = StreamEnd\<rparr>)"
          using rem st carry nf True by (simp add: aes_decompress_def Let_def e)
        moreover have "aes_at D key iv len packed (d1\<lparr>ad_finished := True\<rparr>) c (u + length out)"
          using em(1) P st by (simp add: aes_at_def)
        ultimately show ?thesis using em(2,3) P by (auto simp: bytes_produced_def)
      next
        case st: False
        then have "out \<noteq> []" using em(4) [OF _ cap nf] e by (auto simp: aes_emit_def Let_def split: if_splits)
        moreover have "aes_decompress D d input cap = (d1, Inr \<lparr>bytes_consumed = 0, produced = out, status = Continue\<rparr>)"
          using st carry nf True by (simp add: aes_decompress_def Let_def e)
        ultimately show ?thesis using em(1-3) by (auto simp: bytes_produced_def)
      qed
    next
      case ne: False
      show ?thesis
      proof (cases "length out < cap \<and> ad_staged d1 = []")
        case True
        obtain d2 n where i: "aes_decrypt_input D d1 input (cap - length out) = (d2, n)"
          by (cases "aes_decrypt_input D d1 input (cap - length out)") auto
        note gi = going_input [OF ok go inp ne conjunct2 [OF True] i]
        obtain d3 out2 where e2: "aes_emit d2 (cap - length out) = (d3, out2)" by (cases "aes_emit d2 (cap - length out)") auto
        have at2: "aes_at D key iv len packed d2 (c + n) (u + length out)" using gi(1) by (simp add: aes_going_def)
        note em2 = emit_core [OF ok at2 e2]
        have "aes_decompress D d input cap = (d3, Inr \<lparr>bytes_consumed = n, produced = out @ out2,
            status = (if ad_finished d3 then StreamEnd else Continue)\<rparr>)"
          using True nf ne i e2 by (simp add: aes_decompress_def Let_def e)
        moreover have "take (length out + length out2) (drop u ?P) = out @ out2"
          using em(3) em2(3) by (simp only: take_add drop_drop add.commute [of "length out" u])
        moreover have "length out + length out2 \<le> cap" using em(2) em2(2) by simp
        ultimately show ?thesis using em2(1) gi(2,3) fin [OF _ em2(1)] by (auto simp: bytes_produced_def add.assoc)
      next
        case False
        have "out \<noteq> []"
        proof
          assume "out = []"
          then have "ad_staged d = []" using em(4) cap nf by simp
          then have "ad_staged d1 = []" using e by (auto simp: aes_emit_def Let_def split: if_splits)
          then show False using False \<open>out = []\<close> cap by simp
        qed
        moreover have "aes_decompress D d input cap = (d1, Inr \<lparr>bytes_consumed = 0, produced = out, status = Continue\<rparr>)"
          unfolding aes_decompress_def Let_def e prod.case if_not_P [OF False] using nf ne by simp
        ultimately show ?thesis using em(1-3) by (auto simp: bytes_produced_def)
      qed
    qed
  qed
qed

definition aes_fresh :: "bytes \<Rightarrow> bytes \<Rightarrow> nat option \<Rightarrow> aes_cbc_decryptor \<Rightarrow> bool" where
  "aes_fresh key iv len d \<longleftrightarrow> d = aes_new key iv len"

lemma aes_start: "aes_at D key iv len packed (aes_new key iv len) 0 0"
  by (simp add: aes_at_def aes_new_def aes_core_def cbc_decrypt.simps [of _ _ "[]"] AES_BLOCK_def)

lemma aes_decoder:
  assumes ok: "aes_stream_ok (D key) iv len packed"
  shows "decoder (aes_ops D) packed (aes_plaintext (D key) iv len packed) (aes_at D key iv len packed)
    (aes_good D key iv len packed) (aes_fresh key iv len)"
proof
  fix d c u
  assume at: "aes_at D key iv len packed d c u"
  obtain d' out where e: "aes_emit d 0 = (d', out)" by (cases "aes_emit d 0") auto
  from emit_core(2,3) [OF ok at e] have "out = []" by simp
  have "u \<le> length (aes_plaintext (D key) iv len packed)"
  proof (cases "ad_finished d")
    case False
    then obtain o1 where o: "16 dvd c - length (ad_carry d)" "c - length (ad_carry d) \<le> length packed"
      "cbc_decrypt (D key) iv (take (c - length (ad_carry d)) packed) = (ad_prev d, o1)" "u \<le> length o1" "\<forall>l. len = Some l \<longrightarrow> u \<le> l"
      using at by (auto simp: aes_at_def aes_core_def)
    then obtain rest where "snd (cbc_decrypt (D key) iv packed) = o1 @ rest" using core_length(3) [OF ok] by blast
    then show ?thesis using o(4,5) by (auto simp: aes_plaintext_def Let_def split: option.splits)
  qed (use at in \<open>simp add: aes_at_def\<close>)
  then show "c \<le> length packed \<and> u \<le> length (aes_plaintext (D key) iv len packed)" using at by (simp add: aes_at_def)
  show "\<exists>r. take_checkpoint (aes_ops D) d c u = Inr r \<and>
      (\<forall>cp. r = Some cp \<longrightarrow> aes_good D key iv len packed cp \<and> uncompressed_offset cp = u \<and> compressed_offset cp \<le> c)"
    using at by (auto simp: aes_ops_def aes_checkpoint_def aes_good_def)
next
  fix d c u input cap
  assume "aes_at D key iv len packed d c u" and "take (length input) (drop c packed) = input"
    and "input \<noteq> [] \<or> c = length packed" and "0 < (cap :: nat)"
  from aes_step [OF ok this]
  show "\<exists>d' r. decompress (aes_ops D) d input cap = (d', Inr r) \<and> bytes_consumed r \<le> length input \<and> bytes_produced r \<le> cap \<and>
    take (bytes_produced r) (drop u (aes_plaintext (D key) iv len packed)) = produced r \<and>
    aes_at D key iv len packed d' (c + bytes_consumed r) (u + bytes_produced r) \<and>
    (status r = StreamEnd \<longrightarrow> u + bytes_produced r = length (aes_plaintext (D key) iv len packed)) \<and>
    (bytes_consumed r = 0 \<and> bytes_produced r = 0 \<longrightarrow> status r = StreamEnd)"
    by (simp add: aes_ops_def)
next
  fix d cp
  assume f: "aes_fresh key iv len d" and g: "aes_good D key iv len packed cp"
  show "\<exists>d'. restore (aes_ops D) d cp = (d', Inr ()) \<and> aes_at D key iv len packed d' (compressed_offset cp) (uncompressed_offset cp)"
  proof (cases "cp = start_checkpoint")
    case True
    then have "restore (aes_ops D) d cp = (aes_new key iv len, Inr ())"
      using f by (simp add: aes_ops_def aes_restore_def start_checkpoint_def aes_fresh_def aes_new_def)
    then show ?thesis using aes_start True by (auto simp: start_checkpoint_def)
  next
    case False
    with g obtain d0 where d0: "aes_at D key iv len packed d0 (compressed_offset cp) (uncompressed_offset cp)"
      "state cp = CkAes \<lparr>ae_prev = ad_prev d0, ae_carry = ad_carry d0, ae_staged = ad_staged d0, ae_produced = ad_produced d0,
          ae_finished = ad_finished d0\<rparr>" by (auto simp: aes_good_def)
    have "restore (aes_ops D) d cp = (d0, Inr ())"
      using d0 f by (simp add: aes_ops_def aes_restore_def aes_fresh_def aes_new_def aes_at_def)
    then show ?thesis using d0(1) by blast
  qed
next
  show "aes_good D key iv len packed start_checkpoint" by (simp add: aes_good_def)
next
  fix d
  assume "aes_fresh key iv len d"
  then show "aes_at D key iv len packed d 0 0" using aes_start by (simp add: aes_fresh_def)
qed

end
