(* ===== verification/Chain.thy ===== *)
theory Chain
  imports Checkpoint
begin

text \<open>
  \<^verbatim>\<open>src/compress/chain.rs\<close>: a pipeline of decoding stages behaving as one decompressor. The stages
  have one type, with their operations in \<open>ops\<close>. If every stage keeps the \<open>decoder\<close> contract then so
  does the chain.
\<close>

section \<open>State\<close>

definition STAGE_BUF :: nat where
  "STAGE_BUF = 64 * 1024"

record 'd chain_decompressor =
  cd_stages :: "'d list"
  cd_bufs :: "bytes list"
  cd_read :: "nat list"
  cd_totals :: "(nat \<times> nat) list"
  cd_ended :: "bool list"

definition chain_new :: "'d list \<Rightarrow> 'd chain_decompressor result" where
  "chain_new stages =
     (let n = length stages in
      if n < 2 then Inl (InvalidState ''a chain needs at least two stages'')
      else Inr \<lparr>cd_stages = stages, cd_bufs = replicate (n - 1) [], cd_read = replicate (n - 1) 0,
                cd_totals = replicate n (0, 0), cd_ended = replicate n False\<rparr>)"

definition chain_finished :: "'d chain_decompressor \<Rightarrow> bool" where
  "chain_finished d = last (cd_ended d)"

section \<open>Decoding\<close>

text \<open>The bytes stage \<open>i\<close> has put out and stage \<open>i + 1\<close> has not consumed.\<close>

definition chain_pending :: "'d chain_decompressor \<Rightarrow> nat \<Rightarrow> bytes" where
  "chain_pending d i = drop (cd_read d ! i) (cd_bufs d ! i)"

text \<open>What every call of a stage ends with: its totals, and whether it has ended.\<close>

definition chain_count :: "'d chain_decompressor \<Rightarrow> nat \<Rightarrow> 'd \<Rightarrow> decompress_result \<Rightarrow> 'd chain_decompressor" where
  "chain_count d i s r =
     d\<lparr>cd_stages := (cd_stages d)[i := s],
       cd_totals := (cd_totals d)[i := (fst (cd_totals d ! i) + bytes_consumed r, snd (cd_totals d ! i) + bytes_produced r)],
       cd_ended := (if status r = StreamEnd then (cd_ended d)[i := True] else cd_ended d)\<rparr>"

definition made_progress :: "decompress_result \<Rightarrow> bool" where
  "made_progress r \<longleftrightarrow> bytes_consumed r > 0 \<or> bytes_produced r > 0"

text \<open>Stage 0 reads the caller's input; \<open>inp\<close> is \<^verbatim>\<open>input[in_pos..]\<close>.\<close>

definition chain_first ::
  "'d decompressor \<Rightarrow> bytes \<Rightarrow> 'd chain_decompressor \<Rightarrow> nat \<Rightarrow> 'd chain_decompressor \<times> (nat \<times> bool) result" where
  "chain_first ops input d in_pos =
     (if \<not> cd_ended d ! 0 \<and> length (cd_bufs d ! 0) < STAGE_BUF \<and> (drop in_pos input \<noteq> [] \<or> input = []) then
        (case decompress ops (cd_stages d ! 0) (drop in_pos input) (STAGE_BUF - length (cd_bufs d ! 0)) of
           (s, Inl e) \<Rightarrow> (d\<lparr>cd_stages := (cd_stages d)[0 := s]\<rparr>, Inl e)
         | (s, Inr r) \<Rightarrow>
             (chain_count (d\<lparr>cd_bufs := (cd_bufs d)[0 := cd_bufs d ! 0 @ produced r]\<rparr>) 0 s r,
              Inr (in_pos + bytes_consumed r, made_progress r)))
      else (d, Inr (in_pos, False)))"

text \<open>Stage \<open>i > 0\<close> has consumed \<open>n\<close> more bytes of the buffer before it.\<close>

definition chain_consume :: "'d chain_decompressor \<Rightarrow> nat \<Rightarrow> nat \<Rightarrow> 'd chain_decompressor" where
  "chain_consume d i n =
     (if cd_read d ! i + n = length (cd_bufs d ! i)
      then d\<lparr>cd_bufs := (cd_bufs d)[i := []], cd_read := (cd_read d)[i := 0]\<rparr>
      else d\<lparr>cd_read := (cd_read d)[i := cd_read d ! i + n]\<rparr>)"

definition chain_stage ::
  "'d decompressor \<Rightarrow> nat \<Rightarrow> nat \<Rightarrow> 'd chain_decompressor \<Rightarrow> bytes \<Rightarrow> 'd chain_decompressor \<times> (bytes \<times> bool) result" where
  "chain_stage ops cap i d out =
     (let src = chain_pending d (i - 1) in
      if cd_ended d ! i then (d, Inr (out, False))
      else if src = [] \<and> \<not> cd_ended d ! (i - 1) then (d, Inr (out, False))
      else if i = length (cd_stages d) - 1 then
        if length out = cap then (d, Inr (out, False))
        else (case decompress ops (cd_stages d ! i) src (cap - length out) of
                (s, Inl e) \<Rightarrow> (d\<lparr>cd_stages := (cd_stages d)[i := s]\<rparr>, Inl e)
              | (s, Inr r) \<Rightarrow>
                  (chain_count (chain_consume d (i - 1) (bytes_consumed r)) i s r,
                   Inr (out @ produced r, made_progress r)))
      else if length (cd_bufs d ! i) \<ge> STAGE_BUF then (d, Inr (out, False))
      else (case decompress ops (cd_stages d ! i) src (STAGE_BUF - length (cd_bufs d ! i)) of
              (s, Inl e) \<Rightarrow> (d\<lparr>cd_stages := (cd_stages d)[i := s]\<rparr>, Inl e)
            | (s, Inr r) \<Rightarrow>
                (chain_count (chain_consume (d\<lparr>cd_bufs := (cd_bufs d)[i := cd_bufs d ! i @ produced r]\<rparr>)
                   (i - 1) (bytes_consumed r)) i s r, Inr (out, made_progress r))))"

text \<open>\<^verbatim>\<open>for i in 1..n\<close>.\<close>

primrec chain_stages ::
  "'d decompressor \<Rightarrow> nat \<Rightarrow> nat list \<Rightarrow> 'd chain_decompressor \<Rightarrow> bytes \<Rightarrow> bool \<Rightarrow>
   'd chain_decompressor \<times> (bytes \<times> bool) result" where
  "chain_stages ops cap [] d out progress = (d, Inr (out, progress))"
| "chain_stages ops cap (i # is) d out progress =
     (case chain_stage ops cap i d out of
        (d, Inl e) \<Rightarrow> (d, Inl e)
      | (d, Inr p) \<Rightarrow> chain_stages ops cap is d (fst p) (progress \<or> snd p))"

text \<open>The \<^verbatim>\<open>while\<close> loop; \<open>None\<close> if it does not end.\<close>

partial_function (option) chain_loop ::
  "'d decompressor \<Rightarrow> bytes \<Rightarrow> nat \<Rightarrow> 'd chain_decompressor \<Rightarrow> nat \<Rightarrow> bytes \<Rightarrow>
   ('d chain_decompressor \<times> (nat \<times> bytes) result) option" where
  "chain_loop ops input cap d in_pos out =
     (if chain_finished d \<or> \<not> length out < cap then Some (d, Inr (in_pos, out))
      else case chain_first ops input d in_pos of
        (d, res) \<Rightarrow>
          (case res of
             Inl e \<Rightarrow> Some (d, Inl e)
           | Inr p \<Rightarrow>
               (case chain_stages ops cap [1..<length (cd_stages d)] d out (snd p) of
                  (d, res) \<Rightarrow>
                    (case res of
                       Inl e \<Rightarrow> Some (d, Inl e)
                     | Inr q \<Rightarrow>
                         if snd q then chain_loop ops input cap d (fst p) (fst q)
                         else Some (d, Inr (fst p, fst q))))))"

text \<open>A chain that would never return is given an error of its own; it does not occur.\<close>

definition chain_decompress ::
  "'d decompressor \<Rightarrow> 'd chain_decompressor \<Rightarrow> bytes \<Rightarrow> nat \<Rightarrow> 'd chain_decompressor \<times> decompress_result result" where
  "chain_decompress ops d input cap =
     (case chain_loop ops input cap d 0 [] of
        None \<Rightarrow> (d, Inl (InvalidState ''does not return''))
      | Some (d, Inl e) \<Rightarrow> (d, Inl e)
      | Some (d, Inr (in_pos, out)) \<Rightarrow>
          (d, Inr \<lparr>bytes_consumed = in_pos, produced = out,
                   status = (if chain_finished d then StreamEnd else Continue)\<rparr>))"

section \<open>Checkpoints\<close>

text \<open>The checkpoints of the stages from stage \<open>i\<close> on, if every one has an exact one.\<close>

fun stage_checkpoints ::
  "'d decompressor \<Rightarrow> nat \<Rightarrow> ('d \<times> nat \<times> nat) list \<Rightarrow> checkpoint list option result" where
  "stage_checkpoints ops i [] = Inr (Some [])"
| "stage_checkpoints ops i ((s, cin, cout) # rest) =
     and_then (take_checkpoint ops s cin cout) (\<lambda>r.
       case r of
         None \<Rightarrow> Inr None
       | Some cp \<Rightarrow>
           if i = 0 \<or> compressed_offset cp = cin
           then and_then (stage_checkpoints ops (Suc i) rest) (\<lambda>cps. Inr (map_option ((#) cp) cps))
           else Inr None)"

definition chain_checkpoint ::
  "'d decompressor \<Rightarrow> 'd chain_decompressor \<Rightarrow> nat \<Rightarrow> nat \<Rightarrow> checkpoint option result" where
  "chain_checkpoint ops d c u =
     and_then (stage_checkpoints ops 0 (zip (cd_stages d) (cd_totals d))) (\<lambda>cps.
       Inr (map_option (\<lambda>stages.
         Ck (compressed_offset (stages ! 0)) (bit_offset (stages ! 0)) u
           (CkChain stages (map (\<lambda>(b, r). drop r b) (zip (cd_bufs d) (cd_read d))) (cd_ended d))) cps))"

text \<open>\<^verbatim>\<open>for (stage, cp) in ..zip(..) { stage.restore(cp)?; }\<close>\<close>

fun restore_stages :: "'d decompressor \<Rightarrow> ('d \<times> checkpoint) list \<Rightarrow> 'd list \<times> unit result" where
  "restore_stages ops [] = ([], Inr ())"
| "restore_stages ops ((s, cp) # rest) =
     (case restore ops s cp of
        (s, Inl e) \<Rightarrow> (s # map fst rest, Inl e)
      | (s, Inr _) \<Rightarrow> (case restore_stages ops rest of (ss, r) \<Rightarrow> (s # ss, r)))"

definition chain_restore ::
  "'d decompressor \<Rightarrow> 'd chain_decompressor \<Rightarrow> checkpoint \<Rightarrow> 'd chain_decompressor \<times> unit result" where
  "chain_restore ops d cp =
     (let n = length (cd_stages d) in
      case state cp of
        CkChain cps pending ended \<Rightarrow>
          if length cps \<noteq> n \<or> length pending \<noteq> n - 1 \<or> length ended \<noteq> n
          then (d, Inl (CheckpointError ''chain checkpoint does not match the chain''))
          else (case restore_stages ops (zip (cd_stages d) cps) of
                  (ss, Inl e) \<Rightarrow> (d\<lparr>cd_stages := ss\<rparr>, Inl e)
                | (ss, Inr _) \<Rightarrow>
                    (d\<lparr>cd_stages := ss, cd_totals := map (\<lambda>cp. (compressed_offset cp, uncompressed_offset cp)) cps,
                       cd_bufs := pending, cd_read := replicate (n - 1) 0, cd_ended := ended\<rparr>, Inr ()))
      | CkNone \<Rightarrow>
          (case restore_stages ops (map (\<lambda>s. (s, cp)) (cd_stages d)) of
             (ss, Inl e) \<Rightarrow> (d\<lparr>cd_stages := ss\<rparr>, Inl e)
           | (ss, Inr _) \<Rightarrow>
               (d\<lparr>cd_stages := ss, cd_bufs := replicate (n - 1) [], cd_read := replicate (n - 1) 0,
                  cd_totals := replicate n (0, 0), cd_ended := replicate n False\<rparr>, Inr ()))
      | _ \<Rightarrow> (d, Inl (CheckpointError ''expected chain checkpoint state'')))"

definition chain_ops :: "'d decompressor \<Rightarrow> 'd chain_decompressor decompressor" where
  "chain_ops ops =
     \<lparr>decompress = chain_decompress ops, take_checkpoint = chain_checkpoint ops, restore = chain_restore ops\<rparr>"

end
