(* ===== verification/ChainCorrect.thy ===== *)
theory ChainCorrect
  imports Chain NoneDecompressor
begin

text \<open>
  A chain of stages that keep the \<open>decoder\<close> contract keeps it too: stage \<open>i\<close> decodes the stream
  \<open>W i\<close> into \<open>W (i + 1)\<close>, and the chain decodes \<open>W 0\<close> into \<open>W n\<close>.
\<close>

lemma take_further: "a \<le> b \<Longrightarrow> take (b + k - a) (drop a w) = take (b - a) (drop a w) @ take k (drop b w)"
  using take_add [of "b - a" k "drop a w"] by simp

locale pipeline =
  fixes ops :: "'d decompressor"
    and n :: nat
    and W :: "nat \<Rightarrow> bytes"
    and at :: "nat \<Rightarrow> 'd \<Rightarrow> nat \<Rightarrow> nat \<Rightarrow> bool"
    and good :: "nat \<Rightarrow> checkpoint \<Rightarrow> bool"
    and fresh :: "nat \<Rightarrow> 'd \<Rightarrow> bool"
  assumes two: "2 \<le> n"
    and stage: "i < n \<Longrightarrow> decoder ops (W i) (W (Suc i)) (at i) (good i) (fresh i)"
begin

abbreviation taken :: "'d chain_decompressor \<Rightarrow> nat \<Rightarrow> nat" where
  "taken d i \<equiv> fst (cd_totals d ! i)"

abbreviation given :: "'d chain_decompressor \<Rightarrow> nat \<Rightarrow> nat" where
  "given d i \<equiv> snd (cd_totals d ! i)"

text \<open>
  The invariant: every stage is where its totals say, the bytes between two stages are what the
  first has put out and the second has not consumed, and a stage that has ended has put out all.
\<close>

definition lens :: "'d chain_decompressor \<Rightarrow> bool" where
  "lens d \<longleftrightarrow> length (cd_stages d) = n \<and> length (cd_bufs d) = n - 1 \<and> length (cd_read d) = n - 1 \<and>
     length (cd_totals d) = n \<and> length (cd_ended d) = n"

definition stages_ok :: "'d chain_decompressor \<Rightarrow> bool" where
  "stages_ok d \<longleftrightarrow> (\<forall>i<n. at i (cd_stages d ! i) (taken d i) (given d i) \<and>
     (cd_ended d ! i \<longrightarrow> given d i = length (W (Suc i))))"

definition pending_ok :: "'d chain_decompressor \<Rightarrow> nat \<Rightarrow> bool" where
  "pending_ok d i \<longleftrightarrow> cd_read d ! i \<le> length (cd_bufs d ! i) \<and> taken d (Suc i) \<le> given d i \<and>
     chain_pending d i = take (given d i - taken d (Suc i)) (drop (taken d (Suc i)) (W (Suc i))) \<and>
     (chain_pending d i = [] \<longrightarrow> cd_bufs d ! i = [])"

definition chain_ok :: "'d chain_decompressor \<Rightarrow> bool" where
  "chain_ok d \<longleftrightarrow> lens d \<and> stages_ok d \<and> (\<forall>i<n - 1. pending_ok d i)"

definition chain_at :: "'d chain_decompressor \<Rightarrow> nat \<Rightarrow> nat \<Rightarrow> bool" where
  "chain_at d c u \<longleftrightarrow> chain_ok d \<and> c = taken d 0 \<and> u = given d (n - 1)"

definition work :: "'d chain_decompressor \<Rightarrow> nat" where
  "work d = (\<Sum>i<n. (length (W i) - taken d i) + (length (W (Suc i)) - given d i))"

lemma stage_bounds: "chain_ok d \<Longrightarrow> i < n \<Longrightarrow> taken d i \<le> length (W i) \<and> given d i \<le> length (W (Suc i))"
  using decoder.at_bound [OF stage] by (auto simp: chain_ok_def stages_ok_def)

lemma length_pending: "chain_ok d \<Longrightarrow> i < n - 1 \<Longrightarrow> length (chain_pending d i) = given d i - taken d (Suc i)"
  using stage_bounds [of d i] two by (fastforce simp: chain_ok_def pending_ok_def)

text \<open>Only the totals matter for the work left; a call of stage \<open>i\<close> takes away what it moved.\<close>

lemma work_call:
  assumes l: "lens d" "i < n" and b: "taken d i + a \<le> length (W i)" "given d i + b \<le> length (W (Suc i))"
    and t: "cd_totals d' = (cd_totals d)[i := (taken d i + a, given d i + b)]"
  shows "work d' + a + b = work d"
proof -
  let ?f = "\<lambda>d i. (length (W i) - taken d i) + (length (W (Suc i)) - given d i)"
  have "work d' = ?f d' i + (\<Sum>j\<in>{..<n} - {i}. ?f d' j)" "work d = ?f d i + (\<Sum>j\<in>{..<n} - {i}. ?f d j)"
    using l(2) by (simp_all add: work_def sum.remove)
  moreover have "(\<Sum>j\<in>{..<n} - {i}. ?f d' j) = (\<Sum>j\<in>{..<n} - {i}. ?f d j)"
    by (rule sum.cong) (simp_all add: t)
  moreover have "?f d' i + a + b = ?f d i" using l b by (simp add: t lens_def)
  ultimately show ?thesis by simp
qed

text \<open>
  A call of stage \<open>i\<close>: it consumes \<open>src\<close> in part, and its output goes to the buffer after it, unless
  it is the last.
\<close>

definition called :: "'d chain_decompressor \<Rightarrow> nat \<Rightarrow> 'd \<Rightarrow> decompress_result \<Rightarrow> 'd chain_decompressor" where
  "called d i s r =
     chain_count ((if i = 0 then (\<lambda>d. d) else (\<lambda>d. chain_consume d (i - 1) (bytes_consumed r)))
       (if i < n - 1 then d\<lparr>cd_bufs := (cd_bufs d)[i := cd_bufs d ! i @ produced r]\<rparr> else d)) i s r"

lemma called_views:
  assumes "lens d" "i < n"
  shows "lens (called d i s r)" "cd_totals (called d i s r) = (cd_totals d)[i := (taken d i + bytes_consumed r, given d i + bytes_produced r)]"
    "cd_stages (called d i s r) = (cd_stages d)[i := s]"
    "cd_ended (called d i s r) = (if status r = StreamEnd then (cd_ended d)[i := True] else cd_ended d)"
  using assms by (auto simp: called_def chain_count_def chain_consume_def lens_def)

lemma called_pending:
  assumes "lens d" "j < n - 1" "i < n"
  shows "cd_read d ! j \<le> length (cd_bufs d ! j) \<Longrightarrow> j = i \<Longrightarrow> chain_pending (called d i s r) j = chain_pending d j @ produced r \<and>
      cd_read (called d i s r) ! j \<le> length (cd_bufs (called d i s r) ! j) \<and> cd_bufs (called d i s r) ! j = cd_bufs d ! j @ produced r"
    "cd_read d ! j + bytes_consumed r \<le> length (cd_bufs d ! j) \<Longrightarrow> Suc j = i \<Longrightarrow>
      chain_pending (called d i s r) j = drop (bytes_consumed r) (chain_pending d j) \<and>
      cd_read (called d i s r) ! j \<le> length (cd_bufs (called d i s r) ! j) \<and>
      (chain_pending (called d i s r) j = [] \<longrightarrow> cd_bufs (called d i s r) ! j = [])"
    "j \<noteq> i \<Longrightarrow> Suc j \<noteq> i \<Longrightarrow> cd_bufs (called d i s r) ! j = cd_bufs d ! j \<and> cd_read (called d i s r) ! j = cd_read d ! j"
  using assms by (auto simp: called_def chain_count_def chain_consume_def lens_def chain_pending_def add.commute nth_list_update)

lemma call_ok:
  assumes ok: "chain_ok d" and i: "i < n"
    and src: "take (length src) (drop (taken d i) (W i)) = src"
    and hi: "src \<noteq> [] \<or> taken d i = length (W i)" and cap: "0 < cap"
    and before: "0 < i \<Longrightarrow> src = chain_pending d (i - 1)"
  obtains s r where "decompress ops (cd_stages d ! i) src cap = (s, Inr r)" "chain_ok (called d i s r)"
    "bytes_consumed r \<le> length src" "bytes_produced r \<le> cap" "produced r = take (bytes_produced r) (drop (given d i) (W (Suc i)))"
    "work (called d i s r) + bytes_consumed r + bytes_produced r = work d"
    "\<not> made_progress r \<Longrightarrow> status r = StreamEnd"
proof -
  have L: "lens d" using ok by (simp add: chain_ok_def)
  have at: "at i (cd_stages d ! i) (taken d i) (given d i)" using ok i by (simp add: chain_ok_def stages_ok_def)
  from decoder.step_facts [OF stage [OF i] at src hi cap] obtain s r where r:
    "decompress ops (cd_stages d ! i) src cap = (s, Inr r)" "bytes_consumed r \<le> length src" "bytes_produced r \<le> cap"
    "produced r = take (bytes_produced r) (drop (given d i) (W (Suc i)))"
    "at i s (taken d i + bytes_consumed r) (given d i + bytes_produced r)"
    "given d i + bytes_produced r \<le> length (W (Suc i))" "taken d i + bytes_consumed r \<le> length (W i)"
    "status r = StreamEnd \<Longrightarrow> given d i + bytes_produced r = length (W (Suc i))"
    "bytes_consumed r = 0 \<Longrightarrow> bytes_produced r = 0 \<Longrightarrow> status r = StreamEnd" by blast
  let ?d = "called d i s r"
  note cv = called_views [OF L i, of s r]
  have so: "stages_ok ?d"
    unfolding stages_ok_def
  proof (intro allI impI)
    fix j assume j: "j < n"
    have e: "cd_ended d ! i \<Longrightarrow> given d i = length (W (Suc i))" using ok i by (simp add: chain_ok_def stages_ok_def)
    show "at j (cd_stages ?d ! j) (taken ?d j) (given ?d j) \<and> (cd_ended ?d ! j \<longrightarrow> given ?d j = length (W (Suc j)))"
    proof (cases "j = i")
      case True
      have "cd_ended ?d ! j \<Longrightarrow> given d i + bytes_produced r = length (W (Suc i))"
        using cv(4) r(6,8) e True by (auto split: if_splits)
      then show ?thesis using True i L r(5) cv(2,3) by (simp add: lens_def)
    next
      case False
      then show ?thesis using ok j cv(2-4) by (auto simp: chain_ok_def stages_ok_def split: if_splits)
    qed
  qed
  have pend: "pending_ok ?d j" if j: "j < n - 1" for j
  proof -
    have p: "pending_ok d j" using ok j by (simp add: chain_ok_def)
    have tot: "taken ?d k = (if k = i then taken d i + bytes_consumed r else taken d k)"
      "given ?d k = (if k = i then given d i + bytes_produced r else given d k)" if "k < n" for k
      using cv(2) i L that by (simp_all add: lens_def)
    consider (after) "j = i" | (before) "Suc j = i" | (other) "j \<noteq> i" "Suc j \<noteq> i" by blast
    then show ?thesis
    proof cases
      case after
      note cp = called_pending(1) [OF L j i _ after, of s r]
      have "take (given d i + bytes_produced r - taken d (Suc i)) (drop (taken d (Suc i)) (W (Suc i)))
          = chain_pending d i @ produced r"
        using p after r(4) take_further [of "taken d (Suc i)" "given d i" "bytes_produced r" "W (Suc i)"]
        by (auto simp: pending_ok_def)
      moreover have "cd_bufs d ! i = []" if "chain_pending d i = []" using p after that by (simp add: pending_ok_def)
      ultimately show ?thesis using p after cp tot [of i] tot [of "Suc i"] i j by (auto simp: pending_ok_def)
    next
      case before
      have sp: "src = chain_pending d j" using assms(6) before by auto
      have le: "cd_read d ! j + bytes_consumed r \<le> length (cd_bufs d ! j)"
      proof -
        have "length src = length (cd_bufs d ! j) - cd_read d ! j" using sp by (simp add: chain_pending_def)
        then show ?thesis using r(2) p unfolding pending_ok_def by linarith
      qed
      note cp = called_pending(2) [OF L j i le before, of s]
      have "taken d i + bytes_consumed r \<le> given d j"
      proof -
        have "bytes_consumed r \<le> given d j - taken d i" using length_pending [OF ok j] r(2) sp before by simp
        moreover have "taken d i \<le> given d j" using p before by (simp add: pending_ok_def)
        ultimately show ?thesis by linarith
      qed
      then show ?thesis using p before cp tot [of i] tot [of j] i j
        by (auto simp: pending_ok_def drop_take add.commute)
    next
      case other
      note cp = called_pending(3) [OF L j i other, of s r]
      then have "chain_pending ?d j = chain_pending d j" by (simp add: chain_pending_def)
      moreover have "taken ?d (Suc j) = taken d (Suc j)" "given ?d j = given d j"
        using tot [of j] tot [of "Suc j"] j other by simp_all
      ultimately show ?thesis using p cp by (simp add: pending_ok_def)
    qed
  qed
  have "chain_ok ?d" using cv(1) so pend by (simp add: chain_ok_def)
  moreover have "work ?d + bytes_consumed r + bytes_produced r = work d" by (rule work_call [OF L i r(7,6) cv(2)])
  moreover have "\<not> made_progress r \<Longrightarrow> status r = StreamEnd" using r(9) by (simp add: made_progress_def)
  ultimately show thesis using that r(1-4) by blast
qed

text \<open>A call that moves no bytes leaves the buffers alone.\<close>

definition quiet :: "'d chain_decompressor \<Rightarrow> 'd chain_decompressor \<Rightarrow> bool" where
  "quiet d d' \<longleftrightarrow> (\<forall>j<n - 1. cd_bufs d' ! j = cd_bufs d ! j \<and> chain_pending d' j = chain_pending d j)"

lemma quiet_refl [simp]: "quiet d d"
  by (simp add: quiet_def)

lemma quiet_trans: "quiet d d' \<Longrightarrow> quiet d' d'' \<Longrightarrow> quiet d d''"
  by (simp add: quiet_def)

lemma quiet_called:
  assumes ok: "chain_ok d" and i: "i < n" and r: "\<not> made_progress r"
  shows "quiet d (called d i s r)"
  unfolding quiet_def
proof (intro allI impI)
  fix j assume j: "j < n - 1"
  have L: "lens d" and p: "pending_ok d j" using ok j by (simp_all add: chain_ok_def)
  have z: "bytes_consumed r = 0" "produced r = []" using r by (auto simp: made_progress_def bytes_produced_def)
  have le: "cd_read d ! j + bytes_consumed r \<le> length (cd_bufs d ! j)" using p z by (simp add: pending_ok_def)
  consider (after) "j = i" | (before) "Suc j = i" | (other) "j \<noteq> i" "Suc j \<noteq> i" by blast
  then show "cd_bufs (called d i s r) ! j = cd_bufs d ! j \<and> chain_pending (called d i s r) j = chain_pending d j"
  proof cases
    case after
    then show ?thesis using called_pending(1) [OF L j i _ after, of s r] p z by (simp add: pending_ok_def)
  next
    case before
    have ni: "j \<noteq> i" using before by simp
    have "cd_bufs (called d i s r) ! j = (if cd_read d ! j = length (cd_bufs d ! j) then [] else cd_bufs d ! j)"
      using L j i before ni z by (auto simp: called_def chain_count_def chain_consume_def lens_def nth_list_update)
    moreover have "cd_read d ! j = length (cd_bufs d ! j) \<Longrightarrow> cd_bufs d ! j = []"
      using p by (simp add: pending_ok_def chain_pending_def)
    ultimately show ?thesis using called_pending(2) [OF L j i le before, of s] z by auto
  next
    case other
    then show ?thesis using called_pending(3) [OF L j i other, of s r] by (simp add: chain_pending_def)
  qed
qed

text \<open>What one call, or none, does to the chain; \<open>x\<close> is what comes out at its end.\<close>

definition moved :: "'d chain_decompressor \<Rightarrow> 'd chain_decompressor \<Rightarrow> bytes \<Rightarrow> bool \<Rightarrow> bool" where
  "moved d d' x p \<longleftrightarrow> chain_ok d' \<and> given d' (n - 1) = given d (n - 1) + length x \<and>
     take (length x) (drop (given d (n - 1)) (W n)) = x \<and> work d' \<le> work d \<and> (p \<longrightarrow> work d' < work d) \<and>
     (\<not> p \<longrightarrow> quiet d d' \<and> x = []) \<and> (\<forall>j<n. cd_ended d ! j \<longrightarrow> cd_ended d' ! j)"

lemma moved_defI:
  "chain_ok d' \<Longrightarrow> given d' (n - 1) = given d (n - 1) + length x \<Longrightarrow> take (length x) (drop (given d (n - 1)) (W n)) = x \<Longrightarrow>
   work d' \<le> work d \<Longrightarrow> (p \<Longrightarrow> work d' < work d) \<Longrightarrow> (\<not> p \<Longrightarrow> quiet d d' \<and> x = []) \<Longrightarrow>
   \<forall>j<n. cd_ended d ! j \<longrightarrow> cd_ended d' ! j \<Longrightarrow> moved d d' x p"
  by (simp add: moved_def)

lemma moved_refl: "chain_ok d \<Longrightarrow> moved d d [] False"
  by (simp add: moved_def)

lemma moved_trans:
  assumes m: "moved d d1 x p" and m': "moved d1 d2 y q"
  shows "moved d d2 (x @ y) (p \<or> q)"
proof -
  have g: "given d1 (n - 1) = given d (n - 1) + length x" "given d2 (n - 1) = given d1 (n - 1) + length y"
    and o: "take (length x) (drop (given d (n - 1)) (W n)) = x" "take (length y) (drop (given d1 (n - 1)) (W n)) = y"
    and w: "work d1 \<le> work d" "p \<longrightarrow> work d1 < work d" "work d2 \<le> work d1" "q \<longrightarrow> work d2 < work d1"
    and z: "\<not> p \<longrightarrow> quiet d d1 \<and> x = []" "\<not> q \<longrightarrow> quiet d1 d2 \<and> y = []" "chain_ok d2"
    and e: "\<forall>j<n. cd_ended d ! j \<longrightarrow> cd_ended d1 ! j" "\<forall>j<n. cd_ended d1 ! j \<longrightarrow> cd_ended d2 ! j"
    using m m' by (simp_all add: moved_def)
  have "take (length x + length y) (drop (given d (n - 1)) (W n)) =
      take (length x) (drop (given d (n - 1)) (W n)) @ take (length y) (drop (given d1 (n - 1)) (W n))"
    unfolding g(1) by (simp add: take_add add.commute)
  with o have "take (length (x @ y)) (drop (given d (n - 1)) (W n)) = x @ y" by simp
  moreover have "work d2 \<le> work d \<and> (p \<or> q \<longrightarrow> work d2 < work d)" using w by linarith
  moreover have "\<not> (p \<or> q) \<longrightarrow> quiet d d2 \<and> x @ y = []" using z quiet_trans by blast
  ultimately show ?thesis using g z(3) e unfolding moved_def by simp
qed

lemma moved_called:
  assumes ok: "chain_ok d" and i: "i < n" and c: "chain_ok (called d i s r)"
    and pr: "produced r = take (bytes_produced r) (drop (given d i) (W (Suc i)))"
    and w: "work (called d i s r) + bytes_consumed r + bytes_produced r = work d"
  shows "moved d (called d i s r) (if i = n - 1 then produced r else []) (made_progress r)"
proof -
  have L: "lens d" using ok by (simp add: chain_ok_def)
  note cv = called_views [OF L i, of s r]
  have n: "Suc (n - 1) = n" "n - 1 < length (cd_totals d)" using two L by (auto simp: lens_def)
  show ?thesis
  proof (rule moved_defI)
    show "given (called d i s r) (n - 1) = given d (n - 1) + length (if i = n - 1 then produced r else [])"
      using cv(2) n(2) i L by (auto simp: bytes_produced_def nth_list_update lens_def)
    show "take (length (if i = n - 1 then produced r else [])) (drop (given d (n - 1)) (W n)) = (if i = n - 1 then produced r else [])"
    proof (cases "i = n - 1")
      case True
      have si: "Suc i = n" using True n(1) by metis
      have "take (length (produced r)) (drop (given d (n - 1)) (W n)) = produced r"
        unfolding True [symmetric] si [symmetric] using pr [symmetric] by (simp only: bytes_produced_def diff_Suc_1)
      then show ?thesis by (simp only: if_P [OF True])
    qed simp
    show "\<forall>j<n. cd_ended d ! j \<longrightarrow> cd_ended (called d i s r) ! j" unfolding cv(4) using L i
      by (simp add: nth_list_update lens_def)
    show "work (called d i s r) \<le> work d" using w by simp
    show "made_progress r \<Longrightarrow> work (called d i s r) < work d" using w by (auto simp: made_progress_def)
    show "quiet d (called d i s r) \<and> (if i = n - 1 then produced r else []) = []" if "\<not> made_progress r"
      using quiet_called [OF ok i that] that by (auto simp: made_progress_def bytes_produced_def)
  qed (rule c)
qed

text \<open>A stage that did nothing has ended, has no input, or has no room.\<close>

definition stuck :: "nat \<Rightarrow> bytes \<Rightarrow> 'd chain_decompressor \<Rightarrow> nat \<Rightarrow> bool" where
  "stuck cap out d i \<longleftrightarrow> cd_ended d ! i \<or> chain_pending d (i - 1) = [] \<and> \<not> cd_ended d ! (i - 1) \<or>
     (if i = n - 1 then length out = cap else STAGE_BUF \<le> length (cd_bufs d ! i))"

lemma chain_stage_ok:
  assumes ok: "chain_ok d" and i: "0 < i" "i < n" and out: "length out \<le> cap"
  obtains d' x p where "chain_stage ops cap i d out = (d', Inr (out @ x, p))" "moved d d' x p" "length (out @ x) \<le> cap"
    "taken d' 0 = taken d 0" "\<forall>j<n. j \<noteq> i \<longrightarrow> cd_ended d' ! j = cd_ended d ! j" "\<not> p \<Longrightarrow> stuck cap out d' i"
proof -
  have L: "lens d" using ok by (simp add: chain_ok_def)
  then have ns: "length (cd_stages d) = n" by (simp add: lens_def)
  let ?src = "chain_pending d (i - 1)"
  define room where "room = (if i = n - 1 then cap - length out else STAGE_BUF - length (cd_bufs d ! i))"
  show thesis
  proof (cases "cd_ended d ! i \<or> ?src = [] \<and> \<not> cd_ended d ! (i - 1) \<or> room = 0")
    case True
    then have "chain_stage ops cap i d out = (d, Inr (out, False))"
      using out ns i by (auto simp: chain_stage_def Let_def room_def)
    moreover have "stuck cap out d i" using True out by (auto simp: stuck_def room_def)
    ultimately show thesis using that [of d "[]" False] moved_refl [OF ok] out by simp
  next
    case False
    have i1: "i - 1 < n - 1" "Suc (i - 1) = i" "i - 1 < n" using i by auto
    have p: "pending_ok d (i - 1)" and so: "stages_ok d" using ok i1 by (simp_all add: chain_ok_def)
    have len: "length ?src = given d (i - 1) - taken d i" using length_pending [OF ok i1(1)] i1(2) by simp
    have src: "take (length ?src) (drop (taken d i) (W i)) = ?src"
      using p i1(2) len by (simp add: pending_ok_def)
    have hi: "?src \<noteq> [] \<or> taken d i = length (W i)"
    proof (cases "?src = []")
      case True
      then have "cd_ended d ! (i - 1)" using False by blast
      then have "given d (i - 1) = length (W i)" using so i1 by (auto simp: stages_ok_def)
      moreover have "given d (i - 1) \<le> taken d i" using len True by simp
      ultimately show ?thesis using stage_bounds [OF ok i(2)] by simp
    qed simp
    have cap: "0 < room" using False by simp
    from call_ok [OF ok i(2) src hi cap] obtain s r where r: "decompress ops (cd_stages d ! i) ?src room = (s, Inr r)"
      "chain_ok (called d i s r)" "bytes_consumed r \<le> length ?src" "bytes_produced r \<le> room"
      "produced r = take (bytes_produced r) (drop (given d i) (W (Suc i)))"
      "work (called d i s r) + bytes_consumed r + bytes_produced r = work d" "\<not> made_progress r \<Longrightarrow> status r = StreamEnd" by blast
    let ?x = "if i = n - 1 then produced r else []"
    have eq: "chain_stage ops cap i d out = (called d i s r, Inr (out @ ?x, made_progress r))"
      using False r(1) i ns out by (auto simp: chain_stage_def Let_def room_def called_def split: if_splits)
    note m = moved_called [OF ok i(2) r(2,5,6)]
    note cv = called_views [OF L i(2), of s r]
    have "length (out @ ?x) \<le> cap" using r(4) out by (auto simp: room_def bytes_produced_def split: if_splits)
    moreover have "taken (called d i s r) 0 = taken d 0" using cv(2) i by simp
    moreover have "\<forall>j<n. j \<noteq> i \<longrightarrow> cd_ended (called d i s r) ! j = cd_ended d ! j" using cv(4) by simp
    moreover have "stuck cap out (called d i s r) i" if "\<not> made_progress r"
      using cv(4) r(7) [OF that] L i(2) by (simp add: stuck_def lens_def)
    ultimately show thesis using that [OF eq m] by blast
  qed
qed

lemma chain_first_ok:
  assumes ok: "chain_ok d" and c: "taken d 0 = c + in_pos" "in_pos \<le> length input"
    and inp: "take (length input) (drop c (W 0)) = input" and hi: "input \<noteq> [] \<or> c = length (W 0)"
  obtains d' in_pos' p where "chain_first ops input d in_pos = (d', Inr (in_pos', p))" "moved d d' [] p"
    "taken d' 0 = c + in_pos'" "in_pos' \<le> length input" "\<not> p \<Longrightarrow> in_pos' = in_pos"
    "\<not> p \<Longrightarrow> cd_ended d' ! 0 \<or> STAGE_BUF \<le> length (cd_bufs d' ! 0) \<or> (drop in_pos input = [] \<and> input \<noteq> [])"
proof -
  have L: "lens d" and n0: "0 < n" "0 < n - 1" using ok two by (simp_all add: chain_ok_def)
  show thesis
  proof (cases "\<not> cd_ended d ! 0 \<and> length (cd_bufs d ! 0) < STAGE_BUF \<and> (drop in_pos input \<noteq> [] \<or> input = [])")
    case False
    then have "chain_first ops input d in_pos = (d, Inr (in_pos, False))" unfolding chain_first_def by (rule if_not_P)
    then show thesis using that [of d in_pos False] moved_refl [OF ok] c False by auto
  next
    case True
    have src: "take (length (drop in_pos input)) (drop (taken d 0) (W 0)) = drop in_pos input"
      using arg_cong [OF inp, of "drop in_pos"] c by (simp add: drop_take add.commute)
    have hi': "drop in_pos input \<noteq> [] \<or> taken d 0 = length (W 0)" using True hi c by auto
    have cap: "0 < STAGE_BUF - length (cd_bufs d ! 0)" using True by simp
    from call_ok [OF ok n0(1) src hi' cap] obtain s r where r:
      "decompress ops (cd_stages d ! 0) (drop in_pos input) (STAGE_BUF - length (cd_bufs d ! 0)) = (s, Inr r)"
      "chain_ok (called d 0 s r)" "bytes_consumed r \<le> length (drop in_pos input)"
      "produced r = take (bytes_produced r) (drop (given d 0) (W (Suc 0)))"
      "work (called d 0 s r) + bytes_consumed r + bytes_produced r = work d" "\<not> made_progress r \<Longrightarrow> status r = StreamEnd" by blast
    have eq: "chain_first ops input d in_pos = (called d 0 s r, Inr (in_pos + bytes_consumed r, made_progress r))"
      using True r(1) n0 by (simp add: chain_first_def called_def)
    have m: "moved d (called d 0 s r) [] (made_progress r)"
      using moved_called [OF ok n0(1) r(2,4,5)] n0 by simp
    note cv = called_views [OF L n0(1), of s r]
    have "taken (called d 0 s r) 0 = c + (in_pos + bytes_consumed r)" using cv(2) c L n0 by (simp add: lens_def)
    moreover have "in_pos + bytes_consumed r \<le> length input" using r(3) c(2) by simp
    moreover have "cd_ended (called d 0 s r) ! 0" if "\<not> made_progress r" using cv(4) r(6) [OF that] L n0 by (simp add: lens_def)
    moreover have "in_pos + bytes_consumed r = in_pos" if "\<not> made_progress r" using that by (simp add: made_progress_def)
    ultimately show thesis using that [OF eq m] by blast
  qed
qed

text \<open>The \<^verbatim>\<open>for\<close> loop from stage \<open>k\<close> on.\<close>

lemma moved_ok: "moved d d' x p \<Longrightarrow> chain_ok d'"
  by (simp add: moved_def)

lemma stuck_later:
  assumes "stuck cap out d i" and "quiet d d'" and "0 < i" "i < n" and "\<forall>j<n. cd_ended d ! j \<longrightarrow> cd_ended d' ! j"
    and "cd_ended d' ! (i - 1) = cd_ended d ! (i - 1)"
  shows "stuck cap out d' i"
  using assms by (auto simp: stuck_def quiet_def)

lemma chain_stages_ok:
  "chain_ok d \<Longrightarrow> 0 < k \<Longrightarrow> k \<le> n \<Longrightarrow> length out \<le> cap \<Longrightarrow>
   \<exists>d' x p. chain_stages ops cap [k..<n] d out p0 = (d', Inr (out @ x, p0 \<or> p)) \<and> moved d d' x p \<and> length (out @ x) \<le> cap \<and>
     taken d' 0 = taken d 0 \<and> (\<forall>j<k. cd_ended d' ! j = cd_ended d ! j) \<and> (\<not> p \<longrightarrow> (\<forall>i. k \<le> i \<and> i < n \<longrightarrow> stuck cap out d' i))"
proof (induction "n - k" arbitrary: k d out p0)
  case 0
  then have "[k..<n] = []" by simp
  then show ?case using 0 moved_refl [of d] by (intro exI [of _ d] exI [of _ "[]"] exI [of _ False]) auto
next
  case (Suc m)
  then have k: "k < n" and u: "[k..<n] = k # [Suc k..<n]" by (auto simp: upt_conv_Cons)
  from chain_stage_ok [OF Suc.prems(1,2) k Suc.prems(4)] obtain d1 x p where s: "chain_stage ops cap k d out = (d1, Inr (out @ x, p))"
    "moved d d1 x p" "length (out @ x) \<le> cap" "taken d1 0 = taken d 0" "\<forall>j<n. j \<noteq> k \<longrightarrow> cd_ended d1 ! j = cd_ended d ! j"
    "\<not> p \<Longrightarrow> stuck cap out d1 k" by blast
  have "m = n - Suc k" "Suc k \<le> n" using Suc.hyps(2) k by simp_all
  from Suc.hyps(1) [OF this(1) moved_ok [OF s(2)] _ this(2) s(3), of "p0 \<or> p"] obtain d2 y q where t:
    "chain_stages ops cap [Suc k..<n] d1 (out @ x) (p0 \<or> p) = (d2, Inr ((out @ x) @ y, (p0 \<or> p) \<or> q))" "moved d1 d2 y q"
    "length ((out @ x) @ y) \<le> cap" "taken d2 0 = taken d1 0" "\<forall>j<Suc k. cd_ended d2 ! j = cd_ended d1 ! j"
    "\<not> q \<longrightarrow> (\<forall>i. Suc k \<le> i \<and> i < n \<longrightarrow> stuck cap (out @ x) d2 i)" by auto
  have eq: "chain_stages ops cap [k..<n] d out p0 = (d2, Inr (out @ x @ y, p0 \<or> (p \<or> q)))"
    using u s(1) t(1) by (simp add: disj_assoc)
  have m: "moved d d2 (x @ y) (p \<or> q)" by (rule moved_trans [OF s(2) t(2)])
  have e: "\<forall>j<k. cd_ended d2 ! j = cd_ended d ! j" using s(5) t(5) k by simp
  have "stuck cap out d2 i" if pq: "\<not> (p \<or> q)" and i: "k \<le> i" "i < n" for i
  proof (cases "i = k")
    case True
    have "quiet d1 d2" "\<forall>j<n. cd_ended d1 ! j \<longrightarrow> cd_ended d2 ! j" using t(2) pq by (simp_all add: moved_def)
    moreover have "cd_ended d2 ! (k - 1) = cd_ended d1 ! (k - 1)" using t(5) by simp
    ultimately show ?thesis using stuck_later [OF s(6)] pq True Suc.prems(2) k by blast
  next
    case False
    have "x = []" using s(2) pq by (simp add: moved_def)
    then show ?thesis using t(6) pq i False by auto
  qed
  then show ?case using eq m e s(4) t(3,4) by (intro exI [of _ d2] exI [of _ "x @ y"] exI [of _ "p \<or> q"]) auto
qed

text \<open>A round in which nothing moved ends the loop only when the input is used up.\<close>

lemma no_deadlock:
  assumes ok: "chain_ok d" and st: "\<forall>i. 1 \<le> i \<and> i < n \<longrightarrow> stuck cap out d i" and room: "length out < cap"
    and nf: "\<not> chain_finished d" and j: "j < n"
  shows "\<not> cd_ended d ! (n - 1 - j) \<and> (0 < j \<longrightarrow> cd_bufs d ! (n - 1 - j) = [])"
  using j
proof (induction j)
  case 0
  have "cd_ended d \<noteq> []" "length (cd_ended d) = n" using ok two by (auto simp: chain_ok_def lens_def)
  then show ?case using nf by (simp add: chain_finished_def last_conv_nth)
next
  case (Suc j)
  let ?i = "n - 1 - j"
  have i: "1 \<le> ?i" "?i < n" "?i - 1 = n - 1 - Suc j" "n - 1 - Suc j < n - 1" using Suc.prems by auto
  have ih: "\<not> cd_ended d ! ?i" "0 < j \<longrightarrow> cd_bufs d ! ?i = []" using Suc by auto
  have "\<not> (if ?i = n - 1 then length out = cap else STAGE_BUF \<le> length (cd_bufs d ! ?i))"
    using ih(2) room Suc.prems by (auto simp: STAGE_BUF_def)
  then have "chain_pending d (n - 1 - Suc j) = [] \<and> \<not> cd_ended d ! (n - 1 - Suc j)"
    using st i ih(1) unfolding stuck_def by metis
  moreover have "pending_ok d (n - 1 - Suc j)" using ok i(4) by (simp add: chain_ok_def)
  ultimately show ?case by (simp add: pending_ok_def)
qed

lemma chain_loop_ok:
  assumes inp: "take (length input) (drop c (W 0)) = input" and hi: "input \<noteq> [] \<or> c = length (W 0)"
  shows "chain_ok d \<Longrightarrow> taken d 0 = c + in_pos \<Longrightarrow> in_pos \<le> length input \<Longrightarrow> length out \<le> cap \<Longrightarrow>
    \<exists>d' in_pos' x p. chain_loop ops input cap d in_pos out = Some (d', Inr (in_pos', out @ x)) \<and> moved d d' x p \<and>
      taken d' 0 = c + in_pos' \<and> in_pos' \<le> length input \<and> length (out @ x) \<le> cap \<and>
      (chain_finished d' \<or> length (out @ x) = cap \<or> in_pos' = length input \<and> input \<noteq> [])"
proof (induction "work d" arbitrary: d in_pos out rule: less_induct)
  case less
  show ?case
  proof (cases "chain_finished d \<or> \<not> length out < cap")
    case True
    then have "chain_loop ops input cap d in_pos out = Some (d, Inr (in_pos, out))" by (subst chain_loop.simps) simp
    then show ?thesis using True less.prems moved_refl [of d]
      by (intro exI [of _ d] exI [of _ in_pos] exI [of _ "[]"] exI [of _ False]) auto
  next
    case False
    from chain_first_ok [OF less.prems(1-3) inp hi] obtain d1 ip1 p1 where f: "chain_first ops input d in_pos = (d1, Inr (ip1, p1))"
      "moved d d1 [] p1" "taken d1 0 = c + ip1" "ip1 \<le> length input" "\<not> p1 \<Longrightarrow> ip1 = in_pos"
      "\<not> p1 \<Longrightarrow> cd_ended d1 ! 0 \<or> STAGE_BUF \<le> length (cd_bufs d1 ! 0) \<or> (drop in_pos input = [] \<and> input \<noteq> [])" by blast
    have n1: "0 < (1 :: nat)" "1 \<le> n" and ls: "length (cd_stages d1) = n"
      using two moved_ok [OF f(2)] by (simp_all add: chain_ok_def lens_def)
    from chain_stages_ok [OF moved_ok [OF f(2)] n1 less.prems(4), of p1] obtain d2 x p2 where t:
      "chain_stages ops cap [1..<n] d1 out p1 = (d2, Inr (out @ x, p1 \<or> p2))" "moved d1 d2 x p2" "length (out @ x) \<le> cap"
      "taken d2 0 = taken d1 0" "\<forall>j<1. cd_ended d2 ! j = cd_ended d1 ! j"
      "\<not> p2 \<longrightarrow> (\<forall>i. 1 \<le> i \<and> i < n \<longrightarrow> stuck cap out d2 i)" by blast
    have m: "moved d d2 x (p1 \<or> p2)" using moved_trans [OF f(2) t(2)] by simp
    have eq: "chain_loop ops input cap d in_pos out =
        (if p1 \<or> p2 then chain_loop ops input cap d2 ip1 (out @ x) else Some (d2, Inr (ip1, out @ x)))"
      using False f(1) t(1) ls by (subst chain_loop.simps) simp
    show ?thesis
    proof (cases "p1 \<or> p2")
      case True
      then have "work d2 < work d" using m by (simp add: moved_def)
      moreover have "taken d2 0 = c + ip1" using t(4) f(3) by simp
      ultimately obtain d3 ip3 y q where h: "chain_loop ops input cap d2 ip1 (out @ x) = Some (d3, Inr (ip3, (out @ x) @ y))"
        "moved d2 d3 y q" "taken d3 0 = c + ip3" "ip3 \<le> length input" "length ((out @ x) @ y) \<le> cap"
        "chain_finished d3 \<or> length ((out @ x) @ y) = cap \<or> ip3 = length input \<and> input \<noteq> []"
        using less.hyps [OF _ moved_ok [OF m] _ f(4) t(3)] by blast
      then show ?thesis using eq True moved_trans [OF m h(2)]
        by (intro exI [of _ d3] exI [of _ ip3] exI [of _ "x @ y"] exI [of _ "(p1 \<or> p2) \<or> q"]) auto
    next
      case quiet: False
      have x: "x = []" "quiet d1 d2" using t(2) quiet by (simp_all add: moved_def)
      have "chain_finished d2 \<or> ip1 = length input \<and> input \<noteq> []"
      proof (rule ccontr)
        assume h: "\<not> ?thesis"
        have st: "\<forall>i. 1 \<le> i \<and> i < n \<longrightarrow> stuck cap out d2 i" using t(6) quiet by blast
        have nl: "n - 1 < n" "0 < n - 1" using two by auto
        have "\<not> cd_ended d2 ! 0 \<and> cd_bufs d2 ! 0 = []"
          using no_deadlock [OF moved_ok [OF m] st _ _ nl(1)] False h nl(2) by simp
        moreover have "cd_bufs d2 ! 0 = cd_bufs d1 ! 0" using x(2) nl(2) by (simp add: quiet_def)
        ultimately have "drop in_pos input = [] \<and> input \<noteq> []" using f(6) quiet t(5) by (auto simp: STAGE_BUF_def)
        then show False using h f(4,5) quiet by auto
      qed
      then show ?thesis using eq quiet m t(3,4) f(3,4) x
        by (intro exI [of _ d2] exI [of _ ip1] exI [of _ "[]"] exI [of _ "p1 \<or> p2"]) auto
    qed
  qed
qed

lemma chain_step:
  assumes at: "chain_at d c u" and inp: "take (length input) (drop c (W 0)) = input" and hi: "input \<noteq> [] \<or> c = length (W 0)"
    and cap: "0 < cap"
  shows "\<exists>d' r. chain_decompress ops d input cap = (d', Inr r) \<and> bytes_consumed r \<le> length input \<and> bytes_produced r \<le> cap \<and>
    take (bytes_produced r) (drop u (W n)) = produced r \<and> chain_at d' (c + bytes_consumed r) (u + bytes_produced r) \<and>
    (status r = StreamEnd \<longrightarrow> u + bytes_produced r = length (W n)) \<and>
    (bytes_consumed r = 0 \<and> bytes_produced r = 0 \<longrightarrow> status r = StreamEnd)"
proof -
  have a: "chain_ok d" "taken d 0 = c + 0" "u = given d (n - 1)" using at by (simp_all add: chain_at_def)
  from chain_loop_ok [OF inp hi a(1,2), of "[]" cap] obtain d' ip x p where h:
    "chain_loop ops input cap d 0 [] = Some (d', Inr (ip, x))" "moved d d' x p" "taken d' 0 = c + ip" "ip \<le> length input"
    "length x \<le> cap" "chain_finished d' \<or> length x = cap \<or> ip = length input \<and> input \<noteq> []" by auto
  let ?r = "\<lparr>bytes_consumed = ip, produced = x, status = (if chain_finished d' then StreamEnd else Continue)\<rparr>"
  have eq: "chain_decompress ops d input cap = (d', Inr ?r)" using h(1) by (simp add: chain_decompress_def)
  have "u + length x = length (W n)" if "chain_finished d'"
  proof -
    have "length (cd_ended d') = n" "cd_ended d' \<noteq> []" "n - 1 < n"
      using moved_ok [OF h(2)] two by (auto simp: chain_ok_def lens_def)
    then have "cd_ended d' ! (n - 1)" "n - 1 < n" using that by (simp_all add: chain_finished_def last_conv_nth)
    then have "given d' (n - 1) = length (W (Suc (n - 1)))" using moved_ok [OF h(2)] by (auto simp: chain_ok_def stages_ok_def)
    then show ?thesis using h(2) a(3) two by (simp add: moved_def)
  qed
  moreover have "chain_finished d'" if "ip = 0" "x = []" using that h(6) cap by auto
  ultimately show ?thesis using eq h(2-5) a(3)
    by (intro exI [of _ d'] exI [of _ ?r]) (auto simp: bytes_produced_def moved_def chain_at_def)
qed

text \<open>Checkpoints of a chain lead back to where it was.\<close>

definition chain_good :: "checkpoint \<Rightarrow> bool" where
  "chain_good cp \<longleftrightarrow> cp = start_checkpoint \<or>
     (\<exists>cps pending ended. state cp = CkChain cps pending ended \<and> length cps = n \<and> length pending = n - 1 \<and> length ended = n \<and>
        compressed_offset cp = compressed_offset (cps ! 0) \<and> uncompressed_offset cp = uncompressed_offset (cps ! (n - 1)) \<and>
        (\<forall>i<n. good i (cps ! i) \<and> (ended ! i \<longrightarrow> uncompressed_offset (cps ! i) = length (W (Suc i)))) \<and>
        (\<forall>i<n - 1. compressed_offset (cps ! Suc i) \<le> uncompressed_offset (cps ! i) \<and>
           pending ! i = take (uncompressed_offset (cps ! i) - compressed_offset (cps ! Suc i))
             (drop (compressed_offset (cps ! Suc i)) (W (Suc i)))))"

definition chain_fresh :: "'d chain_decompressor \<Rightarrow> bool" where
  "chain_fresh d \<longleftrightarrow> (\<exists>stages. length stages = n \<and> (\<forall>i<n. fresh i (stages ! i)) \<and> chain_new stages = Inr d)"

lemma stage_checkpoints_ok:
  "length ss = length ts \<Longrightarrow> k + length ss = n \<Longrightarrow> (\<forall>i<length ss. at (k + i) (ss ! i) (fst (ts ! i)) (snd (ts ! i))) \<Longrightarrow>
   \<exists>r. stage_checkpoints ops k (zip ss ts) = Inr r \<and>
     (\<forall>cps. r = Some cps \<longrightarrow> length cps = length ss \<and> (\<forall>i<length ss. good (k + i) (cps ! i) \<and>
        uncompressed_offset (cps ! i) = snd (ts ! i) \<and> compressed_offset (cps ! i) \<le> fst (ts ! i) \<and>
        (0 < k + i \<longrightarrow> compressed_offset (cps ! i) = fst (ts ! i))))"
proof (induction ss ts arbitrary: k rule: list_induct2')
  case (4 s ss t ts)
  obtain cin cout where t: "t = (cin, cout)" by (cases t) auto
  have k: "k < n" using 4(3) by simp
  have "at k s cin cout" using 4(4) t by (metis add_0_right fst_conv length_greater_0_conv list.discI nth_Cons_0 snd_conv)
  from decoder.checkpoint_law [OF stage [OF k] this] obtain r where r: "take_checkpoint ops s cin cout = Inr r"
    "\<forall>cp. r = Some cp \<longrightarrow> good k cp \<and> uncompressed_offset cp = cout \<and> compressed_offset cp \<le> cin" by blast
  have "\<forall>i<length ss. at (Suc k + i) (ss ! i) (fst (ts ! i)) (snd (ts ! i))"
    using 4(4) by (auto dest: spec [of _ "Suc _"])
  with 4(1) [of "Suc k"] 4(2,3) have "\<exists>r. stage_checkpoints ops (Suc k) (zip ss ts) = Inr r \<and>
     (\<forall>cps. r = Some cps \<longrightarrow> length cps = length ss \<and> (\<forall>i<length ss. good (Suc k + i) (cps ! i) \<and>
        uncompressed_offset (cps ! i) = snd (ts ! i) \<and> compressed_offset (cps ! i) \<le> fst (ts ! i) \<and>
        (0 < Suc k + i \<longrightarrow> compressed_offset (cps ! i) = fst (ts ! i))))" by simp
  then obtain r' where r': "stage_checkpoints ops (Suc k) (zip ss ts) = Inr r'"
    "\<And>cps. r' = Some cps \<Longrightarrow> length cps = length ss \<and> (\<forall>i<length ss. good (Suc k + i) (cps ! i) \<and>
        uncompressed_offset (cps ! i) = snd (ts ! i) \<and> compressed_offset (cps ! i) = fst (ts ! i))" by auto
  show ?case
  proof (cases r)
    case None
    then show ?thesis using r(1) t by simp
  next
    case (Some cp)
    show ?thesis
    proof (cases "k = 0 \<or> compressed_offset cp = cin")
      case False
      then show ?thesis using r(1) t Some by simp
    next
      case True
      have "stage_checkpoints ops k (zip (s # ss) (t # ts)) = Inr (map_option ((#) cp) r')"
        using r(1) t Some True r'(1) by simp
      moreover have "good (k + i) ((cp # cps) ! i) \<and> uncompressed_offset ((cp # cps) ! i) = snd ((t # ts) ! i) \<and>
          compressed_offset ((cp # cps) ! i) \<le> fst ((t # ts) ! i) \<and>
          (0 < k + i \<longrightarrow> compressed_offset ((cp # cps) ! i) = fst ((t # ts) ! i))"
        if "r' = Some cps" "i < length (s # ss)" for cps i
        using r'(2) [OF that(1)] r(2) Some t True that(2) by (cases i) auto
      ultimately show ?thesis using r'(2) by (cases r') auto
    qed
  qed
qed simp_all

lemma restore_stages_ok:
  "length cps = length ss \<Longrightarrow> k + length ss = n \<Longrightarrow> (\<forall>i<length ss. fresh (k + i) (ss ! i) \<and> good (k + i) (cps ! i)) \<Longrightarrow>
   \<exists>ss'. restore_stages ops (zip ss cps) = (ss', Inr ()) \<and> length ss' = length ss \<and>
     (\<forall>i<length ss. at (k + i) (ss' ! i) (compressed_offset (cps ! i)) (uncompressed_offset (cps ! i)))"
proof (induction ss cps arbitrary: k rule: list_induct2')
  case (4 s ss cp cps)
  have k: "k < n" using 4(3) by simp
  have f: "fresh k s" "good k cp" using 4(4) by force+
  from decoder.restore_law [OF stage [OF k] f] obtain s' where s': "restore ops s cp = (s', Inr ())"
    "at k s' (compressed_offset cp) (uncompressed_offset cp)" by blast
  have "\<forall>i<length ss. fresh (Suc k + i) (ss ! i) \<and> good (Suc k + i) (cps ! i)"
    using 4(4) by (auto dest: spec [of _ "Suc _"])
  with 4(1) [of "Suc k"] 4(2,3) have "\<exists>ss'. restore_stages ops (zip ss cps) = (ss', Inr ()) \<and> length ss' = length ss \<and>
     (\<forall>i<length ss. at (Suc k + i) (ss' ! i) (compressed_offset (cps ! i)) (uncompressed_offset (cps ! i)))" by simp
  then obtain ss' where ss': "restore_stages ops (zip ss cps) = (ss', Inr ())" "length ss' = length ss"
     "\<forall>i<length ss. at (Suc k + i) (ss' ! i) (compressed_offset (cps ! i)) (uncompressed_offset (cps ! i))" by blast
  have "at (k + i) ((s' # ss') ! i) (compressed_offset ((cp # cps) ! i)) (uncompressed_offset ((cp # cps) ! i))"
    if "i < length (s # ss)" for i using s' ss' that by (cases i) auto
  then show ?case using s'(1) ss'(1,2) by (intro exI [of _ "s' # ss'"]) simp
qed simp_all

lemma chain_checkpoint_ok:
  assumes at: "chain_at d c u"
  shows "\<exists>r. chain_checkpoint ops d c u = Inr r \<and>
    (\<forall>cp. r = Some cp \<longrightarrow> chain_good cp \<and> uncompressed_offset cp = u \<and> compressed_offset cp \<le> c)"
proof -
  have ok: "chain_ok d" and c: "c = taken d 0" and u: "u = given d (n - 1)" using at by (simp_all add: chain_at_def)
  have l: "length (cd_stages d) = n" "length (cd_totals d) = n" "length (cd_bufs d) = n - 1" "length (cd_read d) = n - 1"
    "length (cd_ended d) = n" using ok by (simp_all add: chain_ok_def lens_def)
  have so: "\<forall>i<length (cd_stages d). at (0 + i) (cd_stages d ! i) (taken d i) (given d i)"
    using ok l by (simp add: chain_ok_def stages_ok_def)
  have zl: "length (cd_stages d) = length (cd_totals d)" "0 + length (cd_stages d) = n" using l by simp_all
  from stage_checkpoints_ok [OF zl so] obtain r where r: "stage_checkpoints ops 0 (zip (cd_stages d) (cd_totals d)) = Inr r"
    "\<And>cps. r = Some cps \<Longrightarrow> length cps = n \<and> (\<forall>i<n. good i (cps ! i) \<and> uncompressed_offset (cps ! i) = given d i \<and>
        compressed_offset (cps ! i) \<le> taken d i \<and> (0 < i \<longrightarrow> compressed_offset (cps ! i) = taken d i))" using l by auto
  let ?pending = "map (\<lambda>(b, r). drop r b) (zip (cd_bufs d) (cd_read d))"
  let ?cp = "\<lambda>stages. Ck (compressed_offset (stages ! 0)) (bit_offset (stages ! 0)) u (CkChain stages ?pending (cd_ended d))"
  have eq: "chain_checkpoint ops d c u = Inr (map_option ?cp r)" using r(1) by (simp add: chain_checkpoint_def)
  have "chain_good (?cp cps) \<and> compressed_offset (?cp cps) \<le> c" if cps: "r = Some cps" for cps
  proof -
    note rc = r(2) [OF cps]
    have n: "0 < n" "n - 1 < n" using two by auto
    have e: "cd_ended d ! i \<longrightarrow> uncompressed_offset (cps ! i) = length (W (Suc i))" if "i < n" for i
      using rc that ok by (auto simp: chain_ok_def stages_ok_def)
    have "pending_ok d i" if "i < n - 1" for i using ok that by (simp add: chain_ok_def)
    then have "compressed_offset (cps ! Suc i) \<le> uncompressed_offset (cps ! i) \<and>
        ?pending ! i = take (uncompressed_offset (cps ! i) - compressed_offset (cps ! Suc i))
          (drop (compressed_offset (cps ! Suc i)) (W (Suc i)))" if "i < n - 1" for i
      using rc that l by (auto simp: pending_ok_def chain_pending_def)
    then have "chain_good (?cp cps)" unfolding chain_good_def using rc n l e u
      by (intro disjI2 exI [of _ cps] exI [of _ ?pending] exI [of _ "cd_ended d"]) auto
    then show ?thesis using rc n c by simp
  qed
  then show ?thesis using eq by auto
qed

lemma fresh_chain:
  assumes "chain_fresh d"
  shows "length (cd_stages d) = n" "\<forall>i<n. fresh i (cd_stages d ! i)" "cd_bufs d = replicate (n - 1) []"
    "cd_read d = replicate (n - 1) 0" "cd_totals d = replicate n (0, 0)" "cd_ended d = replicate n False"
  using assms by (auto simp: chain_fresh_def chain_new_def Let_def split: if_splits)

lemma chain_start:
  assumes "length ss = n" and "\<forall>i<n. at i (ss ! i) 0 0"
  shows "chain_at (d\<lparr>cd_stages := ss, cd_bufs := replicate (n - 1) [], cd_read := replicate (n - 1) 0,
    cd_totals := replicate n (0, 0), cd_ended := replicate n False\<rparr>) 0 0"
  using assms two by (auto simp: chain_at_def chain_ok_def lens_def stages_ok_def pending_ok_def chain_pending_def)

lemma chain_restore_ok:
  assumes f: "chain_fresh d" and g: "chain_good cp"
  shows "\<exists>d'. chain_restore ops d cp = (d', Inr ()) \<and> chain_at d' (compressed_offset cp) (uncompressed_offset cp)"
proof (cases "cp = start_checkpoint")
  case True
  have gs: "good i start_checkpoint" if "i < n" for i using decoder.start_law [OF stage [OF that]] .
  have zl: "length (replicate n cp) = length (cd_stages d)" "0 + length (cd_stages d) = n"
    and fr: "\<forall>i<length (cd_stages d). fresh (0 + i) (cd_stages d ! i) \<and> good (0 + i) (replicate n cp ! i)"
    using fresh_chain [OF f] gs True by simp_all
  from restore_stages_ok [OF zl fr] obtain ss where ss: "restore_stages ops (zip (cd_stages d) (replicate n cp)) = (ss, Inr ())"
    "length ss = n" "\<forall>i<n. at i (ss ! i) 0 0" using fresh_chain(1) [OF f] True by (auto simp: start_checkpoint_def)
  have "map (\<lambda>s. (s, cp)) (cd_stages d) = zip (cd_stages d) (replicate n cp)"
    using fresh_chain(1) [OF f] by (simp add: zip_replicate2)
  then have "chain_restore ops d cp = (d\<lparr>cd_stages := ss, cd_bufs := replicate (n - 1) [], cd_read := replicate (n - 1) 0,
    cd_totals := replicate n (0, 0), cd_ended := replicate n False\<rparr>, Inr ())"
    using ss(1) fresh_chain(1) [OF f] True by (simp add: chain_restore_def Let_def start_checkpoint_def)
  moreover have "compressed_offset cp = 0" "uncompressed_offset cp = 0" using True by (simp_all add: start_checkpoint_def)
  ultimately show ?thesis using chain_start [OF ss(2,3), of d] by auto
next
  case False
  with g obtain cps pending ended where cp: "state cp = CkChain cps pending ended" "length cps = n" "length pending = n - 1"
    "length ended = n" "compressed_offset cp = compressed_offset (cps ! 0)" "uncompressed_offset cp = uncompressed_offset (cps ! (n - 1))"
    "\<forall>i<n. good i (cps ! i) \<and> (ended ! i \<longrightarrow> uncompressed_offset (cps ! i) = length (W (Suc i)))"
    "\<forall>i<n - 1. compressed_offset (cps ! Suc i) \<le> uncompressed_offset (cps ! i) \<and>
       pending ! i = take (uncompressed_offset (cps ! i) - compressed_offset (cps ! Suc i))
         (drop (compressed_offset (cps ! Suc i)) (W (Suc i)))" unfolding chain_good_def by blast
  have zl: "length cps = length (cd_stages d)" "0 + length (cd_stages d) = n"
    and fr: "\<forall>i<length (cd_stages d). fresh (0 + i) (cd_stages d ! i) \<and> good (0 + i) (cps ! i)"
    using fresh_chain [OF f] cp by simp_all
  from restore_stages_ok [OF zl fr] obtain ss where ss: "restore_stages ops (zip (cd_stages d) cps) = (ss, Inr ())"
    "length ss = n" "\<forall>i<n. at i (ss ! i) (compressed_offset (cps ! i)) (uncompressed_offset (cps ! i))"
    using fresh_chain(1) [OF f] by auto
  let ?d = "d\<lparr>cd_stages := ss, cd_totals := map (\<lambda>cp. (compressed_offset cp, uncompressed_offset cp)) cps,
      cd_bufs := pending, cd_read := replicate (n - 1) 0, cd_ended := ended\<rparr>"
  have eq: "chain_restore ops d cp = (?d, Inr ())"
    using ss(1) fresh_chain(1) [OF f] cp(1-4) by (simp add: chain_restore_def Let_def)
  have n: "0 < n" "n - 1 < n" using two by auto
  have "pending_ok ?d i" if "i < n - 1" for i
  proof -
    have "Suc i < n" "i < n" using that by auto
    then show ?thesis using that cp(2,8) by (auto simp: pending_ok_def chain_pending_def)
  qed
  then have "chain_ok ?d" using ss cp by (auto simp: chain_ok_def lens_def stages_ok_def)
  then have "chain_at ?d (compressed_offset cp) (uncompressed_offset cp)" using n cp(2,5,6) by (simp add: chain_at_def)
  with eq show ?thesis by blast
qed

theorem chain_decoder: "decoder (chain_ops ops) (W 0) (W n) chain_at chain_good chain_fresh"
proof
  fix d c u
  assume at: "chain_at d c u"
  then have ok: "chain_ok d" and cu: "c = taken d 0" "u = given d (n - 1)" by (simp_all add: chain_at_def)
  have "0 < n" "n - 1 < n" "Suc (n - 1) = n" using two by auto
  with stage_bounds [OF ok, of 0] stage_bounds [OF ok, of "n - 1"] cu show "c \<le> length (W 0) \<and> u \<le> length (W n)" by simp
  show "\<exists>r. take_checkpoint (chain_ops ops) d c u = Inr r \<and>
      (\<forall>cp. r = Some cp \<longrightarrow> chain_good cp \<and> uncompressed_offset cp = u \<and> compressed_offset cp \<le> c)"
    using chain_checkpoint_ok [OF at] by (simp add: chain_ops_def)
next
  fix d c u input cap
  assume "chain_at d c u" and "take (length input) (drop c (W 0)) = input" and "input \<noteq> [] \<or> c = length (W 0)" and "0 < (cap :: nat)"
  from chain_step [OF this]
  show "\<exists>d' r. decompress (chain_ops ops) d input cap = (d', Inr r) \<and> bytes_consumed r \<le> length input \<and>
      bytes_produced r \<le> cap \<and> take (bytes_produced r) (drop u (W n)) = produced r \<and>
      chain_at d' (c + bytes_consumed r) (u + bytes_produced r) \<and>
      (status r = StreamEnd \<longrightarrow> u + bytes_produced r = length (W n)) \<and>
      (bytes_consumed r = 0 \<and> bytes_produced r = 0 \<longrightarrow> status r = StreamEnd)"
    by (simp add: chain_ops_def)
next
  fix d cp
  assume "chain_fresh d" and "chain_good cp"
  from chain_restore_ok [OF this]
  show "\<exists>d'. restore (chain_ops ops) d cp = (d', Inr ()) \<and> chain_at d' (compressed_offset cp) (uncompressed_offset cp)"
    by (simp add: chain_ops_def)
next
  show "chain_good start_checkpoint" by (simp add: chain_good_def)
next
  fix d
  assume f: "chain_fresh d"
  have "\<forall>i<n. at i (cd_stages d ! i) 0 0" using fresh_chain(2) [OF f] decoder.fresh_law [OF stage] by blast
  from chain_start [OF fresh_chain(1) [OF f] this, of d] have
    "chain_at (d\<lparr>cd_stages := cd_stages d, cd_bufs := replicate (n - 1) [], cd_read := replicate (n - 1) 0,
      cd_totals := replicate n (0, 0), cd_ended := replicate n False\<rparr>) 0 0" .
  moreover have "d\<lparr>cd_stages := cd_stages d, cd_bufs := replicate (n - 1) [], cd_read := replicate (n - 1) 0,
      cd_totals := replicate n (0, 0), cd_ended := replicate n False\<rparr> = d"
    using fresh_chain(3-6) [OF f] by (cases d) simp
  ultimately show "chain_at d 0 0" by simp
qed

end

text \<open>Copies of copies of a stream.\<close>

interpretation copies: pipeline none_ops "Suc (Suc k)" "\<lambda>_. data" "\<lambda>_. none_at data" "\<lambda>_. none_good data" "\<lambda>_ d. d = none_new" for data k
  by unfold_locales (rule none.decoder_axioms | simp)+

end
