(* ===== verification/Stages.thy ===== *)
theory Stages
  imports FilterStage Bcj2 Aes ChainCorrect SyncStream
begin

text \<open>
  Building decompressors: \<^verbatim>\<open>CodecSpec::create\<close> and \<^verbatim>\<open>create_stage\<close> of \<^verbatim>\<open>src/compress/codec.rs\<close>. A boxed
  decompressor is a value of a sum of the decompressors; the formats that are not modelled (gzip,
  bzip2, LZMA, xz, zstd) are values of the type \<open>'x\<close>, with their operations and constructors in the
  environment, as are the block cipher and bincode.
\<close>

section \<open>Stages\<close>

datatype 'x stage =
    StCopy none_decompressor
  | StFilter filter_decompressor
  | StBcj2 bcj2_decompressor
  | StAes aes_cbc_decryptor
  | StOther 'x

text \<open>\<open>env_make\<close> is \<open>None\<close> where the feature of a format is not compiled in.\<close>

record 'x codec_env =
  env_ops :: "'x decompressor"
  env_make :: "codec \<Rightarrow> 'x result option"
  env_cipher :: "bytes \<Rightarrow> bytes \<Rightarrow> bytes"
  env_ser_filter :: "filter_state \<Rightarrow> bytes option"
  env_de_filter :: "bytes \<Rightarrow> filter_state option"
  env_ser_bcj2 :: "bcj2_state \<Rightarrow> bytes option"
  env_de_bcj2 :: "bytes \<Rightarrow> bcj2_state option"

text \<open>Calls through the trait object.\<close>

definition stage_decompress ::
  "'x codec_env \<Rightarrow> 'x stage \<Rightarrow> bytes \<Rightarrow> nat \<Rightarrow> 'x stage \<times> decompress_result result" where
  "stage_decompress env s input cap =
     (case s of
        StCopy d \<Rightarrow> apfst StCopy (decompress none_ops d input cap)
      | StFilter d \<Rightarrow> apfst StFilter (decompress (filter_ops (env_ser_filter env) (env_de_filter env)) d input cap)
      | StBcj2 d \<Rightarrow> apfst StBcj2 (decompress (bcj2_ops (env_ser_bcj2 env) (env_de_bcj2 env)) d input cap)
      | StAes d \<Rightarrow> apfst StAes (decompress (aes_ops (env_cipher env)) d input cap)
      | StOther d \<Rightarrow> apfst StOther (decompress (env_ops env) d input cap))"

definition stage_checkpoint :: "'x codec_env \<Rightarrow> 'x stage \<Rightarrow> nat \<Rightarrow> nat \<Rightarrow> checkpoint option result" where
  "stage_checkpoint env s c u =
     (case s of
        StCopy d \<Rightarrow> take_checkpoint none_ops d c u
      | StFilter d \<Rightarrow> take_checkpoint (filter_ops (env_ser_filter env) (env_de_filter env)) d c u
      | StBcj2 d \<Rightarrow> take_checkpoint (bcj2_ops (env_ser_bcj2 env) (env_de_bcj2 env)) d c u
      | StAes d \<Rightarrow> take_checkpoint (aes_ops (env_cipher env)) d c u
      | StOther d \<Rightarrow> take_checkpoint (env_ops env) d c u)"

definition stage_restore :: "'x codec_env \<Rightarrow> 'x stage \<Rightarrow> checkpoint \<Rightarrow> 'x stage \<times> unit result" where
  "stage_restore env s cp =
     (case s of
        StCopy d \<Rightarrow> apfst StCopy (restore none_ops d cp)
      | StFilter d \<Rightarrow> apfst StFilter (restore (filter_ops (env_ser_filter env) (env_de_filter env)) d cp)
      | StBcj2 d \<Rightarrow> apfst StBcj2 (restore (bcj2_ops (env_ser_bcj2 env) (env_de_bcj2 env)) d cp)
      | StAes d \<Rightarrow> apfst StAes (restore (aes_ops (env_cipher env)) d cp)
      | StOther d \<Rightarrow> apfst StOther (restore (env_ops env) d cp))"

definition stage_ops :: "'x codec_env \<Rightarrow> 'x stage decompressor" where
  "stage_ops env =
     \<lparr>decompress = stage_decompress env, take_checkpoint = stage_checkpoint env, restore = stage_restore env\<rparr>"

section \<open>Creation\<close>

definition create_stage :: "'x codec_env \<Rightarrow> codec \<Rightarrow> 'x stage result" where
  "create_stage env codec =
     (case codec of
        Copy \<Rightarrow> Inr (StCopy none_new)
      | Delta dist \<Rightarrow> and_then (filter_delta (dist + 1)) (\<lambda>d. Inr (StFilter d))
      | Bcj arch \<Rightarrow> Inr (StFilter (filter_bcj arch))
      | Bcj2 streams \<Rightarrow>
          and_then (ok_or streams (InvalidState ''BCJ2 stage without its side streams'')) (\<lambda>streams.
            and_then (bcj2_new streams) (\<lambda>d. Inr (StBcj2 d)))
      | AesCbc key iv len \<Rightarrow>
          and_then (ok_or key (InvalidState ''AES codec has no key; call CodecSpec::set_aes_key'')) (\<lambda>key.
            Inr (StAes (aes_new key iv len)))
      | _ \<Rightarrow>
          (case env_make env codec of
             None \<Rightarrow> Inl UnsupportedFormat
           | Some r \<Rightarrow> and_then r (\<lambda>d. Inr (StOther d))))"

text \<open>\<^verbatim>\<open>for codec in &self.0 { stages.push(create_stage(codec)?); }\<close>\<close>

primrec create_stages :: "'x codec_env \<Rightarrow> codec list \<Rightarrow> 'x stage list result" where
  "create_stages env [] = Inr []"
| "create_stages env (c # cs) =
     and_then (create_stage env c) (\<lambda>s. and_then (create_stages env cs) (\<lambda>ss. Inr (s # ss)))"

datatype 'x boxed =
    Single "'x stage"
  | Chained "'x stage chain_decompressor"

definition codec_create :: "'x codec_env \<Rightarrow> codec_spec \<Rightarrow> 'x boxed result" where
  "codec_create env spec =
     (if spec = [] then Inl UnsupportedFormat
      else and_then (create_stages env spec) (\<lambda>stages.
        if length stages = 1 then Inr (Single (last stages))
        else and_then (chain_new stages) (\<lambda>d. Inr (Chained d))))"

definition boxed_decompress ::
  "'x codec_env \<Rightarrow> 'x boxed \<Rightarrow> bytes \<Rightarrow> nat \<Rightarrow> 'x boxed \<times> decompress_result result" where
  "boxed_decompress env b input cap =
     (case b of
        Single d \<Rightarrow> apfst Single (decompress (stage_ops env) d input cap)
      | Chained d \<Rightarrow> apfst Chained (decompress (chain_ops (stage_ops env)) d input cap))"

definition boxed_checkpoint :: "'x codec_env \<Rightarrow> 'x boxed \<Rightarrow> nat \<Rightarrow> nat \<Rightarrow> checkpoint option result" where
  "boxed_checkpoint env b c u =
     (case b of
        Single d \<Rightarrow> take_checkpoint (stage_ops env) d c u
      | Chained d \<Rightarrow> take_checkpoint (chain_ops (stage_ops env)) d c u)"

definition boxed_restore :: "'x codec_env \<Rightarrow> 'x boxed \<Rightarrow> checkpoint \<Rightarrow> 'x boxed \<times> unit result" where
  "boxed_restore env b cp =
     (case b of
        Single d \<Rightarrow> apfst Single (restore (stage_ops env) d cp)
      | Chained d \<Rightarrow> apfst Chained (restore (chain_ops (stage_ops env)) d cp))"

definition boxed_ops :: "'x codec_env \<Rightarrow> 'x boxed decompressor" where
  "boxed_ops env =
     \<lparr>decompress = boxed_decompress env, take_checkpoint = boxed_checkpoint env, restore = boxed_restore env\<rparr>"

section \<open>The contract behind a trait object\<close>

text \<open>Operations that work on \<open>f d\<close> as \<open>ops\<close> does on \<open>d\<close> keep the same contract.\<close>

definition wraps :: "('d \<Rightarrow> 'e) \<Rightarrow> 'd decompressor \<Rightarrow> 'e decompressor \<Rightarrow> bool" where
  "wraps f ops ops' \<longleftrightarrow> (\<forall>d input cap. decompress ops' (f d) input cap = apfst f (decompress ops d input cap)) \<and>
     (\<forall>d c u. take_checkpoint ops' (f d) c u = take_checkpoint ops d c u) \<and>
     (\<forall>d cp. restore ops' (f d) cp = apfst f (restore ops d cp))"

definition at_wrapped :: "('d \<Rightarrow> 'e) \<Rightarrow> ('d \<Rightarrow> nat \<Rightarrow> nat \<Rightarrow> bool) \<Rightarrow> 'e \<Rightarrow> nat \<Rightarrow> nat \<Rightarrow> bool" where
  "at_wrapped f at e c u \<longleftrightarrow> (\<exists>d. e = f d \<and> at d c u)"

definition fresh_wrapped :: "('d \<Rightarrow> 'e) \<Rightarrow> ('d \<Rightarrow> bool) \<Rightarrow> 'e \<Rightarrow> bool" where
  "fresh_wrapped f fresh e \<longleftrightarrow> (\<exists>d. e = f d \<and> fresh d)"

lemma wrapped_decoder:
  assumes w: "wraps f ops ops'" and dec: "decoder ops packed unpacked at good fresh"
  shows "decoder ops' packed unpacked (at_wrapped f at) good (fresh_wrapped f fresh)"
proof
  fix e c u
  assume "at_wrapped f at e c u"
  then obtain d where d: "e = f d" "at d c u" by (auto simp: at_wrapped_def)
  show "c \<le> length packed \<and> u \<le> length unpacked" using decoder.at_bound [OF dec d(2)] .
  show "\<exists>r. take_checkpoint ops' e c u = Inr r \<and>
      (\<forall>cp. r = Some cp \<longrightarrow> good cp \<and> uncompressed_offset cp = u \<and> compressed_offset cp \<le> c)"
    using decoder.checkpoint_law [OF dec d(2)] w d(1) by (simp add: wraps_def)
next
  fix e c u input cap
  assume "at_wrapped f at e c u" and i: "take (length input) (drop c packed) = input"
    "input \<noteq> [] \<or> c = length packed" "0 < (cap :: nat)"
  then obtain d where d: "e = f d" "at d c u" by (auto simp: at_wrapped_def)
  from decoder.step_law [OF dec d(2) i] obtain d' r where
    r: "decompress ops d input cap = (d', Inr r)" "bytes_consumed r \<le> length input" "bytes_produced r \<le> cap"
      "take (bytes_produced r) (drop u unpacked) = produced r" "at d' (c + bytes_consumed r) (u + bytes_produced r)"
      "status r = StreamEnd \<longrightarrow> u + bytes_produced r = length unpacked"
      "bytes_consumed r = 0 \<and> bytes_produced r = 0 \<longrightarrow> status r = StreamEnd" by blast
  moreover have "decompress ops' e input cap = (f d', Inr r)" using w d(1) r(1) by (simp add: wraps_def)
  ultimately show "\<exists>d' r. decompress ops' e input cap = (d', Inr r) \<and> bytes_consumed r \<le> length input \<and> bytes_produced r \<le> cap \<and>
      take (bytes_produced r) (drop u unpacked) = produced r \<and>
      at_wrapped f at d' (c + bytes_consumed r) (u + bytes_produced r) \<and>
      (status r = StreamEnd \<longrightarrow> u + bytes_produced r = length unpacked) \<and>
      (bytes_consumed r = 0 \<and> bytes_produced r = 0 \<longrightarrow> status r = StreamEnd)" by (auto simp: at_wrapped_def)
next
  fix e cp
  assume "fresh_wrapped f fresh e" and g: "good cp"
  then obtain d where d: "e = f d" "fresh d" by (auto simp: fresh_wrapped_def)
  from decoder.restore_law [OF dec d(2) g] w d(1)
  show "\<exists>d'. restore ops' e cp = (d', Inr ()) \<and> at_wrapped f at d' (compressed_offset cp) (uncompressed_offset cp)"
    by (force simp: wraps_def at_wrapped_def)
next
  show "good start_checkpoint" by (rule decoder.start_law [OF dec])
next
  fix e
  assume "fresh_wrapped f fresh e"
  then show "at_wrapped f at e 0 0" using decoder.fresh_law [OF dec] by (auto simp: fresh_wrapped_def at_wrapped_def)
qed

lemma stage_wraps:
  "wraps StCopy none_ops (stage_ops env)"
  "wraps StFilter (filter_ops (env_ser_filter env) (env_de_filter env)) (stage_ops env)"
  "wraps StBcj2 (bcj2_ops (env_ser_bcj2 env) (env_de_bcj2 env)) (stage_ops env)"
  "wraps StAes (aes_ops (env_cipher env)) (stage_ops env)"
  "wraps StOther (env_ops env) (stage_ops env)"
  by (simp_all add: wraps_def stage_ops_def stage_decompress_def stage_checkpoint_def stage_restore_def)

lemma boxed_wraps:
  "wraps Single (stage_ops env) (boxed_ops env)"
  "wraps Chained (chain_ops (stage_ops env)) (boxed_ops env)"
  by (simp_all add: wraps_def boxed_ops_def boxed_decompress_def boxed_checkpoint_def boxed_restore_def)

section \<open>What a specification decodes to\<close>

text \<open>bincode reads back what it wrote.\<close>

definition bincode_ok :: "'x codec_env \<Rightarrow> bool" where
  "bincode_ok env \<longleftrightarrow> (\<forall>s. \<exists>x. env_ser_filter env s = Some x \<and> env_de_filter env x = Some s) \<and>
     (\<forall>s. \<exists>x. env_ser_bcj2 env s = Some x \<and> env_de_bcj2 env x = Some s)"

text \<open>
  One codec: the reference reading of copy, delta, the branch converters, BCJ2 and AES. Nothing is said of
  the compression formats (Deflate, bzip2, LZMA, LZMA2, xz, zstd), whose decoders are not covered by the
  contract here.
\<close>

definition codec_decodes :: "'x codec_env \<Rightarrow> codec \<Rightarrow> bytes \<Rightarrow> bytes \<Rightarrow> bool" where
  "codec_decodes env codec v w \<longleftrightarrow>
     (case codec of
        Copy \<Rightarrow> w = v
      | Delta dist \<Rightarrow> dist < 256 \<and> w = filter_output (FsDelta (dist + 1) (replicate 256 0) 0) v
      | Bcj arch \<Rightarrow> w = filter_output (FsBcj arch 0 (0 - 5)) v
      | Bcj2 streams \<Rightarrow> \<exists>s. streams = Some s \<and> bcj2_output s v = Some w
      | AesCbc key iv len \<Rightarrow> \<exists>k. key = Some k \<and> aes_stream_ok (env_cipher env k) iv len v \<and>
          w = aes_plaintext (env_cipher env k) iv len v
      | _ \<Rightarrow> False)"

text \<open>The codecs one after the other, through the streams between them.\<close>

primrec spec_decodes :: "'x codec_env \<Rightarrow> codec_spec \<Rightarrow> bytes \<Rightarrow> bytes \<Rightarrow> bool" where
  "spec_decodes env [] v w \<longleftrightarrow> w = v"
| "spec_decodes env (c # cs) v w \<longleftrightarrow> (\<exists>x. codec_decodes env c v x \<and> spec_decodes env cs x w)"

lemma stageI:
  assumes "create_stage env codec = Inr (f d)" and "decoder (stage_ops env) v w at good (fresh_wrapped f fresh)" and "fresh d"
  shows "\<exists>s at good fresh. create_stage env codec = Inr s \<and> decoder (stage_ops env) v w at good fresh \<and> fresh s"
proof -
  have "fresh_wrapped f fresh (f d)" using assms(3) by (auto simp: fresh_wrapped_def)
  then show ?thesis using assms(1,2) by (intro exI conjI)
qed

text \<open>Every stage is created and keeps the contract.\<close>

lemma stage_decoder:
  assumes bc: "bincode_ok env" and dec: "codec_decodes env codec v w"
  shows "\<exists>s at good fresh. create_stage env codec = Inr s \<and> decoder (stage_ops env) v w at good fresh \<and> fresh s"
proof -
  have bf: "\<forall>s. \<exists>x. env_ser_filter env s = Some x \<and> env_de_filter env x = Some s"
    and b2: "\<forall>s. \<exists>x. env_ser_bcj2 env s = Some x \<and> env_de_bcj2 env x = Some s" using bc by (simp_all add: bincode_ok_def)
  show ?thesis
  proof (cases codec)
    case Copy
    then have "decoder (stage_ops env) v w (at_wrapped StCopy (none_at v)) (none_good v) (fresh_wrapped StCopy (\<lambda>d. d = none_new))"
      using dec wrapped_decoder [OF stage_wraps(1) none.decoder_axioms] by (simp add: codec_decodes_def)
    from stageI [OF _ this, of codec none_new] Copy show ?thesis by (simp add: create_stage_def)
  next
    case (Delta dist)
    let ?st = "FsDelta (dist + 1) (replicate 256 0) 0"
    have d: "filter_delta (dist + 1) = Inr (filter_with_state ?st)" "w = filter_output ?st v"
      using dec Delta by (simp_all add: codec_decodes_def filter_delta_def DELTA_HISTORY_def)
    have "filter_reset_state ?st = ?st" by (simp add: filter_reset_state_def DELTA_HISTORY_def)
    from wrapped_decoder [OF stage_wraps(2) filter_decoder [OF bf this]]
    have "decoder (stage_ops env) v w (at_wrapped StFilter (filter_at ?st v)) (filter_good (env_de_filter env) ?st v)
      (fresh_wrapped StFilter (filter_fresh ?st))" unfolding d(2) .
    from stageI [OF _ this, of codec "filter_with_state ?st"] Delta d(1) show ?thesis by (simp add: create_stage_def filter_fresh_def)
  next
    case (Bcj arch)
    let ?st = "FsBcj arch 0 (0 - 5)"
    have d: "filter_bcj arch = filter_with_state ?st" "w = filter_output ?st v"
      using dec Bcj by (simp_all add: codec_decodes_def filter_bcj_def)
    have "filter_reset_state ?st = ?st" by (simp add: filter_reset_state_def)
    from wrapped_decoder [OF stage_wraps(2) filter_decoder [OF bf this]]
    have "decoder (stage_ops env) v w (at_wrapped StFilter (filter_at ?st v)) (filter_good (env_de_filter env) ?st v)
      (fresh_wrapped StFilter (filter_fresh ?st))" unfolding d(2) .
    from stageI [OF _ this, of codec "filter_with_state ?st"] Bcj d(1) show ?thesis by (simp add: create_stage_def filter_fresh_def)
  next
    case (Bcj2 streams)
    then obtain s where s: "streams = Some s" "bcj2_output s v = Some w" using dec by (auto simp: codec_decodes_def)
    then obtain st where st: "bcj2_initial s = Inr st" by (auto simp: bcj2_output_def split: sum.splits)
    from wrapped_decoder [OF stage_wraps(3) bcj2_decoder [OF b2 s(2)]]
    have "decoder (stage_ops env) v w (at_wrapped StBcj2 (bcj2_at s v)) (bcj2_good (env_de_bcj2 env) s v)
      (fresh_wrapped StBcj2 (bcj2_fresh s))" .
    from stageI [OF _ this, of codec] Bcj2 s(1) st show ?thesis by (auto simp: create_stage_def bcj2_fresh_def bcj2_new_def)
  next
    case (AesCbc key iv len)
    then obtain k where k: "key = Some k" "aes_stream_ok (env_cipher env k) iv len v" "w = aes_plaintext (env_cipher env k) iv len v"
      using dec by (auto simp: codec_decodes_def)
    have dk: "decoder (aes_ops (env_cipher env)) v (aes_plaintext (env_cipher env k) iv len v) (aes_at (env_cipher env) k iv len v)
      (aes_good (env_cipher env) k iv len v) (aes_fresh k iv len)"
      by (rule aes_decoder) (rule k(2))
    from wrapped_decoder [OF stage_wraps(4) dk]
    have "decoder (stage_ops env) v w (at_wrapped StAes (aes_at (env_cipher env) k iv len v)) (aes_good (env_cipher env) k iv len v)
      (fresh_wrapped StAes (aes_fresh k iv len))" unfolding k(3) .
    from stageI [OF _ this, of codec] AesCbc k(1) show ?thesis by (auto simp: create_stage_def aes_fresh_def)
  qed (use dec in \<open>simp_all add: codec_decodes_def\<close>)
qed

text \<open>The stages of a specification, with the streams \<open>W\<close> between them.\<close>

lemma stages_decoder:
  "bincode_ok env \<Longrightarrow> spec_decodes env spec v w \<Longrightarrow>
   \<exists>ss W at good fresh. create_stages env spec = Inr ss \<and> length ss = length spec \<and> W 0 = v \<and> W (length spec) = w \<and>
     (\<forall>i<length spec. decoder (stage_ops env) (W i) (W (Suc i)) (at i) (good i) (fresh i) \<and> fresh i (ss ! i))"
proof (induction spec arbitrary: v)
  case Nil
  then show ?case by (intro exI [of _ "[]"] exI [of _ "\<lambda>_. v"]) simp
next
  case (Cons c cs)
  then obtain x where x: "codec_decodes env c v x" "spec_decodes env cs x w" by auto
  from Cons.IH [OF Cons.prems(1) x(2)] obtain ss W at good fresh where
    r: "create_stages env cs = Inr ss" "length ss = length cs" "W 0 = x" "W (length cs) = w"
      "\<forall>i<length cs. decoder (stage_ops env) (W i) (W (Suc i)) (at i) (good i) (fresh i) \<and> fresh i (ss ! i)" by blast
  from stage_decoder [OF Cons.prems(1) x(1)] obtain s at0 good0 fresh0 where
    h: "create_stage env c = Inr s" "decoder (stage_ops env) v x at0 good0 fresh0" "fresh0 s" by blast
  let ?W = "case_nat v W" and ?at = "case_nat at0 at" and ?good = "case_nat good0 good" and ?fresh = "case_nat fresh0 fresh"
  have "decoder (stage_ops env) (?W i) (?W (Suc i)) (?at i) (?good i) (?fresh i) \<and> ?fresh i ((s # ss) ! i)"
    if "i < length (c # cs)" for i
    using that h(2,3) r(3,5) by (cases i) auto
  moreover have "create_stages env (c # cs) = Inr (s # ss)" using h(1) r(1) by simp
  ultimately show ?case using r(2,4)
    by (intro exI [of _ "s # ss"] exI [of _ ?W] exI [of _ ?at] exI [of _ ?good] exI [of _ ?fresh]) simp
qed

text \<open>The decompressor of a specification keeps the contract for what the specification decodes to.\<close>

lemma boxed_decoder:
  assumes bc: "bincode_ok env" and ne: "spec \<noteq> []" and dec: "spec_decodes env spec v w"
  shows "\<exists>b at good fresh. codec_create env spec = Inr b \<and> decoder (boxed_ops env) v w at good fresh \<and> fresh b"
proof -
  from stages_decoder [OF bc dec] obtain ss W at good fresh where
    r: "create_stages env spec = Inr ss" "length ss = length spec" "W 0 = v" "W (length spec) = w"
      "\<And>i. i < length spec \<Longrightarrow> decoder (stage_ops env) (W i) (W (Suc i)) (at i) (good i) (fresh i)"
      "\<And>i. i < length spec \<Longrightarrow> fresh i (ss ! i)" by blast
  show ?thesis
  proof (cases "length spec = 1")
    case True
    then have l: "last ss = ss ! 0" using r(2) by (cases ss) auto
    have "decoder (stage_ops env) v w (at 0) (good 0) (fresh 0)" using r(5) [of 0] r(3,4) True by simp
    note d = wrapped_decoder [OF boxed_wraps(1) this]
    have "fresh_wrapped Single (fresh 0) (Single (last ss))" using r(6) [of 0] True l by (auto simp: fresh_wrapped_def)
    moreover have "codec_create env spec = Inr (Single (last ss))" using ne True r(1,2) by (simp add: codec_create_def)
    ultimately show ?thesis using d by (intro exI conjI)
  next
    case False
    with ne have two: "2 \<le> length spec" by (cases spec) (auto simp: Suc_le_eq)
    have p: "pipeline (stage_ops env) (length spec) W at good fresh"
      by (rule pipeline.intro) (use two r(5) in auto)
    from two r(2) obtain d where d: "chain_new ss = Inr d" by (auto simp: chain_new_def Let_def)
    have "pipeline.chain_fresh (length spec) fresh d"
      unfolding pipeline.chain_fresh_def [OF p] using r(2,6) d by blast
    then have "fresh_wrapped Chained (pipeline.chain_fresh (length spec) fresh) (Chained d)" by (auto simp: fresh_wrapped_def)
    moreover have "codec_create env spec = Inr (Chained d)" using ne False r(1,2) d by (simp add: codec_create_def)
    moreover note wrapped_decoder [OF boxed_wraps(2) pipeline.chain_decoder [OF p]]
    ultimately show ?thesis unfolding r(3,4) by (intro exI conjI)
  qed
qed

section \<open>Streams of a specification\<close>

lemma spec_reads:
  assumes "bincode_ok env" and "spec \<noteq> []" and "spec_decodes env spec packed unpacked"
    and "reads_ok packed rd" and "reads_ok packed rd'" and "\<forall>n. 0 < caps n"
  shows "\<exists>idx. stream_build (boxed_ops env) (codec_create env) spec S strat on_progress p packed rd = Some (Inr idx) \<and>
    (\<forall>pos off len. stream_read_range (boxed_ops env) (codec_create env) idx packed rd' caps pos off len =
       Some (Inr (take len (drop off unpacked))))"
proof -
  from boxed_decoder [OF assms(1-3)] obtain b at good fresh where
    b: "codec_create env spec = Inr b" "decoder (boxed_ops env) packed unpacked at good fresh" "fresh b" by blast
  from decoder.stream_build_ok [where create = "codec_create env" and codec = spec and d = b and fresh = fresh,
      OF b(2) assms(4) b(1,3), of S strat on_progress p] obtain idx where
    i: "stream_build (boxed_ops env) (codec_create env) spec S strat on_progress p packed rd = Some (Inr idx)"
      "decoder.index_ok unpacked good idx" "si_codec idx = spec" by blast
  have "stream_read_range (boxed_ops env) (codec_create env) idx packed rd' caps pos off len = Some (Inr (take len (drop off unpacked)))"
    for pos off len
    using decoder.index_ok_reads [where create = "codec_create env" and caps = caps and fresh = fresh and d = b,
        OF b(2) i(2) assms(5,6)] b(1,3) i(3) by auto
  with i(1) show ?thesis by blast
qed

text \<open>C1: Whatever chain of copy, delta, branch converter (all eight architectures), BCJ2 and AES stages a
  stream went through, one pass over the packed bytes builds its index with the decompressor
  \<^verbatim>\<open>CodecSpec::create\<close> makes, whichever strategy and callback are used, and from then on every range of the
  unpacked stream is read exactly. Chains with a compression format in them are not covered.\<close>

theorem codec_stream_reads:
  assumes "bincode_ok env" and "spec \<noteq> []" and "spec_decodes env spec packed unpacked"
    and "reads_ok packed rd" and "reads_ok packed rd'" and "\<forall>n. 0 < caps n"
  shows "\<exists>idx. stream_build (boxed_ops env) (codec_create env) spec S strat on_progress p packed rd = Some (Inr idx) \<and>
    (\<forall>pos off len. stream_read_range (boxed_ops env) (codec_create env) idx packed rd' caps pos off len =
       Some (Inr (take len (drop off unpacked))))"
  by (rule spec_reads [OF assms])

text \<open>An instance of bincode: the numbers of a state in unary.\<close>

definition unary :: "nat list \<Rightarrow> bytes" where
  "unary ns = concat (map (\<lambda>n. replicate n 1 @ [0]) ns)"

fun from_unary :: "nat \<Rightarrow> bytes \<Rightarrow> nat list" where
  "from_unary n [] = []"
| "from_unary n (b # bs) = (if b = 0 then n # from_unary 0 bs else from_unary (Suc n) bs)"

lemma from_unary_replicate: "from_unary k (replicate n 1 @ bs) = from_unary (k + n) bs"
  by (induction n arbitrary: k) auto

lemma from_unary_unary: "from_unary 0 (unary ns) = ns"
  by (induction ns) (simp_all add: unary_def from_unary_replicate)

definition arch_nats :: "bcj_arch list" where
  "arch_nats = [X86, PowerPc, Ia64, Arm, ArmThumb, Sparc, Arm64, RiscV]"

fun arch_code :: "bcj_arch \<Rightarrow> nat" where
  "arch_code X86 = 0"
| "arch_code PowerPc = 1"
| "arch_code Ia64 = 2"
| "arch_code Arm = 3"
| "arch_code ArmThumb = 4"
| "arch_code Sparc = 5"
| "arch_code Arm64 = 6"
| "arch_code RiscV = 7"

fun unary_filter :: "filter_state \<Rightarrow> bytes option" where
  "unary_filter (FsBcj arch m p) = Some (unary [0, arch_code arch, unat m, unat p])"
| "unary_filter (FsDelta d h p) = Some (unary (1 # d # unat p # map unat h))"

fun nats_filter :: "nat list \<Rightarrow> filter_state option" where
  "nats_filter (k # a # b # ns) =
     (if k = 0 then Some (FsBcj (arch_nats ! a) (of_nat b) (of_nat (hd ns)))
      else Some (FsDelta a (map of_nat ns) (of_nat b)))"
| "nats_filter ns = None"

definition unary_bcj2 :: "bcj2_state \<Rightarrow> bytes option" where
  "unary_bcj2 s = Some (unary
     ([unat (bs_range s), unat (bs_code s), bs_rc_pos s, bs_call_pos s, bs_jump_pos s, unat (bs_ip s), unat (bs_prev s),
       of_bool (bs_finished s), length (bs_probs s)] @ map unat (bs_probs s) @ map unat (bs_pending s)))"

fun nats_bcj2 :: "nat list \<Rightarrow> bcj2_state option" where
  "nats_bcj2 (r # c # rp # cp # jp # ip # pv # f # n # ns) = Some
     \<lparr>bs_probs = map of_nat (take n ns), bs_range = of_nat r, bs_code = of_nat c, bs_rc_pos = rp, bs_call_pos = cp,
      bs_jump_pos = jp, bs_ip = of_nat ip, bs_prev = of_nat pv, bs_pending = map of_nat (drop n ns), bs_finished = (f = 1)\<rparr>"
| "nats_bcj2 ns = None"

definition unary_env :: "none_decompressor codec_env" where
  "unary_env =
     \<lparr>env_ops = none_ops, env_make = \<lambda>_. None, env_cipher = \<lambda>k b. b, env_ser_filter = unary_filter,
      env_de_filter = nats_filter \<circ> from_unary 0, env_ser_bcj2 = unary_bcj2, env_de_bcj2 = nats_bcj2 \<circ> from_unary 0\<rparr>"

lemma unary_filter_roundtrip: "\<exists>x. unary_filter s = Some x \<and> nats_filter (from_unary 0 x) = Some s"
proof (cases s)
  case (FsBcj arch m p)
  then show ?thesis by (cases arch) (simp_all add: from_unary_unary arch_nats_def)
next
  case (FsDelta d h p)
  then show ?thesis by (simp add: from_unary_unary comp_def)
qed

lemma unary_bcj2_roundtrip: "\<exists>x. unary_bcj2 s = Some x \<and> nats_bcj2 (from_unary 0 x) = Some s"
  by (cases s) (simp add: unary_bcj2_def from_unary_unary comp_def)

lemma unary_env_ok: "bincode_ok unary_env"
  using unary_filter_roundtrip unary_bcj2_roundtrip by (simp add: bincode_ok_def unary_env_def)

lemma unary_env_delta: "spec_decodes unary_env [Copy, Delta 0] [1, 1, 1] [1, 2, 3]"
proof -
  have "filter_output (FsDelta 1 (replicate 256 0) 0) [1, 1, 1] = [1, 2, 3]" by code_simp
  then show ?thesis by (simp add: codec_decodes_def)
qed

theorem codec_stream_reads_witness:
  "\<exists>idx. stream_build (boxed_ops unary_env) (codec_create unary_env) [Copy, Delta 0] fixed_interval_ops (fixed_interval_new 2)
      (\<lambda>n _. (n + 1, n < (2 :: nat))) 0 [1, 1, 1] (plain_rd [1, 1, 1]) = Some (Inr idx) \<and>
    stream_read_range (boxed_ops unary_env) (codec_create unary_env) idx [1, 1, 1] (plain_rd [1, 1, 1]) (\<lambda>_. 1) 0 1 2 = Some (Inr [2, 3])"
  using codec_stream_reads [where caps = "\<lambda>_. 1", OF unary_env_ok _ unary_env_delta plain_rd_ok plain_rd_ok,
      of fixed_interval_ops "fixed_interval_new 2" "\<lambda>n _. (n + 1, n < (2 :: nat))" 0] by auto

end
