(* ===== verification/Roundtrips.thy ===== *)
theory Roundtrips
  imports Stages
begin

text \<open>
  Encoders for the codecs the crate decodes, as its tests write them (\<^verbatim>\<open>src/compress/filter.rs\<close> and
  \<^verbatim>\<open>src/compress/aes.rs\<close>), and the round trip: a stream encoded with any chain of them reads back through
  the library as it was.
\<close>

section \<open>Delta\<close>

definition delta_encode :: "nat \<Rightarrow> bytes \<Rightarrow> bytes" where
  "delta_encode d xs = map (\<lambda>i. if d \<le> i then xs ! i - xs ! (i - d) else xs ! i) [0..<length xs]"

text \<open>
  After \<open>n\<close> bytes the history holds, from the slot after \<open>hist_pos\<close> on, the last bytes put out: the byte
  \<open>k\<close> places back is \<open>k\<close> slots ahead.
\<close>

definition history_of :: "bytes \<Rightarrow> bytes \<Rightarrow> byte \<Rightarrow> bool" where
  "history_of xs h p \<longleftrightarrow> length h = 256 \<and> (\<forall>k. 1 \<le> k \<and> k \<le> 256 \<longrightarrow>
     h ! ((k + unat p) mod 256) = (if k \<le> length xs then xs ! (length xs - k) else 0))"

lemma history_step:
  assumes "history_of xs h p"
  shows "history_of (xs @ [b]) (h[unat p := b]) (p - 1)"
  unfolding history_of_def
proof (intro conjI allI impI)
  show "length (h[unat p := b]) = 256" using assms by (simp add: history_of_def)
  fix k :: nat
  assume k: "1 \<le> k \<and> k \<le> 256"
  have up: "unat p < 256" using unsigned_less [of p] by simp
  have "(- 1 :: byte) = 255" by simp
  then have p1: "p - 1 = p + 255" by (metis diff_conv_add_uminus)
  have "unat (p - 1) = (unat p + 255) mod 256" unfolding p1 by (simp add: unat_word_ariths)
  moreover have "k + (unat p + 255) = (k - 1 + unat p) + 256" using k by simp
  ultimately have idx: "(k + unat (p - 1)) mod 256 = (k - 1 + unat p) mod 256"
    by (metis mod_add_right_eq mod_add_self2)
  show "h[unat p := b] ! ((k + unat (p - 1)) mod 256) =
      (if k \<le> length (xs @ [b]) then (xs @ [b]) ! (length (xs @ [b]) - k) else 0)"
  proof (cases "k = 1")
    case True
    then show ?thesis using idx up assms by (simp add: history_of_def)
  next
    case False
    have ne: "(k - 1 + unat p) mod 256 \<noteq> unat p"
    proof
      assume "(k - 1 + unat p) mod 256 = unat p"
      then show False using k False up by (simp add: mod_if split: if_splits)
    qed
    have "h ! ((k - 1 + unat p) mod 256) = (if k - 1 \<le> length xs then xs ! (length xs - (k - 1)) else 0)"
      using assms k False unfolding history_of_def
      by (elim conjE allE [of _ "k - 1"]) (auto dest!: spec [of _ "k - 1"])
    then show ?thesis using idx ne k False by (auto simp: nth_append)
  qed
qed

lemma delta_loop_decodes:
  assumes d: "1 \<le> d" "d \<le> 256"
  shows "history_of (take n xs) h p \<Longrightarrow> n \<le> length xs \<Longrightarrow>
   snd (delta_loop d h p (drop n (delta_encode d xs))) = drop n xs"
proof (induction "length xs - n" arbitrary: n h p)
  case 0
  then show ?case by (simp add: delta_encode_def)
next
  case (Suc m)
  then have n: "n < length xs" by simp
  let ?b = "delta_encode d xs ! n"
  have dr: "drop n (delta_encode d xs) = ?b # drop (Suc n) (delta_encode d xs)"
    by (rule Cons_nth_drop_Suc [symmetric]) (use n in \<open>simp add: delta_encode_def\<close>)
  have "h ! ((d + unat p) mod 256) = (if d \<le> n then xs ! (n - d) else 0)"
    using Suc.prems(1) d n by (auto simp: history_of_def min_def)
  then have b: "?b + h ! ((d + unat p) mod 256) = xs ! n" using n by (simp add: delta_encode_def)
  have "history_of (take (Suc n) xs) (h[unat p := xs ! n]) (p - 1)"
    using history_step [OF Suc.prems(1), of "xs ! n"] n by (simp add: take_Suc_conv_app_nth)
  from Suc.hyps(1) [OF _ this] Suc.hyps(2) n
  have "snd (delta_loop d (h[unat p := xs ! n]) (p - 1) (drop (Suc n) (delta_encode d xs))) = drop (Suc n) xs" by simp
  then show ?case using b n unfolding dr by (simp add: Let_def case_prod_beta Cons_nth_drop_Suc)
qed

lemma delta_decodes:
  assumes "dist < 256"
  shows "filter_output (FsDelta (dist + 1) (replicate 256 0) 0) (delta_encode (dist + 1) xs) = xs"
proof -
  have "history_of (take 0 xs) (replicate 256 0) 0" by (simp add: history_of_def)
  from delta_loop_decodes [OF _ _ this, of "dist + 1"] assms show ?thesis by (simp add: filter_output_def)
qed

section \<open>ARM\<close>

text \<open>The encoder: as the converter, with the address added.\<close>

definition arm_encode :: "u32 \<Rightarrow> bytes \<Rightarrow> bytes" where
  "arm_encode here buf =
     (if buf ! 3 = 0xEB then
        let src = push_bit 2 (push_bit 16 (u32 (buf ! 2)) OR push_bit 8 (u32 (buf ! 1)) OR u32 (buf ! 0));
            dest = drop_bit 2 (src + (here + 8))
        in [u8 dest, u8 (drop_bit 8 dest), u8 (drop_bit 16 dest), buf ! 3]
      else buf)"

text \<open>The three low bytes of a word, and the word of three bytes.\<close>

definition low24 :: "byte \<Rightarrow> byte \<Rightarrow> byte \<Rightarrow> u32" where
  "low24 c b a = push_bit 16 (u32 c) OR push_bit 8 (u32 b) OR u32 a"

lemma low24_bytes: "low24 (u8 (drop_bit 16 x)) (u8 (drop_bit 8 x)) (u8 x) = take_bit 24 x"
proof (rule bit_word_eqI)
  fix n assume "n < LENGTH(32)"
  then show "bit (low24 (u8 (drop_bit 16 x)) (u8 (drop_bit 8 x)) (u8 x)) n = bit (take_bit 24 x) n"
    by (cases "n < 8"; cases "n < 16") (auto simp: low24_def bit_simps)
qed

lemma bytes_low24:
  "u8 (low24 c b a) = a" "u8 (drop_bit 8 (low24 c b a)) = b" "u8 (drop_bit 16 (low24 c b a)) = c"
  "take_bit 24 (low24 c b a) = low24 c b a"
  by (rule bit_word_eqI; auto simp: low24_def bit_simps dest: bit_imp_le_length)+

lemma bytes_take24:
  "u8 (take_bit 24 (x :: u32)) = u8 x" "u8 (drop_bit 8 (take_bit 24 (x :: u32))) = u8 (drop_bit 8 x)"
  "u8 (drop_bit 16 (take_bit 24 (x :: u32))) = u8 (drop_bit 16 x)"
  by (rule bit_word_eqI; auto simp: bit_simps)+

lemma aligned_four:
  assumes "take_bit 2 (p :: u32) = 0"
  obtains q where "p = push_bit 2 q"
proof -
  have "push_bit 2 (drop_bit 2 p) + take_bit 2 p = p" by (rule bits_ident)
  then show thesis using that [of "drop_bit 2 p"] assms by simp
qed

lemma drop_push2: "drop_bit 2 (push_bit 2 x + push_bit 2 y) = take_bit 30 (x + y :: u32)"
  "drop_bit 2 (push_bit 2 x - push_bit 2 y) = take_bit 30 (x - y :: u32)"
proof -
  have *: "drop_bit 2 (push_bit 2 z) = take_bit 30 (z :: u32)" for z
    by (rule bit_word_eqI) (auto simp: bit_simps)
  show "drop_bit 2 (push_bit 2 x + push_bit 2 y) = take_bit 30 (x + y)"
    using * [of "x + y"] by (simp add: push_bit_eq_mult distrib_right)
  show "drop_bit 2 (push_bit 2 x - push_bit 2 y) = take_bit 30 (x - y)"
    using * [of "x - y"] by (simp add: push_bit_eq_mult left_diff_distrib)
qed

lemma arm_list:
  "arm_encode here [a, b, c, 0xEB] =
     (let e = drop_bit 2 (push_bit 2 (low24 c b a) + (here + 8)) in [u8 e, u8 (drop_bit 8 e), u8 (drop_bit 16 e), 0xEB])"
  "arm_quad here [a, b, c, 0xEB] =
     (let e = drop_bit 2 (push_bit 2 (low24 c b a) - (here + 8)) in [u8 e, u8 (drop_bit 8 e), u8 (drop_bit 16 e), 0xEB])"
  by (simp_all add: arm_encode_def arm_quad_def low24_def Let_def)

lemma arm_inverse:
  assumes "length w = 4" and "take_bit 2 here = 0"
  shows "arm_quad here (arm_encode here w) = w"
proof (cases "w ! 3 = 0xEB")
  case True
  from assms(1) True obtain a b c where w: "w = [a, b, c, 0xEB]" by (auto simp: eval_nat_numeral length_Suc_conv)
  have "take_bit 2 (here + 8) = 0" using take_bit_word_add [of 2 here 8] assms(2) by simp
  then obtain q where q: "here + 8 = push_bit 2 q" by (rule aligned_four)
  let ?s = "low24 c b a"
  let ?e = "take_bit 30 (?s + q)"
  have e: "arm_encode here w = [u8 ?e, u8 (drop_bit 8 ?e), u8 (drop_bit 16 ?e), 0xEB]"
    unfolding w arm_list q drop_push2 by (simp only: Let_def)
  let ?x = "take_bit 24 (?s + q)" and ?y = "take_bit 30 (take_bit 24 (?s + q) - q)"
  have l: "low24 (u8 (drop_bit 16 ?e)) (u8 (drop_bit 8 ?e)) (u8 ?e) = ?x"
    using low24_bytes [of ?e] by (simp add: take_bit_take_bit)
  have d: "arm_quad here (arm_encode here w) = [u8 ?y, u8 (drop_bit 8 ?y), u8 (drop_bit 16 ?y), 0xEB]"
    unfolding e arm_list q l drop_push2 by (simp only: Let_def)
  have "take_bit 24 ?y = take_bit 24 (?x - q)" by (simp add: take_bit_take_bit)
  also have "\<dots> = take_bit 24 (?s + q - q)" using take_bit_word_diff [of 24 ?x q] take_bit_word_diff [of 24 "?s + q" q]
    by (simp add: take_bit_take_bit)
  also have "\<dots> = ?s" by (simp add: bytes_low24)
  finally have y: "take_bit 24 ?y = ?s" .
  have "u8 ?y = a" "u8 (drop_bit 8 ?y) = b" "u8 (drop_bit 16 ?y) = c"
    using bytes_take24 [of ?y] unfolding y by (simp_all only: bytes_low24)
  then show ?thesis using d unfolding w by (simp only:)
qed (simp add: arm_encode_def arm_quad_def)

text \<open>Four bytes at a time over the whole stream.\<close>

definition arm_encode_all :: "bytes \<Rightarrow> bytes" where
  "arm_encode_all xs = (case convert_loop 4 (\<lambda>here s w. (s, arm_encode here w)) 0 () xs of (_, out, t) \<Rightarrow> out @ t)"

lemma length_arm_quads:
  "length w = 4 \<Longrightarrow> length (arm_encode here w) = 4" "length w = 4 \<Longrightarrow> length (arm_quad here w) = 4"
  by (simp_all add: arm_encode_def arm_quad_def Let_def)

lemma arm_loops:
  "take_bit 2 here = 0 \<Longrightarrow> convert_loop 4 (\<lambda>here s w. (s, arm_encode here w)) here s xs = (s1, out, t) \<Longrightarrow>
   \<exists>o2 t2. convert_loop 4 (\<lambda>here s w. (s, arm_quad here w)) here m (out @ t) = (m, o2, t2) \<and> o2 @ t2 = xs"
proof (induction "length xs" arbitrary: here xs out rule: less_induct)
  case less
  show ?case
  proof (cases "length xs < 4")
    case True
    then have "out = []" "t = xs" using less.prems(2) by (simp_all add: convert_loop.simps [of 4 _ here s xs])
    then show ?thesis by (simp add: arm.short [OF True, of _ m])
  next
    case False
    let ?w = "take 4 xs" and ?f = "\<lambda>here s w. (s, arm_encode here w)"
    let ?e = "arm_encode here ?w"
    have lw: "length ?w = 4" and lt: "length (drop 4 xs) < length xs" using False by auto
    have le: "length ?e = 4" by (rule length_arm_quads(1) [OF lw])
    obtain s2 o2 t2 where r: "convert_loop 4 ?f (here + 4) s (drop 4 xs) = (s2, o2, t2)" by (metis surj_pair)
    have "convert_loop 4 ?f here s xs = (s2, ?e @ o2, t2)"
      using False le r by (subst convert_loop.simps) (auto simp: Let_def)
    then have o: "out = ?e @ o2" "t = t2" "s1 = s2" using less.prems(2) by auto
    have al: "take_bit 2 (here + 4) = 0" using take_bit_word_add [of 2 here 4] less.prems(1) by simp
    from less.hyps [OF lt al] r o(2,3) obtain o3 t3 where
      ih: "convert_loop 4 (\<lambda>here s w. (s, arm_quad here w)) (here + 4) m (o2 @ t) = (m, o3, t3)" "o3 @ t3 = drop 4 xs" by blast
    have "arm_quad here ?e = ?w" by (rule arm_inverse [OF lw less.prems(1)])
    moreover have "take 4 (out @ t) = ?e" "drop 4 (out @ t) = o2 @ t" "\<not> length (out @ t) < 4" using o le by simp_all
    ultimately have "convert_loop 4 (\<lambda>here s w. (s, arm_quad here w)) here m (out @ t) = (m, ?w @ o3, t3)"
      using ih(1) lw by (subst convert_loop.simps) auto
    moreover have "(?w @ o3) @ t3 = xs" using ih(2) by simp
    ultimately show ?thesis by blast
  qed
qed

lemma arm_decodes: "filter_output (FsBcj Arm 0 (0 - 5)) (arm_encode_all xs) = xs"
proof -
  obtain u out t where e: "convert_loop 4 (\<lambda>here s w. (s, arm_encode here w)) 0 () xs = (u, out, t)" by (metis surj_pair)
  from arm_loops [OF _ e, of 0] obtain o2 t2 where
    "convert_loop 4 (\<lambda>here s w. (s, arm_quad here w)) 0 0 (out @ t) = (0 :: u32, o2, t2)" "o2 @ t2 = xs" by auto
  then show ?thesis using e
    by (simp add: filter_output_def arm_encode_all_def bcj_ref_def bcj_mask_def bcj_window_def bcj_step_def [abs_def])
qed

section \<open>AES\<close>

lemma dvd_pad_block: "16 dvd length (pad_block xs)"
proof -
  let ?n = "length xs"
  have "16 dvd ?n + (16 - ?n mod 16) mod 16"
  proof (cases "?n mod 16 = 0")
    case False
    then have "(16 - ?n mod 16) mod 16 = 16 - ?n mod 16" by simp
    moreover have "q * 16 + r + (16 - r) = 16 * (q + 1)" if "r < 16" for q r :: nat using that by simp
    from this [of "?n mod 16" "?n div 16"] have "?n + (16 - ?n mod 16) = 16 * (?n div 16 + 1)"
      by (simp only: div_mult_mod_eq)
    ultimately show ?thesis by simp
  qed (simp add: dvd_eq_mod_eq_0)
  then show ?thesis by (simp add: pad_block_def AES_BLOCK_def)
qed

lemma length_cbc_encrypt:
  assumes C: "\<And>b. length b = 16 \<Longrightarrow> length (C b) = 16"
  shows "16 dvd length xs \<Longrightarrow> length prev = 16 \<Longrightarrow> length (cbc_encrypt C prev xs) = length xs"
proof (induction "length xs" arbitrary: xs prev rule: less_induct)
  case less
  show ?case
  proof (cases "xs = []")
    case False
    then have l: "16 \<le> length xs" using less.prems(1) by (auto dest: dvd_imp_le)
    let ?b = "C (map2 (XOR) (take 16 xs) prev)"
    have "length ?b = 16" by (rule C) (use l less.prems(2) in simp)
    then show ?thesis using less.hyps [of "drop 16 xs" ?b] less.prems(1) l
      by (subst cbc_encrypt.simps) (simp add: AES_BLOCK_def Let_def dvd_diff_nat)
  qed (simp add: cbc_encrypt.simps [of C prev "[]"] AES_BLOCK_def)
qed

lemma aes_decodes:
  assumes C: "\<And>b. length b = 16 \<Longrightarrow> length (C b) = 16 \<and> B (C b) = b" and B: "\<And>b. length b = 16 \<Longrightarrow> length (B b) = 16"
    and iv: "length iv = 16"
  shows "aes_stream_ok B iv (Some (length xs)) (cbc_encrypt C iv (pad_block xs))"
    "aes_plaintext B iv (Some (length xs)) (cbc_encrypt C iv (pad_block xs)) = xs"
proof -
  have l: "length (cbc_encrypt C iv (pad_block xs)) = length (pad_block xs)"
    using length_cbc_encrypt [OF _ dvd_pad_block iv] C by blast
  then show "aes_stream_ok B iv (Some (length xs)) (cbc_encrypt C iv (pad_block xs))"
    using dvd_pad_block [of xs] B iv by (simp add: aes_stream_ok_def) (simp add: pad_block_def)
  show "aes_plaintext B iv (Some (length xs)) (cbc_encrypt C iv (pad_block xs)) = xs"
    using cbc_roundtrip [OF C dvd_pad_block iv] by (simp add: aes_plaintext_def) (simp add: pad_block_def)
qed

section \<open>Chains of encoders\<close>

text \<open>
  What one codec makes of a stream; \<open>C k\<close> encrypts a block with the key \<open>k\<close>. The encoders are those for copy,
  delta, ARM and AES; the other encoders of the tests (x86, Thumb, IA-64, ARM64, PowerPC, SPARC, RISC-V and
  BCJ2) are not covered, and their codecs give \<open>None\<close>.
\<close>

definition codec_encode :: "(bytes \<Rightarrow> bytes \<Rightarrow> bytes) \<Rightarrow> codec \<Rightarrow> bytes \<Rightarrow> bytes option" where
  "codec_encode C codec plain =
     (case codec of
        Copy \<Rightarrow> Some plain
      | Delta dist \<Rightarrow> if dist < 256 then Some (delta_encode (dist + 1) plain) else None
      | Bcj arch \<Rightarrow> if arch = Arm then Some (arm_encode_all plain) else None
      | AesCbc key iv len \<Rightarrow>
          (case key of
             None \<Rightarrow> None
           | Some k \<Rightarrow> if length iv = 16 \<and> len = Some (length plain) then Some (cbc_encrypt (C k) iv (pad_block plain)) else None)
      | _ \<Rightarrow> None)"

text \<open>The last codec of a chain is the first to encode.\<close>

primrec spec_encode :: "(bytes \<Rightarrow> bytes \<Rightarrow> bytes) \<Rightarrow> codec_spec \<Rightarrow> bytes \<Rightarrow> bytes option" where
  "spec_encode C [] plain = Some plain"
| "spec_encode C (c # cs) plain = Option.bind (spec_encode C cs plain) (codec_encode C c)"

definition cipher_inverse :: "(bytes \<Rightarrow> bytes \<Rightarrow> bytes) \<Rightarrow> (bytes \<Rightarrow> bytes \<Rightarrow> bytes) \<Rightarrow> bool" where
  "cipher_inverse C D \<longleftrightarrow> (\<forall>k b. length b = 16 \<longrightarrow> length (C k b) = 16 \<and> length (D k b) = 16 \<and> D k (C k b) = b)"

lemma codec_encode_decodes:
  assumes "cipher_inverse C (env_cipher env)" and "codec_encode C codec plain = Some packed"
  shows "codec_decodes env codec packed plain"
proof (cases codec)
  case (AesCbc key iv len)
  then obtain k where k: "key = Some k" "length iv = 16" "len = Some (length plain)" "packed = cbc_encrypt (C k) iv (pad_block plain)"
    using assms(2) by (auto simp: codec_encode_def split: option.splits if_splits)
  have "aes_stream_ok (env_cipher env k) iv (Some (length plain)) packed" "aes_plaintext (env_cipher env k) iv (Some (length plain)) packed = plain"
    unfolding k(4) using aes_decodes [where B = "env_cipher env k" and C = "C k" and xs = plain, OF _ _ k(2)] assms(1)
    by (simp_all add: cipher_inverse_def)
  then show ?thesis using AesCbc k(1,3) by (simp add: codec_decodes_def)
qed (use assms(2) in \<open>auto simp: codec_encode_def codec_decodes_def delta_decodes [simplified] arm_decodes [simplified] split: if_splits\<close>)

lemma spec_encode_decodes:
  "cipher_inverse C (env_cipher env) \<Longrightarrow> spec_encode C spec plain = Some packed \<Longrightarrow> spec_decodes env spec packed plain"
proof (induction spec arbitrary: packed)
  case (Cons c cs)
  then obtain x where "spec_encode C cs plain = Some x" "codec_encode C c x = Some packed" by (auto simp: bind_eq_Some_conv)
  then show ?case using codec_encode_decodes [OF Cons.prems(1)] Cons.IH [OF Cons.prems(1)] by auto
qed simp

text \<open>C2: A stream that went through any chain of the encoders of the tests (copy, delta, the ARM branch
  converter, AES in CBC mode with zero padding) is read back through the chain of decoders exactly as it
  was, in any range, however the index was built.\<close>

theorem encoded_stream_reads:
  assumes "bincode_ok env" and "cipher_inverse C (env_cipher env)" and "spec \<noteq> []" and "spec_encode C spec plain = Some packed"
    and "reads_ok packed rd" and "reads_ok packed rd'" and "\<forall>n. 0 < caps n"
  shows "\<exists>idx. stream_build (boxed_ops env) (codec_create env) spec S strat on_progress p packed rd = Some (Inr idx) \<and>
    (\<forall>pos off len. stream_read_range (boxed_ops env) (codec_create env) idx packed rd' caps pos off len =
       Some (Inr (take len (drop off plain))))"
  by (rule spec_reads [OF assms(1,3) spec_encode_decodes [OF assms(2,4)] assms(5-7)])

theorem encoded_stream_reads_witness:
  "\<exists>packed idx. spec_encode (\<lambda>k b. b) [AesCbc (Some []) (replicate 16 7) (Some 3), Delta 0] [1, 2, 3] = Some packed \<and>
    stream_build (boxed_ops unary_env) (codec_create unary_env) [AesCbc (Some []) (replicate 16 7) (Some 3), Delta 0]
      fixed_interval_ops (fixed_interval_new 2) (\<lambda>n _. (n + 1, n < (2 :: nat))) 0 packed (plain_rd packed) = Some (Inr idx) \<and>
    stream_read_range (boxed_ops unary_env) (codec_create unary_env) idx packed (plain_rd packed) (\<lambda>_. 1) 0 1 2 = Some (Inr [2, 3])"
proof -
  have c: "cipher_inverse (\<lambda>k b. b) (env_cipher unary_env)" by (simp add: cipher_inverse_def unary_env_def)
  obtain packed where p: "spec_encode (\<lambda>k b. b) [AesCbc (Some []) (replicate 16 7) (Some 3), Delta 0] [1, 2, 3] = Some packed"
    by (simp add: codec_encode_def delta_encode_def)
  show ?thesis
    using encoded_stream_reads [where caps = "\<lambda>_. 1", OF unary_env_ok c _ p plain_rd_ok plain_rd_ok,
        of fixed_interval_ops "fixed_interval_new 2" "\<lambda>n _. (n + 1, n < (2 :: nat))" 0] p by auto
qed

end
