(* ===== verification/X86Loop.thy ===== *)
theory X86Loop
  imports Branch
begin

text \<open>
  The address loop of the x86 converter ends. \<^verbatim>\<open>x86\<close> of \<^verbatim>\<open>src/compress/filter.rs\<close> recomputes the
  target of a call until the byte its mask names is no longer 0 or 255; nothing in the loop bounds the
  rounds. In every state that a converter started by \<^verbatim>\<open>FilterDecompressor::bcj\<close> reaches, the second round is
  the last, so the two rounds of \<open>x86_target\<close> are all of them.
\<close>

section \<open>Reachable states\<close>

text \<open>
  \<open>x86_reach data here st buf later\<close>: over the stream \<open>data\<close> the converter is at position \<open>here\<close> with the
  state \<open>st\<close>, \<open>buf\<close> is what is left of the buffer it works on, and \<open>later\<close> has not been read. The rules are
  the start, the first lines of \<^verbatim>\<open>x86\<close> on a buffer that has been filled up, and one round of its loop.
\<close>

inductive x86_reach :: "bytes \<Rightarrow> u32 \<Rightarrow> u32 \<times> u32 \<Rightarrow> bytes \<Rightarrow> bytes \<Rightarrow> bool" for data where
  start: "x86_reach data 0 (0, 0 - 5) [] data"
| fill: "x86_reach data here (pm, pp) buf later \<Longrightarrow> length (buf @ take k later) < 2 ^ 32 - 5 \<Longrightarrow>
    x86_reach data here (pm, if here - pp > 5 then here - 5 else pp) (buf @ take k later) (drop k later)"
| step: "x86_reach data here st buf later \<Longrightarrow> 5 \<le> length buf \<Longrightarrow> x86_step here st (take 5 buf) = (st', out) \<Longrightarrow>
    x86_reach data (here + of_nat (length out)) st' (drop (length out) buf) later"

inductive_cases x86_reach_stepE: "x86_reach data here st buf later"

section \<open>The mask\<close>

text \<open>
  Bit \<open>j\<close> of the mask says that \<open>j\<close> bytes back stands an opcode that was not converted, bit \<open>4 + j\<close> that the
  byte four after it is 0 or 255.
\<close>

definition mask_ok :: "u32 \<Rightarrow> bytes \<Rightarrow> bool" where
  "mask_ok m rest \<longleftrightarrow> (\<forall>n. bit m n \<longrightarrow> n \<in> {1, 2, 3, 5, 6, 7}) \<and>
     (bit m 1 \<and> \<not> bit m 5 \<and> 3 < length rest \<longrightarrow> \<not> test86_msbyte (rest ! 3)) \<and>
     (bit m 2 \<and> \<not> bit m 6 \<and> 2 < length rest \<longrightarrow> \<not> test86_msbyte (rest ! 2)) \<and>
     (bit m 3 \<and> \<not> bit m 7 \<and> 1 < length rest \<longrightarrow> \<not> test86_msbyte (rest ! 1))"

lemma mask_ok_zero: "mask_ok 0 rest"
  by (simp add: mask_ok_def)

lemma bit_0x10: "bit (0x10 :: u32) n \<longleftrightarrow> n = 4"
proof -
  have "(0x10 :: u32) = push_bit 4 1" by simp
  then show ?thesis unfolding bit_push_bit_iff bit_1_iff by (simp only: bit_push_bit_iff bit_1_iff) auto
qed

lemma mask_ok_skip:
  assumes "mask_ok m (b # rest)"
  shows "mask_ok (shift_mask m) rest"
  using assms unfolding mask_ok_def bit_shift_mask by (auto simp: numeral_eq_Suc)

lemma mask_ok_fail:
  assumes m: "mask_ok m (b # rest)" and b4: "b4 = (b # rest) ! 4"
  shows "mask_ok (shift_mask (if test86_msbyte b4 then m OR 1 OR 0x10 else m OR 1)) rest"
proof -
  let ?m = "if test86_msbyte b4 then m OR 1 OR 0x10 else m OR 1"
  have bits: "bit ?m n \<longleftrightarrow> bit m n \<or> n = 0 \<or> (test86_msbyte b4 \<and> n = 4)" for n
    by (cases "test86_msbyte b4"; simp only: if_True if_False bit_or_iff bit_0x10 bit_1_iff; blast)
  show ?thesis using m b4 unfolding mask_ok_def bit_shift_mask bits by (auto simp: numeral_eq_Suc)
qed

section \<open>The second round\<close>

text \<open>A mask that lets an opcode be converted has at most one bit set, and that one without its companion.\<close>

lemma small_word:
  assumes "unat (x :: u32) \<le> 4"
  shows "x \<in> {0, 1, 2, 3, 4}"
proof -
  obtain n where "x = of_nat n" "n \<le> 4" using that [of "unat x"] assms by simp
  then have "n = 0 \<or> n = 1 \<or> n = 2 \<or> n = 3 \<or> n = 4" by linarith
  then show ?thesis using \<open>x = of_nat n\<close> by auto
qed

lemma converts_cases:
  assumes m: "mask_ok m rest" and c: "drop_bit 1 m \<le> 4" "drop_bit 1 m \<noteq> 3"
  shows "m \<in> {0, 2, 4, 8}"
proof -
  let ?x = "drop_bit 1 m"
  have "\<not> bit m 0" using m by (auto simp: mask_ok_def)
  then have "take_bit 1 m = 0" by (intro bit_word_eqI) (auto simp: bit_take_bit_iff bit_0)
  then have "m = push_bit 1 ?x" using bits_ident [of 1 m] by simp
  moreover have "?x \<in> {0, 1, 2, 3, 4}" by (rule small_word) (use c(1) in \<open>simp add: word_le_nat_alt\<close>)
  ultimately show ?thesis using c(2) by auto
qed

text \<open>
  The rounds: with the byte \<open>3 - idx\<close> of the source neither 0 nor 255, the second round tests its
  complement.
\<close>

lemma test86_not: "test86_msbyte (NOT b) = test86_msbyte b"
proof -
  have n: "(0xFF :: byte) = NOT 0" "NOT (0xFF :: byte) = 0" by simp_all
  have "NOT b = 0xFF \<longleftrightarrow> b = 0" unfolding n(1) by (rule bit.compl_eq_compl_iff)
  moreover have "NOT b = 0 \<longleftrightarrow> b = 0xFF" using bit.compl_eq_compl_iff [of b "0xFF"] unfolding n(2) .
  ultimately show ?thesis by (auto simp: test86_msbyte_def)
qed

text \<open>The low \<open>n\<close> bits of the complement less \<open>c\<close> are the complement of the source.\<close>

lemma second_round:
  fixes src c :: u32
  assumes n: "n \<le> 32" and k: "k < n"
  shows "bit (((src - c) XOR mask n) - c) k \<longleftrightarrow> \<not> bit src k"
proof -
  let ?d = "src - c"
  have "take_bit n (?d XOR mask n) = take_bit n (NOT ?d)"
    by (rule bit_word_eqI) (auto simp: bit_simps)
  then have "take_bit n ((?d XOR mask n) - c) = take_bit n (NOT ?d - c)"
    using take_bit_word_diff [of n "?d XOR mask n" c] take_bit_word_diff [of n "NOT ?d" c] n by simp
  also have "NOT ?d - c = NOT src" by (simp add: not_eq_complement)
  finally have "bit (take_bit n ((?d XOR mask n) - c)) k = bit (take_bit n (NOT src)) k" by simp
  then show ?thesis using k n by (simp add: bit_take_bit_iff bit_not_iff)
qed

lemma second_byte:
  assumes "j \<in> {1, 2, 3 :: nat}"
  shows "(u8 (drop_bit (24 - j * 8) (((src - c) XOR mask (32 - j * 8)) - c)) :: byte) = NOT (u8 (drop_bit (24 - j * 8) (src :: u32)))"
proof (rule bit_word_eqI)
  fix k assume "k < LENGTH(8)"
  then show "bit (u8 (drop_bit (24 - j * 8) (((src - c) XOR mask (32 - j * 8)) - c)) :: byte) k =
      bit (NOT (u8 (drop_bit (24 - j * 8) src)) :: byte) k"
    using second_round [of "32 - j * 8" "24 - j * 8 + k" src c] assms by (auto simp: bit_simps)
qed

lemma x86_dest_ends:
  assumes pm: "pm \<in> {0, 2, 4, 8}"
    and src: "\<And>j. pm = push_bit j 1 \<Longrightarrow> j \<in> {1, 2, 3} \<Longrightarrow> \<not> test86_msbyte (u8 (drop_bit (24 - j * 8) src))"
  shows "x86_dest (Suc (Suc fuel)) pm c src \<noteq> None"
proof (cases "pm = 0")
  case False
  obtain j where j: "j \<in> {1, 2, 3 :: nat}" "pm = push_bit j 1" "MASK_TO_BIT_NUMBER ! unat (drop_bit 1 pm) = j"
  proof -
    from pm False consider "pm = 2" | "pm = 4" | "pm = 8" by auto
    then show thesis
      by cases (rule that [of 1], auto simp: MASK_TO_BIT_NUMBER_def, rule that [of 2], auto simp: MASK_TO_BIT_NUMBER_def,
        rule that [of 3], auto simp: MASK_TO_BIT_NUMBER_def)
  qed
  have m: "push_bit ((32 - j * 8) mod 32) 1 - 1 = (mask (32 - j * 8) :: u32)"
    using j(1) by (auto simp: mask_eq_exp_minus_1)
  have round: "x86_dest (Suc f) pm c s =
      (if \<not> test86_msbyte (u8 (drop_bit (24 - j * 8) (s - c))) then Some (s - c)
       else x86_dest f pm c ((s - c) XOR mask (32 - j * 8)))" for f s
    using False by (simp only: x86_dest.simps Let_def j(3) m if_False)
  show ?thesis unfolding round second_byte [OF j(1)] test86_not using src [OF j(2,1)] by simp
qed simp

section \<open>The invariant\<close>

text \<open>
  The mask is right for what comes next, and the distance to the last opcode does not wrap before the
  end of the buffer.
\<close>

lemma mask_ok_ref_step:
  assumes m: "mask_ok m rest" and l: "5 \<le> length rest" and st: "x86_ref_step here m (take 5 rest) = (m', out)"
  shows "mask_ok m' (drop (length out) rest)"
proof -
  obtain b tl where r: "rest = b # tl" using l by (cases rest) auto
  have n: "take 5 rest ! 0 = b" "take 5 rest ! 4 = (b # tl) ! 4" using l r by simp_all
  consider "m' = shift_mask m" "length out = 1"
    | "m' = 0"
    | "m' = shift_mask (if test86_msbyte ((b # tl) ! 4) then m OR 1 OR 0x10 else m OR 1)" "length out = 1"
    using st unfolding x86_ref_step_def Let_def n by (auto split: if_splits)
  then show ?thesis
  proof cases
    case 1
    then show ?thesis using mask_ok_skip [of m b tl] m r by simp
  next
    case 2
    then show ?thesis by (simp add: mask_ok_zero)
  next
    case 3
    then show ?thesis using mask_ok_fail [OF _ refl, of m b tl] m r by simp
  qed
qed

definition x86_inv :: "u32 \<Rightarrow> u32 \<times> u32 \<Rightarrow> bytes \<Rightarrow> bytes \<Rightarrow> bool" where
  "x86_inv here st buf later \<longleftrightarrow> mask_ok (x86_mask here (fst st) (snd st)) (buf @ later) \<and>
     unat (here - snd st) + length buf < 2 ^ 32"

lemma x86_reach_inv: "x86_reach data here st buf later \<Longrightarrow> x86_inv here st buf later"
proof (induction rule: x86_reach.induct)
  case start
  have "x86_mask 0 0 (0 - 5) = 0" by (simp add: x86_mask_def funpow_shift_zero)
  then show ?case by (simp add: x86_inv_def mask_ok_zero)
next
  case (fill here pm pp buf later k)
  let ?pp = "if here - pp > 5 then here - 5 else pp"
  have "unat (here - ?pp) \<le> 5" by (auto simp: word_less_nat_alt)
  moreover have "x86_mask here pm ?pp = x86_mask here pm pp" by (rule x86_mask_clamp)
  ultimately show ?case using fill.IH fill.hyps(2) by (simp add: x86_inv_def del: length_append)
next
  case (step here st buf later st' out)
  obtain pm pp pm1 pp1 where s: "st = (pm, pp)" "st' = (pm1, pp1)" by (metis surj_pair)
  have inv: "mask_ok (x86_mask here pm pp) (buf @ later)" "unat (here - pp) + length buf < 2 ^ 32"
    using step.IH s by (simp_all add: x86_inv_def)
  have b: "unat (here - pp) + 5 < 2 ^ 32" using inv(2) step.hyps(2) by simp
  note r = x86_step_ref [OF step.hyps(3) [unfolded s] b]
  have l: "length out \<le> 5" using step.hyps(2,3) x86.step_len [of "take 5 buf" here st st' out] by simp
  have "mask_ok (x86_mask (here + of_nat (length out)) pm1 pp1) (drop (length out) (buf @ later))"
    by (rule mask_ok_ref_step [OF inv(1)]) (use step.hyps(2) r(1) in auto)
  moreover have "drop (length out) (buf @ later) = drop (length out) buf @ later" using l step.hyps(2) by simp
  moreover have "unat (here + of_nat (length out) - pp1) + length (drop (length out) buf) < 2 ^ 32"
    using r(2) inv(2) l step.hyps(2) unfolding length_drop by linarith
  ultimately show ?case by (simp add: x86_inv_def s)
qed

lemma le32_bytes: "j \<in> {1, 2, 3} \<Longrightarrow> u8 (drop_bit (24 - j * 8) (le32 b1 b2 b3 b4)) = [b1, b2, b3, b4] ! (3 - j)"
  by (elim insertE emptyE; rule bit_word_eqI; auto simp: le32_def bit_simps dest: bit_imp_le_length)

text \<open>C3: In every state a freshly created x86 converter reaches, over any stream cut into buffers anywhere,
  the loop that computes the target of an opcode it converts ends, in its second round at the latest: more
  rounds never change the result.\<close>

theorem x86_address_loop_ends:
  assumes "x86_reach data here (prev_mask, prev_pos) (b0 # b1 # b2 # b3 # b4 # buf) later"
    and "x86_converts b4 (x86_mask here prev_mask prev_pos)"
  shows "x86_dest (2 + fuel) (x86_mask here prev_mask prev_pos) (here + 5) (le32 b1 b2 b3 b4) =
    Some (x86_target (x86_mask here prev_mask prev_pos) (here + 5) (le32 b1 b2 b3 b4))"
proof -
  let ?m = "x86_mask here prev_mask prev_pos" and ?rest = "(b0 # b1 # b2 # b3 # b4 # buf) @ later"
  have m: "mask_ok ?m ?rest" using x86_reach_inv [OF assms(1)] by (simp add: x86_inv_def)
  have cases: "?m \<in> {0, 2, 4, 8}" using converts_cases [OF m] assms(2) by (simp add: x86_converts_def)
  have src: "\<not> test86_msbyte (u8 (drop_bit (24 - j * 8) (le32 b1 b2 b3 b4)))" if j: "?m = push_bit j 1" "j \<in> {1, 2, 3}" for j
  proof -
    have bits: "bit ?m n \<longleftrightarrow> n = j" if "n < 32" for n using that j(2) unfolding j(1) bit_push_bit_iff bit_1_iff by auto
    have "\<not> test86_msbyte (?rest ! (4 - j))" using m j(2) bits unfolding mask_ok_def by auto
    moreover have "?rest ! (4 - j) = [b1, b2, b3, b4] ! (3 - j)" using j(2) by auto
    ultimately show ?thesis using le32_bytes [OF j(2), of b1 b2 b3 b4] by simp
  qed
  have ends: "x86_dest (Suc (Suc fuel)) ?m (here + 5) (le32 b1 b2 b3 b4) \<noteq> None" for fuel
    by (rule x86_dest_ends [OF cases src])
  have more: "x86_dest (Suc (Suc fuel)) ?m c s = x86_dest (Suc (Suc 0)) ?m c s" if "x86_dest (Suc (Suc 0)) ?m c s \<noteq> None" for fuel c s
    using that by (auto simp: Let_def split: if_splits)
  obtain dest where d: "x86_dest (Suc (Suc 0)) ?m (here + 5) (le32 b1 b2 b3 b4) = Some dest" using ends [of 0] by blast
  then have "x86_target ?m (here + 5) (le32 b1 b2 b3 b4) = dest" by (simp only: x86_target_def numeral_2_eq_2 option.case)
  moreover have "x86_dest (2 + fuel) ?m (here + 5) (le32 b1 b2 b3 b4) = Some dest"
    using more [of "here + 5" "le32 b1 b2 b3 b4" fuel] d by simp
  ultimately show ?thesis by simp
qed

text \<open>A call right after an opcode that was not converted.\<close>

lemma demo_reach:
  "x86_reach [0xE8, 0xE8, 1, 2, 3, 0] 1 (1, 0) [0xE8, 1, 2, 3, 0] []"
proof -
  let ?d = "[0xE8, 0xE8, 1, 2, 3, 0] :: bytes"
  have "x86_reach ?d 0 (0, if 0 - (0 - 5) > (5 :: u32) then 0 - 5 else 0 - 5) ([] @ take 6 ?d) (drop 6 ?d)"
    by (rule x86_reach.fill [OF x86_reach.start]) simp
  then have "x86_reach ?d 0 (0, 0 - 5) ?d []" by simp
  from x86_reach.step [OF this, of "(1, 0)" "[0xE8]"]
  have "x86_step 0 (0, 0 - 5) (take 5 ?d) = ((1, 0), [0xE8]) \<Longrightarrow> x86_reach ?d 1 (1, 0) [0xE8, 1, 2, 3, 0] []" by simp
  moreover have "x86_mask 0 0 (0 - 5) = 0" by (simp add: x86_mask_def funpow_shift_zero)
  ultimately show ?thesis by (simp add: x86_step_def x86_converts_def test86_msbyte_def)
qed

theorem x86_address_loop_ends_witness:
  "\<forall>fuel. x86_dest (2 + fuel) 2 6 (le32 1 2 3 0) = Some (x86_target 2 6 (le32 1 2 3 0))"
proof -
  have m: "x86_mask 1 1 0 = 2" by (simp add: x86_mask_def shift_mask_def)
  have c: "(1 :: u32) + 5 = 6" by simp
  have "x86_converts 0 (x86_mask 1 1 0)" by (simp add: m x86_converts_def test86_msbyte_def)
  note x86_address_loop_ends [OF demo_reach this]
  then show ?thesis unfolding m c by blast
qed

end
