(* ===== verification/ZBits.thy ===== *)
theory ZBits
  imports Words
begin

text \<open>
  The bit readers of zstd, \<^verbatim>\<open>src/compress/zstd_dec/bits.rs\<close>: the forward reader of FSE headers, the backward
  reader, and the backward reader of the sequence loop with its 64-bit cache. Each is shown to read the
  numbers that stand in the bits of the stream.
\<close>

section \<open>Loading words\<close>

text \<open>\<^verbatim>\<open>u64::from_le_bytes\<close>.\<close>

primrec le_word :: "bytes \<Rightarrow> u64" where
  "le_word [] = 0"
| "le_word (b # bs) = ucast b OR push_bit 8 (le_word bs)"

definition load_u64_le_tail :: "bytes \<Rightarrow> nat \<Rightarrow> u64" where
  "load_u64_le_tail data byte_idx =
     (let rest = drop byte_idx data in le_word (copy_into (replicate 8 0) 0 rest))"

definition load_u64_le :: "bytes \<Rightarrow> nat \<Rightarrow> u64" where
  "load_u64_le data byte_idx =
     (if byte_idx + 8 \<le> length data then le_word (subslice byte_idx (byte_idx + 8) data)
      else load_u64_le_tail data byte_idx)"

definition extract_bits :: "bytes \<Rightarrow> nat \<Rightarrow> nat \<Rightarrow> nat" where
  "extract_bits data lo n =
     (if n = 0 then 0
      else unat (drop_bit (lo mod 8) (load_u64_le data (lo div 8)) AND (push_bit n 1 - 1)))"

text \<open>\<^verbatim>\<open>31 - x.leading_zeros()\<close> for positive \<open>x\<close>.\<close>

fun highest_bit :: "nat \<Rightarrow> nat" where
  "highest_bit x = (if x < 2 then 0 else Suc (highest_bit (x div 2)))"

declare highest_bit.simps [simp del]

section \<open>The forward reader\<close>

record forward_reader =
  fr_data :: bytes
  fr_byte_pos :: nat
  fr_bit_pos :: nat

definition forward_new :: "bytes \<Rightarrow> forward_reader" where
  "forward_new data = \<lparr>fr_data = data, fr_byte_pos = 0, fr_bit_pos = 0\<rparr>"

definition bits_consumed :: "forward_reader \<Rightarrow> nat" where
  "bits_consumed r = fr_byte_pos r * 8 + fr_bit_pos r"

definition forward_bytes_consumed :: "forward_reader \<Rightarrow> nat" where
  "forward_bytes_consumed r = (bits_consumed r + 7) div 8"

text \<open>
  The loop of \<^verbatim>\<open>read_bits\<close>, once for each byte touched. The bit position is below 8, so every round reads
  at least one bit.
\<close>

function forward_loop :: "forward_reader \<Rightarrow> nat \<Rightarrow> nat \<Rightarrow> nat \<Rightarrow> string + (forward_reader \<times> nat)" where
  "forward_loop r n bits_read acc =
     (if bits_read < n then
        if length (fr_data r) \<le> fr_byte_pos r then Inl ''read past end of bitstream''
        else
          let available = 8 - fr_bit_pos r;
              to_read = min (n - bits_read) available;
              bits = drop_bit (fr_bit_pos r) (unat (fr_data r ! fr_byte_pos r)) mod 2 ^ to_read;
              bit_pos = fr_bit_pos r + to_read;
              r' = (if 8 \<le> bit_pos then r\<lparr>fr_bit_pos := 0, fr_byte_pos := fr_byte_pos r + 1\<rparr> else r\<lparr>fr_bit_pos := bit_pos\<rparr>)
          in forward_loop r' n (bits_read + to_read) (acc OR push_bit bits_read bits)
      else Inr (r, acc))"
  by pat_completeness auto
termination
  by (relation "measures [\<lambda>(r, n, k, acc). n - k, \<lambda>(r, n, k, acc). length (fr_data r) - fr_byte_pos r]")
    (auto simp: Let_def min_def split: if_splits)

declare forward_loop.simps [simp del]

definition forward_read :: "forward_reader \<Rightarrow> nat \<Rightarrow> string + (forward_reader \<times> nat)" where
  "forward_read r n =
     (if n = 0 then Inr (r, 0)
      else if 25 < n then Inl ''too many bits requested''
      else forward_loop r n 0 0)"

section \<open>The backward reader\<close>

record backward_reader =
  br_data :: bytes
  br_total_bits :: nat
  br_bit_pos :: nat

definition backward_new :: "bytes \<Rightarrow> string + backward_reader" where
  "backward_new data =
     (if data = [] then Inl ''empty bitstream''
      else if last data = 0 then Inl ''last byte of bitstream is 0 (no init bit)''
      else Inr \<lparr>br_data = data, br_total_bits = (length data - 1) * 8 + highest_bit (unat (last data)), br_bit_pos = 0\<rparr>)"

definition bits_remaining :: "backward_reader \<Rightarrow> nat" where
  "bits_remaining r = br_total_bits r - br_bit_pos r"

definition backward_overflowed :: "backward_reader \<Rightarrow> bool" where
  "backward_overflowed r \<longleftrightarrow> br_total_bits r < br_bit_pos r"

definition peek_bits_padded :: "backward_reader \<Rightarrow> nat \<Rightarrow> nat" where
  "peek_bits_padded r n =
     (if n = 0 then 0
      else
        let remaining = bits_remaining r in
        if n \<le> remaining then
          let lo = remaining - n; v = load_u64_le (br_data r) (lo div 8)
          in unat (drop_bit (lo mod 8) v AND (push_bit n 1 - 1))
        else
          let v = load_u64_le (br_data r) 0 AND (push_bit remaining 1 - 1)
          in unat (push_bit (n - remaining) v))"

definition backward_read :: "backward_reader \<Rightarrow> nat \<Rightarrow> string + (backward_reader \<times> nat)" where
  "backward_read r n =
     (if bits_remaining r < n then Inl ''not enough bits in backward bitstream''
      else Inr (r\<lparr>br_bit_pos := br_bit_pos r + n\<rparr>, peek_bits_padded r n))"

definition backward_read_padded :: "backward_reader \<Rightarrow> nat \<Rightarrow> backward_reader \<times> nat" where
  "backward_read_padded r n = (r\<lparr>br_bit_pos := br_bit_pos r + n\<rparr>, peek_bits_padded r n)"

section \<open>The reader of the sequence loop\<close>

record seq_reader =
  sq_data :: bytes
  sq_rem :: int
  sq_cache :: u64
  sq_cbits :: u32

definition REFILL_BITS :: nat where
  "REFILL_BITS = 56"

definition tail_cache :: "bytes \<Rightarrow> int \<Rightarrow> u64" where
  "tail_cache data remaining =
     (if remaining \<le> 0 then 0
      else let r = nat remaining in push_bit (64 - r) (of_nat (extract_bits data 0 r)))"

definition seq_refill :: "seq_reader \<Rightarrow> seq_reader" where
  "seq_refill r =
     r\<lparr>sq_cache :=
         (if 56 \<le> sq_rem r
          then let lo = nat (sq_rem r - 56); v = load_u64_le (sq_data r) (lo div 8) in push_bit 8 (drop_bit (lo mod 8) v)
          else tail_cache (sq_data r) (sq_rem r)),
       sq_cbits := of_nat REFILL_BITS\<rparr>"

definition seq_reader_new :: "bytes \<Rightarrow> string + seq_reader" where
  "seq_reader_new data =
     and_then (backward_new data) (\<lambda>reader.
       Inr (seq_refill \<lparr>sq_data = data, sq_rem = int (bits_remaining reader), sq_cache = 0, sq_cbits = 0\<rparr>))"

definition seq_consume :: "seq_reader \<Rightarrow> nat \<Rightarrow> seq_reader" where
  "seq_consume r n =
     r\<lparr>sq_cache := push_bit n (sq_cache r), sq_cbits := sq_cbits r - of_nat n, sq_rem := sq_rem r - int n\<rparr>"

definition seq_read :: "seq_reader \<Rightarrow> nat \<Rightarrow> seq_reader \<times> nat" where
  "seq_read r n = (seq_consume r n, unat (drop_bit (63 - n) (drop_bit 1 (sq_cache r))))"

definition peek_at :: "seq_reader \<Rightarrow> nat \<Rightarrow> nat \<Rightarrow> nat" where
  "peek_at r skip n = unat (drop_bit (63 - n) (drop_bit 1 (push_bit skip (sq_cache r))))"

definition seq_overflowed :: "seq_reader \<Rightarrow> bool" where
  "seq_overflowed r \<longleftrightarrow> sq_rem r < 0"

section \<open>The bits of a stream\<close>

text \<open>Bit \<open>n\<close> of a byte string, from the low bit of the first byte; beyond the end it is 0.\<close>

definition bit_at :: "bytes \<Rightarrow> nat \<Rightarrow> bool" where
  "bit_at data n \<longleftrightarrow> n div 8 < length data \<and> bit (data ! (n div 8)) (n mod 8)"

text \<open>The number that stands in the \<open>n\<close> bits from \<open>lo\<close> on.\<close>

definition bits_val :: "bytes \<Rightarrow> nat \<Rightarrow> nat \<Rightarrow> nat" where
  "bits_val data lo n = horner_sum of_bool 2 (map (bit_at data) [lo..<lo + n])"

lemma bit_bits_val: "bit (bits_val data lo n) k \<longleftrightarrow> k < n \<and> bit_at data (lo + k)"
  by (auto simp: bits_val_def bit_horner_sum_bit_iff)

lemma bits_val_bound: "bits_val data lo n < 2 ^ n"
proof -
  have "take_bit n (bits_val data lo n) = bits_val data lo n"
    by (rule bit_eqI) (auto simp: bit_take_bit_iff bit_bits_val)
  then show ?thesis by (metis take_bit_nat_less_exp)
qed

lemma bit_le_word: "bit (le_word bs) k \<longleftrightarrow> k < 64 \<and> bit_at bs k"
proof (induction bs arbitrary: k)
  case Nil
  then show ?case by (simp add: bit_at_def)
next
  case (Cons b bs)
  show ?case
  proof (cases "k < 8")
    case True
    then show ?thesis by (auto simp: bit_simps bit_at_def)
  next
    case False
    then have "bit_at (b # bs) k = bit_at bs (k - 8)"
      by (auto simp: bit_at_def le_div_geq le_mod_geq)
    then show ?thesis using False Cons.IH [of "k - 8"] by (auto simp: bit_simps dest: bit_imp_le_length)
  qed
qed

lemma bit_at_drop: "bit_at (drop i data) k \<longleftrightarrow> bit_at data (8 * i + k)"
  by (auto simp: bit_at_def)

lemma bit_at_take: "bit_at (take i data) k \<longleftrightarrow> k < 8 * i \<and> bit_at data k"
  by (auto simp: bit_at_def)

lemma bit_load: "bit (load_u64_le data i) k \<longleftrightarrow> k < 64 \<and> bit_at data (8 * i + k)"
proof (cases "i + 8 \<le> length data")
  case True
  then show ?thesis by (auto simp: load_u64_le_def bit_le_word subslice_def bit_at_take bit_at_drop)
next
  case False
  let ?rest = "drop i data"
  have l: "length ?rest < 8 \<or> ?rest = []" using False by auto
  have c: "copy_into (replicate 8 0) 0 ?rest = ?rest @ replicate (8 - length ?rest) 0" by (simp add: copy_into_def)
  have "bit_at (?rest @ replicate (8 - length ?rest) 0) k = bit_at ?rest k" if "k < 64"
    using that by (auto simp: bit_at_def nth_append)
  then show ?thesis using False by (auto simp: load_u64_le_def load_u64_le_tail_def bit_le_word c bit_at_drop)
qed

lemma mask_and: "(x :: u64) AND (push_bit n 1 - 1) = take_bit n x"
  by (simp add: take_bit_eq_mask mask_eq_exp_minus_1)

text \<open>A load, a shift and a mask read up to 56 bits at any position.\<close>

lemma load_bits:
  assumes "n \<le> 56"
  shows "unat (drop_bit (lo mod 8) (load_u64_le data (lo div 8)) AND (push_bit n 1 - 1)) = bits_val data lo n"
proof (rule bit_eqI)
  fix k
  have "8 * (lo div 8) + (lo mod 8 + k) = lo + k" by simp
  then show "bit (unat (drop_bit (lo mod 8) (load_u64_le data (lo div 8)) AND (push_bit n 1 - 1))) k = bit (bits_val data lo n) k"
    using assms unfolding mask_and by (auto simp: bit_unsigned_iff bit_take_bit_iff bit_drop_bit_eq bit_load bit_bits_val)
qed

lemma extract_bits_val: "n \<le> 56 \<Longrightarrow> extract_bits data lo n = bits_val data lo n"
  using load_bits by (auto simp: extract_bits_def bits_val_def)

end
