(* ===== verification/ZFse.thy ===== *)
theory ZFse
  imports ZBits
begin

text \<open>
  \<^verbatim>\<open>src/compress/zstd_dec/fse.rs\<close>: FSE tables, the counts they are described by, and the predefined ones.
\<close>

section \<open>Tables\<close>

definition LL_FSE_LOG :: nat where "LL_FSE_LOG = 9"
definition ML_FSE_LOG :: nat where "ML_FSE_LOG = 9"
definition OFF_FSE_LOG :: nat where "OFF_FSE_LOG = 8"
definition MAX_FSE_LOG :: nat where "MAX_FSE_LOG = 9"
definition MAX_LL :: nat where "MAX_LL = 35"
definition MAX_ML :: nat where "MAX_ML = 52"
definition MAX_OFF :: nat where "MAX_OFF = 31"
definition FSE_MIN_TABLE_LOG :: nat where "FSE_MIN_TABLE_LOG = 5"

record fse_entry =
  fe_symbol :: nat
  fe_nb_bits :: nat
  fe_next_state :: nat
  fe_nb_additional_bits :: nat
  fe_base_value :: nat

text \<open>\<^verbatim>\<open>FseEntry::default()\<close>.\<close>

definition fse_entry_default :: fse_entry where
  "fse_entry_default =
     \<lparr>fe_symbol = 0, fe_nb_bits = 0, fe_next_state = 0, fe_nb_additional_bits = 0, fe_base_value = 0\<rparr>"

definition SEQ_TABLE_SLOTS :: nat where
  "SEQ_TABLE_SLOTS = 2 ^ MAX_FSE_LOG"

text \<open>The compact entry of the sequence loop, in one word.\<close>

definition seq_entry_new :: "fse_entry \<Rightarrow> u64" where
  "seq_entry_new e =
     of_nat (fe_base_value e) OR push_bit 32 (of_nat (fe_next_state e)) OR push_bit 48 (of_nat (fe_nb_bits e)) OR
     push_bit 56 (of_nat (fe_nb_additional_bits e))"

definition seq_base_value :: "u64 \<Rightarrow> u32" where
  "seq_base_value e = ucast e"

definition seq_next_state :: "u64 \<Rightarrow> nat" where
  "seq_next_state e = unat (ucast (drop_bit 32 e) :: u16)"

definition seq_nb_bits :: "u64 \<Rightarrow> nat" where
  "seq_nb_bits e = unat (u8 (drop_bit 48 e))"

definition seq_nb_additional_bits :: "u64 \<Rightarrow> nat" where
  "seq_nb_additional_bits e = unat (drop_bit 56 e)"

record fse_table =
  ft_table_log :: nat
  ft_entries :: "fse_entry list"
  ft_seq_entries :: "u64 list"
  ft_seq_max_additional_bits :: "nat option"

definition fse_well_formed :: "nat \<Rightarrow> fse_entry list \<Rightarrow> bool" where
  "fse_well_formed table_log entries \<longleftrightarrow>
     table_log \<le> MAX_FSE_LOG \<and> length entries = 2 ^ table_log \<and> list_all (\<lambda>e. fe_nb_bits e \<le> table_log) entries"

definition fse_table_new :: "nat \<Rightarrow> fse_entry list \<Rightarrow> fse_table" where
  "fse_table_new table_log entries =
     \<lparr>ft_table_log = table_log, ft_entries = entries,
      ft_seq_entries = copy_into (replicate SEQ_TABLE_SLOTS 0) 0 (map seq_entry_new (take SEQ_TABLE_SLOTS entries)),
      ft_seq_max_additional_bits =
        (if fse_well_formed table_log entries
         then (if entries = [] then None else Some (fold max (map fe_nb_additional_bits entries) 0))
         else None)\<rparr>"

definition fse_decode :: "fse_table \<Rightarrow> nat \<Rightarrow> fse_entry" where
  "fse_decode t st = ft_entries t ! st"

section \<open>Reading the counts\<close>

text \<open>The inner loop: a run of symbols without a count, three for each \<^verbatim>\<open>0b11\<close>.\<close>

function zero_run :: "nat \<Rightarrow> forward_reader \<Rightarrow> nat \<Rightarrow> string + (forward_reader \<times> nat)" where
  "zero_run max_sv1 reader charnum =
     and_then (map_err (\<lambda>_. ''reading zero run: {}'') (forward_read reader 2)) (\<lambda>(reader, bits).
       if bits = 3 then
         if max_sv1 \<le> charnum + 3 then Inr (reader, charnum + 3)
         else zero_run max_sv1 reader (charnum + 3)
       else Inr (reader, charnum + bits))"
  by pat_completeness auto
termination by (relation "measure (\<lambda>(m, r, c). m - c)") auto

declare zero_run.simps [simp del]

lemma zero_run_grows: "zero_run m r c = Inr (r', c') \<Longrightarrow> c \<le> c'"
proof (induction m r c rule: zero_run.induct)
  case (1 m r c)
  then show ?case by (subst (asm) (2) zero_run.simps) (force simp: and_then_Inr_iff split: if_splits)
qed

record ncount =
  nc_reader :: forward_reader
  nc_normalized :: "int list"
  nc_remaining :: int
  nc_threshold :: int
  nc_nb_bits :: nat
  nc_charnum :: nat
  nc_previous0 :: bool

text \<open>The count value: \<^verbatim>\<open>nb_bits - 1\<close> bits, and one more for the values above \<^verbatim>\<open>max_val\<close>.\<close>

definition read_count :: "ncount \<Rightarrow> string + (forward_reader \<times> int)" where
  "read_count s =
     (let max_val = (2 * nc_threshold s - 1) - nc_remaining s;
          bits_avail = nc_nb_bits s - 1
      in and_then (map_err (\<lambda>_. ''reading count: {}'') (forward_read (nc_reader s) bits_avail)) (\<lambda>(reader, low).
           if int low < max_val then Inr (reader, int low)
           else and_then (map_err (\<lambda>_. ''reading extra count bit: {}'') (forward_read reader 1)) (\<lambda>(reader, extra).
             let value = int low + push_bit bits_avail (int extra)
             in Inr (reader, if nc_threshold s \<le> value then value - max_val else value))))"

text \<open>What follows the count: the books are kept and the width of the next count follows from the rest.\<close>

definition put_count :: "nat \<Rightarrow> ncount \<Rightarrow> forward_reader \<Rightarrow> int \<Rightarrow> ncount" where
  "put_count max_sv1 s reader count =
     (let count = count - 1;
          remaining = (if 0 \<le> count then nc_remaining s - count else nc_remaining s + count);
          s = s\<lparr>nc_reader := reader, nc_remaining := remaining,
                nc_normalized := (if nc_charnum s < max_sv1 then (nc_normalized s)[nc_charnum s := count] else nc_normalized s),
                nc_charnum := nc_charnum s + 1, nc_previous0 := (count = 0)\<rparr>
      in if remaining \<le> 1 then s
         else if remaining < nc_threshold s
         then s\<lparr>nc_nb_bits := highest_bit (nat remaining) + 1, nc_threshold := 2 ^ highest_bit (nat remaining)\<rparr>
         else s)"

text \<open>One round of the outer loop; the flag says that the loop is left.\<close>

definition ncount_round :: "nat \<Rightarrow> ncount \<Rightarrow> string + (ncount \<times> bool)" where
  "ncount_round max_sv1 s =
     and_then (if nc_previous0 s
               then and_then (zero_run max_sv1 (nc_reader s) (nc_charnum s)) (\<lambda>(reader, charnum).
                      Inr (s\<lparr>nc_reader := reader, nc_charnum := charnum\<rparr>))
               else Inr s) (\<lambda>s1.
       if nc_previous0 s \<and> max_sv1 \<le> nc_charnum s1 then Inr (s1, True)
       else and_then (read_count s1) (\<lambda>(reader, count).
         let s2 = put_count max_sv1 s1 reader count
         in Inr (s2, nc_remaining s2 \<le> 1 \<or> max_sv1 \<le> nc_charnum s2)))"

lemma ncount_round_grows:
  assumes "ncount_round m s = Inr (s2, False)"
  shows "nc_charnum s < nc_charnum s2" "nc_charnum s2 < m"
proof -
  obtain s1 where s1: "(if nc_previous0 s then and_then (zero_run m (nc_reader s) (nc_charnum s)) (\<lambda>(reader, charnum).
      Inr (s\<lparr>nc_reader := reader, nc_charnum := charnum\<rparr>)) else Inr s) = Inr s1"
    "\<exists>r c. s2 = put_count m s1 r c \<and> \<not> (nc_remaining s2 \<le> 1 \<or> m \<le> nc_charnum s2)"
    using assms unfolding ncount_round_def and_then_Inr_iff
    by (auto simp: Let_def and_then_Inr_iff split: if_splits)
  have "nc_charnum s \<le> nc_charnum s1"
    using s1(1) by (auto simp: and_then_Inr_iff dest!: zero_run_grows split: if_splits)
  moreover have "nc_charnum s2 = nc_charnum s1 + 1" using s1(2) by (auto simp: put_count_def Let_def)
  ultimately show "nc_charnum s < nc_charnum s2" "nc_charnum s2 < m" using s1(2) by auto
qed

function ncount_loop :: "nat \<Rightarrow> ncount \<Rightarrow> string + ncount" where
  "ncount_loop max_sv1 s =
     and_then (ncount_round max_sv1 s) (\<lambda>(s, left). if left then Inr s else ncount_loop max_sv1 s)"
  by pat_completeness auto
termination
proof (relation "measure (\<lambda>(m, s). m - nc_charnum s)")
  fix m s x s2 left
  assume "ncount_round m s = Inr x" "(s2, left) = x" "\<not> left"
  then show "((m, s2), (m, s)) \<in> measure (\<lambda>(m, s). m - nc_charnum s)"
    using ncount_round_grows [of m s s2] by auto
qed simp

declare ncount_loop.simps [simp del]

definition read_ncount_inner :: "bytes \<Rightarrow> nat \<Rightarrow> nat \<Rightarrow> string + (int list \<times> nat \<times> nat \<times> nat)" where
  "read_ncount_inner data max_symbol actual_len =
     and_then (map_err (\<lambda>_. ''reading table log: {}'') (forward_read (forward_new data) 4)) (\<lambda>(reader, raw).
       let table_log = raw + FSE_MIN_TABLE_LOG in
       if MAX_FSE_LOG < table_log then Inl ''table log {} exceeds max {}''
       else
         let max_sv1 = max_symbol + 1 in
         and_then (ncount_loop max_sv1
             \<lparr>nc_reader = reader, nc_normalized = replicate max_sv1 0, nc_remaining = 2 ^ table_log + 1,
              nc_threshold = 2 ^ table_log, nc_nb_bits = table_log + 1, nc_charnum = 0, nc_previous0 = False\<rparr>) (\<lambda>s.
           if nc_remaining s \<noteq> 1 then Inl ''FSE NCount corruption: remaining={} (expected 1)''
           else if max_sv1 < nc_charnum s then Inl ''FSE NCount: charnum {} exceeds max {}''
           else if actual_len < forward_bytes_consumed (nc_reader s) then Inl ''FSE NCount extends beyond available data''
           else Inr (nc_normalized s, nc_charnum s - 1, table_log, forward_bytes_consumed (nc_reader s))))"

definition read_ncount :: "bytes \<Rightarrow> nat \<Rightarrow> string + (int list \<times> nat \<times> nat \<times> nat)" where
  "read_ncount data max_symbol =
     (if length data < 4
      then read_ncount_inner (copy_into (replicate 8 0) 0 data) max_symbol (length data)
      else read_ncount_inner data max_symbol (length data))"

section \<open>Building tables\<close>

text \<open>Phase 1: symbols of probability "less than 1" go to the high end of the table.\<close>

definition place_low :: "int list \<Rightarrow> nat \<Rightarrow> nat list \<times> nat \<times> nat list \<Rightarrow> nat list \<times> nat \<times> nat list" where
  "place_low normalized s st =
     (case st of (symbols, high_threshold, symbol_next) \<Rightarrow>
        if normalized ! s = - 1
        then (symbols[high_threshold := s], (high_threshold + (2 ^ 64 - 1)) mod 2 ^ 64, symbol_next[s := 1])
        else (symbols, high_threshold, symbol_next[s := nat (normalized ! s)]))"

text \<open>
  Phase 2: the other symbols are spread with a fixed step. The inner loop goes on while the slot is
  above the threshold; the step is odd, so it finds a free slot within one turn of the table.
\<close>

fun next_position :: "nat \<Rightarrow> nat \<Rightarrow> nat \<Rightarrow> nat \<Rightarrow> nat \<Rightarrow> nat" where
  "next_position 0 table_size step high_threshold position = position"
| "next_position (Suc fuel) table_size step high_threshold position =
     (if wrap32 high_threshold < position
      then next_position fuel table_size step high_threshold ((position + step) mod table_size)
      else position)"

primrec spread_symbol :: "nat \<Rightarrow> nat \<Rightarrow> nat \<Rightarrow> nat \<Rightarrow> nat \<Rightarrow> nat list \<times> nat \<Rightarrow> nat list \<times> nat" where
  "spread_symbol table_size step high_threshold s 0 st = st"
| "spread_symbol table_size step high_threshold s (Suc count) st =
     (case st of (symbols, position) \<Rightarrow>
        spread_symbol table_size step high_threshold s count
          (symbols[position := s],
           next_position table_size table_size step high_threshold ((position + step) mod table_size)))"

definition spread_all :: "nat \<Rightarrow> nat \<Rightarrow> nat \<Rightarrow> int list \<Rightarrow> nat list \<times> nat \<Rightarrow> nat list \<times> nat" where
  "spread_all table_size step high_threshold counts st =
     fold (\<lambda>(s, count) st. spread_symbol table_size step high_threshold s (nat (max count 0)) st) (enumerate 0 counts) st"

text \<open>Phase 3: the transitions of an entry, with the number of times its symbol has occurred.\<close>

definition look_up :: "nat list option \<Rightarrow> nat \<Rightarrow> nat" where
  "look_up values symbol = (case values of None \<Rightarrow> 0 | Some v \<Rightarrow> if symbol < length v then v ! symbol else 0)"

definition fse_transition :: "nat \<Rightarrow> nat list option \<Rightarrow> nat list option \<Rightarrow> nat list \<Rightarrow> nat \<Rightarrow> fse_entry" where
  "fse_transition table_log base_values nb_add_bits symbol_next symbol =
     (let next_state = symbol_next ! symbol;
          nb_bits = table_log - highest_bit next_state
      in \<lparr>fe_symbol = symbol, fe_nb_bits = nb_bits, fe_next_state = next_state * 2 ^ nb_bits - 2 ^ table_log,
          fe_nb_additional_bits = look_up nb_add_bits symbol, fe_base_value = look_up base_values symbol\<rparr>)"

primrec fse_transitions :: "nat \<Rightarrow> nat list option \<Rightarrow> nat list option \<Rightarrow> nat list \<Rightarrow> nat list \<Rightarrow> fse_entry list" where
  "fse_transitions table_log base_values nb_add_bits symbol_next [] = []"
| "fse_transitions table_log base_values nb_add_bits symbol_next (symbol # symbols) =
     fse_transition table_log base_values nb_add_bits symbol_next symbol #
     fse_transitions table_log base_values nb_add_bits (symbol_next[symbol := Suc (symbol_next ! symbol)]) symbols"

definition build_fse_table ::
  "int list \<Rightarrow> nat \<Rightarrow> nat \<Rightarrow> nat list option \<Rightarrow> nat list option \<Rightarrow> string + fse_table" where
  "build_fse_table normalized max_symbol table_log base_values nb_add_bits =
     (let table_size = 2 ^ table_log;
          max_sv1 = max_symbol + 1;
          (symbols, high_threshold, symbol_next) =
            fold (place_low normalized) [0..<max_sv1] (replicate table_size 0, table_size - 1, replicate max_sv1 0);
          step = table_size div 2 + table_size div 8 + 3;
          (symbols, position) = spread_all table_size step high_threshold (take max_sv1 normalized) (symbols, 0)
      in if position \<noteq> 0 then Inl ''FSE table building error: position should reach 0''
         else Inr (fse_table_new table_log (fse_transitions table_log base_values nb_add_bits symbol_next symbols)))"

definition build_rle_fse_table :: "nat \<Rightarrow> nat list option \<Rightarrow> nat list option \<Rightarrow> fse_table" where
  "build_rle_fse_table symbol base_values nb_add_bits =
     fse_table_new 0
       [\<lparr>fe_symbol = symbol, fe_nb_bits = 0, fe_next_state = 0, fe_nb_additional_bits = look_up nb_add_bits symbol,
         fe_base_value = look_up base_values symbol\<rparr>]"

section \<open>The predefined tables\<close>

definition LL_BASE :: "nat list" where
  "LL_BASE =
     [0, 1, 2, 3, 4, 5, 6, 7, 8, 9, 10, 11, 12, 13, 14, 15, 16, 18, 20, 22, 24, 28, 32, 40, 48, 64,
      128, 256, 512, 1024, 2048, 4096, 8192, 16384, 32768, 65536]"

definition LL_BITS :: "nat list" where
  "LL_BITS =
     [0, 0, 0, 0, 0, 0, 0, 0, 0, 0, 0, 0, 0, 0, 0, 0, 1, 1, 1, 1, 2, 2, 3, 3, 4, 6, 7, 8, 9, 10, 11,
      12, 13, 14, 15, 16]"

definition ML_BASE :: "nat list" where
  "ML_BASE =
     [3, 4, 5, 6, 7, 8, 9, 10, 11, 12, 13, 14, 15, 16, 17, 18, 19, 20, 21, 22, 23, 24, 25, 26, 27,
      28, 29, 30, 31, 32, 33, 34, 35, 37, 39, 41, 43, 47, 51, 59, 67, 83, 99, 131, 259, 515, 1027,
      2051, 4099, 8195, 16387, 32771, 65539]"

definition ML_BITS :: "nat list" where
  "ML_BITS =
     [0, 0, 0, 0, 0, 0, 0, 0, 0, 0, 0, 0, 0, 0, 0, 0, 0, 0, 0, 0, 0, 0, 0, 0, 0, 0, 0, 0, 0, 0, 0, 0,
      1, 1, 1, 1, 2, 2, 3, 3, 4, 4, 5, 7, 8, 9, 10, 11, 12, 13, 14, 15, 16]"

definition OF_BASE :: "nat list" where
  "OF_BASE =
     [0, 1, 1, 5, 0xD, 0x1D, 0x3D, 0x7D, 0xFD, 0x1FD, 0x3FD, 0x7FD, 0xFFD, 0x1FFD, 0x3FFD, 0x7FFD,
      0xFFFD, 0x1FFFD, 0x3FFFD, 0x7FFFD, 0xFFFFD, 0x1FFFFD, 0x3FFFFD, 0x7FFFFD, 0xFFFFFD, 0x1FFFFFD,
      0x3FFFFFD, 0x7FFFFFD, 0xFFFFFFD, 0x1FFFFFFD, 0x3FFFFFFD, 0x7FFFFFFD]"

definition OF_BITS :: "nat list" where
  "OF_BITS =
     [0, 1, 2, 3, 4, 5, 6, 7, 8, 9, 10, 11, 12, 13, 14, 15, 16, 17, 18, 19, 20, 21, 22, 23, 24, 25,
      26, 27, 28, 29, 30, 31]"

definition LL_DEFAULT_NORM :: "int list" where
  "LL_DEFAULT_NORM =
     [4, 3, 2, 2, 2, 2, 2, 2, 2, 2, 2, 2, 2, 1, 1, 1, 2, 2, 2, 2, 2, 2, 2, 2, 2, 3, 2, 1, 1, 1, 1, 1,
      - 1, - 1, - 1, - 1]"

definition LL_DEFAULT_LOG :: nat where "LL_DEFAULT_LOG = 6"

definition ML_DEFAULT_NORM :: "int list" where
  "ML_DEFAULT_NORM =
     [1, 4, 3, 2, 2, 2, 2, 2, 2, 1, 1, 1, 1, 1, 1, 1, 1, 1, 1, 1, 1, 1, 1, 1, 1, 1, 1, 1, 1, 1, 1, 1,
      1, 1, 1, 1, 1, 1, 1, 1, 1, 1, 1, 1, 1, 1, - 1, - 1, - 1, - 1, - 1, - 1, - 1]"

definition ML_DEFAULT_LOG :: nat where "ML_DEFAULT_LOG = 6"

definition OF_DEFAULT_NORM :: "int list" where
  "OF_DEFAULT_NORM =
     [1, 1, 1, 1, 1, 1, 2, 2, 2, 1, 1, 1, 1, 1, 1, 1, 1, 1, 1, 1, 1, 1, 1, 1, - 1, - 1, - 1, - 1, - 1]"

definition OF_DEFAULT_LOG :: nat where "OF_DEFAULT_LOG = 5"

definition expect_table :: "string + fse_table \<Rightarrow> fse_table" where
  "expect_table r = (case r of Inr t \<Rightarrow> t | Inl _ \<Rightarrow> fse_table_new 0 [])"

definition build_default_ll_table :: fse_table where
  "build_default_ll_table =
     expect_table (build_fse_table LL_DEFAULT_NORM MAX_LL LL_DEFAULT_LOG (Some LL_BASE) (Some LL_BITS))"

definition build_default_ml_table :: fse_table where
  "build_default_ml_table =
     expect_table (build_fse_table ML_DEFAULT_NORM MAX_ML ML_DEFAULT_LOG (Some ML_BASE) (Some ML_BITS))"

definition build_default_of_table :: fse_table where
  "build_default_of_table =
     expect_table (build_fse_table OF_DEFAULT_NORM (length OF_DEFAULT_NORM - 1) OF_DEFAULT_LOG (Some OF_BASE) (Some OF_BITS))"

end
