(* ===== verification/ZHuffman.thy ===== *)
theory ZHuffman
  imports ZFse
begin

text \<open>
  \<^verbatim>\<open>src/compress/zstd_dec/huffman.rs\<close>: reading a Huffman table and decoding literals with it, from one
  stream or from four interleaved ones. The loop over FSE-coded weights need not end, so what reads a
  table is an option: \<open>None\<close> is a call that does not return.
\<close>

section \<open>Tables\<close>

definition HUF_TABLE_LOG_MAX :: nat where
  "HUF_TABLE_LOG_MAX = 12"

definition HUF_LOOKUP_SIZE :: nat where
  "HUF_LOOKUP_SIZE = 2 ^ HUF_TABLE_LOG_MAX"

record huf_entry =
  he_symbol :: nat
  he_nb_bits :: nat

record huffman_table =
  ht_entries :: "huf_entry list"
  ht_table_log :: nat
  ht_lookup :: "u16 list"
  ht_valid :: bool

definition huf_is_valid :: "huf_entry list \<Rightarrow> nat \<Rightarrow> bool" where
  "huf_is_valid entries tlog \<longleftrightarrow>
     1 \<le> tlog \<and> tlog \<le> HUF_TABLE_LOG_MAX \<and> 2 ^ tlog \<le> length entries \<and>
     list_all (\<lambda>e. 1 \<le> he_nb_bits e \<and> he_nb_bits e \<le> tlog) (take (2 ^ tlog) entries)"

definition huf_slot :: "huf_entry \<Rightarrow> u16" where
  "huf_slot e = of_nat (he_nb_bits e) OR push_bit 8 (of_nat (he_symbol e))"

definition huffman_table_new :: "huf_entry list \<Rightarrow> nat \<Rightarrow> huffman_table" where
  "huffman_table_new entries table_log =
     (let valid = huf_is_valid entries table_log in
      \<lparr>ht_entries = entries, ht_table_log = table_log,
       ht_lookup =
         (if valid
          then map (\<lambda>i. huf_slot (entries ! drop_bit (HUF_TABLE_LOG_MAX - table_log) i)) [0..<HUF_LOOKUP_SIZE]
          else replicate HUF_LOOKUP_SIZE 0),
       ht_valid = valid\<rparr>)"

definition huf_lookup :: "u16 list \<Rightarrow> u64 \<Rightarrow> byte \<times> nat" where
  "huf_lookup lookup cache =
     (let e = lookup ! unat (drop_bit (64 - HUF_TABLE_LOG_MAX) cache) in (u8 (drop_bit 8 e), unat (e AND 0x3F)))"

section \<open>Weights\<close>

text \<open>The two interleaved states, until a read goes past the end of the stream.\<close>

partial_function (option) fse_weights_loop ::
  "fse_table \<Rightarrow> backward_reader \<Rightarrow> nat \<Rightarrow> nat \<Rightarrow> nat list \<Rightarrow> nat list option" where
  "fse_weights_loop table reader state1 state2 out =
     (let entry1 = fse_decode table state1;
          out = out @ [fe_symbol entry1];
          (reader, new_bits1) = backward_read_padded reader (fe_nb_bits entry1);
          state1 = fe_next_state entry1 + new_bits1
      in if backward_overflowed reader then Some (out @ [fe_symbol (fse_decode table state2)])
         else
           let entry2 = fse_decode table state2;
               out = out @ [fe_symbol entry2];
               (reader, new_bits2) = backward_read_padded reader (fe_nb_bits entry2);
               state2 = fe_next_state entry2 + new_bits2
           in if backward_overflowed reader then Some (out @ [fe_symbol (fse_decode table state1)])
              else fse_weights_loop table reader state1 state2 out)"

definition decompress_fse_weights :: "fse_table \<Rightarrow> bytes \<Rightarrow> (string + nat list) option" where
  "decompress_fse_weights table data =
     (if data = [] then Some (Inl ''empty FSE compressed data'')
      else
        case and_then (backward_new data) (\<lambda>reader.
               and_then (map_err (\<lambda>_. ''FSE bit read overflow'') (backward_read reader (ft_table_log table))) (\<lambda>(reader, state1).
                 and_then (map_err (\<lambda>_. ''FSE bit read overflow'') (backward_read reader (ft_table_log table))) (\<lambda>(reader, state2).
                   Inr (reader, state1, state2)))) of
          Inl e \<Rightarrow> Some (Inl e)
        | Inr (reader, state1, state2) \<Rightarrow> map_option Inr (fse_weights_loop table reader state1 state2 []))"

definition HUF_WEIGHT_FSE_MAX_LOG :: nat where
  "HUF_WEIGHT_FSE_MAX_LOG = 6"

definition decompress_huffman_weights_fse :: "bytes \<Rightarrow> (string + nat list) option" where
  "decompress_huffman_weights_fse data =
     (if data = [] then Some (Inl ''empty FSE data for huffman weights'')
      else
        case and_then (read_ncount data 12) (\<lambda>(norm, actual_max, table_log, header_size).
               if HUF_WEIGHT_FSE_MAX_LOG < table_log then Inl ''Huffman weight FSE table log {} exceeds max {}''
               else and_then (build_fse_table norm actual_max table_log None None) (\<lambda>fse_table.
                 let compressed = drop header_size data in
                 if compressed = [] then Inl ''no compressed data after FSE header''
                 else Inr (fse_table, compressed))) of
          Inl e \<Rightarrow> Some (Inl e)
        | Inr (fse_table, compressed) \<Rightarrow> decompress_fse_weights fse_table compressed)"

text \<open>Weights packed four bits each.\<close>

definition direct_weights :: "bytes \<Rightarrow> nat \<Rightarrow> nat list" where
  "direct_weights data num_weights =
     map (\<lambda>i. let b = data ! (1 + i div 2) in unat (if even i then drop_bit 4 b else b AND 0x0F)) [0..<num_weights]"

section \<open>Reading a table\<close>

definition weight_sum :: "nat list \<Rightarrow> nat" where
  "weight_sum weights = sum_list (map (\<lambda>w. 2 ^ w div 2) weights)"

text \<open>The start of each weight's entries, in order of weight.\<close>

primrec rank_starts :: "nat list \<Rightarrow> nat \<Rightarrow> nat \<Rightarrow> string + nat list" where
  "rank_starts rank_count table_size 0 = Inr [0]"
| "rank_starts rank_count table_size (Suc n) =
     and_then (rank_starts rank_count table_size n) (\<lambda>starts.
       let next = (if n = 0 then 0 else last starts + rank_count ! n * 2 ^ (n - 1)) in
       if table_size < next + rank_count ! Suc n * 2 ^ n then Inl ''Huffman table construction overflow''
       else Inr (starts @ [next]))"

text \<open>The entries of one symbol.\<close>

definition fill_symbol :: "nat \<Rightarrow> huf_entry list \<times> nat list \<Rightarrow> nat \<times> nat \<Rightarrow> huf_entry list \<times> nat list" where
  "fill_symbol table_log st sw =
     (case (st, sw) of ((entries, rank_start), (symbol, w)) \<Rightarrow>
        if w = 0 then (entries, rank_start)
        else
          let num_entries = 2 ^ (w - 1); start = rank_start ! w in
          (map (\<lambda>i. if start \<le> i \<and> i < start + num_entries then \<lparr>he_symbol = symbol mod 256, he_nb_bits = table_log + 1 - w\<rparr> else entries ! i)
             [0..<length entries],
           rank_start[w := start + num_entries]))"

text \<open>The table for the weights that were read; the last symbol's weight follows from the others.\<close>

definition table_of_weights :: "nat list \<Rightarrow> string + huffman_table" where
  "table_of_weights weights =
     (if weights = [] then Inl ''no Huffman symbols''
      else if \<not> list_all (\<lambda>w. w \<le> HUF_TABLE_LOG_MAX) weights then Inl ''Huffman weight exceeds max''
      else let weight_total = weight_sum weights in
      if weight_total = 0 then Inl ''Huffman weight total is 0''
      else let table_log = highest_bit weight_total + 1 in
      if HUF_TABLE_LOG_MAX < table_log then Inl ''Huffman table log exceeds max''
      else let rest = 2 ^ table_log - weight_total in
      if rest AND (rest - 1) \<noteq> 0 then Inl ''Huffman rest is not a power of 2''
      else
        let all_weights = weights @ [highest_bit rest + 1];
            table_size = 2 ^ table_log;
            rank_count = map (\<lambda>w. length (filter (\<lambda>x. x = w) all_weights)) [0..<table_log + 2]
        in if length all_weights \<le> 1
           then Inr (huffman_table_new (replicate table_size \<lparr>he_symbol = 0, he_nb_bits = 1\<rparr>) table_log)
           else and_then (rank_starts rank_count table_size table_log) (\<lambda>rank_start.
             let (entries, rank_start) =
                   foldl (fill_symbol table_log) (replicate table_size \<lparr>he_symbol = 0, he_nb_bits = 0\<rparr>, rank_start)
                     (enumerate 0 all_weights)
             in Inr (huffman_table_new entries table_log)))"

definition read_huffman_table :: "bytes \<Rightarrow> (string + (huffman_table \<times> nat)) option" where
  "read_huffman_table data =
     (if data = [] then Some (Inl ''empty huffman table data'')
      else
        let header_byte = unat (data ! 0) in
        if 128 \<le> header_byte then
          let num_weights = header_byte - 127; num_bytes = (num_weights + 1) div 2 in
          if length data < 1 + num_bytes then Some (Inl ''huffman table header extends past data'')
          else Some (and_then (table_of_weights (direct_weights data num_weights)) (\<lambda>t. Inr (t, 1 + num_bytes)))
        else if length data < 1 + header_byte then Some (Inl ''huffman FSE compressed header extends past data'')
        else map_option (\<lambda>r. and_then r (\<lambda>weights. and_then (table_of_weights weights) (\<lambda>t. Inr (t, 1 + header_byte))))
               (decompress_huffman_weights_fse (subslice 1 (1 + header_byte) data)))"

section \<open>Decoding a stream\<close>

definition init_stream_bits :: "bytes \<Rightarrow> string + nat" where
  "init_stream_bits src = and_then (map_err (\<lambda>_. ''last byte is 0 in huffman stream'') (backward_new src)) (\<lambda>r. Inr (bits_remaining r))"

text \<open>
  The state of a stream: unread bits, the output, and how much of it is written. The inner loop works on
  a cache; the flag says that the outer loop is left too.
\<close>

function tail_inner ::
  "u16 list \<Rightarrow> nat \<Rightarrow> nat \<Rightarrow> u64 \<Rightarrow> nat \<Rightarrow> nat \<times> bytes \<times> nat \<Rightarrow> (nat \<times> bytes \<times> nat) \<times> bool" where
  "tail_inner lookup tlog end cache cbits (remaining, out, decoded) =
     (let (symbol, nb) = huf_lookup lookup cache in
      if remaining < nb then ((remaining, out, decoded), True)
      else
        let out = out[decoded := symbol];
            decoded = decoded + 1;
            cache = push_bit nb cache;
            cbits = cbits - nb;
            remaining = remaining - nb
        in if end \<le> decoded then ((remaining, out, decoded), True)
           else if cbits < tlog \<and> cbits < remaining then ((remaining, out, decoded), False)
           else tail_inner lookup tlog end cache cbits (remaining, out, decoded))"
  by pat_completeness auto
termination by (relation "measure (\<lambda>(lookup, tlog, end, cache, cbits, (remaining, out, decoded)). end - decoded)") auto

declare tail_inner.simps [simp del]

lemma tail_inner_grows:
  "tail_inner lookup tlog end cache cbits (remaining, out, decoded) = ((remaining', out', decoded'), False) \<Longrightarrow>
   decoded < decoded' \<and> decoded' < end"
proof (induction "end - decoded" arbitrary: cache cbits remaining out decoded rule: less_induct)
  case less
  obtain symbol nb where l: "huf_lookup lookup cache = (symbol, nb)" by (metis surj_pair)
  show ?case
  proof (cases "remaining < nb \<or> end \<le> decoded + 1 \<or> (cbits - nb < tlog \<and> cbits - nb < remaining - nb)")
    case True
    then show ?thesis using less.prems l by (subst (asm) tail_inner.simps) (auto simp: Let_def split: if_splits)
  next
    case False
    then have "tail_inner lookup tlog end (push_bit nb cache) (cbits - nb) (remaining - nb, out[decoded := symbol], decoded + 1) =
        ((remaining', out', decoded'), False)"
      using less.prems l by (subst (asm) tail_inner.simps) (auto simp: Let_def split: if_splits)
    moreover have "decoded + 1 < end" using False by simp
    then have "end - (decoded + 1) < end - decoded" by linarith
    ultimately have "decoded + 1 < decoded' \<and> decoded' < end" by (rule less.hyps [rotated])
    then show ?thesis by simp
  qed
qed

function decode_stream_tail :: "u16 list \<Rightarrow> nat \<Rightarrow> bytes \<Rightarrow> nat \<Rightarrow> nat \<times> bytes \<times> nat \<Rightarrow> nat \<times> bytes \<times> nat" where
  "decode_stream_tail lookup tlog src end (remaining, out, decoded) =
     (if decoded < end \<and> 0 < remaining then
        let avail = min remaining 56;
            bits = extract_bits src (remaining - avail) avail;
            cache = push_bit (64 - avail) (of_nat bits)
        in case tail_inner lookup tlog end cache avail (remaining, out, decoded) of
             (st, left) \<Rightarrow> if left then st else decode_stream_tail lookup tlog src end st
      else (remaining, out, decoded))"
  by pat_completeness auto
termination
  by (relation "measure (\<lambda>(lookup, tlog, src, end, (remaining, out, decoded)). end - decoded)")
    (auto dest!: tail_inner_grows [OF sym])

declare decode_stream_tail.simps [simp del]

definition decompress_huffman_1stream :: "huffman_table \<Rightarrow> bytes \<Rightarrow> bytes \<Rightarrow> string + bytes" where
  "decompress_huffman_1stream table src out =
     (if src = [] then (if out = [] then Inr out else Inl ''empty source for huffman 1-stream'')
      else and_then (init_stream_bits src) (\<lambda>remaining.
        if \<not> ht_valid table then Inl ''invalid huffman table''
        else case decode_stream_tail (ht_lookup table) (ht_table_log table) src (length out) (remaining, out, 0) of
          (_, out', decoded) \<Rightarrow>
            if decoded \<noteq> length out then Inl ''huffman 1-stream: decoded {} bytes, expected {}'' else Inr out'))"

section \<open>Four streams\<close>

text \<open>A little-endian 64-bit word as bytes.\<close>

definition to_le64 :: "u64 \<Rightarrow> bytes" where
  "to_le64 x = map (\<lambda>i. u8 (drop_bit (8 * i) x)) [0..<8]"

text \<open>A round reads \<open>K\<close> symbols from every stream, one symbol of each at a time.\<close>

definition fast_symbol :: "u16 list \<Rightarrow> nat \<Rightarrow> (u64 \<times> u64 \<times> nat) list \<Rightarrow> (u64 \<times> u64 \<times> nat) list" where
  "fast_symbol lookup k =
     map (\<lambda>(cache, word, used). case huf_lookup lookup cache of
       (symbol, nb) \<Rightarrow> (push_bit nb cache, word OR push_bit (8 * k) (ucast symbol), used + nb))"

definition fast_round ::
  "nat \<Rightarrow> u16 list \<Rightarrow> bytes list \<Rightarrow> nat list \<times> nat list \<times> bytes \<Rightarrow> nat list \<times> nat list \<times> bytes" where
  "fast_round K lookup srcs st =
     (case st of (rems, poss, out) \<Rightarrow>
        let caches = map (\<lambda>i. (push_bit 8 (of_nat (extract_bits (srcs ! i) (rems ! i - 56) 56)), 0, 0)) [0..<4];
            regs = fold (fast_symbol lookup) [0..<K] caches;
            out = fold (\<lambda>i out. copy_into out (poss ! i) (take K (to_le64 (fst (snd (regs ! i)))))) [0..<4] out
        in (map (\<lambda>i. rems ! i - snd (snd (regs ! i))) [0..<4], map (\<lambda>p. p + K) poss, out))"

definition fast_rounds :: "nat \<Rightarrow> nat \<Rightarrow> nat list \<Rightarrow> nat list \<Rightarrow> nat list \<Rightarrow> nat" where
  "fast_rounds K tlog ends rems poss =
     Min (set (map (\<lambda>i. min (if 56 \<le> rems ! i then (rems ! i - 56) div (K * tlog) + 1 else 0) ((ends ! i - poss ! i) div K)) [0..<4]))"

lemma fast_round_poss: "fst (snd ((fast_round K lookup srcs ^^ n) (rems, poss, out))) = map (\<lambda>p. p + n * K) poss"
proof (induction n)
  case (Suc n)
  then show ?case by (auto simp: fast_round_def Let_def split: prod.splits)
qed simp

function decode_4streams_fast ::
  "nat \<Rightarrow> u16 list \<Rightarrow> nat \<Rightarrow> bytes list \<Rightarrow> nat list \<Rightarrow> nat list \<times> nat list \<times> bytes \<Rightarrow> nat list \<times> nat list \<times> bytes" where
  "decode_4streams_fast K lookup tlog srcs ends (rems, poss, out) =
     (let rounds = fast_rounds K tlog ends rems poss in
      if rounds = 0 \<or> poss = [] then (rems, poss, out)
      else decode_4streams_fast K lookup tlog srcs ends ((fast_round K lookup srcs ^^ rounds) (rems, poss, out)))"
  by pat_completeness auto
termination
proof (relation "measure (\<lambda>(K, lookup, tlog, srcs, ends, (rems, poss, out)). ends ! 0 - poss ! 0)")
  fix K :: nat and lookup :: "u16 list" and tlog :: nat and srcs :: "bytes list" and ends rems poss :: "nat list" and out :: bytes and rounds
  assume r: "rounds = fast_rounds K tlog ends rems poss" "\<not> (rounds = 0 \<or> poss = [])"
  obtain rems' poss' out' where s: "(fast_round K lookup srcs ^^ rounds) (rems, poss, out) = (rems', poss', out')" by (metis surj_pair)
  have p: "poss' ! 0 = poss ! 0 + rounds * K" using fast_round_poss [of rounds K lookup srcs rems poss out] s r(2) by auto
  have "rounds \<le> min (if 56 \<le> rems ! 0 then (rems ! 0 - 56) div (K * tlog) + 1 else 0) ((ends ! 0 - poss ! 0) div K)"
    unfolding r(1) fast_rounds_def by (rule Min_le) simp_all
  then have "rounds \<le> (ends ! 0 - poss ! 0) div K" by simp
  then have "rounds * K \<le> ends ! 0 - poss ! 0" by (metis div_times_less_eq_dividend le_trans mult_le_mono1)
  moreover have "0 < K" using \<open>rounds \<le> (ends ! 0 - poss ! 0) div K\<close> r(2) by (auto intro: gr0I)
  then have "0 < rounds * K" using r(2) by simp
  ultimately have "ends ! 0 - (poss ! 0 + rounds * K) < ends ! 0 - poss ! 0" by linarith
  then show "((K, lookup, tlog, srcs, ends, (fast_round K lookup srcs ^^ rounds) (rems, poss, out)), (K, lookup, tlog, srcs, ends, rems, poss, out))
      \<in> measure (\<lambda>(K, lookup, tlog, srcs, ends, (rems, poss, out)). ends ! 0 - poss ! 0)"
    using s p by simp
qed simp

declare decode_4streams_fast.simps [simp del]

text \<open>What the fast path leaves, stream by stream.\<close>

primrec finish_streams ::
  "huffman_table \<Rightarrow> bytes list \<Rightarrow> nat list \<Rightarrow> nat list \<Rightarrow> nat list \<Rightarrow> nat list \<Rightarrow> bytes \<Rightarrow> string + bytes" where
  "finish_streams table srcs ends rems poss [] out = Inr out"
| "finish_streams table srcs ends rems poss (i # is) out =
     (case decode_stream_tail (ht_lookup table) (ht_table_log table) (srcs ! i) (ends ! i) (rems ! i, out, poss ! i) of
        (_, out, decoded) \<Rightarrow>
          if decoded \<noteq> ends ! i then Inl ''huffman 4-stream: stream {} decoded {} bytes, expected {}''
          else finish_streams table srcs ends rems poss is out)"

definition le16 :: "byte \<Rightarrow> byte \<Rightarrow> nat" where
  "le16 a b = unat a + 256 * unat b"

definition decompress_huffman_4streams :: "huffman_table \<Rightarrow> bytes \<Rightarrow> bytes \<Rightarrow> string + bytes" where
  "decompress_huffman_4streams table src out =
     (if length src < 6 then Inl ''huffman 4-stream source too small for jump table''
      else
        let regen_size = length out;
            stream1_start = 6;
            stream2_start = stream1_start + le16 (src ! 0) (src ! 1);
            stream3_start = stream2_start + le16 (src ! 2) (src ! 3);
            stream4_start = stream3_start + le16 (src ! 4) (src ! 5)
        in if length src < stream4_start then Inl ''huffman 4-stream sizes exceed source''
        else
        let srcs = [subslice stream1_start stream2_start src, subslice stream2_start stream3_start src,
                    subslice stream3_start stream4_start src, drop stream4_start src];
            seg_size = (regen_size + 3) div 4;
            regen1 = min seg_size regen_size;
            regen2 = min seg_size (regen_size - seg_size);
            regen3 = min seg_size (regen_size - 2 * seg_size)
        in if \<not> ht_valid table then Inl ''invalid huffman table''
        else if regen_size = 0 then Inr out
        else if list_ex (\<lambda>s. s = []) srcs then Inl ''empty source for huffman 4-stream''
        else and_then (init_stream_bits (srcs ! 0)) (\<lambda>r0.
             and_then (init_stream_bits (srcs ! 1)) (\<lambda>r1.
             and_then (init_stream_bits (srcs ! 2)) (\<lambda>r2.
             and_then (init_stream_bits (srcs ! 3)) (\<lambda>r3.
          let starts = [0, regen1, regen1 + regen2, regen1 + regen2 + regen3];
              ends = [regen1, regen1 + regen2, regen1 + regen2 + regen3, regen_size];
              tlog = ht_table_log table
          in case decode_4streams_fast (if tlog \<le> 11 then 5 else 4) (ht_lookup table) tlog srcs ends ([r0, r1, r2, r3], starts, out) of
               (rems, poss, out) \<Rightarrow> finish_streams table srcs ends rems poss [0..<4] out)))))"

end
