(* ===== verification/ZFseFacts.thy ===== *)
theory ZFseFacts
  imports ZFse
begin

text \<open>
  FSE tables are sound: whatever counts a description gives, the table that is built from it holds each
  symbol as often as its count says, and its transitions stay inside the table and can be inverted. From
  this follows for which descriptions the decoding of Huffman weights returns.
\<close>

section \<open>The highest bit\<close>

lemma highest_bit_bounds: "0 < x \<Longrightarrow> 2 ^ highest_bit x \<le> x \<and> x < 2 ^ (highest_bit x + 1)"
proof (induction x rule: highest_bit.induct)
  case (1 x)
  show ?case
  proof (cases "x < 2")
    case True
    then show ?thesis using 1 by (subst (1 2) highest_bit.simps) auto
  next
    case False
    then have "2 ^ highest_bit (x div 2) \<le> x div 2 \<and> x div 2 < 2 ^ (highest_bit (x div 2) + 1)" using 1 by auto
    moreover have "highest_bit x = Suc (highest_bit (x div 2))" using False by (subst highest_bit.simps) simp
    ultimately show ?thesis by auto
  qed
qed

lemma highest_bit_unique:
  assumes "2 ^ k \<le> x" "x < 2 ^ (k + 1)"
  shows "highest_bit x = k"
proof -
  have "0 < x" using assms(1) by (auto intro: gr0I)
  note b = highest_bit_bounds [OF this]
  have "2 ^ k < (2::nat) ^ (highest_bit x + 1)" "2 ^ highest_bit x < (2::nat) ^ (k + 1)" using assms b by linarith+
  then have "k < highest_bit x + 1" "highest_bit x < k + 1" by (simp_all only: power_strict_increasing_iff one_less_numeral_iff semiring_norm)
  then show ?thesis by simp
qed

section \<open>Counts\<close>

text \<open>What a count takes of the table.\<close>

definition weight_of :: "int \<Rightarrow> nat" where
  "weight_of c = nat \<bar>c\<bar>"

definition counts_ok :: "int list \<Rightarrow> nat \<Rightarrow> bool" where
  "counts_ok counts table_log \<longleftrightarrow> (\<forall>c \<in> set counts. - 1 \<le> c) \<and> sum_list (map weight_of counts) = 2 ^ table_log"

lemma sum_weights_update:
  assumes "i < length xs" "xs ! i = 0"
  shows "sum_list (map weight_of (xs[i := c])) = sum_list (map weight_of xs) + weight_of c"
  using assms by (simp add: map_update sum_list_update weight_of_def)

text \<open>The invariant of the reading loop: what is counted and what remains make up the table.\<close>

definition ncount_inv :: "nat \<Rightarrow> nat \<Rightarrow> ncount \<Rightarrow> bool" where
  "ncount_inv m table_log s \<longleftrightarrow>
     length (nc_normalized s) = m \<and> (\<forall>c \<in> set (nc_normalized s). - 1 \<le> c) \<and>
     (\<forall>i. nc_charnum s \<le> i \<and> i < m \<longrightarrow> nc_normalized s ! i = 0) \<and>
     int (sum_list (map weight_of (nc_normalized s))) + nc_remaining s = 2 ^ table_log + 1"

definition ncount_live :: "nat \<Rightarrow> nat \<Rightarrow> ncount \<Rightarrow> bool" where
  "ncount_live m table_log s \<longleftrightarrow>
     ncount_inv m table_log s \<and> nc_charnum s < m \<and> 1 < nc_remaining s \<and> nc_threshold s \<le> nc_remaining s"

lemma read_count_nonneg:
  assumes "read_count s = Inr (r, count)" "nc_threshold s \<le> nc_remaining s"
  shows "0 \<le> count"
  using assms unfolding read_count_def
  by (auto simp: and_then_Inr_iff Let_def split: if_splits prod.splits)

lemma put_count_inv:
  assumes "ncount_live m table_log s" "0 \<le> count"
  shows "ncount_inv m table_log (put_count m s r count)"
    and "1 < nc_remaining (put_count m s r count) \<Longrightarrow>
         nc_threshold (put_count m s r count) \<le> nc_remaining (put_count m s r count)"
    and "nc_charnum (put_count m s r count) = nc_charnum s + 1"
proof -
  let ?s = "put_count m s r count"
  have live: "ncount_inv m table_log s" "nc_charnum s < m" using assms(1) by (simp_all add: ncount_live_def)
  have norm: "nc_normalized ?s = (nc_normalized s)[nc_charnum s := count - 1]"
    using live(2) by (simp add: put_count_def Let_def)
  have rem: "nc_remaining ?s = nc_remaining s - int (weight_of (count - 1))"
    using assms(2) by (auto simp: put_count_def Let_def weight_of_def)
  show ch: "nc_charnum ?s = nc_charnum s + 1" by (simp add: put_count_def Let_def)
  have "nc_normalized s ! nc_charnum s = 0" "length (nc_normalized s) = m" using live by (auto simp: ncount_inv_def)
  then have "sum_list (map weight_of (nc_normalized ?s)) = sum_list (map weight_of (nc_normalized s)) + weight_of (count - 1)"
    unfolding norm using live(2) by (intro sum_weights_update) auto
  moreover have "\<forall>c \<in> set (nc_normalized ?s). - 1 \<le> c"
    using live assms(2) set_update_subset_insert [of "nc_normalized s" "nc_charnum s" "count - 1"]
    unfolding norm ncount_inv_def by fastforce
  ultimately show "ncount_inv m table_log ?s" using live unfolding ncount_inv_def ch rem norm by auto
  show "nc_threshold ?s \<le> nc_remaining ?s" if "1 < nc_remaining ?s"
  proof -
    have "0 < nat (nc_remaining ?s)" using that by simp
    then have "2 ^ highest_bit (nat (nc_remaining ?s)) \<le> nat (nc_remaining ?s)" using highest_bit_bounds by blast
    then have "2 ^ highest_bit (nat (nc_remaining ?s)) \<le> nc_remaining ?s" by (metis zero_less_nat_eq \<open>0 < nat (nc_remaining ?s)\<close> int_nat_eq less_imp_le of_nat_le_iff of_nat_numeral of_nat_power)
    then show ?thesis using that by (auto simp: put_count_def Let_def split: if_splits)
  qed
qed

lemma ncount_round_inv:
  assumes "ncount_round m s = Inr (s2, left)" "ncount_live m table_log s"
  shows "if left then ncount_inv m table_log s2 \<and> 0 < nc_charnum s2 \<and> (nc_remaining s2 = 1 \<longrightarrow> nc_charnum s2 \<le> m)
         else ncount_live m table_log s2"
proof -
  obtain s1 where s1: "(if nc_previous0 s then and_then (zero_run m (nc_reader s) (nc_charnum s)) (\<lambda>(reader, charnum).
      Inr (s\<lparr>nc_reader := reader, nc_charnum := charnum\<rparr>)) else Inr s) = Inr s1"
    and s2: "(if nc_previous0 s \<and> m \<le> nc_charnum s1 then Inr (s1, True)
       else and_then (read_count s1) (\<lambda>(reader, count).
         let s2 = put_count m s1 reader count in Inr (s2, nc_remaining s2 \<le> 1 \<or> m \<le> nc_charnum s2))) = Inr (s2, left)"
    using assms(1) unfolding ncount_round_def and_then_Inr_iff by blast
  have same: "nc_normalized s1 = nc_normalized s" "nc_remaining s1 = nc_remaining s" "nc_threshold s1 = nc_threshold s"
    "nc_charnum s \<le> nc_charnum s1" "\<not> nc_previous0 s \<Longrightarrow> s1 = s"
    using s1 by (auto simp: and_then_Inr_iff dest!: zero_run_grows split: if_splits)
  have inv1: "ncount_inv m table_log s1" using assms(2) same by (auto simp: ncount_live_def ncount_inv_def)
  show ?thesis
  proof (cases "nc_previous0 s \<and> m \<le> nc_charnum s1")
    case True
    then show ?thesis using s2 inv1 same assms(2) by (auto simp: ncount_live_def)
  next
    case False
    then have live1: "ncount_live m table_log s1" using inv1 same assms(2) by (auto simp: ncount_live_def)
    obtain r count where c: "read_count s1 = Inr (r, count)" "s2 = put_count m s1 r count"
      "left = (nc_remaining s2 \<le> 1 \<or> m \<le> nc_charnum s2)"
      using s2 False by (auto simp: and_then_Inr_iff Let_def)
    have "0 \<le> count" using read_count_nonneg [OF c(1)] live1 by (simp add: ncount_live_def)
    note put = put_count_inv [OF live1 this, of r, folded c(2)]
    show ?thesis using put c(3) live1 by (auto simp: ncount_live_def)
  qed
qed

lemma ncount_loop_inv:
  "ncount_loop m s = Inr s2 \<Longrightarrow> ncount_live m table_log s \<Longrightarrow>
   ncount_inv m table_log s2 \<and> 0 < nc_charnum s2 \<and> (nc_remaining s2 = 1 \<longrightarrow> nc_charnum s2 \<le> m)"
proof (induction m s rule: ncount_loop.induct)
  case (1 m s)
  obtain s1 left where r: "ncount_round m s = Inr (s1, left)" "(if left then Inr s1 else ncount_loop m s1) = Inr s2"
    using "1.prems"(1) by (subst (asm) ncount_loop.simps) (auto simp: and_then_Inr_iff)
  note inv = ncount_round_inv [OF r(1) "1.prems"(2)]
  show ?case
  proof (cases left)
    case True
    then show ?thesis using inv r(2) by auto
  next
    case False
    then show ?thesis using inv r "1.IH" [of "(s1, left)" s1 left] by auto
  qed
qed

lemma sum_list_take_zeros:
  fixes xs :: "int list"
  assumes "\<forall>i. n \<le> i \<and> i < length xs \<longrightarrow> xs ! i = 0"
  shows "sum_list (map weight_of (take n xs)) = sum_list (map weight_of xs)"
proof -
  have "\<forall>x \<in> set (drop n xs). x = 0" using assms by (auto simp: in_set_conv_nth)
  then have "sum_list (map weight_of (drop n xs)) = 0" by (auto simp: sum_list_eq_0_iff weight_of_def)
  moreover have "sum_list (map weight_of xs) = sum_list (map weight_of (take n xs)) + sum_list (map weight_of (drop n xs))"
    by (metis append_take_drop_id map_append sum_list_append)
  ultimately show ?thesis by simp
qed

text \<open>What a description that is accepted says.\<close>

lemma read_ncount_ok:
  assumes "read_ncount data max_symbol = Inr (counts, actual_max, table_log, used)"
  shows "counts_ok (take (actual_max + 1) counts) table_log" "actual_max \<le> max_symbol" "length counts = max_symbol + 1"
    "5 \<le> table_log" "table_log \<le> 9" "used \<le> length data"
proof -
  obtain padded where "read_ncount_inner padded max_symbol (length data) = Inr (counts, actual_max, table_log, used)"
    using assms by (auto simp: read_ncount_def split: if_splits)
  then obtain reader raw s where s: "table_log = raw + 5" "table_log \<le> 9"
    "ncount_loop (max_symbol + 1)
        \<lparr>nc_reader = reader, nc_normalized = replicate (max_symbol + 1) 0, nc_remaining = 2 ^ table_log + 1,
         nc_threshold = 2 ^ table_log, nc_nb_bits = table_log + 1, nc_charnum = 0, nc_previous0 = False\<rparr> = Inr s"
    "nc_remaining s = 1" "nc_charnum s \<le> max_symbol + 1" "used \<le> length data" "counts = nc_normalized s"
    "actual_max = nc_charnum s - 1"
    unfolding read_ncount_inner_def
    by (auto simp: and_then_Inr_iff Let_def FSE_MIN_TABLE_LOG_def MAX_FSE_LOG_def split: if_splits)
  have "ncount_live (max_symbol + 1) table_log
        \<lparr>nc_reader = reader, nc_normalized = replicate (max_symbol + 1) 0, nc_remaining = 2 ^ table_log + 1,
         nc_threshold = 2 ^ table_log, nc_nb_bits = table_log + 1, nc_charnum = 0, nc_previous0 = False\<rparr>"
    by (auto simp: ncount_live_def ncount_inv_def weight_of_def sum_list_replicate nth_append simp del: replicate_Suc)
  from ncount_loop_inv [OF s(3) this]
  have inv: "ncount_inv (max_symbol + 1) table_log s" "0 < nc_charnum s" by auto
  have "sum_list (map weight_of (take (nc_charnum s) counts)) = sum_list (map weight_of counts)"
    using inv s(7) by (intro sum_list_take_zeros) (auto simp: ncount_inv_def)
  moreover have "int (sum_list (map weight_of counts)) = 2 ^ table_log"
    using inv(1) s(4,7) by (simp add: ncount_inv_def)
  moreover have "nc_charnum s = actual_max + 1" using inv(2) s(8) by simp
  ultimately have "sum_list (map weight_of (take (actual_max + 1) counts)) = 2 ^ table_log"
    by (metis of_nat_eq_iff of_nat_numeral of_nat_power)
  moreover have "\<forall>c \<in> set (take (actual_max + 1) counts). - 1 \<le> c"
    using inv(1) s(7) by (auto simp: ncount_inv_def dest: in_set_takeD)
  ultimately show "counts_ok (take (actual_max + 1) counts) table_log" by (simp add: counts_ok_def)
  show "actual_max \<le> max_symbol" "length counts = max_symbol + 1" "5 \<le> table_log" "table_log \<le> 9" "used \<le> length data"
    using inv s by (auto simp: ncount_inv_def)
qed

section \<open>Placing the symbols\<close>

lemma count_list_card: "count_list xs s = card {p. p < length xs \<and> xs ! p = s}"
  by (simp add: count_list_eq_length_filter length_filter_conv_card eq_commute)

text \<open>The symbols of probability below 1 among the first \<open>k\<close>.\<close>

definition low_count :: "int list \<Rightarrow> nat \<Rightarrow> nat" where
  "low_count counts k = length (filter (\<lambda>c. c = - 1) (take k counts))"

lemma low_count_Suc: "k < length counts \<Longrightarrow> low_count counts (Suc k) = low_count counts k + (if counts ! k = - 1 then 1 else 0)"
  by (simp add: low_count_def take_Suc_conv_app_nth)

lemma sum_weights_low: "length (filter (\<lambda>c. c = - 1) xs) \<le> sum_list (map weight_of xs)"
  by (induction xs) (auto simp: weight_of_def)

lemma low_count_bound: "low_count counts k \<le> sum_list (map weight_of counts)"
proof -
  have "low_count counts k \<le> sum_list (map weight_of (take k counts))" unfolding low_count_def by (rule sum_weights_low)
  also have "\<dots> \<le> sum_list (map weight_of (take k counts)) + sum_list (map weight_of (drop k counts))" by simp
  also have "\<dots> = sum_list (map weight_of counts)" by (metis append_take_drop_id map_append sum_list_append)
  finally show ?thesis .
qed

definition high_of :: "nat \<Rightarrow> nat \<Rightarrow> nat" where
  "high_of table_size low = (if low < table_size then table_size - 1 - low else 2 ^ 64 - 1)"

definition low_inv :: "int list \<Rightarrow> nat \<Rightarrow> nat \<Rightarrow> nat list \<times> nat \<times> nat list \<Rightarrow> bool" where
  "low_inv counts table_size k st \<longleftrightarrow>
     (case st of (symbols, high, nexts) \<Rightarrow>
        length symbols = table_size \<and> high = high_of table_size (low_count counts k) \<and> length nexts = length counts \<and>
        (\<forall>s < k. nexts ! s = weight_of (counts ! s)) \<and>
        (\<forall>s. card {p. table_size - low_count counts k \<le> p \<and> p < table_size \<and> symbols ! p = s} =
             (if s < k \<and> counts ! s = - 1 then 1 else 0)) \<and>
        (\<forall>p. table_size - low_count counts k \<le> p \<and> p < table_size \<longrightarrow> symbols ! p < length counts))"

lemma place_low_inv:
  assumes "low_inv counts table_size k st" "k < length counts" "- 1 \<le> counts ! k" "counts = take m norm"
    and "sum_list (map weight_of counts) = table_size" "table_size \<le> 2 ^ 32"
  shows "low_inv counts table_size (Suc k) (place_low norm k st)"
proof -
  obtain symbols high nexts where st: "st = (symbols, high, nexts)" by (cases st)
  note inv = assms(1) [unfolded low_inv_def st prod.case]
  have nk: "norm ! k = counts ! k" using assms(2,4) by simp
  have len: "length symbols = table_size" "length nexts = length counts" using inv by auto
  show ?thesis
  proof (cases "counts ! k = - 1")
    case False
    then have "nat (norm ! k) = weight_of (counts ! k)" using assms(3) nk by (simp add: weight_of_def)
    then show ?thesis using False inv nk assms(2)
      by (simp add: low_inv_def place_low_def st low_count_Suc less_Suc_eq nth_list_update)
  next
    case True
    let ?l = "low_count counts k"
    have "low_count counts (Suc k) \<le> table_size" using low_count_bound [of counts] assms(5) by simp
    then have l: "?l < table_size" using low_count_Suc [OF assms(2)] True by simp
    then have high: "high = table_size - 1 - ?l" using inv by (simp add: high_of_def)
    have "(high + (2 ^ 64 - 1)) mod 2 ^ 64 = high_of table_size (Suc ?l)"
    proof (cases "Suc ?l < table_size")
      case True
      then have "high + (2 ^ 64 - 1) = 2 ^ 64 + (table_size - 1 - Suc ?l)" using high by simp
      moreover have "table_size - 1 - Suc ?l < 2 ^ 64" using assms(6) by simp
      ultimately show ?thesis using True by (simp only: mod_add_self1 mod_less high_of_def if_True)
    next
      case False
      then have "high = 0" using high by simp
      then show ?thesis using False by (simp add: high_of_def)
    qed
    moreover have "card {p. table_size - Suc ?l \<le> p \<and> p < table_size \<and> symbols[high := k] ! p = s} =
        (if s < Suc k \<and> counts ! s = - 1 then 1 else 0)" for s
    proof -
      let ?A = "{p. table_size - ?l \<le> p \<and> p < table_size \<and> symbols ! p = s}"
      have "{p. table_size - Suc ?l \<le> p \<and> p < table_size \<and> symbols[high := k] ! p = s} =
          (if s = k then insert high ?A else ?A)"
        using l high len by (auto simp: nth_list_update split: if_splits)
      moreover have "finite ?A" "high \<notin> ?A" using l high by auto
      moreover have "card ?A = (if s < k \<and> counts ! s = - 1 then 1 else 0)" using inv by blast
      ultimately show ?thesis using True by (cases "s = k") (simp_all add: less_Suc_eq)
    qed
    moreover have "symbols[high := k] ! p < length counts" if "table_size - Suc ?l \<le> p" "p < table_size" for p
      using inv that assms(2) len high l by (cases "p = high") auto
    moreover have "nexts[k := 1] ! s = weight_of (counts ! s)" if "s < Suc k" for s
      using inv that True assms(2) len by (cases "s = k") (auto simp: weight_of_def)
    moreover have "place_low norm k st = (symbols[high := k], (high + (2 ^ 64 - 1)) mod 2 ^ 64, nexts[k := 1])"
      using True nk by (simp add: place_low_def st)
    moreover have "low_count counts (Suc k) = Suc ?l" using True assms(2) by (simp add: low_count_Suc)
    ultimately show ?thesis using len unfolding low_inv_def by (simp only: prod.case length_list_update) blast
  qed
qed

lemma place_low_fold:
  assumes "counts = take m norm" "\<forall>c \<in> set counts. - 1 \<le> c" "sum_list (map weight_of counts) = table_size" "table_size \<le> 2 ^ 32"
    and "k \<le> length counts" "0 < table_size"
  shows "low_inv counts table_size k
    (fold (place_low norm) [0..<k] (replicate table_size 0, table_size - 1, replicate (length counts) 0))"
  using assms(5)
proof (induction k)
  case 0
  then show ?case using assms(6) by (simp add: low_inv_def low_count_def high_of_def)
next
  case (Suc k)
  have "low_inv counts table_size (Suc k) (place_low norm k
      (fold (place_low norm) [0..<k] (replicate table_size 0, table_size - 1, replicate (length counts) 0)))"
    by (rule place_low_inv [OF _ _ _ assms(1,3,4)]) (use Suc assms(2) in \<open>auto simp: Suc_le_eq\<close>)
  then show ?case by simp
qed

text \<open>The other symbols go to the slots of an arithmetic progression that visits every slot once.\<close>

definition slot :: "nat \<Rightarrow> nat \<Rightarrow> nat \<Rightarrow> nat" where
  "slot table_size step i = (i * step) mod table_size"

lemma slot_less: "0 < table_size \<Longrightarrow> slot table_size step i < table_size"
  by (simp add: slot_def)

lemma slot_Suc: "(slot table_size step i + step) mod table_size = slot table_size step (Suc i)"
  by (simp add: slot_def mod_add_left_eq mod_add_right_eq add.commute)

lemma slot_inj:
  assumes "coprime table_size step" "i < table_size" "j < table_size" "slot table_size step i = slot table_size step j"
  shows "i = j"
proof -
  have main: "a = b" if "a \<le> b" "b < table_size" "slot table_size step a = slot table_size step b" for a b
  proof -
    have "table_size dvd b * step - a * step"
      using that(1) that(3) [symmetric] mod_eq_dvd_iff_nat [of "a * step" "b * step" table_size]
      by (simp add: slot_def mult_le_mono1)
    then have "table_size dvd (b - a) * step" by (simp add: diff_mult_distrib)
    then have "table_size dvd b - a" using assms(1) by (simp add: coprime_dvd_mult_left_iff)
    moreover have "b - a < table_size" using that(2) by simp
    ultimately have "b - a = 0" by (meson dvd_imp_le linorder_not_le gr0I)
    then show ?thesis using that(1) by simp
  qed
  show ?thesis using main [of i j] main [of j i] assms by (cases "i \<le> j") auto
qed

lemma card_slots:
  assumes "coprime table_size step" "0 < table_size" "\<And>p. P p \<Longrightarrow> p < table_size"
  shows "card {i. i < table_size \<and> P (slot table_size step i)} = card {p. P p}"
proof -
  have inj: "inj_on (slot table_size step) {..<table_size}" using slot_inj [OF assms(1)] by (auto intro: inj_onI)
  have surj: "slot table_size step ` {..<table_size} = {..<table_size}"
    by (rule endo_inj_surj) (use inj slot_less [OF assms(2)] in auto)
  have "bij_betw (slot table_size step) {i. i < table_size \<and> P (slot table_size step i)} {p. P p}"
  proof (rule bij_betw_imageI)
    show "inj_on (slot table_size step) {i. i < table_size \<and> P (slot table_size step i)}"
      by (rule inj_on_subset [OF inj]) auto
    show "slot table_size step ` {i. i < table_size \<and> P (slot table_size step i)} = {p. P p}"
    proof (intro set_eqI iffI)
      fix p assume "p \<in> {p. P p}"
      then have "P p" "p \<in> slot table_size step ` {..<table_size}" using assms(3) surj by auto
      then show "p \<in> slot table_size step ` {i. i < table_size \<and> P (slot table_size step i)}" by auto
    qed auto
  qed
  then show ?thesis by (rule bij_betw_same_card)
qed

lemma next_position_slot:
  assumes "\<And>p. p < table_size \<Longrightarrow> wrap32 high < p \<longleftrightarrow> free \<le> p" "0 < table_size"
  shows "j \<le> j' \<Longrightarrow> j' \<le> j + fuel \<Longrightarrow> (\<And>k. j \<le> k \<Longrightarrow> k < j' \<Longrightarrow> free \<le> slot table_size step k) \<Longrightarrow>
    slot table_size step j' < free \<Longrightarrow>
    next_position fuel table_size step high (slot table_size step j) = slot table_size step j'"
proof (induction fuel arbitrary: j)
  case (Suc fuel)
  show ?case
  proof (cases "j = j'")
    case True
    then show ?thesis using Suc.prems(4) assms by (auto simp: slot_less not_le)
  next
    case False
    then have "free \<le> slot table_size step j" using Suc.prems by simp
    then have "next_position (Suc fuel) table_size step high (slot table_size step j) =
        next_position fuel table_size step high (slot table_size step (Suc j))"
      using assms by (simp add: slot_less slot_Suc)
    also have "\<dots> = slot table_size step j'" by (rule Suc.IH) (use Suc.prems False in auto)
    finally show ?thesis .
  qed
qed simp

definition spread_one :: "nat \<Rightarrow> nat \<Rightarrow> nat \<Rightarrow> nat \<Rightarrow> nat list \<times> nat \<Rightarrow> nat list \<times> nat" where
  "spread_one table_size step high s st =
     (case st of (symbols, position) \<Rightarrow>
        (symbols[position := s], next_position table_size table_size step high ((position + step) mod table_size)))"

lemma spread_symbol_fold: "spread_symbol table_size step high s n st = fold (spread_one table_size step high) (replicate n s) st"
  by (induction n arbitrary: st) (auto simp: spread_one_def split: prod.splits)

text \<open>The symbols in the order they are placed.\<close>

definition placed_symbols :: "int list \<Rightarrow> nat list" where
  "placed_symbols counts = concat (map (\<lambda>(s, c). replicate (nat (max c 0)) s) (enumerate 0 counts))"

lemma spread_all_fold: "spread_all table_size step high counts st = fold (spread_one table_size step high) (placed_symbols counts) st"
proof -
  have "fold (\<lambda>(s, count) st. spread_symbol table_size step high s (nat (max count 0)) st) xs st =
      fold (spread_one table_size step high) (concat (map (\<lambda>(s, c). replicate (nat (max c 0)) s) xs)) st" for xs st
    by (induction xs arbitrary: st) (auto simp: spread_symbol_fold split: prod.splits)
  then show ?thesis by (simp add: spread_all_def placed_symbols_def)
qed

definition spread_inv :: "nat \<Rightarrow> nat \<Rightarrow> nat \<Rightarrow> nat list \<Rightarrow> nat list \<Rightarrow> nat list \<times> nat \<Rightarrow> bool" where
  "spread_inv table_size step free symbols0 placed st \<longleftrightarrow>
     (case st of (symbols, position) \<Rightarrow>
        length symbols = table_size \<and> (\<forall>p. free \<le> p \<and> p < table_size \<longrightarrow> symbols ! p = symbols0 ! p) \<and>
        (\<exists>i \<le> table_size. position = slot table_size step i \<and> position < free \<and>
           card {j. j < i \<and> slot table_size step j < free} = length placed \<and>
           (\<forall>s. card {j. j < i \<and> slot table_size step j < free \<and> symbols ! slot table_size step j = s} = count_list placed s)))"

lemma spread_one_inv:
  assumes inv: "spread_inv table_size step free symbols0 placed st" and few: "length placed < free"
    and cop: "coprime table_size step" and ts: "0 < table_size" "free \<le> table_size"
    and high: "\<And>p. p < table_size \<Longrightarrow> wrap32 high < p \<longleftrightarrow> free \<le> p"
  shows "spread_inv table_size step free symbols0 (placed @ [s]) (spread_one table_size step high s st)"
proof -
  let ?slot = "slot table_size step"
  obtain symbols position where st: "st = (symbols, position)" by (cases st)
  obtain i where i: "i \<le> table_size" "position = ?slot i" "position < free"
    "card {j. j < i \<and> ?slot j < free} = length placed"
    "\<And>s. card {j. j < i \<and> ?slot j < free \<and> symbols ! ?slot j = s} = count_list placed s"
    and len: "length symbols = table_size" and beyond: "\<forall>p. free \<le> p \<and> p < table_size \<longrightarrow> symbols ! p = symbols0 ! p"
    using inv unfolding spread_inv_def st by auto
  have all: "card {j. j < table_size \<and> ?slot j < free} = free"
    using card_slots [OF cop ts(1), of "\<lambda>p. p < free"] ts(2) by simp
  have lt: "i < table_size"
  proof (rule ccontr)
    assume "\<not> i < table_size"
    then have "i = table_size" using i(1) by simp
    then show False using i(4) all few by simp
  qed
  define i' where "i' = (LEAST j. i < j \<and> ?slot j < free)"
  have "i < table_size \<and> ?slot table_size < free" using lt i(3) by (auto simp: slot_def)
  then have i': "i < i'" "?slot i' < free" "i' \<le> table_size" "\<And>k. i < k \<Longrightarrow> k < i' \<Longrightarrow> free \<le> ?slot k"
    unfolding i'_def by (auto dest: not_less_Least intro: LeastI2_wellorder Least_le simp: not_less [symmetric])
  have "next_position table_size table_size step high (?slot (Suc i)) = ?slot i'"
    by (rule next_position_slot [OF high ts(1)]) (use i' in auto)
  then have step: "spread_one table_size step high s st = (symbols[?slot i := s], ?slot i')"
    by (simp add: spread_one_def st i(2) slot_Suc)
  have set: "{j. j < i' \<and> ?slot j < free \<and> P j} = (if P i then {i} else {}) \<union> {j. j < i \<and> ?slot j < free \<and> P j}" for P
  proof (intro set_eqI)
    fix j
    have "\<not> ?slot j < free" if "i < j" "j < i'" using i'(4) [OF that] by simp
    then show "j \<in> {j. j < i' \<and> ?slot j < free \<and> P j} \<longleftrightarrow> j \<in> (if P i then {i} else {}) \<union> {j. j < i \<and> ?slot j < free \<and> P j}"
      using i'(1) i(2,3) by (cases j i rule: linorder_cases) auto
  qed
  have "symbols[?slot i := s] ! ?slot j = symbols ! ?slot j" if "j < i" for j
    using slot_inj [OF cop, of j i] that lt by (cases "?slot j = ?slot i") auto
  moreover have "symbols[?slot i := s] ! ?slot i = s" using i(2,3) ts len by simp
  ultimately have "{j. j < i' \<and> ?slot j < free \<and> symbols[?slot i := s] ! ?slot j = t} =
      (if s = t then {i} else {}) \<union> {j. j < i \<and> ?slot j < free \<and> symbols ! ?slot j = t}" for t
    unfolding set by auto
  then have "card {j. j < i' \<and> ?slot j < free \<and> symbols[?slot i := s] ! ?slot j = t} = count_list (placed @ [s]) t" for t
    using i(5) by (simp add: card_insert_if)
  moreover have "card {j. j < i' \<and> ?slot j < free} = length (placed @ [s])"
    using set [of "\<lambda>_. True"] i(4) by (simp add: card_insert_if)
  moreover have "\<forall>p. free \<le> p \<and> p < table_size \<longrightarrow> symbols[?slot i := s] ! p = symbols0 ! p"
    using beyond i(2,3) by auto
  ultimately show ?thesis using i' len unfolding spread_inv_def step by auto
qed

lemma spread_fold_inv:
  assumes cop: "coprime table_size step" and ts: "0 < table_size" "free \<le> table_size"
    and high: "\<And>p. p < table_size \<Longrightarrow> wrap32 high < p \<longleftrightarrow> free \<le> p"
  shows "spread_inv table_size step free symbols0 placed st \<Longrightarrow> length placed + length xs \<le> free \<Longrightarrow>
    spread_inv table_size step free symbols0 (placed @ xs) (fold (spread_one table_size step high) xs st)"
proof (induction xs arbitrary: placed st)
  case (Cons s xs)
  have "spread_inv table_size step free symbols0 (placed @ [s]) (spread_one table_size step high s st)"
    by (rule spread_one_inv [OF Cons.prems(1) _ cop ts high]) (use Cons.prems(2) in auto)
  from Cons.IH [OF this] show ?case using Cons.prems(2) by simp
qed simp

lemma spread_inv_full:
  assumes inv: "spread_inv table_size step free symbols0 placed (symbols, position)" "length placed = free"
    and cop: "coprime table_size step" and ts: "0 < table_size" "free \<le> table_size"
  shows "position = 0" "card {p. p < free \<and> symbols ! p = s} = count_list placed s"
proof -
  let ?slot = "slot table_size step"
  obtain i where i: "i \<le> table_size" "position = ?slot i" "position < free" "card {j. j < i \<and> ?slot j < free} = free"
    "\<And>s. card {j. j < i \<and> ?slot j < free \<and> symbols ! ?slot j = s} = count_list placed s"
    using inv unfolding spread_inv_def by auto
  have "i = table_size"
  proof (rule ccontr)
    assume "i \<noteq> table_size"
    then have lt: "i < table_size" using i(1) by simp
    then have "insert i {j. j < i \<and> ?slot j < free} \<subseteq> {j. j < table_size \<and> ?slot j < free}" using i by auto
    then have "card (insert i {j. j < i \<and> ?slot j < free}) \<le> card {j. j < table_size \<and> ?slot j < free}"
      by (rule card_mono [rotated]) simp
    moreover have "card {j. j < table_size \<and> ?slot j < free} = free"
      using card_slots [OF cop ts(1), of "\<lambda>p. p < free"] ts(2) by simp
    ultimately show False using i(4) by (simp add: card_insert_if)
  qed
  then show "position = 0" using i(2) by (simp add: slot_def)
  show "card {p. p < free \<and> symbols ! p = s} = count_list placed s"
    using i(5) [of s] card_slots [OF cop ts(1), of "\<lambda>p. p < free \<and> symbols ! p = s"] ts(2) \<open>i = table_size\<close> by simp
qed

text \<open>The symbols of the table as a whole.\<close>

lemma placed_aux:
  "length (concat (map (\<lambda>(s, c). replicate (nat (max c 0)) s) (enumerate n counts))) = sum_list (map (\<lambda>c. nat (max c 0)) counts)"
  "count_list (concat (map (\<lambda>(s, c). replicate (nat (max c 0)) s) (enumerate n counts))) s =
    (if n \<le> s \<and> s < n + length counts then nat (max (counts ! (s - n)) 0) else 0)"
proof -
  have rep: "count_list (replicate k x) s = (if x = s then k else 0)" for k and x :: nat
    by (induction k) auto
  show "length (concat (map (\<lambda>(s, c). replicate (nat (max c 0)) s) (enumerate n counts))) = sum_list (map (\<lambda>c. nat (max c 0)) counts)"
    by (induction counts arbitrary: n) auto
  show "count_list (concat (map (\<lambda>(s, c). replicate (nat (max c 0)) s) (enumerate n counts))) s =
    (if n \<le> s \<and> s < n + length counts then nat (max (counts ! (s - n)) 0) else 0)"
    by (induction counts arbitrary: n) (auto simp: rep nth_Cons' count_list_append)
qed

lemma sum_weights_split:
  "(\<forall>c \<in> set counts. - 1 \<le> c) \<Longrightarrow>
   sum_list (map weight_of counts) = sum_list (map (\<lambda>c. nat (max c 0)) counts) + length (filter (\<lambda>c. c = - 1) counts)"
  by (induction counts) (auto simp: weight_of_def)

definition table_symbols :: "int list \<Rightarrow> nat \<Rightarrow> nat list \<Rightarrow> bool" where
  "table_symbols counts table_log symbols \<longleftrightarrow>
     length symbols = 2 ^ table_log \<and> (\<forall>p < 2 ^ table_log. symbols ! p < length counts) \<and>
     (\<forall>s < length counts. count_list symbols s = weight_of (counts ! s))"

lemma build_fse_symbols:
  assumes ok: "counts_ok counts table_log" and counts: "counts = take (max_symbol + 1) norm" "max_symbol < length norm"
    and log: "5 \<le> table_log" "table_log \<le> 9"
  shows "\<exists>symbols. table_symbols counts table_log symbols \<and>
    build_fse_table norm max_symbol table_log bv nb =
      Inr (fse_table_new table_log (fse_transitions table_log bv nb (map weight_of counts) symbols))"
proof -
  let ?ts = "2 ^ table_log :: nat" and ?n = "max_symbol + 1" and ?step = "2 ^ table_log div 2 + 2 ^ table_log div 8 + 3 :: nat"
  have n: "length counts = ?n" using counts by simp
  have sum: "sum_list (map weight_of counts) = ?ts" and pos: "\<forall>c \<in> set counts. - 1 \<le> c" using ok by (simp_all add: counts_ok_def)
  have "?ts \<le> 2 ^ 9" using log by (intro power_increasing) auto
  then have ts: "0 < ?ts" "?ts \<le> 2 ^ 32" by simp_all
  let ?low = "length (filter (\<lambda>c. c = - 1) counts)"
  define free where "free = ?ts - ?low"
  have free: "free \<le> ?ts" "?low + free = ?ts" using sum_weights_low [of counts] sum by (simp_all add: free_def)
  have low: "low_count counts ?n = ?low" using n by (simp add: low_count_def)
  obtain symbols0 high nexts where st: "fold (place_low norm) [0..<?n] (replicate ?ts 0, ?ts - 1, replicate ?n 0) = (symbols0, high, nexts)"
    by (metis surj_pair)
  have "low_inv counts ?ts ?n (symbols0, high, nexts)"
    using place_low_fold [OF counts(1) pos sum ts(2) _ ts(1), of ?n] n st by simp
  then have inv: "length symbols0 = ?ts" "high = high_of ?ts ?low" "length nexts = ?n" "\<forall>s < ?n. nexts ! s = weight_of (counts ! s)"
    "\<And>s. card {p. free \<le> p \<and> p < ?ts \<and> symbols0 ! p = s} = (if s < ?n \<and> counts ! s = - 1 then 1 else 0)"
    "\<And>p. free \<le> p \<Longrightarrow> p < ?ts \<Longrightarrow> symbols0 ! p < ?n"
    unfolding low_inv_def low free_def n by auto
  have nexts: "nexts = map weight_of counts" using inv(3,4) n by (intro nth_equalityI) auto
  have "even (?ts div 2)" "even (?ts div 8)"
  proof -
    have "table_log = (table_log - 4) + 4" using log by simp
    then have "?ts = 2 ^ (table_log - 4) * 2 ^ 4" by (metis power_add)
    then show "even (?ts div 2)" "even (?ts div 8)" by simp_all
  qed
  then have cop: "coprime ?ts ?step" by (simp add: coprime_commute coprime_power_right_iff)
  obtain symbols position where spread: "spread_all ?ts ?step high counts (symbols0, 0) = (symbols, position)" by (metis surj_pair)
  have len: "length (placed_symbols counts) = free"
    using sum_weights_split [OF pos] sum free by (simp add: placed_symbols_def placed_aux)
  have final: "position = 0 \<and> length symbols = ?ts \<and> (\<forall>p. free \<le> p \<and> p < ?ts \<longrightarrow> symbols ! p = symbols0 ! p) \<and>
      (\<forall>s. card {p. p < free \<and> symbols ! p = s} = count_list (placed_symbols counts) s)"
  proof (cases "free = 0")
    case True
    then have "placed_symbols counts = []" using len by simp
    then show ?thesis using spread True inv(1) by (simp add: spread_all_fold)
  next
    case False
    then have "high = free - 1" using inv(2) free by (simp add: high_of_def)
    then have high: "wrap32 high < p \<longleftrightarrow> free \<le> p" if "p < ?ts" for p
      using False ts(2) free(1) by (simp add: wrap32_def) linarith
    have "spread_inv ?ts ?step free symbols0 [] (symbols0, 0)"
      using False inv(1) by (auto simp: spread_inv_def slot_def intro!: exI [of _ 0])
    then have "spread_inv ?ts ?step free symbols0 (placed_symbols counts) (symbols, position)"
      using spread_fold_inv [OF cop ts(1) free(1) high, of symbols0 "[]" "(symbols0, 0)" "placed_symbols counts"] len spread
      by (simp add: spread_all_fold)
    then show ?thesis using spread_inv_full [OF _ len cop ts(1) free(1), of symbols0 symbols position]
      unfolding spread_inv_def by auto
  qed
  have cnt: "count_list symbols s = (if s < ?n then weight_of (counts ! s) else 0)" for s
  proof -
    have "count_list symbols s = card ({p. p < free \<and> symbols ! p = s} \<union> {p. free \<le> p \<and> p < ?ts \<and> symbols0 ! p = s})"
      unfolding count_list_card by (rule arg_cong [of _ _ card]) (use final free(1) in \<open>auto simp: not_le\<close>)
    also have "\<dots> = card {p. p < free \<and> symbols ! p = s} + card {p. free \<le> p \<and> p < ?ts \<and> symbols0 ! p = s}"
      by (rule card_Un_disjoint) auto
    also have "\<dots> = (if s < ?n then weight_of (counts ! s) else 0)"
    proof (cases "s < ?n")
      case True
      then have "- 1 \<le> counts ! s" using pos n by simp
      then show ?thesis using final inv(5) [of s] True n by (auto simp: placed_symbols_def placed_aux weight_of_def)
    next
      case False
      then show ?thesis using final inv(5) [of s] n by (simp add: placed_symbols_def placed_aux)
    qed
    finally show ?thesis .
  qed
  have "symbols ! p < ?n" if "p < ?ts" for p
  proof (rule ccontr)
    assume "\<not> symbols ! p < ?n"
    then have "count_list symbols (symbols ! p) = 0" using cnt by simp
    then show False using that final by (auto simp: count_list_0_iff)
  qed
  then have "table_symbols counts table_log symbols" using final cnt n by (simp add: table_symbols_def)
  moreover have "build_fse_table norm max_symbol table_log bv nb =
      Inr (fse_table_new table_log (fse_transitions table_log bv nb (map weight_of counts) symbols))"
  proof -
    have "spread_all ?ts ?step high counts (symbols0, 0) = (symbols, 0)" using spread final by simp
    then show ?thesis by (simp add: build_fse_table_def Let_def st [simplified] counts(1) [symmetric, simplified] nexts)
  qed
  ultimately show ?thesis by blast
qed

section \<open>Transitions\<close>

definition entry_of :: "nat \<Rightarrow> nat list option \<Rightarrow> nat list option \<Rightarrow> nat \<Rightarrow> nat \<Rightarrow> fse_entry" where
  "entry_of table_log bv nb s v =
     \<lparr>fe_symbol = s, fe_nb_bits = table_log - highest_bit v, fe_next_state = v * 2 ^ (table_log - highest_bit v) - 2 ^ table_log,
      fe_nb_additional_bits = look_up nb s, fe_base_value = look_up bv s\<rparr>"

lemma length_fse_transitions [simp]: "length (fse_transitions table_log bv nb nexts symbols) = length symbols"
  by (induction symbols arbitrary: nexts) simp_all

lemma fse_transitions_nth:
  "i < length symbols \<Longrightarrow> \<forall>p < length symbols. symbols ! p < length nexts \<Longrightarrow>
   fse_transitions table_log bv nb nexts symbols ! i =
     entry_of table_log bv nb (symbols ! i) (nexts ! (symbols ! i) + count_list (take i symbols) (symbols ! i))"
proof (induction symbols arbitrary: nexts i)
  case (Cons s symbols)
  show ?case
  proof (cases i)
    case 0
    then show ?thesis by (simp add: fse_transition_def entry_of_def Let_def)
  next
    case (Suc j)
    have "s < length nexts" using Cons.prems(2) by force
    moreover have "\<forall>p < length symbols. symbols ! p < length nexts" using Cons.prems(2) by force
    ultimately show ?thesis using Cons.IH [of j "nexts[s := Suc (nexts ! s)]"] Cons.prems(1) Suc by (auto simp: nth_list_update)
  qed
qed simp

lemma occurrence_less:
  assumes "i < j" "j \<le> length xs" "xs ! i = s"
  shows "count_list (take i xs) s < count_list (take j xs) s"
proof -
  have "take j xs = take i xs @ xs ! i # drop (Suc i) (take j xs)"
    using assms by (metis (no_types, lifting) Cons_nth_drop_Suc append_take_drop_id length_take min.absorb2 nth_take take_take min.absorb1 less_imp_le)
  then have "count_list (take j xs) s = count_list (take i xs @ xs ! i # drop (Suc i) (take j xs)) s" by simp
  then show ?thesis using assms(3) by (simp add: count_list_append)
qed

lemma occurrence_exists: "k < count_list xs s \<Longrightarrow> \<exists>i < length xs. xs ! i = s \<and> count_list (take i xs) s = k"
proof (induction xs arbitrary: k)
  case (Cons x xs)
  show ?case
  proof (cases "x = s \<and> k = 0")
    case True
    then show ?thesis by (intro exI [of _ 0]) simp
  next
    case False
    then have "(if x = s then k - 1 else k) < count_list xs s" using Cons.prems by (auto split: if_splits)
    then obtain i where "i < length xs" "xs ! i = s" "count_list (take i xs) s = (if x = s then k - 1 else k)"
      using Cons.IH by blast
    then show ?thesis using False by (intro exI [of _ "Suc i"]) (auto split: if_splits)
  qed
qed simp

lemma shift_exists:
  assumes "0 < c" "c \<le> (x :: nat)"
  shows "\<exists>j. c \<le> x div 2 ^ j \<and> x div 2 ^ j < 2 * c"
  using assms(2)
proof (induction x rule: less_induct)
  case (less x)
  show ?case
  proof (cases "x < 2 * c")
    case True
    then show ?thesis using less.prems by (intro exI [of _ 0]) simp
  next
    case False
    then have "x div 2 < x" "c \<le> x div 2" using assms(1) by auto
    from less.IH [OF this] obtain j where "c \<le> x div 2 div 2 ^ j" "x div 2 div 2 ^ j < 2 * c" by blast
    then show ?thesis by (intro exI [of _ "Suc j"]) (simp add: div_mult2_eq)
  qed
qed

lemma div_eq_iff_nat: "0 < k \<Longrightarrow> n div k = v \<longleftrightarrow> v * k \<le> n \<and> n < v * k + (k :: nat)"
  using div_nat_eqI [of k v n] dividend_less_times_div [of k n] div_times_less_eq_dividend [of n k] by (auto simp: mult.commute)

lemma shift_unique:
  assumes "c \<le> x div 2 ^ i" "x div 2 ^ i < 2 * c" "c \<le> x div 2 ^ j" "x div 2 ^ j < 2 * (c :: nat)"
  shows "x div 2 ^ i = x div 2 ^ j"
proof -
  have main: False if "a < b" "c \<le> x div 2 ^ b" "x div 2 ^ a < 2 * c" for a b
  proof -
    have "x div 2 ^ b = x div 2 ^ a div 2 ^ (b - a)" using that(1) by (simp add: div_mult2_eq [symmetric] power_add [symmetric])
    also have "\<dots> \<le> x div 2 ^ a div 2" using that(1) by (intro div_le_mono2) (auto intro: self_le_power)
    finally have "2 * (x div 2 ^ b) \<le> x div 2 ^ a" by simp
    then show False using that by linarith
  qed
  show ?thesis using main [of i j] main [of j i] assms by (cases i j rule: linorder_cases) auto
qed

text \<open>The value of an entry, between the count and twice the count of its symbol, says where it leads.\<close>

lemma entry_of_range:
  assumes "0 < v" "v < 2 ^ (table_log + 1)" "e = entry_of table_log bv nb s v"
  shows "fe_nb_bits e \<le> table_log" "fe_next_state e + 2 ^ fe_nb_bits e \<le> 2 ^ table_log"
    and "x < 2 ^ table_log \<Longrightarrow>
      fe_next_state e \<le> x \<and> x < fe_next_state e + 2 ^ fe_nb_bits e \<longleftrightarrow> (x + 2 ^ table_log) div 2 ^ fe_nb_bits e = v"
    and "fe_nb_bits e = table_log - highest_bit v"
proof -
  note b = highest_bit_bounds [OF assms(1)]
  have "2 ^ highest_bit v < (2::nat) ^ (table_log + 1)" using b assms(2) by linarith
  then have hb: "highest_bit v \<le> table_log" using power_less_imp_less_exp [of "2 :: nat" "highest_bit v" "table_log + 1"] by simp
  let ?k = "table_log - highest_bit v"
  have e: "fe_nb_bits e = ?k" "fe_next_state e = v * 2 ^ ?k - 2 ^ table_log" by (simp_all add: assms(3) entry_of_def)
  have low: "2 ^ table_log \<le> v * 2 ^ ?k"
  proof -
    have "(2::nat) ^ table_log = 2 ^ highest_bit v * 2 ^ ?k" using hb by (simp add: power_add [symmetric])
    then show ?thesis using b by simp
  qed
  have high: "v * 2 ^ ?k + 2 ^ ?k \<le> 2 ^ table_log + 2 ^ table_log"
  proof -
    have "(v + 1) * 2 ^ ?k \<le> 2 ^ (highest_bit v + 1) * 2 ^ ?k" using b by (intro mult_le_mono1) simp
    also have "\<dots> = 2 ^ (table_log + 1)" using hb by (simp add: power_add [symmetric])
    finally show ?thesis by simp
  qed
  show "fe_nb_bits e \<le> table_log" "fe_nb_bits e = ?k" by (simp_all add: e)
  show "fe_next_state e + 2 ^ fe_nb_bits e \<le> 2 ^ table_log" using low high unfolding e by linarith
  show "fe_next_state e \<le> x \<and> x < fe_next_state e + 2 ^ fe_nb_bits e \<longleftrightarrow> (x + 2 ^ table_log) div 2 ^ fe_nb_bits e = v"
  proof -
    have "(x + 2 ^ table_log) div 2 ^ ?k = v \<longleftrightarrow> v * 2 ^ ?k \<le> x + 2 ^ table_log \<and> x + 2 ^ table_log < v * 2 ^ ?k + 2 ^ ?k"
      by (rule div_eq_iff_nat) simp
    then show ?thesis using low unfolding e by linarith
  qed
qed

section \<open>The table\<close>

text \<open>The entries of a table that is built: their symbols, and values that count each symbol's occurrences.\<close>

lemma build_fse_entries:
  assumes ok: "counts_ok counts table_log" and counts: "counts = take (max_symbol + 1) norm" "max_symbol < length norm"
    and log: "5 \<le> table_log" "table_log \<le> 9"
  obtains symbols t where "table_symbols counts table_log symbols"
    "build_fse_table norm max_symbol table_log bv nb = Inr t" "t = fse_table_new table_log (ft_entries t)"
    "length (ft_entries t) = 2 ^ table_log"
    "\<And>i. i < 2 ^ table_log \<Longrightarrow> ft_entries t ! i =
       entry_of table_log bv nb (symbols ! i) (weight_of (counts ! (symbols ! i)) + count_list (take i symbols) (symbols ! i))"
proof -
  obtain symbols where s: "table_symbols counts table_log symbols"
    "build_fse_table norm max_symbol table_log bv nb =
      Inr (fse_table_new table_log (fse_transitions table_log bv nb (map weight_of counts) symbols))"
    using build_fse_symbols [OF assms] by blast
  let ?e = "fse_transitions table_log bv nb (map weight_of counts) symbols"
  have "?e ! i = entry_of table_log bv nb (symbols ! i) (weight_of (counts ! (symbols ! i)) + count_list (take i symbols) (symbols ! i))"
    if "i < 2 ^ table_log" for i
    using fse_transitions_nth [of i symbols "map weight_of counts"] that s(1) by (simp add: table_symbols_def)
  then show ?thesis
    using that [OF s(1) s(2)] s(1) by (simp add: fse_table_new_def table_symbols_def)
qed

lemma entry_value_range:
  assumes "table_symbols counts table_log symbols" "counts_ok counts table_log" "i < 2 ^ table_log"
    and "v = weight_of (counts ! (symbols ! i)) + count_list (take i symbols) (symbols ! i)"
  shows "weight_of (counts ! (symbols ! i)) \<le> v" "v < 2 * weight_of (counts ! (symbols ! i))" "0 < v" "v < 2 ^ (table_log + 1)"
proof -
  let ?s = "symbols ! i"
  have s: "?s < length counts" "i < length symbols" "count_list symbols ?s = weight_of (counts ! ?s)"
    using assms(1,3) by (auto simp: table_symbols_def)
  have occ: "count_list (take i symbols) ?s < weight_of (counts ! ?s)"
    using occurrence_less [of i "length symbols" symbols ?s] s by simp
  then show "weight_of (counts ! ?s) \<le> v" "v < 2 * weight_of (counts ! ?s)" "0 < v" by (simp_all add: assms(4))
  have "weight_of (counts ! ?s) \<le> sum_list (map weight_of counts)" using s(1) by (intro member_le_sum_list) auto
  then show "v < 2 ^ (table_log + 1)" using \<open>v < 2 * _\<close> assms(2) by (simp add: counts_ok_def)
qed

text \<open>From every symbol that occurs, every state is reached from exactly one entry.\<close>

lemma transition_unique:
  assumes t: "table_symbols c table_log symbols" "counts_ok c table_log" and s: "s < length c" "c ! s \<noteq> 0" and x: "x < 2 ^ table_log"
  defines "v \<equiv> \<lambda>i. weight_of (c ! (symbols ! i)) + count_list (take i symbols) (symbols ! i)"
  shows "\<exists>!i. i < 2 ^ table_log \<and> symbols ! i = s \<and> (x + 2 ^ table_log) div 2 ^ (table_log - highest_bit (v i)) = v i"
proof -
  let ?ts = "2 ^ table_log :: nat" and ?w = "weight_of (c ! s)"
  have cnt: "count_list symbols s = ?w" and len: "length symbols = ?ts" using t(1) s(1) by (auto simp: table_symbols_def)
  have v: "?w \<le> v i" "v i < 2 * ?w" if "i < ?ts" "symbols ! i = s" for i
    using entry_value_range [OF t that(1) refl] that(2) by (simp_all add: v_def)
  have w: "0 < ?w" using s by (simp add: weight_of_def)
  have "c ! s \<in> set c" using s(1) by simp
  then have "?w \<le> sum_list (map weight_of c)" by (intro member_le_sum_list) auto
  then have "?w \<le> x + ?ts" using t(2) by (simp add: counts_ok_def)
  then obtain j where j: "?w \<le> (x + ?ts) div 2 ^ j" "(x + ?ts) div 2 ^ j < 2 * ?w" using shift_exists [OF w] by blast
  then have few: "(x + ?ts) div 2 ^ j - ?w < count_list symbols s" using w cnt by linarith
  obtain i where i: "i < length symbols" "symbols ! i = s" "count_list (take i symbols) s = (x + ?ts) div 2 ^ j - ?w"
    using occurrence_exists [OF few] by metis
  then have vi: "v i = (x + ?ts) div 2 ^ j" unfolding v_def i(2) using j(1) by linarith
  have "j \<le> table_log"
  proof (rule ccontr)
    assume "\<not> j \<le> table_log"
    then have "2 ^ (table_log + 1) \<le> (2::nat) ^ j" by (intro power_increasing) auto
    then have "(x + ?ts) div 2 ^ j = 0" using x by simp
    then show False using w j by simp
  qed
  then have "?ts = 2 ^ (table_log - j) * 2 ^ j" by (simp add: power_add [symmetric])
  then have "2 ^ (table_log - j) \<le> (x + ?ts) div 2 ^ j" "(x + ?ts) div 2 ^ j < 2 ^ (table_log - j + 1)"
    using x by (simp_all add: less_eq_div_iff_mult_less_eq div_less_iff_less_mult)
  then have "table_log - highest_bit (v i) = j" using highest_bit_unique \<open>j \<le> table_log\<close> vi by simp
  then have this_one: "i < ?ts \<and> symbols ! i = s \<and> (x + ?ts) div 2 ^ (table_log - highest_bit (v i)) = v i"
    using i len vi by simp
  show ?thesis using this_one
  proof (rule ex1I)
    fix k assume k: "k < ?ts \<and> symbols ! k = s \<and> (x + ?ts) div 2 ^ (table_log - highest_bit (v k)) = v k"
    have "v k = v i"
      using shift_unique [of ?w "x + ?ts" "table_log - highest_bit (v k)" "table_log - highest_bit (v i)"]
        v [of k] v [of i] k this_one by simp
    then have "count_list (take k symbols) s = count_list (take i symbols) s" using k i(2) by (simp add: v_def)
    then show "k = i" using occurrence_less [of k i symbols s] occurrence_less [of i k symbols s] i k len
      by (cases k i rule: linorder_cases) auto
  qed
qed

text \<open>An entry reads bits and goes to a state of the table.\<close>

definition leads_to :: "fse_entry \<Rightarrow> nat \<Rightarrow> bool" where
  "leads_to e x \<longleftrightarrow> (\<exists>bits < 2 ^ fe_nb_bits e. x = fe_next_state e + bits)"

lemma leads_to_iff: "leads_to e x \<longleftrightarrow> fe_next_state e \<le> x \<and> x < fe_next_state e + 2 ^ fe_nb_bits e"
proof
  assume "fe_next_state e \<le> x \<and> x < fe_next_state e + 2 ^ fe_nb_bits e"
  then show "leads_to e x" unfolding leads_to_def by (intro exI [of _ "x - fe_next_state e"]) auto
qed (auto simp: leads_to_def)

text \<open>
  C32. Whatever description \<^verbatim>\<open>read_ncount\<close> accepts, the table can be built from it; every symbol fills as many
  entries as its count says; every transition stays inside the table, so decoding never leaves it; and
  from every symbol that occurs each state is reached in exactly one way, which is what allows an
  encoder to run the table backwards.
\<close>

theorem fse_table_sound:
  assumes "read_ncount data max_symbol = Inr (counts, actual_max, table_log, used)"
  shows "\<exists>t. build_fse_table counts actual_max table_log bv nb = Inr t \<and> length (ft_entries t) = 2 ^ table_log \<and>
    (\<forall>s \<le> actual_max. card {i. i < 2 ^ table_log \<and> fe_symbol (ft_entries t ! i) = s} = nat \<bar>counts ! s\<bar>) \<and>
    (\<forall>i < 2 ^ table_log. \<forall>x. leads_to (ft_entries t ! i) x \<longrightarrow> x < 2 ^ table_log) \<and>
    (\<forall>s \<le> actual_max. counts ! s \<noteq> 0 \<longrightarrow> (\<forall>x < 2 ^ table_log. \<exists>!i. i < 2 ^ table_log \<and>
       fe_symbol (ft_entries t ! i) = s \<and> leads_to (ft_entries t ! i) x))"
proof -
  let ?c = "take (actual_max + 1) counts" and ?ts = "2 ^ table_log :: nat"
  note r = read_ncount_ok [OF assms]
  have lt: "actual_max < length counts" using r by simp
  obtain symbols t where t: "table_symbols ?c table_log symbols" "build_fse_table counts actual_max table_log bv nb = Inr t"
    "length (ft_entries t) = ?ts"
    and entry: "\<And>i. i < ?ts \<Longrightarrow> ft_entries t ! i =
       entry_of table_log bv nb (symbols ! i) (weight_of (?c ! (symbols ! i)) + count_list (take i symbols) (symbols ! i))"
    using build_fse_entries [OF r(1) refl lt r(4,5)] by metis
  define v where "v i = weight_of (?c ! (symbols ! i)) + count_list (take i symbols) (symbols ! i)" for i
  have v: "weight_of (?c ! (symbols ! i)) \<le> v i" "v i < 2 * weight_of (?c ! (symbols ! i))" "0 < v i" "v i < 2 ^ (table_log + 1)"
    if "i < ?ts" for i using entry_value_range [OF t(1) r(1) that refl] by (simp_all add: v_def)
  have sym: "fe_symbol (ft_entries t ! i) = symbols ! i" if "i < ?ts" for i using entry [OF that] by (simp add: entry_of_def)
  note range = entry_of_range [OF v(3,4) entry [folded v_def]]
  have leads: "leads_to (ft_entries t ! i) x \<longleftrightarrow> (x + ?ts) div 2 ^ (table_log - highest_bit (v i)) = v i" if "i < ?ts" "x < ?ts" for i x
    using range(3,4) [of i] that unfolding leads_to_iff by auto
  have cnt: "count_list symbols s = nat \<bar>counts ! s\<bar>" "?c ! s = counts ! s" if "s \<le> actual_max" for s
    using t(1) that r lt by (auto simp: table_symbols_def weight_of_def)
  have len: "length symbols = ?ts" using t(1) by (simp add: table_symbols_def)
  have "card {i. i < ?ts \<and> fe_symbol (ft_entries t ! i) = s} = nat \<bar>counts ! s\<bar>" if "s \<le> actual_max" for s
  proof -
    have "{i. i < ?ts \<and> fe_symbol (ft_entries t ! i) = s} = {p. p < length symbols \<and> symbols ! p = s}" using sym len by auto
    then show ?thesis using cnt [OF that] by (simp add: count_list_card)
  qed
  moreover have "x < ?ts" if "i < ?ts" "leads_to (ft_entries t ! i) x" for i x
    using range(2) [of i] that unfolding leads_to_iff by fastforce
  moreover have "\<exists>!i. i < ?ts \<and> fe_symbol (ft_entries t ! i) = s \<and> leads_to (ft_entries t ! i) x"
    if s: "s \<le> actual_max" "counts ! s \<noteq> 0" and x: "x < ?ts" for s x
  proof -
    have "?c ! s \<noteq> 0" "s < length ?c" using s cnt(2) [of s] lt by auto
    from transition_unique [OF t(1) r(1) this(2,1) x] show ?thesis using sym leads x unfolding v_def by (metis (no_types, lifting))
  qed
  ultimately show ?thesis using t by blast
qed

lemma two_symbols_ncount:
  "read_ncount [0x10, 0x3F] 12 = Inr ([16, 16, 0, 0, 0, 0, 0, 0, 0, 0, 0, 0, 0], 1, 5, 2)"
  by code_simp

theorem fse_table_sound_witness:
  "\<exists>t. build_fse_table [16, 16, 0, 0, 0, 0, 0, 0, 0, 0, 0, 0, 0] 1 5 None None = Inr t \<and> length (ft_entries t) = 2 ^ 5 \<and>
    (\<forall>s \<le> 1. card {i. i < 2 ^ 5 \<and> fe_symbol (ft_entries t ! i) = s} = nat \<bar>[16, 16, 0, 0, 0, 0, 0, 0, 0, 0, 0, 0, 0 :: int] ! s\<bar>)"
  using fse_table_sound [OF two_symbols_ncount, of None None] by blast

end
