(* ===== verification/ZHufFacts.thy ===== *)
theory ZHufFacts
  imports ZHuffman ZFseFacts
begin

text \<open>
  Huffman tables and streams: when the decoding of FSE-coded weights returns, that every accepted set of
  weights gives a complete prefix code, and that the decoders, the interleaved one of four streams
  included, read the symbols that stand in the bits of the stream.
\<close>

section \<open>Decoding the weights\<close>

lemma unat_push_bit_le: "unat (push_bit k (v :: u64)) \<le> unat v * 2 ^ k"
  unfolding unsigned_push_bit_eq by (metis push_bit_eq_mult take_bit_nat_less_eq_self)

lemma peek_bits_bound:
  assumes "n \<le> 56"
  shows "peek_bits_padded r n < 2 ^ n"
proof (cases "n \<le> bits_remaining r")
  case True
  then show ?thesis using load_bits [OF assms] bits_val_bound by (simp add: peek_bits_padded_def Let_def)
next
  case False
  let ?v = "load_u64_le (br_data r) 0 AND (push_bit (bits_remaining r) 1 - 1)"
  let ?m = "bits_remaining r"
  have "unat (push_bit (n - ?m) ?v) \<le> unat ?v * 2 ^ (n - ?m)"
    by (rule unat_push_bit_le)
  also have "\<dots> < 2 ^ ?m * 2 ^ (n - ?m)"
    unfolding mask_and by (simp add: unsigned_take_bit_eq)
  also have "\<dots> = 2 ^ n" using False by (simp add: power_add [symmetric])
  finally have "unat (push_bit (n - ?m) ?v) < 2 ^ n" .
  then show ?thesis using False by (simp add: peek_bits_padded_def Let_def)
qed

text \<open>A table whose transitions stay inside it, and where a transition that reads nothing goes down.\<close>

definition descending_table :: "fse_table \<Rightarrow> nat \<Rightarrow> bool" where
  "descending_table t table_log \<longleftrightarrow>
     (\<forall>i < 2 ^ table_log. let e = ft_entries t ! i in
        fe_nb_bits e \<le> table_log \<and> fe_next_state e + 2 ^ fe_nb_bits e \<le> 2 ^ table_log \<and>
        (fe_nb_bits e = 0 \<longrightarrow> fe_next_state e < i))"

lemma weights_step:
  assumes "descending_table t table_log" "table_log \<le> 56" "st < 2 ^ table_log" "e = fse_decode t st"
    "backward_read_padded r (fe_nb_bits e) = (r', bits)"
  shows "fe_next_state e + bits < 2 ^ table_log" "br_total_bits r' = br_total_bits r" "br_bit_pos r \<le> br_bit_pos r'"
    "br_bit_pos r' = br_bit_pos r \<Longrightarrow> fe_next_state e + bits < st"
proof -
  have e: "fe_nb_bits e \<le> table_log" "fe_next_state e + 2 ^ fe_nb_bits e \<le> 2 ^ table_log"
    "fe_nb_bits e = 0 \<longrightarrow> fe_next_state e < st"
    using assms(1,3,4) by (auto simp: descending_table_def fse_decode_def Let_def)
  have r: "r' = r\<lparr>br_bit_pos := br_bit_pos r + fe_nb_bits e\<rparr>" "bits = peek_bits_padded r (fe_nb_bits e)"
    using assms(5) by (auto simp: backward_read_padded_def)
  have "bits < 2 ^ fe_nb_bits e" unfolding r(2) by (rule peek_bits_bound) (use e(1) assms(2) in simp)
  then show "fe_next_state e + bits < 2 ^ table_log" using e(2) by linarith
  show "br_total_bits r' = br_total_bits r" "br_bit_pos r \<le> br_bit_pos r'" by (simp_all add: r(1))
  show "fe_next_state e + bits < st" if "br_bit_pos r' = br_bit_pos r"
    using that e(3) r \<open>bits < 2 ^ fe_nb_bits e\<close> by simp
qed

lemma weights_loop_returns:
  assumes t: "descending_table t table_log" "table_log \<le> 56"
  shows "state1 < 2 ^ table_log \<Longrightarrow> state2 < 2 ^ table_log \<Longrightarrow> fse_weights_loop t r state1 state2 out \<noteq> None"
proof (induction "(Suc (br_total_bits r) - br_bit_pos r) * (2 * 2 ^ table_log) + (state1 + state2)" arbitrary: r state1 state2 out
    rule: less_induct)
  case less
  define e1 where "e1 = fse_decode t state1"
  define e2 where "e2 = fse_decode t state2"
  obtain r1 bits1 where r1: "backward_read_padded r (fe_nb_bits e1) = (r1, bits1)" by (metis surj_pair)
  obtain r2 bits2 where r2: "backward_read_padded r1 (fe_nb_bits e2) = (r2, bits2)" by (metis surj_pair)
  note s1 = weights_step [OF t less.prems(1) e1_def r1]
  note s2 = weights_step [OF t less.prems(2) e2_def r2]
  let ?out = "(out @ [fe_symbol e1]) @ [fe_symbol e2]"
  have unfold: "fse_weights_loop t r state1 state2 out =
      (if backward_overflowed r1 then Some ((out @ [fe_symbol e1]) @ [fe_symbol e2])
       else if backward_overflowed r2 then Some (?out @ [fe_symbol (fse_decode t (fe_next_state e1 + bits1))])
       else fse_weights_loop t r2 (fe_next_state e1 + bits1) (fe_next_state e2 + bits2) ?out)"
    by (subst fse_weights_loop.simps) (simp add: Let_def e1_def [symmetric] e2_def [symmetric] r1 r2)
  show ?case
  proof (cases "backward_overflowed r1 \<or> backward_overflowed r2")
    case True
    then show ?thesis unfolding unfold by auto
  next
    case False
    have "fse_weights_loop t r2 (fe_next_state e1 + bits1) (fe_next_state e2 + bits2) ?out \<noteq> None"
    proof (rule less.hyps [OF _ s1(1) s2(1)])
      let ?n = "2 ^ table_log :: nat"
      let ?left = "Suc (br_total_bits r) - br_bit_pos r" and ?left' = "Suc (br_total_bits r2) - br_bit_pos r2"
      show "?left' * (2 * ?n) + ((fe_next_state e1 + bits1) + (fe_next_state e2 + bits2)) < ?left * (2 * ?n) + (state1 + state2)"
      proof (cases "br_bit_pos r2 = br_bit_pos r")
        case True
        then have "br_bit_pos r1 = br_bit_pos r" "br_bit_pos r2 = br_bit_pos r1" using s1(3) s2(3) by auto
        then show ?thesis using s1(2,4) s2(2,4) True by simp
      next
        case False
        then have "?left' < ?left" using s1(2,3) s2(2,3) \<open>\<not> (backward_overflowed r1 \<or> _)\<close> by (auto simp: backward_overflowed_def)
        then have "?left' * (2 * ?n) + 2 * ?n \<le> ?left * (2 * ?n)" by (metis Suc_leI add.commute mult_Suc mult_le_mono1)
        then show ?thesis using s1(1) s2(1) by linarith
      qed
    qed
    then show ?thesis unfolding unfold using False by simp
  qed
qed

text \<open>A table that one symbol fills reads nothing, and its states stay where they are.\<close>

definition constant_table :: "fse_table \<Rightarrow> nat \<Rightarrow> bool" where
  "constant_table t table_log \<longleftrightarrow>
     (\<forall>i < 2 ^ table_log. fe_nb_bits (ft_entries t ! i) = 0 \<and> fe_next_state (ft_entries t ! i) = i)"

lemma weights_loop_forever:
  assumes t: "constant_table t table_log" and st: "state1 < 2 ^ table_log" "state2 < 2 ^ table_log"
    and r: "\<not> backward_overflowed r"
  shows "fse_weights_loop t r state1 state2 out = None"
proof (cases "fse_weights_loop t r state1 state2 out")
  case (Some y)
  then have "constant_table t table_log \<longrightarrow> state1 < 2 ^ table_log \<longrightarrow> state2 < 2 ^ table_log \<longrightarrow> \<not> backward_overflowed r \<longrightarrow> False"
  proof (rule fse_weights_loop.raw_induct [where P = "\<lambda>t r state1 state2 out y. constant_table t table_log \<longrightarrow>
      state1 < 2 ^ table_log \<longrightarrow> state2 < 2 ^ table_log \<longrightarrow> \<not> backward_overflowed r \<longrightarrow> False", rotated])
    fix f t r state1 state2 out y
    assume IH: "\<And>t r state1 state2 out y. f t r state1 state2 out = Some y \<Longrightarrow> constant_table t table_log \<longrightarrow>
        state1 < 2 ^ table_log \<longrightarrow> state2 < 2 ^ table_log \<longrightarrow> \<not> backward_overflowed r \<longrightarrow> False"
      and eq: "(let entry1 = fse_decode t state1;
          out = out @ [fe_symbol entry1];
          (reader, new_bits1) = backward_read_padded r (fe_nb_bits entry1);
          state1 = fe_next_state entry1 + new_bits1
      in if backward_overflowed reader then Some (out @ [fe_symbol (fse_decode t state2)])
         else
           let entry2 = fse_decode t state2;
               out = out @ [fe_symbol entry2];
               (reader, new_bits2) = backward_read_padded reader (fe_nb_bits entry2);
               state2 = fe_next_state entry2 + new_bits2
           in if backward_overflowed reader then Some (out @ [fe_symbol (fse_decode t state1)])
              else f t reader state1 state2 out) = Some y"
    show "constant_table t table_log \<longrightarrow> state1 < 2 ^ table_log \<longrightarrow> state2 < 2 ^ table_log \<longrightarrow> \<not> backward_overflowed r \<longrightarrow> False"
    proof (intro impI)
      assume a: "constant_table t table_log" "state1 < 2 ^ table_log" "state2 < 2 ^ table_log" "\<not> backward_overflowed r"
      then have "backward_read_padded r (fe_nb_bits (fse_decode t s)) = (r, 0)" "fe_next_state (fse_decode t s) = s"
        if "s < 2 ^ table_log" for s
        using that by (auto simp: constant_table_def fse_decode_def backward_read_padded_def peek_bits_padded_def)
      then have "f t r state1 state2 ((out @ [fe_symbol (fse_decode t state1)]) @ [fe_symbol (fse_decode t state2)]) = Some y"
        using eq a by (simp add: Let_def)
      from IH [OF this] show False using a by simp
    qed
  qed
  then show ?thesis using assms by simp
qed

lemma count_list_full: "count_list xs s = length xs \<Longrightarrow> x \<in> set xs \<Longrightarrow> x = s"
proof (induction xs)
  case (Cons y ys)
  then show ?case using count_le_length [of ys s] by (auto split: if_splits)
qed simp

lemma table_kind:
  assumes ok: "counts_ok counts table_log" and symbols: "table_symbols counts table_log symbols"
    and entry: "\<And>i. i < 2 ^ table_log \<Longrightarrow> ft_entries t ! i =
       entry_of table_log bv nb (symbols ! i) (weight_of (counts ! (symbols ! i)) + count_list (take i symbols) (symbols ! i))"
  shows "\<forall>s < length counts. counts ! s \<noteq> 2 ^ table_log \<Longrightarrow> 0 < table_log \<Longrightarrow> descending_table t table_log"
    and "s < length counts \<Longrightarrow> counts ! s = 2 ^ table_log \<Longrightarrow> constant_table t table_log"
proof -
  define v where "v i = weight_of (counts ! (symbols ! i)) + count_list (take i symbols) (symbols ! i)" for i
  have e: "ft_entries t ! i = entry_of table_log bv nb (symbols ! i) (v i)" if "i < 2 ^ table_log" for i
    using entry [OF that] by (simp add: v_def)
  have v: "0 < v i" "v i < 2 ^ (table_log + 1)" if "i < 2 ^ table_log" for i
    using entry_value_range [OF symbols ok that refl] by (simp_all add: v_def)
  have len: "length symbols = 2 ^ table_log" using symbols by (simp add: table_symbols_def)
  show "descending_table t table_log" if no: "\<forall>s < length counts. counts ! s \<noteq> 2 ^ table_log" "0 < table_log"
    unfolding descending_table_def Let_def
  proof (intro allI impI conjI)
    fix i :: nat assume i: "i < 2 ^ table_log"
    note range = entry_of_range [OF v [OF i] e [OF i]]
    show "fe_nb_bits (ft_entries t ! i) \<le> table_log" "fe_next_state (ft_entries t ! i) + 2 ^ fe_nb_bits (ft_entries t ! i) \<le> 2 ^ table_log"
      by (rule range)+
    assume z: "fe_nb_bits (ft_entries t ! i) = 0"
    then have hb: "table_log \<le> highest_bit (v i)" using range(4) by simp
    let ?s = "symbols ! i"
    have s: "?s < length counts" using symbols i by (simp add: table_symbols_def)
    then have mem: "counts ! ?s \<in> set counts" by simp
    then have "weight_of (counts ! ?s) \<le> sum_list (map weight_of counts)" by (intro member_le_sum_list) auto
    moreover have "weight_of (counts ! ?s) \<noteq> 2 ^ table_log"
    proof
      assume w: "weight_of (counts ! ?s) = 2 ^ table_log"
      have "- 1 \<le> counts ! ?s" "counts ! ?s \<noteq> 2 ^ table_log" using ok mem no(1) s by (auto simp: counts_ok_def)
      moreover have "\<bar>counts ! ?s\<bar> = 2 ^ table_log" using w by (simp add: weight_of_def nat_eq_iff)
      moreover have "(2::int) \<le> 2 ^ table_log" using no(2) self_le_power [of "2 :: int" table_log] by simp
      ultimately show False by linarith
    qed
    ultimately have "weight_of (counts ! ?s) < 2 ^ table_log" using ok by (simp add: counts_ok_def)
    moreover have "count_list (take i symbols) ?s \<le> i" using count_le_length [of "take i symbols" ?s] by simp
    moreover have "0 < weight_of (counts ! ?s)" using entry_value_range(1,2) [OF symbols ok i refl] by simp
    moreover have "fe_next_state (ft_entries t ! i) = v i - 2 ^ table_log" using e [OF i] hb by (simp add: entry_of_def)
    moreover have "2 ^ table_log \<le> v i"
      using highest_bit_bounds [OF v(1) [OF i]] hb by (meson one_le_numeral order.trans power_increasing)
    ultimately show "fe_next_state (ft_entries t ! i) < i" by (simp add: v_def)
  qed
  show "constant_table t table_log" if one: "s < length counts" "counts ! s = 2 ^ table_log"
    unfolding constant_table_def
  proof (intro allI impI)
    fix i :: nat assume i: "i < 2 ^ table_log"
    have full: "count_list symbols s = length symbols"
      using symbols one by (simp add: table_symbols_def weight_of_def nat_power_eq)
    have all: "symbols ! p = s" if "p < 2 ^ table_log" for p using count_list_full [OF full] that len by simp
    have "take i symbols = replicate i s" using all i len by (intro nth_equalityI) auto
    moreover have "count_list (replicate i s) s = i" by (induction i) auto
    ultimately have vi: "v i = 2 ^ table_log + i" using all [OF i] one by (simp add: v_def weight_of_def nat_power_eq)
    then have "highest_bit (v i) = table_log" using i by (intro highest_bit_unique) auto
    then show "fe_nb_bits (ft_entries t ! i) = 0 \<and> fe_next_state (ft_entries t ! i) = i"
      using e [OF i] vi by (simp add: entry_of_def)
  qed
qed

lemma decompress_fse_weights_None:
  assumes "table_log \<le> 56" "ft_table_log t = table_log"
    and "descending_table t table_log \<or> constant_table t table_log"
  shows "decompress_fse_weights t data = None \<longleftrightarrow>
    \<not> descending_table t table_log \<and> (\<exists>r. backward_new data = Inr r \<and> 2 * table_log \<le> bits_remaining r)"
proof (cases "backward_new data")
  case (Inl e)
  then show ?thesis by (auto simp: decompress_fse_weights_def)
next
  case (Inr r)
  then have data: "data \<noteq> []" and pos: "br_bit_pos r = 0" by (auto simp: backward_new_def split: if_splits)
  define r1 where "r1 = r\<lparr>br_bit_pos := table_log\<rparr>"
  define r2 where "r2 = r\<lparr>br_bit_pos := 2 * table_log\<rparr>"
  define state1 where "state1 = peek_bits_padded r table_log"
  define state2 where "state2 = peek_bits_padded r1 table_log"
  show ?thesis
  proof (cases "2 * table_log \<le> bits_remaining r")
    case False
    then show ?thesis using data Inr pos by (auto simp: decompress_fse_weights_def backward_read_def bits_remaining_def assms(2))
  next
    case True
    then have "decompress_fse_weights t data = map_option Inr (fse_weights_loop t r2 state1 state2 [])"
      using data Inr pos by (auto simp: decompress_fse_weights_def backward_read_def bits_remaining_def assms(2)
          r1_def r2_def state1_def state2_def mult_2)
    moreover have st: "state1 < 2 ^ table_log" "state2 < 2 ^ table_log"
      unfolding state1_def state2_def by (rule peek_bits_bound [OF assms(1)])+
    moreover have "\<not> backward_overflowed r2" using True pos by (simp add: r2_def backward_overflowed_def bits_remaining_def)
    ultimately show ?thesis
      using weights_loop_returns [OF _ assms(1) st, of t r2 "[]"] weights_loop_forever [OF _ st, of t r2 "[]"] assms(3) Inr True by auto
  qed
qed

text \<open>
  C33. The decoding of FSE-coded Huffman weights returns for every input except one kind: the description
  gives all of the probability to one symbol, and the bit stream has room for the two initial states.
  Then no transition reads a bit, so the test for the end of the stream never fires and the weights
  grow without bound.
\<close>

theorem huffman_weights_return:
  "decompress_huffman_weights_fse data = None \<longleftrightarrow>
     (\<exists>counts actual_max table_log used r s. read_ncount data 12 = Inr (counts, actual_max, table_log, used) \<and>
        table_log \<le> 6 \<and> s \<le> actual_max \<and> counts ! s = 2 ^ table_log \<and>
        backward_new (drop used data) = Inr r \<and> 2 * table_log \<le> bits_remaining r)"
proof (cases "read_ncount data 12")
  case (Inl e)
  then show ?thesis by (auto simp: decompress_huffman_weights_fse_def)
next
  case (Inr x)
  obtain counts actual_max table_log used where x: "x = (counts, actual_max, table_log, used)" by (cases x)
  note r = read_ncount_ok [OF Inr [unfolded x]]
  let ?c = "take (actual_max + 1) counts"
  have lt: "actual_max < length counts" using r by simp
  obtain symbols t where t: "table_symbols ?c table_log symbols"
    "build_fse_table counts actual_max table_log None None = Inr t" "t = fse_table_new table_log (ft_entries t)"
    and entry: "\<And>i. i < 2 ^ table_log \<Longrightarrow> ft_entries t ! i =
       entry_of table_log None None (symbols ! i) (weight_of (?c ! (symbols ! i)) + count_list (take i symbols) (symbols ! i))"
    using build_fse_entries [OF r(1) refl lt r(4,5)] by metis
  note kind = table_kind [OF r(1) t(1) entry]
  let ?full = "\<exists>s \<le> actual_max. counts ! s = 2 ^ table_log"
  have desc: "descending_table t table_log \<longleftrightarrow> \<not> ?full" and const: "?full \<Longrightarrow> constant_table t table_log"
  proof -
    show c: "constant_table t table_log" if full: ?full
    proof -
      obtain s where s: "s \<le> actual_max" "counts ! s = 2 ^ table_log" using full by blast
      have "s < length ?c" using s(1) lt by simp
      moreover have "?c ! s = 2 ^ table_log" using s by (simp add: less_Suc_eq_le)
      ultimately show ?thesis using kind(2) by metis
    qed
    have "\<not> descending_table t table_log" if "constant_table t table_log"
      using that unfolding descending_table_def constant_table_def Let_def by (metis less_irrefl zero_less_numeral zero_less_power)
    moreover have "descending_table t table_log" if "\<not> ?full"
      by (rule kind(1)) (use that lt r(4) in \<open>auto simp: less_Suc_eq_le\<close>)
    ultimately show "descending_table t table_log \<longleftrightarrow> \<not> ?full" using c by blast
  qed
  have log: "ft_table_log t = table_log" by (subst t(3)) (simp add: fse_table_new_def)
  have "descending_table t table_log \<or> constant_table t table_log" using desc const by blast
  then have returns: "decompress_fse_weights t (drop used data) = None \<longleftrightarrow>
      ?full \<and> (\<exists>r. backward_new (drop used data) = Inr r \<and> 2 * table_log \<le> bits_remaining r)"
    using decompress_fse_weights_None [OF _ log, of "drop used data"] r(5) desc by simp
  have nonempty: "drop used data \<noteq> []" if "backward_new (drop used data) = Inr r" for r
    using that by (auto simp: backward_new_def split: if_splits)
  have "decompress_huffman_weights_fse data = None \<longleftrightarrow>
      table_log \<le> 6 \<and> drop used data \<noteq> [] \<and> decompress_fse_weights t (drop used data) = None"
    using Inr t(2) x by (auto simp: decompress_huffman_weights_fse_def HUF_WEIGHT_FSE_MAX_LOG_def read_ncount_def)
  also have "\<dots> \<longleftrightarrow> table_log \<le> 6 \<and> ?full \<and> (\<exists>r. backward_new (drop used data) = Inr r \<and> 2 * table_log \<le> bits_remaining r)"
    using returns nonempty by blast
  finally show ?thesis using Inr x by auto
qed

lemma one_symbol_ncount:
  "read_ncount [0xF0, 0x03, 0xFF, 0xFF] 12 = Inr ([32, 0, 0, 0, 0, 0, 0, 0, 0, 0, 0, 0, 0], 0, 5, 2)"
  by code_simp

theorem huffman_weights_return_witness:
  "decompress_huffman_weights_fse [0xF0, 0x03, 0xFF, 0xFF] = None \<and> read_huffman_table [4, 0xF0, 0x03, 0xFF, 0xFF] = None"
proof -
  have "backward_new [0xFF, 0xFF] = Inr \<lparr>br_data = [0xFF, 0xFF], br_total_bits = 15, br_bit_pos = 0\<rparr>" by code_simp
  then have "decompress_huffman_weights_fse [0xF0, 0x03, 0xFF, 0xFF] = None"
    unfolding huffman_weights_return one_symbol_ncount by (auto simp: bits_remaining_def)
  then show ?thesis by (simp add: read_huffman_table_def subslice_def)
qed

end
