(* ===== verification/ZHufTable.thy ===== *)
theory ZHufTable
  imports ZHufFacts
begin

text \<open>
  Huffman tables: every accepted set of weights gives a complete prefix code, and the flat table that is
  built holds it.
\<close>

section \<open>Weights\<close>

definition size_of :: "nat \<Rightarrow> nat" where
  "size_of w = (if w = 0 then 0 else 2 ^ (w - 1))"

lemma size_of_half: "2 ^ w div 2 = size_of w"
  by (cases w) (simp_all add: size_of_def)

lemma weight_sum_size: "weight_sum weights = sum_list (map size_of weights)"
  by (simp add: weight_sum_def size_of_half)

lemma power_of_two:
  assumes "0 < x" "x AND (x - 1) = (0 :: nat)"
  shows "x = 2 ^ highest_bit x"
proof (rule ccontr)
  assume "x \<noteq> 2 ^ highest_bit x"
  let ?h = "highest_bit x"
  note b = highest_bit_bounds [OF assms(1)]
  have bit: "bit y ?h" if "2 ^ ?h \<le> y" "y < 2 ^ (?h + 1)" for y :: nat
  proof -
    have "y div 2 ^ ?h = 1" using that by (intro div_nat_eqI) auto
    then show ?thesis by (simp add: bit_iff_odd)
  qed
  have "2 ^ ?h \<le> x - 1" "x - 1 < 2 ^ (?h + 1)" using b \<open>x \<noteq> _\<close> by linarith+
  then have "bit (x AND (x - 1)) ?h" using bit [of x] bit [of "x - 1"] b unfolding bit_and_iff by blast
  then show False using assms(2) by simp
qed

text \<open>The sizes of the blocks of lower weight.\<close>

definition before_weight :: "nat list \<Rightarrow> nat \<Rightarrow> nat" where
  "before_weight ws w = sum_list (map (\<lambda>x. if x < w then size_of x else 0) ws)"

definition block_start :: "nat list \<Rightarrow> nat \<Rightarrow> nat" where
  "block_start ws s = before_weight ws (ws ! s) + count_list (take s ws) (ws ! s) * size_of (ws ! s)"

lemma before_weight_Suc: "before_weight ws (Suc w) = before_weight ws w + count_list ws w * size_of w"
  by (induction ws) (auto simp: before_weight_def less_Suc_eq)

lemma before_weight_one: "before_weight ws (Suc 0) = 0"
proof -
  have "before_weight ws 0 = 0" unfolding before_weight_def by (induction ws) auto
  then show ?thesis by (simp add: before_weight_Suc size_of_def)
qed

lemma before_weight_mono: "w \<le> w' \<Longrightarrow> before_weight ws w \<le> before_weight ws w'"
  unfolding before_weight_def by (intro sum_list_mono) auto

lemma before_weight_total: "before_weight ws w \<le> sum_list (map size_of ws)"
  unfolding before_weight_def by (intro sum_list_mono) auto

lemma before_weight_all: "\<forall>x \<in> set ws. x < w \<Longrightarrow> before_weight ws w = sum_list (map size_of ws)"
  unfolding before_weight_def by (intro arg_cong [of _ _ sum_list] map_cong) auto

lemma block_end:
  assumes "s < length ws"
  shows "block_start ws s + size_of (ws ! s) \<le> before_weight ws (Suc (ws ! s))"
proof -
  have "count_list (take s ws) (ws ! s) < count_list ws (ws ! s)"
    using occurrence_less [of s "length ws" ws "ws ! s"] assms by simp
  then have "(count_list (take s ws) (ws ! s) + 1) * size_of (ws ! s) \<le> count_list ws (ws ! s) * size_of (ws ! s)"
    by (intro mult_le_mono1) simp
  then show ?thesis by (simp add: block_start_def before_weight_Suc)
qed

lemma blocks_ordered:
  assumes "s < length ws" "s' < length ws" "s \<noteq> s'"
  shows "block_start ws s + size_of (ws ! s) \<le> block_start ws s' \<or> block_start ws s' + size_of (ws ! s') \<le> block_start ws s"
proof -
  have lower: "block_start ws a + size_of (ws ! a) \<le> block_start ws b" if "a < length ws" "ws ! a < ws ! b" for a b
  proof -
    have "before_weight ws (Suc (ws ! a)) \<le> before_weight ws (ws ! b)" using that(2) by (intro before_weight_mono) simp
    then show ?thesis using block_end [OF that(1)] by (simp add: block_start_def)
  qed
  have same: "block_start ws a + size_of (ws ! a) \<le> block_start ws b" if "a < b" "b < length ws" "ws ! a = ws ! b" for a b
  proof -
    have "count_list (take a ws) (ws ! b) < count_list (take b ws) (ws ! b)"
      using occurrence_less [of a b ws "ws ! b"] that by simp
    then have "(count_list (take a ws) (ws ! b) + 1) * size_of (ws ! b) \<le> count_list (take b ws) (ws ! b) * size_of (ws ! b)"
      by (intro mult_le_mono1) simp
    then show ?thesis using that(3) by (simp add: block_start_def)
  qed
  show ?thesis
    using lower [of s s'] lower [of s' s] same [of s s'] same [of s' s] assms
    by (cases "ws ! s" "ws ! s'" rule: linorder_cases; cases s s' rule: linorder_cases) auto
qed

lemma before_weight_dvd:
  assumes "sum_list (map size_of ws) = 2 ^ k" "w \<le> k" "0 < w"
  shows "size_of w dvd before_weight ws w"
proof -
  let ?rest = "sum_list (map (\<lambda>x. if x < w then 0 else size_of x) ws)"
  have "before_weight ws w + ?rest = sum_list (map size_of ws)"
    by (induction ws) (auto simp: before_weight_def)
  then have sum: "before_weight ws w + ?rest = 2 ^ k" using assms(1) by simp
  have "size_of w dvd size_of x" if "w \<le> x" for x
    using that assms(3) by (auto simp: size_of_def intro!: le_imp_power_dvd)
  then have "size_of w dvd ?rest" by (induction ws) auto
  moreover have "size_of w dvd 2 ^ k" using assms(2,3) by (auto simp: size_of_def intro!: le_imp_power_dvd)
  ultimately show ?thesis unfolding sum [symmetric] by (simp add: dvd_add_left_iff)
qed

lemma block_start_dvd:
  assumes "sum_list (map size_of ws) = 2 ^ k" "ws ! s \<le> k" "0 < ws ! s"
  shows "size_of (ws ! s) dvd block_start ws s"
  unfolding block_start_def using before_weight_dvd [OF assms] by (intro dvd_add) auto

text \<open>The blocks cover the table.\<close>

lemma blocks_cover:
  assumes "i < sum_list (map size_of ws)"
  shows "\<exists>s < length ws. block_start ws s \<le> i \<and> i < block_start ws s + size_of (ws ! s)"
proof -
  let ?block = "\<lambda>s. {block_start ws s ..< block_start ws s + size_of (ws ! s)}"
  let ?N = "sum_list (map size_of ws)"
  have "card (\<Union>s \<in> {..<length ws}. ?block s) = (\<Sum>s \<in> {..<length ws}. card (?block s))"
  proof (rule card_UN_disjoint)
    show "\<forall>s \<in> {..<length ws}. \<forall>s' \<in> {..<length ws}. s \<noteq> s' \<longrightarrow> ?block s \<inter> ?block s' = {}"
      using blocks_ordered by fastforce
  qed auto
  also have "\<dots> = ?N" by (simp add: sum_list_sum_nth atLeast0LessThan)
  finally have card: "card (\<Union>s \<in> {..<length ws}. ?block s) = ?N" .
  moreover have sub: "(\<Union>s \<in> {..<length ws}. ?block s) \<subseteq> {..<?N}"
  proof
    fix x assume "x \<in> (\<Union>s \<in> {..<length ws}. ?block s)"
    then obtain s where "s < length ws" "x < block_start ws s + size_of (ws ! s)" by auto
    then have "x < before_weight ws (Suc (ws ! s))" using block_end by fastforce
    then show "x \<in> {..<?N}" using before_weight_total [of ws "Suc (ws ! s)"] by simp
  qed
  ultimately have "(\<Union>s \<in> {..<length ws}. ?block s) = {..<?N}" by (intro card_subset_eq) auto
  then have "i \<in> (\<Union>s \<in> {..<length ws}. ?block s)" using assms by blast
  then show ?thesis by auto
qed

section \<open>Filling the table\<close>

lemma rank_starts_nth:
  assumes "\<And>w. w < length rc \<Longrightarrow> rc ! w = count_list ws w"
  shows "rank_starts rc table_size n = Inr starts \<Longrightarrow> n < length rc \<Longrightarrow>
    length starts = Suc n \<and> (\<forall>w. 0 < w \<and> w \<le> n \<longrightarrow> starts ! w = before_weight ws w)"
proof (induction n arbitrary: starts)
  case (Suc n)
  obtain starts' where s: "rank_starts rc table_size n = Inr starts'"
    "starts = starts' @ [if n = 0 then 0 else last starts' + rc ! n * 2 ^ (n - 1)]"
    using Suc.prems(1) by (auto simp: and_then_Inr_iff Let_def split: if_splits)
  have IH: "length starts' = Suc n" "\<forall>w. 0 < w \<and> w \<le> n \<longrightarrow> starts' ! w = before_weight ws w"
    using Suc.IH [OF s(1)] Suc.prems(2) by auto
  have "(if n = 0 then 0 else last starts' + rc ! n * 2 ^ (n - 1)) = before_weight ws (Suc n)"
  proof (cases "n = 0")
    case True
    show ?thesis unfolding True by (simp add: before_weight_one)
  next
    case False
    then have "starts' ! n = before_weight ws n" using IH(2) by blast
    moreover have "last starts' = starts' ! n" using IH(1) by (metis diff_Suc_1 last_conv_nth length_0_conv nat.distinct(1))
    moreover have "rc ! n = count_list ws n" using assms Suc.prems(2) by simp
    ultimately show ?thesis using False by (simp only: before_weight_Suc size_of_def if_False)
  qed
  then show ?case using IH s(2) by (auto simp: nth_append le_Suc_eq)
qed simp

definition entry_at :: "nat list \<Rightarrow> nat \<Rightarrow> nat \<Rightarrow> huf_entry" where
  "entry_at ws table_log s = \<lparr>he_symbol = s mod 256, he_nb_bits = table_log + 1 - ws ! s\<rparr>"

definition fill_inv :: "nat list \<Rightarrow> nat \<Rightarrow> nat \<Rightarrow> huf_entry list \<times> nat list \<Rightarrow> bool" where
  "fill_inv ws table_log k st \<longleftrightarrow>
     (case st of (entries, rank_start) \<Rightarrow>
        length entries = 2 ^ table_log \<and> length rank_start = Suc table_log \<and>
        (\<forall>w. 0 < w \<and> w \<le> table_log \<longrightarrow> rank_start ! w = before_weight ws w + count_list (take k ws) w * size_of w) \<and>
        (\<forall>s < k. \<forall>i. block_start ws s \<le> i \<and> i < block_start ws s + size_of (ws ! s) \<longrightarrow> entries ! i = entry_at ws table_log s))"

lemma fill_symbol_inv:
  assumes inv: "fill_inv ws table_log k st" and k: "k < length ws" and ws: "\<forall>w \<in> set ws. w \<le> table_log"
    and sum: "sum_list (map size_of ws) = 2 ^ table_log"
  shows "fill_inv ws table_log (Suc k) (fill_symbol table_log st (k, ws ! k))"
proof -
  obtain entries rank_start where st: "st = (entries, rank_start)" by (cases st)
  note i = inv [unfolded fill_inv_def st prod.case]
  show ?thesis
  proof (cases "ws ! k = 0")
    case True
    then show ?thesis using i k
      by (auto simp: fill_inv_def fill_symbol_def st less_Suc_eq size_of_def take_Suc_conv_app_nth count_list_append)
  next
    case False
    let ?w = "ws ! k"
    have w: "?w \<le> table_log" "size_of ?w = 2 ^ (?w - 1)" using ws k False by (auto simp: size_of_def)
    then have start: "rank_start ! ?w = block_start ws k" using i False by (simp add: block_start_def)
    define entries' where "entries' = map (\<lambda>i. if block_start ws k \<le> i \<and> i < block_start ws k + size_of ?w then entry_at ws table_log k
        else entries ! i) [0..<length entries]"
    have step: "fill_symbol table_log st (k, ?w) = (entries', rank_start[?w := block_start ws k + size_of ?w])"
      using False w(2) start by (simp add: fill_symbol_def st Let_def entries'_def entry_at_def)
    have "entries' ! j = entry_at ws table_log s"
      if s: "s < Suc k" and j: "block_start ws s \<le> j" "j < block_start ws s + size_of (ws ! s)" for s j
    proof -
      have "s < length ws" using s k by simp
      then have "j < 2 ^ table_log"
        using block_end [of s ws] before_weight_total [of ws "Suc (ws ! s)"] sum j(2) by linarith
      then have nth: "entries' ! j = (if block_start ws k \<le> j \<and> j < block_start ws k + size_of ?w then entry_at ws table_log k
          else entries ! j)" using i by (simp add: entries'_def)
      show ?thesis
      proof (cases "s = k")
        case True
        then show ?thesis using nth j by simp
      next
        case False
        then have "\<not> (block_start ws k \<le> j \<and> j < block_start ws k + size_of ?w)"
          using blocks_ordered [of s ws k] s k j by auto
        moreover have "entries ! j = entry_at ws table_log s" using i s False j by (simp add: less_Suc_eq)
        ultimately show ?thesis using nth by auto
      qed
    qed
    moreover have "rank_start[?w := block_start ws k + size_of ?w] ! v = before_weight ws v + count_list (take (Suc k) ws) v * size_of v"
      if "0 < v" "v \<le> table_log" for v
      using i that k w(1) by (cases "v = ?w") (auto simp: block_start_def take_Suc_conv_app_nth count_list_append)
    moreover have "length entries' = 2 ^ table_log" using i by (simp add: entries'_def)
    ultimately show ?thesis using i unfolding fill_inv_def step by simp
  qed
qed

lemma fill_all:
  assumes "fill_inv ws table_log 0 st" "\<forall>w \<in> set ws. w \<le> table_log" "sum_list (map size_of ws) = 2 ^ table_log"
  shows "fill_inv ws table_log (length ws) (foldl (fill_symbol table_log) st (enumerate 0 ws))"
proof -
  have "fill_inv ws table_log k (foldl (fill_symbol table_log) st (take k (enumerate 0 ws)))" if "k \<le> length ws" for k
    using that
  proof (induction k)
    case (Suc k)
    then show ?case using fill_symbol_inv [OF Suc.IH _ assms(2,3)]
      by (simp add: take_Suc_conv_app_nth nth_enumerate_eq)
  qed (simp add: assms(1))
  from this [of "length ws"] show ?thesis by simp
qed

section \<open>The table\<close>

lemma if_Inl_iff: "(if c then Inl e else r) = Inr y \<longleftrightarrow> \<not> c \<and> r = Inr y"
  by simp

text \<open>What an accepted set of weights satisfies, with the weight of the last symbol.\<close>

lemma table_of_weights_parts:
  assumes "table_of_weights weights = Inr t"
  obtains lw tlog entries where "0 < tlog" "tlog \<le> 12" "t = huffman_table_new entries tlog"
    "sum_list (map size_of (weights @ [lw])) = 2 ^ tlog" "\<forall>w \<in> set (weights @ [lw]). w \<le> tlog"
    "length entries = 2 ^ tlog"
    "\<And>s i. s < length (weights @ [lw]) \<Longrightarrow> block_start (weights @ [lw]) s \<le> i \<Longrightarrow>
       i < block_start (weights @ [lw]) s + size_of ((weights @ [lw]) ! s) \<Longrightarrow> entries ! i = entry_at (weights @ [lw]) tlog s"
proof -
  define tot where "tot = weight_sum weights"
  define tlog where "tlog = highest_bit tot + 1"
  define rest where "rest = 2 ^ tlog - tot"
  define lw where "lw = highest_bit rest + 1"
  let ?all = "weights @ [lw]"
  define rc where "rc = map (\<lambda>w. length (filter (\<lambda>x. x = w) ?all)) [0..<tlog + 2]"
  let ?fill = "\<lambda>rank_start. let (entries, rank_start) =
      foldl (fill_symbol tlog) (replicate (2 ^ tlog) \<lparr>he_symbol = 0, he_nb_bits = 0\<rparr>, rank_start) (enumerate 0 ?all)
    in Inr (huffman_table_new entries tlog) :: string + huffman_table"
  have "(if weights = [] then Inl ''no Huffman symbols''
      else if \<not> list_all (\<lambda>w. w \<le> 12) weights then Inl ''Huffman weight exceeds max''
      else if tot = 0 then Inl ''Huffman weight total is 0''
      else if 12 < tlog then Inl ''Huffman table log exceeds max''
      else if rest AND (rest - 1) \<noteq> 0 then Inl ''Huffman rest is not a power of 2''
      else if length ?all \<le> 1 then Inr (huffman_table_new (replicate (2 ^ tlog) \<lparr>he_symbol = 0, he_nb_bits = 1\<rparr>) tlog)
      else and_then (rank_starts rc (2 ^ tlog) tlog) ?fill) = Inr t"
    using assms unfolding table_of_weights_def Let_def HUF_TABLE_LOG_MAX_def tot_def tlog_def rest_def lw_def rc_def .
  then have chain: "weights \<noteq> [] \<and> list_all (\<lambda>w. w \<le> 12) weights \<and> tot \<noteq> 0 \<and> \<not> 12 < tlog \<and> rest AND (rest - 1) = 0 \<and>
      (if length ?all \<le> 1 then Inr (huffman_table_new (replicate (2 ^ tlog) \<lparr>he_symbol = 0, he_nb_bits = 1\<rparr>) tlog)
       else and_then (rank_starts rc (2 ^ tlog) tlog) ?fill) = Inr t"
    unfolding if_Inl_iff not_not .
  have c: "weights \<noteq> []" "0 < tot" "tlog \<le> 12" "rest AND (rest - 1) = 0" using chain unfolding not_less neq0_conv by blast+
  have "\<not> length ?all \<le> 1" using c(1) by (cases weights) auto
  from chain [unfolded if_not_P [OF this]] have b: "and_then (rank_starts rc (2 ^ tlog) tlog) ?fill = Inr t" by (elim conjE)
  obtain starts where starts: "rank_starts rc (2 ^ tlog) tlog = Inr starts" "?fill starts = Inr t"
    using b unfolding and_then_Inr_iff by blast
  obtain entries ends where
    fold: "foldl (fill_symbol tlog) (replicate (2 ^ tlog) \<lparr>he_symbol = 0, he_nb_bits = 0\<rparr>, starts) (enumerate 0 ?all) = (entries, ends)"
    by (metis surj_pair)
  have s: "rank_starts rc (2 ^ tlog) tlog = Inr starts" "t = huffman_table_new entries tlog"
    "foldl (fill_symbol tlog) (replicate (2 ^ tlog) \<lparr>he_symbol = 0, he_nb_bits = 0\<rparr>, starts) (enumerate 0 ?all) = (entries, ends)"
    using starts unfolding Let_def fold by simp_all
  have hb: "2 ^ (tlog - 1) \<le> tot" "tot < 2 ^ tlog" using highest_bit_bounds [OF c(2)] by (auto simp: tlog_def)
  then have rest: "0 < rest" "rest < 2 ^ tlog" "tot + rest = 2 ^ tlog" using c(2) by (auto simp: rest_def)
  have lw: "size_of lw = rest" using power_of_two [OF rest(1) c(4)] by (simp add: lw_def size_of_def)
  have sum: "sum_list (map size_of ?all) = 2 ^ tlog" using rest(3) lw by (simp add: tot_def weight_sum_size)
  have small: "w \<le> tlog" if "size_of w < 2 ^ tlog" for w
  proof (cases w)
    case (Suc v)
    then have "v < tlog" using that power_less_imp_less_exp [of "2 :: nat" v tlog] by (simp add: size_of_def)
    then show ?thesis using Suc by simp
  qed simp
  have ws: "\<forall>w \<in> set ?all. w \<le> tlog"
  proof
    fix w assume w: "w \<in> set ?all"
    show "w \<le> tlog"
    proof (cases "w = lw")
      case True
      then show ?thesis using small lw rest by simp
    next
      case False
      then have "size_of w \<le> sum_list (map size_of weights)" using w by (intro member_le_sum_list) auto
      then show ?thesis using small hb(2) by (simp add: tot_def weight_sum_size)
    qed
  qed
  have rc: "rc ! w = count_list ?all w" if "w < length rc" for w
    using that by (simp add: rc_def count_list_eq_length_filter eq_commute del: upt_Suc filter_append)
  have "fill_inv ?all tlog 0 (replicate (2 ^ tlog) \<lparr>he_symbol = 0, he_nb_bits = 0\<rparr>, starts)"
    using rank_starts_nth [OF rc s(1)] by (simp add: fill_inv_def rc_def)
  from fill_all [OF this ws sum] have inv: "fill_inv ?all tlog (length ?all) (entries, ends)" unfolding s(3) .
  show ?thesis
    by (rule that [of tlog entries lw]) (use c(3) s(2) sum ws inv in \<open>auto simp: fill_inv_def tlog_def simp del: map_append\<close>)
qed

text \<open>
  C34. Every set of Huffman weights that is accepted gives a table the fast decoders may use, and the table
  holds a complete prefix code: with the weight of the last symbol added, every index of the table
  belongs to exactly one symbol, the indices of a symbol of weight \<open>w\<close> are those whose upper bits are
  its code, and their entries hold the symbol and the length of its code.
\<close>

theorem huffman_table_complete:
  assumes "table_of_weights weights = Inr t"
  shows "ht_valid t \<and> (\<exists>lw code. let ws = weights @ [lw]; tlog = ht_table_log t in
    (\<forall>i < 2 ^ tlog. \<exists>!s. s < length ws \<and> 0 < ws ! s \<and> i div 2 ^ (ws ! s - 1) = code s) \<and>
    (\<forall>i < 2 ^ tlog. \<forall>s < length ws. 0 < ws ! s \<longrightarrow> i div 2 ^ (ws ! s - 1) = code s \<longrightarrow>
       ht_entries t ! i = \<lparr>he_symbol = s mod 256, he_nb_bits = tlog + 1 - ws ! s\<rparr>))"
proof -
  obtain lw tlog entries where t: "0 < tlog" "tlog \<le> 12" "t = huffman_table_new entries tlog"
    "sum_list (map size_of (weights @ [lw])) = 2 ^ tlog" "\<forall>w \<in> set (weights @ [lw]). w \<le> tlog" "length entries = 2 ^ tlog"
    and entry: "\<And>s i. s < length (weights @ [lw]) \<Longrightarrow> block_start (weights @ [lw]) s \<le> i \<Longrightarrow>
       i < block_start (weights @ [lw]) s + size_of ((weights @ [lw]) ! s) \<Longrightarrow> entries ! i = entry_at (weights @ [lw]) tlog s"
    using table_of_weights_parts [OF assms] by metis
  define ws where "ws = weights @ [lw]"
  note t = t [folded ws_def] and entry = entry [folded ws_def]
  define code where "code s = block_start ws s div 2 ^ (ws ! s - 1)" for s
  have block: "i div 2 ^ (ws ! s - 1) = code s \<longleftrightarrow> block_start ws s \<le> i \<and> i < block_start ws s + size_of (ws ! s)"
    if "s < length ws" "0 < ws ! s" for s i
  proof -
    have "size_of (ws ! s) dvd block_start ws s" using block_start_dvd [OF t(4), of s] t(5) that by simp
    then have "code s * 2 ^ (ws ! s - 1) = block_start ws s" using that(2) by (simp add: code_def size_of_def)
    then show ?thesis using div_eq_iff_nat [of "2 ^ (ws ! s - 1)" i "code s"] that(2) by (simp add: size_of_def)
  qed
  have owner: "\<exists>!s. s < length ws \<and> 0 < ws ! s \<and> i div 2 ^ (ws ! s - 1) = code s" if i: "i < 2 ^ tlog" for i
  proof -
    obtain s where s: "s < length ws" "block_start ws s \<le> i" "i < block_start ws s + size_of (ws ! s)"
      using blocks_cover [of i ws] i t(4) by auto
    then have "0 < ws ! s" by (auto simp: size_of_def intro: gr0I)
    then show ?thesis using s block blocks_ordered [of _ ws s] by (intro ex1I [of _ s]) fastforce+
  qed
  have entries: "entries ! i = \<lparr>he_symbol = s mod 256, he_nb_bits = tlog + 1 - ws ! s\<rparr>"
    if "s < length ws" "0 < ws ! s" "i div 2 ^ (ws ! s - 1) = code s" for i s
    using entry [OF that(1)] block [OF that(1,2), of i] that(3) by (simp add: entry_at_def)
  have "1 \<le> he_nb_bits (entries ! i) \<and> he_nb_bits (entries ! i) \<le> tlog" if i: "i < 2 ^ tlog" for i
  proof -
    obtain s where s: "s < length ws" "0 < ws ! s" "i div 2 ^ (ws ! s - 1) = code s" using owner [OF i] by blast
    moreover have "ws ! s \<le> tlog" using t(5) s(1) by simp
    ultimately show ?thesis unfolding entries [OF s] using s(2) by auto
  qed
  then have "huf_is_valid entries tlog" using t(1,2,6) by (auto simp: huf_is_valid_def HUF_TABLE_LOG_MAX_def list_all_length)
  then have "ht_valid t" by (simp add: t(3) huffman_table_new_def)
  moreover have "ht_entries t = entries" "ht_table_log t = tlog" by (simp_all add: t(3) huffman_table_new_def Let_def)
  ultimately show ?thesis unfolding Let_def using owner entries
    by (intro conjI exI [of _ lw] exI [of _ code]) (simp_all add: ws_def [symmetric])
qed

theorem huffman_table_complete_witness:
  "\<exists>t. table_of_weights [2, 1] = Inr t \<and> ht_valid t"
proof -
  have "highest_bit 3 = 1" "highest_bit 1 = 0" "weight_sum [2, 1] = 3" by code_simp+
  then have "\<exists>t. table_of_weights [2, 1] = Inr t"
    by (simp add: table_of_weights_def HUF_TABLE_LOG_MAX_def numeral_2_eq_2 upt_rec Let_def split: prod.splits)
  then show ?thesis using huffman_table_complete by blast
qed

end
