(* ===== verification/ZHufStream.thy ===== *)
theory ZHufStream
  imports ZHufTable
begin

text \<open>
  Huffman-coded literals: the decoders, which keep bits in a word, write several symbols at a time and
  interleave four streams, give the symbols that are read from the stream one by one.
\<close>

section \<open>Symbol by symbol\<close>

text \<open>The next 12 of \<open>remaining\<close> unread bits, padded with zeros.\<close>

definition top_bits :: "bytes \<Rightarrow> nat \<Rightarrow> nat" where
  "top_bits src remaining =
     (if 12 \<le> remaining then bits_val src (remaining - 12) 12 else push_bit (12 - remaining) (bits_val src 0 remaining))"

text \<open>Up to \<open>n\<close> symbols, as long as their bits are there; and the bits that are left.\<close>

primrec huf_symbols :: "u16 list \<Rightarrow> bytes \<Rightarrow> nat \<Rightarrow> nat \<Rightarrow> bytes \<times> nat" where
  "huf_symbols lookup src 0 remaining = ([], remaining)"
| "huf_symbols lookup src (Suc n) remaining =
     (let e = lookup ! top_bits src remaining; nb = unat (e AND 0x3F) in
      if remaining < nb then ([], remaining)
      else case huf_symbols lookup src n (remaining - nb) of (ss, r) \<Rightarrow> (u8 (drop_bit 8 e) # ss, r))"

lemma huf_symbols_length: "length (fst (huf_symbols lookup src n r)) \<le> n"
  by (induction n arbitrary: r) (auto simp: Let_def split: prod.splits, metis fst_conv)

lemma huf_symbols_add:
  "huf_symbols lookup src n r = (ss, r') \<Longrightarrow> length ss = n \<Longrightarrow>
   huf_symbols lookup src (n + m) r = (ss @ fst (huf_symbols lookup src m r'), snd (huf_symbols lookup src m r'))"
  by (induction n arbitrary: r ss) (auto simp: Let_def split: prod.splits if_splits)

section \<open>Tables\<close>

text \<open>What the decoders need of a lookup table: code lengths in range, and only the upper bits matter.\<close>

definition lookup_ok :: "u16 list \<Rightarrow> nat \<Rightarrow> bool" where
  "lookup_ok lookup tlog \<longleftrightarrow> 1 \<le> tlog \<and> tlog \<le> 12 \<and>
     (\<forall>p < 4096. 1 \<le> unat (lookup ! p AND 0x3F) \<and> unat (lookup ! p AND 0x3F) \<le> tlog) \<and>
     (\<forall>p q. p < 4096 \<longrightarrow> q < 4096 \<longrightarrow> drop_bit (12 - tlog) p = drop_bit (12 - tlog) q \<longrightarrow> lookup ! p = lookup ! q)"

lemma bit_small: "(x :: nat) < 2 ^ k \<Longrightarrow> k \<le> n \<Longrightarrow> \<not> bit x n"
  by (metis bit_take_bit_iff not_less take_bit_nat_eq_self)

lemma huf_slot_bits:
  assumes "he_nb_bits e < 64"
  shows "unat (huf_slot e AND 0x3F) = he_nb_bits e" "u8 (drop_bit 8 (huf_slot e)) = of_nat (he_symbol e)"
proof -
  have m: "(0x3F :: u16) = push_bit 6 1 - 1" by simp
  have "huf_slot e AND 0x3F = take_bit 6 (of_nat (he_nb_bits e) OR push_bit 8 (of_nat (he_symbol e)))"
    unfolding huf_slot_def by (simp add: take_bit_eq_mask mask_eq_exp_minus_1)
  also have "\<dots> = take_bit 6 (of_nat (he_nb_bits e))"
    by (rule bit_word_eqI) (auto simp: bit_simps)
  finally show "unat (huf_slot e AND 0x3F) = he_nb_bits e"
    using assms by (simp add: unsigned_take_bit_eq take_bit_nat_eq_self unsigned_of_nat)
  show "u8 (drop_bit 8 (huf_slot e)) = of_nat (he_symbol e)"
  proof (rule bit_word_eqI)
    fix n assume n: "n < LENGTH(8)"
    have "\<not> bit (he_nb_bits e) (8 + n)" by (rule bit_small [of _ 6]) (use assms in auto)
    then show "bit (u8 (drop_bit 8 (huf_slot e))) n = bit (of_nat (he_symbol e) :: 8 word) n"
      using n unfolding huf_slot_def by (simp add: bit_unsigned_iff bit_drop_bit_eq bit_or_iff bit_push_bit_iff bit_of_nat_iff)
  qed
qed

lemma lookup_ok_table:
  assumes "ht_valid (huffman_table_new entries tlog)"
  shows "lookup_ok (ht_lookup (huffman_table_new entries tlog)) tlog"
    and "p < 4096 \<Longrightarrow> unat (ht_lookup (huffman_table_new entries tlog) ! p AND 0x3F) = he_nb_bits (entries ! drop_bit (12 - tlog) p)"
proof -
  have valid: "huf_is_valid entries tlog" using assms by (simp add: huffman_table_new_def Let_def)
  then have log: "1 \<le> tlog" "tlog \<le> 12" by (auto simp: huf_is_valid_def HUF_TABLE_LOG_MAX_def)
  let ?l = "ht_lookup (huffman_table_new entries tlog)"
  have nth: "?l ! p = huf_slot (entries ! drop_bit (12 - tlog) p)" if "p < 4096" for p
    using valid that by (simp add: huffman_table_new_def Let_def HUF_LOOKUP_SIZE_def HUF_TABLE_LOG_MAX_def)
  have range: "1 \<le> he_nb_bits (entries ! drop_bit (12 - tlog) p)" "he_nb_bits (entries ! drop_bit (12 - tlog) p) \<le> tlog"
    if "p < 4096" for p
  proof -
    have "p div 2 ^ (12 - tlog) < 2 ^ tlog"
      using that log by (simp add: div_less_iff_less_mult power_add [symmetric])
    moreover have "list_all (\<lambda>e. 1 \<le> he_nb_bits e \<and> he_nb_bits e \<le> tlog) (take (2 ^ tlog) entries)" "2 ^ tlog \<le> length entries"
      using valid by (auto simp: huf_is_valid_def)
    ultimately show "1 \<le> he_nb_bits (entries ! drop_bit (12 - tlog) p)" "he_nb_bits (entries ! drop_bit (12 - tlog) p) \<le> tlog"
      by (auto simp: list_all_length drop_bit_eq_div)
  qed
  show nb: "unat (?l ! p AND 0x3F) = he_nb_bits (entries ! drop_bit (12 - tlog) p)" if "p < 4096" for p
    using huf_slot_bits(1) [of "entries ! drop_bit (12 - tlog) p"] range [OF that] log nth [OF that] by simp
  show "lookup_ok ?l tlog" unfolding lookup_ok_def using log range nb nth by auto
qed

section \<open>The bit cache\<close>

text \<open>The cache holds the next \<open>cbits\<close> unread bits at its top, and zeros below.\<close>

definition cache_ok :: "bytes \<Rightarrow> nat \<Rightarrow> nat \<Rightarrow> u64 \<Rightarrow> bool" where
  "cache_ok src remaining cbits cache \<longleftrightarrow> cbits \<le> remaining \<and> cbits \<le> 64 \<and>
     (\<forall>k < 64. bit cache k \<longleftrightarrow> 64 \<le> k + cbits \<and> bit_at src (remaining + k - 64))"

lemma cache_load:
  assumes "avail \<le> remaining" "avail \<le> 56"
  shows "cache_ok src remaining avail (push_bit (64 - avail) (of_nat (extract_bits src (remaining - avail) avail)))"
  unfolding cache_ok_def
proof (intro conjI allI impI)
  fix k :: nat assume k: "k < 64"
  have "bit (push_bit (64 - avail) (of_nat (extract_bits src (remaining - avail) avail)) :: u64) k \<longleftrightarrow>
      64 - avail \<le> k \<and> bit (bits_val src (remaining - avail) avail) (k - (64 - avail))"
    using k unfolding extract_bits_val [OF assms(2)] by (auto simp: bit_push_bit_iff bit_of_nat_iff)
  also have "\<dots> \<longleftrightarrow> 64 \<le> k + avail \<and> bit_at src (remaining + k - 64)"
  proof (cases "64 \<le> k + avail")
    case True
    then have "remaining - avail + (k - (64 - avail)) = remaining + k - 64" "k - (64 - avail) < avail" "64 - avail \<le> k"
      using assms k by linarith+
    then show ?thesis using True by (simp add: bit_bits_val)
  qed auto
  finally show "bit (push_bit (64 - avail) (of_nat (extract_bits src (remaining - avail) avail)) :: u64) k =
      (64 \<le> k + avail \<and> bit_at src (remaining + k - 64))" .
qed (use assms in auto)

lemma cache_shift:
  assumes "cache_ok src remaining cbits cache" "nb \<le> cbits"
  shows "cache_ok src (remaining - nb) (cbits - nb) (push_bit nb cache)"
proof -
  have le: "cbits \<le> remaining" "cbits \<le> 64" using assms(1) by (simp_all add: cache_ok_def)
  have bit: "bit cache k \<longleftrightarrow> 64 \<le> k + cbits \<and> bit_at src (remaining + k - 64)" if "k < 64" for k
    using assms(1) that by (auto simp: cache_ok_def)
  have "bit (push_bit nb cache) k \<longleftrightarrow> 64 \<le> k + (cbits - nb) \<and> bit_at src (remaining - nb + k - 64)" if "k < 64" for k
  proof -
    have "bit (push_bit nb cache) k \<longleftrightarrow> nb \<le> k \<and> bit cache (k - nb)" using that by (simp add: bit_push_bit_iff)
    also have "\<dots> \<longleftrightarrow> nb \<le> k \<and> 64 \<le> k - nb + cbits \<and> bit_at src (remaining + (k - nb) - 64)" using bit [of "k - nb"] that by auto
    also have "\<dots> \<longleftrightarrow> 64 \<le> k + (cbits - nb) \<and> bit_at src (remaining - nb + k - 64)"
      using assms(2) le by (cases "nb \<le> k") auto
    finally show ?thesis .
  qed
  then show ?thesis using le assms(2) unfolding cache_ok_def by auto
qed

lemma bit_top_bits: "bit (top_bits src remaining) k \<longleftrightarrow> k < 12 \<and> 12 \<le> k + remaining \<and> bit_at src (remaining + k - 12)"
proof (cases "12 \<le> remaining")
  case True
  then show ?thesis by (auto simp: top_bits_def bit_bits_val)
next
  case False
  have "remaining + k - 12 = k - (12 - remaining)" using False by linarith
  then show ?thesis using False by (auto simp: top_bits_def bit_push_bit_iff bit_bits_val)
qed

lemma top_bits_less: "top_bits src remaining < 4096"
proof -
  have "take_bit 12 (top_bits src remaining) = top_bits src remaining" by (rule bit_eqI) (auto simp: bit_take_bit_iff bit_top_bits)
  then have "top_bits src remaining < 2 ^ 12" by (metis take_bit_nat_less_exp)
  then show ?thesis by simp
qed

text \<open>Looking up the top of the cache gives the next symbol, whenever enough bits are cached.\<close>

lemma huf_lookup_top:
  assumes ok: "lookup_ok lookup tlog" and cache: "cache_ok src remaining cbits cache" and enough: "tlog \<le> cbits \<or> cbits = remaining"
  shows "huf_lookup lookup cache =
    (u8 (drop_bit 8 (lookup ! top_bits src remaining)), unat (lookup ! top_bits src remaining AND 0x3F))"
proof -
  let ?p = "unat (drop_bit 52 cache)" and ?q = "top_bits src remaining"
  have bit_p: "bit ?p k \<longleftrightarrow> k < 12 \<and> bit cache (52 + k)" for k
    using bit_imp_le_length [of cache "52 + k"] by (auto simp: bit_unsigned_iff bit_drop_bit_eq)
  have "take_bit 12 ?p = ?p" by (rule bit_eqI) (auto simp: bit_take_bit_iff bit_p)
  then have "?p < 2 ^ 12" by (metis take_bit_nat_less_exp)
  then have p: "?p < 4096" by simp
  have log: "1 \<le> tlog" "tlog \<le> 12" using ok by (auto simp: lookup_ok_def)
  have "drop_bit (12 - tlog) ?p = drop_bit (12 - tlog) ?q"
  proof (rule bit_eqI)
    fix k
    let ?k = "12 - tlog + k"
    have "bit ?p ?k \<longleftrightarrow> ?k < 12 \<and> 12 \<le> ?k + cbits \<and> bit_at src (remaining + ?k - 12)"
      using cache unfolding bit_p cache_ok_def by (auto simp: add.commute [of 52])
    also have "\<dots> \<longleftrightarrow> bit ?q ?k" unfolding bit_top_bits using enough cache log by (auto simp: cache_ok_def)
    finally show "bit (drop_bit (12 - tlog) ?p) k \<longleftrightarrow> bit (drop_bit (12 - tlog) ?q) k" by (simp add: bit_drop_bit_eq)
  qed
  then have "lookup ! ?p = lookup ! ?q" using ok p top_bits_less unfolding lookup_ok_def by blast
  then show ?thesis by (simp add: huf_lookup_def Let_def HUF_TABLE_LOG_MAX_def)
qed

section \<open>One stream\<close>

lemma nb_range:
  assumes "lookup_ok lookup tlog"
  shows "1 \<le> unat (lookup ! top_bits src remaining AND 0x3F)" "unat (lookup ! top_bits src remaining AND 0x3F) \<le> tlog"
  using assms top_bits_less by (auto simp: lookup_ok_def)

lemma huf_symbols_0: "lookup_ok lookup tlog \<Longrightarrow> huf_symbols lookup src n 0 = ([], 0)"
  using nb_range(1) [of lookup tlog src 0] by (cases n) (auto simp: Let_def)

text \<open>
  The inner loop reads some symbols: if it leaves the outer loop too, all that can be read, otherwise a
  part that can be continued.
\<close>

lemma tail_inner_symbols:
  assumes ok: "lookup_ok lookup tlog"
  shows "tail_inner lookup tlog end cache cbits (remaining, out, decoded) = ((remaining', out', decoded'), left) \<Longrightarrow>
    cache_ok src remaining cbits cache \<Longrightarrow> tlog \<le> cbits \<or> cbits = remaining \<Longrightarrow> decoded < end \<Longrightarrow> end \<le> length out \<Longrightarrow>
    \<exists>n. n \<le> end - decoded \<and> (left \<longrightarrow> n = end - decoded) \<and>
      (\<exists>ss. huf_symbols lookup src n remaining = (ss, remaining') \<and> decoded' = decoded + length ss \<and> out' = copy_into out decoded ss \<and>
        (\<not> left \<longrightarrow> length ss = n \<and> 0 < n))"
proof (induction "end - decoded" arbitrary: cache cbits remaining out decoded rule: less_induct)
  case less
  let ?e = "lookup ! top_bits src remaining"
  define nb where "nb = unat (?e AND 0x3F)"
  define symbol where "symbol = u8 (drop_bit 8 ?e)"
  have l: "huf_lookup lookup cache = (symbol, nb)"
    unfolding symbol_def nb_def by (rule huf_lookup_top [OF ok less.prems(2,3)])
  have nb: "1 \<le> nb" "nb \<le> tlog" unfolding nb_def by (rule nb_range [OF ok])+
  have sym: "huf_symbols lookup src (Suc n) remaining =
      (if remaining < nb then ([], remaining) else case huf_symbols lookup src n (remaining - nb) of (ss, r) \<Rightarrow> (symbol # ss, r))" for n
    by (simp add: nb_def symbol_def Let_def)
  have stuck: "huf_symbols lookup src n remaining = ([], remaining)" if "remaining < nb" for n
    using that sym by (cases n) auto
  have copy: "copy_into (out[decoded := symbol]) (decoded + 1) ss = copy_into out decoded (symbol # ss)"
    if "decoded + 1 + length ss \<le> length out" for ss
    using that by (simp add: copy_into_def upd_conv_take_nth_drop add.commute)
  show ?case
  proof (cases "remaining < nb")
    case True
    then have "remaining' = remaining \<and> out' = out \<and> decoded' = decoded \<and> left"
      using less.prems(1) l by (subst (asm) tail_inner.simps) auto
    then show ?thesis using stuck [OF True]
      by (intro exI [of _ "end - decoded"] conjI exI [of _ "[]"]) (auto simp: copy_into_def)
  next
    case False
    have le: "nb \<le> cbits" using less.prems(3) nb(2) False by auto
    have one: "huf_symbols lookup src (Suc 0) remaining = ([symbol], remaining - nb)"
      unfolding sym using False by simp
    have put: "out[decoded := symbol] = copy_into out decoded [symbol]"
      using less.prems(4,5) by (simp add: copy_into_def upd_conv_take_nth_drop)
    have step: "tail_inner lookup tlog end cache cbits (remaining, out, decoded) =
        (if end \<le> decoded + 1 then ((remaining - nb, out[decoded := symbol], decoded + 1), True)
         else if cbits - nb < tlog \<and> cbits - nb < remaining - nb then ((remaining - nb, out[decoded := symbol], decoded + 1), False)
         else tail_inner lookup tlog end (push_bit nb cache) (cbits - nb) (remaining - nb, out[decoded := symbol], decoded + 1))"
      using l False by (subst tail_inner.simps) (simp add: Let_def)
    show ?thesis
    proof (cases "end \<le> decoded + 1 \<or> (cbits - nb < tlog \<and> cbits - nb < remaining - nb)")
      case True
      then have "remaining' = remaining - nb \<and> out' = out[decoded := symbol] \<and> decoded' = decoded + 1 \<and> left = (end \<le> decoded + 1)"
        using less.prems(1) unfolding step by (auto split: if_splits)
      then show ?thesis using one put less.prems(4) by (intro exI [of _ 1] conjI exI [of _ "[symbol]"]) auto
    next
      case False
      have cache': "cache_ok src (remaining - nb) (cbits - nb) (push_bit nb cache)" by (rule cache_shift [OF less.prems(2) le])
      have rec: "tail_inner lookup tlog end (push_bit nb cache) (cbits - nb) (remaining - nb, out[decoded := symbol], decoded + 1) =
          ((remaining', out', decoded'), left)" using less.prems(1) False unfolding step by auto
      have "\<exists>n. n \<le> end - (decoded + 1) \<and> (left \<longrightarrow> n = end - (decoded + 1)) \<and>
          (\<exists>ss. huf_symbols lookup src n (remaining - nb) = (ss, remaining') \<and> decoded' = decoded + 1 + length ss \<and>
             out' = copy_into (out[decoded := symbol]) (decoded + 1) ss \<and> (\<not> left \<longrightarrow> length ss = n \<and> 0 < n))"
        by (rule less.hyps [OF _ rec cache']) (use False cache' less.prems(5) in \<open>auto simp: cache_ok_def\<close>)
      then obtain n ss where n: "n \<le> end - (decoded + 1)" "left \<longrightarrow> n = end - (decoded + 1)"
        "huf_symbols lookup src n (remaining - nb) = (ss, remaining')" "decoded' = decoded + 1 + length ss"
        "out' = copy_into (out[decoded := symbol]) (decoded + 1) ss" "\<not> left \<longrightarrow> length ss = n \<and> 0 < n" by blast
      have "length ss \<le> n" using huf_symbols_length [of lookup src n "remaining - nb"] n(3) by simp
      then have "out' = copy_into out decoded (symbol # ss)" using n(1,5) less.prems(5) False by (subst copy [symmetric]) auto
      moreover have "huf_symbols lookup src (Suc n) remaining = (symbol # ss, remaining')" 
        unfolding sym using n(3) \<open>\<not> remaining < nb\<close> by simp
      ultimately show ?thesis using n False by (intro exI [of _ "Suc n"] conjI exI [of _ "symbol # ss"]) auto
    qed
  qed
qed

text \<open>The tail decoder writes what is read symbol by symbol.\<close>

lemma decode_stream_tail_symbols:
  assumes ok: "lookup_ok lookup tlog"
  shows "decoded \<le> end \<Longrightarrow> end \<le> length out \<Longrightarrow>
    decode_stream_tail lookup tlog src end (remaining, out, decoded) =
      (case huf_symbols lookup src (end - decoded) remaining of (ss, r) \<Rightarrow> (r, copy_into out decoded ss, decoded + length ss))"
proof (induction "end - decoded" arbitrary: remaining out decoded rule: less_induct)
  case less
  show ?case
  proof (cases "decoded < end \<and> 0 < remaining")
    case False
    then have "huf_symbols lookup src (end - decoded) remaining = ([], remaining)"
      using less.prems(1) huf_symbols_0 [OF ok] by (cases "remaining = 0") auto
    moreover have "decode_stream_tail lookup tlog src end (remaining, out, decoded) = (remaining, out, decoded)"
      using False by (subst decode_stream_tail.simps) auto
    ultimately show ?thesis by (simp add: copy_into_def)
  next
    case True
    define avail where "avail = min remaining 56"
    define cache :: u64 where "cache = push_bit (64 - avail) (of_nat (extract_bits src (remaining - avail) avail))"
    obtain remaining' out' decoded' left where inner:
      "tail_inner lookup tlog end cache avail (remaining, out, decoded) = ((remaining', out', decoded'), left)"
      by (cases "tail_inner lookup tlog end cache avail (remaining, out, decoded)") auto
    have cache: "cache_ok src remaining avail cache" unfolding cache_def by (rule cache_load) (simp_all add: avail_def)
    have "tlog \<le> 12" using ok unfolding lookup_ok_def by blast
    then have enough: "tlog \<le> avail \<or> avail = remaining" by (auto simp: avail_def)
    have "decoded < end" using True by simp
    from tail_inner_symbols [OF ok inner cache enough this less.prems(2)]
    obtain n ss where n: "n \<le> end - decoded" "left \<longrightarrow> n = end - decoded" "huf_symbols lookup src n remaining = (ss, remaining')"
      "decoded' = decoded + length ss" "out' = copy_into out decoded ss" "\<not> left \<longrightarrow> length ss = n \<and> 0 < n" by metis
    have step: "decode_stream_tail lookup tlog src end (remaining, out, decoded) =
        (if left then (remaining', out', decoded') else decode_stream_tail lookup tlog src end (remaining', out', decoded'))"
      using True inner by (subst decode_stream_tail.simps) (simp add: Let_def avail_def [symmetric] cache_def [symmetric])
    show ?thesis
    proof (cases left)
      case True
      then show ?thesis using step n by simp
    next
      case False
      then have ss: "length ss = n" "0 < n" using n(6) by auto
      have len: "length out' = length out" using n(1,5) ss less.prems by simp
      have "decode_stream_tail lookup tlog src end (remaining', out', decoded') =
          (case huf_symbols lookup src (end - decoded') remaining' of (ss, r) \<Rightarrow> (r, copy_into out' decoded' ss, decoded' + length ss))"
        by (rule less.hyps) (use n ss less.prems len True in auto)
      moreover obtain ss2 r2 where two: "huf_symbols lookup src (end - decoded') remaining' = (ss2, r2)" by (metis surj_pair)
      moreover have "length ss2 \<le> end - decoded'" using huf_symbols_length [of lookup src "end - decoded'" remaining'] two by simp
      then have "decoded + length ss + length ss2 \<le> length out" using n(1,4) ss less.prems by linarith
      then have "copy_into out' decoded' ss2 = copy_into out decoded (ss @ ss2)" unfolding n(4,5) by (rule copy_into_append)
      moreover have "huf_symbols lookup src (end - decoded) remaining = (ss @ ss2, r2)"
        using huf_symbols_add [OF n(3) ss(1), of "end - decoded'"] two n(1,4) ss by simp
      ultimately show ?thesis using step False n(4) by simp
    qed
  qed
qed

text \<open>The number of unread bits of a stream with its end mark.\<close>

lemma init_stream_bits_Inr: "init_stream_bits src = Inr r \<longleftrightarrow> (\<exists>b. backward_new src = Inr b \<and> r = bits_remaining b)"
  by (auto simp: init_stream_bits_def and_then_Inr_iff)

lemma huffman_one_stream:
  assumes "ht_valid t" "t = huffman_table_new entries tlog" "src \<noteq> []"
  shows "decompress_huffman_1stream t src out = Inr out' \<longleftrightarrow>
    (\<exists>r. init_stream_bits src = Inr r \<and> fst (huf_symbols (ht_lookup t) src (length out) r) = out' \<and> length out' = length out)"
proof -
  have ok: "lookup_ok (ht_lookup t) tlog" "ht_table_log t = tlog"
    using lookup_ok_table(1) assms by (auto simp: huffman_table_new_def Let_def)
  have "decode_stream_tail (ht_lookup t) tlog src (length out) (r, out, 0) =
      (case huf_symbols (ht_lookup t) src (length out) r of (ss, r) \<Rightarrow> (r, copy_into out 0 ss, length ss))" for r
    using decode_stream_tail_symbols [OF ok(1), of 0 "length out" out src r] by simp
  note tail = this
  show ?thesis
  proof (cases "init_stream_bits src")
    case (Inl e)
    then show ?thesis using assms(3) by (simp add: decompress_huffman_1stream_def)
  next
    case (Inr r)
    obtain ss r' where "huf_symbols (ht_lookup t) src (length out) r = (ss, r')" by (metis surj_pair)
    then show ?thesis using assms(1,3) ok(2) Inr tail [of r] by (auto simp: decompress_huffman_1stream_def copy_into_full)
  qed
qed

section \<open>Rounds of several symbols\<close>

lemma le_word_snoc: "le_word (bs @ [b]) = le_word bs OR push_bit (8 * length bs) (ucast b)"
proof (induction bs)
  case (Cons c bs)
  have "push_bit 8 (le_word bs OR push_bit (8 * length bs) (ucast b)) = push_bit 8 (le_word bs) OR push_bit (8 * length (c # bs)) (ucast b :: u64)"
    by (rule bit_word_eqI) (auto simp: bit_push_bit_iff bit_or_iff)
  then show ?case using Cons by (simp add: or.assoc)
qed simp

lemma to_le64_word: "length ss \<le> 8 \<Longrightarrow> take (length ss) (to_le64 (le_word ss)) = ss"
proof (rule nth_equalityI)
  fix j assume len: "length ss \<le> 8" and j: "j < length (take (length ss) (to_le64 (le_word ss)))"
  then have j: "j < length ss" by simp
  have "u8 (drop_bit (8 * j) (le_word ss)) = ss ! j"
  proof (rule bit_word_eqI)
    fix n assume "n < LENGTH(8)"
    then have n: "n < 8" by simp
    then have "8 * j + n < 64" "(8 * j + n) div 8 = j" "(8 * j + n) mod 8 = n" using j len by auto
    then show "bit (u8 (drop_bit (8 * j) (le_word ss))) n = bit (ss ! j) n"
      using n j by (simp add: bit_unsigned_iff bit_drop_bit_eq bit_le_word bit_at_def)
  qed
  then show "take (length ss) (to_le64 (le_word ss)) ! j = ss ! j" using j len by (simp add: to_le64_def)
qed (simp add: to_le64_def)

text \<open>One stream in a round of \<open>K\<close> symbols.\<close>

definition fast_one :: "u16 list \<Rightarrow> nat \<Rightarrow> u64 \<times> u64 \<times> nat \<Rightarrow> u64 \<times> u64 \<times> nat" where
  "fast_one lookup k st =
     (case st of (cache, word, used) \<Rightarrow> case huf_lookup lookup cache of
       (symbol, nb) \<Rightarrow> (push_bit nb cache, word OR push_bit (8 * k) (ucast symbol), used + nb))"

lemma fold_fast_symbol: "fold (fast_symbol lookup) ks regs = map (\<lambda>st. fold (fast_one lookup) ks st) regs"
proof (induction ks arbitrary: regs)
  case (Cons k ks)
  have "fast_symbol lookup k regs = map (fast_one lookup k) regs"
    by (simp add: fast_symbol_def fast_one_def split_def)
  then show ?case using Cons by (simp add: comp_def)
qed simp

lemma fast_one_round:
  assumes ok: "lookup_ok lookup tlog" and K: "K * tlog \<le> 56" "56 \<le> remaining"
  shows "k \<le> K \<Longrightarrow> \<exists>ss used cache. huf_symbols lookup src k remaining = (ss, remaining - used) \<and> length ss = k \<and> used \<le> k * tlog \<and>
    cache_ok src (remaining - used) (56 - used) cache \<and>
    fold (fast_one lookup) [0..<k] (push_bit 8 (of_nat (extract_bits src (remaining - 56) 56)), 0, 0) = (cache, le_word ss, used)"
proof (induction k)
  case 0
  have "cache_ok src remaining 56 (push_bit 8 (of_nat (extract_bits src (remaining - 56) 56)))"
    using cache_load [of 56 remaining src] K(2) by simp
  then show ?case by simp
next
  case (Suc k)
  then obtain ss used cache where s: "huf_symbols lookup src k remaining = (ss, remaining - used)" "length ss = k" "used \<le> k * tlog"
    "cache_ok src (remaining - used) (56 - used) cache"
    "fold (fast_one lookup) [0..<k] (push_bit 8 (of_nat (extract_bits src (remaining - 56) 56)), 0, 0) = (cache, le_word ss, used)"
    by auto
  let ?e = "lookup ! top_bits src (remaining - used)"
  define nb where "nb = unat (?e AND 0x3F)"
  define symbol where "symbol = u8 (drop_bit 8 ?e)"
  have "(k + 1) * tlog \<le> K * tlog" using Suc.prems by (intro mult_le_mono1) simp
  then have room: "used + tlog \<le> 56" using K(1) s(3) by simp
  have l: "huf_lookup lookup cache = (symbol, nb)"
    unfolding symbol_def nb_def by (rule huf_lookup_top [OF ok s(4)]) (use room in linarith)
  have nb: "nb \<le> tlog" unfolding nb_def by (rule nb_range [OF ok])
  have "huf_symbols lookup src (k + 1) remaining = (ss @ [symbol], remaining - (used + nb))"
    using huf_symbols_add [OF s(1,2), of 1] nb room K(2) by (simp add: nb_def [symmetric] symbol_def [symmetric] Let_def)
  moreover have "cache_ok src (remaining - (used + nb)) (56 - (used + nb)) (push_bit nb cache)"
    using cache_shift [OF s(4), of nb] nb room by simp
  moreover have "fold (fast_one lookup) [0..<Suc k] (push_bit 8 (of_nat (extract_bits src (remaining - 56) 56)), 0, 0) =
      (push_bit nb cache, le_word (ss @ [symbol]), used + nb)"
    using s(2,5) l by (simp add: fast_one_def le_word_snoc)
  moreover have "used + nb \<le> Suc k * tlog" using s(3) nb by simp
  ultimately show ?case using s(2) by (intro exI [of _ "ss @ [symbol]"] exI [of _ "used + nb"] exI [of _ "push_bit nb cache"]) simp
qed

end
