(* ===== verification/ZHufFour.thy ===== *)
theory ZHufFour
  imports ZHufStream
begin

text \<open>
  Four Huffman streams decoded in one loop give what they give one after the other.
\<close>

section \<open>The four segments of the output\<close>

definition segments_ok :: "nat list \<Rightarrow> nat list \<Rightarrow> nat \<Rightarrow> bool" where
  "segments_ok starts ends n \<longleftrightarrow> length starts = 4 \<and> length ends = 4 \<and>
     (\<forall>i < 4. starts ! i \<le> ends ! i \<and> ends ! i \<le> n) \<and> (\<forall>i < 4. \<forall>j < i. ends ! j \<le> starts ! i)"

text \<open>Each stream has been read as far as its segment is written.\<close>

definition streams_inv :: "u16 list \<Rightarrow> bytes list \<Rightarrow> nat list \<Rightarrow> nat list \<Rightarrow> nat list \<Rightarrow> nat \<Rightarrow> nat list \<times> nat list \<times> bytes \<Rightarrow> bool" where
  "streams_inv lookup srcs r0 starts ends n st \<longleftrightarrow>
     (case st of (rems, poss, out) \<Rightarrow> length rems = 4 \<and> length poss = 4 \<and> length out = n \<and>
        (\<forall>i < 4. starts ! i \<le> poss ! i \<and> poss ! i \<le> ends ! i \<and>
           huf_symbols lookup (srcs ! i) (poss ! i - starts ! i) (r0 ! i) = (subslice (starts ! i) (poss ! i) out, rems ! i)))"

lemma subslice_copy_other:
  "pos + length xs \<le> length out \<Longrightarrow> b \<le> pos \<or> pos + length xs \<le> a \<Longrightarrow> subslice a b (copy_into out pos xs) = subslice a b out"
  by (auto simp: subslice_def copy_into_def drop_take take_Cons' min_def intro!: nth_equalityI simp: nth_append)

lemma subslice_copy_end:
  "a \<le> pos \<Longrightarrow> pos + length xs \<le> length out \<Longrightarrow> subslice a (pos + length xs) (copy_into out pos xs) = subslice a pos out @ xs"
proof -
  assume a: "a \<le> pos" "pos + length xs \<le> length out"
  then obtain m where m: "pos = a + m" using le_Suc_ex by blast
  have "drop a (copy_into out pos xs) = take m (drop a out) @ xs @ drop (pos + length xs) out"
    using a m by (simp add: copy_into_def drop_take)
  then show ?thesis using a m by (simp add: subslice_def)
qed

text \<open>One stream goes on.\<close>

lemma streams_inv_step:
  assumes inv: "streams_inv lookup srcs r0 starts ends n (rems, poss, out)" and seg: "segments_ok starts ends n" and i: "i < 4"
    and read: "huf_symbols lookup (srcs ! i) k (rems ! i) = (xs, r)" "length xs = k" "poss ! i + k \<le> ends ! i"
  shows "streams_inv lookup srcs r0 starts ends n (rems[i := r], poss[i := poss ! i + k], copy_into out (poss ! i) xs)"
proof -
  have len: "length rems = 4" "length poss = 4" "length out = n" and
    each: "\<And>j. j < 4 \<Longrightarrow> starts ! j \<le> poss ! j \<and> poss ! j \<le> ends ! j \<and>
        huf_symbols lookup (srcs ! j) (poss ! j - starts ! j) (r0 ! j) = (subslice (starts ! j) (poss ! j) out, rems ! j)"
    using inv by (auto simp: streams_inv_def)
  have bound: "poss ! i + length xs \<le> length out" using seg i read(2,3) len by (force simp: segments_ok_def)
  have "starts ! j \<le> poss[i := poss ! i + k] ! j \<and> poss[i := poss ! i + k] ! j \<le> ends ! j \<and>
      huf_symbols lookup (srcs ! j) (poss[i := poss ! i + k] ! j - starts ! j) (r0 ! j) =
        (subslice (starts ! j) (poss[i := poss ! i + k] ! j) (copy_into out (poss ! i) xs), rems[i := r] ! j)" if j: "j < 4" for j
  proof (cases "j = i")
    case True
    have "length (subslice (starts ! i) (poss ! i) out) = poss ! i - starts ! i"
      using each [OF i] seg i len by (auto simp: segments_ok_def)
    then have "huf_symbols lookup (srcs ! i) (poss ! i - starts ! i + k) (r0 ! i) = (subslice (starts ! i) (poss ! i) out @ xs, r)"
      using huf_symbols_add [of lookup "srcs ! i" "poss ! i - starts ! i" "r0 ! i" _ _ k] each [OF i] read(1) by simp
    moreover have "poss ! i - starts ! i + k = poss ! i + k - starts ! i" using each [OF i] by simp
    moreover have "subslice (starts ! i) (poss ! i + k) (copy_into out (poss ! i) xs) = subslice (starts ! i) (poss ! i) out @ xs"
      using subslice_copy_end [of "starts ! i" "poss ! i" xs out] each [OF i] bound read(2) by simp
    ultimately show ?thesis using True each [OF i] read(3) i len by simp
  next
    case False
    have "poss ! j \<le> poss ! i \<or> poss ! i + length xs \<le> starts ! j"
    proof (cases "j < i")
      case True
      then have "ends ! j \<le> starts ! i" using seg i by (auto simp: segments_ok_def)
      then show ?thesis using each [OF j] each [OF i] by linarith
    next
      case False
      then have "ends ! i \<le> starts ! j" using seg j \<open>j \<noteq> i\<close> by (auto simp: segments_ok_def)
      then show ?thesis using read(2,3) by linarith
    qed
    then have "subslice (starts ! j) (poss ! j) (copy_into out (poss ! i) xs) = subslice (starts ! j) (poss ! j) out"
      using bound by (intro subslice_copy_other)
    then show ?thesis using False each [OF j] by simp
  qed
  then show ?thesis using len bound by (simp add: streams_inv_def)
qed

section \<open>A round\<close>

lemma fold_upt4: "fold f [0..<4] st = f 3 (f 2 (f 1 (f (0 :: nat) st)))"
  by (simp add: upt_rec numeral_eq_Suc)

lemma all4: "(\<forall>i < (4 :: nat). P i) \<longleftrightarrow> P 0 \<and> P 1 \<and> P 2 \<and> P 3"
  by (simp add: numeral_eq_Suc All_less_Suc) blast

lemma map_upt4: "map f [0..<4] = [f 0, f 1, f 2, f (3 :: nat)]"
  by (simp add: upt_rec numeral_eq_Suc)

lemma list4: "length xs = 4 \<Longrightarrow> \<exists>a b c d. xs = [a, b, c, d]"
  by (auto simp: numeral_eq_Suc length_Suc_conv)

lemma fast_round_inv:
  assumes inv: "streams_inv lookup srcs r0 starts ends n (rems, poss, out)" and seg: "segments_ok starts ends n"
    and ok: "lookup_ok lookup tlog" and K: "K * tlog \<le> 56" "K \<le> 8"
    and room: "\<forall>i < 4. 56 \<le> rems ! i \<and> poss ! i + K \<le> ends ! i"
  shows "\<exists>rems' poss' out'. fast_round K lookup srcs (rems, poss, out) = (rems', poss', out') \<and>
    streams_inv lookup srcs r0 starts ends n (rems', poss', out') \<and>
    (\<forall>i < 4. poss' ! i = poss ! i + K \<and> rems ! i \<le> rems' ! i + K * tlog)"
proof -
  define one where "one i = fold (fast_one lookup) [0..<K] (push_bit 8 (of_nat (extract_bits (srcs ! i) (rems ! i - 56) 56)), 0, 0)" for i
  define sym where "sym i = fst (huf_symbols lookup (srcs ! i) K (rems ! i))" for i
  define used where "used i = snd (snd (one i))" for i
  have one: "huf_symbols lookup (srcs ! i) K (rems ! i) = (sym i, rems ! i - used i) \<and> length (sym i) = K \<and> used i \<le> K * tlog \<and>
      fst (snd (one i)) = le_word (sym i)" if "i < 4" for i
    using fast_one_round [OF ok K(1), of "rems ! i" K "srcs ! i"] room that by (auto simp: sym_def used_def one_def)
  have len: "length rems = 4" "length poss = 4" using inv by (auto simp: streams_inv_def)
  define upd where "upd i st = (case st of (rems', poss', out') \<Rightarrow>
      (rems'[i := rems ! i - used i], poss'[i := poss ! i + K], copy_into out' (poss ! i) (sym i)))" for i and st :: "nat list \<times> nat list \<times> bytes"
  have piece: "take K (to_le64 (fst (snd (one i)))) = sym i" if "i < 4" for i
    using one [OF that] to_le64_word [of "sym i"] K(2) by simp
  have regs: "fold (fast_symbol lookup) [0..<K] (map (\<lambda>i. (push_bit 8 (of_nat (extract_bits (srcs ! i) (rems ! i - 56) 56)), 0, 0)) [0..<4]) = map one [0..<4]"
    by (simp add: fold_fast_symbol one_def comp_def)
  have "fast_round K lookup srcs (rems, poss, out) = upd 3 (upd 2 (upd 1 (upd 0 (rems, poss, out))))"
  proof -
    obtain a b c d where r: "rems = [a, b, c, d]" using list4 [OF len(1)] by blast
    obtain p q s t where p: "poss = [p, q, s, t]" using list4 [OF len(2)] by blast
    show ?thesis
      unfolding fast_round_def prod.case Let_def regs fold_upt4 upd_def
      using piece [of 0] piece [of 1] piece [of 2] piece [of 3]
      by (simp add: map_upt4 used_def r p numeral_eq_Suc)
  qed
  moreover have step: "streams_inv lookup srcs r0 starts ends n (upd i st)"
    if "streams_inv lookup srcs r0 starts ends n st" "i < 4" "fst st ! i = rems ! i" "fst (snd st) ! i = poss ! i" for i st
    using streams_inv_step [of lookup srcs r0 starts ends n "fst st" "fst (snd st)" "snd (snd st)" i K "sym i" "rems ! i - used i"]
      that seg one [of i] room by (auto simp: upd_def split_beta)
  moreover have "streams_inv lookup srcs r0 starts ends n (upd 3 (upd 2 (upd 1 (upd 0 (rems, poss, out)))))"
    by (intro step inv) (auto simp: upd_def split_beta)
  moreover have "poss' ! i = poss ! i + K \<and> rems ! i \<le> rems' ! i + K * tlog"
    if "upd 3 (upd 2 (upd 1 (upd 0 (rems, poss, out)))) = (rems', poss', out')" "i < 4" for rems' poss' out' i
  proof -
    have "i = 0 \<or> i = 1 \<or> i = 2 \<or> i = 3" using that(2) by linarith
    then have "rems' ! i = rems ! i - used i \<and> poss' ! i = poss ! i + K"
      using that(1) len by (elim disjE) (auto simp: upd_def nth_list_update)
    moreover have "used i \<le> K * tlog" using one [OF that(2)] by blast
    ultimately show ?thesis by linarith
  qed
  ultimately show ?thesis by (metis surj_pair)
qed

lemma fast_rounds_inv:
  assumes seg: "segments_ok starts ends n" and ok: "lookup_ok lookup tlog" and K: "K * tlog \<le> 56" "K \<le> 8"
  shows "streams_inv lookup srcs r0 starts ends n st \<Longrightarrow>
    (\<forall>i < 4. 56 + (m - 1) * (K * tlog) \<le> fst st ! i \<and> fst (snd st) ! i + m * K \<le> ends ! i) \<or> m = 0 \<Longrightarrow>
    streams_inv lookup srcs r0 starts ends n ((fast_round K lookup srcs ^^ m) st)"
proof (induction m arbitrary: st)
  case (Suc m)
  obtain rems poss out where st: "st = (rems, poss, out)" by (cases st)
  have room: "\<forall>i < 4. 56 + m * (K * tlog) \<le> rems ! i \<and> poss ! i + Suc m * K \<le> ends ! i" using Suc.prems(2) st by simp
  then have "\<forall>i < 4. 56 \<le> rems ! i \<and> poss ! i + K \<le> ends ! i" by fastforce
  from fast_round_inv [OF Suc.prems(1) [unfolded st] seg ok K this]
  obtain rems' poss' out' where r: "fast_round K lookup srcs (rems, poss, out) = (rems', poss', out')"
    "streams_inv lookup srcs r0 starts ends n (rems', poss', out')"
    "\<forall>i < 4. poss' ! i = poss ! i + K \<and> rems ! i \<le> rems' ! i + K * tlog" by blast
  have "streams_inv lookup srcs r0 starts ends n ((fast_round K lookup srcs ^^ m) (rems', poss', out'))"
  proof (rule Suc.IH [OF r(2)])
    show "(\<forall>i < 4. 56 + (m - 1) * (K * tlog) \<le> fst (rems', poss', out') ! i \<and> fst (snd (rems', poss', out')) ! i + m * K \<le> ends ! i) \<or> m = 0"
    proof (cases m)
      case (Suc k)
      have "56 + (m - 1) * (K * tlog) \<le> rems' ! i \<and> poss' ! i + m * K \<le> ends ! i" if "i < 4" for i
      proof -
        have "56 + m * (K * tlog) \<le> rems ! i" "poss ! i + Suc m * K \<le> ends ! i" using room that by auto
        moreover have "poss' ! i = poss ! i + K" "rems ! i \<le> rems' ! i + K * tlog" using r(3) that by auto
        moreover have "m * (K * tlog) = (m - 1) * (K * tlog) + K * tlog" using Suc by simp
        ultimately show ?thesis by (simp add: algebra_simps)
      qed
      then show ?thesis by simp
    qed simp
  qed
  moreover have "(fast_round K lookup srcs ^^ Suc m) st = (fast_round K lookup srcs ^^ m) (rems', poss', out')"
    by (simp only: st funpow_Suc_right comp_apply r(1))
  ultimately show ?case by simp
qed simp

lemma fast_rounds_bound:
  assumes "i < 4" "m = fast_rounds K tlog ends rems poss" "0 < m" "0 < K * tlog"
  shows "56 + (m - 1) * (K * tlog) \<le> rems ! i" "m * K \<le> ends ! i - poss ! i"
proof -
  have "m \<le> min (if 56 \<le> rems ! i then (rems ! i - 56) div (K * tlog) + 1 else 0) ((ends ! i - poss ! i) div K)"
    unfolding assms(2) fast_rounds_def by (rule Min_le) (use assms(1) in auto)
  then have m: "m \<le> (if 56 \<le> rems ! i then (rems ! i - 56) div (K * tlog) + 1 else 0)" "m \<le> (ends ! i - poss ! i) div K" by simp_all
  then have "56 \<le> rems ! i" using assms(3) by (auto split: if_splits)
  moreover have "(m - 1) * (K * tlog) \<le> (rems ! i - 56) div (K * tlog) * (K * tlog)"
    using m(1) \<open>56 \<le> rems ! i\<close> by (intro mult_le_mono1) simp
  ultimately show "56 + (m - 1) * (K * tlog) \<le> rems ! i" using div_times_less_eq_dividend [of "rems ! i - 56" "K * tlog"] by linarith
  have "m * K \<le> (ends ! i - poss ! i) div K * K" using m(2) by (rule mult_le_mono1)
  then show "m * K \<le> ends ! i - poss ! i" using div_times_less_eq_dividend [of "ends ! i - poss ! i" K] by linarith
qed

lemma decode_4streams_fast_inv:
  assumes seg: "segments_ok starts ends n" and ok: "lookup_ok lookup tlog" and K: "K * tlog \<le> 56" "K \<le> 8" "0 < K"
  shows "streams_inv lookup srcs r0 starts ends n (rems, poss, out) \<Longrightarrow>
    streams_inv lookup srcs r0 starts ends n (decode_4streams_fast K lookup tlog srcs ends (rems, poss, out))"
proof (induction "ends ! 0 - poss ! 0" arbitrary: rems poss out rule: less_induct)
  case less
  let ?m = "fast_rounds K tlog ends rems poss"
  have len: "length poss = 4" using less.prems by (simp add: streams_inv_def)
  have pos: "0 < K * tlog" using K ok by (auto simp: lookup_ok_def)
  show ?case
  proof (cases "?m = 0")
    case True
    then have "decode_4streams_fast K lookup tlog srcs ends (rems, poss, out) = (rems, poss, out)"
      by (subst decode_4streams_fast.simps) (simp add: Let_def)
    then show ?thesis using less.prems by simp
  next
    case False
    then have m: "0 < ?m" by simp
    obtain rems' poss' out' where r: "(fast_round K lookup srcs ^^ ?m) (rems, poss, out) = (rems', poss', out')" by (metis surj_pair)
    have step: "decode_4streams_fast K lookup tlog srcs ends (rems, poss, out) = decode_4streams_fast K lookup tlog srcs ends (rems', poss', out')"
      using False len r by (subst decode_4streams_fast.simps) (auto simp: Let_def)
    have le: "poss ! i \<le> ends ! i" if "i < 4" for i using less.prems that by (simp add: streams_inv_def)
    have room: "56 + (?m - 1) * (K * tlog) \<le> rems ! i \<and> poss ! i + ?m * K \<le> ends ! i" if "i < 4" for i
      using fast_rounds_bound [OF that refl m pos] le [OF that] by simp
    have inv: "streams_inv lookup srcs r0 starts ends n (rems', poss', out')"
      unfolding r [symmetric] by (rule fast_rounds_inv [OF seg ok K(1,2) less.prems]) (use room in simp)
    have "poss' ! 0 = poss ! 0 + ?m * K" using fast_round_poss [of ?m K lookup srcs rems poss out] r len by simp
    moreover have "0 < ?m * K" using m K(3) by simp
    ultimately have "ends ! 0 - poss' ! 0 < ends ! 0 - poss ! 0" using room [of 0] by linarith
    from less.hyps [OF this inv] show ?thesis unfolding step .
  qed
qed

section \<open>The streams one after the other\<close>

text \<open>What every stream alone gives for its segment, if it holds enough symbols.\<close>

definition stream_symbols :: "u16 list \<Rightarrow> bytes \<Rightarrow> nat \<Rightarrow> bytes option" where
  "stream_symbols lookup src n =
     (case init_stream_bits src of
        Inl e \<Rightarrow> None
      | Inr r \<Rightarrow> let ss = fst (huf_symbols lookup src n r) in if length ss = n then Some ss else None)"

lemma finish_streams_cong:
  "\<forall>i \<in> set idx. rems ! i = rems' ! i \<and> poss ! i = poss' ! i \<Longrightarrow>
   finish_streams t srcs ends rems poss idx out = finish_streams t srcs ends rems' poss' idx out"
  by (induction idx arbitrary: out) (auto split: prod.splits)

lemma finish_streams_inv:
  assumes seg: "segments_ok starts ends n" and ok: "lookup_ok (ht_lookup t) (ht_table_log t)"
  shows "streams_inv (ht_lookup t) srcs r0 starts ends n (rems, poss, out) \<Longrightarrow> distinct idx \<Longrightarrow> set idx \<subseteq> {..<4} \<Longrightarrow>
    (\<exists>out'. finish_streams t srcs ends rems poss idx out = Inr out') =
      (\<forall>i \<in> set idx. length (fst (huf_symbols (ht_lookup t) (srcs ! i) (ends ! i - starts ! i) (r0 ! i))) = ends ! i - starts ! i) \<and>
    (\<forall>out'. finish_streams t srcs ends rems poss idx out = Inr out' \<longrightarrow>
      (\<exists>rems' poss'. streams_inv (ht_lookup t) srcs r0 starts ends n (rems', poss', out') \<and>
         (\<forall>i < 4. poss' ! i = (if i \<in> set idx then ends ! i else poss ! i))))"
proof (induction idx arbitrary: rems poss out)
  case Nil
  then show ?case by auto
next
  case (Cons i idx)
  have i: "i < 4" "i \<notin> set idx" using Cons.prems by auto
  have inv: "starts ! i \<le> poss ! i" "poss ! i \<le> ends ! i" "ends ! i \<le> length out" "length out = n" "length rems = 4" "length poss = 4"
    "huf_symbols (ht_lookup t) (srcs ! i) (poss ! i - starts ! i) (r0 ! i) = (subslice (starts ! i) (poss ! i) out, rems ! i)"
    using Cons.prems(1) seg i by (auto simp: streams_inv_def segments_ok_def)
  obtain xs r where xs: "huf_symbols (ht_lookup t) (srcs ! i) (ends ! i - poss ! i) (rems ! i) = (xs, r)" by (metis surj_pair)
  have tail: "decode_stream_tail (ht_lookup t) (ht_table_log t) (srcs ! i) (ends ! i) (rems ! i, out, poss ! i) =
      (r, copy_into out (poss ! i) xs, poss ! i + length xs)"
    using decode_stream_tail_symbols [OF ok inv(2,3), of "srcs ! i" "rems ! i"] xs by simp
  have l: "length (subslice (starts ! i) (poss ! i) out) = poss ! i - starts ! i" using inv by simp
  have "huf_symbols (ht_lookup t) (srcs ! i) (ends ! i - starts ! i) (r0 ! i) = (subslice (starts ! i) (poss ! i) out @ xs, r)"
    using huf_symbols_add [OF inv(7) l, of "ends ! i - poss ! i"] xs inv(1,2) by simp
  then have full: "length (fst (huf_symbols (ht_lookup t) (srcs ! i) (ends ! i - starts ! i) (r0 ! i))) = ends ! i - starts ! i \<longleftrightarrow>
      poss ! i + length xs = ends ! i" using l inv(1,2) by auto
  show ?case
  proof (cases "poss ! i + length xs = ends ! i")
    case False
    then show ?thesis using tail full by simp
  next
    case True
    let ?rems = "rems[i := r]" and ?poss = "poss[i := ends ! i]" and ?out = "copy_into out (poss ! i) xs"
    have "length xs = ends ! i - poss ! i" "poss ! i + (ends ! i - poss ! i) = ends ! i" using True inv(2) by simp_all
    then have "streams_inv (ht_lookup t) srcs r0 starts ends n (?rems, ?poss, ?out)"
      using streams_inv_step [OF Cons.prems(1) seg i(1) xs] by simp
    note IH = Cons.IH [OF this]
    have same: "finish_streams t srcs ends rems poss idx ?out = finish_streams t srcs ends ?rems ?poss idx ?out"
      by (rule finish_streams_cong) (use i in \<open>auto intro!: nth_list_update_neq [symmetric]\<close>)
    have step: "finish_streams t srcs ends rems poss (i # idx) out = finish_streams t srcs ends ?rems ?poss idx ?out"
      using tail True same by simp
    show ?thesis
    proof
      show "(\<exists>out'. finish_streams t srcs ends rems poss (i # idx) out = Inr out') =
        (\<forall>i \<in> set (i # idx). length (fst (huf_symbols (ht_lookup t) (srcs ! i) (ends ! i - starts ! i) (r0 ! i))) = ends ! i - starts ! i)"
        unfolding step using IH Cons.prems full True by simp
      show "\<forall>out'. finish_streams t srcs ends rems poss (i # idx) out = Inr out' \<longrightarrow>
        (\<exists>rems' poss'. streams_inv (ht_lookup t) srcs r0 starts ends n (rems', poss', out') \<and>
           (\<forall>j < 4. poss' ! j = (if j \<in> set (i # idx) then ends ! j else poss ! j)))"
      proof (intro allI impI)
        fix out'
        assume "finish_streams t srcs ends rems poss (i # idx) out = Inr out'"
        then obtain rems' poss' where e: "streams_inv (ht_lookup t) srcs r0 starts ends n (rems', poss', out')"
          "\<forall>j < 4. poss' ! j = (if j \<in> set idx then ends ! j else ?poss ! j)"
          unfolding step using IH Cons.prems by auto
        have "poss' ! j = (if j \<in> set (i # idx) then ends ! j else poss ! j)" if "j < 4" for j
          using e(2) that i inv(6) by (cases "j = i") auto
        then show "\<exists>rems' poss'. streams_inv (ht_lookup t) srcs r0 starts ends n (rems', poss', out') \<and>
           (\<forall>j < 4. poss' ! j = (if j \<in> set (i # idx) then ends ! j else poss ! j))" using e(1) by blast
      qed
    qed
  qed
qed

definition four_streams :: "u16 list \<Rightarrow> bytes \<Rightarrow> nat \<Rightarrow> bytes option" where
  "four_streams lookup src n =
     (if length src < 6 then None
      else
        let b2 = 6 + le16 (src ! 0) (src ! 1); b3 = b2 + le16 (src ! 2) (src ! 3); b4 = b3 + le16 (src ! 4) (src ! 5) in
        if length src < b4 then None
        else if n = 0 then Some []
        else
          let seg = (n + 3) div 4; k1 = min seg n; k2 = min seg (n - seg); k3 = min seg (n - 2 * seg) in
          case (stream_symbols lookup (subslice 6 b2 src) k1, stream_symbols lookup (subslice b2 b3 src) k2,
                stream_symbols lookup (subslice b3 b4 src) k3, stream_symbols lookup (drop b4 src) (n - (k1 + k2 + k3))) of
            (Some s1, Some s2, Some s3, Some s4) \<Rightarrow> Some (s1 @ s2 @ s3 @ s4)
          | _ \<Rightarrow> None)"

lemma stream_symbols_Some:
  "stream_symbols lookup src n = Some ss \<longleftrightarrow>
     (\<exists>r. init_stream_bits src = Inr r \<and> fst (huf_symbols lookup src n r) = ss \<and> length ss = n)"
  by (auto simp: stream_symbols_def Let_def split: sum.splits)

text \<open>The four streams with their initial bits: the interleaved loop and the tails give all symbols, or fail.\<close>

lemma interleaved_streams:
  assumes ok: "lookup_ok (ht_lookup t) (ht_table_log t)" and k: "k1 + k2 + k3 \<le> n" and len: "length out = n"
    and log: "ht_table_log t \<le> 12"
  defines "starts \<equiv> [0, k1, k1 + k2, k1 + k2 + k3]" and "ends \<equiv> [k1, k1 + k2, k1 + k2 + k3, n]"
    and "K \<equiv> (if ht_table_log t \<le> 11 then 5 else 4 :: nat)"
    and "S \<equiv> \<lambda>src k r. fst (huf_symbols (ht_lookup t) src k r)"
  shows "(case decode_4streams_fast K (ht_lookup t) (ht_table_log t) [c1, c2, c3, c4] ends ([r1, r2, r3, r4], starts, out) of
      (rems, poss, out) \<Rightarrow> finish_streams t [c1, c2, c3, c4] ends rems poss [0..<4] out) = Inr out' \<longleftrightarrow>
    length (S c1 k1 r1) = k1 \<and> length (S c2 k2 r2) = k2 \<and> length (S c3 k3 r3) = k3 \<and> length (S c4 (n - (k1 + k2 + k3)) r4) = n - (k1 + k2 + k3) \<and>
    out' = S c1 k1 r1 @ S c2 k2 r2 @ S c3 k3 r3 @ S c4 (n - (k1 + k2 + k3)) r4"
proof -
  let ?srcs = "[c1, c2, c3, c4]" and ?r0 = "[r1, r2, r3, r4]" and ?l = "ht_lookup t" and ?tlog = "ht_table_log t"
  have seg: "segments_ok starts ends n" 
    unfolding segments_ok_def all4 starts_def ends_def using k by (auto simp: numeral_eq_Suc All_less_Suc less_Suc_eq)
  have K: "K * ?tlog \<le> 56" "K \<le> 8" "0 < K" using log by (auto simp: K_def)
  have "streams_inv ?l ?srcs ?r0 starts ends n (?r0, starts, out)"
    unfolding streams_inv_def prod.case all4 starts_def ends_def using len k by (simp add: subslice_def)
  from decode_4streams_fast_inv [OF seg ok K this]
  obtain rems poss out2 where fast: "decode_4streams_fast K ?l ?tlog ?srcs ends (?r0, starts, out) = (rems, poss, out2)"
    "streams_inv ?l ?srcs ?r0 starts ends n (rems, poss, out2)" by (metis surj_pair)
  note fin = finish_streams_inv [OF seg ok fast(2), of "[0..<4]"]
  have idx: "distinct [0..<4]" "set [0..<4] \<subseteq> {..<4 :: nat}" by auto
  have all: "(\<forall>i \<in> set [0..<4]. length (fst (huf_symbols ?l (?srcs ! i) (ends ! i - starts ! i) (?r0 ! i))) = ends ! i - starts ! i) \<longleftrightarrow>
      length (S c1 k1 r1) = k1 \<and> length (S c2 k2 r2) = k2 \<and> length (S c3 k3 r3) = k3 \<and>
      length (S c4 (n - (k1 + k2 + k3)) r4) = n - (k1 + k2 + k3)"
    by (auto simp: S_def starts_def ends_def upt_rec numeral_eq_Suc)
  have whole: "out' = S c1 k1 r1 @ S c2 k2 r2 @ S c3 k3 r3 @ S c4 (n - (k1 + k2 + k3)) r4"
    if out': "finish_streams t ?srcs ends rems poss [0..<4] out2 = Inr out'" for out'
  proof -
    obtain rems' poss' where e: "streams_inv ?l ?srcs ?r0 starts ends n (rems', poss', out')" "\<forall>i < 4. poss' ! i = ends ! i"
      using fin idx out' by auto
    then have "huf_symbols ?l (?srcs ! i) (ends ! i - starts ! i) (?r0 ! i) = (subslice (starts ! i) (ends ! i) out', rems' ! i)"
      "length out' = n" if "i < 4" for i
      using that by (auto simp: streams_inv_def)
    from this(1) [of 0] this(1) [of 1] this(1) [of 2] this(1) [of 3] this(2) [of 0]
    have "S c1 k1 r1 = take k1 out'" "S c2 k2 r2 = take k2 (drop k1 out')" "S c3 k3 r3 = take k3 (drop (k1 + k2) out')"
      "S c4 (n - (k1 + k2 + k3)) r4 = drop (k1 + k2 + k3) out'"
      by (simp_all add: S_def starts_def ends_def subslice_def numeral_eq_Suc)
    moreover have "take k1 out' @ take k2 (drop k1 out') @ take k3 (drop (k1 + k2) out') @ drop (k1 + k2 + k3) out' = out'"
      by (metis append_take_drop_id drop_drop add.commute)
    ultimately show ?thesis by simp
  qed
  have ex: "(\<exists>y. finish_streams t ?srcs ends rems poss [0..<4] out2 = Inr y) \<longleftrightarrow>
      length (S c1 k1 r1) = k1 \<and> length (S c2 k2 r2) = k2 \<and> length (S c3 k3 r3) = k3 \<and>
      length (S c4 (n - (k1 + k2 + k3)) r4) = n - (k1 + k2 + k3)"
    using fin [THEN conjunct1] idx unfolding all by simp
  show ?thesis
    unfolding fast(1) prod.case
  proof
    assume o: "finish_streams t ?srcs ends rems poss [0..<4] out2 = Inr out'"
    show "length (S c1 k1 r1) = k1 \<and> length (S c2 k2 r2) = k2 \<and> length (S c3 k3 r3) = k3 \<and> length (S c4 (n - (k1 + k2 + k3)) r4) = n - (k1 + k2 + k3) \<and>
      out' = S c1 k1 r1 @ S c2 k2 r2 @ S c3 k3 r3 @ S c4 (n - (k1 + k2 + k3)) r4"
    proof -
      have "\<exists>y. finish_streams t ?srcs ends rems poss [0..<4] out2 = Inr y" using o by (rule exI)
      then show ?thesis using ex whole [OF o] by metis
    qed
  next
    assume o: "length (S c1 k1 r1) = k1 \<and> length (S c2 k2 r2) = k2 \<and> length (S c3 k3 r3) = k3 \<and> length (S c4 (n - (k1 + k2 + k3)) r4) = n - (k1 + k2 + k3) \<and>
      out' = S c1 k1 r1 @ S c2 k2 r2 @ S c3 k3 r3 @ S c4 (n - (k1 + k2 + k3)) r4"
    then obtain y where "finish_streams t ?srcs ends rems poss [0..<4] out2 = Inr y" using ex by blast
    then show "finish_streams t ?srcs ends rems poss [0..<4] out2 = Inr out'" using whole o by simp
  qed
qed

text \<open>
  C35. The decoder of four interleaved Huffman streams, which looks symbols up in a 12-bit table, keeps 56 bits
  of each stream in a word and writes four or five symbols at a time, accepts the same inputs and gives
  the same bytes as reading the four streams one after the other, symbol by symbol.
\<close>

theorem huffman_streams_sequential:
  assumes "ht_valid (huffman_table_new entries tlog)"
  shows "decompress_huffman_4streams (huffman_table_new entries tlog) src out = Inr out' \<longleftrightarrow>
    four_streams (ht_lookup (huffman_table_new entries tlog)) src (length out) = Some out'"
proof -
  let ?t = "huffman_table_new entries tlog"
  have log: "ht_table_log ?t = tlog" by (simp add: huffman_table_new_def Let_def)
  have ok: "lookup_ok (ht_lookup ?t) (ht_table_log ?t)" using lookup_ok_table(1) [OF assms] log by simp
  then have small: "ht_table_log ?t \<le> 12" unfolding lookup_ok_def by blast
  define b2 where "b2 = 6 + le16 (src ! 0) (src ! 1)"
  define b3 where "b3 = b2 + le16 (src ! 2) (src ! 3)"
  define b4 where "b4 = b3 + le16 (src ! 4) (src ! 5)"
  define n where "n = length out"
  define sg where "sg = (n + 3) div 4"
  define k1 where "k1 = min sg n"
  define k2 where "k2 = min sg (n - sg)"
  define k3 where "k3 = min sg (n - 2 * sg)"
  have k: "k1 + k2 + k3 \<le> n" by (auto simp: k1_def k2_def k3_def)
  note names = b2_def [symmetric] b3_def [symmetric] b4_def [symmetric] n_def [symmetric] sg_def [symmetric]
    k1_def [symmetric] k2_def [symmetric] k3_def [symmetric]
  consider "length src < 6 \<or> length src < b4" | "6 \<le> length src" "b4 \<le> length src" "n = 0" | "6 \<le> length src" "b4 \<le> length src" "0 < n"
    by linarith
  then show ?thesis
  proof cases
    case 1
    then show ?thesis unfolding decompress_huffman_4streams_def four_streams_def Let_def names by (elim disjE) simp_all
  next
    case 2
    then have "out = []" by (simp add: n_def)
    then show ?thesis unfolding decompress_huffman_4streams_def four_streams_def Let_def names using 2 assms by auto
  next
    case 3
    let ?c1 = "subslice 6 b2 src" and ?c2 = "subslice b2 b3 src" and ?c3 = "subslice b3 b4 src" and ?c4 = "drop b4 src"
    let ?dec = "\<lambda>r1 r2 r3 r4. case decode_4streams_fast (if tlog \<le> 11 then 5 else 4) (ht_lookup ?t) tlog [?c1, ?c2, ?c3, ?c4]
        [k1, k1 + k2, k1 + k2 + k3, n] ([r1, r2, r3, r4], [0, k1, k1 + k2, k1 + k2 + k3], out) of
      (rems, poss, out) \<Rightarrow> finish_streams ?t [?c1, ?c2, ?c3, ?c4] [k1, k1 + k2, k1 + k2 + k3, n] rems poss [0..<4] out"
    have dec: "decompress_huffman_4streams ?t src out =
        (if list_ex (\<lambda>s. s = []) [?c1, ?c2, ?c3, ?c4] then Inl ''empty source for huffman 4-stream''
         else and_then (init_stream_bits ?c1) (\<lambda>r1. and_then (init_stream_bits ?c2) (\<lambda>r2.
              and_then (init_stream_bits ?c3) (\<lambda>r3. and_then (init_stream_bits ?c4) (\<lambda>r4. ?dec r1 r2 r3 r4)))))"
      using 3 assms unfolding decompress_huffman_4streams_def Let_def names log by simp
    have spec: "four_streams (ht_lookup ?t) src n =
        (case (stream_symbols (ht_lookup ?t) ?c1 k1, stream_symbols (ht_lookup ?t) ?c2 k2,
               stream_symbols (ht_lookup ?t) ?c3 k3, stream_symbols (ht_lookup ?t) ?c4 (n - (k1 + k2 + k3))) of
           (Some s1, Some s2, Some s3, Some s4) \<Rightarrow> Some (s1 @ s2 @ s3 @ s4) | _ \<Rightarrow> None)"
      using 3 unfolding four_streams_def Let_def names by simp
    have e: "init_stream_bits [] \<noteq> Inr r" for r by (simp add: init_stream_bits_def backward_new_def)
    show ?thesis
    proof (cases "\<exists>r1 r2 r3 r4. init_stream_bits ?c1 = Inr r1 \<and> init_stream_bits ?c2 = Inr r2 \<and>
        init_stream_bits ?c3 = Inr r3 \<and> init_stream_bits ?c4 = Inr r4")
      case False
      then have "decompress_huffman_4streams ?t src out \<noteq> Inr out'" unfolding dec by (auto simp: and_then_Inr_iff)
      moreover have "four_streams (ht_lookup ?t) src n \<noteq> Some out'"
        unfolding spec using False by (auto simp: stream_symbols_Some split: option.splits)
      ultimately show ?thesis by (simp add: n_def)
    next
      case True
      then obtain r1 r2 r3 r4 where r: "init_stream_bits ?c1 = Inr r1" "init_stream_bits ?c2 = Inr r2"
        "init_stream_bits ?c3 = Inr r3" "init_stream_bits ?c4 = Inr r4" by blast
      then have "?c1 \<noteq> [] \<and> ?c2 \<noteq> [] \<and> ?c3 \<noteq> [] \<and> ?c4 \<noteq> []" using e by metis
      then have "decompress_huffman_4streams ?t src out = ?dec r1 r2 r3 r4" unfolding dec r by simp
      then show ?thesis
        using interleaved_streams [OF ok k n_def [symmetric] small, of ?c1 ?c2 ?c3 ?c4 r1 r2 r3 r4 out'] log r
        unfolding n_def [symmetric] spec by (auto simp: stream_symbols_def Let_def split: option.splits)
    qed
  qed
qed

theorem huffman_streams_sequential_witness:
  "decompress_huffman_4streams (huffman_table_new [\<lparr>he_symbol = 65, he_nb_bits = 1\<rparr>, \<lparr>he_symbol = 66, he_nb_bits = 1\<rparr>] 1)
     [1, 0, 1, 0, 1, 0, 3, 2, 3, 2] [0, 0, 0, 0] = Inr [66, 65, 66, 65]"
proof -
  let ?e = "[\<lparr>he_symbol = 65, he_nb_bits = 1\<rparr>, \<lparr>he_symbol = 66, he_nb_bits = 1\<rparr>]"
  have valid: "huf_is_valid ?e 1" by (simp add: huf_is_valid_def HUF_TABLE_LOG_MAX_def)
  then have l: "ht_lookup (huffman_table_new ?e 1) ! p = huf_slot (?e ! drop_bit 11 p)" if "p < 4096" for p
    using that by (simp add: huffman_table_new_def HUF_LOOKUP_SIZE_def HUF_TABLE_LOG_MAX_def)
  have bits: "init_stream_bits [3] = Inr 1" "init_stream_bits [2] = Inr 1" "top_bits [3] 1 = 2048" "top_bits [2] 1 = 0" by code_simp+
  have slots: "unat (huf_slot \<lparr>he_symbol = 65, he_nb_bits = 1\<rparr> AND 63) = 1" "unat (huf_slot \<lparr>he_symbol = 66, he_nb_bits = 1\<rparr> AND 63) = 1"
    "u8 (drop_bit 8 (huf_slot \<lparr>he_symbol = 65, he_nb_bits = 1\<rparr>)) = 65" "u8 (drop_bit 8 (huf_slot \<lparr>he_symbol = 66, he_nb_bits = 1\<rparr>)) = 66"
    by code_simp+
  have "drop_bit 11 (2048 :: nat) = 1" by code_simp
  then have "stream_symbols (ht_lookup (huffman_table_new ?e 1)) [3] 1 = Some [66]"
    "stream_symbols (ht_lookup (huffman_table_new ?e 1)) [2] 1 = Some [65]"
    using l [of 2048] l [of 0] bits slots by (simp_all add: stream_symbols_def numeral_eq_Suc)
  then have "four_streams (ht_lookup (huffman_table_new ?e 1)) [1, 0, 1, 0, 1, 0, 3, 2, 3, 2] (length [0, 0, 0, 0 :: byte]) = Some [66, 65, 66, 65]"
    by (simp add: four_streams_def le16_def subslice_def)
  moreover have "ht_valid (huffman_table_new ?e 1)" using valid by (simp add: huffman_table_new_def)
  ultimately show ?thesis using huffman_streams_sequential by blast
qed

end
