(* ===== verification/ZSeq.thy ===== *)
theory ZSeq
  imports ZHuffman
begin

text \<open>
  \<^verbatim>\<open>src/compress/zstd_dec/sequences.rs\<close>, and the state of \<^verbatim>\<open>src/compress/zstd_dec/block.rs\<close> it works on: the
  sequences of a block, decoded in batches and executed with copies of whole chunks.
\<close>

section \<open>The state of a frame's blocks\<close>

record block_state =
  bk_huffman_table :: "huffman_table option"
  bk_ll_table :: "fse_table option"
  bk_of_table :: "fse_table option"
  bk_ml_table :: "fse_table option"
  bk_rep_offsets :: "u32 \<times> u32 \<times> u32"
  bk_literals_buf :: bytes

definition block_state_new :: block_state where
  "block_state_new =
     \<lparr>bk_huffman_table = None, bk_ll_table = None, bk_of_table = None, bk_ml_table = None,
      bk_rep_offsets = (1, 4, 8), bk_literals_buf = []\<rparr>"

section \<open>The sequences header\<close>

datatype symbol_mode = Predefined | Rle | FseCompressed | Repeat

definition symbol_mode_from :: "nat \<Rightarrow> string + symbol_mode" where
  "symbol_mode_from v =
     (if v = 0 then Inr Predefined else if v = 1 then Inr Rle else if v = 2 then Inr FseCompressed
      else if v = 3 then Inr Repeat else Inl ''invalid symbol compression mode: {}'')"

text \<open>\<^verbatim>\<open>build_seq_table\<close>: the table for one symbol type, and the bytes its description takes.\<close>

definition build_seq_table ::
  "symbol_mode \<Rightarrow> bytes \<Rightarrow> nat \<Rightarrow> nat \<Rightarrow> nat list \<Rightarrow> nat list \<Rightarrow> fse_table \<Rightarrow> fse_table option \<Rightarrow>
   string + (fse_table option \<times> nat)" where
  "build_seq_table mode data max_symbol max_log base_values nb_add_bits default_table table =
     (case mode of
        Predefined \<Rightarrow> Inr (Some default_table, 0)
      | Rle \<Rightarrow>
          if data = [] then Inl ''RLE mode but no data for symbol''
          else let symbol = unat (data ! 0) in
            if max_symbol < symbol then Inl ''RLE symbol {} exceeds max {}''
            else Inr (Some (build_rle_fse_table symbol (Some base_values) (Some nb_add_bits)), 1)
      | FseCompressed \<Rightarrow>
          and_then (read_ncount data max_symbol) (\<lambda>(norm, actual_max, table_log, hdr).
            if max_log < table_log then Inl ''FSE table log {} exceeds max {}''
            else and_then (build_fse_table norm actual_max table_log (Some base_values) (Some nb_add_bits)) (\<lambda>t.
              Inr (Some t, hdr)))
      | Repeat \<Rightarrow> if table = None then Inl ''Repeat mode but no previous table'' else Inr (table, 0))"

text \<open>The number of sequences, and the length of the field that holds it.\<close>

definition sequence_count :: "bytes \<Rightarrow> string + (nat \<times> nat)" where
  "sequence_count data =
     (if data = [] then Inl ''empty sequences section''
      else
        let first_byte = unat (data ! 0) in
        if first_byte = 0 then Inr (0, 1)
        else if first_byte < 128 then Inr (first_byte, 1)
        else if first_byte = 255 then
          if length data < 3 then Inl ''sequences header truncated''
          else Inr (le16 (data ! 1) (data ! 2) + 0x7F00, 3)
        else if length data \<le> 1 then Inl ''sequences header truncated''
        else Inr ((first_byte - 128) * 256 + unat (data ! 1), 2))"

definition parse_sequences_header :: "bytes \<Rightarrow> block_state \<Rightarrow> block_state \<times> (string + (nat \<times> nat))" where
  "parse_sequences_header data st =
     (case sequence_count data of
        Inl e \<Rightarrow> (st, Inl e)
      | Inr (num_sequences, pos) \<Rightarrow>
          if num_sequences = 0 then (st, Inr (0, pos))
          else if length data \<le> pos then (st, Inl ''sequences header truncated at modes byte'')
          else
            let modes_byte = unat (data ! pos); pos = pos + 1 in
            if modes_byte mod 4 \<noteq> 0 then (st, Inl ''reserved bits in sequence modes byte are not zero'')
            else
              case and_then (symbol_mode_from (modes_byte div 64 mod 4)) (\<lambda>ll_mode.
                     and_then (symbol_mode_from (modes_byte div 16 mod 4)) (\<lambda>of_mode.
                       and_then (symbol_mode_from (modes_byte div 4 mod 4)) (\<lambda>ml_mode. Inr (ll_mode, of_mode, ml_mode)))) of
                Inl e \<Rightarrow> (st, Inl e)
              | Inr (ll_mode, of_mode, ml_mode) \<Rightarrow>
                  (case build_seq_table ll_mode (drop pos data) MAX_LL LL_FSE_LOG LL_BASE LL_BITS build_default_ll_table (bk_ll_table st) of
                     Inl e \<Rightarrow> (st, Inl e)
                   | Inr (ll, n) \<Rightarrow>
                       let st = st\<lparr>bk_ll_table := ll\<rparr>; pos = pos + n in
                       case build_seq_table of_mode (drop pos data) MAX_OFF OFF_FSE_LOG OF_BASE OF_BITS build_default_of_table (bk_of_table st) of
                         Inl e \<Rightarrow> (st, Inl e)
                       | Inr (ot, n) \<Rightarrow>
                           let st = st\<lparr>bk_of_table := ot\<rparr>; pos = pos + n in
                           case build_seq_table ml_mode (drop pos data) MAX_ML ML_FSE_LOG ML_BASE ML_BITS build_default_ml_table (bk_ml_table st) of
                             Inl e \<Rightarrow> (st, Inl e)
                           | Inr (mt, n) \<Rightarrow> (st\<lparr>bk_ml_table := mt\<rparr>, Inr (num_sequences, pos + n))))"

section \<open>Decoding sequences\<close>

record sequence =
  sq_literal_length :: u32
  sq_match_length :: u32
  sq_offset :: u32

definition resolve_offset :: "u32 \<Rightarrow> u32 \<Rightarrow> u32 \<times> u32 \<times> u32 \<Rightarrow> (u32 \<times> u32 \<times> u32) \<times> u32" where
  "resolve_offset offset_value literal_length reps =
     (case reps of (rep0, rep1, rep2) \<Rightarrow>
        if 3 < offset_value then let offset = offset_value - 3 in ((offset, rep0, rep1), offset)
        else
          let idx = (offset_value - 1) + (if literal_length = 0 then 1 else 0) in
          if idx = 0 then (reps, rep0)
          else if idx = 1 then ((rep1, rep0, rep2), rep1)
          else if idx = 2 then ((rep2, rep0, rep1), rep2)
          else if idx = 3 then ((rep0 - 1, rep0, rep1), rep0 - 1)
          else (reps, 0))"

record seq_states =
  ss_ll :: nat
  ss_of :: nat
  ss_ml :: nat

text \<open>One sequence; the last one of all does not update the states.\<close>

definition decode_sequence ::
  "u64 list \<Rightarrow> u64 list \<Rightarrow> u64 list \<Rightarrow> bool \<Rightarrow> seq_reader \<times> seq_states \<times> (u32 \<times> u32 \<times> u32) \<Rightarrow>
   (seq_reader \<times> seq_states \<times> (u32 \<times> u32 \<times> u32)) \<times> sequence" where
  "decode_sequence ll_table of_table ml_table is_last st =
     (case st of (r, states, reps) \<Rightarrow>
        let of_entry = of_table ! (ss_of states mod SEQ_TABLE_SLOTS);
            ll_entry = ll_table ! (ss_ll states mod SEQ_TABLE_SLOTS);
            ml_entry = ml_table ! (ss_ml states mod SEQ_TABLE_SLOTS);
            of_bits = seq_nb_additional_bits of_entry;
            ml_bits = seq_nb_additional_bits ml_entry;
            ll_bits = seq_nb_additional_bits ll_entry;
            ll_nb = seq_nb_bits ll_entry; ml_nb = seq_nb_bits ml_entry; of_nb = seq_nb_bits of_entry;
            r = seq_refill r;
            offset_value = push_bit of_bits 1 + of_nat (peek_at r 0 of_bits) :: u32;
            match_length = seq_base_value ml_entry + of_nat (peek_at r of_bits ml_bits);
            r = seq_consume r (of_bits + ml_bits);
            need = ll_bits + ll_nb + ml_nb + of_nb;
            r = (if sq_cbits r < of_nat need then seq_refill r else r);
            literal_length = seq_base_value ll_entry + of_nat (peek_at r 0 ll_bits);
            (reps, offset) = resolve_offset offset_value literal_length reps;
            seq = \<lparr>sq_literal_length = literal_length, sq_match_length = match_length, sq_offset = offset\<rparr>
        in if is_last then ((seq_consume r ll_bits, states, reps), seq)
           else ((seq_consume r need,
                  \<lparr>ss_ll = seq_next_state ll_entry + peek_at r ll_bits ll_nb,
                   ss_of = seq_next_state of_entry + peek_at r (ll_bits + ll_nb + ml_nb) of_nb,
                   ss_ml = seq_next_state ml_entry + peek_at r (ll_bits + ll_nb) ml_nb\<rparr>, reps), seq))"

text \<open>\<^verbatim>\<open>decode_batch\<close> for \<open>n\<close> sequences.\<close>

primrec decode_batch ::
  "u64 list \<Rightarrow> u64 list \<Rightarrow> u64 list \<Rightarrow> bool \<Rightarrow> nat \<Rightarrow> seq_reader \<times> seq_states \<times> (u32 \<times> u32 \<times> u32) \<Rightarrow>
   (seq_reader \<times> seq_states \<times> (u32 \<times> u32 \<times> u32)) \<times> sequence list" where
  "decode_batch ll_table of_table ml_table last_batch 0 st = (st, [])"
| "decode_batch ll_table of_table ml_table last_batch (Suc n) st =
     (case decode_sequence ll_table of_table ml_table (last_batch \<and> n = 0) st of
        (st, seq) \<Rightarrow> (case decode_batch ll_table of_table ml_table last_batch n st of (st, seqs) \<Rightarrow> (st, seq # seqs)))"

section \<open>Executing sequences\<close>

definition MAX_BLOCK_SIZE :: nat where
  "MAX_BLOCK_SIZE = 128 * 1024"

definition WILDCOPY_SLACK :: nat where
  "WILDCOPY_SLACK = 32"

definition SEQ_BATCH :: nat where
  "SEQ_BATCH = 64"

text \<open>Chunks of \<open>w\<close> bytes from \<open>dist\<close> back, until \<open>len\<close> bytes are covered.\<close>

function copy_chunks :: "nat \<Rightarrow> nat \<Rightarrow> nat \<Rightarrow> nat \<Rightarrow> nat \<Rightarrow> bytes \<Rightarrow> bytes" where
  "copy_chunks w dist op len k out =
     (if k < len \<and> 0 < w
      then copy_chunks w dist op len (k + w) (copy_into out (op + k) (subslice (op + k - dist) (op + k - dist + w) out))
      else out)"
  by pat_completeness auto
termination by (relation "measure (\<lambda>(w, dist, op, len, k, out). len - k)") auto

declare copy_chunks.simps [simp del]

text \<open>Byte by byte.\<close>

primrec copy_bytes :: "nat \<Rightarrow> nat \<Rightarrow> nat \<Rightarrow> bytes \<Rightarrow> bytes" where
  "copy_bytes op offset 0 out = out"
| "copy_bytes op offset (Suc n) out = (let out = copy_bytes op offset n out in out[op + n := out ! (op + n - offset)])"

definition copy_match :: "bytes \<Rightarrow> nat \<Rightarrow> nat \<Rightarrow> nat \<Rightarrow> bytes" where
  "copy_match out op offset len =
     (if 16 \<le> offset then copy_chunks 16 offset op (max len 1) 0 out
      else if offset = 1 then copy_into out op (replicate len (out ! (op - 1)))
      else if 8 \<le> offset then copy_chunks 8 offset op len 0 out
      else let dist = offset * ((8 + offset - 1) div offset)
           in copy_chunks 8 dist op len dist (copy_bytes op offset (min dist len) out))"

definition literal_error :: "nat \<Rightarrow> nat \<Rightarrow> nat \<Rightarrow> string" where
  "literal_error literal_length lit_pos available =
     (if available - lit_pos < literal_length then ''sequence {} literal length {} exceeds available literals (at {}, have {})''
      else ''sequence {} overflows the maximum block size'')"

definition match_error :: "nat \<Rightarrow> nat \<Rightarrow> nat \<Rightarrow> string" where
  "match_error offset written max_back =
     (if offset = 0 then ''sequence {} has a zero repeat offset''
      else if written + max_back < offset then ''sequence {} offset {} exceeds available history ({} output + {} window)''
      else ''sequence {} overflows the maximum block size'')"

text \<open>The literals of a sequence: short runs are copied as one or two chunks of 16 bytes.\<close>

definition copy_literals :: "bytes \<Rightarrow> nat \<Rightarrow> nat \<Rightarrow> bytes \<Rightarrow> nat \<Rightarrow> bytes" where
  "copy_literals literals lit_pos literal_length out op =
     (if literal_length \<le> 32 \<and> lit_pos + 32 \<le> length literals then
        let out = copy_into out op (subslice lit_pos (lit_pos + 16) literals) in
        if 16 < literal_length then copy_into out (op + 16) (subslice (lit_pos + 16) (lit_pos + 32) literals) else out
      else copy_into out op (subslice lit_pos (lit_pos + literal_length) literals))"

definition execute_sequence ::
  "bytes \<Rightarrow> nat \<Rightarrow> nat \<Rightarrow> nat \<Rightarrow> sequence \<Rightarrow> bytes \<times> nat \<times> nat \<Rightarrow> string + (bytes \<times> nat \<times> nat)" where
  "execute_sequence literals block_start limit max_back seq st =
     (case st of (out, op, lit_pos) \<Rightarrow>
        let literal_length = unat (sq_literal_length seq);
            match_length = unat (sq_match_length seq);
            offset = unat (sq_offset seq)
        in if length literals - lit_pos < literal_length \<or> limit - op < literal_length
           then Inl (literal_error literal_length lit_pos (length literals))
           else
             let out = copy_literals literals lit_pos literal_length out op;
                 lit_pos = lit_pos + literal_length;
                 op = op + literal_length
             in if offset = 0 \<or> op - block_start + max_back < offset \<or> limit - op < match_length
                then Inl (match_error offset (op - block_start) max_back)
                else Inr (copy_match out op offset match_length, op + match_length, lit_pos))"

primrec execute_batch ::
  "bytes \<Rightarrow> nat \<Rightarrow> nat \<Rightarrow> nat \<Rightarrow> sequence list \<Rightarrow> bytes \<times> nat \<times> nat \<Rightarrow> string + (bytes \<times> nat \<times> nat)" where
  "execute_batch literals block_start limit max_back [] st = Inr st"
| "execute_batch literals block_start limit max_back (seq # seqs) st =
     and_then (execute_sequence literals block_start limit max_back seq st) (execute_batch literals block_start limit max_back seqs)"

text \<open>The loop over the batches. Repeat offsets that a failing block has changed are lost with the decoder.\<close>

function sequences_loop ::
  "u64 list \<times> u64 list \<times> u64 list \<Rightarrow> bytes \<Rightarrow> nat \<Rightarrow> nat \<Rightarrow> nat \<Rightarrow> nat \<Rightarrow>
   seq_reader \<times> seq_states \<times> (u32 \<times> u32 \<times> u32) \<Rightarrow> bytes \<times> nat \<times> nat \<Rightarrow>
   string + ((seq_reader \<times> seq_states \<times> (u32 \<times> u32 \<times> u32)) \<times> bytes \<times> nat \<times> nat)" where
  "sequences_loop tables literals block_start limit max_back left dst st =
     (if left = 0 then Inr (dst, st)
      else
        let n = min left SEQ_BATCH;
            (ll_table, of_table, ml_table) = tables;
            (dst, batch) = decode_batch ll_table of_table ml_table (n = left) n dst
        in and_then (execute_batch literals block_start limit max_back batch st) (\<lambda>st.
             sequences_loop tables literals block_start limit max_back (left - n) dst st))"
  by pat_completeness auto
termination
  by (relation "measure (\<lambda>(tables, literals, block_start, limit, max_back, left, dst, st). left)") (auto simp: SEQ_BATCH_def)

declare sequences_loop.simps [simp del]

definition execute_sequences ::
  "bytes \<Rightarrow> nat \<Rightarrow> fse_table \<Rightarrow> fse_table \<Rightarrow> fse_table \<Rightarrow> u32 \<times> u32 \<times> u32 \<Rightarrow> bytes \<Rightarrow> bytes \<Rightarrow> nat \<Rightarrow> nat \<Rightarrow> nat \<Rightarrow>
   string + ((u32 \<times> u32 \<times> u32) \<times> bytes \<times> nat)" where
  "execute_sequences data num_sequences ll_table of_table ml_table rep_offsets literals out block_start limit max_back =
     and_then (seq_reader_new data) (\<lambda>reader.
       let (reader, ll) = seq_read reader (ft_table_log ll_table);
           (reader, ot) = seq_read reader (ft_table_log of_table);
           (reader, ml) = seq_read reader (ft_table_log ml_table);
           tables = (ft_seq_entries ll_table, ft_seq_entries of_table, ft_seq_entries ml_table)
       in and_then (sequences_loop tables literals block_start limit max_back num_sequences
              (reader, \<lparr>ss_ll = ll, ss_of = ot, ss_ml = ml\<rparr>, rep_offsets) (out, block_start, 0)) (\<lambda>((reader, states, reps), out, op, lit_pos).
            if seq_overflowed reader then Inl ''sequence bitstream overread''
            else if limit - op < length literals - lit_pos then Inl ''trailing literals overflow the maximum block size''
            else Inr (reps, copy_into out op (drop lit_pos literals), op + (length literals - lit_pos))))"

definition table_fits :: "fse_table \<Rightarrow> nat \<Rightarrow> bool" where
  "table_fits t m = (case ft_seq_max_additional_bits t of None \<Rightarrow> False | Some a \<Rightarrow> a \<le> m)"

definition decode_and_execute_sequences ::
  "bytes \<Rightarrow> nat \<Rightarrow> fse_table \<Rightarrow> fse_table \<Rightarrow> fse_table \<Rightarrow> u32 \<times> u32 \<times> u32 \<Rightarrow> bytes \<Rightarrow> bytes \<Rightarrow> nat \<Rightarrow>
   string + ((u32 \<times> u32 \<times> u32) \<times> bytes)" where
  "decode_and_execute_sequences data num_sequences ll_table of_table ml_table rep_offsets literals out max_back =
     (if num_sequences = 0 then Inr (rep_offsets, out @ literals)
      else if data = [] then Inl ''empty sequence bitstream data''
      else if \<not> (table_fits ll_table (LL_BITS ! MAX_LL) \<and> table_fits ml_table (ML_BITS ! MAX_ML) \<and> table_fits of_table MAX_OFF)
      then Inl ''malformed sequence decoding table''
      else
        let block_start = length out; limit = block_start + MAX_BLOCK_SIZE in
        and_then (execute_sequences data num_sequences ll_table of_table ml_table rep_offsets literals
            (out @ replicate (MAX_BLOCK_SIZE + WILDCOPY_SLACK) 0) block_start limit max_back) (\<lambda>(reps, out, op).
          Inr (reps, take op out)))"

end
