(* ===== verification/ZLz.thy ===== *)
theory ZLz
  imports ZSeq
begin

text \<open>
  Executing the sequences of a block. The loop writes through a fixed buffer in chunks of 8 or 16 bytes that
  overshoot what is asked; it is shown to compute the LZ77 copies on lists, and the whole section to be
  decoding all sequences first and executing them afterwards.
\<close>

section \<open>LZ77 copies\<close>

text \<open>Append \<open>n\<close> bytes, each the byte \<open>offset\<close> back.\<close>

primrec lz_copy :: "nat \<Rightarrow> nat \<Rightarrow> bytes \<Rightarrow> bytes" where
  "lz_copy offset 0 h = h"
| "lz_copy offset (Suc n) h = (let h' = lz_copy offset n h in h' @ [h' ! (length h' - offset)])"

lemma length_lz_copy [simp]: "length (lz_copy offset n h) = length h + n"
  by (induction n) (simp_all add: Let_def)

lemma take_lz_copy: "k \<le> n \<Longrightarrow> take (length h + k) (lz_copy offset n h) = lz_copy offset k h"
proof (induction n)
  case (Suc n)
  then show ?case by (cases "k = Suc n") (simp_all add: Let_def)
qed simp

lemma nth_lz_copy:
  assumes "1 \<le> offset" "offset \<le> length h" "p < n"
  shows "lz_copy offset n h ! (length h + p) = lz_copy offset n h ! (length h + p - offset)"
proof -
  have nth: "lz_copy offset n h ! i = lz_copy offset (Suc p) h ! i" if "i < length h + Suc p" for i
    using that take_lz_copy [of "Suc p" n h offset] assms(3) by (metis Suc_leI nth_take)
  show ?thesis using assms by (subst (1 2) nth) (auto simp: Let_def nth_append)
qed

lemma nth_lz_copy_multiple:
  assumes "1 \<le> offset" "offset \<le> length h"
  shows "p < n \<Longrightarrow> (m - 1) * offset \<le> p \<Longrightarrow> m * offset \<le> length h + p \<Longrightarrow>
    lz_copy offset n h ! (length h + p) = lz_copy offset n h ! (length h + p - m * offset)"
proof (induction m arbitrary: p)
  case (Suc m)
  show ?case
  proof (cases "m = 0")
    case True
    then show ?thesis using nth_lz_copy [OF assms Suc.prems(1)] by simp
  next
    case False
    then have "offset \<le> m * offset" by simp
    moreover have "m * offset \<le> p" using Suc.prems(2) by simp
    ultimately have p0: "offset \<le> p" by (rule order_trans)
    then have p: "offset \<le> p" "(m - 1) * offset \<le> p - offset" "m * offset \<le> length h + (p - offset)"
      using Suc.prems False by (auto simp: diff_mult_distrib)
    then have "lz_copy offset n h ! (length h + (p - offset)) = lz_copy offset n h ! (length h + (p - offset) - m * offset)"
      using Suc.IH [of "p - offset"] Suc.prems(1) by simp
    moreover have "length h + p - offset = length h + (p - offset)" using p(1) by simp
    moreover have "length h + (p - offset) - m * offset = length h + p - Suc m * offset" using p(1) by simp
    ultimately show ?thesis using nth_lz_copy [OF assms Suc.prems(1)] by simp
  qed
qed simp

text \<open>A whole chunk of a copy, taken from a multiple of the offset back.\<close>

lemma lz_copy_chunk:
  assumes "1 \<le> offset" "offset \<le> length h" "1 \<le> m" "w \<le> m * offset" "(m - 1) * offset \<le> k" "m * offset \<le> length h + k"
  shows "lz_copy offset (k + w) h =
    lz_copy offset k h @ subslice (length h + k - m * offset) (length h + k - m * offset + w) (lz_copy offset k h)"
proof (rule nth_equalityI)
  show "length (lz_copy offset (k + w) h) =
      length (lz_copy offset k h @ subslice (length h + k - m * offset) (length h + k - m * offset + w) (lz_copy offset k h))"
    using assms by simp
next
  fix i assume i: "i < length (lz_copy offset (k + w) h)"
  let ?L = "lz_copy offset (k + w) h"
  have old: "?L ! j = lz_copy offset k h ! j" if "j < length h + k" for j
    using that take_lz_copy [of k "k + w" h offset] by (metis le_add1 nth_take)
  show "?L ! i = (lz_copy offset k h @ subslice (length h + k - m * offset) (length h + k - m * offset + w) (lz_copy offset k h)) ! i"
  proof (cases "i < length h + k")
    case True
    then show ?thesis using old by (simp add: nth_append)
  next
    case False
    define j where "j = i - length h"
    have j: "i = length h + j" "j < k + w" "k \<le> j" using False i by (auto simp: j_def)
    have "?L ! i = ?L ! (length h + j - m * offset)"
      unfolding j(1) by (rule nth_lz_copy_multiple [OF assms(1,2) j(2)]) (use assms j in auto)
    also have "\<dots> = lz_copy offset k h ! (length h + j - m * offset)" by (rule old) (use assms j in auto)
    finally show ?thesis using False j assms by (simp add: nth_append subslice_def)
  qed
qed

section \<open>Copying through the buffer\<close>

lemma take_copy_into_upto: "p \<le> length buf \<Longrightarrow> n \<le> p + length xs \<Longrightarrow> take n (copy_into buf p xs) = take n (take p buf @ xs)"
  using take_copy_into [of p buf xs] by (metis min.absorb1 take_take)

lemma subslice_take: "b \<le> n \<Longrightarrow> subslice a b (take n xs) = subslice a b xs"
  by (simp add: subslice_def drop_take)

text \<open>The invariant of the chunk loop: the first \<open>k\<close> bytes of the copy stand in the buffer.\<close>

lemma copy_chunks_lz:
  assumes "1 \<le> offset" "offset \<le> length h" "1 \<le> m" "0 < w" "w \<le> m * offset"
  shows "(m - 1) * offset \<le> k \<Longrightarrow> m * offset \<le> length h + k \<Longrightarrow> length h + len + w \<le> length out \<Longrightarrow>
    take (length h + min k len) out = lz_copy offset (min k len) h \<Longrightarrow>
    take (length h + len) (copy_chunks w (m * offset) (length h) len k out) = lz_copy offset len h \<and>
    length (copy_chunks w (m * offset) (length h) len k out) = length out"
proof (induction "len - k" arbitrary: k out rule: less_induct)
  case less
  show ?case
  proof (cases "k < len")
    case False
    then have "copy_chunks w (m * offset) (length h) len k out = out" by (subst copy_chunks.simps) simp
    then show ?thesis using less.prems False by simp
  next
    case True
    let ?src = "subslice (length h + k - m * offset) (length h + k - m * offset + w) out"
    let ?out = "copy_into out (length h + k) ?src"
    have src: "?src = subslice (length h + k - m * offset) (length h + k - m * offset + w) (lz_copy offset k h)"
      using less.prems True assms by (auto simp flip: subslice_take [of _ "length h + k" _ out])
    have w: "length ?src = w" using less.prems True assms by simp
    have new: "take (length h + (k + w)) ?out = lz_copy offset (k + w) h"
      using take_copy_into [of "length h + k" out ?src] w less.prems True
        lz_copy_chunk [OF assms(1-3,5) less.prems(1,2)] src by (simp add: add.assoc)
    have "take (length h + min (k + w) len) ?out = take (length h + min (k + w) len) (lz_copy offset (k + w) h)"
      using new [symmetric] by simp
    then have inv: "take (length h + min (k + w) len) ?out = lz_copy offset (min (k + w) len) h"
      by (simp add: take_lz_copy)
    have len: "length ?out = length out" using w less.prems True by (intro length_copy_into) simp
    have "copy_chunks w (m * offset) (length h) len k out = copy_chunks w (m * offset) (length h) len (k + w) ?out"
      using True assms(4) by (subst copy_chunks.simps) (simp add: Let_def)
    moreover have "len - (k + w) < len - k" using True assms(4) by simp
    ultimately show ?thesis using less.hyps [of "k + w" ?out] less.prems inv len assms by simp
  qed
qed

lemma copy_bytes_lz:
  assumes "1 \<le> offset" "offset \<le> length h"
  shows "length h + n \<le> length out \<Longrightarrow> take (length h) out = h \<Longrightarrow>
    take (length h + n) (copy_bytes (length h) offset n out) = lz_copy offset n h \<and>
    length (copy_bytes (length h) offset n out) = length out"
proof (induction n)
  case (Suc n)
  let ?o = "copy_bytes (length h) offset n out"
  have IH: "take (length h + n) ?o = lz_copy offset n h" "length ?o = length out" using Suc by simp_all
  have "?o ! (length h + n - offset) = lz_copy offset n h ! (length h + n - offset)"
    using IH(1) assms by (metis add_gr_0 diff_less le_trans less_le_trans nth_take trans_le_add1 zero_less_one)
  then show ?case using IH Suc.prems by (simp add: Let_def take_Suc_conv_app_nth)
qed simp

text \<open>A copy of distance 1 is a run of the last byte.\<close>

lemma lz_copy_one: "h \<noteq> [] \<Longrightarrow> lz_copy 1 n h = h @ replicate n (last h)"
proof (induction n)
  case (Suc n)
  have "(h @ replicate n (last h)) ! (length h + n - 1) = last h"
  proof (cases n)
    case (Suc k)
    then have "(h @ replicate n (last h)) ! (length h + n - 1) = replicate (Suc k) (last h) ! k"
      by (simp add: nth_append del: replicate_Suc)
    then show ?thesis by (simp del: replicate_Suc)
  qed (use Suc.prems in \<open>simp add: nth_append last_conv_nth\<close>)
  then show ?case using Suc by (simp add: Let_def replicate_append_same)
qed simp

lemma dist_multiple:
  assumes "1 \<le> offset" "offset < (8 :: nat)"
  shows "8 \<le> offset * ((8 + offset - 1) div offset)" "offset * ((8 + offset - 1) div offset) \<le> 8 + offset - 1"
    "1 \<le> (8 + offset - 1) div offset"
proof -
  consider "offset = 1" | "offset = 2" | "offset = 3" | "offset = 4" | "offset = 5" | "offset = 6" | "offset = 7"
    using assms by linarith
  then have "8 \<le> offset * ((8 + offset - 1) div offset) \<and> offset * ((8 + offset - 1) div offset) \<le> 8 + offset - 1 \<and>
      1 \<le> (8 + offset - 1) div offset"
    by cases simp_all
  then show "8 \<le> offset * ((8 + offset - 1) div offset)" "offset * ((8 + offset - 1) div offset) \<le> 8 + offset - 1"
    "1 \<le> (8 + offset - 1) div offset" by blast+
qed

lemma copy_match_take:
  assumes "1 \<le> offset" "offset \<le> op" "op + len + WILDCOPY_SLACK \<le> length out"
  shows "take (op + len) (copy_match out op offset len) = lz_copy offset len (take op out) \<and>
    length (copy_match out op offset len) = length out"
proof -
  define h where "h = take op out"
  have h: "length h = op" "take (length h) out = h" "offset \<le> length h" using assms by (simp_all add: h_def)
  have room: "length h + len + 32 \<le> length out" using assms(3) h(1) by (simp add: WILDCOPY_SLACK_def)
  have start: "take (length h + min 0 n) out = lz_copy offset (min 0 n) h" for n using h by simp
  consider "16 \<le> offset" | "offset < 16" "8 \<le> offset" | "offset = 1" | "offset \<noteq> 1" "offset < 8" by linarith
  then show ?thesis
  proof cases
    case 1
    have "length h + max len 1 + 16 \<le> length out" using room by simp
    then have "take (length h + max len 1) (copy_chunks 16 (1 * offset) (length h) (max len 1) 0 out) = lz_copy offset (max len 1) h \<and>
        length (copy_chunks 16 (1 * offset) (length h) (max len 1) 0 out) = length out"
      using 1 h by (intro copy_chunks_lz assms(1) start) simp_all
    moreover have "copy_match out op offset len = copy_chunks 16 (1 * offset) (length h) (max len 1) 0 out"
      using 1 h(1) by (simp add: copy_match_def)
    moreover have "take (length h + len) xs = take (length h + len) (take (length h + max len 1) xs)" for xs :: bytes
      by simp
    ultimately show ?thesis using take_lz_copy [of len "max len 1" h offset] h(1)
      unfolding h_def [symmetric] by (metis max.cobounded1)
  next
    case 2
    have "take (length h + len) (copy_chunks 8 (1 * offset) (length h) len 0 out) = lz_copy offset len h \<and>
        length (copy_chunks 8 (1 * offset) (length h) len 0 out) = length out"
      using 2 h room by (intro copy_chunks_lz assms(1) start) simp_all
    moreover have "copy_match out op offset len = copy_chunks 8 (1 * offset) (length h) len 0 out"
      using 2 h(1) by (simp add: copy_match_def)
    ultimately show ?thesis using h(1) unfolding h_def [symmetric] by simp
  next
    case 3
    have ne: "h \<noteq> []" using h 3 by auto
    have "out ! (op - 1) = last h" using h(1) ne assms by (simp add: h_def last_conv_nth)
    moreover have "length h \<le> length out" using room by simp
    ultimately show ?thesis using 3 lz_copy_one [OF ne, of len] h(1,2) room unfolding h_def [symmetric]
      using take_copy_into [of "length h" out "replicate len (last h)"] by (simp add: copy_match_def)
  next
    case 4
    let ?m = "(8 + offset - 1) div offset"
    let ?o = "copy_bytes (length h) offset (min (?m * offset) len) out"
    have d: "8 \<le> ?m * offset" "?m * offset \<le> 8 + offset - 1" "1 \<le> ?m"
      using dist_multiple [OF assms(1) 4(2)] by (simp_all add: mult.commute)
    have o: "take (length h + min (?m * offset) len) ?o = lz_copy offset (min (?m * offset) len) h \<and> length ?o = length out"
      using room by (intro copy_bytes_lz assms(1) h) simp
    have "take (length h + len) (copy_chunks 8 (?m * offset) (length h) len (?m * offset) ?o) = lz_copy offset len h \<and>
        length (copy_chunks 8 (?m * offset) (length h) len (?m * offset) ?o) = length ?o"
      using d h room o by (intro copy_chunks_lz assms(1)) simp_all
    moreover have "copy_match out op offset len = copy_chunks 8 (?m * offset) (length h) len (?m * offset) ?o"
      using 4 h(1) by (simp add: copy_match_def Let_def mult.commute)
    ultimately show ?thesis using o h(1) unfolding h_def [symmetric] by simp
  qed
qed

section \<open>Executing sequences on lists\<close>

text \<open>
  A sequence moves literals to the history and copies a match. \<open>start\<close> is where the block begins and
  \<open>limit\<close> how long the history may grow.
\<close>

definition lz_sequence :: "nat \<Rightarrow> nat \<Rightarrow> nat \<Rightarrow> sequence \<Rightarrow> bytes \<times> bytes \<Rightarrow> (bytes \<times> bytes) option" where
  "lz_sequence start limit max_back seq st =
     (case st of (h, lits) \<Rightarrow>
        let ll = unat (sq_literal_length seq); ml = unat (sq_match_length seq); offset = unat (sq_offset seq);
            h' = h @ take ll lits
        in if length lits < ll \<or> limit < length h + ll then None
           else if offset = 0 \<or> length h' - start + max_back < offset \<or> limit < length h' + ml then None
           else Some (lz_copy offset ml h', drop ll lits))"

primrec lz_sequences :: "nat \<Rightarrow> nat \<Rightarrow> nat \<Rightarrow> sequence list \<Rightarrow> bytes \<times> bytes \<Rightarrow> (bytes \<times> bytes) option" where
  "lz_sequences start limit max_back [] st = Some st"
| "lz_sequences start limit max_back (seq # seqs) st =
     Option.bind (lz_sequence start limit max_back seq st) (lz_sequences start limit max_back seqs)"

lemma lz_sequences_append:
  "lz_sequences start limit max_back (xs @ ys) st =
   Option.bind (lz_sequences start limit max_back xs st) (lz_sequences start limit max_back ys)"
  by (induction xs arbitrary: st) (auto split: Option.bind_split)

text \<open>What the state of the execution loop stands for, and what keeps its copies inside the buffer.\<close>

definition exec_abs :: "bytes \<Rightarrow> string + (bytes \<times> nat \<times> nat) \<Rightarrow> (bytes \<times> bytes) option" where
  "exec_abs literals r = (case r of Inl _ \<Rightarrow> None | Inr (out, op, lit_pos) \<Rightarrow> Some (take op out, drop lit_pos literals))"

definition exec_inv :: "bytes \<Rightarrow> nat \<Rightarrow> nat \<Rightarrow> nat \<Rightarrow> bytes \<times> nat \<times> nat \<Rightarrow> bool" where
  "exec_inv literals start limit room st \<longleftrightarrow>
     (case st of (out, op, lit_pos) \<Rightarrow> start \<le> op \<and> op \<le> limit \<and> limit + WILDCOPY_SLACK \<le> room \<and> length out = room \<and>
        lit_pos \<le> length literals)"

lemma exec_abs_simps [simp]:
  "exec_abs literals (Inl e) = None"
  "exec_abs literals (Inr (out, op, lit_pos)) = Some (take op out, drop lit_pos literals)"
  by (simp_all add: exec_abs_def)

lemma copy_literals_take:
  assumes "lit_pos + ll \<le> length literals" "op + ll + WILDCOPY_SLACK \<le> length out"
  shows "take (op + ll) (copy_literals literals lit_pos ll out op) = take op out @ take ll (drop lit_pos literals) \<and>
    length (copy_literals literals lit_pos ll out op) = length out"
proof (cases "ll \<le> 32 \<and> lit_pos + 32 \<le> length literals")
  case False
  then have "copy_literals literals lit_pos ll out op = copy_into out op (subslice lit_pos (lit_pos + ll) literals)"
    by (auto simp: copy_literals_def)
  then show ?thesis using assms take_copy_into [of op out "subslice lit_pos (lit_pos + ll) literals"]
    by (simp add: WILDCOPY_SLACK_def subslice_def)
next
  case True
  let ?a = "subslice lit_pos (lit_pos + 16) literals"
  let ?b = "subslice (lit_pos + 16) (lit_pos + 32) literals"
  have len: "length ?a = 16" "length ?b = 16" using True by (auto simp: min_def)
  have ab: "?a @ ?b = take 32 (drop lit_pos literals)"
    using take_add [of 16 16 "drop lit_pos literals"] by (simp add: subslice_def add.commute)
  show ?thesis
  proof (cases "16 < ll")
    case False
    then have "copy_literals literals lit_pos ll out op = copy_into out op ?a" using True by (simp add: copy_literals_def)
    moreover have "take (op + ll) (copy_into out op ?a) = take (op + ll) (take op out @ ?a)"
      using assms len False by (intro take_copy_into_upto) (simp_all add: WILDCOPY_SLACK_def)
    ultimately show ?thesis using assms len False by (simp add: WILDCOPY_SLACK_def subslice_def)
  next
    case big: True
    then have "copy_literals literals lit_pos ll out op = copy_into (copy_into out op ?a) (op + 16) ?b"
      using True by (simp add: copy_literals_def)
    also have "\<dots> = copy_into out op (?a @ ?b)"
      using copy_into_append [of op ?a ?b out] assms len True by (simp add: WILDCOPY_SLACK_def)
    finally have eq: "copy_literals literals lit_pos ll out op = copy_into out op (take 32 (drop lit_pos literals))" using ab by simp
    have "take (op + ll) (copy_into out op (take 32 (drop lit_pos literals))) = take (op + ll) (take op out @ take 32 (drop lit_pos literals))"
      using assms True by (intro take_copy_into_upto) (auto simp: WILDCOPY_SLACK_def min_def)
    moreover have "ll \<le> length literals - lit_pos" using assms by linarith
    ultimately show ?thesis using eq assms True by (simp add: WILDCOPY_SLACK_def)
  qed
qed

lemma execute_sequence_lz:
  assumes "exec_inv literals start limit room (out, op, lit_pos)" "max_back \<le> start"
  shows "exec_abs literals (execute_sequence literals start limit max_back seq (out, op, lit_pos)) =
      lz_sequence start limit max_back seq (take op out, drop lit_pos literals)"
    "execute_sequence literals start limit max_back seq (out, op, lit_pos) = Inr st \<Longrightarrow> exec_inv literals start limit room st"
proof -
  define ll where "ll = unat (sq_literal_length seq)"
  define ml where "ml = unat (sq_match_length seq)"
  define offset where "offset = unat (sq_offset seq)"
  define lit where "lit = copy_literals literals lit_pos ll out op"
  note names = ll_def [symmetric] ml_def [symmetric] offset_def [symmetric]
  have inv: "start \<le> op" "op \<le> limit" "limit + 32 \<le> length out" "length out = room" "lit_pos \<le> length literals"
    using assms(1) by (simp_all add: exec_inv_def WILDCOPY_SLACK_def)
  have op: "length (take op out) = op" using inv by simp
  have both: "exec_abs literals (execute_sequence literals start limit max_back seq (out, op, lit_pos)) =
      lz_sequence start limit max_back seq (take op out, drop lit_pos literals) \<and>
      (\<forall>st. execute_sequence literals start limit max_back seq (out, op, lit_pos) = Inr st \<longrightarrow> exec_inv literals start limit room st)"
  proof (cases "length literals - lit_pos < ll \<or> limit - op < ll")
    case True
    then show ?thesis using inv op
      by (auto simp: execute_sequence_def lz_sequence_def Let_def names)
  next
    case False
    then have fit: "lit_pos + ll \<le> length literals" "op + ll \<le> limit" using inv by linarith+
    have lit: "take (op + ll) lit = take op out @ take ll (drop lit_pos literals)" "length lit = length out"
      using copy_literals_take [of lit_pos ll literals op out] fit inv by (simp_all add: lit_def WILDCOPY_SLACK_def)
    have len: "length (take op out @ take ll (drop lit_pos literals)) = op + ll" using fit inv by simp
    show ?thesis
    proof (cases "offset = 0 \<or> op + ll - start + max_back < offset \<or> limit - (op + ll) < ml")
      case True
      then show ?thesis using False fit len op
        by (auto simp: execute_sequence_def lz_sequence_def Let_def names lit_def [symmetric])
    next
      case ok: False
      then have m: "1 \<le> offset" "offset \<le> op + ll" "op + ll + ml \<le> limit" using fit inv assms(2) by auto
      then have cm: "take (op + ll + ml) (copy_match lit (op + ll) offset ml) =
          lz_copy offset ml (take op out @ take ll (drop lit_pos literals))" "length (copy_match lit (op + ll) offset ml) = room"
        using copy_match_take [of offset "op + ll" ml lit] lit inv by (simp_all add: WILDCOPY_SLACK_def)
      have "execute_sequence literals start limit max_back seq (out, op, lit_pos) =
          Inr (copy_match lit (op + ll) offset ml, op + ll + ml, lit_pos + ll)"
        using False ok by (simp add: execute_sequence_def Let_def names lit_def)
      moreover have "lz_sequence start limit max_back seq (take op out, drop lit_pos literals) =
          Some (lz_copy offset ml (take op out @ take ll (drop lit_pos literals)), drop ll (drop lit_pos literals))"
        using False ok fit len op m by (auto simp: lz_sequence_def Let_def names)
      ultimately show ?thesis using cm fit inv m by (simp add: exec_inv_def WILDCOPY_SLACK_def add.commute)
    qed
  qed
  then show "exec_abs literals (execute_sequence literals start limit max_back seq (out, op, lit_pos)) =
      lz_sequence start limit max_back seq (take op out, drop lit_pos literals)" by blast
  show "execute_sequence literals start limit max_back seq (out, op, lit_pos) = Inr st \<Longrightarrow> exec_inv literals start limit room st"
    using both by blast
qed

lemma execute_batch_lz:
  assumes "max_back \<le> start"
  shows "exec_inv literals start limit room (out, op, lit_pos) \<Longrightarrow>
    exec_abs literals (execute_batch literals start limit max_back seqs (out, op, lit_pos)) =
      lz_sequences start limit max_back seqs (take op out, drop lit_pos literals) \<and>
    (\<forall>st. execute_batch literals start limit max_back seqs (out, op, lit_pos) = Inr st \<longrightarrow> exec_inv literals start limit room st)"
proof (induction seqs arbitrary: out op lit_pos)
  case Nil
  then show ?case by simp
next
  case (Cons seq seqs)
  note step = execute_sequence_lz [OF Cons.prems assms]
  show ?case
  proof (cases "execute_sequence literals start limit max_back seq (out, op, lit_pos)")
    case (Inl e)
    then show ?thesis using step(1) [of seq, symmetric] by simp
  next
    case (Inr st)
    obtain out' op' lit' where st: "st = (out', op', lit')" by (cases st) auto
    have "exec_inv literals start limit room (out', op', lit')" using step(2) Inr st by blast
    then show ?thesis using Cons.IH [of out' op' lit'] step(1) [of seq, symmetric] Inr st by simp
  qed
qed

section \<open>Decoding first, executing afterwards\<close>

lemma decode_batch_split:
  "0 < m \<Longrightarrow> decode_batch ll_table of_table ml_table True (n + m) dst =
    (case decode_batch ll_table of_table ml_table False n dst of (dst, xs) \<Rightarrow>
       case decode_batch ll_table of_table ml_table True m dst of (dst, ys) \<Rightarrow> (dst, xs @ ys))"
  by (induction n arbitrary: dst) (simp_all split: prod.splits)

text \<open>All sequences of the section at once, then the LZ77 copies on lists.\<close>

definition lz_section ::
  "bytes \<Rightarrow> nat \<Rightarrow> fse_table \<Rightarrow> fse_table \<Rightarrow> fse_table \<Rightarrow> u32 \<times> u32 \<times> u32 \<Rightarrow> bytes \<Rightarrow> bytes \<Rightarrow> nat \<Rightarrow>
   ((u32 \<times> u32 \<times> u32) \<times> bytes) option" where
  "lz_section data n ll_table of_table ml_table reps literals h max_back =
     (if n = 0 then Some (reps, h @ literals)
      else if data = [] then None
      else if \<not> (table_fits ll_table (LL_BITS ! MAX_LL) \<and> table_fits ml_table (ML_BITS ! MAX_ML) \<and> table_fits of_table MAX_OFF)
      then None
      else case seq_reader_new data of
        Inl _ \<Rightarrow> None
      | Inr reader \<Rightarrow>
          let (reader, ll) = seq_read reader (ft_table_log ll_table);
              (reader, ot) = seq_read reader (ft_table_log of_table);
              (reader, ml) = seq_read reader (ft_table_log ml_table);
              ((reader, _, reps), seqs) = decode_batch (ft_seq_entries ll_table) (ft_seq_entries of_table) (ft_seq_entries ml_table)
                True n (reader, \<lparr>ss_ll = ll, ss_of = ot, ss_ml = ml\<rparr>, reps);
              limit = length h + MAX_BLOCK_SIZE
          in case lz_sequences (length h) limit max_back seqs (h, literals) of
               None \<Rightarrow> None
             | Some (h', lits) \<Rightarrow> if seq_overflowed reader \<or> limit < length h' + length lits then None else Some (reps, h' @ lits))"

lemma sequences_loop_lz:
  assumes "max_back \<le> start"
  shows "exec_inv literals start limit room (out, op, lit_pos) \<Longrightarrow>
    decode_batch ll_table of_table ml_table True left dst = (dst', seqs) \<Longrightarrow>
    (case lz_sequences start limit max_back seqs (take op out, drop lit_pos literals) of
       None \<Rightarrow> \<exists>e. sequences_loop (ll_table, of_table, ml_table) literals start limit max_back left dst (out, op, lit_pos) = Inl e
     | Some (h, lits) \<Rightarrow> \<exists>out' op' lit'.
         sequences_loop (ll_table, of_table, ml_table) literals start limit max_back left dst (out, op, lit_pos) =
           Inr (dst', out', op', lit') \<and> exec_inv literals start limit room (out', op', lit') \<and>
         take op' out' = h \<and> drop lit' literals = lits)"
proof (induction left arbitrary: out op lit_pos dst seqs rule: less_induct)
  case (less left)
  let ?loop = "sequences_loop (ll_table, of_table, ml_table) literals start limit max_back"
  let ?n = "min left SEQ_BATCH"
  show ?case
  proof (cases "left = 0")
    case True
    then show ?thesis using less.prems by (simp add: sequences_loop.simps [of _ _ _ _ _ 0])
  next
    case False
    obtain dst1 batch where b: "decode_batch ll_table of_table ml_table (?n = left) ?n dst = (dst1, batch)" by (metis surj_pair)
    obtain dst2 rest where r: "decode_batch ll_table of_table ml_table True (left - ?n) dst1 = (dst2, rest)" by (metis surj_pair)
    have split: "dst' = dst2 \<and> seqs = batch @ rest"
    proof (cases "?n = left")
      case True
      then show ?thesis using b r less.prems(2) by simp
    next
      case False
      then have "0 < left - ?n" "?n + (left - ?n) = left" by simp_all
      then show ?thesis using decode_batch_split [of "left - ?n" ll_table of_table ml_table ?n dst] b r less.prems(2) False by simp
    qed
    have unfold: "?loop left dst (out, op, lit_pos) =
        and_then (execute_batch literals start limit max_back batch (out, op, lit_pos)) (?loop (left - ?n) dst1)"
      using False b by (subst sequences_loop.simps) (simp add: Let_def)
    have exec: "exec_abs literals (execute_batch literals start limit max_back batch (out, op, lit_pos)) =
        lz_sequences start limit max_back batch (take op out, drop lit_pos literals)"
      "\<And>st. execute_batch literals start limit max_back batch (out, op, lit_pos) = Inr st \<Longrightarrow> exec_inv literals start limit room st"
      using execute_batch_lz [OF assms less.prems(1), of batch] by blast+
    show ?thesis
    proof (cases "execute_batch literals start limit max_back batch (out, op, lit_pos)")
      case (Inl e)
      then have "lz_sequences start limit max_back seqs (take op out, drop lit_pos literals) = None"
        using exec(1) [symmetric] split by (simp add: lz_sequences_append)
      then show ?thesis using unfold Inl by simp
    next
      case (Inr st)
      obtain out1 op1 lit1 where st: "st = (out1, op1, lit1)" by (cases st) auto
      have inv: "exec_inv literals start limit room (out1, op1, lit1)" using exec(2) Inr st by blast
      have lz: "lz_sequences start limit max_back seqs (take op out, drop lit_pos literals) =
          lz_sequences start limit max_back rest (take op1 out1, drop lit1 literals)"
        using exec(1) [symmetric] Inr st split by (simp add: lz_sequences_append)
      have "left - ?n < left" using False by (simp add: SEQ_BATCH_def)
      from less.IH [OF this inv r [folded conjunct1 [OF split]]] show ?thesis unfolding lz unfold Inr st by (auto split: option.splits prod.splits)
    qed
  qed
qed

text \<open>
  C36. The sequences section computes what its definition says: executing batches of 64 sequences through a fixed
  buffer, with copies of whole chunks that overshoot, gives the same repeat offsets and the same bytes as
  decoding all sequences and executing them one after the other on lists, and fails exactly when that
  fails.
\<close>

theorem sequences_section_lz77:
  assumes "max_back \<le> length out"
  shows "decode_and_execute_sequences data n ll_table of_table ml_table reps literals out max_back = Inr r \<longleftrightarrow>
    lz_section data n ll_table of_table ml_table reps literals out max_back = Some r"
proof -
  consider "n = 0" | "0 < n" "data = []" | "0 < n" "data \<noteq> []"
      "\<not> (table_fits ll_table (LL_BITS ! MAX_LL) \<and> table_fits ml_table (ML_BITS ! MAX_ML) \<and> table_fits of_table MAX_OFF)"
    | e where "0 < n" "data \<noteq> []" "table_fits ll_table (LL_BITS ! MAX_LL)" "table_fits ml_table (ML_BITS ! MAX_ML)"
        "table_fits of_table MAX_OFF" "seq_reader_new data = Inl e"
    | reader where "0 < n" "data \<noteq> []" "table_fits ll_table (LL_BITS ! MAX_LL)" "table_fits ml_table (ML_BITS ! MAX_ML)"
        "table_fits of_table MAX_OFF" "seq_reader_new data = Inr reader"
    by (cases "seq_reader_new data") blast+
  then show ?thesis
  proof cases
    case 5
    obtain r1 ll where 1: "seq_read reader (ft_table_log ll_table) = (r1, ll)" by (metis surj_pair)
    obtain r2 ot where 2: "seq_read r1 (ft_table_log of_table) = (r2, ot)" by (metis surj_pair)
    obtain r3 ml where 3: "seq_read r2 (ft_table_log ml_table) = (r3, ml)" by (metis surj_pair)
    let ?dst = "(r3, \<lparr>ss_ll = ll, ss_of = ot, ss_ml = ml\<rparr>, reps)"
    let ?limit = "length out + MAX_BLOCK_SIZE"
    let ?out = "out @ replicate (MAX_BLOCK_SIZE + WILDCOPY_SLACK) 0"
    let ?ex = "execute_sequences data n ll_table of_table ml_table reps literals ?out (length out) ?limit max_back"
    obtain reader' states reps' seqs where d: "decode_batch (ft_seq_entries ll_table) (ft_seq_entries of_table) (ft_seq_entries ml_table)
        True n ?dst = ((reader', states, reps'), seqs)" by (metis prod_cases3 surj_pair)
    have inv: "exec_inv literals (length out) ?limit (?limit + WILDCOPY_SLACK) (?out, length out, 0)" by (simp add: exec_inv_def)
    note loop = sequences_loop_lz [OF assms inv d]
    have whole: "decode_and_execute_sequences data n ll_table of_table ml_table reps literals out max_back =
        and_then ?ex (\<lambda>(reps, out, op). Inr (reps, take op out))"
      using 5 by (simp add: decode_and_execute_sequences_def Let_def)
    have ex: "?ex = and_then (sequences_loop (ft_seq_entries ll_table, ft_seq_entries of_table, ft_seq_entries ml_table) literals
          (length out) ?limit max_back n ?dst (?out, length out, 0)) (\<lambda>((reader, states, reps), out, op, lit_pos).
            if seq_overflowed reader then Inl ''sequence bitstream overread''
            else if ?limit - op < length literals - lit_pos then Inl ''trailing literals overflow the maximum block size''
            else Inr (reps, copy_into out op (drop lit_pos literals), op + (length literals - lit_pos)))"
      using 5 1 2 3 by (simp add: execute_sequences_def)
    have ref: "lz_section data n ll_table of_table ml_table reps literals out max_back =
        (case lz_sequences (length out) ?limit max_back seqs (out, literals) of
           None \<Rightarrow> None
         | Some (h', lits) \<Rightarrow> if seq_overflowed reader' \<or> ?limit < length h' + length lits then None else Some (reps', h' @ lits))"
      using 5 1 2 3 d by (simp add: lz_section_def Let_def)
    show ?thesis
    proof (cases "lz_sequences (length out) ?limit max_back seqs (out, literals)")
      case None
      then show ?thesis using loop whole ex ref by auto
    next
      case (Some hl)
      obtain h lits where hl: "hl = (h, lits)" by (cases hl)
      obtain out' op' lit' where run: "sequences_loop (ft_seq_entries ll_table, ft_seq_entries of_table, ft_seq_entries ml_table) literals
          (length out) ?limit max_back n ?dst (?out, length out, 0) = Inr ((reader', states, reps'), out', op', lit')"
        and inv': "exec_inv literals (length out) ?limit (?limit + WILDCOPY_SLACK) (out', op', lit')"
        and eq: "take op' out' = h" "drop lit' literals = lits"
        using loop Some hl by auto
      have len: "op' \<le> ?limit" "?limit \<le> length out'" "lit' \<le> length literals" using inv' by (simp_all add: exec_inv_def)
      have h: "length h = op'" "length lits = length literals - lit'" using eq len by auto
      have "op' \<le> length out'" using len by simp
      then have "take (op' + (length literals - lit')) (copy_into out' op' (drop lit' literals)) = h @ lits"
        using take_copy_into [of op' out' "drop lit' literals"] eq by (simp add: h(2) [symmetric])
      moreover have "?limit - op' < length literals - lit' \<longleftrightarrow> ?limit < length h + length lits" using len h by auto
      ultimately show ?thesis using whole ex ref run Some hl by auto
    qed
  qed (simp_all add: decode_and_execute_sequences_def lz_section_def execute_sequences_def Let_def)
qed

theorem sequences_section_lz77_witness:
  "decode_and_execute_sequences [1] 1 (build_rle_fse_table 2 (Some LL_BASE) (Some LL_BITS))
     (build_rle_fse_table 0 (Some OF_BASE) (Some OF_BITS)) (build_rle_fse_table 0 (Some ML_BASE) (Some ML_BITS))
     (1, 4, 8) [65, 66] [] 0 = Inr ((1, 4, 8), [65, 66, 66, 66, 66])"
proof -
  let ?ll = "build_rle_fse_table 2 (Some LL_BASE) (Some LL_BITS)"
  let ?of = "build_rle_fse_table 0 (Some OF_BASE) (Some OF_BITS)"
  let ?ml = "build_rle_fse_table 0 (Some ML_BASE) (Some ML_BITS)"
  have fits: "table_fits ?ll (LL_BITS ! MAX_LL)" "table_fits ?ml (ML_BITS ! MAX_ML)" "table_fits ?of MAX_OFF"
    by (simp_all add: table_fits_def build_rle_fse_table_def fse_table_new_def fse_well_formed_def look_up_def
        LL_BITS_def LL_BASE_def ML_BITS_def ML_BASE_def OF_BITS_def OF_BASE_def MAX_LL_def MAX_ML_def MAX_OFF_def)
  have first: "ft_seq_entries (build_rle_fse_table s b a) ! 0 =
      seq_entry_new \<lparr>fe_symbol = s, fe_nb_bits = 0, fe_next_state = 0, fe_nb_additional_bits = look_up a s, fe_base_value = look_up b s\<rparr>" for s b a
    by (simp add: build_rle_fse_table_def fse_table_new_def copy_into_def SEQ_TABLE_SLOTS_def)
  have log: "ft_table_log (build_rle_fse_table s b a) = 0" for s b a by (simp add: build_rle_fse_table_def fse_table_new_def)
  have r: "seq_reader_new [1] = Inr \<lparr>sq_data = [1], sq_rem = 0, sq_cache = 0, sq_cbits = 56\<rparr>"
    by code_simp
  let ?r = "\<lparr>sq_data = [1], sq_rem = 0, sq_cache = 0, sq_cbits = 56\<rparr>"
  have e: "seq_nb_additional_bits (seq_entry_new \<lparr>fe_symbol = s, fe_nb_bits = 0, fe_next_state = 0, fe_nb_additional_bits = 0, fe_base_value = b\<rparr>) = 0"
    "seq_nb_bits (seq_entry_new \<lparr>fe_symbol = s, fe_nb_bits = 0, fe_next_state = 0, fe_nb_additional_bits = 0, fe_base_value = b\<rparr>) = 0"
    "seq_base_value (seq_entry_new \<lparr>fe_symbol = s, fe_nb_bits = 0, fe_next_state = 0, fe_nb_additional_bits = 0, fe_base_value = b\<rparr>) = of_nat b"
    if "b < 4" for s b :: nat
  proof -
    have "b = 0 \<or> b = 1 \<or> b = 2 \<or> b = 3" using that by linarith
    then show "seq_nb_additional_bits (seq_entry_new \<lparr>fe_symbol = s, fe_nb_bits = 0, fe_next_state = 0, fe_nb_additional_bits = 0, fe_base_value = b\<rparr>) = 0"
      "seq_nb_bits (seq_entry_new \<lparr>fe_symbol = s, fe_nb_bits = 0, fe_next_state = 0, fe_nb_additional_bits = 0, fe_base_value = b\<rparr>) = 0"
      "seq_base_value (seq_entry_new \<lparr>fe_symbol = s, fe_nb_bits = 0, fe_next_state = 0, fe_nb_additional_bits = 0, fe_base_value = b\<rparr>) = of_nat b"
      by (auto simp: seq_nb_additional_bits_def seq_nb_bits_def seq_base_value_def seq_entry_new_def)
  qed
  have codes: "look_up (Some LL_BITS) 2 = 0" "look_up (Some LL_BASE) 2 = 2" "look_up (Some OF_BITS) 0 = 0" "look_up (Some OF_BASE) 0 = 0"
    "look_up (Some ML_BITS) 0 = 0" "look_up (Some ML_BASE) 0 = 3"
    by (simp_all add: look_up_def LL_BITS_def LL_BASE_def ML_BITS_def ML_BASE_def OF_BITS_def OF_BASE_def)
  have bits: "seq_refill ?r = ?r" "peek_at ?r 0 0 = 0" "seq_consume ?r 0 = ?r" "seq_read ?r 0 = (?r, 0)" "seq_overflowed ?r = False"
    "resolve_offset 1 2 (1, 4, 8) = ((1, 4, 8), 1)"
    by (simp_all add: seq_refill_def REFILL_BITS_def tail_cache_def peek_at_def seq_consume_def seq_read_def seq_overflowed_def
        resolve_offset_def)
  have one: "decode_sequence (ft_seq_entries ?ll) (ft_seq_entries ?of) (ft_seq_entries ?ml) True
        (?r, \<lparr>ss_ll = 0, ss_of = 0, ss_ml = 0\<rparr>, 1, 4, 8) =
      ((?r, \<lparr>ss_ll = 0, ss_of = 0, ss_ml = 0\<rparr>, 1, 4, 8), \<lparr>sq_literal_length = 2, sq_match_length = 3, sq_offset = 1\<rparr>)"
    by (simp add: decode_sequence_def first codes e bits)
  have exec: "lz_sequence 0 MAX_BLOCK_SIZE 0 \<lparr>sq_literal_length = 2, sq_match_length = 3, sq_offset = 1\<rparr> ([], [65, 66]) = Some ([65, 66, 66, 66, 66], [])"
  proof -
    have "lz_copy 1 3 [65, 66] = [65, 66, 66, 66, 66]" by (simp add: numeral_eq_Suc)
    then show ?thesis by (simp add: lz_sequence_def MAX_BLOCK_SIZE_def)
  qed
  have "lz_section [1] 1 ?ll ?of ?ml (1, 4, 8) [65, 66] [] 0 = Some ((1, 4, 8), [65, 66, 66, 66, 66])"
    using fits r one exec unfolding lz_section_def by (simp add: Let_def log bits MAX_BLOCK_SIZE_def)
  then show ?thesis using sequences_section_lz77 [of 0 "[]"] by simp
qed

end
