(* ===== verification/ZBlock.thy ===== *)
theory ZBlock
  imports ZSeq
begin

text \<open>
  \<^verbatim>\<open>src/compress/zstd_dec/block.rs\<close> and \<^verbatim>\<open>src/compress/zstd_dec/frame.rs\<close>: block headers, the literals section, a whole
  block, and frame headers. A block that fails gives only its error: the decompressor around it is not
  used any further.
\<close>

section \<open>Block headers\<close>

datatype block_type = BtRaw | BtRle | BtCompressed | BtReserved

record block_header =
  bh_is_last :: bool
  bh_block_type :: block_type
  bh_block_size :: nat

definition le24 :: "bytes \<Rightarrow> nat" where
  "le24 data = unat (data ! 0) + 256 * unat (data ! 1) + 65536 * unat (data ! 2)"

definition le32n :: "bytes \<Rightarrow> nat" where
  "le32n data = unat (data ! 0) + 256 * unat (data ! 1) + 65536 * unat (data ! 2) + 16777216 * unat (data ! 3)"

definition block_type_of :: "nat \<Rightarrow> block_type" where
  "block_type_of v = (if v = 0 then BtRaw else if v = 1 then BtRle else if v = 2 then BtCompressed else BtReserved)"

definition parse_block_header :: "bytes \<Rightarrow> string + block_header" where
  "parse_block_header data =
     (if length data < 3 then Inl ''block header needs 3 bytes''
      else
        let raw = le24 data; block_type = block_type_of (raw div 2 mod 4) in
        if block_type = BtReserved then Inl ''reserved block type''
        else Inr \<lparr>bh_is_last = odd raw, bh_block_type = block_type, bh_block_size = raw div 8\<rparr>)"

definition block_compressed_size :: "block_header \<Rightarrow> nat" where
  "block_compressed_size h =
     (case bh_block_type h of BtRaw \<Rightarrow> bh_block_size h | BtRle \<Rightarrow> 1 | BtCompressed \<Rightarrow> bh_block_size h | BtReserved \<Rightarrow> 0)"

section \<open>Literals\<close>

text \<open>The header of raw and RLE literals: its length and the size; \<open>kind\<close> names it in errors.\<close>

definition literals_header :: "string \<Rightarrow> bytes \<Rightarrow> string + (nat \<times> nat)" where
  "literals_header kind data =
     (let size_format = unat (data ! 0) div 4 mod 4 in
      if size_format = 1 then
        if length data < 2 then Inl (kind @ '' literals header truncated'')
        else Inr (2, le16 (data ! 0) (data ! 1) div 16)
      else if size_format = 3 then
        if length data < 3 then Inl (kind @ '' literals header truncated'')
        else Inr (3, le24 data div 16)
      else Inr (1, unat (data ! 0) div 8))"

definition decode_raw_literals :: "bytes \<Rightarrow> string + (nat \<times> bytes)" where
  "decode_raw_literals data =
     and_then (literals_header ''raw'' data) (\<lambda>(header_size, lit_size).
       if length data < header_size + lit_size then Inl ''raw literals extend past block''
       else Inr (header_size + lit_size, subslice header_size (header_size + lit_size) data))"

definition decode_rle_literals :: "bytes \<Rightarrow> string + (nat \<times> bytes)" where
  "decode_rle_literals data =
     and_then (literals_header ''RLE'' data) (\<lambda>(header_size, lit_size).
       if length data \<le> header_size then Inl ''RLE literals missing byte value''
       else Inr (header_size + 1, replicate lit_size (data ! header_size)))"

text \<open>The header of Huffman-coded literals: its length, the two sizes, and whether there is one stream.\<close>

definition compressed_literals_header :: "bytes \<Rightarrow> string + (nat \<times> nat \<times> nat \<times> bool)" where
  "compressed_literals_header data =
     (if length data < 3 then Inl ''compressed literals header too short''
      else
        let size_format = unat (data ! 0) div 4 mod 4 in
        if size_format \<le> 1 then Inr (3, le24 data div 16 mod 1024, le24 data div 16384 mod 1024, size_format = 0)
        else if size_format = 2 then
          if length data < 4 then Inl ''compressed literals header truncated (4-byte)''
          else Inr (4, le32n data div 16 mod 16384, le32n data div 2 ^ 18, False)
        else
          if length data < 5 then Inl ''compressed literals header truncated (5-byte)''
          else Inr (5, le32n data div 16 mod 2 ^ 18, le32n data div 2 ^ 22 + unat (data ! 4) * 1024, False))"

text \<open>\<^verbatim>\<open>literals.resize(n, 0)\<close>.\<close>

definition resize0 :: "nat \<Rightarrow> bytes \<Rightarrow> bytes" where
  "resize0 n xs = take n xs @ replicate (n - length xs) 0"

definition decode_compressed_literals ::
  "bytes \<Rightarrow> block_state \<Rightarrow> bool \<Rightarrow> bytes \<Rightarrow> (string + (nat \<times> block_state \<times> bytes)) option" where
  "decode_compressed_literals data st treeless literals =
     (case compressed_literals_header data of
        Inl e \<Rightarrow> Some (Inl e)
      | Inr (header_size, regen_size, compressed_size, single_stream) \<Rightarrow>
          if length data < header_size + compressed_size then Some (Inl ''compressed literals extend past block'')
          else
            let compressed_data = subslice header_size (header_size + compressed_size) data in
            map_option (\<lambda>r. and_then r (\<lambda>(table, huf_consumed).
                let huf_stream = drop huf_consumed compressed_data;
                    literals = resize0 regen_size literals
                in and_then (if single_stream then decompress_huffman_1stream table huf_stream literals
                             else decompress_huffman_4streams table huf_stream literals) (\<lambda>literals.
                     Inr (header_size + compressed_size, st\<lparr>bk_huffman_table := Some table\<rparr>, literals))))
              (if treeless
               then (case bk_huffman_table st of
                       None \<Rightarrow> Some (Inl ''treeless literals but no previous Huffman table'')
                     | Some table \<Rightarrow> Some (Inr (table, 0)))
               else read_huffman_table compressed_data))"

definition decode_literals_section ::
  "bytes \<Rightarrow> block_state \<Rightarrow> bytes \<Rightarrow> (string + (nat \<times> block_state \<times> bytes)) option" where
  "decode_literals_section data st literals =
     (if data = [] then Some (Inl ''empty literals section'')
      else
        let lit_block_type = unat (data ! 0) mod 4 in
        if lit_block_type = 0 then Some (and_then (decode_raw_literals data) (\<lambda>(n, lits). Inr (n, st, lits)))
        else if lit_block_type = 1 then Some (and_then (decode_rle_literals data) (\<lambda>(n, lits). Inr (n, st, lits)))
        else decode_compressed_literals data st (lit_block_type = 3) literals)"

section \<open>A block\<close>

definition sequences_section ::
  "bytes \<Rightarrow> block_state \<Rightarrow> bytes \<Rightarrow> bytes \<Rightarrow> nat \<Rightarrow> string + (block_state \<times> bytes)" where
  "sequences_section seq_data st literals out max_back =
     (case parse_sequences_header seq_data st of
        (st, Inl e) \<Rightarrow> Inl e
      | (st, Inr (num_sequences, header_consumed)) \<Rightarrow>
          if num_sequences = 0 then Inr (st\<lparr>bk_literals_buf := literals\<rparr>, out @ literals)
          else and_then (decode_and_execute_sequences (drop header_consumed seq_data) num_sequences (the (bk_ll_table st))
                 (the (bk_of_table st)) (the (bk_ml_table st)) (bk_rep_offsets st) literals out max_back) (\<lambda>(reps, out).
               Inr (st\<lparr>bk_rep_offsets := reps, bk_literals_buf := literals\<rparr>, out)))"

definition decompress_compressed_block ::
  "bytes \<Rightarrow> nat \<Rightarrow> block_state \<Rightarrow> bytes \<Rightarrow> nat \<Rightarrow> (string + (block_state \<times> bytes)) option" where
  "decompress_compressed_block data block_size st out max_back =
     (if length data < block_size then Some (Inl ''compressed block data ({} bytes) shorter than block_size ({})'')
      else
        let block_data = take block_size data in
        map_option (\<lambda>r. and_then r (\<lambda>(lit_consumed, st, literals).
            sequences_section (drop lit_consumed block_data) st literals out max_back))
          (decode_literals_section block_data (st\<lparr>bk_literals_buf := []\<rparr>) (bk_literals_buf st)))"

definition decompress_block ::
  "block_header \<Rightarrow> bytes \<Rightarrow> block_state \<Rightarrow> bytes \<Rightarrow> nat \<Rightarrow> (string + (block_state \<times> bytes)) option" where
  "decompress_block h block_data st out max_back =
     (case bh_block_type h of
        BtRaw \<Rightarrow>
          if length block_data < bh_block_size h then Some (Inl ''raw block data too short'')
          else Some (Inr (st, out @ take (bh_block_size h) block_data))
      | BtRle \<Rightarrow>
          if block_data = [] then Some (Inl ''RLE block needs at least 1 byte'')
          else Some (Inr (st, out @ replicate (bh_block_size h) (block_data ! 0)))
      | BtCompressed \<Rightarrow> decompress_compressed_block block_data (bh_block_size h) st out max_back
      | BtReserved \<Rightarrow> Some (Inl ''cannot decompress reserved block''))"

section \<open>Frame headers\<close>

definition ZSTD_MAGIC :: nat where "ZSTD_MAGIC = 0xFD2FB528"
definition SKIPPABLE_MAGIC_LOW :: nat where "SKIPPABLE_MAGIC_LOW = 0x184D2A50"
definition SKIPPABLE_MAGIC_HIGH :: nat where "SKIPPABLE_MAGIC_HIGH = 0x184D2A5F"
definition MAX_WINDOW_SIZE :: nat where "MAX_WINDOW_SIZE = 128 * 1024 * 1024"
definition MIN_WINDOW_LOG :: nat where "MIN_WINDOW_LOG = 10"

record frame_header =
  fh_checksum_flag :: bool
  fh_single_segment :: bool
  fh_window_size :: nat
  fh_dictionary_id :: nat
  fh_content_size :: "nat option"
  fh_header_size :: nat

text \<open>A little-endian number of up to eight bytes.\<close>

primrec le_nat :: "bytes \<Rightarrow> nat" where
  "le_nat [] = 0"
| "le_nat (b # bs) = unat b + 256 * le_nat bs"

definition window_of_byte :: "byte \<Rightarrow> nat" where
  "window_of_byte b =
     (let base = 2 ^ (MIN_WINDOW_LOG + unat b div 8) in base + unat b mod 8 * (base div 8))"

definition parse_frame_header :: "bytes \<Rightarrow> string + frame_header option" where
  "parse_frame_header data =
     (if length data < 5 then Inr None
      else if le32n data \<noteq> ZSTD_MAGIC then Inl ''invalid zstd magic: 0x{:08X}''
      else
        let descriptor = unat (data ! 4);
            checksum_flag = odd (descriptor div 4);
            single_segment = odd (descriptor div 32);
            content_size_flag = descriptor div 64;
            dict_id_flag = descriptor mod 4
        in if odd (descriptor div 8) then Inl ''reserved bit set in frame header descriptor''
        else if \<not> single_segment \<and> length data \<le> 5 then Inr None
        else
        let window_size = (if single_segment then 0 else window_of_byte (data ! 5));
            pos = (if single_segment then 5 else 6);
            dict_id_size = (if dict_id_flag = 3 then 4 else dict_id_flag)
        in if length data < pos + dict_id_size then Inr None
        else
        let dictionary_id = le_nat (subslice pos (pos + dict_id_size) data);
            pos = pos + dict_id_size;
            fcs_size = (if content_size_flag = 0 then if single_segment then 1 else 0
                        else if content_size_flag = 1 then 2 else if content_size_flag = 2 then 4 else 8)
        in if length data < pos + fcs_size then Inr None
        else
        let content_size =
              (if fcs_size = 0 then None
               else Some (le_nat (subslice pos (pos + fcs_size) data) + (if fcs_size = 2 then 256 else 0)));
            final_window_size =
              (if single_segment then (case content_size of None \<Rightarrow> 0 | Some n \<Rightarrow> n) else window_size);
            clamped = (if MAX_WINDOW_SIZE < final_window_size then MAX_WINDOW_SIZE
                       else if final_window_size = 0 then 2 ^ MIN_WINDOW_LOG else final_window_size)
        in Inr (Some \<lparr>fh_checksum_flag = checksum_flag, fh_single_segment = single_segment, fh_window_size = clamped,
                      fh_dictionary_id = dictionary_id, fh_content_size = content_size, fh_header_size = pos + fcs_size\<rparr>))"

definition check_skippable_frame :: "bytes \<Rightarrow> nat option" where
  "check_skippable_frame data =
     (if length data < 8 then None
      else
        let magic = le32n data in
        if SKIPPABLE_MAGIC_LOW \<le> magic \<and> magic \<le> SKIPPABLE_MAGIC_HIGH then Some (8 + le32n (drop 4 data)) else None)"

end
