(* ===== verification/Zstd.thy ===== *)
theory Zstd
  imports ZBlock Checkpoint
begin

text \<open>
  \<^verbatim>\<open>ZstdDecompressor\<close> of \<^verbatim>\<open>src/compress/zstd_dec/mod.rs\<close>: the decoder around the blocks, with its input buffer, its
  history and its checkpoints. After an error the decompressor is not used any further; the model keeps
  the state at the start of the failing step.
\<close>

section \<open>State\<close>

datatype decoder_phase =
    PhFrameHeader
  | PhBlockHeader
  | PhBlockData bool nat nat nat
  | PhFrameChecksum bool
  | PhDone

record zstd_decompressor =
  zd_phase :: decoder_phase
  zd_buffer :: bytes
  zd_frame_header :: "frame_header option"
  zd_block_state :: block_state
  zd_history :: bytes
  zd_delivered :: nat
  zd_window_size :: nat
  zd_total_in :: nat
  zd_total_out :: nat
  zd_finished :: bool

definition zstd_new :: zstd_decompressor where
  "zstd_new =
     \<lparr>zd_phase = PhFrameHeader, zd_buffer = [], zd_frame_header = None, zd_block_state = block_state_new,
      zd_history = [], zd_delivered = 0, zd_window_size = 0, zd_total_in = 0, zd_total_out = 0, zd_finished = False\<rparr>"

definition staged_len :: "zstd_decompressor \<Rightarrow> nat" where
  "staged_len d = length (zd_history d) - zd_delivered d"

definition drain_staged :: "zstd_decompressor \<Rightarrow> nat \<Rightarrow> zstd_decompressor \<times> bytes" where
  "drain_staged d cap =
     (let to_copy = min (staged_len d) cap in
      (d\<lparr>zd_delivered := zd_delivered d + to_copy\<rparr>, subslice (zd_delivered d) (zd_delivered d + to_copy) (zd_history d)))"

definition trim_history :: "zstd_decompressor \<Rightarrow> zstd_decompressor" where
  "trim_history d =
     (let keep = zd_window_size d in
      if saturating_add64 (saturating_mul64 keep 2) (64 * 1024) < length (zd_history d) then
        let cut = min (length (zd_history d) - keep) (zd_delivered d) in
        if 0 < cut then d\<lparr>zd_history := drop cut (zd_history d), zd_delivered := zd_delivered d - cut\<rparr> else d
      else d)"

section \<open>The decoding loop\<close>

datatype loop_step =
    Stay
  | Move zstd_decompressor nat
  | Fail error

definition frame_header_step :: "zstd_decompressor \<Rightarrow> nat \<Rightarrow> loop_step" where
  "frame_header_step d pos =
     (if length (zd_buffer d) < pos + 4 then Stay
      else
        let rest = drop pos (zd_buffer d) in
        case check_skippable_frame rest of
          Some skip_size \<Rightarrow> if length (zd_buffer d) < pos + skip_size then Stay else Move d (pos + skip_size)
        | None \<Rightarrow>
            if le32n rest \<noteq> ZSTD_MAGIC then Fail (DecompressionError ''zstd: unknown frame magic 0x{:08X}'')
            else (case map_err (\<lambda>_. DecompressionError ''zstd frame header: {}'') (parse_frame_header rest) of
                    Inl e \<Rightarrow> Fail e
                  | Inr None \<Rightarrow> Stay
                  | Inr (Some h) \<Rightarrow>
                      Move (d\<lparr>zd_window_size := max (fh_window_size h) 1024, zd_block_state := block_state_new,
                              zd_frame_header := Some h, zd_phase := PhBlockHeader\<rparr>) (pos + fh_header_size h)))"

definition block_type_code :: "block_type \<Rightarrow> nat" where
  "block_type_code t = (case t of BtRaw \<Rightarrow> 0 | BtRle \<Rightarrow> 1 | BtCompressed \<Rightarrow> 2 | BtReserved \<Rightarrow> 3)"

definition block_header_step :: "nat \<Rightarrow> zstd_decompressor \<Rightarrow> nat \<Rightarrow> loop_step" where
  "block_header_step out_len d pos =
     (if out_len \<le> staged_len d \<or> length (zd_buffer d) < pos + 3 then Stay
      else case map_err (\<lambda>_. DecompressionError ''block header: {}'') (parse_block_header (drop pos (zd_buffer d))) of
        Inl e \<Rightarrow> Fail e
      | Inr h \<Rightarrow>
          Move (d\<lparr>zd_phase := PhBlockData (bh_is_last h) (block_type_code (bh_block_type h)) (bh_block_size h)
                    (block_compressed_size h)\<rparr>) (pos + 3))"

text \<open>\<open>None\<close>: the block's decoder does not return.\<close>

definition block_data_step ::
  "bool \<Rightarrow> nat \<Rightarrow> nat \<Rightarrow> nat \<Rightarrow> zstd_decompressor \<Rightarrow> nat \<Rightarrow> loop_step option" where
  "block_data_step header_last block_type_raw block_size compressed_size d pos =
     (if length (zd_buffer d) < pos + compressed_size then Some Stay
      else if 2 < block_type_raw then Some (Fail (DecompressionError ''invalid block type''))
      else
        let h = \<lparr>bh_is_last = header_last, bh_block_type = block_type_of block_type_raw, bh_block_size = block_size\<rparr>;
            block_data = subslice pos (pos + compressed_size) (zd_buffer d);
            max_back = min (length (zd_history d)) (zd_window_size d)
        in map_option (\<lambda>r. case map_err (\<lambda>_. DecompressionError ''block decompress: {}'') r of
               Inl e \<Rightarrow> Fail e
             | Inr (st, history) \<Rightarrow>
                 let d = trim_history (d\<lparr>zd_block_state := st, zd_history := history\<rparr>);
                     phase = (if header_last
                              then PhFrameChecksum (case zd_frame_header d of None \<Rightarrow> False | Some h \<Rightarrow> fh_checksum_flag h)
                              else PhBlockHeader)
                 in Move (d\<lparr>zd_phase := phase\<rparr>) (pos + compressed_size))
             (decompress_block h block_data (zd_block_state d) (zd_history d) max_back))"

definition frame_checksum_step :: "bool \<Rightarrow> zstd_decompressor \<Rightarrow> nat \<Rightarrow> loop_step" where
  "frame_checksum_step has_checksum d pos =
     (if has_checksum \<and> length (zd_buffer d) < pos + 4 then Stay
      else Move (d\<lparr>zd_frame_header := None, zd_phase := PhFrameHeader\<rparr>) (if has_checksum then pos + 4 else pos))"

definition zstd_step :: "nat \<Rightarrow> zstd_decompressor \<Rightarrow> nat \<Rightarrow> loop_step option" where
  "zstd_step out_len d pos =
     (case zd_phase d of
        PhFrameHeader \<Rightarrow> Some (frame_header_step d pos)
      | PhBlockHeader \<Rightarrow> Some (block_header_step out_len d pos)
      | PhBlockData lst ty sz csz \<Rightarrow> block_data_step lst ty sz csz d pos
      | PhFrameChecksum c \<Rightarrow> Some (frame_checksum_step c d pos)
      | PhDone \<Rightarrow> Some Stay)"

partial_function (option) zstd_loop :: "nat \<Rightarrow> zstd_decompressor \<Rightarrow> nat \<Rightarrow> (zstd_decompressor \<times> nat result) option" where
  "zstd_loop out_len d pos =
     (case zstd_step out_len d pos of
        None \<Rightarrow> None
      | Some s \<Rightarrow>
          (case s of
             Stay \<Rightarrow> Some (if zd_phase d = PhDone then d\<lparr>zd_finished := True\<rparr> else d, Inr pos)
           | Fail e \<Rightarrow> Some (d, Inl e)
           | Move d pos \<Rightarrow> zstd_loop out_len d pos))"

text \<open>Gives whether any input was used.\<close>

definition decode_buffered :: "nat \<Rightarrow> zstd_decompressor \<Rightarrow> (zstd_decompressor \<times> bool result) option" where
  "decode_buffered out_len d =
     (case zstd_loop out_len d 0 of
        None \<Rightarrow> None
      | Some (d, Inl e) \<Rightarrow> Some (d, Inl e)
      | Some (d, Inr pos) \<Rightarrow> Some (d\<lparr>zd_buffer := drop pos (zd_buffer d)\<rparr>, Inr (0 < pos)))"

section \<open>The decompressor\<close>

definition zstd_status :: "zstd_decompressor \<Rightarrow> decompress_status" where
  "zstd_status d = (if zd_finished d \<and> staged_len d = 0 then StreamEnd else Continue)"

text \<open>The end of \<^verbatim>\<open>decompress\<close>: hand out what is staged.\<close>

definition zstd_deliver ::
  "bytes \<Rightarrow> nat \<Rightarrow> zstd_decompressor \<Rightarrow> nat \<Rightarrow> bool \<Rightarrow> zstd_decompressor \<times> decompress_result result" where
  "zstd_deliver input cap d consumed progressed =
     (let d = d\<lparr>zd_total_in := zd_total_in d + consumed\<rparr>;
          (d, out) = drain_staged d cap;
          d = d\<lparr>zd_total_out := zd_total_out d + length out\<rparr>
      in if input = [] \<and> \<not> progressed \<and> out = [] \<and> \<not> zd_finished d then (d, Inl TruncatedInput)
         else (d, Inr \<lparr>bytes_consumed = consumed, produced = out, status = zstd_status d\<rparr>))"

text \<open>Decoding, once nothing is staged; input is only taken when what was buffered gives nothing.\<close>

definition zstd_decode ::
  "bytes \<Rightarrow> nat \<Rightarrow> zstd_decompressor \<Rightarrow> (zstd_decompressor \<times> decompress_result result) option" where
  "zstd_decode input cap d =
     (case decode_buffered cap d of
        None \<Rightarrow> None
      | Some (d, Inl e) \<Rightarrow> Some (d, Inl e)
      | Some (d, Inr progressed) \<Rightarrow>
          if staged_len d = 0 \<and> \<not> zd_finished d \<and> input \<noteq> [] then
            (case decode_buffered cap (d\<lparr>zd_buffer := zd_buffer d @ input\<rparr>) of
               None \<Rightarrow> None
             | Some (d, Inl e) \<Rightarrow> Some (d, Inl e)
             | Some (d, Inr again) \<Rightarrow> Some (zstd_deliver input cap d (length input) (progressed \<or> again)))
          else Some (zstd_deliver input cap d 0 progressed))"

text \<open>A call that would never return is given an error of its own.\<close>

definition zstd_decompress ::
  "zstd_decompressor \<Rightarrow> bytes \<Rightarrow> nat \<Rightarrow> zstd_decompressor \<times> decompress_result result" where
  "zstd_decompress d input cap =
     (if 0 < staged_len d then
        let (d, out) = drain_staged d cap in
        (d\<lparr>zd_total_out := zd_total_out d + length out\<rparr>,
         Inr \<lparr>bytes_consumed = 0, produced = out, status = zstd_status d\<rparr>)
      else if zd_finished d then (d, Inr \<lparr>bytes_consumed = 0, produced = [], status = StreamEnd\<rparr>)
      else if input = [] \<and> zd_buffer d = [] then
        if zd_phase d \<noteq> PhFrameHeader then (d, Inl TruncatedInput)
        else (d\<lparr>zd_finished := True, zd_phase := PhDone\<rparr>, Inr \<lparr>bytes_consumed = 0, produced = [], status = StreamEnd\<rparr>)
      else case zstd_decode input cap d of None \<Rightarrow> (d, Inl (InvalidState ''does not return'')) | Some r \<Rightarrow> r)"

section \<open>Checkpoints\<close>

text \<open>What \<^verbatim>\<open>serde\<close> keeps of a block state: tables are stored as their entries and rebuilt.\<close>

record block_repr =
  rp_huffman_table :: "(huf_entry list \<times> nat) option"
  rp_ll_table :: "(nat \<times> fse_entry list) option"
  rp_of_table :: "(nat \<times> fse_entry list) option"
  rp_ml_table :: "(nat \<times> fse_entry list) option"
  rp_rep_offsets :: "u32 \<times> u32 \<times> u32"

definition fse_repr :: "fse_table \<Rightarrow> nat \<times> fse_entry list" where
  "fse_repr t = (ft_table_log t, ft_entries t)"

definition huf_repr :: "huffman_table \<Rightarrow> huf_entry list \<times> nat" where
  "huf_repr t = (ht_entries t, ht_table_log t)"

definition block_to_repr :: "block_state \<Rightarrow> block_repr" where
  "block_to_repr st =
     \<lparr>rp_huffman_table = map_option huf_repr (bk_huffman_table st), rp_ll_table = map_option fse_repr (bk_ll_table st),
      rp_of_table = map_option fse_repr (bk_of_table st), rp_ml_table = map_option fse_repr (bk_ml_table st),
      rp_rep_offsets = bk_rep_offsets st\<rparr>"

definition block_from_repr :: "block_repr \<Rightarrow> block_state" where
  "block_from_repr r =
     \<lparr>bk_huffman_table = map_option (\<lambda>(e, l). huffman_table_new e l) (rp_huffman_table r),
      bk_ll_table = map_option (\<lambda>(l, e). fse_table_new l e) (rp_ll_table r),
      bk_of_table = map_option (\<lambda>(l, e). fse_table_new l e) (rp_of_table r),
      bk_ml_table = map_option (\<lambda>(l, e). fse_table_new l e) (rp_ml_table r),
      bk_rep_offsets = rp_rep_offsets r, bk_literals_buf = []\<rparr>"

text \<open>bincode, for the three things that are serialized.\<close>

record zstd_bincode =
  zb_ser_block :: "block_repr \<Rightarrow> bytes option"
  zb_de_block :: "bytes \<Rightarrow> block_repr option"
  zb_ser_phase :: "decoder_phase \<Rightarrow> bytes option"
  zb_de_phase :: "bytes \<Rightarrow> decoder_phase option"
  zb_ser_header :: "frame_header \<Rightarrow> bytes option"
  zb_de_header :: "bytes \<Rightarrow> frame_header option"

definition unwrap_or_default :: "bytes option \<Rightarrow> bytes" where
  "unwrap_or_default x = (case x of None \<Rightarrow> [] | Some b \<Rightarrow> b)"

definition zstd_checkpoint_state :: "zstd_bincode \<Rightarrow> zstd_decompressor \<Rightarrow> zstd_full_checkpoint_state" where
  "zstd_checkpoint_state bc d =
     (let keep = min (length (zd_history d)) (zd_window_size d) in
      \<lparr>zs_block_state = unwrap_or_default (zb_ser_block bc (block_to_repr (zd_block_state d))),
       zs_window = drop (length (zd_history d) - keep) (zd_history d),
       zs_window_size = zd_window_size d,
       zs_phase = unwrap_or_default (zb_ser_phase bc (zd_phase d)),
       zs_frame_header = map_option (\<lambda>h. unwrap_or_default (zb_ser_header bc h)) (zd_frame_header d),
       zs_buffer = zd_buffer d,
       zs_staged_output = drop (zd_delivered d) (zd_history d),
       zs_staged_pos = 0\<rparr>)"

definition zstd_checkpoint :: "zstd_bincode \<Rightarrow> zstd_decompressor \<Rightarrow> nat \<Rightarrow> nat \<Rightarrow> checkpoint option result" where
  "zstd_checkpoint bc d c u = Inr (Some (Ck c 0 u (CkZstd (zstd_checkpoint_state bc d))))"

text \<open>The two suffixes of the history that a checkpoint holds: the longer one contains the other.\<close>

definition restore_history :: "zstd_full_checkpoint_state \<Rightarrow> zstd_decompressor \<Rightarrow> zstd_decompressor" where
  "restore_history s d =
     (let staged = drop (min (zs_staged_pos s) (length (zs_staged_output s))) (zs_staged_output s) in
      if length (zs_window s) \<le> length staged then d\<lparr>zd_history := staged, zd_delivered := 0\<rparr>
      else d\<lparr>zd_history := zs_window s, zd_delivered := length (zs_window s) - length staged\<rparr>)"

definition zstd_restore_state ::
  "zstd_bincode \<Rightarrow> zstd_full_checkpoint_state \<Rightarrow> zstd_decompressor \<Rightarrow> zstd_decompressor \<times> unit result" where
  "zstd_restore_state bc s d =
     (case zb_de_block bc (zs_block_state s) of
        None \<Rightarrow> (d, Inl (CheckpointError ''deserialize block_state: {}''))
      | Some r \<Rightarrow>
          let d = d\<lparr>zd_block_state := block_from_repr r, zd_window_size := zs_window_size s\<rparr> in
          case zb_de_phase bc (zs_phase s) of
            None \<Rightarrow> (d, Inl (CheckpointError ''deserialize phase: {}''))
          | Some ph \<Rightarrow>
              let d = d\<lparr>zd_phase := ph\<rparr> in
              case (case zs_frame_header s of
                      None \<Rightarrow> Inr None
                    | Some b \<Rightarrow> map_sum id Some (ok_or (zb_de_header bc b) (CheckpointError ''deserialize frame_header: {}''))) of
                Inl e \<Rightarrow> (d, Inl e)
              | Inr h \<Rightarrow>
                  (restore_history s (d\<lparr>zd_frame_header := h, zd_buffer := zs_buffer s\<rparr>)\<lparr>zd_finished := False\<rparr>, Inr ()))"

definition zstd_reset :: "zstd_decompressor \<Rightarrow> zstd_decompressor" where
  "zstd_reset d =
     d\<lparr>zd_phase := PhFrameHeader, zd_buffer := [], zd_frame_header := None, zd_block_state := block_state_new,
       zd_history := [], zd_delivered := 0, zd_window_size := 0, zd_total_in := 0, zd_total_out := 0, zd_finished := False\<rparr>"

definition zstd_restore :: "zstd_bincode \<Rightarrow> zstd_decompressor \<Rightarrow> checkpoint \<Rightarrow> zstd_decompressor \<times> unit result" where
  "zstd_restore bc d cp =
     (case state cp of
        CkZstd s \<Rightarrow>
          (case zstd_restore_state bc s d of
             (d, Inl e) \<Rightarrow> (d, Inl e)
           | (d, Inr _) \<Rightarrow>
               (d\<lparr>zd_total_in := compressed_offset cp, zd_total_out := uncompressed_offset cp\<rparr>, Inr ()))
      | CkNone \<Rightarrow> (zstd_reset d, Inr ())
      | _ \<Rightarrow> (d, Inl (CheckpointError ''expected ZstdFull checkpoint state'')))"

definition zstd_ops :: "zstd_bincode \<Rightarrow> zstd_decompressor decompressor" where
  "zstd_ops bc =
     \<lparr>decompress = zstd_decompress, take_checkpoint = zstd_checkpoint bc, restore = zstd_restore bc\<rparr>"

end
