(* ===== verification/ZstdEmpty.thy ===== *)
theory ZstdEmpty
  imports Zstd SyncStream
begin

text \<open>
  A zstd frame whose last block is empty, as streaming encoders end one, and what the stream indexer makes
  of it when the block before filled the output buffer.
\<close>

section \<open>The stream\<close>

text \<open>A frame of 65536 times the byte \<open>x\<close>: one RLE block of that size and an empty last raw block.\<close>

definition rle_frame :: "byte \<Rightarrow> bytes" where
  "rle_frame x = [0x28, 0xB5, 0x2F, 0xFD, 0, 0x38] @ [2, 0, 8] @ [x] @ [1, 0, 0]"

text \<open>The decompressor after the first call, and after the second.\<close>

definition rle_frame_header :: frame_header where
  "rle_frame_header =
     \<lparr>fh_checksum_flag = False, fh_single_segment = False, fh_window_size = 131072, fh_dictionary_id = 0,
      fh_content_size = None, fh_header_size = 6\<rparr>"

lemma rle_header_parsed: "parse_frame_header (rle_frame x) = Inr (Some rle_frame_header)"
  by (simp add: parse_frame_header_def rle_frame_def le32n_def ZSTD_MAGIC_def window_of_byte_def MIN_WINDOW_LOG_def
      MAX_WINDOW_SIZE_def rle_frame_header_def subslice_def Let_def)

lemma rle_not_skippable: "check_skippable_frame (rle_frame x) = None"
  by (simp add: check_skippable_frame_def rle_frame_def le32n_def SKIPPABLE_MAGIC_LOW_def SKIPPABLE_MAGIC_HIGH_def Let_def)

lemma length_rle_frame [simp]: "length (rle_frame x) = 13"
  by (simp add: rle_frame_def)

lemma rle_block_header: "parse_block_header (drop 6 (rle_frame x)) = Inr \<lparr>bh_is_last = False, bh_block_type = BtRle, bh_block_size = 65536\<rparr>"
  by (simp add: parse_block_header_def rle_frame_def le24_def block_type_of_def)

lemma empty_block_header: "parse_block_header [1, 0, 0] = Inr \<lparr>bh_is_last = True, bh_block_type = BtRaw, bh_block_size = 0\<rparr>"
  by (simp add: parse_block_header_def le24_def block_type_of_def)

lemma drop_rle_frame: "drop 10 (rle_frame x) = [1, 0, 0]" "subslice 9 10 (rle_frame x) = [x]" "le32n (rle_frame x) = ZSTD_MAGIC"
  by (simp_all add: rle_frame_def subslice_def le32n_def ZSTD_MAGIC_def)

section \<open>The calls\<close>

definition rle_opened :: "byte \<Rightarrow> zstd_decompressor" where
  "rle_opened x = zstd_new\<lparr>zd_buffer := rle_frame x, zd_window_size := 131072, zd_block_state := block_state_new,
     zd_frame_header := Some rle_frame_header, zd_phase := PhBlockHeader\<rparr>"

definition rle_history :: "byte \<Rightarrow> bytes" where
  "rle_history x = replicate 65536 x"

lemma length_rle_history [simp]: "length (rle_history x) = 65536"
  by (simp add: rle_history_def)

definition rle_decoded :: "byte \<Rightarrow> zstd_decompressor" where
  "rle_decoded x = (rle_opened x)\<lparr>zd_history := rle_history x\<rparr>"

definition rle_in_block :: "byte \<Rightarrow> zstd_decompressor" where
  "rle_in_block x = (rle_opened x)\<lparr>zd_phase := PhBlockData False 1 65536 1\<rparr>"

lemma rle_open: "zstd_step 65536 (zstd_new\<lparr>zd_buffer := rle_frame x\<rparr>) 0 = Some (Move (rle_opened x) 6)"
  by (simp add: zstd_step_def zstd_new_def frame_header_step_def rle_not_skippable drop_rle_frame rle_header_parsed
      map_err_def rle_opened_def rle_frame_header_def)

lemma rle_block_open:
  "zstd_step 65536 (rle_opened x) 6 = Some (Move (rle_in_block x) 9)"
  by (simp add: zstd_step_def rle_in_block_def rle_opened_def zstd_new_def block_header_step_def staged_len_def rle_block_header
      map_err_def block_type_code_def block_compressed_size_def)

lemma rle_block:
  "zstd_step 65536 (rle_in_block x) 9 = Some (Move (rle_decoded x) 10)"
  by (simp add: zstd_step_def block_data_step_def rle_in_block_def rle_opened_def zstd_new_def block_type_of_def decompress_block_def
      drop_rle_frame map_err_def trim_history_def rle_decoded_def rle_history_def [symmetric] saturating_add64_def
      saturating_mul64_def Let_def)

lemma rle_full: "zstd_step 65536 (rle_decoded x) 10 = Some Stay"
  by (simp add: zstd_step_def rle_decoded_def rle_opened_def zstd_new_def block_header_step_def staged_len_def)

lemma rle_decode: "decode_buffered 65536 (zstd_new\<lparr>zd_buffer := rle_frame x\<rparr>) = Some ((rle_decoded x)\<lparr>zd_buffer := [1, 0, 0]\<rparr>, Inr True)"
proof -
  have "zd_phase (rle_decoded x) \<noteq> PhDone" "zd_buffer (rle_decoded x) = rle_frame x"
    by (simp_all add: rle_decoded_def rle_opened_def)
  then show ?thesis
    by (simp add: decode_buffered_def zstd_loop.simps [of 65536] rle_open rle_block_open rle_block rle_full drop_rle_frame)
qed

text \<open>The first call takes the whole frame and gives a full buffer.\<close>

definition rle_delivered :: "byte \<Rightarrow> zstd_decompressor" where
  "rle_delivered x = (rle_decoded x)\<lparr>zd_buffer := [1, 0, 0], zd_total_in := 13, zd_delivered := 65536, zd_total_out := 65536\<rparr>"

lemma idle_new: "decode_buffered 65536 zstd_new = Some (zstd_new, Inr False)"
proof -
  have "zstd_step 65536 zstd_new 0 = Some Stay"
    by (simp add: zstd_step_def zstd_new_def frame_header_step_def)
  moreover have "zd_phase zstd_new \<noteq> PhDone" by (simp add: zstd_new_def)
  ultimately show ?thesis by (simp add: decode_buffered_def zstd_loop.simps [of 65536 zstd_new])
qed

lemma rle_first_call:
  "zstd_decompress zstd_new (rle_frame x) 65536 =
    (rle_delivered x, Inr \<lparr>bytes_consumed = 13, produced = rle_history x, status = Continue\<rparr>)"
proof -
  let ?d = "(rle_decoded x)\<lparr>zd_buffer := [1, 0, 0]\<rparr>"
  have new: "staged_len zstd_new = 0" "\<not> zd_finished zstd_new" "zd_buffer zstd_new = []"
    by (simp_all add: staged_len_def zstd_new_def)
  have ne: "rle_frame x \<noteq> []" by (simp add: rle_frame_def)
  have sel: "zd_total_in ?d = 0" "zd_total_out ?d = 0" "zd_delivered ?d = 0" "zd_history ?d = rle_history x" "\<not> zd_finished ?d"
    by (simp_all add: rle_decoded_def rle_opened_def zstd_new_def)
  have "zstd_deliver (rle_frame x) 65536 ?d 13 True = (rle_delivered x, Inr \<lparr>bytes_consumed = 13, produced = rle_history x, status = Continue\<rparr>)"
    using sel by (simp add: zstd_deliver_def drain_staged_def staged_len_def subslice_def zstd_status_def rle_delivered_def Let_def)
  then have "zstd_decode (rle_frame x) 65536 zstd_new =
      Some (rle_delivered x, Inr \<lparr>bytes_consumed = 13, produced = rle_history x, status = Continue\<rparr>)"
    using new ne by (simp add: zstd_decode_def idle_new rle_decode)
  then show ?thesis using new ne by (simp add: zstd_decompress_def)
qed

text \<open>The second call has nothing to give but the empty block; the third reports the end.\<close>

lemma rle_second_call:
  "\<exists>d d'. zstd_decompress (rle_delivered x) [] 65536 = (d, Inr \<lparr>bytes_consumed = 0, produced = [], status = Continue\<rparr>) \<and>
    zstd_decompress d [] 65536 = (d', Inr \<lparr>bytes_consumed = 0, produced = [], status = StreamEnd\<rparr>)"
proof -
  let ?d = "rle_delivered x"
  let ?d1 = "?d\<lparr>zd_phase := PhBlockData True 0 0 0\<rparr>"
  let ?d2 = "?d\<lparr>zd_phase := PhFrameChecksum False\<rparr>"
  let ?d3 = "?d\<lparr>zd_phase := PhFrameHeader, zd_frame_header := None\<rparr>"
  have sel: "zd_phase ?d = PhBlockHeader" "zd_buffer ?d = [1, 0, 0]" "staged_len ?d = 0" "zd_history ?d = rle_history x"
    "zd_delivered ?d = 65536" "zd_window_size ?d = 131072" "zd_frame_header ?d = Some rle_frame_header" "\<not> zd_finished ?d"
    by (simp_all add: rle_delivered_def rle_decoded_def rle_opened_def zstd_new_def staged_len_def)
  have 1: "zstd_step 65536 ?d 0 = Some (Move ?d1 3)"
    using sel by (simp add: zstd_step_def block_header_step_def empty_block_header map_err_def block_type_code_def
        block_compressed_size_def)
  have 2: "zstd_step 65536 ?d1 3 = Some (Move ?d2 3)"
    using sel by (simp add: zstd_step_def block_data_step_def block_type_of_def decompress_block_def map_err_def
        trim_history_def saturating_add64_def saturating_mul64_def rle_frame_header_def Let_def)
  have 3: "zstd_step 65536 ?d2 3 = Some (Move ?d3 3)"
    using sel by (simp add: zstd_step_def frame_checksum_step_def)
  have 4: "zstd_step 65536 ?d3 3 = Some Stay"
    using sel by (simp add: zstd_step_def frame_header_step_def)
  have "zstd_loop 65536 ?d 0 = Some (?d3, Inr 3)"
    by (simp add: zstd_loop.simps [of 65536 ?d 0] zstd_loop.simps [of 65536 ?d1 3] zstd_loop.simps [of 65536 ?d2 3]
        zstd_loop.simps [of 65536 ?d3 3] 1 2 3 4)
  then have "decode_buffered 65536 ?d = Some (?d3\<lparr>zd_buffer := []\<rparr>, Inr True)" using sel by (simp add: decode_buffered_def)
  then have "zstd_decode [] 65536 ?d = Some (zstd_deliver [] 65536 (?d3\<lparr>zd_buffer := []\<rparr>) 0 True)"
    by (simp add: zstd_decode_def)
  then have "zstd_decompress ?d [] 65536 = zstd_deliver [] 65536 (?d3\<lparr>zd_buffer := []\<rparr>) 0 True"
    using sel by (simp add: zstd_decompress_def)
  moreover have "zstd_deliver [] 65536 (?d3\<lparr>zd_buffer := []\<rparr>) 0 True =
      (?d3\<lparr>zd_buffer := []\<rparr>, Inr \<lparr>bytes_consumed = 0, produced = [], status = Continue\<rparr>)"
    using sel by (simp add: zstd_deliver_def drain_staged_def staged_len_def subslice_def zstd_status_def Let_def
        rle_delivered_def rle_decoded_def rle_opened_def)
  moreover have "\<exists>d'. zstd_decompress (?d3\<lparr>zd_buffer := []\<rparr>) [] 65536 =
      (d', Inr \<lparr>bytes_consumed = 0, produced = [], status = StreamEnd\<rparr>)"
    using sel by (simp add: zstd_decompress_def staged_len_def)
  ultimately show ?thesis by simp
qed

section \<open>Building its index\<close>

definition rle_start :: "(zstd_decompressor, fixed_interval) stream_indexer" where
  "rle_start = indexer_with_parts zstd_new (stream_index_new (codec_of_format CfZstd) (Some 13))
     (fixed_interval_new (default_interval_for_format CfZstd)) IxNeedInput 0 0"

text \<open>After the first call, still in want of input, and after the second.\<close>

definition rle_indexed :: "byte \<Rightarrow> (zstd_decompressor, fixed_interval) stream_indexer" where
  "rle_indexed x = (indexer_provide_data rle_start (rle_frame x))
     \<lparr>ix_decompressor := rle_delivered x, ix_out_buf := rle_history x, ix_input_pos := 13, ix_compressed_pos := 13,
      ix_unpacked_pos := 65536, ix_index := (stream_index_new (codec_of_format CfZstd) (Some 13))\<lparr>si_indexed_to := 65536\<rparr>,
      ix_state := IxNeedInput\<rparr>"

lemma rle_zstd_ops [simp]: "decompress (zstd_ops bc) = zstd_decompress"
  by (simp add: zstd_ops_def)

lemma rle_no_checkpoint:
  "should_checkpoint fixed_interval_ops (fixed_interval_new (default_interval_for_format CfZstd)) ctx =
    (fixed_interval_new (default_interval_for_format CfZstd), 67108864 \<le> distance ctx)"
  by (simp add: fixed_interval_ops_def fixed_interval_new_def default_interval_for_format_def)

lemma rle_start_sel [simp]:
  "ix_decompressor rle_start = zstd_new" "ix_state rle_start = IxNeedInput" "ix_stop_at rle_start = None"
  "\<not> ix_emit_output rle_start" "\<not> ix_eof rle_start" "ix_out_buf rle_start = replicate 65536 0" "ix_out_len rle_start = 0"
  "ix_out_read rle_start = 0" "ix_compressed_pos rle_start = 0" "ix_unpacked_pos rle_start = 0"
  "ix_strategy rle_start = fixed_interval_new (default_interval_for_format CfZstd)"
  "ix_index rle_start = stream_index_new (codec_of_format CfZstd) (Some 13)" "ix_last_checkpoint_pos rle_start = 0"
  by (simp_all add: rle_start_def indexer_with_parts_def BUF_SIZE_def)

lemma rle_step1: "indexer_step (zstd_ops bc) fixed_interval_ops rle_start = Some (rle_start, NeedInput)"
proof -
  have "indexer_step_once (zstd_ops bc) fixed_interval_ops rle_start = (rle_start, Some NeedInput)"
    by (simp add: indexer_step_once_def)
  then show ?thesis by (subst indexer_step.simps) simp
qed

lemma rle_step2:
  "indexer_step (zstd_ops bc) fixed_interval_ops (indexer_provide_data rle_start (rle_frame x)) = Some (rle_indexed x, NeedInput)"
proof -
  let ?r = "indexer_provide_data rle_start (rle_frame x)"
  have idx: "si_indexed_to (stream_index_new (codec_of_format CfZstd) (Some 13)) = 0" by (simp add: stream_index_new_def)
  have buf: "copy_into (replicate 65536 0) 0 (rle_history x) = rle_history x" by (simp add: copy_into_def)
  have strat: "ix_strategy rle_start = ix_strategy ?r" by (simp add: indexer_provide_data_def)
  have ne: "rle_frame x \<noteq> []" "rle_history x \<noteq> []" by (simp_all add: rle_frame_def rle_history_def)
  have "indexer_decode (zstd_ops bc) fixed_interval_ops ?r (rle_frame x) = (rle_indexed x, Some NeedInput)"
    by (simp add: indexer_decode_def indexer_provide_data_def rle_first_call buf idx Let_def rle_no_checkpoint
        distance_def indexer_context_def indexer_conclude_def bytes_produced_def pending_output_def rle_indexed_def ne)
  then have "indexer_step_once (zstd_ops bc) fixed_interval_ops ?r = (rle_indexed x, Some NeedInput)"
    by (simp add: indexer_step_once_def indexer_process_def pending_output_def indexer_provide_data_def)
  then show ?thesis by (subst indexer_step.simps) simp
qed

text \<open>At the end of the file the decoder is called without input, and gives nothing.\<close>

lemma rle_step3:
  "\<exists>r. indexer_step (zstd_ops bc) fixed_interval_ops (indexer_signal_eof (rle_indexed x)) = Some (r, RequestError TruncatedInput)"
proof -
  let ?r = "indexer_signal_eof (rle_indexed x)"
  obtain d where d: "zstd_decompress (rle_delivered x) [] 65536 = (d, Inr \<lparr>bytes_consumed = 0, produced = [], status = Continue\<rparr>)"
    using rle_second_call by blast
  have sel: "ix_decompressor ?r = rle_delivered x" "ix_out_buf ?r = rle_history x" "ix_compressed_pos ?r = 13"
    "ix_state ?r = IxProcessing" "ix_eof ?r" "ix_input_pos ?r = 13" "ix_input_buf ?r = rle_frame x" "ix_out_len ?r = 0"
    "ix_out_read ?r = 0"
    by (simp_all add: indexer_signal_eof_def rle_indexed_def indexer_provide_data_def)
  have "\<exists>r. indexer_decode (zstd_ops bc) fixed_interval_ops ?r [] = (r, Some (RequestError TruncatedInput))"
    using sel d by (simp add: indexer_decode_def indexer_conclude_def bytes_produced_def Let_def)
  then obtain r where "indexer_step_once (zstd_ops bc) fixed_interval_ops ?r = (r, Some (RequestError TruncatedInput))"
    using sel by (auto simp: indexer_step_once_def indexer_process_def pending_output_def)
  then show ?thesis by (subst indexer_step.simps) simp
qed

lemma rle_detected: "stream_detect_format (rle_frame x) (plain_rd (rle_frame x)) = Inr CfZstd"
proof -
  have "header_len (plain_rd (rle_frame x)) 0 = 13"
    by (simp add: header_len.simps [of _ 0] header_len.simps [of _ 13] plain_rd_def Let_def)
  then show ?thesis
    by (simp add: stream_detect_format_def detect_format_def rle_frame_def DETECT_MIN_BYTES_def ok_or_def)
qed

section \<open>Properties\<close>

text \<open>
  C37. A flaw: a valid zstd file of 13 bytes, 65536 bytes in one RLE block followed by an empty last block, cannot be
  indexed. The first call of the decoder fills the output buffer and leaves the empty block buffered; the
  next, without input, decodes it, gives nothing, and does not yet report the end of the stream (the
  third call does), which the indexer takes for a truncated file.
\<close>

theorem zstd_empty_last_block_refused:
  "(\<exists>d1 d2 d3.
      zstd_decompress zstd_new (rle_frame x) 65536 =
        (d1, Inr \<lparr>bytes_consumed = 13, produced = replicate 65536 x, status = Continue\<rparr>) \<and>
      zstd_decompress d1 [] 65536 = (d2, Inr \<lparr>bytes_consumed = 0, produced = [], status = Continue\<rparr>) \<and>
      zstd_decompress d2 [] 65536 = (d3, Inr \<lparr>bytes_consumed = 0, produced = [], status = StreamEnd\<rparr>)) \<and>
   stream_new (zstd_ops bc) (\<lambda>_. Inr zstd_new) (rle_frame x) (plain_rd (rle_frame x)) = Some (Inl TruncatedInput)"
proof -
  let ?rd = "plain_rd (rle_frame x)" and ?go = "\<lambda>p _. (p, True)"
  let ?loop = "build_loop (zstd_ops bc) fixed_interval_ops (rle_frame x) ?rd ?go ()"
  have rd: "?rd 0 BUF_SIZE = 13" "?rd 13 BUF_SIZE = 0" by (simp_all add: plain_rd_def BUF_SIZE_def)
  have f: "take 13 (rle_frame x) = rle_frame x" by simp
  have e: "request_error NeedInput = None" by (simp add: request_error_def)
  obtain r where r: "indexer_step (zstd_ops bc) fixed_interval_ops (indexer_signal_eof (rle_indexed x)) =
      Some (r, RequestError TruncatedInput)" using rle_step3 by blast
  have "?loop (indexer_signal_eof (rle_indexed x)) 13 = Some (r, Inl TruncatedInput)"
    by (subst build_loop.simps) (simp add: r request_error_def)
  then have "?loop (indexer_provide_data rle_start (rle_frame x)) 13 = Some (r, Inl TruncatedInput)"
    by (subst build_loop.simps) (simp add: rle_step2 e indexer_answer_def rd)
  then have "?loop rle_start 0 = Some (r, Inl TruncatedInput)"
    by (subst build_loop.simps) (simp add: rle_step1 e indexer_answer_def rd f)
  then have "stream_new (zstd_ops bc) (\<lambda>_. Inr zstd_new) (rle_frame x) ?rd = Some (Inl TruncatedInput)"
    by (simp add: stream_new_def rle_detected stream_with_codec_def stream_build_def indexer_new_def rle_start_def)
  with rle_first_call [of x] rle_second_call [of x] show ?thesis unfolding rle_history_def by blast
qed

end
