(* ===== verification/Spec2Isabelle.thy ===== *)
theory Spec2Isabelle
  imports EndToEnd Budget Roundtrips X86Loop ZHufFour ZLz ZstdEmpty
begin

text \<open>
  Verification of the core of iluvatar: random access into compressed streams and archives.

  \<^bold>\<open>The program.\<close> iluvatar makes one pass over a compressed archive (or bare stream), records where
  every member's data starts in the decompressed stream, and lays checkpoints of the decompressor's
  state along the way. Reading a member restores the nearest checkpoint, seeks in the compressed
  file and decodes forward. Its core is sans-I/O: state machines that ask for input and hand out
  output, driven by small loops in the synchronous API. The archive parsers, the stream indexer and
  reader, the indexing engine and the index meet at narrow interfaces, which are the locales here.

  \<^bold>\<open>Theories and sources.\<close>
  \<^item> \<^theory_text>\<open>Prelude\<close>, \<^theory_text>\<open>Text\<close>: bytes, slices, errors (\<^verbatim>\<open>src/error.rs\<close>) as the left of a sum, 64-bit wrap-around,
    UTF-8 and number parsing of the standard library.
  \<^item> \<^theory_text>\<open>Archive\<close>: entries, events, detection (\<^verbatim>\<open>src/archive\<close>), the loop \<^verbatim>\<open>feed_to_parser\<close>, and the locale
    \<open>incremental_parser\<close>: what a parser promises, from which independence of chunking and termination
    follow once.
  \<^item> \<^theory_text>\<open>TarHeader\<close>, \<^theory_text>\<open>TarParser\<close>, \<^theory_text>\<open>TarWriter\<close> (\<^verbatim>\<open>src/tar\<close>); \<^theory_text>\<open>ArParser\<close>, \<^theory_text>\<open>ArWriter\<close> (\<^verbatim>\<open>src/ar\<close>); \<^theory_text>\<open>CpioParser\<close>,
    \<^theory_text>\<open>CpioLinks\<close>, \<^theory_text>\<open>CpioWriter\<close> (\<^verbatim>\<open>src/cpio\<close>): the three parsers as records with a state datatype and one
    definition per handler, interpretations of the locale on them, the specification of the hard-link
    policy of cpio (\<open>policy_output\<close>), and writers of the formats as their specification.
  \<^item> \<^theory_text>\<open>Checkpoint\<close>, \<^theory_text>\<open>Codec\<close>, \<^theory_text>\<open>NoneDecompressor\<close> (\<^verbatim>\<open>src/compress\<close>): checkpoints, codec specifications and
    format detection; the record \<open>decompressor\<close> of a decoder's operations and the locale \<open>decoder\<close> of
    its laws; the copy decompressor, which interprets it.
  \<^item> \<^theory_text>\<open>Words\<close>, \<^theory_text>\<open>Branch\<close>, \<^theory_text>\<open>X86Loop\<close>, \<^theory_text>\<open>FilterStage\<close> (\<^verbatim>\<open>src/compress/filter.rs\<close>), \<^theory_text>\<open>Aes\<close> (\<^verbatim>\<open>aes.rs\<close>), \<^theory_text>\<open>Bcj2\<close>
    (\<^verbatim>\<open>bcj2.rs\<close>): the branch converters on machine words, the delta filter, CBC decryption and the
    four-stream x86 converter, each with a reference on the whole stream (\<open>filter_output\<close>,
    \<open>aes_plaintext\<close>, \<open>bcj2_output\<close>) and a lemma that the stage keeps the \<open>decoder\<close> contract of it.
  \<^item> \<^theory_text>\<open>Chain\<close>, \<^theory_text>\<open>ChainCorrect\<close> (\<^verbatim>\<open>chain.rs\<close>): the pipeline of stages; in the locale \<open>pipeline\<close>, if every
    stage keeps the contract then the chain does.
  \<^item> \<^theory_text>\<open>Stages\<close>, \<^theory_text>\<open>Roundtrips\<close> (\<^verbatim>\<open>codec.rs\<close>): \<^verbatim>\<open>CodecSpec::create\<close> over the sum of the decompressors, and the
    encoders of the tests for delta, ARM and AES as the specification of their decoders.
  \<^item> \<^theory_text>\<open>ZBits\<close>, \<^theory_text>\<open>ZFse\<close>, \<^theory_text>\<open>ZHuffman\<close>, \<^theory_text>\<open>ZSeq\<close>, \<^theory_text>\<open>ZBlock\<close>, \<^theory_text>\<open>Zstd\<close> (\<^verbatim>\<open>src/compress/zstd_dec\<close>): the zstd decoder,
    one theory per file (\<^verbatim>\<open>bits.rs\<close>, \<^verbatim>\<open>fse.rs\<close>, \<^verbatim>\<open>huffman.rs\<close>, \<^verbatim>\<open>sequences.rs\<close>, \<^verbatim>\<open>block.rs\<close> with \<^verbatim>\<open>frame.rs\<close>,
    \<^verbatim>\<open>mod.rs\<close>), with its buffering and checkpoints. What is shown of it is in \<^theory_text>\<open>ZFseFacts\<close> (tables),
    \<^theory_text>\<open>ZHufFacts\<close> (weights), \<^theory_text>\<open>ZHufTable\<close> (prefix codes), \<^theory_text>\<open>ZHufStream\<close> and \<^theory_text>\<open>ZHufFour\<close> (streams), \<^theory_text>\<open>ZLz\<close>
    (executing sequences) and \<^theory_text>\<open>ZstdEmpty\<close> (an empty last block).
  \<^item> \<^theory_text>\<open>StreamIndex\<close>, \<^theory_text>\<open>Reader\<close>, \<^theory_text>\<open>ReaderCorrect\<close>, \<^theory_text>\<open>ReaderRange\<close>, \<^theory_text>\<open>Strategy\<close>, \<^theory_text>\<open>Indexer\<close>,
    \<^theory_text>\<open>IndexerCorrect\<close> (\<^verbatim>\<open>src/stream\<close>, \<^verbatim>\<open>src/engine/checkpoint_strategy.rs\<close>): the checkpoint table and its
    thinning, the stream reader, the strategies, the stream indexer, each with its invariant
    (\<open>live\<close>, \<open>ix_live\<close>) and the lemma that a step keeps it and makes progress.
  \<^item> \<^theory_text>\<open>SyncStream\<close> (\<^verbatim>\<open>src/sync/stream.rs\<close> and \<^verbatim>\<open>EntryReader\<close>): building the index of a bare stream and
    reading ranges of it. \<^theory_text>\<open>Budget\<close>: the bound of the thinning strategy over such a build.
  \<^item> \<^theory_text>\<open>ArchiveIndex\<close> (\<^verbatim>\<open>src/index\<close>): entries, lookup by path, the builder, saving and loading.
  \<^item> \<^theory_text>\<open>Engine\<close>, \<^theory_text>\<open>EngineCorrect\<close> (\<^verbatim>\<open>src/engine/state_machine.rs\<close>): the indexing engine over the sum of the
    three parsers, and the read engine; \<open>parse_outcome\<close> (the parser over some chunks of the stream) is
    the specification the engine refines, \<open>parse_stream\<close> (over one piece) the one it refines where the
    parser does not give up inside the stream.
  \<^item> \<^theory_text>\<open>SyncArchive\<close>, \<^theory_text>\<open>EndToEnd\<close> (\<^verbatim>\<open>src/sync/reader.rs\<close>): \<^verbatim>\<open>Archive\<close>, from a compressed file to the
    contents of its members.

  \<^bold>\<open>How state and operations correspond.\<close> A struct is a record, an enum a datatype with the source's
  variants; a method takes the record and returns it updated. A fallible method that keeps its state
  on error returns the pair of the state and a sum. Counters (\<^verbatim>\<open>u64\<close>, \<^verbatim>\<open>usize\<close>) are natural numbers,
  with the wrap-around of a release build where an untrusted value can overflow; bytes are \<open>8 word\<close>.
  Error messages are the text of the source's literal or format string. A loop that need not end is a
  \<open>partial_function (option)\<close>: \<open>None\<close> is divergence, and the properties prove that it does not occur (or, for
  the Huffman weights, exactly when it does). A panic of untrusted input is the error \<open>Panicked\<close>. A file is its bytes with a function saying how many bytes a read gives (\<open>reads_ok\<close>); I/O errors are
  not modelled.

  \<^bold>\<open>What the lemmas show.\<close>
  \<^item> Parsers: every archive a ustar, GNU ar, newc or odc writer produces is parsed, in any chunks, into its
    members with the offsets of their data; cpio loses no member and resolves every hard link; PAX
    records are read back whole; the driving loop ends; how a stream is cut does not matter, unless the
    parser gives up inside it.
  \<^item> Stages: the branch converters, delta, AES and BCJ2 and any chain of them keep the \<open>decoder\<close> contract; the
    x86 address loop ends; what the encoders of the tests write is read back.
  \<^item> Streams: every range is read exactly, truncation is reported, one live reader serves ascending ranges,
    building an index with any strategy and callback ends with a usable table, thinning keeps its budget.
  \<^item> Archives: the engine refines parsing the stream; every member of a written archive is listed and read back
    by path; a cancelled index is usable; lookup finds the last member; a saved index loads as itself
    but for its secrets; loaded indexes are well-formed.
  \<^item> zstd: FSE tables are sound, accepted Huffman weights give complete prefix codes, the interleaved
    decoder of four streams equals reading them symbol by symbol, executing sequences in overshooting
    chunks equals the LZ77 copies on lists.
  \<^item> Flaws, each proved of the model: a PAX length that overflows panics; a PAX size near \<open>2 ^ 64\<close> skips nothing; a
    metadata member of size 0 drops the rest of its chunk; an odc archive ending with its trailer loses
    links; a tar archive is taken for another format by the name of its first member; FSE-coded weights
    of one symbol are decoded for ever; a zstd file that ends with an empty block may not be indexable.

  \<^bold>\<open>Bounds.\<close> \<open>grow_interval\<close> doubles at most 64 times, since the interval saturates at 64 bits. \<open>next_position\<close> of
  \<^theory_text>\<open>ZFse\<close> looks for the next free cell with as much fuel as the table has cells: its step is odd and the
  size a power of two, so all are visited (\<^theory_text>\<open>ZFseFacts\<close>). \<open>x86_dest\<close> unrolls two rounds of its address loop; in the
  states the converter reaches there is no third (\<^theory_text>\<open>X86Loop\<close>). Nothing else uses fuel.

  \<^bold>\<open>Parameters.\<close> \<open>create\<close>, or its environment \<open>codec_env\<close> in \<^theory_text>\<open>Stages\<close>, stands for the decompressors that are not
  part of the sum (gzip, bzip2, LZMA, LZMA2, xz, and zstd, which is modelled on its own); the block cipher of
  AES, the floating-point operations of two strategies and \<^verbatim>\<open>bincode\<close> are arguments with named hypotheses
  (a cipher maps blocks to blocks, \<^verbatim>\<open>bincode\<close> reads what it wrote, a read gives no more than it was asked for
  and nothing only at the end). Properties over a \<open>decoder\<close> are for decompressors that keep that
  contract; copy, the branch converters, delta, AES, BCJ2 and their chains are shown to, the zstd
  decoder is shown not to.

  \<^bold>\<open>Not modelled.\<close> \<^verbatim>\<open>gzip.rs\<close> and \<^verbatim>\<open>bzip2.rs\<close> wrap third-party engines (miniz-oxide, bzip2) with checkpoints of
  their inner state; \<^verbatim>\<open>src/compress/lzma\<close> and \<^verbatim>\<open>xz.rs\<close> are decoders of their own that are left out, but for their
  checkpoint states. The asynchronous API (\<^verbatim>\<open>src/tokio\<close>) repeats the synchronous loops over futures; the
  command line (\<^verbatim>\<open>src/main.rs\<close>), the crate root, benches and tests hold no core logic.
\<close>

end
